(* ===== verification/Prelude.thy ===== *)
theory Prelude
  imports Main "HOL-Library.Word"
begin

text \<open>
  What every component theory shares: the machine types of the 32-bit target, the
  outcome of a Rust function (a value, an \<open>Err\<close>, or a panic) with its sequencing, and
  the facts on lists, slot tables and words that the component proofs use.
\<close>

section \<open>Machine types\<close>

type_synonym u8 = "8 word"
type_synonym u16 = "16 word"
type_synonym u32 = "32 word"
type_synonym u64 = "64 word"

text \<open>The kernel runs on a 32-bit ARM core, so \<open>usize\<close> is 32 bits wide.\<close>

type_synonym usize = "32 word"

text \<open>
  A PID is a non-zero byte and a TID a small array index; both are only compared and used
  as indices, so they are natural numbers here, and the casts of the source
  (\<open>as u8\<close>, \<open>PID::new\<close>) are written out where they happen.
\<close>

type_synonym pid = nat
type_synonym tid = nat
type_synonym cid = u32

section \<open>Outcomes\<close>

text \<open>
  A Rust function that returns \<open>Result<T, Error>\<close> and may panic has three outcomes. The
  error type is a parameter, so that the prelude does not depend on the ABI. A function
  that mutates its receiver returns the outcome together with the new state: what was
  written before an early return stays written, as in the source.
\<close>

datatype (outcome_err: 'e, outcome_val: 'a) outcome = Done 'a | Fail 'e | Panic

definition seq :: "('e, 'a) outcome \<times> 's \<Rightarrow> ('a \<Rightarrow> 's \<Rightarrow> ('e, 'b) outcome \<times> 's)
    \<Rightarrow> ('e, 'b) outcome \<times> 's" where
  "seq r f = (case r of
     (Done a, s) \<Rightarrow> f a s
   | (Fail e, s) \<Rightarrow> (Fail e, s)
   | (Panic, s) \<Rightarrow> (Panic, s))"

lemma seq_simps [simp]:
  "seq (Done a, s) f = f a s"
  "seq (Fail e, s) f = (Fail e, s)"
  "seq (Panic, s) f = (Panic, s)"
  by (simp_all add: seq_def)

definition no_panic :: "('e, 'a) outcome \<times> 's \<Rightarrow> bool" where
  "no_panic r \<longleftrightarrow> fst r \<noteq> Panic"

lemma no_panic_simps [simp]:
  "no_panic (Done a, s)" "no_panic (Fail e, s)" "\<not> no_panic (Panic, s)"
  by (simp_all add: no_panic_def)

text \<open>\<open>NonZeroUsize::new\<close> and \<open>map(get).unwrap_or(0)\<close>, its left inverse.\<close>

definition nz :: "usize \<Rightarrow> usize option" where
  "nz x = (if x = 0 then None else Some x)"

definition unnz :: "usize option \<Rightarrow> usize" where
  "unnz x = (case x of None \<Rightarrow> 0 | Some v \<Rightarrow> v)"

definition wf_nz :: "usize option \<Rightarrow> bool" where
  "wf_nz x \<longleftrightarrow> x \<noteq> Some 0"

lemma unnz_simps [simp]: "unnz None = 0" "unnz (Some v) = v"
  by (simp_all add: unnz_def)

lemma nz_zero [simp]: "nz 0 = None"
  by (simp add: nz_def)

lemma nz_unnz [simp]: "wf_nz x \<Longrightarrow> nz (unnz x) = x"
  by (cases x) (auto simp: nz_def wf_nz_def)

lemma unnz_nz [simp]: "unnz (nz x) = x"
  by (simp add: nz_def)

lemma wf_nz_nz [simp]: "wf_nz (nz x)"
  by (simp add: nz_def wf_nz_def)

section \<open>Lists and slot tables\<close>

text \<open>\<open>iter().position(p)\<close>: the least index that satisfies \<open>p\<close>.\<close>

fun find_index :: "('a \<Rightarrow> bool) \<Rightarrow> 'a list \<Rightarrow> nat option" where
  "find_index p [] = None"
| "find_index p (x # xs) = (if p x then Some 0 else map_option Suc (find_index p xs))"

lemma find_index_None: "find_index p xs = None \<longleftrightarrow> (\<forall>x \<in> set xs. \<not> p x)"
  by (induction xs) auto

lemma find_index_Some:
  "find_index p xs = Some i \<Longrightarrow> i < length xs \<and> p (xs ! i) \<and> (\<forall>j < i. \<not> p (xs ! j))"
proof (induction xs arbitrary: i)
  case Nil
  then show ?case by simp
next
  case (Cons x xs)
  show ?case
  proof (cases "p x")
    case True
    with Cons.prems show ?thesis by simp
  next
    case False
    with Cons.prems obtain k where k: "find_index p xs = Some k" and i: "i = Suc k"
      by auto
    from Cons.IH [OF k] False show ?thesis
      by (auto simp: i nth_Cons split: nat.splits)
  qed
qed

lemmas find_index_bound = find_index_Some [THEN conjunct1]
lemmas find_index_holds = find_index_Some [THEN conjunct2, THEN conjunct1]

lemma find_index_exists: "i < length xs \<Longrightarrow> p (xs ! i) \<Longrightarrow> \<exists>j. find_index p xs = Some j"
  by (metis find_index_None nth_mem option.exhaust)

text \<open>Counting the slots that satisfy a predicate, under a single-slot update.\<close>

definition count_if :: "('a \<Rightarrow> bool) \<Rightarrow> 'a list \<Rightarrow> nat" where
  "count_if p xs = length (filter p xs)"

lemma count_if_le [simp]: "count_if p xs \<le> length xs"
  by (simp add: count_if_def)

lemma count_if_update:
  "i < length xs \<Longrightarrow>
   count_if p (xs[i := y]) + (if p (xs ! i) then 1 else 0) = count_if p xs + (if p y then 1 else 0)"
proof (induction xs arbitrary: i)
  case Nil
  then show ?case by simp
next
  case (Cons x xs)
  then show ?case by (cases i) (auto simp: count_if_def)
qed

lemma count_if_pos: "i < length xs \<Longrightarrow> p (xs ! i) \<Longrightarrow> 0 < count_if p xs"
  by (auto simp: count_if_def filter_empty_conv)

lemma count_if_zero: "count_if p xs = 0 \<longleftrightarrow> (\<forall>i < length xs. \<not> p (xs ! i))"
  by (simp add: count_if_def filter_empty_conv all_set_conv_all_nth)

lemma count_if_card: "count_if p xs = card {i. i < length xs \<and> p (xs ! i)}"
  by (simp add: count_if_def length_filter_conv_card)

lemma count_if_map: "count_if p (map f xs) = count_if (p \<circ> f) xs"
  by (simp add: count_if_def filter_map)

text \<open>Reading an updated list at any index, in bounds or not.\<close>

lemma nth_update_if: "xs[i := x] ! j = (if i = j \<and> j < length xs then x else xs ! j)"
  by (cases "i < length xs") (auto simp: nth_list_update list_update_beyond not_less)

text \<open>Indices of a ring of \<open>n\<close> slots.\<close>

lemma ring_mod_if: "(t :: nat) < n \<Longrightarrow> a < n \<Longrightarrow> (t + a) mod n = (if t + a < n then t + a else t + a - n)"
  by (simp add: le_mod_geq)

lemma ring_mod_inj: "(t :: nat) < n \<Longrightarrow> a < n \<Longrightarrow> b < n \<Longrightarrow> (t + a) mod n = (t + b) mod n \<longleftrightarrow> a = b"
  by (auto simp: ring_mod_if split: if_splits)

lemma ring_mod_surj: "(t :: nat) < n \<Longrightarrow> j < n \<Longrightarrow> \<exists>k < n. (t + k) mod n = j"
  by (rule exI [of _ "if t \<le> j then j - t else j + n - t"]) (auto simp: ring_mod_if)

section \<open>Words\<close>

lemma word_add_of_nat_inj:
  fixes a :: "'w::len word"
  assumes "j < 2 ^ LENGTH('w)" and "k < 2 ^ LENGTH('w)"
  shows "a + of_nat j = a + of_nat k \<longleftrightarrow> j = k"
  using assms by (simp add: word_of_nat_eq_iff take_bit_nat_eq_self)

lemma unat_diff_of_nat:
  fixes a :: "'w::len word"
  assumes "k < 2 ^ LENGTH('w)"
  shows "unat (a + of_nat k - a) = k"
  using assms by (simp add: unsigned_of_nat take_bit_nat_eq_self)

end
