(* ===== verification/Xous_Defs.thy ===== *)
theory Xous_Defs
  imports Prelude
begin

text \<open>
  The data types shared by the kernel and user space (\<open>xous-rs/src/definitions.rs\<close>,
  \<open>definitions/memoryflags.rs\<close>, \<open>definitions/messages\<close>) and the part of
  \<open>arch/arm/mod.rs\<close> they need: errors, server and app ids, memory ranges and flags,
  thread priorities, messages and envelopes, with their conversions to and from machine
  words.
\<close>

unbundle bit_operations_syntax

section \<open>Errors\<close>

datatype error =
    NoError | BadAlignment | BadAddress | OutOfMemory | MemoryInUse | InterruptNotFound
  | InterruptInUse | InvalidString | ServerExists | ServerNotFound | ProcessNotFound
  | ProcessNotChild | ProcessTerminated | Timeout | InternalError | ServerQueueFull
  | ThreadNotAvailable | UnhandledSyscall | InvalidSyscall | ShareViolation | InvalidThread
  | InvalidPID | UnknownError | AccessDenied | Again | DoubleFree | DebugInProgress
  | InvalidLimit | ParseError | InvalidPhysicalAddress | InvalidArguments | KernelTableFull

type_synonym 'a res = "(error, 'a) outcome"

text \<open>The discriminants of the enum (\<open>*self as usize\<close>).\<close>

fun error_discr :: "error \<Rightarrow> usize" where
  "error_discr NoError = 0"
| "error_discr BadAlignment = 1"
| "error_discr BadAddress = 2"
| "error_discr OutOfMemory = 3"
| "error_discr MemoryInUse = 4"
| "error_discr InterruptNotFound = 5"
| "error_discr InterruptInUse = 6"
| "error_discr InvalidString = 7"
| "error_discr ServerExists = 8"
| "error_discr ServerNotFound = 9"
| "error_discr ProcessNotFound = 10"
| "error_discr ProcessNotChild = 11"
| "error_discr ProcessTerminated = 12"
| "error_discr Timeout = 13"
| "error_discr InternalError = 14"
| "error_discr ServerQueueFull = 15"
| "error_discr ThreadNotAvailable = 16"
| "error_discr UnhandledSyscall = 17"
| "error_discr InvalidSyscall = 18"
| "error_discr ShareViolation = 19"
| "error_discr InvalidThread = 20"
| "error_discr InvalidPID = 21"
| "error_discr UnknownError = 22"
| "error_discr AccessDenied = 23"
| "error_discr Again = 24"
| "error_discr DoubleFree = 25"
| "error_discr DebugInProgress = 26"
| "error_discr InvalidLimit = 27"
| "error_discr ParseError = 28"
| "error_discr InvalidPhysicalAddress = 29"
| "error_discr InvalidArguments = 30"
| "error_discr KernelTableFull = 31"

definition error_from_usize :: "usize \<Rightarrow> error" where
  "error_from_usize a =
     (if a = 0 then NoError else if a = 1 then BadAlignment else if a = 2 then BadAddress
      else if a = 3 then OutOfMemory else if a = 4 then MemoryInUse
      else if a = 5 then InterruptNotFound else if a = 6 then InterruptInUse
      else if a = 7 then InvalidString else if a = 8 then ServerExists
      else if a = 9 then ServerNotFound else if a = 10 then ProcessNotFound
      else if a = 11 then ProcessNotChild else if a = 12 then ProcessTerminated
      else if a = 13 then Timeout else if a = 14 then InternalError
      else if a = 15 then ServerQueueFull else if a = 16 then ThreadNotAvailable
      else if a = 17 then UnhandledSyscall else if a = 18 then InvalidSyscall
      else if a = 19 then ShareViolation else if a = 20 then InvalidThread
      else if a = 21 then InvalidPID else if a = 23 then AccessDenied
      else if a = 24 then Again else if a = 25 then DoubleFree
      else if a = 26 then DebugInProgress else if a = 27 then InvalidLimit
      else if a = 28 then ParseError else if a = 29 then InvalidPhysicalAddress
      else if a = 30 then InvalidArguments else if a = 31 then KernelTableFull
      else UnknownError)"

definition error_to_usize :: "error \<Rightarrow> usize" where
  "error_to_usize e = (if e = UnknownError then - 1 else error_discr e)"

lemma error_roundtrip [simp]: "error_from_usize (error_to_usize e) = e"
  by (cases e) (simp_all add: error_to_usize_def error_from_usize_def)

section \<open>Server ids, app ids, process ids\<close>

datatype sid = SID u32 u32 u32 u32

definition sid_from_u32 :: "u32 \<Rightarrow> u32 \<Rightarrow> u32 \<Rightarrow> u32 \<Rightarrow> sid" where
  "sid_from_u32 a b c d = SID a b c d"

fun sid_to_u32 :: "sid \<Rightarrow> u32 \<times> u32 \<times> u32 \<times> u32" where
  "sid_to_u32 (SID a b c d) = (a, b, c, d)"

fun quick_hash :: "sid \<Rightarrow> u32" where
  "quick_hash (SID a b c d) = a XOR b XOR c XOR d"

text \<open>\<open>u32::from_le_bytes\<close> and \<open>u32::to_le_bytes\<close>.\<close>

definition u32_from_le :: "u8 \<Rightarrow> u8 \<Rightarrow> u8 \<Rightarrow> u8 \<Rightarrow> u32" where
  "u32_from_le a b c d =
     ucast a OR push_bit 8 (ucast b) OR push_bit 16 (ucast c) OR push_bit 24 (ucast d)"

definition u32_to_le :: "u32 \<Rightarrow> u8 list" where
  "u32_to_le w = [ucast w, ucast (drop_bit 8 w), ucast (drop_bit 16 w), ucast (drop_bit 24 w)]"

lemma u32_from_to_le:
  "u32_from_le (ucast w) (ucast (drop_bit 8 w)) (ucast (drop_bit 16 w)) (ucast (drop_bit 24 w)) = w"
proof (rule bit_word_eqI)
  fix n
  assume "n < LENGTH(32)"
  then consider "n < 8" | "8 \<le> n" "n < 16" | "16 \<le> n" "n < 24" | "24 \<le> n" "n < 32"
    by fastforce
  then show "bit (u32_from_le (ucast w) (ucast (drop_bit 8 w)) (ucast (drop_bit 16 w))
      (ucast (drop_bit 24 w))) n = bit w n"
    by cases (auto simp: u32_from_le_def bit_simps)
qed

lemma u8_no_high_bit [simp]: "8 \<le> n \<Longrightarrow> \<not> bit (a :: u8) n"
  by (auto dest: bit_imp_le_length)

lemma u32_to_from_le: "u32_to_le (u32_from_le a b c d) = [a, b, c, d]"
  unfolding u32_from_le_def u32_to_le_def
  by (auto intro!: bit_word_eqI simp: bit_simps)

text \<open>\<open>[u8; 16]\<close>, and its conversions to and from four words.\<close>

datatype app_id = AppId "u8 list"

fun wf_app_id :: "app_id \<Rightarrow> bool" where
  "wf_app_id (AppId bs) \<longleftrightarrow> length bs = 16"

fun app_id_to_words :: "app_id \<Rightarrow> u32 \<times> u32 \<times> u32 \<times> u32" where
  "app_id_to_words (AppId bs) =
     (u32_from_le (bs ! 0) (bs ! 1) (bs ! 2) (bs ! 3),
      u32_from_le (bs ! 4) (bs ! 5) (bs ! 6) (bs ! 7),
      u32_from_le (bs ! 8) (bs ! 9) (bs ! 10) (bs ! 11),
      u32_from_le (bs ! 12) (bs ! 13) (bs ! 14) (bs ! 15))"

fun app_id_from_words :: "u32 \<times> u32 \<times> u32 \<times> u32 \<Rightarrow> app_id" where
  "app_id_from_words (a, b, c, d) = AppId (u32_to_le a @ u32_to_le b @ u32_to_le c @ u32_to_le d)"

lemma app_id_from_to_words [simp]:
  assumes "wf_app_id a"
  shows "app_id_from_words (app_id_to_words a) = a"
proof -
  obtain bs where a: "a = AppId bs" by (cases a)
  with assms have "bs = map ((!) bs) [0..<16]"
    using map_nth [of bs] by simp
  then have "bs = [bs!0, bs!1, bs!2, bs!3, bs!4, bs!5, bs!6, bs!7, bs!8, bs!9, bs!10, bs!11,
      bs!12, bs!13, bs!14, bs!15]"
    by (simp add: upt_rec eval_nat_numeral)
  then show ?thesis
    by (simp add: a u32_to_from_le)
qed

lemma wf_app_id_from_words [simp]: "wf_app_id (app_id_from_words ws)"
  by (cases ws) (simp add: u32_to_le_def)

lemma app_id_to_from_words [simp]: "app_id_to_words (app_id_from_words ws) = ws"
  by (cases ws) (simp add: u32_to_le_def u32_from_to_le)

text \<open>\<open>PID::new(x as u8)\<close>: the low byte, if it is not zero.\<close>

definition pid_new :: "usize \<Rightarrow> pid option" where
  "pid_new x = (let b = unat x mod 256 in if b = 0 then None else Some b)"

definition wf_pid :: "pid \<Rightarrow> bool" where
  "wf_pid p \<longleftrightarrow> 0 < p \<and> p < 256"

definition pid_from_usize :: "usize \<Rightarrow> error + pid" where
  "pid_from_usize src =
     (if unat src > 255 then Inl InvalidPID
      else case pid_new src of None \<Rightarrow> Inl InvalidPID | Some p \<Rightarrow> Inr p)"

lemma unat_of_nat_pid: "p < 256 \<Longrightarrow> unat (of_nat p :: usize) = p"
  by (simp add: unsigned_of_nat take_bit_nat_eq_self)

lemma pid_new_of_nat [simp]: "wf_pid p \<Longrightarrow> pid_new (of_nat p) = Some p"
  by (simp add: pid_new_def wf_pid_def unat_of_nat_pid)

lemma pid_new_0 [simp]: "pid_new 0 = None"
  by (simp add: pid_new_def)

lemma pid_from_usize_of_nat [simp]: "wf_pid p \<Longrightarrow> pid_from_usize (of_nat p) = Inr p"
  by (simp add: pid_from_usize_def) (simp add: wf_pid_def unat_of_nat_pid)

section \<open>Memory ranges\<close>

record memory_range =
  mr_addr :: usize
  mr_size :: usize

text \<open>Both fields are \<open>NonZeroUsize\<close>.\<close>

definition wf_range :: "memory_range \<Rightarrow> bool" where
  "wf_range r \<longleftrightarrow> mr_addr r \<noteq> 0 \<and> mr_size r \<noteq> 0"

definition memory_range_new :: "usize \<Rightarrow> usize \<Rightarrow> error + memory_range" where
  "memory_range_new addr sz =
     (if addr = 0 then Inl BadAddress else if sz = 0 then Inl BadAddress
      else Inr \<lparr>mr_addr = addr, mr_size = sz\<rparr>)"

text \<open>\<open>usize::checked_add\<close>.\<close>

definition checked_add :: "usize \<Rightarrow> usize \<Rightarrow> usize option" where
  "checked_add a b = (if unat a + unat b < 2 ^ 32 then Some (a + b) else None)"

lemma checked_add_Some: "checked_add a b = Some c \<Longrightarrow> unat c = unat a + unat b"
  by (auto simp: checked_add_def unat_word_ariths split: if_splits)

definition subrange :: "memory_range \<Rightarrow> usize \<Rightarrow> usize \<Rightarrow> memory_range option" where
  "subrange r offset len =
     (case checked_add offset len of
        None \<Rightarrow> None
      | Some e \<Rightarrow>
          if e > mr_size r then None
          else (case checked_add (mr_addr r) offset of
                  None \<Rightarrow> None
                | Some a \<Rightarrow> if len = 0 then None else Some \<lparr>mr_addr = a, mr_size = len\<rparr>))"

lemma memory_range_new_wf [simp]:
  "wf_range r \<Longrightarrow> memory_range_new (mr_addr r) (mr_size r) = Inr r"
  by (simp add: memory_range_new_def wf_range_def)

lemma memory_range_new_Inr:
  "memory_range_new a s = Inr r \<longleftrightarrow> a \<noteq> 0 \<and> s \<noteq> 0 \<and> r = \<lparr>mr_addr = a, mr_size = s\<rparr>"
  by (auto simp: memory_range_new_def)

text \<open>A subrange lies inside its range, byte for byte.\<close>

lemma subrange_within:
  assumes "subrange r off len = Some q"
  shows "unat (mr_addr q) = unat (mr_addr r) + unat off"
    and "unat off + unat (mr_size q) \<le> unat (mr_size r)"
    and "mr_size q = len"
  using assms checked_add_Some
  by (auto simp: subrange_def word_less_nat_alt split: option.splits if_splits)

section \<open>Memory flags\<close>

datatype memory_flags = MemoryFlags (bits: usize)

definition FLAGS_ALL :: usize where "FLAGS_ALL = 0x7d"
definition POPULATE :: memory_flags where "POPULATE = MemoryFlags 0x01"
definition MF_W :: memory_flags where "MF_W = MemoryFlags 0x04"
definition MF_X :: memory_flags where "MF_X = MemoryFlags 0x08"
definition DEV :: memory_flags where "DEV = MemoryFlags 0x10"
definition NO_CACHE :: memory_flags where "NO_CACHE = MemoryFlags 0x20"
definition PLAINTEXT :: memory_flags where "PLAINTEXT = MemoryFlags 0x40"

lemmas flag_defs = FLAGS_ALL_def POPULATE_def MF_W_def MF_X_def DEV_def NO_CACHE_def PLAINTEXT_def

definition flags_from_bits :: "usize \<Rightarrow> memory_flags" where
  "flags_from_bits raw = MemoryFlags (raw AND FLAGS_ALL)"

definition flags_empty :: memory_flags where
  "flags_empty = MemoryFlags 0"

definition flags_is_empty :: "memory_flags \<Rightarrow> bool" where
  "flags_is_empty f \<longleftrightarrow> bits f = 0"

definition flags_and :: "memory_flags \<Rightarrow> memory_flags \<Rightarrow> memory_flags" where
  "flags_and f g = MemoryFlags (bits f AND bits g)"

definition flags_or :: "memory_flags \<Rightarrow> memory_flags \<Rightarrow> memory_flags" where
  "flags_or f g = MemoryFlags (bits f OR bits g)"

definition flags_xor :: "memory_flags \<Rightarrow> memory_flags \<Rightarrow> memory_flags" where
  "flags_xor f g = MemoryFlags (bits f XOR bits g)"

definition flags_sub :: "memory_flags \<Rightarrow> memory_flags \<Rightarrow> memory_flags" where
  "flags_sub f g = MemoryFlags (bits f AND NOT (bits g))"

definition flags_not :: "memory_flags \<Rightarrow> memory_flags" where
  "flags_not f = flags_and (MemoryFlags (NOT (bits f))) (MemoryFlags 15)"

definition is_set :: "memory_flags \<Rightarrow> memory_flags \<Rightarrow> bool" where
  "is_set f m \<longleftrightarrow> flags_and f m = m"

definition wf_flags :: "memory_flags \<Rightarrow> bool" where
  "wf_flags f \<longleftrightarrow> bits f AND FLAGS_ALL = bits f"

lemma flags_from_bits_wf [simp]: "wf_flags f \<Longrightarrow> flags_from_bits (bits f) = f"
  by (cases f) (simp add: flags_from_bits_def wf_flags_def)

lemma wf_flags_from_bits [simp]: "wf_flags (flags_from_bits b)"
  by (simp add: flags_from_bits_def wf_flags_def and.assoc)

text \<open>A set mask of several flags is set exactly when each of them is.\<close>

lemma is_set_or: "is_set f (flags_or g h) \<longleftrightarrow> is_set f g \<and> is_set f h"
proof -
  have "(bits f AND (bits g OR bits h) = bits g OR bits h) \<longleftrightarrow>
        (bits f AND bits g = bits g) \<and> (bits f AND bits h = bits h)"
    by (auto simp: bit_eq_iff bit_simps)
  then show ?thesis
    by (cases f, cases g, cases h) (simp add: is_set_def flags_and_def flags_or_def)
qed

section \<open>Enumerations of the system call interface\<close>

datatype thread_priority =
    Idle | AppBackground0 | AppBackground1 | AppDefault | AppHigh0 | AppHigh1 | System0
  | System1 | System2 | System3 | System4 | System5 | System6 | System7 | System8 | Highest

fun prio_index :: "thread_priority \<Rightarrow> nat" where
  "prio_index Idle = 0" | "prio_index AppBackground0 = 1" | "prio_index AppBackground1 = 2"
| "prio_index AppDefault = 3" | "prio_index AppHigh0 = 4" | "prio_index AppHigh1 = 5"
| "prio_index System0 = 6" | "prio_index System1 = 7" | "prio_index System2 = 8"
| "prio_index System3 = 9" | "prio_index System4 = 10" | "prio_index System5 = 11"
| "prio_index System6 = 12" | "prio_index System7 = 13" | "prio_index System8 = 14"
| "prio_index Highest = 15"

definition prio_from_usize :: "usize \<Rightarrow> thread_priority" where
  "prio_from_usize v =
     (if v = 0 then Idle else if v = 1 then AppBackground0 else if v = 2 then AppBackground1
      else if v = 3 then AppDefault else if v = 4 then AppHigh0 else if v = 5 then AppHigh1
      else if v = 6 then System0 else if v = 7 then System1 else if v = 8 then System2
      else if v = 9 then System3 else if v = 10 then System4 else if v = 11 then System5
      else if v = 12 then System6 else if v = 13 then System7 else if v = 14 then System8
      else if v = 15 then Highest else AppDefault)"

lemma prio_index_less [simp]: "prio_index p < 16"
  by (cases p) simp_all

lemma prio_index_inj [simp]: "prio_index p = prio_index q \<longleftrightarrow> p = q"
  by (cases p; cases q) simp_all

lemma prio_roundtrip [simp]: "prio_from_usize (of_nat (prio_index p)) = p"
  by (cases p) (simp_all add: prio_from_usize_def)

text \<open>The derived order of the enum is the order of its discriminants.\<close>

instantiation thread_priority :: linorder
begin

definition less_eq_thread_priority :: "thread_priority \<Rightarrow> thread_priority \<Rightarrow> bool" where
  "less_eq_thread_priority p q \<longleftrightarrow> prio_index p \<le> prio_index q"

definition less_thread_priority :: "thread_priority \<Rightarrow> thread_priority \<Rightarrow> bool" where
  "less_thread_priority p q \<longleftrightarrow> prio_index p < prio_index q"

instance
  by standard (auto simp: less_eq_thread_priority_def less_thread_priority_def dest: order.antisym)

end

datatype cache_operation = Clean | Invalidate | CleanAndInvalidate

fun cache_operation_discr :: "cache_operation \<Rightarrow> usize" where
  "cache_operation_discr Clean = 0"
| "cache_operation_discr Invalidate = 1"
| "cache_operation_discr CleanAndInvalidate = 2"

definition cache_operation_from :: "usize \<Rightarrow> cache_operation" where
  "cache_operation_from v =
     (if v = 0 then Clean else if v = 1 then Invalidate else CleanAndInvalidate)"

datatype dram_idle_mode = KeepClocked | LowPower

fun dram_idle_mode_discr :: "dram_idle_mode \<Rightarrow> usize" where
  "dram_idle_mode_discr KeepClocked = 0"
| "dram_idle_mode_discr LowPower = 1"

definition dram_idle_mode_from :: "usize \<Rightarrow> dram_idle_mode" where
  "dram_idle_mode_from v = (if v = 1 then LowPower else KeepClocked)"

datatype system_event = ChildTerminated | SE_Disconnected | LowFreeMemory | SE_PermissionRequest

fun system_event_discr :: "system_event \<Rightarrow> nat" where
  "system_event_discr ChildTerminated = 0"
| "system_event_discr SE_Disconnected = 1"
| "system_event_discr LowFreeMemory = 2"
| "system_event_discr SE_PermissionRequest = 3"

definition system_event_from :: "usize \<Rightarrow> system_event" where
  "system_event_from v =
     (if v = 0 then ChildTerminated else if v = 1 then SE_Disconnected
      else if v = 2 then LowFreeMemory else if v = 3 then SE_PermissionRequest
      else ChildTerminated)"

datatype server_event = NewConnection | SV_Disconnected

fun server_event_discr :: "server_event \<Rightarrow> nat" where
  "server_event_discr NewConnection = 0"
| "server_event_discr SV_Disconnected = 1"

definition server_event_from :: "usize \<Rightarrow> server_event" where
  "server_event_from v =
     (if v = 0 then NewConnection else if v = 1 then SV_Disconnected else NewConnection)"

datatype system_stat = FreeMemory | IsSystemLowOnMemory

fun system_stat_discr :: "system_stat \<Rightarrow> usize" where
  "system_stat_discr FreeMemory = 0"
| "system_stat_discr IsSystemLowOnMemory = 1"

definition system_stat_from :: "usize \<Rightarrow> system_stat" where
  "system_stat_from v =
     (if v = 0 then FreeMemory else if v = 1 then IsSystemLowOnMemory else FreeMemory)"

lemma cache_operation_roundtrip [simp]: "cache_operation_from (cache_operation_discr c) = c"
  by (cases c) (simp_all add: cache_operation_from_def)

lemma dram_idle_mode_roundtrip [simp]: "dram_idle_mode_from (dram_idle_mode_discr d) = d"
  by (cases d) (simp_all add: dram_idle_mode_from_def)

lemma system_event_roundtrip [simp]: "system_event_from (of_nat (system_event_discr e)) = e"
  by (cases e) (simp_all add: system_event_from_def)

lemma server_event_roundtrip [simp]: "server_event_from (of_nat (server_event_discr e)) = e"
  by (cases e) (simp_all add: server_event_from_def)

lemma system_stat_roundtrip [simp]: "system_stat_from (system_stat_discr t) = t"
  by (cases t) (simp_all add: system_stat_from_def)

end
