(* ===== verification/Messages.thy ===== *)
theory Messages
  imports Xous_Defs
begin

text \<open>
  Messages, senders and envelopes (\<open>xous-rs/src/definitions/messages\<close>) and the results
  a system call returns (\<open>Result\<close> in \<open>definitions.rs\<close>), with their encodings into
  registers. The two message encodings of the source are both here: opcodes 0 to 5 inside a
  result, and opcodes 1 to 6 inside a system call.
\<close>

section \<open>Senders and messages\<close>

text \<open>\<open>MessageSender\<close> wraps one word.\<close>

type_synonym message_sender = usize

definition sender_pid :: "message_sender \<Rightarrow> pid option" where
  "sender_pid s =
     (let b = unat (drop_bit 24 s AND 0xff) in if b = 0 then None else Some b)"

type_synonym message_id = usize

record memory_message =
  mm_id :: message_id
  mm_buf :: memory_range
  mm_offset :: "usize option"
  mm_valid :: "usize option"

record scalar_message =
  sm_id :: message_id
  sm_arg1 :: usize
  sm_arg2 :: usize
  sm_arg3 :: usize
  sm_arg4 :: usize

definition wf_memory_message :: "memory_message \<Rightarrow> bool" where
  "wf_memory_message m \<longleftrightarrow> wf_range (mm_buf m) \<and> wf_nz (mm_offset m) \<and> wf_nz (mm_valid m)"

type_synonym usize5 = "usize \<times> usize \<times> usize \<times> usize \<times> usize"
type_synonym usize6 = "usize \<times> usize5"
type_synonym usize7 = "usize \<times> usize6"
type_synonym usize8 = "usize \<times> usize7"

definition memory_message_from_usize ::
    "usize \<Rightarrow> usize \<Rightarrow> usize \<Rightarrow> usize \<Rightarrow> usize \<Rightarrow> memory_message option" where
  "memory_message_from_usize i addr sz offset valid =
     (if addr = 0 then None
      else if sz = 0 then None
      else Some \<lparr>mm_id = i, mm_buf = \<lparr>mr_addr = addr, mr_size = sz\<rparr>,
                 mm_offset = nz offset, mm_valid = nz valid\<rparr>)"

definition memory_message_to_usize :: "memory_message \<Rightarrow> usize5" where
  "memory_message_to_usize m =
     (mm_id m, mr_addr (mm_buf m), mr_size (mm_buf m), unnz (mm_offset m), unnz (mm_valid m))"

definition scalar_message_from_usize ::
    "usize \<Rightarrow> usize \<Rightarrow> usize \<Rightarrow> usize \<Rightarrow> usize \<Rightarrow> scalar_message" where
  "scalar_message_from_usize i a1 a2 a3 a4 =
     \<lparr>sm_id = i, sm_arg1 = a1, sm_arg2 = a2, sm_arg3 = a3, sm_arg4 = a4\<rparr>"

definition scalar_message_to_usize :: "scalar_message \<Rightarrow> usize5" where
  "scalar_message_to_usize m = (sm_id m, sm_arg1 m, sm_arg2 m, sm_arg3 m, sm_arg4 m)"

datatype message =
    MutableBorrow memory_message
  | Borrow memory_message
  | Move memory_message
  | Scalar scalar_message
  | BlockingScalar scalar_message
  | BlockingMove memory_message

fun wf_message :: "message \<Rightarrow> bool" where
  "wf_message (MutableBorrow m) = wf_memory_message m"
| "wf_message (Borrow m) = wf_memory_message m"
| "wf_message (Move m) = wf_memory_message m"
| "wf_message (BlockingMove m) = wf_memory_message m"
| "wf_message (Scalar s) = True"
| "wf_message (BlockingScalar s) = True"

definition new_scalar :: "usize \<Rightarrow> usize \<Rightarrow> usize \<Rightarrow> usize \<Rightarrow> usize \<Rightarrow> message" where
  "new_scalar i a1 a2 a3 a4 =
     Scalar \<lparr>sm_id = i, sm_arg1 = a1, sm_arg2 = a2, sm_arg3 = a3, sm_arg4 = a4\<rparr>"

fun is_blocking :: "message \<Rightarrow> bool" where
  "is_blocking (MutableBorrow _) = True"
| "is_blocking (Borrow _) = True"
| "is_blocking (BlockingScalar _) = True"
| "is_blocking (BlockingMove _) = True"
| "is_blocking (Move _) = False"
| "is_blocking (Scalar _) = False"

fun msg_has_memory :: "message \<Rightarrow> bool" where
  "msg_has_memory (MutableBorrow _) = True"
| "msg_has_memory (Borrow _) = True"
| "msg_has_memory (Move _) = True"
| "msg_has_memory (BlockingMove _) = True"
| "msg_has_memory (BlockingScalar _) = False"
| "msg_has_memory (Scalar _) = False"

fun memory_message_of :: "message \<Rightarrow> memory_message option" where
  "memory_message_of (MutableBorrow m) = Some m"
| "memory_message_of (Borrow m) = Some m"
| "memory_message_of (Move m) = Some m"
| "memory_message_of (BlockingMove m) = Some m"
| "memory_message_of (BlockingScalar _) = None"
| "memory_message_of (Scalar _) = None"

fun message_type :: "message \<Rightarrow> usize" where
  "message_type (MutableBorrow _) = 1"
| "message_type (Borrow _) = 2"
| "message_type (Move _) = 3"
| "message_type (Scalar _) = 4"
| "message_type (BlockingScalar _) = 5"
| "message_type (BlockingMove _) = 6"

fun message_id_of :: "message \<Rightarrow> message_id" where
  "message_id_of (MutableBorrow m) = mm_id m"
| "message_id_of (Borrow m) = mm_id m"
| "message_id_of (Move m) = mm_id m"
| "message_id_of (BlockingMove m) = mm_id m"
| "message_id_of (Scalar s) = sm_id s"
| "message_id_of (BlockingScalar s) = sm_id s"

fun message_to_usize :: "message \<Rightarrow> usize6" where
  "message_to_usize (MutableBorrow m) = (0, memory_message_to_usize m)"
| "message_to_usize (Borrow m) = (1, memory_message_to_usize m)"
| "message_to_usize (Move m) = (2, memory_message_to_usize m)"
| "message_to_usize (Scalar s) = (3, scalar_message_to_usize s)"
| "message_to_usize (BlockingScalar s) = (4, scalar_message_to_usize s)"
| "message_to_usize (BlockingMove m) = (5, memory_message_to_usize m)"

text \<open>
  \<open>TryFrom<(usize, ..)> for Message\<close>, the decoder used for \<open>SendMessage\<close>. Its error
  type is \<open>()\<close>, so \<open>None\<close> is the error.
\<close>

definition message_try_from :: "usize6 \<Rightarrow> message option" where
  "message_try_from v = (case v of (v0, v1, v2, v3, v4, v5) \<Rightarrow>
     (let mem = (case memory_range_new v2 v3 of
                   Inl _ \<Rightarrow> None
                 | Inr r \<Rightarrow> Some \<lparr>mm_id = v1, mm_buf = r, mm_offset = nz v4, mm_valid = nz v5\<rparr>);
          sc = \<lparr>sm_id = v1, sm_arg1 = v2, sm_arg2 = v3, sm_arg3 = v4, sm_arg4 = v5\<rparr>
      in if v0 = 1 then map_option MutableBorrow mem
         else if v0 = 2 then map_option Borrow mem
         else if v0 = 3 then map_option Move mem
         else if v0 = 4 then Some (Scalar sc)
         else if v0 = 5 then Some (BlockingScalar sc)
         else if v0 = 6 then map_option BlockingMove mem
         else None))"

text \<open>The arguments of a send, as \<open>SysCall::as_args\<close> lays them out after the CID.\<close>

definition message_to_args :: "message \<Rightarrow> usize6" where
  "message_to_args m =
     (message_type m,
      (case m of
         MutableBorrow mm \<Rightarrow> memory_message_to_usize mm
       | Borrow mm \<Rightarrow> memory_message_to_usize mm
       | Move mm \<Rightarrow> memory_message_to_usize mm
       | BlockingMove mm \<Rightarrow> memory_message_to_usize mm
       | Scalar sc \<Rightarrow> scalar_message_to_usize sc
       | BlockingScalar sc \<Rightarrow> scalar_message_to_usize sc))"

lemma memory_message_roundtrip [simp]:
  "wf_memory_message m \<Longrightarrow>
   (case memory_message_to_usize m of (i, a, s, f, v) \<Rightarrow> memory_message_from_usize i a s f v) = Some m"
  by (simp add: memory_message_to_usize_def memory_message_from_usize_def wf_memory_message_def
      wf_range_def)

lemma scalar_message_roundtrip [simp]:
  "(case scalar_message_to_usize m of (i, a, b, c, d) \<Rightarrow> scalar_message_from_usize i a b c d) = m"
  by (simp add: scalar_message_to_usize_def scalar_message_from_usize_def)

lemma message_args_roundtrip [simp]:
  "wf_message m \<Longrightarrow> message_try_from (message_to_args m) = Some m"
  by (cases m) (simp_all add: message_try_from_def message_to_args_def memory_message_to_usize_def
      scalar_message_to_usize_def wf_memory_message_def Let_def)

lemma message_type_not_zero [simp]: "message_type m \<noteq> 0"
  by (cases m) simp_all

section \<open>Envelopes and results\<close>

record envelope =
  env_sender :: message_sender
  env_body :: message

definition envelope_to_usize :: "envelope \<Rightarrow> usize7" where
  "envelope_to_usize e = (env_sender e, message_to_usize (env_body e))"

text \<open>\<open>ProcessStartup\<close> (\<open>arch/arm/mod.rs\<close>) holds the new process' PID.\<close>

datatype process_startup = ProcessStartup pid

fun startup_to_usize :: "process_startup \<Rightarrow> usize7" where
  "startup_to_usize (ProcessStartup p) = (of_nat p, 0, 0, 0, 0, 0, 0)"

text \<open>The conversion from all eight result words reads the PID from the second.\<close>

definition startup_from_usize8 :: "usize8 \<Rightarrow> process_startup" where
  "startup_from_usize8 src =
     (case src of (a0, a1, _) \<Rightarrow>
        (case pid_new a1 of Some p \<Rightarrow> ProcessStartup p | None \<Rightarrow> ProcessStartup 255))"

datatype xresult =
    R_Ok
  | R_Error error
  | R_MemoryAddress usize
  | R_MemoryRange memory_range
  | R_ReadyThreads usize usize usize usize usize usize usize
  | R_ResumeProcess
  | R_ServerID sid
  | R_ConnectionID cid
  | R_NewServerID sid
  | R_MessageEnvelope envelope
  | R_ThreadID usize
  | R_ProcessID pid
  | R_Unimplemented
  | R_Reserved
  | R_Scalar1 usize
  | R_Scalar2 usize usize
  | R_RetryCall
  | R_None
  | R_MemoryReturned memory_range "usize option" "usize option"
  | R_NewProcess process_startup
  | R_Scalar5 usize usize usize usize usize
  | R_Message message
  | R_UnknownResult usize usize usize usize usize usize usize

fun result_to_args :: "xresult \<Rightarrow> usize8" where
  "result_to_args R_Ok = (0, 0, 0, 0, 0, 0, 0, 0)"
| "result_to_args (R_Error e) = (1, error_to_usize e, 0, 0, 0, 0, 0, 0)"
| "result_to_args (R_MemoryAddress s) = (2, s, 0, 0, 0, 0, 0, 0)"
| "result_to_args (R_MemoryRange r) = (3, mr_addr r, mr_size r, 0, 0, 0, 0, 0)"
| "result_to_args (R_ReadyThreads n p0 c0 p1 c1 p2 c2) = (4, n, p0, c0, p1, c1, p2, c2)"
| "result_to_args R_ResumeProcess = (5, 0, 0, 0, 0, 0, 0, 0)"
| "result_to_args (R_ServerID s) =
     (case sid_to_u32 s of (a, b, c, d) \<Rightarrow> (6, a, b, c, d, 0, 0, 0))"
| "result_to_args (R_ConnectionID c) = (7, c, 0, 0, 0, 0, 0, 0)"
| "result_to_args (R_MessageEnvelope me) = (9, envelope_to_usize me)"
| "result_to_args (R_ThreadID t) = (10, t, 0, 0, 0, 0, 0, 0)"
| "result_to_args (R_ProcessID p) = (11, of_nat p, 0, 0, 0, 0, 0, 0)"
| "result_to_args R_Unimplemented = (21, 0, 0, 0, 0, 0, 0, 0)"
| "result_to_args R_Reserved = (13, 0, 0, 0, 0, 0, 0, 0)"
| "result_to_args (R_Scalar1 a) = (14, a, 0, 0, 0, 0, 0, 0)"
| "result_to_args (R_Scalar2 a b) = (15, a, b, 0, 0, 0, 0, 0)"
| "result_to_args (R_NewServerID s) =
     (case sid_to_u32 s of (a, b, c, d) \<Rightarrow> (8, a, b, c, d, 0, 0, 0))"
| "result_to_args R_RetryCall = (16, 0, 0, 0, 0, 0, 0, 0)"
| "result_to_args R_None = (17, 0, 0, 0, 0, 0, 0, 0)"
| "result_to_args (R_MemoryReturned r offset valid) =
     (18, unnz offset, unnz valid, mr_addr r, mr_size r, 0, 0, 0)"
| "result_to_args (R_NewProcess p) = (19, startup_to_usize p)"
| "result_to_args (R_Scalar5 a b c d e) = (20, a, b, c, d, e, 0, 0)"
| "result_to_args (R_Message m) =
     (case message_to_usize m of (e0, e1, e2, e3, e4, e5) \<Rightarrow> (21, e0, e1, e2, e3, e4, e5, 0))"
| "result_to_args (R_UnknownResult a b c d e f g) = (- 1, a, b, c, d, e, f, g)"

text \<open>
  The six message opcodes of a result. Both arms of \<open>from_args\<close> that decode a message
  are this function; its \<open>None\<close> is the source's \<open>return Result::Error(InternalError)\<close>.
\<close>

definition message_from_result :: "usize \<Rightarrow> usize \<Rightarrow> usize \<Rightarrow> usize \<Rightarrow> usize \<Rightarrow> usize \<Rightarrow> message option"
where
  "message_from_result op i a s f v =
     (if op = 0 then map_option MutableBorrow (memory_message_from_usize i a s f v)
      else if op = 1 then map_option Borrow (memory_message_from_usize i a s f v)
      else if op = 2 then map_option Move (memory_message_from_usize i a s f v)
      else if op = 3 then Some (Scalar (scalar_message_from_usize i a s f v))
      else if op = 4 then Some (BlockingScalar (scalar_message_from_usize i a s f v))
      else if op = 5 then map_option BlockingMove (memory_message_from_usize i a s f v)
      else None)"

text \<open>
  \<open>Result::from_args\<close>. \<open>PID::new(src[1]).unwrap()\<close> panics on a zero byte, which is
  the outer \<open>None\<close>.
\<close>

definition result_from_args :: "usize8 \<Rightarrow> xresult option" where
  "result_from_args src = (case src of (s0, s1, s2, s3, s4, s5, s6, s7) \<Rightarrow>
     (if s0 = 0 then Some R_Ok
      else if s0 = 1 then Some (R_Error (error_from_usize s1))
      else if s0 = 2 then
        (if s1 = 0 then Some (R_Error InternalError) else Some (R_MemoryAddress s1))
      else if s0 = 3 then
        (if s1 = 0 then Some (R_Error InternalError)
         else if s2 = 0 then Some (R_Error InternalError)
         else Some (R_MemoryRange \<lparr>mr_addr = s1, mr_size = s2\<rparr>))
      else if s0 = 4 then Some (R_ReadyThreads s1 s2 s3 s4 s5 s6 s7)
      else if s0 = 5 then Some R_ResumeProcess
      else if s0 = 6 then Some (R_ServerID (sid_from_u32 s1 s2 s3 s4))
      else if s0 = 7 then Some (R_ConnectionID s1)
      else if s0 = 8 then Some (R_NewServerID (sid_from_u32 s1 s2 s3 s4))
      else if s0 = 9 then
        (case message_from_result s2 s3 s4 s5 s6 s7 of
           None \<Rightarrow> Some (R_Error InternalError)
         | Some m \<Rightarrow> Some (R_MessageEnvelope \<lparr>env_sender = s1, env_body = m\<rparr>))
      else if s0 = 10 then Some (R_ThreadID s1)
      else if s0 = 11 then
        (case pid_new s1 of None \<Rightarrow> None | Some p \<Rightarrow> Some (R_ProcessID p))
      else if s0 = 12 then Some R_Unimplemented
      else if s0 = 13 then Some R_Reserved
      else if s0 = 14 then Some (R_Scalar1 s1)
      else if s0 = 15 then Some (R_Scalar2 s1 s2)
      else if s0 = 16 then Some R_RetryCall
      else if s0 = 17 then Some R_None
      else if s0 = 18 then
        (if s3 = 0 then Some (R_Error InternalError)
         else if s4 = 0 then Some (R_Error InternalError)
         else Some (R_MemoryReturned \<lparr>mr_addr = s3, mr_size = s4\<rparr> (nz s1) (nz s2)))
      else if s0 = 19 then Some (R_NewProcess (startup_from_usize8 src))
      else if s0 = 20 then Some (R_Scalar5 s1 s2 s3 s4 s5)
      else if s0 = 21 then
        (case message_from_result s1 s2 s3 s4 s5 s6 of
           None \<Rightarrow> Some (R_Error InternalError)
         | Some m \<Rightarrow> Some (R_Message m))
      else Some (R_UnknownResult s0 s1 s2 s3 s4 s5 s6)))"

text \<open>
  The results the Rust types can hold (non-zero addresses, sizes and PIDs), less the two
  variants whose encodings collide or shift: \<open>Unimplemented\<close> is written with the opcode of
  \<open>Message\<close>, and \<open>UnknownResult\<close> keeps its opcode as its first argument when read back.
\<close>

fun wf_result :: "xresult \<Rightarrow> bool" where
  "wf_result (R_MemoryAddress s) \<longleftrightarrow> s \<noteq> 0"
| "wf_result (R_MemoryRange r) \<longleftrightarrow> wf_range r"
| "wf_result (R_MessageEnvelope e) \<longleftrightarrow> wf_message (env_body e)"
| "wf_result (R_ProcessID p) \<longleftrightarrow> wf_pid p"
| "wf_result (R_NewProcess s) \<longleftrightarrow> (case s of ProcessStartup p \<Rightarrow> wf_pid p)"
| "wf_result (R_MemoryReturned r f v) \<longleftrightarrow> wf_range r \<and> wf_nz f \<and> wf_nz v"
| "wf_result (R_Message m) \<longleftrightarrow> wf_message m"
| "wf_result R_Unimplemented \<longleftrightarrow> False"
| "wf_result (R_UnknownResult _ _ _ _ _ _ _) \<longleftrightarrow> False"
| "wf_result _ \<longleftrightarrow> True"

lemma message_result_roundtrip [simp]:
  "wf_message m \<Longrightarrow>
   (case message_to_usize m of (op, i, a, s, f, v) \<Rightarrow> message_from_result op i a s f v) = Some m"
  by (cases m) (simp_all add: message_from_result_def memory_message_to_usize_def
      memory_message_from_usize_def scalar_message_to_usize_def scalar_message_from_usize_def
      wf_memory_message_def wf_range_def)

text \<open>
  C33: every well-formed result the kernel returns survives the trip through the eight
  result registers: decoding what was encoded gives it back, whatever its payload.
\<close>

theorem result_args_roundtrip:
  assumes "wf_result r"
  shows "result_from_args (result_to_args r) = Some r"
proof (cases r)
  case (R_ServerID s)
  then show ?thesis by (cases s) (simp add: result_from_args_def sid_from_u32_def)
next
  case (R_NewServerID s)
  then show ?thesis by (cases s) (simp add: result_from_args_def sid_from_u32_def)
next
  case (R_NewProcess p)
  with assms show ?thesis
    by (cases p) (simp add: result_from_args_def startup_from_usize8_def)
next
  case (R_MessageEnvelope e)
  with assms message_result_roundtrip [of "env_body e"] show ?thesis
    by (cases "message_to_usize (env_body e)")
      (simp add: result_from_args_def envelope_to_usize_def)
next
  case (R_Message m)
  with assms message_result_roundtrip [of m] show ?thesis
    by (cases "message_to_usize m") (simp add: result_from_args_def)
qed (use assms in \<open>simp_all add: result_from_args_def wf_range_def\<close>)

theorem result_args_roundtrip_witness:
  "result_from_args (result_to_args
     (R_MemoryReturned \<lparr>mr_addr = 0x30000000, mr_size = 4096\<rparr> (Some 7) None)) =
   Some (R_MemoryReturned \<lparr>mr_addr = 0x30000000, mr_size = 4096\<rparr> (Some 7) None)"
  by (rule result_args_roundtrip) (simp add: wf_range_def wf_nz_def)

text \<open>
  the exception is a defect of the encoder: a result of \<open>Unimplemented\<close> is written
  with opcode 21 and comes back as an internal error, although the decoder reserves opcode 12
  for it.
\<close>

theorem unimplemented_not_roundtrip:
  "result_from_args (result_to_args R_Unimplemented) = Some (R_Error InternalError) \<and>
   result_from_args (12, 0, 0, 0, 0, 0, 0, 0) = Some R_Unimplemented"
  by (simp add: result_from_args_def message_from_result_def memory_message_from_usize_def)

end
