(* ===== verification/Scheduler.thy ===== *)
theory Scheduler
  imports Messages
begin

text \<open>
  The scheduler (\<open>xous/kernel/src/scheduler.rs\<close>): for each of the sixteen priorities the
  ready threads form a circular doubly linked list, threaded through one table of links that
  is indexed by process and thread; \<open>queue_heads\<close> holds an entry into each circle and
  \<open>highest_ready_priority\<close> the priority to run. The abstract view is one list of threads
  per priority, in the order in which they get their turn; every operation is shown to
  simulate a list operation on it, without panicking.
\<close>

text \<open>Threads are pairs that the proofs treat as one value.\<close>

declare split_paired_All [simp del] split_paired_Ex [simp del]

section \<open>State and operations\<close>

definition IRQ_TID :: tid where "IRQ_TID = 0"
definition INITIAL_TID :: tid where "INITIAL_TID = 1"
definition MAX_THREAD_COUNT :: nat where "MAX_THREAD_COUNT = 8"
definition MAX_PROCESS_COUNT :: nat where "MAX_PROCESS_COUNT = 64"
definition NUM_PRIORITIES :: nat where "NUM_PRIORITIES = 16"
definition CPU_MEASUREMENT_COUNT :: nat where "CPU_MEASUREMENT_COUNT = 1024"

lemmas sched_consts = IRQ_TID_def INITIAL_TID_def MAX_THREAD_COUNT_def MAX_PROCESS_COUNT_def
  NUM_PRIORITIES_def CPU_MEASUREMENT_COUNT_def

type_synonym thread = "pid \<times> tid"

record sched_link =
  next_pid :: pid
  next_tid :: tid
  prev_pid :: pid
  prev_tid :: tid

abbreviation l_next :: "sched_link \<Rightarrow> thread" where
  "l_next l \<equiv> (next_pid l, next_tid l)"

abbreviation l_prev :: "sched_link \<Rightarrow> thread" where
  "l_prev l \<equiv> (prev_pid l, prev_tid l)"

definition mk_link :: "thread \<Rightarrow> thread \<Rightarrow> sched_link" where
  "mk_link n p = \<lparr>next_pid = fst n, next_tid = snd n, prev_pid = fst p, prev_tid = snd p\<rparr>"

definition set_next :: "thread \<Rightarrow> sched_link \<Rightarrow> sched_link" where
  "set_next t l = l\<lparr>next_pid := fst t, next_tid := snd t\<rparr>"

definition set_prev :: "thread \<Rightarrow> sched_link \<Rightarrow> sched_link" where
  "set_prev t l = l\<lparr>prev_pid := fst t, prev_tid := snd t\<rparr>"

lemma link_simps [simp]:
  "l_next (mk_link n p) = n" "l_prev (mk_link n p) = p"
  "l_next (set_next t l) = t" "l_prev (set_next t l) = l_prev l"
  "l_prev (set_prev t l) = t" "l_next (set_prev t l) = l_next l"
  by (simp_all add: mk_link_def set_next_def set_prev_def)

text \<open>
  The link table is the array \<open>links[pid - 1][tid - 1]\<close>: a map on threads, with the array's
  bounds in \<open>in_table\<close>. An access outside the bounds panics. The last three fields are the
  CPU usage measurements.
\<close>

record scheduler =
  queue_heads :: "thread option list"
  links :: "thread \<Rightarrow> sched_link option"
  highest_ready_priority :: nat
  in_irq_handler :: bool
  cpu_usage :: "(nat \<times> usize) list"
  cpu_usage_index :: nat
  currently_measuring :: nat

definition initial_scheduler :: scheduler where
  "initial_scheduler =
     \<lparr>queue_heads = replicate NUM_PRIORITIES None, links = (\<lambda>_. None),
      highest_ready_priority = 0, in_irq_handler = False,
      cpu_usage = replicate CPU_MEASUREMENT_COUNT (0, 0), cpu_usage_index = 0,
      currently_measuring = 0\<rparr>"

definition in_table :: "thread \<Rightarrow> bool" where
  "in_table t \<longleftrightarrow> 1 \<le> fst t \<and> fst t \<le> MAX_PROCESS_COUNT \<and> 1 \<le> snd t \<and> snd t \<le> MAX_THREAD_COUNT"

definition link_copy :: "scheduler \<Rightarrow> thread \<Rightarrow> sched_link option" where
  "link_copy s t = (if in_table t then links s t else None)"

definition put_link :: "thread \<Rightarrow> sched_link option \<Rightarrow> scheduler \<Rightarrow> scheduler" where
  "put_link t l s = s\<lparr>links := (links s)(t := l)\<rparr>"

definition ready_thread :: "scheduler \<Rightarrow> thread \<Rightarrow> thread_priority \<Rightarrow> unit res \<times> scheduler" where
  "ready_thread s t prio =
     (if snd t = IRQ_TID then
        (if in_irq_handler s then (Panic, s) else (Done (), s\<lparr>in_irq_handler := True\<rparr>))
      else
        (let p = prio_index prio in
         case queue_heads s ! p of
           None \<Rightarrow>
             (let s1 = s\<lparr>queue_heads := (queue_heads s)[p := Some t],
                         highest_ready_priority :=
                           (if highest_ready_priority s < p then p else highest_ready_priority s)\<rparr>
              in if in_table t then (Done (), put_link t (Some (mk_link t t)) s1) else (Panic, s1))
         | Some h \<Rightarrow>
             (if \<not> in_table t \<or> link_copy s t \<noteq> None then (Panic, s)
              else (case link_copy s h of
                 None \<Rightarrow> (Panic, s)
               | Some head_copy \<Rightarrow>
                   (let s1 = put_link h (Some (mk_link (l_next head_copy) t)) s in
                    case link_copy s1 (l_prev head_copy) of
                      None \<Rightarrow> (Panic, s1)
                    | Some prev \<Rightarrow>
                        (let s2 = put_link (l_prev head_copy) (Some (set_next t prev)) s1
                         in (Done (), put_link t (Some (mk_link h (l_prev head_copy))) s2)))))))"

text \<open>\<open>iter().rposition(p)\<close>: the greatest index that satisfies \<open>p\<close>.\<close>

definition rposition :: "('a \<Rightarrow> bool) \<Rightarrow> 'a list \<Rightarrow> nat option" where
  "rposition p xs = map_option (\<lambda>i. length xs - 1 - i) (find_index p (rev xs))"

definition park_thread :: "scheduler \<Rightarrow> thread \<Rightarrow> thread_priority \<Rightarrow> unit res \<times> scheduler" where
  "park_thread s t prio =
     (if snd t = IRQ_TID then
        (if in_irq_handler s then (Done (), s\<lparr>in_irq_handler := False\<rparr>) else (Panic, s))
      else
        (let p = prio_index prio in
         case link_copy s t of
           None \<Rightarrow> (Panic, s)
         | Some link \<Rightarrow>
             (let s1 = put_link t None s in
              if l_next link = t then
                (let s2 = s1\<lparr>queue_heads := (queue_heads s1)[p := None]\<rparr> in
                 if p = highest_ready_priority s2 then
                   (case rposition (\<lambda>h. h \<noteq> None) (take p (queue_heads s2)) of
                      None \<Rightarrow> (Panic, s2)
                    | Some k \<Rightarrow> (Done (), s2\<lparr>highest_ready_priority := k\<rparr>))
                 else (Done (), s2))
              else
                (let s2 = (if queue_heads s1 ! p = Some t
                           then s1\<lparr>queue_heads := (queue_heads s1)[p := Some (l_next link)]\<rparr>
                           else s1) in
                 case link_copy s2 (l_prev link) of
                   None \<Rightarrow> (Panic, s2)
                 | Some prev \<Rightarrow>
                     (let s3 = put_link (l_prev link) (Some (set_next (l_next link) prev)) s2 in
                      case link_copy s3 (l_next link) of
                        None \<Rightarrow> (Panic, s3)
                      | Some nxt \<Rightarrow>
                          (Done (), put_link (l_next link) (Some (set_prev (l_prev link) nxt)) s3))))))"

definition yield_thread :: "scheduler \<Rightarrow> thread \<Rightarrow> thread_priority \<Rightarrow> unit res \<times> scheduler" where
  "yield_thread s t prio =
     (let p = prio_index prio in
      if queue_heads s ! p = Some t then
        (case link_copy s t of
           None \<Rightarrow> (Panic, s)
         | Some link \<Rightarrow> (Done (), s\<lparr>queue_heads := (queue_heads s)[p := Some (l_next link)]\<rparr>))
      else (Done (), s))"

text \<open>Index and contents of the measurement ring; the slice index is always in bounds.\<close>

definition record_cpu_usage :: "usize \<Rightarrow> scheduler \<Rightarrow> scheduler" where
  "record_cpu_usage ticks s =
     (let i = (cpu_usage_index s + 1) mod length (cpu_usage s)
      in s\<lparr>cpu_usage_index := i, cpu_usage := (cpu_usage s)[i := (currently_measuring s, ticks)]\<rparr>)"

text \<open>
  What \<open>activate_current\<close> does to the rest of the system: nothing, or the switch to another
  thread, with the idle measurement or the preemption timer started first.
\<close>

datatype activation = Resume | Switch thread bool

text \<open>\<open>usage\<close> is what the hardware timer reports when the preemption is cancelled.\<close>

definition activate_current :: "usize \<Rightarrow> thread \<Rightarrow> scheduler \<Rightarrow> activation res \<times> scheduler" where
  "activate_current usage current s =
     (if in_irq_handler s then (Done Resume, s)
      else case queue_heads s ! highest_ready_priority s of
        None \<Rightarrow> (Panic, s)
      | Some nxt \<Rightarrow>
          if nxt = current then (Done Resume, s)
          else
            (let s1 = (if usage > 1 \<and> usage \<noteq> snd (cpu_usage s ! cpu_usage_index s)
                       then record_cpu_usage usage s else s)
             in (Done (Switch nxt (fst nxt = 1)), s1\<lparr>currently_measuring := fst nxt\<rparr>)))"

section \<open>Circular lists\<close>

text \<open>The adjacent pairs of a list, and the successor pairs of the circle it closes to.\<close>

fun adj :: "'a list \<Rightarrow> ('a \<times> 'a) set" where
  "adj [] = {}"
| "adj [x] = {}"
| "adj (x # y # zs) = insert (x, y) (adj (y # zs))"

definition succs :: "'a list \<Rightarrow> ('a \<times> 'a) set" where
  "succs rs = (if rs = [] then {} else insert (last rs, hd rs) (adj rs))"

lemma adj_append:
  "xs \<noteq> [] \<Longrightarrow> ys \<noteq> [] \<Longrightarrow> adj (xs @ ys) = adj xs \<union> adj ys \<union> {(last xs, hd ys)}"
proof (induction xs rule: adj.induct)
  case (2 x)
  then show ?case by (cases ys) auto
qed auto

lemma adj_in: "(a, b) \<in> adj xs \<Longrightarrow> a \<in> set (butlast xs) \<and> b \<in> set (tl xs)"
  by (induction xs rule: adj.induct) (auto dest: list.set_sel(2))

lemma adj_last: "distinct xs \<Longrightarrow> (last xs, b) \<notin> adj xs"
  by (induction xs rule: adj.induct) (auto dest: adj_in in_set_butlastD)

lemma adj_hd: "distinct xs \<Longrightarrow> (a, hd xs) \<notin> adj xs"
  by (cases xs rule: adj.cases) (auto dest: adj_in)

lemma succs_append: "xs \<noteq> [] \<Longrightarrow> ys \<noteq> [] \<Longrightarrow>
  succs (xs @ ys) = adj xs \<union> adj ys \<union> {(last xs, hd ys), (last ys, hd xs)}"
  by (auto simp: succs_def adj_append)

lemma succs_swap: "succs (xs @ ys) = succs (ys @ xs)"
  by (cases "xs = [] \<or> ys = []") (auto simp: succs_append)

lemma succs_single [simp]: "succs [t] = {(t, t)}"
  by (simp add: succs_def)

lemma succs_snoc: "ys \<noteq> [] \<Longrightarrow> succs (ys @ [t]) = insert (last ys, t) (insert (t, hd ys) (adj ys))"
  by (auto simp: succs_append)

lemma succs_in: "(a, b) \<in> succs rs \<Longrightarrow> a \<in> set rs \<and> b \<in> set rs"
  by (auto simp: succs_def split: if_splits dest: adj_in in_set_butlastD list.set_sel(2))

text \<open>The threads of a list are linked into a circle, in the list's order.\<close>

definition linked :: "(thread \<Rightarrow> sched_link option) \<Rightarrow> thread \<Rightarrow> thread \<Rightarrow> bool" where
  "linked lk a b \<longleftrightarrow> (\<exists>la lb. lk a = Some la \<and> lk b = Some lb \<and> l_next la = b \<and> l_prev lb = a)"

definition ring :: "(thread \<Rightarrow> sched_link option) \<Rightarrow> thread list \<Rightarrow> bool" where
  "ring lk rs \<longleftrightarrow> distinct rs \<and> (\<forall>(a, b) \<in> succs rs. linked lk a b)"

lemma ring_swap: "ring lk (xs @ ys) \<Longrightarrow> ring lk (ys @ xs)"
  by (auto simp: ring_def succs_swap [of xs ys])

lemma ring_cong: "ring lk rs \<Longrightarrow> (\<And>a. a \<in> set rs \<Longrightarrow> lk' a = lk a) \<Longrightarrow> ring lk' rs"
  by (fastforce simp: ring_def linked_def dest: succs_in)

lemma ring_Nil [simp]: "ring lk []"
  by (simp add: ring_def succs_def)

lemma ring_linked: "ring lk rs \<Longrightarrow> a \<in> set rs \<Longrightarrow> lk a \<noteq> None"
proof -
  assume "ring lk rs" "a \<in> set rs"
  then obtain xs ys where "rs = xs @ a # ys" by (meson split_list)
  with \<open>ring lk rs\<close> have "ring lk ((a # ys) @ xs)" using ring_swap by blast
  then have "linked lk (last ((a # ys) @ xs)) a" by (auto simp: ring_def succs_def)
  then show ?thesis by (auto simp: linked_def)
qed

lemma ring_ends:
  assumes "ring lk (t # ys)"
  obtains l where "lk t = Some l" "l_prev l = last (t # ys)" "l_next l = hd (ys @ [t])"
proof -
  have "linked lk (last (t # ys)) t" using assms by (auto simp: ring_def succs_def)
  moreover have "linked lk t (hd (ys @ [t]))"
    using assms by (cases ys) (auto simp: ring_def succs_def)
  ultimately show thesis using that by (auto simp: linked_def)
qed

text \<open>A thread linked in before the head comes last in the circle's order.\<close>

lemma ring_insert:
  assumes r: "ring lk ys" and ne: "ys \<noteq> []" and t: "t \<notin> set ys"
    and h: "lk (hd ys) = Some lh"
    and lk1: "lk1 = lk(hd ys := Some (set_prev t lh))"
    and p: "lk1 (last ys) = Some lp"
    and lk2: "lk2 = lk1(last ys := Some (set_next t lp), t := Some (mk_link (hd ys) (last ys)))"
  shows "ring lk2 (ys @ [t])"
proof -
  have d: "distinct ys" using r by (simp add: ring_def)
  have nt: "hd ys \<noteq> t" "last ys \<noteq> t" using ne t by auto
  have "linked lk2 a b" if ab: "(a, b) \<in> adj ys" for a b
  proof -
    have l: "linked lk a b" using ab r ne by (auto simp: ring_def succs_def)
    have "a \<noteq> last ys" "b \<noteq> hd ys" using ab d adj_last adj_hd by metis+
    moreover have "a \<in> set ys" "b \<in> set ys"
      using adj_in [OF ab] by (auto dest: in_set_butlastD list.set_sel(2) [OF ne])
    ultimately show ?thesis using l t h p nt
      by (cases "b = last ys"; cases "a = hd ys") (auto simp: linked_def lk1 lk2 split: if_splits)
  qed
  moreover have "linked lk2 (last ys) t" "linked lk2 t (hd ys)"
    using h p nt by (auto simp: linked_def lk1 lk2 split: if_splits)
  ultimately show ?thesis using d t ne by (auto simp: ring_def succs_snoc)
qed

text \<open>A thread unlinked from a circle of at least two leaves the circle of the others.\<close>

lemma ring_remove:
  assumes r: "ring lk (t # ys)" and ne: "ys \<noteq> []"
    and p: "lk1 (last ys) = Some lp" and lk1: "lk1 = lk(t := None)"
    and lk2: "lk2 = lk1(last ys := Some (set_next (hd ys) lp))"
    and n: "lk2 (hd ys) = Some ln"
    and lk3: "lk3 = lk2(hd ys := Some (set_prev (last ys) ln))"
  shows "ring lk3 ys"
proof -
  have d: "distinct ys" and t: "t \<notin> set ys" using r by (auto simp: ring_def)
  have nt: "hd ys \<noteq> t" "last ys \<noteq> t" using ne t by auto
  have "linked lk3 a b" if ab: "(a, b) \<in> adj ys" for a b
  proof -
    have l: "linked lk a b" using ab r ne by (cases ys) (auto simp: ring_def succs_def)
    have "a \<noteq> last ys" "b \<noteq> hd ys" using ab d adj_last adj_hd by metis+
    moreover have "a \<in> set ys" "b \<in> set ys"
      using adj_in [OF ab] by (auto dest: in_set_butlastD list.set_sel(2) [OF ne])
    ultimately show ?thesis using l t n p nt
      by (cases "b = last ys"; cases "a = hd ys") (auto simp: linked_def lk1 lk2 lk3 split: if_splits)
  qed
  moreover have "linked lk3 (last ys) (hd ys)"
    using n p nt by (auto simp: linked_def lk1 lk2 lk3 split: if_splits)
  ultimately show ?thesis using d ne by (auto simp: ring_def succs_def)
qed

section \<open>The abstract ready queues\<close>

type_synonym ready_queues = "nat \<Rightarrow> thread list"

definition head_of :: "thread list \<Rightarrow> thread option" where
  "head_of ts = (case ts of [] \<Rightarrow> None | h # _ \<Rightarrow> Some h)"

lemma head_of_simps [simp]: "head_of [] = None" "head_of (h # ts) = Some h"
  by (simp_all add: head_of_def)

lemma head_of_None [simp]: "head_of ts = None \<longleftrightarrow> ts = []"
  by (cases ts) auto

lemma head_of_Some: "head_of ts = Some h \<longleftrightarrow> ts \<noteq> [] \<and> hd ts = h"
  by (cases ts) auto

text \<open>\<open>k\<close> is the greatest priority with a ready thread, or 0 when no thread is ready.\<close>

definition is_top :: "ready_queues \<Rightarrow> nat \<Rightarrow> bool" where
  "is_top q k \<longleftrightarrow> k < NUM_PRIORITIES \<and> (\<forall>p < NUM_PRIORITIES. q p \<noteq> [] \<longrightarrow> p \<le> k) \<and> (q k \<noteq> [] \<or> k = 0)"

definition ready_in :: "ready_queues \<Rightarrow> thread \<Rightarrow> bool" where
  "ready_in q t \<longleftrightarrow> (\<exists>p < NUM_PRIORITIES. t \<in> set (q p))"

definition sched_rel :: "scheduler \<Rightarrow> ready_queues \<Rightarrow> bool" where
  "sched_rel s q \<longleftrightarrow>
     length (queue_heads s) = NUM_PRIORITIES
   \<and> (\<forall>p < NUM_PRIORITIES. queue_heads s ! p = head_of (q p) \<and> ring (links s) (q p))
   \<and> (\<forall>t. ready_in q t \<longrightarrow> in_table t)
   \<and> (\<forall>t. in_table t \<and> links s t \<noteq> None \<longrightarrow> ready_in q t)
   \<and> (\<forall>p < NUM_PRIORITIES. \<forall>p' < NUM_PRIORITIES. p \<noteq> p' \<longrightarrow> set (q p) \<inter> set (q p') = {})
   \<and> is_top q (highest_ready_priority s)"

lemma prio_index_bound [simp]: "prio_index p < NUM_PRIORITIES"
  by (cases p) (simp_all add: NUM_PRIORITIES_def)

lemma in_table_not_irq: "in_table t \<Longrightarrow> snd t \<noteq> IRQ_TID"
  by (simp add: in_table_def IRQ_TID_def)

lemma sched_rel_initial: "sched_rel initial_scheduler (\<lambda>_. [])"
  by (simp add: sched_rel_def initial_scheduler_def is_top_def ready_in_def NUM_PRIORITIES_def)

lemma sched_rel_head: "sched_rel s q \<Longrightarrow> p < NUM_PRIORITIES \<Longrightarrow> queue_heads s ! p = head_of (q p)"
  by (simp add: sched_rel_def)

lemma sched_rel_ring: "sched_rel s q \<Longrightarrow> p < NUM_PRIORITIES \<Longrightarrow> ring (links s) (q p)"
  by (simp add: sched_rel_def)

lemma sched_rel_table: "sched_rel s q \<Longrightarrow> p < NUM_PRIORITIES \<Longrightarrow> t \<in> set (q p) \<Longrightarrow> in_table t"
  unfolding sched_rel_def ready_in_def by blast

lemma sched_rel_link_copy:
  "sched_rel s q \<Longrightarrow> p < NUM_PRIORITIES \<Longrightarrow> t \<in> set (q p) \<Longrightarrow> link_copy s t = links s t \<and> links s t \<noteq> None"
  using sched_rel_table ring_linked sched_rel_ring by (metis link_copy_def)

lemma sched_rel_link_iff: "sched_rel s q \<Longrightarrow> in_table t \<Longrightarrow> links s t = None \<longleftrightarrow> \<not> ready_in q t"
  using sched_rel_link_copy unfolding sched_rel_def ready_in_def by blast

lemma sched_rel_disjoint:
  "sched_rel s q \<Longrightarrow> p < NUM_PRIORITIES \<Longrightarrow> p' < NUM_PRIORITIES \<Longrightarrow> p \<noteq> p' \<Longrightarrow> t \<in> set (q p) \<Longrightarrow> t \<notin> set (q p')"
  unfolding sched_rel_def by blast

text \<open>
  Rebuilding the relation after one queue changed: the new queue is a ring, and the links
  of all threads outside it are as before.
\<close>

lemma sched_rel_update:
  assumes rel: "sched_rel s q" and p: "p < NUM_PRIORITIES"
    and heads: "queue_heads s' = (queue_heads s)[p := head_of ys]"
    and r: "ring (links s') ys"
    and same: "\<And>u. u \<notin> set (q p) \<union> set ys \<Longrightarrow> links s' u = links s u"
    and gone: "\<And>u. u \<in> set (q p) - set ys \<Longrightarrow> links s' u = None"
    and tab: "\<And>u. u \<in> set ys \<Longrightarrow> in_table u"
    and fresh: "\<And>u p'. u \<in> set ys - set (q p) \<Longrightarrow> p' < NUM_PRIORITIES \<Longrightarrow> u \<notin> set (q p')"
    and top: "is_top (q(p := ys)) (highest_ready_priority s')"
  shows "sched_rel s' (q(p := ys))"
proof -
  have len: "length (queue_heads s) = NUM_PRIORITIES" using rel by (simp add: sched_rel_def)
  have heads': "queue_heads s' ! p' = head_of ((q(p := ys)) p')" if "p' < NUM_PRIORITIES" for p'
    using that rel by (simp add: heads len sched_rel_head)
  have rings': "ring (links s') ((q(p := ys)) p')" if p': "p' < NUM_PRIORITIES" for p'
  proof (cases "p' = p")
    case True
    then show ?thesis using r by simp
  next
    case False
    have "u \<notin> set (q p) \<union> set ys" if "u \<in> set (q p')" for u
      using that p' p False fresh sched_rel_disjoint [OF rel] by blast
    then show ?thesis
      using False ring_cong [OF sched_rel_ring [OF rel p'], of "links s'"] same by simp
  qed
  have table': "in_table u" if "ready_in (q(p := ys)) u" for u
    using that tab sched_rel_table [OF rel] unfolding ready_in_def by (metis fun_upd_apply)
  have linked': "ready_in (q(p := ys)) u" if u: "in_table u" "links s' u \<noteq> None" for u
  proof (cases "u \<in> set (q p) \<union> set ys")
    case True
    then have "u \<in> set ys" using gone [of u] u(2) by auto
    then show ?thesis using p unfolding ready_in_def by (metis fun_upd_same)
  next
    case False
    then have "ready_in q u" using same u rel unfolding sched_rel_def by metis
    then show ?thesis using False unfolding ready_in_def by (metis Un_iff fun_upd_apply)
  qed
  have other: "u \<notin> set (q b)" if "u \<in> set ys" "b < NUM_PRIORITIES" "b \<noteq> p" for u b
    using that fresh [of u b] sched_rel_disjoint [OF rel p, of b u] by (cases "u \<in> set (q p)") auto
  have disj': "set ((q(p := ys)) a) \<inter> set ((q(p := ys)) b) = {}"
    if "a < NUM_PRIORITIES" "b < NUM_PRIORITIES" "a \<noteq> b" for a b
    using that other [of _ b] other [of _ a] sched_rel_disjoint [OF rel, of a b]
    by (cases "a = p"; cases "b = p") auto
  show ?thesis
    unfolding sched_rel_def using heads' rings' table' linked' disj' top by (simp add: heads len)
qed

section \<open>Simulation of the operations\<close>

definition q_ready :: "thread \<Rightarrow> nat \<Rightarrow> ready_queues \<Rightarrow> ready_queues" where
  "q_ready t p q = q(p := q p @ [t])"

definition q_park :: "thread \<Rightarrow> nat \<Rightarrow> ready_queues \<Rightarrow> ready_queues" where
  "q_park t p q = q(p := remove1 t (q p))"

definition q_yield :: "nat \<Rightarrow> ready_queues \<Rightarrow> ready_queues" where
  "q_yield p q = q(p := rotate1 (q p))"

lemma ring_lasts:
  assumes "ring lk ys" "ys \<noteq> []"
  obtains l where "lk (hd ys) = Some l" "l_prev l = last ys" "l_next l = hd (tl ys @ [hd ys])"
  using assms ring_ends [of lk "hd ys" "tl ys"] by (cases ys) auto

lemma set_prev_mk: "mk_link (l_next l) t = set_prev t l"
  by (simp add: mk_link_def set_prev_def)

lemma ready_thread_sim:
  assumes rel: "sched_rel s q" and t: "in_table t" and new: "\<not> ready_in q t"
  shows "\<exists>s'. ready_thread s t prio = (Done (), s') \<and> sched_rel s' (q_ready t (prio_index prio) q)
    \<and> in_irq_handler s' = in_irq_handler s"
proof (cases "q (prio_index prio)")
  case Nil
  define s' where "s' = snd (ready_thread s t prio)"
  have run: "ready_thread s t prio = (Done (), s')"
    using t in_table_not_irq [OF t] sched_rel_head [OF rel prio_index_bound [of prio]] Nil
    by (simp add: s'_def ready_thread_def Let_def)
  have s': "queue_heads s' = (queue_heads s)[prio_index prio := Some t]"
    "links s' = (links s)(t := Some (mk_link t t))"
    "highest_ready_priority s' = max (highest_ready_priority s) (prio_index prio)"
    "in_irq_handler s' = in_irq_handler s"
    using t in_table_not_irq [OF t] sched_rel_head [OF rel prio_index_bound [of prio]] Nil
    by (auto simp: s'_def ready_thread_def put_link_def Let_def)
  have "sched_rel s' (q(prio_index prio := [t]))"
  proof (rule sched_rel_update [OF rel prio_index_bound])
    show "ring (links s') [t]" by (simp add: s' ring_def linked_def)
    show "is_top (q(prio_index prio := [t])) (highest_ready_priority s')"
      using rel unfolding sched_rel_def is_top_def s' by (auto simp: max_def)
    show "u \<notin> set (q p')" if "u \<in> set [t] - set (q (prio_index prio))" "p' < NUM_PRIORITIES" for u p'
      using that new by (auto simp: ready_in_def)
  qed (use s' t Nil in auto)
  then show ?thesis using run s'(4) Nil by (auto simp: q_ready_def)
next
  case (Cons h ts)
  let ?p = "prio_index prio" and ?ys = "q (prio_index prio)"
  have ne: "?ys \<noteq> []" and h: "h = hd ?ys" using Cons by auto
  have r: "ring (links s) ?ys" using sched_rel_ring [OF rel] by simp
  then obtain lh where lh: "links s (hd ?ys) = Some lh" "l_prev lh = last ?ys"
    using ring_lasts [OF r ne] by metis
  have tn: "t \<notin> set ?ys" using new by (auto simp: ready_in_def)
  have tl: "links s t = None" using sched_rel_link_iff [OF rel t] new by simp
  have lch: "link_copy s h = Some lh" using sched_rel_link_copy [OF rel, of ?p h] ne h lh by simp
  define lk1 where "lk1 = (links s)(hd ?ys := Some (set_prev t lh))"
  have last_in: "last ?ys \<in> set ?ys" using ne by simp
  then have "lk1 (last ?ys) \<noteq> None" using ring_linked [OF r last_in] by (simp add: lk1_def)
  then obtain lp where lp: "lk1 (last ?ys) = Some lp" by auto
  define s1 where "s1 = put_link h (Some (mk_link (l_next lh) t)) s"
  have s1: "links s1 = lk1" "queue_heads s1 = queue_heads s"
    "highest_ready_priority s1 = highest_ready_priority s" "in_irq_handler s1 = in_irq_handler s"
    by (simp_all add: s1_def lk1_def put_link_def set_prev_mk h del: fun_upd_apply)
  have lcl: "link_copy s1 (l_prev lh) = Some lp"
    using sched_rel_table [OF rel prio_index_bound last_in] lp by (simp add: link_copy_def s1 lh)
  define s' where
    "s' = put_link t (Some (mk_link h (l_prev lh))) (put_link (l_prev lh) (Some (set_next t lp)) s1)"
  have run: "ready_thread s t prio = (Done (), s')"
    using in_table_not_irq [OF t] sched_rel_head [OF rel prio_index_bound [of prio]] Cons t tl lch lcl
    by (simp add: ready_thread_def Let_def link_copy_def [of s t] s'_def flip: s1_def)
  have s': "queue_heads s' = queue_heads s" "highest_ready_priority s' = highest_ready_priority s"
    "in_irq_handler s' = in_irq_handler s"
    "links s' = lk1(last ?ys := Some (set_next t lp), t := Some (mk_link (hd ?ys) (last ?ys)))"
    by (simp_all add: s'_def put_link_def s1 lh h del: fun_upd_apply)
  have "sched_rel s' (q(?p := ?ys @ [t]))"
  proof (rule sched_rel_update [OF rel prio_index_bound])
    show "ring (links s') (?ys @ [t])"
      by (rule ring_insert [OF r ne tn lh(1) lk1_def lp s'(4)])
    have "head_of (?ys @ [t]) = head_of ?ys" by (simp add: Cons)
    then show "queue_heads s' = (queue_heads s)[?p := head_of (?ys @ [t])]"
      using sched_rel_head [OF rel prio_index_bound [of prio]] by (metis s'(1) list_update_id)
    show "links s' u = links s u" if "u \<notin> set ?ys \<union> set (?ys @ [t])" for u
      using that ne by (auto simp: s' lk1_def)
    show "is_top (q(?p := ?ys @ [t])) (highest_ready_priority s')"
      using rel ne unfolding sched_rel_def is_top_def s' by auto
    show "in_table u" if "u \<in> set (?ys @ [t])" for u
      using that t sched_rel_table [OF rel prio_index_bound, of u] by auto
    show "u \<notin> set (q p')" if "u \<in> set (?ys @ [t]) - set ?ys" "p' < NUM_PRIORITIES" for u p'
      using that new by (auto simp: ready_in_def)
  qed auto
  then show ?thesis using run s'(3) by (auto simp: q_ready_def)
qed

lemma rposition_Some:
  "rposition p xs = Some k \<Longrightarrow> k < length xs \<and> p (xs ! k) \<and> (\<forall>j < length xs. k < j \<longrightarrow> \<not> p (xs ! j))"
proof -
  assume "rposition p xs = Some k"
  then obtain i where i: "find_index p (rev xs) = Some i" and k: "k = length xs - 1 - i"
    by (auto simp: rposition_def)
  have il: "i < length xs" and pi: "p (rev xs ! i)" and less: "\<forall>j < i. \<not> p (rev xs ! j)"
    using find_index_Some [OF i] by auto
  have "\<not> p (xs ! j)" if "j < length xs" "k < j" for j
  proof -
    have "length xs - 1 - j < i" using that k il by linarith
    then show ?thesis using less that by (auto simp: rev_nth Suc_diff_Suc)
  qed
  then show ?thesis using il pi k by (simp add: rev_nth)
qed

lemma rposition_None: "rposition p xs = None \<longleftrightarrow> (\<forall>x \<in> set xs. \<not> p x)"
  by (simp add: rposition_def find_index_None)

lemma is_top_remove:
  assumes "is_top q k" "ys \<noteq> []" "q p \<noteq> []"
  shows "is_top (q(p := ys)) k"
  using assms by (auto simp: is_top_def)

text \<open>A thread that is not alone in its circle.\<close>

lemma park_thread_sim_ring:
  assumes rel: "sched_rel s q" and t: "t \<in> set (q (prio_index prio))" and more: "q (prio_index prio) \<noteq> [t]"
  shows "\<exists>s'. park_thread s t prio = (Done (), s') \<and> sched_rel s' (q_park t (prio_index prio) q)
    \<and> in_irq_handler s' = in_irq_handler s"
proof -
  let ?p = "prio_index prio"
  obtain as bs where q: "q ?p = as @ t # bs" using t by (meson split_list)
  have d: "distinct (q ?p)" using sched_rel_ring [OF rel] by (simp add: ring_def)
  define ys where "ys = bs @ as"
  have ne: "ys \<noteq> []" using more q by (auto simp: ys_def)
  have rem: "remove1 t (q ?p) = as @ bs" using d by (simp add: q remove1_append)
  have r: "ring (links s) (t # ys)"
    using sched_rel_ring [OF rel prio_index_bound [of prio]] ring_swap [of _ as "t # bs"] by (simp add: q ys_def)
  obtain l where l: "links s t = Some l" "l_prev l = last ys" "l_next l = hd ys"
    using ring_ends [OF r] ne by (metis hd_append2 last_ConsR)
  have tn: "t \<notin> set ys" using d by (auto simp: q ys_def)
  have sub: "set ys \<subseteq> set (q ?p)" by (auto simp: q ys_def)
  have tab: "in_table u" if "u \<in> set ys" for u using that sub sched_rel_table [OF rel prio_index_bound, of u prio] by auto
  have hdl: "hd ys \<in> set ys" "last ys \<in> set ys" using ne by auto
  have hn: "hd ys \<noteq> t" "last ys \<noteq> t" using hdl tn by auto
  define lk1 where "lk1 = (links s)(t := None)"
  obtain lp where lp: "lk1 (last ys) = Some lp"
    using ring_linked [OF r, of "last ys"] hdl hn by (auto simp: lk1_def)
  define lk2 where "lk2 = lk1(last ys := Some (set_next (hd ys) lp))"
  obtain ln where ln: "lk2 (hd ys) = Some ln"
    using ring_linked [OF r, of "hd ys"] hdl hn by (cases "hd ys = last ys") (auto simp: lk1_def lk2_def)
  define lk3 where "lk3 = lk2(hd ys := Some (set_prev (last ys) ln))"
  define hs where "hs = (if queue_heads s ! ?p = Some t then (queue_heads s)[?p := Some (hd ys)] else queue_heads s)"
  define s' where "s' = s\<lparr>links := lk3, queue_heads := hs\<rparr>"
  have lc: "link_copy s t = Some l"
    using sched_rel_link_copy [OF rel prio_index_bound t] l by simp
  have run: "park_thread s t prio = (Done (), s')"
    using in_table_not_irq [OF sched_rel_table [OF rel prio_index_bound t]] lc l hn lp ln tab hdl
    by (auto simp: park_thread_def Let_def link_copy_def put_link_def s'_def hs_def lk1_def lk2_def lk3_def)
  have "sched_rel s' (q(?p := as @ bs))"
  proof (rule sched_rel_update [OF rel prio_index_bound])
    show "ring (links s') (as @ bs)"
      using ring_swap [of lk3 bs as] ring_remove [OF r ne lp lk1_def lk2_def ln lk3_def]
      by (simp add: s'_def ys_def)
    show "queue_heads s' = (queue_heads s)[?p := head_of (as @ bs)]"
    proof (cases as)
      case Nil
      then show ?thesis using sched_rel_head [OF rel prio_index_bound [of prio]] ne
        by (cases bs) (auto simp: s'_def hs_def q ys_def)
    next
      case (Cons a as')
      then have "queue_heads s ! ?p = Some a" "a \<noteq> t"
        using sched_rel_head [OF rel prio_index_bound [of prio]] d by (auto simp: q)
      then show ?thesis using Cons by (simp add: s'_def hs_def) (metis list_update_id)
    qed
    show "is_top (q(?p := as @ bs)) (highest_ready_priority s')"
      using is_top_remove [of q _ "as @ bs" ?p] rel ne q by (auto simp: sched_rel_def s'_def ys_def)
    show "links s' u = links s u" if "u \<notin> set (q ?p) \<union> set (as @ bs)" for u
      using that sub hdl t by (auto simp: s'_def lk1_def lk2_def lk3_def)
    show "links s' u = None" if "u \<in> set (q ?p) - set (as @ bs)" for u
      using that hn by (auto simp: s'_def lk1_def lk2_def lk3_def q)
    show "in_table u" if "u \<in> set (as @ bs)" for u
      using that tab [of u] by (auto simp: ys_def)
  qed (auto simp: q)
  then show ?thesis using run rem by (auto simp: q_park_def s'_def)
qed

text \<open>A thread alone in its circle: the queue empties, and the next priority is searched for.\<close>

lemma park_thread_sim_last:
  assumes rel: "sched_rel s q" and t: "q (prio_index prio) = [t]"
    and other: "\<exists>u. ready_in q u \<and> u \<noteq> t"
  shows "\<exists>s'. park_thread s t prio = (Done (), s') \<and> sched_rel s' (q_park t (prio_index prio) q)
    \<and> in_irq_handler s' = in_irq_handler s"
proof -
  let ?p = "prio_index prio" and ?q = "q(prio_index prio := [])"
  have tin: "t \<in> set (q ?p)" by (simp add: t)
  obtain l where l: "links s t = Some l" "l_next l = t"
    using ring_ends [of "links s" t "[]"] sched_rel_ring [OF rel prio_index_bound [of prio]] t by auto
  have lc: "link_copy s t = Some l" using sched_rel_link_copy [OF rel prio_index_bound tin] l by simp
  have len: "length (queue_heads s) = NUM_PRIORITIES" using rel by (simp add: sched_rel_def)
  have top: "is_top q (highest_ready_priority s)" using rel by (simp add: sched_rel_def)
  obtain u p' where u: "p' < NUM_PRIORITIES" "u \<in> set (q p')" "u \<noteq> t"
    using other by (auto simp: ready_in_def)
  have p'p: "p' \<noteq> ?p" "q p' \<noteq> []" using u t by auto
  let ?hs = "take ?p ((queue_heads s)[?p := None])"
  define s' where "s' = s\<lparr>links := (links s)(t := None), queue_heads := (queue_heads s)[?p := None],
    highest_ready_priority := (if ?p = highest_ready_priority s
      then the (rposition (\<lambda>h. h \<noteq> None) ?hs) else highest_ready_priority s)\<rparr>"
  have found: "\<exists>k. rposition (\<lambda>h. h \<noteq> None) ?hs = Some k \<and> is_top ?q k" if eq: "?p = highest_ready_priority s"
  proof -
    have lt: "p' < ?p" using top u p'p eq by (metis is_top_def le_neq_implies_less)
    then have "head_of (q p') \<in> set ?hs"
      using sched_rel_head [OF rel, of p'] u len
      by (auto simp: in_set_conv_nth intro!: exI [of _ p'])
    moreover have "head_of (q p') \<noteq> None" using p'p by simp
    ultimately have "rposition (\<lambda>h. h \<noteq> None) ?hs \<noteq> None" unfolding rposition_None by blast
    then obtain k where k: "rposition (\<lambda>h. h \<noteq> None) ?hs = Some k" by auto
    have hsn: "?hs ! j = head_of (q j)" if "j < ?p" for j
      using that sched_rel_head [OF rel, of j] prio_index_bound [of prio] by simp
    have kb: "k < ?p" "q k \<noteq> []" "\<forall>j < ?p. k < j \<longrightarrow> q j = []"
      using rposition_Some [OF k] hsn len by auto
    have "is_top ?q k"
      using kb top eq prio_index_bound [of prio]
      unfolding is_top_def by (auto simp: not_le) (meson le_neq_implies_less not_le)
    then show ?thesis using k by auto
  qed
  have run: "park_thread s t prio = (Done (), s')"
    using in_table_not_irq [OF sched_rel_table [OF rel prio_index_bound tin]] lc l found
    by (auto simp: park_thread_def Let_def put_link_def s'_def)
  have "sched_rel s' ?q"
  proof (rule sched_rel_update [OF rel prio_index_bound])
    show "is_top ?q (highest_ready_priority s')"
    proof (cases "?p = highest_ready_priority s")
      case True
      then show ?thesis using found by (auto simp: s'_def)
    next
      case False
      then show ?thesis using top by (auto simp: is_top_def s'_def)
    qed
  qed (auto simp: s'_def t)
  then show ?thesis using run by (auto simp: q_park_def t s'_def)
qed

lemma park_thread_sim:
  assumes "sched_rel s q" and "t \<in> set (q (prio_index prio))" and "\<exists>u. ready_in q u \<and> u \<noteq> t"
  shows "\<exists>s'. park_thread s t prio = (Done (), s') \<and> sched_rel s' (q_park t (prio_index prio) q)
    \<and> in_irq_handler s' = in_irq_handler s"
  using assms park_thread_sim_ring park_thread_sim_last by blast

lemma park_thread_last_panics:
  assumes rel: "sched_rel s q" and t: "q (prio_index prio) = [t]"
    and other: "\<And>u. ready_in q u \<Longrightarrow> u = t"
  shows "fst (park_thread s t prio) = Panic"
proof -
  let ?p = "prio_index prio"
  have tin: "t \<in> set (q ?p)" by (simp add: t)
  obtain l where l: "links s t = Some l" "l_next l = t"
    using ring_ends [of "links s" t "[]"] sched_rel_ring [OF rel prio_index_bound [of prio]] t by auto
  have lc: "link_copy s t = Some l" using sched_rel_link_copy [OF rel prio_index_bound tin] l by simp
  have empty: "q j = []" if "j < NUM_PRIORITIES" "j \<noteq> ?p" for j
  proof (rule ccontr)
    assume "q j \<noteq> []"
    then obtain u where "u \<in> set (q j)" by (cases "q j") auto
    then show False
      using other [of u] that sched_rel_disjoint [OF rel that(1) prio_index_bound that(2)] t
      by (auto simp: ready_in_def)
  qed
  have "is_top q (highest_ready_priority s)" using rel by (simp add: sched_rel_def)
  then have eq: "highest_ready_priority s = ?p"
    using empty t by (metis is_top_def list.distinct(1) le_zero_eq prio_index_bound)
  have len: "length (queue_heads s) = NUM_PRIORITIES" using rel by (simp add: sched_rel_def)
  have none: "rposition (\<lambda>h. h \<noteq> None) (take ?p ((queue_heads s)[?p := None])) = None"
    unfolding rposition_None
    using sched_rel_head [OF rel less_trans [OF _ prio_index_bound [of prio]]]
      empty [OF less_trans [OF _ prio_index_bound [of prio]]] len
    by (auto simp: in_set_conv_nth)
  show ?thesis
    using in_table_not_irq [OF sched_rel_table [OF rel prio_index_bound tin]] lc l none eq
    by (simp add: park_thread_def Let_def put_link_def)
qed

lemma yield_thread_sim:
  assumes rel: "sched_rel s q" and t: "queue_heads s ! prio_index prio = Some t"
  shows "\<exists>s'. yield_thread s t prio = (Done (), s') \<and> sched_rel s' (q_yield (prio_index prio) q)
    \<and> in_irq_handler s' = in_irq_handler s"
proof -
  let ?p = "prio_index prio"
  obtain ts where q: "q ?p = t # ts"
    using t sched_rel_head [OF rel prio_index_bound [of prio]] by (cases "q ?p") auto
  have r: "ring (links s) (t # ts)" using sched_rel_ring [OF rel prio_index_bound [of prio]] q by simp
  obtain l where l: "links s t = Some l" "l_next l = hd (ts @ [t])" using ring_ends [OF r] by metis
  have lc: "link_copy s t = Some l" using sched_rel_link_copy [OF rel prio_index_bound [of prio], of t] q l by simp
  define s' where "s' = s\<lparr>queue_heads := (queue_heads s)[?p := Some (hd (ts @ [t]))]\<rparr>"
  have "yield_thread s t prio = (Done (), s')"
    using t lc l by (simp add: yield_thread_def s'_def)
  moreover have "sched_rel s' (q(?p := ts @ [t]))"
  proof (rule sched_rel_update [OF rel prio_index_bound])
    show "ring (links s') (ts @ [t])" using ring_swap [of _ "[t]" ts] r by (simp add: s'_def)
    show "is_top (q(?p := ts @ [t])) (highest_ready_priority s')"
      using is_top_remove [of q _ "ts @ [t]" ?p] rel q by (simp add: sched_rel_def s'_def)
    show "queue_heads s' = (queue_heads s)[?p := head_of (ts @ [t])]"
      by (cases ts) (simp_all add: s'_def)
    show "in_table u" if "u \<in> set (ts @ [t])" for u
      using that sched_rel_table [OF rel prio_index_bound, of u prio] by (auto simp: q)
  qed (auto simp: q s'_def)
  ultimately show ?thesis by (auto simp: q_yield_def q s'_def)
qed

lemma yield_thread_other:
  "queue_heads s ! prio_index prio \<noteq> Some t \<Longrightarrow> yield_thread s t prio = (Done (), s)"
  by (simp add: yield_thread_def)

text \<open>What runs is the head of the highest non-empty queue.\<close>

lemma activate_current_sim:
  assumes rel: "sched_rel s q" and ready: "ready_in q u" and irq: "\<not> in_irq_handler s"
  shows "\<exists>k t s'. k < NUM_PRIORITIES \<and> head_of (q k) = Some t \<and> (\<forall>p < NUM_PRIORITIES. k < p \<longrightarrow> q p = [])
    \<and> activate_current usage current s
        = (Done (if t = current then Resume else Switch t (fst t = 1)), s') \<and> sched_rel s' q"
proof -
  let ?k = "highest_ready_priority s"
  have top: "is_top q ?k" using rel by (simp add: sched_rel_def)
  obtain p where p: "p < NUM_PRIORITIES" "u \<in> set (q p)" using ready by (auto simp: ready_in_def)
  have "q ?k \<noteq> []" using p top unfolding is_top_def by force
  then obtain t where t: "head_of (q ?k) = Some t" by (cases "q ?k") auto
  have k: "?k < NUM_PRIORITIES" "\<forall>p < NUM_PRIORITIES. ?k < p \<longrightarrow> q p = []"
    using top unfolding is_top_def by (auto simp: not_le [symmetric])
  have rel': "sched_rel (record_cpu_usage usage s\<lparr>currently_measuring := c\<rparr>) q"
    "sched_rel (s\<lparr>currently_measuring := c\<rparr>) q" for c
    using rel by (simp_all add: sched_rel_def record_cpu_usage_def Let_def)
  show ?thesis
    using k t irq sched_rel_head [OF rel k(1)] rel rel'
    by (auto simp: activate_current_def Let_def intro!: exI [of _ ?k])
qed

section \<open>Round robin\<close>

text \<open>
  What a caller of the ready queues relies on: a state that stands for a queue per
  priority, its head, and a yield of the head that rotates it. From these laws alone every
  thread of a queue gets its turn.
\<close>

locale round_robin =
  fixes rel :: "'s \<Rightarrow> ('p \<Rightarrow> 't list) \<Rightarrow> bool"
    and current :: "'s \<Rightarrow> 'p \<Rightarrow> 't option"
    and yield :: "'p \<Rightarrow> 's \<Rightarrow> 's"
  assumes current_head: "rel s q \<Longrightarrow> q p \<noteq> [] \<Longrightarrow> current s p = Some (hd (q p))"
    and yield_rotates: "rel s q \<Longrightarrow> q p \<noteq> [] \<Longrightarrow> rel (yield p s) (q(p := rotate1 (q p)))"
begin

lemma yields_rotate:
  "rel s q \<Longrightarrow> q p \<noteq> [] \<Longrightarrow> rel ((yield p ^^ n) s) (q(p := rotate n (q p)))"
proof (induction n)
  case 0
  then show ?case by simp
next
  case (Suc n)
  have "rel (yield p ((yield p ^^ n) s)) ((q(p := rotate n (q p)))(p := rotate1 ((q(p := rotate n (q p))) p)))"
    by (rule yield_rotates [OF Suc.IH [OF Suc.prems]]) (use Suc.prems in simp)
  then show ?case by (simp only: fun_upd_upd fun_upd_same rotate_def funpow.simps o_apply)
qed

lemma turn_comes:
  assumes "rel s q" and i: "i < length (q p)"
  shows "current ((yield p ^^ i) s) p = Some (q p ! i)"
proof -
  have ne: "q p \<noteq> []" using i by auto
  have "hd (rotate i (q p)) = q p ! i" using i ne by (simp add: hd_rotate_conv_nth)
  then show ?thesis
    using current_head [OF yields_rotate [OF assms(1) ne, of i], of p] ne by simp
qed

lemma full_round:
  "rel s q \<Longrightarrow> q p \<noteq> [] \<Longrightarrow> rel ((yield p ^^ length (q p)) s) q"
  using yields_rotate [of s q p "length (q p)"] by simp

end

text \<open>The thread that runs at a priority yields.\<close>

definition yield_head :: "thread_priority \<Rightarrow> scheduler \<Rightarrow> scheduler" where
  "yield_head prio s = (case queue_heads s ! prio_index prio of
     None \<Rightarrow> s
   | Some t \<Rightarrow> snd (yield_thread s t prio))"

definition prio_rel :: "scheduler \<Rightarrow> (thread_priority \<Rightarrow> thread list) \<Rightarrow> bool" where
  "prio_rel s r \<longleftrightarrow> (\<exists>q. sched_rel s q \<and> (\<forall>p. r p = q (prio_index p)))"

interpretation sched: round_robin prio_rel "\<lambda>s p. queue_heads s ! prio_index p" yield_head
proof (unfold_locales, goal_cases)
  case (1 s q p)
  then show ?case by (auto simp: prio_rel_def sched_rel_head head_of_Some)
next
  case (2 s r p)
  then obtain q where q: "sched_rel s q" "\<forall>p. r p = q (prio_index p)" by (auto simp: prio_rel_def)
  obtain t where t: "queue_heads s ! prio_index p = Some t"
    using 2 q sched_rel_head [OF q(1) prio_index_bound [of p]] by (cases "q (prio_index p)") auto
  obtain s' where "yield_thread s t p = (Done (), s')" "sched_rel s' (q_yield (prio_index p) q)"
    using yield_thread_sim [OF q(1) t] by auto
  then show ?case using q t
    by (auto simp: prio_rel_def yield_head_def q_yield_def
        intro!: exI [of _ "q(prio_index p := rotate1 (q (prio_index p)))"])
qed

section \<open>Traces\<close>

text \<open>The calls the kernel makes to the scheduler, on the code's state and on the queues.\<close>

datatype sched_op =
    Ready thread thread_priority
  | Park thread thread_priority
  | Yield thread thread_priority

fun run_op :: "sched_op \<Rightarrow> scheduler \<Rightarrow> unit res \<times> scheduler" where
  "run_op (Ready t prio) s = ready_thread s t prio"
| "run_op (Park t prio) s = park_thread s t prio"
| "run_op (Yield t prio) s = yield_thread s t prio"

fun run_ops :: "sched_op list \<Rightarrow> scheduler \<Rightarrow> unit res \<times> scheduler" where
  "run_ops [] s = (Done (), s)"
| "run_ops (op # ops) s = seq (run_op op s) (\<lambda>_. run_ops ops)"

text \<open>The queues, with whether the interrupt thread runs.\<close>

fun abs_op :: "sched_op \<Rightarrow> bool \<times> ready_queues \<Rightarrow> bool \<times> ready_queues" where
  "abs_op (Ready t prio) (b, q) = (if snd t = IRQ_TID then (True, q) else (b, q_ready t (prio_index prio) q))"
| "abs_op (Park t prio) (b, q) = (if snd t = IRQ_TID then (False, q) else (b, q_park t (prio_index prio) q))"
| "abs_op (Yield t prio) (b, q) =
     (b, if head_of (q (prio_index prio)) = Some t then q_yield (prio_index prio) q else q)"

fun op_enabled :: "sched_op \<Rightarrow> bool \<times> ready_queues \<Rightarrow> bool" where
  "op_enabled (Ready t prio) (b, q) = (if snd t = IRQ_TID then \<not> b else in_table t \<and> \<not> ready_in q t)"
| "op_enabled (Park t prio) (b, q) = (if snd t = IRQ_TID then b
     else t \<in> set (q (prio_index prio)) \<and> (\<exists>p < NUM_PRIORITIES. \<exists>u \<in> set (q p). u \<noteq> t))"
| "op_enabled (Yield t prio) (b, q) = True"

fun ops_enabled :: "sched_op list \<Rightarrow> bool \<times> ready_queues \<Rightarrow> bool" where
  "ops_enabled [] a = True"
| "ops_enabled (op # ops) a = (op_enabled op a \<and> ops_enabled ops (abs_op op a))"

definition sched_abs :: "scheduler \<Rightarrow> bool \<times> ready_queues \<Rightarrow> bool" where
  "sched_abs s a \<longleftrightarrow> sched_rel s (snd a) \<and> in_irq_handler s = fst a"

lemma sched_abs_initial: "sched_abs initial_scheduler (False, \<lambda>_. [])"
  using sched_rel_initial by (simp add: sched_abs_def) (simp add: initial_scheduler_def)

lemma sched_rel_irq [simp]: "sched_rel (s\<lparr>in_irq_handler := b\<rparr>) q = sched_rel s q"
  by (simp add: sched_rel_def)

lemma run_op_sim:
  assumes rel: "sched_abs s a" and en: "op_enabled op a"
  shows "\<exists>s'. run_op op s = (Done (), s') \<and> sched_abs s' (abs_op op a)"
proof (cases a)
  case (Pair b q)
  have sr: "sched_rel s q" and irq: "in_irq_handler s = b" using rel Pair by (auto simp: sched_abs_def)
  show ?thesis
  proof (cases op)
    case (Ready t prio)
    then show ?thesis
      using en Pair sr irq ready_thread_sim [OF sr, of t prio]
      by (cases "snd t = IRQ_TID") (auto simp: ready_thread_def [of s t] sched_abs_def)
  next
    case (Park t prio)
    have "\<exists>u. ready_in q u \<and> u \<noteq> t" if "snd t \<noteq> IRQ_TID"
      using en Park Pair that by (auto simp: ready_in_def)
    then show ?thesis
      using Park en Pair sr irq park_thread_sim [OF sr, of t prio]
      by (cases "snd t = IRQ_TID") (auto simp: park_thread_def [of s t] sched_abs_def)
  next
    case (Yield t prio)
    then show ?thesis
      using Pair sr irq yield_thread_sim [OF sr, of prio t] yield_thread_other [of s prio t]
        sched_rel_head [OF sr prio_index_bound [of prio]]
      by (cases "head_of (q (prio_index prio)) = Some t") (auto simp: sched_abs_def)
  qed
qed

lemma run_ops_sim:
  "sched_abs s a \<Longrightarrow> ops_enabled ops a \<Longrightarrow>
   \<exists>s'. run_ops ops s = (Done (), s') \<and> sched_abs s' (fold abs_op ops a)"
proof (induction ops arbitrary: s a)
  case Nil
  then show ?case by simp
next
  case (Cons op ops)
  then obtain s1 where "run_op op s = (Done (), s1)" "sched_abs s1 (abs_op op a)"
    using run_op_sim [of s a op] by auto
  then show ?case using Cons.IH [of s1 "abs_op op a"] Cons.prems by simp
qed

section \<open>Properties\<close>

text \<open>
  C4: the scheduler implements one ready queue per priority. Every sequence of the kernel's
  calls that is enabled on the queues (a thread is readied when it is in no queue, parked
  when it is in its queue and not the last ready thread of the system; the interrupt thread
  enters and leaves in turn) runs on the linked tables without a panic, from the boot state,
  and ends in a state that stands for the queues the sequence computes: ready appends at the
  end, park removes, yield of the running thread moves it to the end.
\<close>

theorem scheduler_refines_queues:
  assumes "ops_enabled ops (False, \<lambda>_. [])"
  shows "\<exists>s. run_ops ops initial_scheduler = (Done (), s)
    \<and> sched_rel s (snd (fold abs_op ops (False, \<lambda>_. [])))
    \<and> in_irq_handler s = fst (fold abs_op ops (False, \<lambda>_. []))"
  using run_ops_sim [OF sched_abs_initial assms] by (auto simp: sched_abs_def)

definition demo_ops :: "sched_op list" where
  "demo_ops = [Ready (1, 1) Idle, Ready (2, 1) AppDefault, Ready (3, 1) AppDefault, Ready (3, 2) AppDefault]"

lemma demo_ops_enabled: "ops_enabled demo_ops (False, \<lambda>_. [])"
  by (simp add: demo_ops_def q_ready_def ready_in_def in_table_def sched_consts)

lemma demo_queue:
  "snd (fold abs_op demo_ops (False, \<lambda>_. [])) 3 = [(2, 1), (3, 1), (3, 2)]"
  "snd (fold abs_op demo_ops (False, \<lambda>_. [])) 0 = [(1, 1)]"
  "\<not> fst (fold abs_op demo_ops (False, \<lambda>_. []))"
  by (simp_all add: demo_ops_def q_ready_def sched_consts)

theorem scheduler_refines_queues_witness:
  "\<exists>s. run_ops (demo_ops @ [Yield (2, 1) AppDefault, Park (3, 2) AppDefault]) initial_scheduler = (Done (), s)
    \<and> queue_heads s ! 3 = Some (3, 1)"
proof -
  let ?ops = "demo_ops @ [Yield (2, 1) AppDefault, Park (3, 2) AppDefault]"
  have "ops_enabled ?ops (False, \<lambda>_. [])"
    by (simp add: demo_ops_def q_ready_def q_yield_def ready_in_def in_table_def sched_consts)
      (rule exI [of _ 3], simp)
  then obtain s where s: "run_ops ?ops initial_scheduler = (Done (), s)"
    "sched_rel s (snd (fold abs_op ?ops (False, \<lambda>_. [])))"
    using scheduler_refines_queues by blast
  have "snd (fold abs_op ?ops (False, \<lambda>_. [])) 3 = [(3, 1), (2, 1)]"
    by (simp add: demo_ops_def q_ready_def q_yield_def q_park_def sched_consts)
  then show ?thesis using s sched_rel_head [OF s(2), of 3] by (auto simp: NUM_PRIORITIES_def)
qed

text \<open>
  Whenever a thread is ready and no interrupt is being handled, \<open>activate_current\<close> does
  not panic and picks the head of the highest priority queue that is not empty: it resumes
  the current thread when that is the one, and otherwise switches to it, arming the
  preemption timer unless the chosen process is the idle process.
\<close>

theorem activate_highest_priority:
  assumes "sched_rel s q" and "ready_in q u" and "\<not> in_irq_handler s"
  shows "\<exists>k t s'. k < NUM_PRIORITIES \<and> head_of (q k) = Some t \<and> (\<forall>p < NUM_PRIORITIES. k < p \<longrightarrow> q p = [])
    \<and> activate_current usage current s
        = (Done (if t = current then Resume else Switch t (fst t = 1)), s') \<and> sched_rel s' q"
  by (rule activate_current_sim [OF assms])

lemma demo_state:
  obtains s q where "sched_rel s q" "q 3 = [(2, 1), (3, 1), (3, 2)]" "q 0 = [(1, 1)]" "\<not> in_irq_handler s"
  using run_ops_sim [OF sched_abs_initial demo_ops_enabled] demo_queue by (auto simp: sched_abs_def)

theorem activate_highest_priority_witness:
  "\<exists>s q t s'. sched_rel s q \<and> q 3 = [(2, 1), (3, 1), (3, 2)]
    \<and> activate_current 5 (9, 9) s = (Done (if t = (9, 9) then Resume else Switch t (fst t = 1)), s')"
proof -
  obtain s q where s: "sched_rel s q" "q 3 = [(2, 1), (3, 1), (3, 2)]" "\<not> in_irq_handler s"
    by (rule demo_state)
  have "ready_in q (2, 1)" using s(2) by (auto simp: ready_in_def NUM_PRIORITIES_def intro!: exI [of _ 3])
  from activate_highest_priority [OF s(1) this s(3), of 5 "(9, 9)"] s show ?thesis by blast
qed

text \<open>
  C27: round robin. When the running thread of a priority yields again and again, the thread
  at position \<open>i\<close> of the queue runs after exactly \<open>i\<close> yields, whatever the queue holds: no
  ready thread of the running priority starves.
\<close>

theorem round_robin_turn:
  assumes "sched_rel s q" and "i < length (q (prio_index prio))"
  shows "queue_heads ((yield_head prio ^^ i) s) ! prio_index prio = Some (q (prio_index prio) ! i)"
proof -
  have "prio_rel s (\<lambda>p. q (prio_index p))" using assms by (auto simp: prio_rel_def)
  from sched.turn_comes [OF this assms(2)] show ?thesis .
qed

theorem round_robin_turn_witness:
  "\<exists>s q. sched_rel s q \<and> q 3 = [(2, 1), (3, 1), (3, 2)]
    \<and> queue_heads ((yield_head AppDefault ^^ 2) s) ! 3 = Some (3, 2)"
proof -
  obtain s q where s: "sched_rel s q" "q 3 = [(2, 1), (3, 1), (3, 2)]" by (rule demo_state)
  from round_robin_turn [OF s(1), of 2 AppDefault] s show ?thesis by auto
qed

text \<open>
  Parking the only ready thread of the system panics (\<open>No threads ready (not even
  idle)\<close>): the idle thread has to stay ready.
\<close>

theorem park_last_ready_panics:
  assumes "sched_rel s q" and "q (prio_index prio) = [t]" and "\<And>u. ready_in q u \<Longrightarrow> u = t"
  shows "fst (park_thread s t prio) = Panic"
  by (rule park_thread_last_panics [OF assms])

theorem park_last_ready_panics_witness:
  "fst (park_thread (snd (ready_thread initial_scheduler (1, 1) Idle)) (1, 1) Idle) = Panic"
proof -
  let ?q = "q_ready (1, 1) (prio_index Idle) (\<lambda>_. [])"
  have r: "sched_rel (snd (ready_thread initial_scheduler (1, 1) Idle)) ?q"
    using ready_thread_sim [OF sched_rel_initial, of "(1, 1)" Idle]
    by (auto simp: ready_in_def in_table_def sched_consts)
  show ?thesis
    by (rule park_last_ready_panics [OF r]) (auto simp: q_ready_def ready_in_def split: if_splits)
qed

end
