(* ===== verification/Message_Permissions.thy ===== *)
theory Message_Permissions
  imports Messages
begin

text \<open>
  The permission set of a connection (\<open>MessagePermissions\<close> in \<open>xous/kernel/src/server.rs\<close>):
  a 64-bit mask for the message ids below 64 and four ranges for the others. The abstract
  view is the predicate \<open>is_permitted\<close>; adding a range is shown to grow it by exactly that
  range when it succeeds.
\<close>

section \<open>Ranges of message ids\<close>

type_synonym msg_range = "usize \<times> usize"

definition in_range :: "usize \<Rightarrow> msg_range \<Rightarrow> bool" where
  "in_range m r \<longleftrightarrow> fst r \<le> m \<and> m < snd r"

definition range_is_empty :: "msg_range \<Rightarrow> bool" where
  "range_is_empty r \<longleftrightarrow> \<not> fst r < snd r"

definition MESSAGE_PERMISSION_COUNT :: nat where "MESSAGE_PERMISSION_COUNT = 4"

record message_permissions =
  mask_bits :: u64
  range_list :: "msg_range list"

definition default_message_permissions :: message_permissions where
  "default_message_permissions =
     \<lparr>mask_bits = 0, range_list = replicate MESSAGE_PERMISSION_COUNT (0, 0)\<rparr>"

section \<open>Operations\<close>

text \<open>The loop over the ids of the range below 64.\<close>

definition set_mask_bits :: "msg_range \<Rightarrow> u64 \<Rightarrow> u64" where
  "set_mask_bits r m = fold (\<lambda>i m. m OR push_bit i 1) [unat (fst r) ..< unat (min (snd r) 64)] m"

text \<open>The loop over the slots: merge with the first contiguous slot or take the first empty one.\<close>

fun add_to_slots :: "msg_range \<Rightarrow> msg_range list \<Rightarrow> msg_range list option" where
  "add_to_slots r [] = None"
| "add_to_slots r (slot # slots) =
     (if fst slot \<le> snd r \<and> fst r \<le> snd slot
      then Some ((min (fst slot) (fst r), max (snd slot) (snd r)) # slots)
      else if range_is_empty slot then Some (r # slots)
      else map_option ((#) slot) (add_to_slots r slots))"

definition permissions_add :: "message_permissions \<Rightarrow> msg_range \<Rightarrow> unit res \<times> message_permissions" where
  "permissions_add p r =
     (if range_is_empty r then (Fail InvalidArguments, p)
      else
        (let p1 = p\<lparr>mask_bits := set_mask_bits r (mask_bits p)\<rparr> in
         if snd r \<le> 64 then (Done (), p1)
         else case add_to_slots r (range_list p1) of
             Some slots \<Rightarrow> (Done (), p1\<lparr>range_list := slots\<rparr>)
           | None \<Rightarrow> (Fail KernelTableFull, p1)))"

definition is_permitted :: "message_permissions \<Rightarrow> usize \<Rightarrow> bool" where
  "is_permitted p m =
     (if m < 64 then mask_bits p AND push_bit (unat m) 1 \<noteq> 0
      else (\<exists>r \<in> set (range_list p). in_range m r))"

definition wf_permissions :: "message_permissions \<Rightarrow> bool" where
  "wf_permissions p \<longleftrightarrow> length (range_list p) = MESSAGE_PERMISSION_COUNT
    \<and> (\<forall>r \<in> set (range_list p). fst r \<le> snd r)"

section \<open>The mask\<close>

lemma and_push_bit_one: "(w :: 'w::len word) AND push_bit n 1 \<noteq> 0 \<longleftrightarrow> bit w n"
proof -
  have "bit w n" if "w AND push_bit n 1 \<noteq> 0"
  proof (rule ccontr)
    assume "\<not> bit w n"
    then have "w AND push_bit n 1 = 0" by (intro bit_word_eqI) (auto simp: bit_simps)
    then show False using that by simp
  qed
  moreover have "bit (w AND push_bit n 1) n" if "bit w n"
    using that bit_imp_le_length [OF that] by (auto simp: bit_simps)
  ultimately show ?thesis by fastforce
qed

lemma bit_fold_set:
  "bit (fold (\<lambda>i m. m OR push_bit i (1::'w::len word)) is m) n \<longleftrightarrow> bit m n \<or> (n < LENGTH('w) \<and> n \<in> set is)"
  by (induction "is" arbitrary: m) (auto simp: bit_simps)

lemma is_permitted_low:
  "m < 64 \<Longrightarrow> is_permitted p m \<longleftrightarrow> bit (mask_bits p) (unat m)"
  unfolding is_permitted_def and_push_bit_one by simp

lemma set_mask_bits_iff:
  assumes "m < 64"
  shows "bit (set_mask_bits r w) (unat m) \<longleftrightarrow> bit w (unat m) \<or> in_range m r"
proof -
  have "unat m < 64" using assms by (simp add: word_less_nat_alt)
  then show ?thesis
    unfolding set_mask_bits_def bit_fold_set
    by (auto simp: in_range_def min_def word_less_nat_alt word_le_nat_alt)
qed

section \<open>The slots\<close>

lemma merge_in_range:
  assumes "fst s \<le> snd s" "fst r \<le> snd r" "fst s \<le> snd r" "fst r \<le> snd s"
  shows "in_range m (min (fst s) (fst r), max (snd s) (snd r)) \<longleftrightarrow> in_range m s \<or> in_range m r"
  using assms by (auto simp: in_range_def min_def max_def)

lemma add_to_slots_sound:
  "add_to_slots r slots = Some slots' \<Longrightarrow> \<not> range_is_empty r \<Longrightarrow> \<forall>s \<in> set slots. fst s \<le> snd s \<Longrightarrow>
   length slots' = length slots \<and> (\<forall>s \<in> set slots'. fst s \<le> snd s)
   \<and> (\<forall>m. (\<exists>s \<in> set slots'. in_range m s) \<longleftrightarrow> (\<exists>s \<in> set slots. in_range m s) \<or> in_range m r)"
proof (induction r slots arbitrary: slots' rule: add_to_slots.induct)
  case (1 r)
  then show ?case by simp
next
  case (2 r slot slots)
  have r: "fst r \<le> snd r" using 2(3) by (simp add: range_is_empty_def)
  show ?case
  proof (cases "fst slot \<le> snd r \<and> fst r \<le> snd slot")
    case True
    then have s': "slots' = (min (fst slot) (fst r), max (snd slot) (snd r)) # slots"
      using 2 by auto
    have "fst slot \<le> snd slot" using 2(4) by simp
    then have "min (fst slot) (fst r) \<le> max (snd slot) (snd r)"
      by (meson min.cobounded1 max.cobounded1 order_trans)
    then show ?thesis
      using merge_in_range [of slot r] True 2(4) r by (auto simp: s')
  next
    case contig: False
    show ?thesis
    proof (cases "range_is_empty slot")
      case True
      then have s': "slots' = r # slots" using 2 contig by auto
      have "\<not> in_range m slot" for m using True by (auto simp: in_range_def range_is_empty_def)
      then show ?thesis using 2(4) r by (auto simp: s')
    next
      case False
      then obtain ss where ss: "add_to_slots r slots = Some ss" and s': "slots' = slot # ss"
        using 2(2) contig by auto
      show ?thesis using 2(1) [OF contig False ss 2(3)] 2(4) by (auto simp: s')
    qed
  qed
qed

lemma add_to_slots_None:
  "add_to_slots r slots = None \<longleftrightarrow>
   (\<forall>s \<in> set slots. \<not> range_is_empty s \<and> \<not> (fst s \<le> snd r \<and> fst r \<le> snd s))"
  by (induction slots) auto

section \<open>Adding a range\<close>

lemma wf_default_permissions [simp]: "wf_permissions default_message_permissions"
  by (simp add: wf_permissions_def default_message_permissions_def)

lemma default_range_list:
  "range_list default_message_permissions = [(0, 0), (0, 0), (0, 0), (0, 0)]"
  by (simp add: default_message_permissions_def MESSAGE_PERMISSION_COUNT_def numeral_eq_Suc)

lemma default_permits_nothing [simp]: "\<not> is_permitted default_message_permissions m"
  by (auto simp: is_permitted_def default_message_permissions_def in_range_def)

lemma permissions_add_Done:
  assumes "permissions_add p r = (Done (), p')" and "wf_permissions p"
  shows "wf_permissions p'" and "is_permitted p' m \<longleftrightarrow> is_permitted p m \<or> in_range m r"
proof -
  have ne: "\<not> range_is_empty r" using assms by (auto simp: permissions_add_def split: if_splits)
  have mask: "mask_bits p' = set_mask_bits r (mask_bits p)"
    using assms by (auto simp: permissions_add_def Let_def split: if_splits option.splits)
  show "wf_permissions p'"
    using assms ne add_to_slots_sound [OF _ ne, of "range_list p"]
    by (force simp: permissions_add_def Let_def wf_permissions_def split: if_splits option.splits)
  show "is_permitted p' m \<longleftrightarrow> is_permitted p m \<or> in_range m r"
  proof (cases "m < 64")
    case True
    then show ?thesis using set_mask_bits_iff [OF True] by (simp add: is_permitted_low mask)
  next
    case False
    show ?thesis
    proof (cases "snd r \<le> 64")
      case True
      then have "range_list p' = range_list p" "\<not> in_range m r"
        using assms ne False by (auto simp: permissions_add_def Let_def in_range_def)
      then show ?thesis using False by (simp add: is_permitted_def)
    next
      case high: False
      then obtain "add_to_slots r (range_list p) = Some (range_list p')"
        using assms ne by (auto simp: permissions_add_def Let_def split: option.splits)
      from add_to_slots_sound [OF this ne] assms(2) False show ?thesis
        by (simp add: is_permitted_def wf_permissions_def)
    qed
  qed
qed

lemma permissions_add_cases:
  "permissions_add p r = (res, p') \<Longrightarrow>
   (res = Done () \<and> \<not> range_is_empty r)
   \<or> (res = Fail InvalidArguments \<and> range_is_empty r \<and> p' = p)
   \<or> (res = Fail KernelTableFull \<and> \<not> range_is_empty r \<and> 64 < snd r \<and> add_to_slots r (range_list p) = None
      \<and> p' = p\<lparr>mask_bits := set_mask_bits r (mask_bits p)\<rparr>)"
  by (auto simp: permissions_add_def Let_def split: if_splits option.splits)

section \<open>Properties\<close>

text \<open>
  C28: a successful \<open>add\<close> grants exactly the requested range: a message id is permitted
  afterwards iff it was before or lies in the range, across the mask, the merging of
  contiguous slots and the use of empty slots; and the representation stays well formed.
\<close>

theorem permissions_add_exact:
  assumes "wf_permissions p" and "permissions_add p r = (Done (), p')"
  shows "wf_permissions p' \<and> (\<forall>m. is_permitted p' m \<longleftrightarrow> is_permitted p m \<or> in_range m r)"
  using permissions_add_Done [OF assms(2,1)] by simp

theorem permissions_add_exact_witness:
  "is_permitted (snd (permissions_add default_message_permissions (60, 100))) 99
   \<and> \<not> is_permitted (snd (permissions_add default_message_permissions (60, 100))) 100"
proof -
  obtain p' where p': "permissions_add default_message_permissions (60, 100) = (Done (), p')"
    by (auto simp: permissions_add_def default_range_list range_is_empty_def Let_def)
  from permissions_add_exact [OF wf_default_permissions this] p' show ?thesis
    by (simp add: in_range_def)
qed

text \<open>
  a failed \<open>add\<close> is not atomic. It never revokes a permission and never grants an id of
  64 or more, but when the slots are exhausted (\<open>KernelTableFull\<close>) every id of the range
  below 64 has been granted although the call reports an error.
\<close>

theorem permissions_add_failure:
  assumes "permissions_add p r = (Fail e, p')"
  shows "(e = InvalidArguments \<and> p' = p) \<or>
    (e = KernelTableFull \<and> range_list p' = range_list p
      \<and> (\<forall>m. is_permitted p' m \<longleftrightarrow> is_permitted p m \<or> (m < 64 \<and> in_range m r)))"
proof -
  have "is_permitted (p\<lparr>mask_bits := set_mask_bits r (mask_bits p)\<rparr>) m
      \<longleftrightarrow> is_permitted p m \<or> (m < 64 \<and> in_range m r)" for m
    using set_mask_bits_iff [of m r] is_permitted_low [of m]
    by (cases "m < 64") (simp, simp add: is_permitted_def)
  then show ?thesis using permissions_add_cases [OF assms] by auto
qed

definition full_permissions :: message_permissions where
  "full_permissions = \<lparr>mask_bits = 0, range_list = [(100, 101), (110, 111), (120, 121), (130, 131)]\<rparr>"

theorem permissions_add_failure_witness:
  "fst (permissions_add full_permissions (0, 90)) = Fail KernelTableFull
   \<and> is_permitted (snd (permissions_add full_permissions (0, 90))) 7 \<and> \<not> is_permitted full_permissions 7"
proof -
  obtain p' where p': "permissions_add full_permissions (0, 90) = (Fail KernelTableFull, p')"
    by (auto simp: permissions_add_def full_permissions_def range_is_empty_def)
  have "\<not> is_permitted full_permissions 7"
    by (simp add: is_permitted_def full_permissions_def)
  then show ?thesis using permissions_add_failure [OF p'] p' by (simp add: in_range_def)
qed

end
