(* ===== verification/Server_Queue.thy ===== *)
theory Server_Queue
  imports Message_Permissions
begin

text \<open>
  A server and its message queue (\<open>Server\<close>, \<open>QueuedMessage\<close>, \<open>SenderID\<close>, \<open>ServerBuffer\<close> in
  \<open>xous/kernel/src/server.rs\<close>). The queue is one page of slots; messages carry a generation
  number, slots of taken blocking messages stay occupied until the reply, and the abstract
  view is a mailbox: the list of the pending messages in the order in which they were sent.
\<close>

section \<open>Sender ids\<close>

record sender_id =
  sid_sidx :: usize
  sid_idx :: usize
  sid_pid :: "pid option"

definition sender_id_from_usize :: "usize \<Rightarrow> sender_id" where
  "sender_id_from_usize item =
     \<lparr>sid_sidx = drop_bit 16 item AND 0xff, sid_idx = item AND 0xffff, sid_pid = pid_new (drop_bit 24 item)\<rparr>"

definition sender_id_to_usize :: "sender_id \<Rightarrow> usize" where
  "sender_id_to_usize v =
     (push_bit 24 (case sid_pid v of None \<Rightarrow> 0 | Some p \<Rightarrow> of_nat p)
      OR (push_bit 16 (sid_sidx v) AND 0x00ff0000) OR (sid_idx v AND 0xffff))"

section \<open>Buffers and queued messages\<close>

text \<open>A \<open>ServerBuffer\<close> is a non-zero address and a non-zero size, like a range.\<close>

type_synonym server_buffer = memory_range

definition server_buffer_new :: "memory_range \<Rightarrow> error + server_buffer" where
  "server_buffer_new r =
     (if mr_addr r = 0 then Inl BadAddress
      else if mr_size r = 0 then Inl InvalidArguments
      else Inr \<lparr>mr_addr = mr_addr r, mr_size = mr_size r\<rparr>)"

type_synonym usize4 = "usize \<times> usize \<times> usize \<times> usize"

text \<open>The variants keep the fields of the source in order; thread ids are stored as bytes.\<close>

datatype queued_message =
    Empty
  | BlockingScalarMessage pid tid u8 message_id usize4
  | ScalarMessage pid u8 message_id usize4
  | MemoryMessageSend pid u8 message_id server_buffer usize usize
  | MemoryMessageBlockingSend pid tid u8 message_id usize server_buffer usize usize
  | MemoryMessageROLend pid tid u8 message_id usize server_buffer usize usize
  | MemoryMessageRWLend pid tid u8 message_id usize server_buffer usize usize
  | MemoryMessageROLendTerminated u8 message_id server_buffer usize usize
  | MemoryMessageRWLendTerminated u8 message_id server_buffer usize usize
  | MemoryMessageBlockingSendTerminated u8 message_id server_buffer usize usize
  | BlockingScalarTerminated u8 message_id usize4
  | WaitingReturnMemory pid tid server_buffer usize
  | WaitingReturnMoved pid tid usize usize
  | WaitingReturnMovedTerminated
  | WaitingForget server_buffer
  | WaitingReturnScalar pid tid
  | WaitingReturnScalarTerminated

datatype waiting_message =
    NoWaitingMessage
  | BorrowedMemory pid tid usize
  | MovedMemory pid tid usize usize
  | WaitingScalar pid tid
  | ScalarMessageTerminated
  | ForgetMemory memory_range

definition tid_as_u8 :: "tid \<Rightarrow> tid" where
  "tid_as_u8 t = t mod 256"

record server =
  srv_sid :: sid
  srv_pid :: pid
  queue_head :: nat
  queue_tail :: nat
  head_generation :: u8
  tail_generation :: u8
  empty_count :: nat
  queue :: "queued_message list"
  ready_threads :: usize
  default_permissions :: message_permissions
  event_handlers :: "message_id option list"
  srv_backing :: memory_range

definition NUM_SERVER_EVENTS :: nat where "NUM_SERVER_EVENTS = 2"

text \<open>A slot takes 32 bytes of the backing memory.\<close>

definition QUEUED_MESSAGE_SIZE :: nat where "QUEUED_MESSAGE_SIZE = 32"

text \<open>The backing page is zeroed, and a zero word is the discriminant of \<open>Empty\<close>.\<close>

definition server_init ::
    "server option \<Rightarrow> pid \<Rightarrow> sid \<Rightarrow> memory_range \<Rightarrow> msg_range \<Rightarrow> unit res \<times> server option" where
  "server_init new p sd backing initial_permissions =
     (if new \<noteq> None then (Fail MemoryInUse, new)
      else
        (let n = unat (mr_size backing) div QUEUED_MESSAGE_SIZE;
             (r, perms) = (if range_is_empty initial_permissions then (Done (), default_message_permissions)
                           else permissions_add default_message_permissions initial_permissions)
         in case r of
              Fail e \<Rightarrow> (Fail e, new)
            | Panic \<Rightarrow> (Panic, new)
            | Done _ \<Rightarrow>
                (Done (), Some \<lparr>srv_sid = sd, srv_pid = p, queue_head = 0, queue_tail = 0,
                   head_generation = 0, tail_generation = 0, empty_count = n,
                   queue = replicate n Empty, ready_threads = 0, default_permissions = perms,
                   event_handlers = replicate NUM_SERVER_EVENTS None, srv_backing = backing\<rparr>)))"

section \<open>Sending\<close>

definition is_queue_full :: "server \<Rightarrow> bool" where
  "is_queue_full s \<longleftrightarrow> empty_count s = 0"

text \<open>The successor of a slot index.\<close>

definition next_slot :: "nat \<Rightarrow> nat \<Rightarrow> nat" where
  "next_slot n i = (if n \<le> i + 1 then 0 else i + 1)"

fun first_empty :: "queued_message list \<Rightarrow> nat list \<Rightarrow> nat option" where
  "first_empty q [] = None"
| "first_empty q (i # is) = (if q ! i = Empty then Some i else first_empty q is)"

definition find_empty_slot :: "server \<Rightarrow> nat res \<times> server" where
  "find_empty_slot s =
     (let n = length (queue s) in
      case first_empty (queue s) ([queue_head s ..< n] @ [0 ..< queue_head s]) of
        Some i \<Rightarrow> (Done i, s\<lparr>queue_head := next_slot n i\<rparr>)
      | None \<Rightarrow> (Fail ServerQueueFull, s))"

text \<open>The slot contents that \<open>queue_message\<close> and \<open>queue_response\<close> build, with their errors.\<close>

definition scalar_args :: "scalar_message \<Rightarrow> usize4" where
  "scalar_args m = (sm_arg1 m, sm_arg2 m, sm_arg3 m, sm_arg4 m)"

fun queued_of :: "pid \<Rightarrow> tid \<Rightarrow> u8 \<Rightarrow> message \<Rightarrow> usize option \<Rightarrow> error + queued_message" where
  "queued_of p t g (Scalar m) oa = Inr (ScalarMessage p g (sm_id m) (scalar_args m))"
| "queued_of p t g (BlockingScalar m) oa =
     Inr (BlockingScalarMessage p (tid_as_u8 t) g (sm_id m) (scalar_args m))"
| "queued_of p t g (Move m) oa =
     (case server_buffer_new (mm_buf m) of Inl e \<Rightarrow> Inl e
      | Inr b \<Rightarrow> Inr (MemoryMessageSend p g (mm_id m) b (unnz (mm_offset m)) (unnz (mm_valid m))))"
| "queued_of p t g (BlockingMove m) oa =
     (case oa of None \<Rightarrow> Inl InvalidArguments | Some a \<Rightarrow>
      (case server_buffer_new (mm_buf m) of Inl e \<Rightarrow> Inl e
       | Inr b \<Rightarrow> Inr (MemoryMessageBlockingSend p (tid_as_u8 t) g (mm_id m) a b
                        (unnz (mm_offset m)) (unnz (mm_valid m)))))"
| "queued_of p t g (MutableBorrow m) oa =
     (case oa of None \<Rightarrow> Inl InvalidArguments | Some a \<Rightarrow>
      (case server_buffer_new (mm_buf m) of Inl e \<Rightarrow> Inl e
       | Inr b \<Rightarrow> Inr (MemoryMessageRWLend p (tid_as_u8 t) g (mm_id m) a b
                        (unnz (mm_offset m)) (unnz (mm_valid m)))))"
| "queued_of p t g (Borrow m) oa =
     (case oa of None \<Rightarrow> Inl InvalidArguments | Some a \<Rightarrow>
      (case server_buffer_new (mm_buf m) of Inl e \<Rightarrow> Inl e
       | Inr b \<Rightarrow> Inr (MemoryMessageROLend p (tid_as_u8 t) g (mm_id m) a b
                        (unnz (mm_offset m)) (unnz (mm_valid m)))))"

definition queue_message :: "server \<Rightarrow> pid \<Rightarrow> tid \<Rightarrow> message \<Rightarrow> usize option \<Rightarrow> nat res \<times> server" where
  "queue_message s p t m oa =
     seq (find_empty_slot s) (\<lambda>i s1.
       case queued_of p t (tail_generation s1) m oa of
         Inl e \<Rightarrow> (Fail e, s1)
       | Inr qm \<Rightarrow>
           (let s2 = s1\<lparr>queue := (queue s1)[i := qm], empty_count := empty_count s1 - 1,
                        tail_generation := tail_generation s1 + 1\<rparr>
            in if tail_generation s2 = head_generation s2 then (Panic, s2) else (Done i, s2)))"

fun response_of :: "pid \<Rightarrow> tid \<Rightarrow> message \<Rightarrow> usize option \<Rightarrow> error + queued_message" where
  "response_of p t (Scalar m) ca = Inr (WaitingReturnScalar p (tid_as_u8 t))"
| "response_of p t (BlockingScalar m) ca = Inr (WaitingReturnScalar p (tid_as_u8 t))"
| "response_of p t (Move m) ca =
     (case server_buffer_new (mm_buf m) of Inl e \<Rightarrow> Inl e | Inr b \<Rightarrow> Inr (WaitingForget b))"
| "response_of p t (BlockingMove m) ca =
     (case ca of None \<Rightarrow> Inl InvalidArguments | Some a \<Rightarrow>
      (case nz (mr_size (mm_buf m)) of None \<Rightarrow> Inl InvalidArguments
       | Some sz \<Rightarrow> Inr (WaitingReturnMoved p (tid_as_u8 t) a sz)))"
| "response_of p t (MutableBorrow m) ca =
     (case ca of None \<Rightarrow> Inl InvalidArguments | Some a \<Rightarrow>
      (case server_buffer_new (mm_buf m) of Inl e \<Rightarrow> Inl e
       | Inr b \<Rightarrow> Inr (WaitingReturnMemory p (tid_as_u8 t) b a)))"
| "response_of p t (Borrow m) ca =
     (case ca of None \<Rightarrow> Inl InvalidArguments | Some a \<Rightarrow>
      (case server_buffer_new (mm_buf m) of Inl e \<Rightarrow> Inl e
       | Inr b \<Rightarrow> Inr (WaitingReturnMemory p (tid_as_u8 t) b a)))"

definition queue_response :: "server \<Rightarrow> pid \<Rightarrow> tid \<Rightarrow> message \<Rightarrow> usize option \<Rightarrow> nat res \<times> server" where
  "queue_response s p t m ca =
     seq (find_empty_slot s) (\<lambda>i s1.
       case response_of p t m ca of
         Inl e \<Rightarrow> (Fail e, s1)
       | Inr qm \<Rightarrow> (Done i, s1\<lparr>queue := (queue s1)[i := qm], empty_count := empty_count s1 - 1\<rparr>))"

section \<open>Receiving\<close>

text \<open>
  One arm of the match in \<open>take_next_message\<close>: the envelope and the slot's next content, when
  the slot holds a message and it is the message's turn. Messages of a process that is gone
  are delivered under the PID 255.
\<close>

definition envelope_from :: "usize \<Rightarrow> nat \<Rightarrow> pid option \<Rightarrow> message \<Rightarrow> envelope" where
  "envelope_from sidx i p m =
     \<lparr>env_sender = sender_id_to_usize \<lparr>sid_sidx = sidx, sid_idx = of_nat i, sid_pid = p\<rparr>, env_body = m\<rparr>"

definition mem_msg :: "message_id \<Rightarrow> server_buffer \<Rightarrow> usize \<Rightarrow> usize \<Rightarrow> memory_message" where
  "mem_msg i b offset valid = \<lparr>mm_id = i, mm_buf = b, mm_offset = nz offset, mm_valid = nz valid\<rparr>"

fun scalar_msg :: "message_id \<Rightarrow> usize4 \<Rightarrow> scalar_message" where
  "scalar_msg i (a, b, c, d) = \<lparr>sm_id = i, sm_arg1 = a, sm_arg2 = b, sm_arg3 = c, sm_arg4 = d\<rparr>"

fun deliver :: "usize \<Rightarrow> nat \<Rightarrow> u8 \<Rightarrow> queued_message \<Rightarrow> (envelope \<times> queued_message) option" where
  "deliver sidx i g (MemoryMessageROLend p t k mid a b f v) = (if k = g then
     Some (envelope_from sidx i (Some p) (Borrow (mem_msg mid b f v)), WaitingReturnMemory p t b a) else None)"
| "deliver sidx i g (MemoryMessageRWLend p t k mid a b f v) = (if k = g then
     Some (envelope_from sidx i (Some p) (MutableBorrow (mem_msg mid b f v)), WaitingReturnMemory p t b a) else None)"
| "deliver sidx i g (MemoryMessageROLendTerminated k mid b f v) = (if k = g then
     Some (envelope_from sidx i (Some 255) (Borrow (mem_msg mid b f v)), WaitingForget b) else None)"
| "deliver sidx i g (MemoryMessageRWLendTerminated k mid b f v) = (if k = g then
     Some (envelope_from sidx i (Some 255) (MutableBorrow (mem_msg mid b f v)), WaitingForget b) else None)"
| "deliver sidx i g (BlockingScalarMessage p t k mid args) = (if k = g then
     Some (envelope_from sidx i (Some p) (BlockingScalar (scalar_msg mid args)), WaitingReturnScalar p t) else None)"
| "deliver sidx i g (MemoryMessageSend p k mid b f v) = (if k = g then
     Some (envelope_from sidx i (Some p) (Move (mem_msg mid b f v)), Empty) else None)"
| "deliver sidx i g (MemoryMessageBlockingSend p t k mid a b f v) = (if k = g then
     Some (envelope_from sidx i (Some p) (BlockingMove (mem_msg mid b f v)),
           WaitingReturnMoved p t a (mr_size b)) else None)"
| "deliver sidx i g (MemoryMessageBlockingSendTerminated k mid b f v) = (if k = g then
     Some (envelope_from sidx i (Some 255) (BlockingMove (mem_msg mid b f v)), WaitingReturnMovedTerminated) else None)"
| "deliver sidx i g (ScalarMessage p k mid args) = (if k = g then
     Some (envelope_from sidx i (Some p) (Scalar (scalar_msg mid args)), Empty) else None)"
| "deliver sidx i g (BlockingScalarTerminated k mid args) = (if k = g then
     Some (envelope_from sidx i (Some 255) (BlockingScalar (scalar_msg mid args)), WaitingReturnScalarTerminated) else None)"
| "deliver sidx i g _ = None"

text \<open>The loop, from \<open>queue_tail\<close> around to it again; the fuel is the number of slots.\<close>

fun take_loop :: "nat \<Rightarrow> server \<Rightarrow> usize \<Rightarrow> nat \<Rightarrow> (nat \<times> envelope \<times> queued_message) option" where
  "take_loop 0 s sidx i = None"
| "take_loop (Suc fuel) s sidx i =
     (case deliver sidx i (head_generation s) (queue s ! i) of
        Some (env, response) \<Rightarrow> Some (i, env, response)
      | None \<Rightarrow>
          (let i' = next_slot (length (queue s)) i
           in if i' = queue_tail s then None else take_loop fuel s sidx i'))"

definition take_next_message :: "server \<Rightarrow> usize \<Rightarrow> envelope option \<times> server" where
  "take_next_message s sidx =
     (if tail_generation s = head_generation s then (None, s)
      else case take_loop (length (queue s)) s sidx (queue_tail s) of
          None \<Rightarrow> (None, s)
        | Some (i, env, response) \<Rightarrow>
            (Some env, s\<lparr>queue_tail := next_slot (length (queue s)) i,
                         empty_count := (if response = Empty then empty_count s + 1 else empty_count s),
                         queue := (queue s)[i := response],
                         head_generation := head_generation s + 1\<rparr>))"

section \<open>Replies\<close>

text \<open>The checks before the slot is replaced: the returned buffer is the one that was lent.\<close>

fun reply_check :: "queued_message \<Rightarrow> memory_range option \<Rightarrow> bool" where
  "reply_check (WaitingReturnMemory p t b a) (Some r) = (mr_addr b = mr_addr r \<and> mr_size b = mr_size r)"
| "reply_check (WaitingForget b) (Some r) = (mr_addr b = mr_addr r \<and> mr_size b = mr_size r)"
| "reply_check _ _ = True"

fun reply_of :: "queued_message \<Rightarrow> memory_range option \<Rightarrow> error + waiting_message" where
  "reply_of (WaitingReturnMemory p t b a) buf = Inr (BorrowedMemory p t a)"
| "reply_of (WaitingForget b) buf = Inr (ForgetMemory b)"
| "reply_of (WaitingReturnMoved p t a sz) buf = Inr (MovedMemory p t a sz)"
| "reply_of WaitingReturnMovedTerminated (Some r) = Inr (ForgetMemory r)"
| "reply_of WaitingReturnMovedTerminated None = Inl BadAddress"
| "reply_of (WaitingReturnScalar p t) buf = Inr (WaitingScalar p t)"
| "reply_of WaitingReturnScalarTerminated buf = Inr ScalarMessageTerminated"
| "reply_of _ buf = Inr NoWaitingMessage"

definition take_waiting_message ::
    "server \<Rightarrow> nat \<Rightarrow> memory_range option \<Rightarrow> waiting_message res \<times> server" where
  "take_waiting_message s i buf =
     (if length (queue s) \<le> i then (Fail BadAddress, s)
      else if \<not> reply_check (queue s ! i) buf then (Fail BadAddress, s)
      else case reply_of (queue s ! i) buf of
          Inl e \<Rightarrow> (Fail e, s)
        | Inr NoWaitingMessage \<Rightarrow> (Done NoWaitingMessage, s)
        | Inr w \<Rightarrow> (Done w, s\<lparr>queue := (queue s)[i := Empty], empty_count := empty_count s + 1,
                              queue_tail := next_slot (length (queue s)) i\<rparr>))"

text \<open>What becomes of a slot when process \<open>p\<close> terminates.\<close>

fun discard_slot :: "pid \<Rightarrow> queued_message \<Rightarrow> queued_message" where
  "discard_slot p (MemoryMessageROLend q t k mid a b f v) =
     (if q = p then MemoryMessageROLendTerminated k mid b f v else MemoryMessageROLend q t k mid a b f v)"
| "discard_slot p (MemoryMessageRWLend q t k mid a b f v) =
     (if q = p then MemoryMessageRWLendTerminated k mid b f v else MemoryMessageRWLend q t k mid a b f v)"
| "discard_slot p (MemoryMessageBlockingSend q t k mid a b f v) =
     (if q = p then MemoryMessageBlockingSendTerminated k mid b f v
      else MemoryMessageBlockingSend q t k mid a b f v)"
| "discard_slot p (BlockingScalarMessage q t k mid args) =
     (if q = p then BlockingScalarTerminated k mid args else BlockingScalarMessage q t k mid args)"
| "discard_slot p (WaitingReturnMemory q t b a) =
     (if q = p then WaitingForget b else WaitingReturnMemory q t b a)"
| "discard_slot p (WaitingReturnMoved q t a sz) =
     (if q = p then WaitingReturnMovedTerminated else WaitingReturnMoved q t a sz)"
| "discard_slot p (WaitingReturnScalar q t) =
     (if q = p then WaitingReturnScalarTerminated else WaitingReturnScalar q t)"
| "discard_slot p other = other"

definition discard_messages_for_pid :: "server \<Rightarrow> pid \<Rightarrow> server" where
  "discard_messages_for_pid s p = s\<lparr>queue := map (discard_slot p) (queue s)\<rparr>"

section \<open>Waiting threads and event handlers\<close>

text \<open>The loop over the rotating mask; \<open>None\<close> is the panic after a full turn.\<close>

fun ready_loop :: "nat \<Rightarrow> usize \<Rightarrow> tid \<Rightarrow> usize \<Rightarrow> (tid \<times> usize) option" where
  "ready_loop 0 tm n r = None"
| "ready_loop (Suc fuel) tm n r =
     (if r AND tm = tm then Some (n, r AND NOT tm)
      else (let tm' = word_rotl 1 tm in if tm' = 1 then None else ready_loop fuel tm' (n + 1) r))"

definition take_available_thread :: "server \<Rightarrow> tid option res \<times> server" where
  "take_available_thread s =
     (if ready_threads s = 0 then (Done None, s)
      else case ready_loop 32 1 0 (ready_threads s) of
          None \<Rightarrow> (Panic, s)
        | Some (n, r) \<Rightarrow> (Done (Some n), s\<lparr>ready_threads := r\<rparr>))"

definition return_available_thread :: "server \<Rightarrow> tid \<Rightarrow> unit res \<times> server" where
  "return_available_thread s t =
     (if ready_threads s AND push_bit t 1 \<noteq> 0 then (Panic, s)
      else (Done (), s\<lparr>ready_threads := ready_threads s OR push_bit t 1\<rparr>))"

definition server_park_thread :: "server \<Rightarrow> tid \<Rightarrow> unit res \<times> server" where
  "server_park_thread s t =
     (if ready_threads s AND push_bit t 1 \<noteq> 0 then (Panic, s)
      else (Done (), s\<lparr>ready_threads := ready_threads s OR push_bit t 1\<rparr>))"

definition set_event_handler :: "server \<Rightarrow> server_event \<Rightarrow> message_id \<Rightarrow> unit res \<times> server" where
  "set_event_handler s ev i =
     (case event_handlers s ! server_event_discr ev of
        Some _ \<Rightarrow> (Fail MemoryInUse, s)
      | None \<Rightarrow> (Done (), s\<lparr>event_handlers := (event_handlers s)[server_event_discr ev := Some i]\<rparr>))"

definition get_event_handler :: "server \<Rightarrow> server_event \<Rightarrow> message_id option" where
  "get_event_handler s ev = event_handlers s ! server_event_discr ev"

section \<open>The mailbox a queue stands for\<close>

text \<open>The generation of a pending message, and who sent what.\<close>

fun generation :: "queued_message \<Rightarrow> u8 option" where
  "generation (BlockingScalarMessage p t k mid args) = Some k"
| "generation (ScalarMessage p k mid args) = Some k"
| "generation (MemoryMessageSend p k mid b f v) = Some k"
| "generation (MemoryMessageBlockingSend p t k mid a b f v) = Some k"
| "generation (MemoryMessageROLend p t k mid a b f v) = Some k"
| "generation (MemoryMessageRWLend p t k mid a b f v) = Some k"
| "generation (MemoryMessageROLendTerminated k mid b f v) = Some k"
| "generation (MemoryMessageRWLendTerminated k mid b f v) = Some k"
| "generation (MemoryMessageBlockingSendTerminated k mid b f v) = Some k"
| "generation (BlockingScalarTerminated k mid args) = Some k"
| "generation _ = None"

fun pending_content :: "queued_message \<Rightarrow> pid \<times> message" where
  "pending_content (BlockingScalarMessage p t k mid args) = (p, BlockingScalar (scalar_msg mid args))"
| "pending_content (ScalarMessage p k mid args) = (p, Scalar (scalar_msg mid args))"
| "pending_content (MemoryMessageSend p k mid b f v) = (p, Move (mem_msg mid b f v))"
| "pending_content (MemoryMessageBlockingSend p t k mid a b f v) = (p, BlockingMove (mem_msg mid b f v))"
| "pending_content (MemoryMessageROLend p t k mid a b f v) = (p, Borrow (mem_msg mid b f v))"
| "pending_content (MemoryMessageRWLend p t k mid a b f v) = (p, MutableBorrow (mem_msg mid b f v))"
| "pending_content (MemoryMessageROLendTerminated k mid b f v) = (255, Borrow (mem_msg mid b f v))"
| "pending_content (MemoryMessageRWLendTerminated k mid b f v) = (255, MutableBorrow (mem_msg mid b f v))"
| "pending_content (MemoryMessageBlockingSendTerminated k mid b f v) = (255, BlockingMove (mem_msg mid b f v))"
| "pending_content (BlockingScalarTerminated k mid args) = (255, BlockingScalar (scalar_msg mid args))"
| "pending_content _ = (0, new_scalar 0 0 0 0 0)"

text \<open>The thread that a slot keeps blocked.\<close>

fun blocked_thread :: "queued_message \<Rightarrow> (pid \<times> tid) option" where
  "blocked_thread (BlockingScalarMessage p t k mid args) = Some (p, t)"
| "blocked_thread (MemoryMessageBlockingSend p t k mid a b f v) = Some (p, t)"
| "blocked_thread (MemoryMessageROLend p t k mid a b f v) = Some (p, t)"
| "blocked_thread (MemoryMessageRWLend p t k mid a b f v) = Some (p, t)"
| "blocked_thread (WaitingReturnMemory p t b a) = Some (p, t)"
| "blocked_thread (WaitingReturnMoved p t a sz) = Some (p, t)"
| "blocked_thread (WaitingReturnScalar p t) = Some (p, t)"
| "blocked_thread _ = None"

definition fifo :: "server \<Rightarrow> nat list \<Rightarrow> bool" where
  "fifo s is \<longleftrightarrow> distinct is
   \<and> set is = {i. i < length (queue s) \<and> generation (queue s ! i) \<noteq> None}
   \<and> (\<forall>k < length is. generation (queue s ! (is ! k)) = Some (head_generation s + of_nat k))
   \<and> tail_generation s = head_generation s + of_nat (length is)"

definition wf_server :: "server \<Rightarrow> bool" where
  "wf_server s \<longleftrightarrow> length (queue s) < 256 \<and> queue_head s < length (queue s)
   \<and> queue_tail s < length (queue s) \<and> empty_count s = count_if (\<lambda>q. q = Empty) (queue s)"

definition mailbox_rel :: "server \<Rightarrow> (pid \<times> message) list \<Rightarrow> bool" where
  "mailbox_rel s ms \<longleftrightarrow> wf_server s \<and>
     (\<exists>is. fifo s is \<and> ms = map (\<lambda>i. pending_content (queue s ! i)) is)"

lemma deliver_None_iff: "deliver sidx i g q = None \<longleftrightarrow> generation q \<noteq> Some g"
  by (cases q) auto

lemma deliver_Some:
  "deliver sidx i g q = Some (env, r) \<Longrightarrow>
   generation q = Some g \<and> generation r = None
   \<and> env = envelope_from sidx i (Some (fst (pending_content q))) (snd (pending_content q))
   \<and> (r = Empty \<longleftrightarrow> \<not> is_blocking (snd (pending_content q)))
   \<and> blocked_thread r = blocked_thread q"
  by (cases q) (auto split: if_splits)

lemma generation_Empty: "generation q \<noteq> None \<Longrightarrow> q \<noteq> Empty"
  by auto

lemma fifo_gen: "fifo s is \<Longrightarrow> k < length is \<Longrightarrow> generation (queue s ! (is ! k)) = Some (head_generation s + of_nat k)"
  by (simp add: fifo_def)

lemma fifo_mem: "fifo s is \<Longrightarrow> i \<in> set is \<longleftrightarrow> i < length (queue s) \<and> generation (queue s ! i) \<noteq> None"
  by (simp add: fifo_def)

lemma fifoI:
  assumes "distinct is" and "\<And>i. i \<in> set is \<longleftrightarrow> i < length (queue s) \<and> generation (queue s ! i) \<noteq> None"
    and "\<And>k. k < length is \<Longrightarrow> generation (queue s ! (is ! k)) = Some (head_generation s + of_nat k)"
    and "tail_generation s = head_generation s + of_nat (length is)"
  shows "fifo s is"
  using assms by (auto simp: fifo_def)

lemma fifo_length: "fifo s is \<Longrightarrow> length is = card {i. i < length (queue s) \<and> generation (queue s ! i) \<noteq> None}"
  unfolding fifo_def by (metis distinct_card)

lemma fifo_bound: "fifo s is \<Longrightarrow> i \<in> set is \<Longrightarrow> i < length (queue s)"
  by (auto simp: fifo_def)

lemma fifo_length_le:
  assumes "fifo s is"
  shows "length is \<le> length (queue s)"
proof -
  have "set is \<subseteq> {..< length (queue s)}" using assms by (auto simp: fifo_def)
  then have "card (set is) \<le> length (queue s)" using card_mono [of "{..< length (queue s)}"] by auto
  moreover have "card (set is) = length is" using assms unfolding fifo_def by (metis distinct_card)
  ultimately show ?thesis by simp
qed

lemma fifo_length_free:
  assumes "fifo s is" and "j < length (queue s)" and "generation (queue s ! j) = None"
  shows "length is < length (queue s)"
proof -
  have "set is \<subseteq> {..< length (queue s)} - {j}" using assms by (auto simp: fifo_def)
  then have "card (set is) \<le> card ({..< length (queue s)} - {j})" by (intro card_mono) auto
  also have "\<dots> = length (queue s) - 1" using assms(2) by (simp add: card_Diff_subset)
  finally have "card (set is) \<le> length (queue s) - 1" .
  moreover have "card (set is) = length is" using assms(1) unfolding fifo_def by (metis distinct_card)
  ultimately show ?thesis using assms(2) by linarith
qed

section \<open>Slots\<close>

lemma next_slot_mod: "i < n \<Longrightarrow> next_slot n i = (i + 1) mod n"
  by (auto simp: next_slot_def le_less Suc_le_eq mod_Suc)

lemma next_slot_less [simp]: "0 < n \<Longrightarrow> next_slot n i < n"
  by (auto simp: next_slot_def)

lemma next_slot_queue: "wf_server s \<Longrightarrow> next_slot (length (queue s)) i < length (queue s)"
  unfolding wf_server_def by (intro next_slot_less) linarith

lemma first_empty_Some: "first_empty q is = Some i \<Longrightarrow> i \<in> set is \<and> q ! i = Empty"
  by (induction "is") (auto split: if_splits)

lemma first_empty_None: "first_empty q is = None \<longleftrightarrow> (\<forall>i \<in> set is. q ! i \<noteq> Empty)"
  by (induction "is") auto

lemma find_empty_slot_cases:
  assumes "wf_server s"
  shows "(\<exists>i. find_empty_slot s = (Done i, s\<lparr>queue_head := next_slot (length (queue s)) i\<rparr>)
            \<and> i < length (queue s) \<and> queue s ! i = Empty \<and> empty_count s \<noteq> 0)
       \<or> (find_empty_slot s = (Fail ServerQueueFull, s) \<and> empty_count s = 0)"
proof -
  let ?n = "length (queue s)" and ?is = "[queue_head s ..< length (queue s)] @ [0 ..< queue_head s]"
  have set: "set ?is = {..< ?n}" using assms by (auto simp: wf_server_def)
  have cnt: "empty_count s = count_if (\<lambda>q. q = Empty) (queue s)" using assms by (simp add: wf_server_def)
  show ?thesis
  proof (cases "first_empty (queue s) ?is")
    case None
    then have "\<forall>i \<in> {..< ?n}. queue s ! i \<noteq> Empty" using first_empty_None set by metis
    then have "empty_count s = 0" unfolding cnt count_if_zero by auto
    then show ?thesis using None by (simp add: find_empty_slot_def Let_def)
  next
    case (Some i)
    then have i: "i < ?n" "queue s ! i = Empty" using first_empty_Some [OF Some] unfolding set by blast+
    then have "empty_count s \<noteq> 0" unfolding cnt using count_if_pos [of i "queue s"] by auto
    then show ?thesis using Some i by (auto simp: find_empty_slot_def Let_def)
  qed
qed

text \<open>The loop meets every slot before it comes back to \<open>queue_tail\<close>.\<close>

lemma take_loop_finds:
  assumes n: "n = length (queue s)" and t: "queue_tail s < n"
    and K: "K < n" and hit: "deliver sidx ((queue_tail s + K) mod n) (head_generation s)
        (queue s ! ((queue_tail s + K) mod n)) = Some (env, r)"
    and miss: "\<And>l. l < K \<Longrightarrow> deliver sidx ((queue_tail s + l) mod n) (head_generation s)
        (queue s ! ((queue_tail s + l) mod n)) = None"
  shows "m \<le> K \<Longrightarrow> K - m < fuel \<Longrightarrow>
    take_loop fuel s sidx ((queue_tail s + m) mod n) = Some ((queue_tail s + K) mod n, env, r)"
proof (induction fuel arbitrary: m)
  case 0
  then show ?case by simp
next
  case (Suc fuel)
  show ?case
  proof (cases "m = K")
    case True
    then show ?thesis using hit by simp
  next
    case False
    then have m: "m < K" using Suc.prems by simp
    have nx: "next_slot n ((queue_tail s + m) mod n) = (queue_tail s + Suc m) mod n"
      using K by (simp add: next_slot_mod mod_Suc_eq)
    have "(queue_tail s + Suc m) mod n \<noteq> queue_tail s"
    proof
      assume "(queue_tail s + Suc m) mod n = queue_tail s"
      then have "(queue_tail s + Suc m) mod n = (queue_tail s + 0) mod n" using t by simp
      then show False using ring_mod_inj [of "queue_tail s" n "Suc m" 0] t m K by simp
    qed
    then show ?thesis using miss [OF m] Suc.IH [of "Suc m"] Suc.prems m nx n by (simp add: Let_def)
  qed
qed

lemma take_loop_None:
  assumes "\<And>i. i < length (queue s) \<Longrightarrow> deliver sidx i (head_generation s) (queue s ! i) = None"
  shows "i < length (queue s) \<Longrightarrow> take_loop fuel s sidx i = None"
proof (induction fuel arbitrary: i)
  case (Suc fuel)
  have "next_slot (length (queue s)) i < length (queue s)"
    using Suc.prems by (intro next_slot_less) auto
  then show ?case using assms Suc by (simp add: Let_def)
qed simp

lemma take_loop_unique:
  assumes t: "queue_tail s < length (queue s)" and j: "j < length (queue s)"
    and hit: "deliver sidx j (head_generation s) (queue s ! j) = Some (env, r)"
    and miss: "\<And>i. i < length (queue s) \<Longrightarrow> i \<noteq> j \<Longrightarrow> deliver sidx i (head_generation s) (queue s ! i) = None"
  shows "take_loop (length (queue s)) s sidx (queue_tail s) = Some (j, env, r)"
proof -
  let ?n = "length (queue s)"
  obtain K where K: "K < ?n" and jK: "(queue_tail s + K) mod ?n = j"
    using ring_mod_surj [OF t j] by blast
  have "deliver sidx ((queue_tail s + l) mod ?n) (head_generation s) (queue s ! ((queue_tail s + l) mod ?n)) = None"
    if l: "l < K" for l
  proof (rule miss)
    show "(queue_tail s + l) mod ?n < ?n" using j by (intro mod_less_divisor) linarith
    show "(queue_tail s + l) mod ?n \<noteq> j"
    proof
      assume "(queue_tail s + l) mod ?n = j"
      then show False using ring_mod_inj [OF t, of l K] jK l K by simp
    qed
  qed
  from take_loop_finds [OF refl t K, of sidx env r 0] this hit jK t K show ?thesis by auto
qed

section \<open>Operations on the mailbox\<close>

lemma mailbox_rel_wf: "mailbox_rel s ms \<Longrightarrow> wf_server s"
  by (simp add: mailbox_rel_def)

lemma is_queue_full_iff: "wf_server s \<Longrightarrow> is_queue_full s \<longleftrightarrow> (\<forall>i < length (queue s). queue s ! i \<noteq> Empty)"
  unfolding is_queue_full_def wf_server_def by (simp add: count_if_zero)

text \<open>A slot without a pending message changes to another one without.\<close>

lemma fifo_update_idle:
  assumes "fifo s is" and j: "j < length (queue s)" "generation (queue s ! j) = None" "generation q = None"
  shows "fifo (s\<lparr>queue := (queue s)[j := q]\<rparr>) is"
    and "map (\<lambda>i. pending_content ((queue s)[j := q] ! i)) is = map (\<lambda>i. pending_content (queue s ! i)) is"
proof -
  have nj: "j \<notin> set is" using assms by (auto simp: fifo_def)
  have same: "(queue s)[j := q] ! i = queue s ! i" if "i \<in> set is" for i
    using that nj by (metis nth_list_update_neq)
  show "fifo (s\<lparr>queue := (queue s)[j := q]\<rparr>) is"
  proof (rule fifoI)
    show "i \<in> set is \<longleftrightarrow> i < length (queue (s\<lparr>queue := (queue s)[j := q]\<rparr>))
        \<and> generation (queue (s\<lparr>queue := (queue s)[j := q]\<rparr>) ! i) \<noteq> None" for i
      using fifo_mem [OF assms(1), of i] j by (cases "i = j") auto
    show "generation (queue (s\<lparr>queue := (queue s)[j := q]\<rparr>) ! (is ! k))
        = Some (head_generation (s\<lparr>queue := (queue s)[j := q]\<rparr>) + of_nat k)" if "k < length is" for k
      using fifo_gen [OF assms(1) that] same [OF nth_mem [OF that]] by simp
  qed (use assms(1) in \<open>simp_all add: fifo_def\<close>)
  show "map (\<lambda>i. pending_content ((queue s)[j := q] ! i)) is = map (\<lambda>i. pending_content (queue s ! i)) is"
    using same by simp
qed

lemma fifo_cong:
  "queue s' = queue s \<Longrightarrow> head_generation s' = head_generation s \<Longrightarrow> tail_generation s' = tail_generation s \<Longrightarrow>
   fifo s' is = fifo s is"
  by (simp add: fifo_def)

lemma wf_server_head: "wf_server s \<Longrightarrow> wf_server (s\<lparr>queue_head := next_slot (length (queue s)) i\<rparr>)"
  using next_slot_queue [of s i] by (simp add: wf_server_def)

lemma mailbox_rel_head:
  "mailbox_rel s ms \<Longrightarrow> mailbox_rel (s\<lparr>queue_head := next_slot (length (queue s)) i\<rparr>) ms"
  by (auto simp: mailbox_rel_def wf_server_head fifo_cong [of "s\<lparr>queue_head := _\<rparr>" s])

lemma queued_of_ok:
  "wf_message m \<Longrightarrow> msg_has_memory m \<and> is_blocking m \<longrightarrow> oa \<noteq> None \<Longrightarrow>
   \<exists>q. queued_of p t g m oa = Inr q \<and> generation q = Some g \<and> pending_content q = (p, m)
     \<and> blocked_thread q = (if is_blocking m then Some (p, tid_as_u8 t) else None)"
  by (cases m) (auto simp: server_buffer_new_def wf_memory_message_def wf_range_def mem_msg_def scalar_args_def)

lemma queued_of_error:
  "wf_message m \<Longrightarrow> queued_of p t g m oa = Inl e \<Longrightarrow> e = InvalidArguments \<and> msg_has_memory m \<and> is_blocking m \<and> oa = None"
  by (cases m) (auto simp: server_buffer_new_def wf_memory_message_def wf_range_def split: option.splits)

text \<open>A message put into an empty slot is the last of the mailbox.\<close>

lemma fifo_put:
  assumes f: "fifo s is" and wf: "wf_server s" and i: "i < length (queue s)" "queue s ! i = Empty"
    and g: "generation q = Some (tail_generation s)"
  shows "fifo (s\<lparr>queue := (queue s)[i := q], tail_generation := tail_generation s + 1\<rparr>) (is @ [i])"
    and "map (\<lambda>j. pending_content ((queue s)[i := q] ! j)) (is @ [i])
         = map (\<lambda>j. pending_content (queue s ! j)) is @ [pending_content q]"
    and "tail_generation s + 1 \<noteq> head_generation s"
proof -
  have ni: "i \<notin> set is" using f i by (auto simp: fifo_def)
  have same: "(queue s)[i := q] ! j = queue s ! j" if "j \<in> set is" for j
    using that ni by (metis nth_list_update_neq)
  show "fifo (s\<lparr>queue := (queue s)[i := q], tail_generation := tail_generation s + 1\<rparr>) (is @ [i])"
    (is "fifo ?s _")
  proof (rule fifoI)
    show "j \<in> set (is @ [i]) \<longleftrightarrow> j < length (queue ?s) \<and> generation (queue ?s ! j) \<noteq> None" for j
      using fifo_mem [OF f, of j] i g by (cases "j = i") auto
    show "generation (queue ?s ! ((is @ [i]) ! k)) = Some (head_generation ?s + of_nat k)"
      if "k < length (is @ [i])" for k
    proof (cases "k = length is")
      case True
      then show ?thesis using f i g by (simp add: fifo_def)
    next
      case False
      then have k: "k < length is" using that by simp
      then show ?thesis using fifo_gen [OF f k] same [OF nth_mem [OF k]] by (simp add: nth_append)
    qed
  qed (use f ni in \<open>simp_all add: fifo_def add.commute\<close>)
  show "map (\<lambda>j. pending_content ((queue s)[i := q] ! j)) (is @ [i])
         = map (\<lambda>j. pending_content (queue s ! j)) is @ [pending_content q]"
    using same i by simp
  have "length is < length (queue s)" by (rule fifo_length_free [OF f i(1)]) (simp add: i)
  then have "Suc (length is) < 256" using wf by (simp add: wf_server_def)
  moreover have "tail_generation s + 1 = head_generation s + of_nat (Suc (length is))"
    using f by (simp add: fifo_def add.assoc add.commute)
  ultimately show "tail_generation s + 1 \<noteq> head_generation s"
    using word_add_of_nat_inj [of "Suc (length is)" 0 "head_generation s"] by (simp add: add.commute)
qed

lemma wf_server_fill:
  assumes "wf_server s" and "i < length (queue s)" "queue s ! i = Empty" "q \<noteq> Empty"
  shows "wf_server (s\<lparr>queue := (queue s)[i := q], empty_count := empty_count s - 1\<rparr>)"
  using assms count_if_update [of i "queue s" "\<lambda>q. q = Empty" q] by (simp add: wf_server_def)

lemma wf_server_free:
  assumes "wf_server s" and "i < length (queue s)" "queue s ! i \<noteq> Empty"
  shows "wf_server (s\<lparr>queue := (queue s)[i := Empty], empty_count := empty_count s + 1\<rparr>)"
  using assms count_if_update [of i "queue s" "\<lambda>q. q = Empty" Empty] by (simp add: wf_server_def)

lemma wf_server_keep:
  assumes "wf_server s" and "i < length (queue s)" "queue s ! i \<noteq> Empty" "q \<noteq> Empty"
  shows "wf_server (s\<lparr>queue := (queue s)[i := q]\<rparr>)"
  using assms count_if_update [of i "queue s" "\<lambda>q. q = Empty" q] by (simp add: wf_server_def)

lemma wf_server_cong:
  "queue s' = queue s \<Longrightarrow> empty_count s' = empty_count s \<Longrightarrow> queue_head s' < length (queue s)
   \<Longrightarrow> queue_tail s' < length (queue s) \<Longrightarrow> wf_server s \<Longrightarrow> wf_server s'"
  by (simp add: wf_server_def)

lemma queue_message_sim:
  assumes rel: "mailbox_rel s ms" and m: "wf_message m" and oa: "msg_has_memory m \<and> is_blocking m \<longrightarrow> oa \<noteq> None"
    and room: "\<not> is_queue_full s"
  shows "\<exists>i s'. queue_message s p t m oa = (Done i, s') \<and> mailbox_rel s' (ms @ [(p, m)])
    \<and> i < length (queue s) \<and> queue s ! i = Empty \<and> (\<exists>q. queue s' = (queue s)[i := q]
    \<and> blocked_thread q = (if is_blocking m then Some (p, tid_as_u8 t) else None))"
proof -
  obtain "is" where f: "fifo s is" and ms: "ms = map (\<lambda>i. pending_content (queue s ! i)) is"
    and wf: "wf_server s" using rel by (auto simp: mailbox_rel_def)
  obtain i where i: "find_empty_slot s = (Done i, s\<lparr>queue_head := next_slot (length (queue s)) i\<rparr>)"
    "i < length (queue s)" "queue s ! i = Empty"
    using find_empty_slot_cases [OF wf] room by (auto simp: is_queue_full_def)
  obtain q where q: "queued_of p t (tail_generation s) m oa = Inr q"
    "generation q = Some (tail_generation s)" "pending_content q = (p, m)"
    "blocked_thread q = (if is_blocking m then Some (p, tid_as_u8 t) else None)"
    using queued_of_ok [OF m oa] by metis
  note put = fifo_put [OF f wf i(2,3) q(2)]
  define s' where "s' = s\<lparr>queue_head := next_slot (length (queue s)) i, queue := (queue s)[i := q],
    empty_count := empty_count s - 1, tail_generation := tail_generation s + 1\<rparr>"
  have run: "queue_message s p t m oa = (Done i, s')"
    using i q put(3) by (simp add: queue_message_def s'_def Let_def)
  have "fifo s' (is @ [i])" using put(1) fifo_cong [of s' "s\<lparr>queue := (queue s)[i := q], tail_generation := tail_generation s + 1\<rparr>"]
    by (simp add: s'_def)
  moreover have "wf_server s'"
    by (rule wf_server_cong [OF _ _ _ _ wf_server_fill [OF wf i(2,3), of q]])
      (use wf i q next_slot_queue [OF wf] in \<open>auto simp: s'_def wf_server_def\<close>)
  ultimately have "mailbox_rel s' (ms @ [(p, m)])"
    using put(2) q(3) ms unfolding mailbox_rel_def by (auto simp: s'_def intro!: exI [of _ "is @ [i]"])
  then show ?thesis using run i q(4) by (auto simp: s'_def)
qed

text \<open>Taking the first message leaves the others, in their order.\<close>

lemma fifo_take:
  assumes f: "fifo s (i # is)" and q: "generation q = None"
  shows "fifo (s\<lparr>queue := (queue s)[i := q], head_generation := head_generation s + 1\<rparr>) is"
    and "map (\<lambda>j. pending_content ((queue s)[i := q] ! j)) is = map (\<lambda>j. pending_content (queue s ! j)) is"
proof -
  have d: "distinct (i # is)" using f by (simp add: fifo_def)
  have same: "(queue s)[i := q] ! j = queue s ! j" if "j \<in> set is" for j
    using that d by (metis distinct.simps(2) nth_list_update_neq)
  show "fifo (s\<lparr>queue := (queue s)[i := q], head_generation := head_generation s + 1\<rparr>) is"
    (is "fifo ?s _")
  proof (rule fifoI)
    show "j \<in> set is \<longleftrightarrow> j < length (queue ?s) \<and> generation (queue ?s ! j) \<noteq> None" for j
      using fifo_mem [OF f, of j] d q by (cases "j = i") auto
    show "generation (queue ?s ! (is ! k)) = Some (head_generation ?s + of_nat k)" if "k < length is" for k
      using fifo_gen [OF f, of "Suc k"] that same [OF nth_mem [OF that]] by (simp add: add.commute add.left_commute)
  qed (use f d in \<open>simp_all add: fifo_def add.commute add.left_commute\<close>)
  show "map (\<lambda>j. pending_content ((queue s)[i := q] ! j)) is = map (\<lambda>j. pending_content (queue s ! j)) is"
    using same by simp
qed

lemma fifo_head_unique:
  assumes f: "fifo s is" and wf: "wf_server s" and k: "k < length is"
    and g: "generation (queue s ! (is ! k)) = Some (head_generation s)"
  shows "k = 0"
proof -
  have "k < 256" using k fifo_length_le [OF f] wf by (simp add: wf_server_def)
  moreover have "head_generation s + of_nat k = head_generation s + of_nat 0"
    using g fifo_gen [OF f k] by simp
  ultimately show ?thesis using word_add_of_nat_inj [of k 0 "head_generation s"] by simp
qed

lemma take_next_empty: "mailbox_rel s [] \<Longrightarrow> take_next_message s sidx = (None, s)"
  by (auto simp: mailbox_rel_def fifo_def take_next_message_def)

lemma take_next_sim:
  assumes rel: "mailbox_rel s ((p, m) # ms)"
  shows "\<exists>i s' r. take_next_message s sidx = (Some (envelope_from sidx i (Some p) m), s') \<and> mailbox_rel s' ms
    \<and> i < length (queue s) \<and> pending_content (queue s ! i) = (p, m)
    \<and> queue s' = (queue s)[i := r] \<and> blocked_thread r = blocked_thread (queue s ! i)
    \<and> (r = Empty \<longleftrightarrow> \<not> is_blocking m)"
proof -
  obtain i "is" where f: "fifo s (i # is)" and pm: "pending_content (queue s ! i) = (p, m)"
    and ms: "ms = map (\<lambda>i. pending_content (queue s ! i)) is" and wf: "wf_server s"
    using rel by (auto simp: mailbox_rel_def Cons_eq_map_conv)
  have i: "i < length (queue s)" using fifo_mem [OF f, of i] by simp
  have gi: "generation (queue s ! i) = Some (head_generation s)" using fifo_gen [OF f, of 0] by simp
  obtain env r where d: "deliver sidx i (head_generation s) (queue s ! i) = Some (env, r)"
    using gi by (metis deliver_None_iff option.exhaust surj_pair)
  have miss: "deliver sidx j (head_generation s) (queue s ! j) = None" if j: "j < length (queue s)" "j \<noteq> i" for j
  proof (rule ccontr)
    assume "deliver sidx j (head_generation s) (queue s ! j) \<noteq> None"
    then have g: "generation (queue s ! j) = Some (head_generation s)" by (simp add: deliver_None_iff)
    then obtain k where k: "k < length (i # is)" "(i # is) ! k = j"
      using fifo_mem [OF f, of j] j by (metis in_set_conv_nth option.distinct(1))
    then show False using fifo_head_unique [OF f wf, of k] g j by simp
  qed
  have t: "queue_tail s < length (queue s)" using wf by (simp add: wf_server_def)
  have loop: "take_loop (length (queue s)) s sidx (queue_tail s) = Some (i, env, r)"
    by (rule take_loop_unique [OF t i d miss])
  have ne: "tail_generation s \<noteq> head_generation s"
  proof -
    have "tail_generation s = head_generation s + of_nat (Suc (length is))" using f by (simp add: fifo_def)
    moreover have "Suc (length is) < 256" using fifo_length_le [OF f] wf by (simp add: wf_server_def)
    ultimately show ?thesis using word_add_of_nat_inj [of "Suc (length is)" 0 "head_generation s"] by simp
  qed
  note ds = deliver_Some [OF d]
  define s' where "s' = s\<lparr>queue_tail := next_slot (length (queue s)) i,
    empty_count := (if r = Empty then empty_count s + 1 else empty_count s),
    queue := (queue s)[i := r], head_generation := head_generation s + 1\<rparr>"
  have run: "take_next_message s sidx = (Some env, s')"
    using ne loop by (simp add: take_next_message_def s'_def)
  have "fifo s' is"
    using fifo_take(1) [OF f, of r] ds fifo_cong [of s' "s\<lparr>queue := (queue s)[i := r], head_generation := head_generation s + 1\<rparr>"]
    by (simp add: s'_def)
  moreover have ne_i: "queue s ! i \<noteq> Empty" using gi by auto
  have "wf_server s'"
  proof (cases "r = Empty")
    case True
    show ?thesis
      by (rule wf_server_cong [OF _ _ _ _ wf_server_free [OF wf i ne_i]])
        (use True wf next_slot_queue [OF wf] in \<open>auto simp: s'_def wf_server_def\<close>)
  next
    case False
    show ?thesis
      by (rule wf_server_cong [OF _ _ _ _ wf_server_keep [OF wf i ne_i False]])
        (use False wf next_slot_queue [OF wf] in \<open>auto simp: s'_def wf_server_def\<close>)
  qed
  ultimately have "mailbox_rel s' ms"
    using fifo_take(2) [OF f, of r] ds ms unfolding mailbox_rel_def by (auto simp: s'_def intro!: exI [of _ "is"])
  then show ?thesis using run i pm ds by (auto simp: s'_def intro!: exI [of _ i] exI [of _ r])
qed

text \<open>Replies free the slots of taken messages, and leave the mailbox alone.\<close>

lemma reply_of_None: "reply_of q buf = Inr NoWaitingMessage \<longleftrightarrow> generation q \<noteq> None \<or> q = Empty"
  by (cases q; cases buf) auto

lemma take_waiting_cases:
  "(\<exists>w. take_waiting_message s i buf = (Done w, s\<lparr>queue := (queue s)[i := Empty],
        empty_count := empty_count s + 1, queue_tail := next_slot (length (queue s)) i\<rparr>)
      \<and> i < length (queue s) \<and> generation (queue s ! i) = None \<and> queue s ! i \<noteq> Empty
      \<and> w \<noteq> NoWaitingMessage \<and> reply_of (queue s ! i) buf = Inr w)
   \<or> (take_waiting_message s i buf = (Done NoWaitingMessage, s) \<and> i < length (queue s)
      \<and> (generation (queue s ! i) \<noteq> None \<or> queue s ! i = Empty))
   \<or> (take_waiting_message s i buf = (Fail BadAddress, s))"
proof -
  have bad: "e = BadAddress" if "reply_of (queue s ! i) buf = Inl e" for e
    using that by (cases "queue s ! i"; cases buf) auto
  show ?thesis
    using bad reply_of_None [of "queue s ! i" buf]
    by (auto simp: take_waiting_message_def not_le split: sum.split waiting_message.split)
qed

lemma take_waiting_sim:
  assumes rel: "mailbox_rel s ms" and run: "take_waiting_message s i buf = (r, s')"
  shows "mailbox_rel s' ms \<and> r \<noteq> Panic"
proof -
  obtain "is" where f: "fifo s is" and ms: "ms = map (\<lambda>i. pending_content (queue s ! i)) is"
    and wf: "wf_server s" using rel by (auto simp: mailbox_rel_def)
  consider (taken) w where "r = Done w" "s' = s\<lparr>queue := (queue s)[i := Empty],
        empty_count := empty_count s + 1, queue_tail := next_slot (length (queue s)) i\<rparr>"
      "i < length (queue s)" "generation (queue s ! i) = None" "queue s ! i \<noteq> Empty"
    | (same) "s' = s" "r \<noteq> Panic"
    using take_waiting_cases [of s i buf] run by auto
  then show ?thesis
  proof cases
    case taken
    have "fifo s' is"
      using fifo_update_idle(1) [OF f taken(3,4), of Empty] fifo_cong [of s' "s\<lparr>queue := (queue s)[i := Empty]\<rparr>"]
      by (simp add: taken(2))
    moreover have "wf_server s'"
      by (rule wf_server_cong [OF _ _ _ _ wf_server_free [OF wf taken(3,5)]])
        (use taken wf next_slot_queue [OF wf] in \<open>auto simp: wf_server_def\<close>)
    moreover have "map (\<lambda>i. pending_content (queue s' ! i)) is = ms"
      using fifo_update_idle(2) [OF f taken(3,4), of Empty] ms by (simp add: taken(2))
    ultimately show ?thesis using taken(1) by (auto simp: mailbox_rel_def)
  next
    case same
    then show ?thesis using rel by simp
  qed
qed

lemma response_of_idle: "response_of p t m ca = Inr q \<Longrightarrow> generation q = None \<and> q \<noteq> Empty"
  by (cases m) (auto split: option.splits sum.splits)

lemma queue_response_sim:
  assumes rel: "mailbox_rel s ms" and run: "queue_response s p t m ca = (r, s')"
  shows "mailbox_rel s' ms \<and> r \<noteq> Panic"
proof -
  have wf: "wf_server s" using rel by (simp add: mailbox_rel_def)
  show ?thesis
  proof (cases "fst (find_empty_slot s) = Fail ServerQueueFull")
    case True
    then show ?thesis using run rel find_empty_slot_cases [OF wf] by (auto simp: queue_response_def)
  next
    case False
    then obtain i where i: "find_empty_slot s = (Done i, s\<lparr>queue_head := next_slot (length (queue s)) i\<rparr>)"
      "i < length (queue s)" "queue s ! i = Empty" using find_empty_slot_cases [OF wf] by auto
    let ?s1 = "s\<lparr>queue_head := next_slot (length (queue s)) i\<rparr>"
    have rel1: "mailbox_rel ?s1 ms" by (rule mailbox_rel_head [OF rel])
    show ?thesis
    proof (cases "response_of p t m ca")
      case (Inl e)
      then show ?thesis using run i rel1 by (auto simp: queue_response_def)
    next
      case (Inr q)
      note q = response_of_idle [OF Inr]
      obtain "is" where f: "fifo ?s1 is" and ms: "ms = map (\<lambda>i. pending_content (queue ?s1 ! i)) is"
        and wf1: "wf_server ?s1" using rel1 by (auto simp: mailbox_rel_def)
      have s': "s' = ?s1\<lparr>queue := (queue s)[i := q], empty_count := empty_count s - 1\<rparr>" "r = Done i"
        using run i Inr by (auto simp: queue_response_def)
      have "fifo s' is"
        using fifo_update_idle(1) [OF f, of i q] i q fifo_cong [of s' "?s1\<lparr>queue := (queue ?s1)[i := q]\<rparr>"]
        by (simp add: s')
      moreover have "wf_server s'" using wf_server_fill [OF wf1, of i q] i q by (simp add: s')
      moreover have "map (\<lambda>i. pending_content (queue s' ! i)) is = ms"
        using fifo_update_idle(2) [OF f, of i q] i q ms by (simp add: s')
      ultimately show ?thesis using s' by (auto simp: mailbox_rel_def)
    qed
  qed
qed

text \<open>The blocked senders of a terminated process become nobody, and nothing else changes.\<close>

fun discard_content :: "pid \<Rightarrow> pid \<times> message \<Rightarrow> pid \<times> message" where
  "discard_content p (q, m) = (if q = p \<and> is_blocking m then (255, m) else (q, m))"

lemma discard_slot_facts:
  "generation (discard_slot p q) = generation q"
  "discard_slot p q = Empty \<longleftrightarrow> q = Empty"
  "generation q \<noteq> None \<Longrightarrow> pending_content (discard_slot p q) = discard_content p (pending_content q)"
  "blocked_thread (discard_slot p q)
     = (case blocked_thread q of Some (p', t) \<Rightarrow> if p' = p then None else Some (p', t) | None \<Rightarrow> None)"
  by (cases q; auto)+

lemma discard_sim:
  assumes rel: "mailbox_rel s ms"
  shows "mailbox_rel (discard_messages_for_pid s p) (map (discard_content p) ms)"
proof -
  obtain "is" where f: "fifo s is" and ms: "ms = map (\<lambda>i. pending_content (queue s ! i)) is"
    and wf: "wf_server s" using rel by (auto simp: mailbox_rel_def)
  let ?s = "discard_messages_for_pid s p"
  have q: "queue ?s = map (discard_slot p) (queue s)" by (simp add: discard_messages_for_pid_def)
  have b: "i < length (queue s)" "generation (queue s ! i) \<noteq> None" if "i \<in> set is" for i
    using fifo_mem [OF f, of i] that by auto
  have "fifo ?s is"
  proof (rule fifoI)
    show "i \<in> set is \<longleftrightarrow> i < length (queue ?s) \<and> generation (queue ?s ! i) \<noteq> None" for i
      using fifo_mem [OF f, of i] by (auto simp: q discard_slot_facts)
    show "generation (queue ?s ! (is ! k)) = Some (head_generation ?s + of_nat k)" if "k < length is" for k
      using fifo_gen [OF f that] b [OF nth_mem [OF that]]
      by (simp add: q discard_slot_facts discard_messages_for_pid_def)
  qed (use f in \<open>simp_all add: fifo_def discard_messages_for_pid_def\<close>)
  moreover have "wf_server ?s"
    using wf by (simp add: wf_server_def discard_messages_for_pid_def count_if_map discard_slot_facts o_def)
  moreover have "map (\<lambda>i. pending_content (queue ?s ! i)) is = map (discard_content p) ms"
    using b by (auto simp: ms q discard_slot_facts)
  ultimately show ?thesis by (auto simp: mailbox_rel_def)
qed

section \<open>Sender ids and the mask of waiting threads\<close>

lemma mask_numerals:
  "(0x00ff0000 :: usize) = push_bit 16 (mask 8)" "(0xffff :: usize) = mask 16" "(0xff :: usize) = mask 8"
  by (simp_all add: mask_eq_exp_minus_1 push_bit_eq_mult)

lemma sender_fields:
  fixes P S I :: usize
  defines "item \<equiv> push_bit 24 P OR (push_bit 16 S AND push_bit 16 (mask 8)) OR (I AND mask 16)"
  shows "drop_bit 24 item = take_bit 8 P"
    and "drop_bit 16 item AND mask 8 = take_bit 8 S"
    and "item AND mask 16 = take_bit 16 I"
  unfolding item_def
  by (rule bit_word_eqI, auto simp: bit_simps)+

lemma take_bit_small: "x < 2 ^ n \<Longrightarrow> take_bit n x = (x :: usize)"
  by (simp add: take_bit_eq_mask less_mask_eq)

lemma sender_id_fields:
  "drop_bit 24 (sender_id_to_usize v) = take_bit 8 (case sid_pid v of None \<Rightarrow> 0 | Some p \<Rightarrow> of_nat p)"
  "drop_bit 16 (sender_id_to_usize v) AND 0xff = take_bit 8 (sid_sidx v)"
  "sender_id_to_usize v AND 0xffff = take_bit 16 (sid_idx v)"
  unfolding sender_id_to_usize_def mask_numerals by (rule sender_fields)+

lemma of_nat_pid_small: "wf_pid p \<Longrightarrow> (of_nat p :: usize) < 256"
  by (simp add: word_less_nat_alt wf_pid_def unat_of_nat_pid)

lemma sender_pid_of [simp]: "wf_pid p \<Longrightarrow> sender_pid (env_sender (envelope_from sidx i (Some p) m)) = Some p"
proof -
  assume p: "wf_pid p"
  have "take_bit 8 (of_nat p :: usize) = of_nat p"
    using take_bit_small [of "of_nat p" 8] of_nat_pid_small [OF p] by simp
  moreover have "(of_nat p :: usize) AND 0xff = of_nat p"
    using calculation by (simp add: mask_numerals(3) take_bit_eq_mask)
  ultimately show ?thesis
    unfolding envelope_from_def sender_pid_def
    using p by (simp only: envelope.select_convs sender_id_fields sender_id.select_convs option.case)
      (simp add: Let_def wf_pid_def unat_of_nat_pid)
qed

lemma env_body_of [simp]: "env_body (envelope_from sidx i p m) = m"
  by (simp add: envelope_from_def)

definition wf_sender_id :: "sender_id \<Rightarrow> bool" where
  "wf_sender_id v \<longleftrightarrow> sid_sidx v < 256 \<and> sid_idx v < 65536
     \<and> (case sid_pid v of None \<Rightarrow> True | Some p \<Rightarrow> wf_pid p)"

lemma ready_mask_step:
  "n < 32 \<Longrightarrow> word_rotl 1 (push_bit n 1 :: usize) = (if n = 31 then 1 else push_bit (Suc n) 1)"
proof -
  assume n: "n < 32"
  have m: "(k + 31) mod 32 = (if k = 0 then 31 else k - 1)" if "k < 32" for k :: nat
    using that by (auto simp: le_mod_geq)
  show ?thesis
    by (rule bit_word_eqI) (use n m in \<open>auto simp: bit_simps bit_word_rotl_iff\<close>)
qed

lemma and_bit_eq: "(r :: usize) AND push_bit n 1 = push_bit n 1 \<longleftrightarrow> bit r n" if "n < 32"
proof
  assume "r AND push_bit n 1 = push_bit n 1"
  then have "bit (r AND push_bit n 1) n = bit (push_bit n (1 :: usize)) n" by simp
  then show "bit r n" using that by (simp add: bit_simps)
next
  assume "bit r n"
  then show "r AND push_bit n 1 = push_bit n 1" by (intro bit_word_eqI) (auto simp: bit_simps)
qed

lemma ready_loop_least:
  assumes "bit r m" and "\<And>k. k < m \<Longrightarrow> \<not> bit r k"
  shows "n \<le> m \<Longrightarrow> m - n < fuel \<Longrightarrow>
    ready_loop fuel (push_bit n 1) n r = Some (m, r AND NOT (push_bit m 1))"
proof (induction fuel arbitrary: n)
  case 0
  then show ?case by simp
next
  case (Suc fuel)
  have m: "m < 32" using bit_imp_le_length [OF assms(1)] by simp
  show ?case
  proof (cases "n = m")
    case True
    then show ?thesis using and_bit_eq [OF m, of r] assms by (simp del: push_bit_of_1)
  next
    case False
    then have n: "n < m" "n < 31" using Suc.prems m by auto
    have "\<not> r AND push_bit n 1 = push_bit n 1" using and_bit_eq [of n r] assms(2) [OF n(1)] n m by simp
    moreover have "word_rotl 1 (push_bit n 1 :: usize) = push_bit (Suc n) 1"
      using ready_mask_step [of n] n by simp
    moreover have "push_bit (Suc n) (1 :: usize) \<noteq> 1"
    proof
      assume "push_bit (Suc n) (1 :: usize) = 1"
      then have "bit (push_bit (Suc n) (1 :: usize)) 0 = bit (1 :: usize) 0" by simp
      then show False by (simp add: bit_simps del: push_bit_of_1)
    qed
    ultimately show ?thesis using Suc.IH [of "Suc n"] Suc.prems n by (simp add: Let_def del: push_bit_of_1)
  qed
qed

lemma ready_loop_some:
  assumes "r \<noteq> 0"
  shows "\<exists>m < 32. bit r m \<and> (\<forall>k < m. \<not> bit r k) \<and> ready_loop 32 1 0 r = Some (m, r AND NOT (push_bit m 1))"
proof -
  obtain k where "bit r k" using assms by (auto simp: bit_eq_iff)
  then obtain m where m: "bit r m" "\<And>k. k < m \<Longrightarrow> \<not> bit r k"
    using exists_least_iff [of "bit r"] by auto
  then have "m < 32" using bit_imp_le_length [OF m(1)] by simp
  then show ?thesis using ready_loop_least [OF m, of 0 32] m by auto
qed

text \<open>The set of threads that wait for a message.\<close>

definition waiting_threads :: "server \<Rightarrow> tid set" where
  "waiting_threads s = {t. bit (ready_threads s) t}"

lemma take_available_thread_sim:
  "(waiting_threads s = {} \<and> take_available_thread s = (Done None, s))
   \<or> (\<exists>t s'. t \<in> waiting_threads s \<and> (\<forall>u \<in> waiting_threads s. t \<le> u)
        \<and> take_available_thread s = (Done (Some t), s') \<and> waiting_threads s' = waiting_threads s - {t})"
proof (cases "ready_threads s = 0")
  case True
  then show ?thesis by (auto simp: take_available_thread_def waiting_threads_def)
next
  case False
  then obtain m where m: "m < 32" "bit (ready_threads s) m" "\<forall>k < m. \<not> bit (ready_threads s) k"
    "ready_loop 32 1 0 (ready_threads s) = Some (m, ready_threads s AND NOT (push_bit m 1))"
    using ready_loop_some by blast
  have "waiting_threads (s\<lparr>ready_threads := ready_threads s AND NOT (push_bit m 1)\<rparr>) = waiting_threads s - {m}"
    using bit_imp_le_length [of "ready_threads s"]
    by (auto simp: waiting_threads_def bit_simps simp del: push_bit_of_1)
  moreover have "\<forall>u \<in> waiting_threads s. m \<le> u" using m(3) by (auto simp: waiting_threads_def not_less [symmetric])
  ultimately show ?thesis
    using m False by (auto simp: take_available_thread_def waiting_threads_def)
qed

lemma server_park_thread_sim:
  "t < 32 \<Longrightarrow> (if t \<in> waiting_threads s then fst (server_park_thread s t) = Panic
    else fst (server_park_thread s t) = Done ()
      \<and> waiting_threads (snd (server_park_thread s t)) = insert t (waiting_threads s))"
  unfolding server_park_thread_def and_push_bit_one
  by (auto simp: waiting_threads_def bit_simps simp del: push_bit_of_1)

section \<open>The mailbox contract\<close>

text \<open>
  What the kernel's send and receive rely on: \<open>put\<close> appends an item to what the mailbox
  holds, \<open>fetch\<close> returns the oldest item or nothing. Delivery in the order of sending follows
  from this alone.
\<close>

fun drain :: "('s \<Rightarrow> ('m \<times> 's) option) \<Rightarrow> nat \<Rightarrow> 's \<Rightarrow> 'm list \<times> 's" where
  "drain fetch 0 s = ([], s)"
| "drain fetch (Suc n) s = (case fetch s of None \<Rightarrow> ([], s)
     | Some (m, s') \<Rightarrow> (case drain fetch n s' of (ms, s'') \<Rightarrow> (m # ms, s'')))"

fun fill :: "('x \<Rightarrow> 's \<Rightarrow> 's option) \<Rightarrow> 'x list \<Rightarrow> 's \<Rightarrow> 's option" where
  "fill put [] s = Some s"
| "fill put (x # xs) s = (case put x s of None \<Rightarrow> None | Some s' \<Rightarrow> fill put xs s')"

locale mailbox =
  fixes rel :: "'s \<Rightarrow> 'm list \<Rightarrow> bool"
    and ok :: "'x \<Rightarrow> bool" and item :: "'x \<Rightarrow> 'm"
    and put :: "'x \<Rightarrow> 's \<Rightarrow> 's option"
    and fetch :: "'s \<Rightarrow> ('m \<times> 's) option"
  assumes put_appends: "rel s ms \<Longrightarrow> ok x \<Longrightarrow> put x s = Some s' \<Longrightarrow> rel s' (ms @ [item x])"
    and fetch_none: "rel s [] \<Longrightarrow> fetch s = None"
    and fetch_first: "rel s (m # ms) \<Longrightarrow> \<exists>s'. fetch s = Some (m, s') \<and> rel s' ms"
begin

lemma fill_appends:
  "rel s ms \<Longrightarrow> (\<forall>x \<in> set xs. ok x) \<Longrightarrow> fill put xs s = Some s' \<Longrightarrow> rel s' (ms @ map item xs)"
proof (induction xs arbitrary: s ms)
  case Nil
  then show ?case by simp
next
  case (Cons x xs)
  then obtain s1 where s1: "put x s = Some s1" "fill put xs s1 = Some s'"
    by (auto split: option.splits)
  then have "rel s1 (ms @ [item x])" using Cons.prems put_appends by auto
  from Cons.IH [OF this] s1 Cons.prems show ?case by simp
qed

lemma drain_all: "rel s ms \<Longrightarrow> fst (drain fetch (length ms) s) = ms \<and> rel (snd (drain fetch (length ms) s)) []"
proof (induction ms arbitrary: s)
  case Nil
  then show ?case by simp
next
  case (Cons m ms)
  then obtain s' where "fetch s = Some (m, s')" "rel s' ms" using fetch_first by blast
  then show ?case using Cons.IH [of s'] by (auto split: prod.splits)
qed

lemma delivered_in_order:
  assumes "rel s []" and "\<forall>x \<in> set xs. ok x" and "fill put xs s = Some s'"
  shows "fst (drain fetch (length xs) s') = map item xs"
  using drain_all [OF fill_appends [OF assms]] by simp

end

text \<open>The server queue as a mailbox: a send is a sender, its thread, the message and the
  client's address; a receive yields the sender's PID and the message of the envelope.\<close>

type_synonym send_request = "pid \<times> tid \<times> message \<times> usize option"

fun sendable :: "send_request \<Rightarrow> bool" where
  "sendable (p, t, m, oa) = (wf_pid p \<and> wf_message m \<and> (msg_has_memory m \<and> is_blocking m \<longrightarrow> oa \<noteq> None))"

fun sent_item :: "send_request \<Rightarrow> pid \<times> message" where
  "sent_item (p, t, m, oa) = (p, m)"

fun put_message :: "send_request \<Rightarrow> server \<Rightarrow> server option" where
  "put_message (p, t, m, oa) s = (case queue_message s p t m oa of (Done _, s') \<Rightarrow> Some s' | _ \<Rightarrow> None)"

definition fetch_message :: "usize \<Rightarrow> server \<Rightarrow> ((pid \<times> message) \<times> server) option" where
  "fetch_message sidx s = (case take_next_message s sidx of
     (Some env, s') \<Rightarrow> Some ((the (sender_pid (env_sender env)), env_body env), s')
   | (None, _) \<Rightarrow> None)"

definition server_mailbox :: "server \<Rightarrow> (pid \<times> message) list \<Rightarrow> bool" where
  "server_mailbox s ms \<longleftrightarrow> mailbox_rel s ms \<and> (\<forall>m \<in> set ms. wf_pid (fst m))"

lemma queue_message_Done:
  assumes rel: "mailbox_rel s ms" and run: "queue_message s p t m oa = (Done i, s')" and m: "wf_message m"
  shows "\<not> is_queue_full s" and "msg_has_memory m \<and> is_blocking m \<longrightarrow> oa \<noteq> None"
proof -
  show "\<not> is_queue_full s"
    using find_empty_slot_cases [OF mailbox_rel_wf [OF rel]] run
    by (auto simp: queue_message_def is_queue_full_def)
  show "msg_has_memory m \<and> is_blocking m \<longrightarrow> oa \<noteq> None"
    using find_empty_slot_cases [OF mailbox_rel_wf [OF rel]] run
    by (cases m) (auto simp: queue_message_def split: option.splits)
qed

interpretation mbox: mailbox server_mailbox sendable sent_item put_message "fetch_message sidx" for sidx
proof (unfold_locales, goal_cases)
  case (1 s ms x s')
  obtain p t m oa where x: "x = (p, t, m, oa)" by (cases x) auto
  obtain i where run: "queue_message s p t m oa = (Done i, s')"
    using 1(3) by (auto simp: x split: prod.splits outcome.splits)
  have rel: "mailbox_rel s ms" using 1(1) by (simp add: server_mailbox_def)
  have m: "wf_message m" "wf_pid p" using 1(2) by (simp_all add: x)
  note q = queue_message_Done [OF rel run m(1)]
  have "mailbox_rel s' (ms @ [(p, m)])"
    using queue_message_sim [OF rel m(1) q(2,1), of p t] run by auto
  then show ?case using 1(1) m by (auto simp: server_mailbox_def x)
next
  case (2 s)
  then show ?case using take_next_empty [of s sidx] by (simp add: server_mailbox_def fetch_message_def)
next
  case (3 s m ms)
  then have rel: "mailbox_rel s ((fst m, snd m) # ms)" and wf: "wf_pid (fst m)" and rest: "\<forall>m \<in> set ms. wf_pid (fst m)"
    by (auto simp: server_mailbox_def)
  from take_next_sim [OF rel, of sidx] obtain i s' where
    "take_next_message s sidx = (Some (envelope_from sidx i (Some (fst m)) (snd m)), s')" "mailbox_rel s' ms"
    by blast
  then show ?case using wf rest by (simp add: fetch_message_def server_mailbox_def)
qed

section \<open>Histories of a queue\<close>

definition PAGE_SIZE :: nat where "PAGE_SIZE = 4096"

text \<open>
  The states a server's queue goes through after its creation on one page, with the mailbox
  the calls so far amount to. Failed calls and receives that find nothing are steps too.
\<close>

inductive history :: "server \<Rightarrow> (pid \<times> message) list \<Rightarrow> bool" where
  created: "server_init None p sd backing perms = (Done (), Some s) \<Longrightarrow>
    unat (mr_size backing) = PAGE_SIZE \<Longrightarrow> history s []"
| sent: "history s ms \<Longrightarrow> wf_pid p \<Longrightarrow> wf_message m \<Longrightarrow> queue_message s p t m oa = (Done i, s') \<Longrightarrow>
    history s' (ms @ [(p, m)])"
| not_sent: "history s ms \<Longrightarrow> wf_message m \<Longrightarrow> queue_message s p t m oa = (Fail e, s') \<Longrightarrow> history s' ms"
| received: "history s ms \<Longrightarrow> take_next_message s sidx = (Some env, s') \<Longrightarrow> history s' (tl ms)"
| not_received: "history s ms \<Longrightarrow> take_next_message s sidx = (None, s') \<Longrightarrow> history s' ms"
| replied: "history s ms \<Longrightarrow> take_waiting_message s i buf = (r, s') \<Longrightarrow> history s' ms"
| responded: "history s ms \<Longrightarrow> queue_response s p t m ca = (r, s') \<Longrightarrow> history s' ms"
| discarded: "history s ms \<Longrightarrow> history (discard_messages_for_pid s p) (map (discard_content p) ms)"

lemma queue_message_fail:
  assumes rel: "mailbox_rel s ms" and m: "wf_message m" and run: "queue_message s p t m oa = (Fail e, s')"
  shows "mailbox_rel s' ms \<and> queue s' = queue s
    \<and> (if is_queue_full s then e = ServerQueueFull \<and> s' = s
       else e = InvalidArguments \<and> msg_has_memory m \<and> is_blocking m \<and> oa = None)"
proof (cases "is_queue_full s")
  case True
  then show ?thesis
    using find_empty_slot_cases [OF mailbox_rel_wf [OF rel]] run rel
    by (auto simp: queue_message_def is_queue_full_def)
next
  case False
  then obtain i where i: "find_empty_slot s = (Done i, s\<lparr>queue_head := next_slot (length (queue s)) i\<rparr>)"
    using find_empty_slot_cases [OF mailbox_rel_wf [OF rel]] by (auto simp: is_queue_full_def)
  then obtain e' where "queued_of p t (tail_generation s) m oa = Inl e'" "e' = e"
      "s' = s\<lparr>queue_head := next_slot (length (queue s)) i\<rparr>"
    using run by (auto simp: queue_message_def Let_def split: sum.splits if_splits)
  then show ?thesis
    using queued_of_error [OF m] mailbox_rel_head [OF rel, of i] False by auto
qed

lemma queue_message_no_panic:
  assumes rel: "mailbox_rel s ms" and m: "wf_message m"
  shows "no_panic (queue_message s p t m oa)"
proof (cases "is_queue_full s \<or> (msg_has_memory m \<and> is_blocking m \<and> oa = None)")
  case True
  show ?thesis
    using find_empty_slot_cases [OF mailbox_rel_wf [OF rel]] True
    by (cases m) (auto simp: queue_message_def no_panic_def is_queue_full_def split: option.splits sum.splits)
next
  case False
  then show ?thesis using queue_message_sim [OF rel m, of oa p t] by auto
qed

lemma server_init_mailbox:
  assumes "server_init None p sd backing perms = (Done (), Some s)" and "unat (mr_size backing) = PAGE_SIZE"
  shows "mailbox_rel s []"
proof -
  have s: "queue s = replicate 128 Empty" "queue_head s = 0" "queue_tail s = 0" "empty_count s = 128"
    "head_generation s = 0" "tail_generation s = 0"
    using assms by (auto simp: server_init_def PAGE_SIZE_def QUEUED_MESSAGE_SIZE_def Let_def
        split: if_splits outcome.splits prod.splits)
  have "fifo s []" by (auto simp: fifo_def s)
  then show ?thesis by (auto simp: mailbox_rel_def wf_server_def s count_if_def)
qed

lemma history_mailbox: "history s ms \<Longrightarrow> server_mailbox s ms"
proof (induction rule: history.induct)
  case (created p sd backing perms s)
  then show ?case using server_init_mailbox by (simp add: server_mailbox_def)
next
  case (sent s ms p m t oa i s')
  have "put_message (p, t, m, oa) s = Some s'" using sent by simp
  moreover have "sendable (p, t, m, oa)"
    using sent queue_message_Done(2) [of s ms p t m oa i s'] by (simp add: server_mailbox_def)
  ultimately show ?case using mbox.put_appends [OF sent.IH] by (metis sent_item.simps)
next
  case (not_sent s ms m p t oa e s')
  then show ?case using queue_message_fail by (auto simp: server_mailbox_def)
next
  case (received s ms sidx env s')
  show ?case
  proof (cases ms)
    case Nil
    then show ?thesis using received take_next_empty [of s sidx] by (simp add: server_mailbox_def)
  next
    case (Cons a ms')
    then obtain s1 where "fetch_message sidx s = Some (a, s1)" "server_mailbox s1 ms'"
      using mbox.fetch_first received.IH by blast
    then show ?thesis using received Cons by (auto simp: fetch_message_def)
  qed
next
  case (not_received s ms sidx s')
  show ?case
  proof (cases ms)
    case Nil
    then show ?thesis using not_received take_next_empty [of s sidx] by (simp add: server_mailbox_def)
  next
    case (Cons a ms')
    then obtain s1 where "fetch_message sidx s = Some (a, s1)"
      using mbox.fetch_first not_received.IH by blast
    then show ?thesis using not_received by (auto simp: fetch_message_def)
  qed
next
  case (replied s ms i buf r s')
  then show ?case using take_waiting_sim by (auto simp: server_mailbox_def)
next
  case (responded s ms p t m ca r s')
  then show ?case using queue_response_sim by (auto simp: server_mailbox_def)
next
  case (discarded s ms p)
  have "wf_pid (fst (discard_content p m))" if "wf_pid (fst m)" for m
    using that by (cases m) (auto simp: wf_pid_def)
  then show ?case using discarded discard_sim by (auto simp: server_mailbox_def)
qed

section \<open>Properties\<close>

text \<open>
  C1: the queue delivers in the order of sending. After any history of sends, receives,
  replies, direct responses and discards on the 128 slots of a page, with the generation
  counters wrapping around, a receive returns the oldest message that was sent and not yet
  received, with its sender, and nothing when there is none.
\<close>

theorem queue_delivers_in_order:
  assumes "history s ms"
  shows "case ms of [] \<Rightarrow> take_next_message s sidx = (None, s)
    | (p, m) # _ \<Rightarrow> \<exists>env s'. take_next_message s sidx = (Some env, s')
        \<and> sender_pid (env_sender env) = Some p \<and> env_body env = m"
proof (cases ms)
  case Nil
  then show ?thesis using take_next_empty [of s sidx] history_mailbox [OF assms]
    by (simp add: server_mailbox_def)
next
  case (Cons a ms')
  obtain p m where a: "a = (p, m)" by (cases a)
  have rel: "mailbox_rel s ((p, m) # ms')" "wf_pid p"
    using history_mailbox [OF assms] by (auto simp: server_mailbox_def Cons a)
  then show ?thesis using take_next_sim [OF rel(1), of sidx] by (auto simp: Cons a)
qed

definition demo_backing :: memory_range where
  "demo_backing = \<lparr>mr_addr = 0x10000, mr_size = 4096\<rparr>"

lemma new_scalar_simps: "\<not> msg_has_memory (new_scalar i a b c d)" "wf_message (new_scalar i a b c d)"
  by (simp_all add: new_scalar_def)

definition demo_server :: server where
  "demo_server = the (snd (server_init None 5 (SID 1 2 3 4) demo_backing (0, 0)))"

lemma demo_history: "history demo_server []"
  by (rule history.created [of 5 "SID 1 2 3 4" demo_backing "(0, 0)"])
    (simp_all add: demo_server_def server_init_def range_is_empty_def demo_backing_def PAGE_SIZE_def Let_def)

lemma demo_room: "\<not> is_queue_full demo_server"
  by (simp add: is_queue_full_def demo_server_def server_init_def range_is_empty_def demo_backing_def
      QUEUED_MESSAGE_SIZE_def Let_def)

theorem queue_delivers_in_order_witness:
  "\<exists>i s env s'. queue_message demo_server 7 1 (new_scalar 1 2 3 4 5) None = (Done i, s)
    \<and> take_next_message s 9 = (Some env, s') \<and> sender_pid (env_sender env) = Some 7
    \<and> env_body env = new_scalar 1 2 3 4 5"
proof -
  have rel: "mailbox_rel demo_server []" using history_mailbox [OF demo_history] by (simp add: server_mailbox_def)
  obtain i s where run: "queue_message demo_server 7 1 (new_scalar 1 2 3 4 5) None = (Done i, s)"
    using queue_message_sim [OF rel, of "new_scalar 1 2 3 4 5" None 7 1] demo_room by (auto simp: new_scalar_def)
  have "history s ([] @ [(7, new_scalar 1 2 3 4 5)])"
    by (rule history.sent [OF demo_history _ _ run]) (simp_all add: wf_pid_def new_scalar_def)
  from queue_delivers_in_order [OF this, of 9] run show ?thesis by auto
qed

text \<open>
  C2: sending never panics (the assertion that the generation counters do not meet never
  fires), and its outcome is determined: \<open>ServerQueueFull\<close> exactly when every slot is taken,
  \<open>InvalidArguments\<close> exactly when a blocking memory message comes without the client's
  address, and otherwise the message takes an empty slot and is the last of the mailbox. A
  failed send leaves the mailbox and the slots as they were.
\<close>

theorem queue_message_outcome:
  assumes "history s ms" and "wf_message m"
  shows "if \<forall>i < length (queue s). queue s ! i \<noteq> Empty
      then queue_message s p t m oa = (Fail ServerQueueFull, s)
    else if msg_has_memory m \<and> is_blocking m \<and> oa = None
      then fst (queue_message s p t m oa) = Fail InvalidArguments
        \<and> queue (snd (queue_message s p t m oa)) = queue s \<and> mailbox_rel (snd (queue_message s p t m oa)) ms
    else \<exists>i s'. queue_message s p t m oa = (Done i, s') \<and> queue s ! i = Empty \<and> mailbox_rel s' (ms @ [(p, m)])"
proof -
  have rel: "mailbox_rel s ms" using history_mailbox [OF assms(1)] by (simp add: server_mailbox_def)
  have np: "fst (queue_message s p t m oa) \<noteq> Panic"
    using queue_message_no_panic [OF rel assms(2), of p t oa] by (simp add: no_panic_def)
  obtain r s' where run: "queue_message s p t m oa = (r, s')" by (cases "queue_message s p t m oa")
  show ?thesis
  proof (cases "is_queue_full s \<or> (msg_has_memory m \<and> is_blocking m \<and> oa = None)")
    case True
    then have "\<nexists>i. r = Done i" using queue_message_Done [OF rel _ assms(2)] run by blast
    then obtain e where e: "queue_message s p t m oa = (Fail e, s')" using np run by (cases r) auto
    show ?thesis
      using queue_message_fail [OF rel assms(2) e] is_queue_full_iff [OF mailbox_rel_wf [OF rel]] e True
      by (auto split: if_splits)
  next
    case False
    then show ?thesis
      using queue_message_sim [OF rel assms(2), of oa p t] is_queue_full_iff [OF mailbox_rel_wf [OF rel]] by auto
  qed
qed

theorem queue_message_outcome_witness:
  "\<exists>i s'. queue_message demo_server 7 1 (new_scalar 1 2 3 4 5) None = (Done i, s')
    \<and> mailbox_rel s' [(7, new_scalar 1 2 3 4 5)]"
proof -
  have rel: "mailbox_rel demo_server []" using history_mailbox [OF demo_history] by (simp add: server_mailbox_def)
  have ne: "\<not> (\<forall>i < length (queue demo_server). queue demo_server ! i \<noteq> Empty)"
    using is_queue_full_iff [OF mailbox_rel_wf [OF rel]] demo_room by simp
  show ?thesis
    using queue_message_outcome [OF demo_history, of "new_scalar 1 2 3 4 5" 7 1 None]
    unfolding if_not_P [OF ne] by (auto simp: new_scalar_simps)
qed

text \<open>
  C26: a reply goes back exactly once and to the thread that waits for it. When a reply is
  accepted, the slot held a message that had been delivered and not answered; the answer
  names the blocked thread of the slot; memory comes back only for the very range that was
  delivered; the slot is free afterwards, so that a second reply to it finds nothing; no
  other slot and no pending message is affected.
\<close>

theorem reply_exactly_once:
  assumes "history s ms" and "take_waiting_message s i buf = (Done w, s')" and "w \<noteq> NoWaitingMessage"
  shows "i < length (queue s) \<and> generation (queue s ! i) = None
    \<and> (case w of BorrowedMemory p t a \<Rightarrow> blocked_thread (queue s ! i) = Some (p, t)
          \<and> (\<exists>b. queue s ! i = WaitingReturnMemory p t b a
               \<and> (\<forall>r. buf = Some r \<longrightarrow> mr_addr b = mr_addr r \<and> mr_size b = mr_size r))
        | MovedMemory p t a sz \<Rightarrow> blocked_thread (queue s ! i) = Some (p, t)
        | WaitingScalar p t \<Rightarrow> blocked_thread (queue s ! i) = Some (p, t)
        | _ \<Rightarrow> blocked_thread (queue s ! i) = None)
    \<and> queue s' = (queue s)[i := Empty]
    \<and> fst (take_waiting_message s' i buf') = Done NoWaitingMessage
    \<and> mailbox_rel s' ms"
proof -
  have rel: "mailbox_rel s ms" using history_mailbox [OF assms(1)] by (simp add: server_mailbox_def)
  have s': "s' = s\<lparr>queue := (queue s)[i := Empty], empty_count := empty_count s + 1,
      queue_tail := next_slot (length (queue s)) i\<rparr>" and i: "i < length (queue s)"
    and g: "generation (queue s ! i) = None" and w: "reply_of (queue s ! i) buf = Inr w"
    using take_waiting_cases [of s i buf] assms(2,3) by auto
  have check: "reply_check (queue s ! i) buf"
    using assms(2) i by (auto simp: take_waiting_message_def split: if_splits)
  have "case w of BorrowedMemory p t a \<Rightarrow> blocked_thread (queue s ! i) = Some (p, t)
          \<and> (\<exists>b. queue s ! i = WaitingReturnMemory p t b a
               \<and> (\<forall>r. buf = Some r \<longrightarrow> mr_addr b = mr_addr r \<and> mr_size b = mr_size r))
        | MovedMemory p t a sz \<Rightarrow> blocked_thread (queue s ! i) = Some (p, t)
        | WaitingScalar p t \<Rightarrow> blocked_thread (queue s ! i) = Some (p, t)
        | _ \<Rightarrow> blocked_thread (queue s ! i) = None"
    using w check assms(3) by (cases "queue s ! i"; cases buf) auto
  moreover have "fst (take_waiting_message s' i buf') = Done NoWaitingMessage"
    using i by (simp add: take_waiting_message_def s')
  ultimately show ?thesis
    using i g take_waiting_sim [OF rel assms(2)] by (simp add: s')
qed

theorem reply_exactly_once_witness:
  "\<exists>i s s'. queue_response demo_server 7 1 (BlockingScalar \<lparr>sm_id = 1, sm_arg1 = 2, sm_arg2 = 3, sm_arg3 = 4, sm_arg4 = 5\<rparr>) None = (Done i, s)
    \<and> take_waiting_message s i None = (Done (WaitingScalar 7 1), s')
    \<and> fst (take_waiting_message s' i None) = Done NoWaitingMessage"
proof -
  let ?m = "BlockingScalar \<lparr>sm_id = 1, sm_arg1 = 2, sm_arg2 = 3, sm_arg3 = 4, sm_arg4 = 5\<rparr>"
  have rel: "mailbox_rel demo_server []" using history_mailbox [OF demo_history] by (simp add: server_mailbox_def)
  obtain i where i: "find_empty_slot demo_server = (Done i, demo_server\<lparr>queue_head := next_slot (length (queue demo_server)) i\<rparr>)"
    "i < length (queue demo_server)"
    using find_empty_slot_cases [OF mailbox_rel_wf [OF rel]] demo_room by (auto simp: is_queue_full_def)
  then obtain s where run: "queue_response demo_server 7 1 ?m None = (Done i, s)"
    and qs: "queue s ! i = WaitingReturnScalar 7 1" "i < length (queue s)"
    by (auto simp: queue_response_def tid_as_u8_def)
  obtain s' where s': "take_waiting_message s i None = (Done (WaitingScalar 7 1), s')"
    using qs by (auto simp: take_waiting_message_def not_le)
  from reply_exactly_once [OF history.responded [OF demo_history run] s', of None] run s' show ?thesis by auto
qed

text \<open>
  C29: when a process terminates, no slot of any server keeps a thread of it blocked any
  more, every other blocked thread stays blocked on the same slot, and the pending messages
  keep their order and contents; those of the process that expect a reply are delivered
  under the PID 255.
\<close>

theorem discard_forgets_process:
  assumes "history s ms"
  shows "mailbox_rel (discard_messages_for_pid s p) (map (discard_content p) ms)
    \<and> (\<forall>i < length (queue s). blocked_thread (queue (discard_messages_for_pid s p) ! i) =
        (case blocked_thread (queue s ! i) of
           Some (p', t) \<Rightarrow> if p' = p then None else Some (p', t) | None \<Rightarrow> None))"
  using discard_sim history_mailbox [OF assms]
  by (auto simp: server_mailbox_def discard_messages_for_pid_def discard_slot_facts)

theorem discard_forgets_process_witness:
  "mailbox_rel (discard_messages_for_pid demo_server 7) (map (discard_content 7) [])"
  using discard_forgets_process [OF demo_history, of 7] by simp

text \<open>
  Delivery and blocking. Taking the next message replaces its slot by one that blocks
  exactly the thread that sent it, and frees the slot at once iff the message does not block
  its sender.
\<close>

theorem delivery_keeps_sender_blocked:
  assumes "history s ((p, m) # ms)"
  shows "\<exists>i r env s'. take_next_message s sidx = (Some env, s') \<and> i < length (queue s)
    \<and> env_sender env = sender_id_to_usize \<lparr>sid_sidx = sidx, sid_idx = of_nat i, sid_pid = Some p\<rparr>
    \<and> queue s' = (queue s)[i := r]
    \<and> blocked_thread r = blocked_thread (queue s ! i) \<and> (r = Empty \<longleftrightarrow> \<not> is_blocking m)"
  using take_next_sim [of s p m ms sidx] history_mailbox [OF assms]
  by (fastforce simp: server_mailbox_def envelope_from_def)

theorem delivery_keeps_sender_blocked_witness:
  "\<exists>s env s'. history s [(7, new_scalar 1 2 3 4 5)] \<and> take_next_message s 9 = (Some env, s')"
proof -
  have rel: "mailbox_rel demo_server []" using history_mailbox [OF demo_history] by (simp add: server_mailbox_def)
  obtain i s where run: "queue_message demo_server 7 1 (new_scalar 1 2 3 4 5) None = (Done i, s)"
    using queue_message_sim [OF rel, of "new_scalar 1 2 3 4 5" None 7 1] demo_room by (auto simp: new_scalar_simps)
  have h: "history s ([] @ [(7, new_scalar 1 2 3 4 5)])"
    by (rule history.sent [OF demo_history _ _ run]) (simp_all add: wf_pid_def new_scalar_simps)
  have "history s [(7, new_scalar 1 2 3 4 5)]" using h by simp
  from delivery_keeps_sender_blocked [OF this, of 9] this show ?thesis by blast
qed

text \<open>
  \<open>take_available_thread\<close> never panics: it returns the waiting thread with the least
  number and removes exactly it from the mask, and \<open>None\<close> iff no thread waits.
\<close>

theorem take_available_thread_least:
  "if waiting_threads s = {} then take_available_thread s = (Done None, s)
   else fst (take_available_thread s) = Done (Some (LEAST t. t \<in> waiting_threads s))
     \<and> waiting_threads (snd (take_available_thread s)) = waiting_threads s - {LEAST t. t \<in> waiting_threads s}"
proof (cases "waiting_threads s = {}")
  case True
  then show ?thesis using take_available_thread_sim [of s] by auto
next
  case False
  then obtain t s' where t: "t \<in> waiting_threads s" "\<forall>u \<in> waiting_threads s. t \<le> u"
    "take_available_thread s = (Done (Some t), s')" "waiting_threads s' = waiting_threads s - {t}"
    using take_available_thread_sim [of s] by auto
  have "(LEAST t. t \<in> waiting_threads s) = t" by (rule Least_equality) (use t in auto)
  then show ?thesis using t False by simp
qed

text \<open>
  A sender id survives its packing into one word: the server index, the slot and the PID
  come back, for the indices the kernel's tables allow.
\<close>

theorem sender_id_roundtrip:
  assumes "wf_sender_id v"
  shows "sender_id_from_usize (sender_id_to_usize v) = v"
proof -
  have p: "pid_new (take_bit 8 (case sid_pid v of None \<Rightarrow> 0 | Some p \<Rightarrow> of_nat p)) = sid_pid v"
  proof (cases "sid_pid v")
    case None
    then show ?thesis by simp
  next
    case (Some p)
    then have "wf_pid p" using assms by (simp add: wf_sender_id_def)
    then show ?thesis using Some take_bit_small [of "of_nat p" 8] of_nat_pid_small by simp
  qed
  have "take_bit 8 (sid_sidx v) = sid_sidx v" "take_bit 16 (sid_idx v) = sid_idx v"
    using assms by (simp_all add: wf_sender_id_def take_bit_small)
  then show ?thesis using p by (simp add: sender_id_from_usize_def sender_id_fields)
qed

theorem sender_id_roundtrip_witness:
  "sender_id_from_usize (sender_id_to_usize \<lparr>sid_sidx = 3, sid_idx = 100, sid_pid = Some 7\<rparr>)
     = \<lparr>sid_sidx = 3, sid_idx = 100, sid_pid = Some 7\<rparr>"
  by (rule sender_id_roundtrip) (simp add: wf_sender_id_def wf_pid_def)

end
