(* ===== verification/Connection_Table.thy ===== *)
theory Connection_Table
  imports Message_Permissions
begin

text \<open>
  The connection table of a process (\<open>ConnectionSlot\<close>, \<open>pack_cid\<close>, \<open>unpack_cid\<close> and the
  connection operations of \<open>xous/kernel/src/process.rs\<close>, with the slot update of
  \<open>disconnect_from_server\<close> in \<open>services.rs\<close>). A connection id packs the slot's index with a
  generation, so that an id that outlives its connection is dead for ever; this is the main
  theorem, over every sequence of the table's operations.
\<close>

section \<open>Connection ids\<close>

definition MAX_CONNECTIONS :: nat where "MAX_CONNECTIONS = 64"
definition CID_INDEX_BITS :: nat where "CID_INDEX_BITS = 8"
definition CID_INDEX_MASK :: cid where "CID_INDEX_MASK = 0xff"
definition CID_INDEX_BIAS :: cid where "CID_INDEX_BIAS = 2"
definition MAX_GENERATION :: u32 where "MAX_GENERATION = drop_bit CID_INDEX_BITS (- 1) - 1"

lemmas cid_consts = CID_INDEX_BITS_def CID_INDEX_MASK_def CID_INDEX_BIAS_def

definition pack_cid :: "nat \<Rightarrow> u32 \<Rightarrow> cid" where
  "pack_cid cidx generation = push_bit CID_INDEX_BITS generation OR (of_nat cidx + CID_INDEX_BIAS)"

definition unpack_cid :: "cid \<Rightarrow> error + nat \<times> u32" where
  "unpack_cid c =
     (let index = c AND CID_INDEX_MASK in
      if index < CID_INDEX_BIAS then Inl ServerNotFound
      else Inr (unat (index - CID_INDEX_BIAS), drop_bit CID_INDEX_BITS c))"

section \<open>Slots\<close>

datatype connection_slot =
    FreeSlot u32
  | Tombstone usize u32
  | Connected nat usize u32 message_permissions
  | Condemned

definition free_or_condemn :: "u32 \<Rightarrow> connection_slot" where
  "free_or_condemn g = (if g \<ge> MAX_GENERATION then Condemned else FreeSlot g)"

type_synonym connection_map = "connection_slot list"

definition initial_connection_map :: connection_map where
  "initial_connection_map = replicate MAX_CONNECTIONS (FreeSlot 0)"

definition sidx_as_u8 :: "nat \<Rightarrow> nat" where
  "sidx_as_u8 s = s mod 256"

fun connected_to :: "nat \<Rightarrow> connection_slot \<Rightarrow> bool" where
  "connected_to s (Connected s' r g p) = (s' = sidx_as_u8 s)"
| "connected_to s _ = False"

fun is_free_slot :: "connection_slot \<Rightarrow> bool" where
  "is_free_slot (FreeSlot g) = True"
| "is_free_slot _ = False"

section \<open>Operations\<close>

definition add_connection ::
    "connection_map \<Rightarrow> nat \<Rightarrow> message_permissions \<Rightarrow> (cid \<times> bool) res \<times> connection_map" where
  "add_connection m s perms =
     (case find_index (connected_to s) m of
        Some i \<Rightarrow>
          (case m ! i of
             Connected s' r g p \<Rightarrow>
               (case checked_add r 1 of
                  None \<Rightarrow> (Fail KernelTableFull, m)
                | Some r' \<Rightarrow> (Done (pack_cid i g, False), m[i := Connected s' r' g p]))
           | _ \<Rightarrow> (Panic, m))
      | None \<Rightarrow>
          (case find_index is_free_slot m of
             None \<Rightarrow> (Fail KernelTableFull, m)
           | Some i \<Rightarrow>
               (case m ! i of
                  FreeSlot g \<Rightarrow>
                    (Done (pack_cid i (g + 1), True), m[i := Connected (sidx_as_u8 s) 1 (g + 1) perms])
                | _ \<Rightarrow> (Panic, m))))"

text \<open>The generation of a slot that a CID can name.\<close>

fun used_generation :: "connection_slot \<Rightarrow> u32 option" where
  "used_generation (Connected s r g p) = Some g"
| "used_generation (Tombstone r g) = Some g"
| "used_generation _ = None"

text \<open>\<open>connection\<close> and \<open>connection_mut\<close>: the index of the slot that the CID names.\<close>

definition connection :: "connection_map \<Rightarrow> cid \<Rightarrow> error + nat" where
  "connection m c =
     (case unpack_cid c of
        Inl e \<Rightarrow> Inl e
      | Inr (i, g) \<Rightarrow>
          if i < length m \<and> used_generation (m ! i) = Some g then Inr i else Inl ServerNotFound)"

definition tombstone_connection_by_sidx :: "connection_map \<Rightarrow> nat \<Rightarrow> cid option \<times> connection_map" where
  "tombstone_connection_by_sidx m dead =
     (case find_index (connected_to dead) m of
        None \<Rightarrow> (None, m)
      | Some i \<Rightarrow>
          (case m ! i of
             Connected s r g p \<Rightarrow> (Some (pack_cid i g), m[i := Tombstone r g])
           | _ \<Rightarrow> (None, m)))"

text \<open>
  The part of \<open>disconnect_from_server\<close> that updates the slot: one reference is dropped, and
  the server to notify is returned when it was the last one of a live connection.
\<close>

definition release_connection :: "connection_map \<Rightarrow> cid \<Rightarrow> nat option res \<times> connection_map" where
  "release_connection m c =
     (case connection m c of
        Inl e \<Rightarrow> (Fail e, m)
      | Inr i \<Rightarrow>
          (case m ! i of
             Tombstone r g \<Rightarrow>
               if r > 1 then (Done None, m[i := Tombstone (r - 1) g])
               else (Done None, m[i := free_or_condemn g])
           | Connected s r g p \<Rightarrow>
               if r > 1 then (Done None, m[i := Connected s (r - 1) g p])
               else (Done (Some s), m[i := free_or_condemn g])
           | _ \<Rightarrow> (Fail ServerNotFound, m)))"

text \<open>Granting message ids on a live connection (\<open>connection_mut\<close> and \<open>permissions.add\<close>).\<close>

definition add_connection_permission ::
    "connection_map \<Rightarrow> cid \<Rightarrow> msg_range \<Rightarrow> unit res \<times> connection_map" where
  "add_connection_permission m c r =
     (case connection m c of
        Inl e \<Rightarrow> (Fail e, m)
      | Inr i \<Rightarrow>
          (case m ! i of
             Connected s n g p \<Rightarrow> (case permissions_add p r of (res, p') \<Rightarrow> (res, m[i := Connected s n g p']))
           | _ \<Rightarrow> (Fail ServerNotFound, m)))"

definition number_of_connections :: "connection_map \<Rightarrow> nat" where
  "number_of_connections m = count_if (\<lambda>c. used_generation c \<noteq> None) m"

fun slot_sidx :: "connection_slot \<Rightarrow> nat option" where
  "slot_sidx (Connected s r g p) = Some s"
| "slot_sidx _ = None"

definition connected_sidxes :: "connection_map \<Rightarrow> nat list" where
  "connected_sidxes m = List.map_filter slot_sidx m"

section \<open>Packing\<close>

lemma MAX_GENERATION_val: "MAX_GENERATION = 0xFFFFFE"
  by (simp add: MAX_GENERATION_def CID_INDEX_BITS_def drop_bit_eq_div)

lemma pack_fields:
  fixes g x :: u32
  assumes "x < 256" and "g \<le> 0xFFFFFF"
  shows "(push_bit 8 g OR x) AND mask 8 = x" and "drop_bit 8 (push_bit 8 g OR x) = g"
proof -
  have x: "take_bit 8 x = x" using assms by (simp add: take_bit_eq_mask less_mask_eq)
  have "g < 0x1000000" using assms(2) by (simp add: word_less_nat_alt word_le_nat_alt)
  then have g: "take_bit 24 g = g" by (simp add: take_bit_eq_mask less_mask_eq)
  have xb: "n < 8" if "bit x n" for n
    using that bit_take_bit_iff [of 8 x n] by (simp add: x)
  have gb: "n < 24" if "bit g n" for n
    using that bit_take_bit_iff [of 24 g n] by (simp add: g)
  show "(push_bit 8 g OR x) AND mask 8 = x"
    by (rule bit_word_eqI) (use xb in \<open>auto simp: bit_simps\<close>)
  show "drop_bit 8 (push_bit 8 g OR x) = g"
    by (rule bit_word_eqI) (use xb gb in \<open>force simp: bit_simps\<close>)
qed

lemma unpack_pack:
  assumes "cidx < 254" and "g \<le> 0xFFFFFF"
  shows "unpack_cid (pack_cid cidx g) = Inr (cidx, g)"
proof -
  have c: "unat (of_nat cidx :: u32) = cidx" using assms by (simp add: unsigned_of_nat take_bit_nat_eq_self)
  have u: "unat (of_nat cidx + 2 :: u32) = cidx + 2"
    using assms c by (simp add: unat_word_ariths)
  have x: "of_nat cidx + 2 < (256 :: u32)" "\<not> of_nat cidx + 2 < (2 :: u32)"
    using assms u by (simp_all add: word_less_nat_alt)
  have m: "(0xff :: u32) = mask 8" by (simp add: mask_eq_exp_minus_1)
  show ?thesis
    unfolding unpack_cid_def pack_cid_def cid_consts m pack_fields [OF x(1) assms(2)] Let_def
    using x c by simp
qed

section \<open>The invariant\<close>

fun wf_slot :: "connection_slot \<Rightarrow> bool" where
  "wf_slot (FreeSlot g) \<longleftrightarrow> g < MAX_GENERATION"
| "wf_slot (Tombstone r g) \<longleftrightarrow> r \<noteq> 0 \<and> g \<noteq> 0 \<and> g \<le> MAX_GENERATION"
| "wf_slot (Connected s r g p) \<longleftrightarrow> s < 256 \<and> r \<noteq> 0 \<and> g \<noteq> 0 \<and> g \<le> MAX_GENERATION \<and> wf_permissions p"
| "wf_slot Condemned \<longleftrightarrow> True"

text \<open>At most one slot is connected to a server.\<close>

definition wf_connections :: "connection_map \<Rightarrow> bool" where
  "wf_connections m \<longleftrightarrow> length m = MAX_CONNECTIONS \<and> (\<forall>i < length m. wf_slot (m ! i))
     \<and> (\<forall>i < length m. \<forall>j < length m. slot_sidx (m ! i) \<noteq> None \<and> slot_sidx (m ! i) = slot_sidx (m ! j) \<longrightarrow> i = j)"

lemma connected_to_iff: "connected_to s c \<longleftrightarrow> slot_sidx c = Some (sidx_as_u8 s)"
  by (cases c) auto

lemma slot_sidx_Some: "slot_sidx c = Some s \<longleftrightarrow> (\<exists>r g p. c = Connected s r g p)"
  by (cases c) auto

lemma is_free_slot_iff: "is_free_slot c \<longleftrightarrow> (\<exists>g. c = FreeSlot g)"
  by (cases c) auto

lemma wf_connections_length: "wf_connections m \<Longrightarrow> length m = 64"
  by (simp add: wf_connections_def MAX_CONNECTIONS_def)

lemma wf_connections_slot: "wf_connections m \<Longrightarrow> i < length m \<Longrightarrow> wf_slot (m ! i)"
  by (simp add: wf_connections_def)

lemma wf_connections_unique:
  "wf_connections m \<Longrightarrow> i < length m \<Longrightarrow> j < length m \<Longrightarrow> slot_sidx (m ! i) = Some s \<Longrightarrow>
   slot_sidx (m ! j) = Some s \<Longrightarrow> i = j"
  unfolding wf_connections_def by (metis option.distinct(1))

lemma wf_initial_connections: "wf_connections initial_connection_map"
  by (simp add: wf_connections_def initial_connection_map_def MAX_CONNECTIONS_def MAX_GENERATION_val)

text \<open>Replacing a slot keeps the invariant when it is not newly connected to a server that
  another slot is connected to.\<close>

lemma wf_connections_update:
  assumes "wf_connections m" and "i < length m" and "wf_slot c"
    and "\<And>s j. slot_sidx c = Some s \<Longrightarrow> j < length m \<Longrightarrow> j \<noteq> i \<Longrightarrow> slot_sidx (m ! j) \<noteq> Some s"
  shows "wf_connections (m[i := c])"
proof -
  have unique: "a = b" if "a < length m" "b < length m" "slot_sidx ((m[i := c]) ! a) = Some s"
      "slot_sidx ((m[i := c]) ! b) = Some s" for a b s
  proof (cases "a = i \<or> b = i")
    case True
    then show ?thesis using that assms(2,4) by (cases "a = i"; cases "b = i") auto
  next
    case False
    then show ?thesis using that wf_connections_unique [OF assms(1), of a b s] by simp
  qed
  have "wf_slot ((m[i := c]) ! a)" if "a < length m" for a
    using that assms(1,3) wf_connections_slot [OF assms(1) that] by (cases "a = i") auto
  moreover have "\<forall>a < length m. \<forall>b < length m. slot_sidx ((m[i := c]) ! a) \<noteq> None
      \<and> slot_sidx ((m[i := c]) ! a) = slot_sidx ((m[i := c]) ! b) \<longrightarrow> a = b"
    using unique by (metis not_None_eq)
  ultimately show ?thesis using assms(1) by (simp add: wf_connections_def)
qed

lemma wf_connections_unconnect:
  "wf_connections m \<Longrightarrow> i < length m \<Longrightarrow> wf_slot c \<Longrightarrow> slot_sidx c = None \<Longrightarrow> wf_connections (m[i := c])"
  by (rule wf_connections_update) auto

lemma wf_connections_same:
  assumes "wf_connections m" and "i < length m" and "wf_slot c" and "slot_sidx c = slot_sidx (m ! i)"
  shows "wf_connections (m[i := c])"
  using assms(1,2,3)
proof (rule wf_connections_update)
  fix s j assume "slot_sidx c = Some s" "j < length m" "j \<noteq> i"
  then show "slot_sidx (m ! j) \<noteq> Some s" using wf_connections_unique [OF assms(1,2), of j s] assms(4) by auto
qed

lemma wf_free_or_condemn: "g \<le> MAX_GENERATION \<Longrightarrow> wf_slot (free_or_condemn g) \<and> slot_sidx (free_or_condemn g) = None"
  by (simp add: free_or_condemn_def less_le)

lemma next_generation: "g < MAX_GENERATION \<Longrightarrow> g + 1 \<noteq> 0 \<and> g + 1 \<le> MAX_GENERATION \<and> unat (g + 1) = unat g + 1"
proof -
  assume "g < MAX_GENERATION"
  then have b: "unat g < 0xFFFFFE" by (simp add: MAX_GENERATION_val word_less_nat_alt)
  then have u: "unat (g + 1) = unat g + 1" by (simp add: unat_word_ariths)
  then have "g + 1 \<noteq> 0" by (metis Suc_eq_plus1 nat.distinct(1) unat_0)
  then show ?thesis using u b by (simp add: MAX_GENERATION_val word_le_nat_alt)
qed

lemma checked_add_unat: "checked_add r x = Some r' \<Longrightarrow> unat r' = unat r + unat x"
  by (auto simp: checked_add_def unat_word_ariths split: if_splits)

text \<open>The three outcomes of \<open>add_connection\<close>.\<close>

lemma add_connection_cases:
  assumes "wf_connections m"
  obtains
    (again) i r r' g p where "i < length m" "m ! i = Connected (sidx_as_u8 s) r g p" "checked_add r 1 = Some r'"
      "add_connection m s perms = (Done (pack_cid i g, False), m[i := Connected (sidx_as_u8 s) r' g p])"
  | (fresh) i g where "i < length m" "m ! i = FreeSlot g" "\<forall>j < length m. slot_sidx (m ! j) \<noteq> Some (sidx_as_u8 s)"
      "add_connection m s perms
         = (Done (pack_cid i (g + 1), True), m[i := Connected (sidx_as_u8 s) 1 (g + 1) perms])"
  | (full) "add_connection m s perms = (Fail KernelTableFull, m)"
proof (cases "find_index (connected_to s) m")
  case None
  then have no: "\<forall>j < length m. slot_sidx (m ! j) \<noteq> Some (sidx_as_u8 s)"
    by (auto simp: find_index_None connected_to_iff all_set_conv_all_nth)
  show thesis
  proof (cases "find_index is_free_slot m")
    case None': None
    then show thesis using None full by (simp add: add_connection_def)
  next
    case (Some i)
    then obtain g where "m ! i = FreeSlot g" "i < length m"
      using find_index_Some [OF Some] by (auto simp: is_free_slot_iff)
    then show thesis using None Some no fresh by (simp add: add_connection_def)
  qed
next
  case (Some i)
  then obtain r g p where "m ! i = Connected (sidx_as_u8 s) r g p" "i < length m"
    using find_index_Some [OF Some] by (auto simp: connected_to_iff slot_sidx_Some)
  then show thesis using Some again full
    by (cases "checked_add r 1") (simp_all add: add_connection_def)
qed

lemma tombstone_cases:
  assumes "wf_connections m"
  obtains
    (found) i r g p where "i < length m" "m ! i = Connected (sidx_as_u8 s) r g p"
      "tombstone_connection_by_sidx m s = (Some (pack_cid i g), m[i := Tombstone r g])"
  | (none) "\<forall>j < length m. slot_sidx (m ! j) \<noteq> Some (sidx_as_u8 s)"
      "tombstone_connection_by_sidx m s = (None, m)"
proof (cases "find_index (connected_to s) m")
  case None
  then have "\<forall>j < length m. slot_sidx (m ! j) \<noteq> Some (sidx_as_u8 s)"
    by (auto simp: find_index_None connected_to_iff all_set_conv_all_nth)
  then show thesis using None none by (simp add: tombstone_connection_by_sidx_def)
next
  case (Some i)
  then obtain r g p where "m ! i = Connected (sidx_as_u8 s) r g p" "i < length m"
    using find_index_Some [OF Some] by (auto simp: connected_to_iff slot_sidx_Some)
  then show thesis using Some found by (simp add: tombstone_connection_by_sidx_def)
qed

lemma connection_Inr:
  "connection m c = Inr i \<Longrightarrow> i < length m \<and> (\<exists>g. used_generation (m ! i) = Some g \<and> unpack_cid c = Inr (i, g))"
  by (auto simp: connection_def split: sum.splits if_splits)

lemma connection_Inl: "connection m c = Inl e \<Longrightarrow> e = ServerNotFound"
  by (auto simp: connection_def unpack_cid_def Let_def split: sum.splits if_splits)

section \<open>Steps of the table\<close>

text \<open>Every operation the kernel performs on a connection table.\<close>

inductive conn_step :: "connection_map \<Rightarrow> connection_map \<Rightarrow> bool" where
  connect: "wf_permissions perms \<Longrightarrow> add_connection m s perms = (r, m') \<Longrightarrow> conn_step m m'"
| server_gone: "tombstone_connection_by_sidx m s = (r, m') \<Longrightarrow> conn_step m m'"
| disconnect: "release_connection m c = (r, m') \<Longrightarrow> conn_step m m'"
| grant: "add_connection_permission m c rg = (r, m') \<Longrightarrow> conn_step m m'"

text \<open>What a step does to the slots: nothing, or one of seven updates of one slot.\<close>

inductive slot_step :: "connection_slot \<Rightarrow> connection_slot \<Rightarrow> bool" where
  "slot_step (FreeSlot g) (Connected s 1 (g + 1) p)"
| "r' \<noteq> 0 \<Longrightarrow> slot_step (Connected s r g p) (Connected s r' g p')"
| "slot_step (Connected s r g p) (Tombstone r g)"
| "slot_step (Connected s r g p) (free_or_condemn g)"
| "r > 1 \<Longrightarrow> slot_step (Tombstone r g) (Tombstone (r - 1) g)"
| "slot_step (Tombstone r g) (free_or_condemn g)"

inductive_cases slot_step_freeE: "slot_step (FreeSlot g) c"
inductive_cases slot_step_connectedE: "slot_step (Connected s r g p) c"
inductive_cases slot_step_tombstoneE: "slot_step (Tombstone r g) c"
inductive_cases slot_step_condemnedE: "slot_step Condemned c"

lemmas slot_step_elims = slot_step_freeE slot_step_connectedE slot_step_tombstoneE slot_step_condemnedE

lemma word_minus_one_nz: "(r :: usize) > 1 \<Longrightarrow> r - 1 \<noteq> 0"
  by (metis less_irrefl right_minus_eq)

lemma permissions_add_wf: "permissions_add p rg = (r, p') \<Longrightarrow> wf_permissions p \<Longrightarrow> wf_permissions p'"
  using permissions_add_cases [of p rg r p'] permissions_add_Done(1) [of p rg p']
  by (auto simp: wf_permissions_def)

lemma release_connection_cases:
  assumes "wf_connections m"
  obtains
    (shared) i r g where "connection m c = Inr i" "i < length m" "m ! i = Tombstone r g" "r > 1"
      "release_connection m c = (Done None, m[i := Tombstone (r - 1) g])"
  | (last_tombstone) i r g where "connection m c = Inr i" "i < length m" "m ! i = Tombstone r g" "r = 1"
      "release_connection m c = (Done None, m[i := free_or_condemn g])"
  | (shared_live) i s r g p where "connection m c = Inr i" "i < length m" "m ! i = Connected s r g p" "r > 1"
      "release_connection m c = (Done None, m[i := Connected s (r - 1) g p])"
  | (last_live) i s r g p where "connection m c = Inr i" "i < length m" "m ! i = Connected s r g p" "r = 1"
      "release_connection m c = (Done (Some s), m[i := free_or_condemn g])"
  | (stale) "connection m c = Inl ServerNotFound" "release_connection m c = (Fail ServerNotFound, m)"
proof (cases "connection m c")
  case (Inl e)
  then show thesis using stale connection_Inl [OF Inl] by (simp add: release_connection_def)
next
  case (Inr i)
  then obtain g where i: "i < length m" "used_generation (m ! i) = Some g" using connection_Inr [OF Inr] by auto
  have one: "r = 1" if "r \<noteq> 0" "\<not> r > 1" for r :: usize
    using that by (metis linorder_neqE word_less_1 )
  show thesis
  proof (cases "m ! i")
    case (Tombstone r g')
    then have "r \<noteq> 0" using wf_connections_slot [OF assms i(1)] by simp
    then show thesis using Inr Tombstone shared last_tombstone i one [of r]
      by (cases "r > 1") (simp_all add: release_connection_def)
  next
    case (Connected s r g' p)
    then have "r \<noteq> 0" using wf_connections_slot [OF assms i(1)] by simp
    then show thesis using Inr Connected shared_live last_live i one [of r]
      by (cases "r > 1") (simp_all add: release_connection_def)
  qed (use i in auto)
qed

lemma add_permission_cases:
  obtains (changed) i s n g p r' p' where "connection m c = Inr i" "i < length m" "m ! i = Connected s n g p"
      "permissions_add p rg = (r', p')" "add_connection_permission m c rg = (r', m[i := Connected s n g p'])"
  | (same) "add_connection_permission m c rg = (Fail ServerNotFound, m)"
proof (cases "connection m c")
  case (Inl e)
  then show thesis using same connection_Inl [OF Inl] by (simp add: add_connection_permission_def)
next
  case (Inr i)
  then have i: "i < length m" using connection_Inr [OF Inr] by simp
  show thesis
  proof (cases "m ! i")
    case (Connected s n g p)
    obtain r' p' where "permissions_add p rg = (r', p')" by (cases "permissions_add p rg")
    then show thesis using changed [OF Inr i Connected] Inr Connected
      by (simp add: add_connection_permission_def)
  qed (use Inr same in \<open>simp_all add: add_connection_permission_def\<close>)
qed

lemma one_slot_step:
  "i < length m \<Longrightarrow> slot_step (m ! i) c \<Longrightarrow> m' = m[i := c] \<Longrightarrow>
   m' = m \<or> (\<exists>i c. i < length m \<and> m' = m[i := c] \<and> slot_step (m ! i) c)"
  by blast

lemma conn_step_slot:
  assumes "conn_step m m'" and "wf_connections m"
  shows "m' = m \<or> (\<exists>i c. i < length m \<and> m' = m[i := c] \<and> slot_step (m ! i) c)"
  using assms(1)
proof cases
  case (connect perms s r)
  show ?thesis
  proof (rule add_connection_cases [OF assms(2), of s perms])
    fix i r0 r' g p
    assume a: "i < length m" "m ! i = Connected (sidx_as_u8 s) r0 g p" "checked_add r0 1 = Some r'"
      "add_connection m s perms = (Done (pack_cid i g, False), m[i := Connected (sidx_as_u8 s) r' g p])"
    have "r' \<noteq> 0" using checked_add_unat [OF a(3)] by auto
    then have "slot_step (m ! i) (Connected (sidx_as_u8 s) r' g p)" unfolding a(2) by (rule slot_step.intros)
    then show ?thesis by (rule one_slot_step [OF a(1)]) (use a(4) connect in simp)
  next
    fix i g
    assume a: "i < length m" "m ! i = FreeSlot g"
      "add_connection m s perms = (Done (pack_cid i (g + 1), True), m[i := Connected (sidx_as_u8 s) 1 (g + 1) perms])"
    have "slot_step (m ! i) (Connected (sidx_as_u8 s) 1 (g + 1) perms)" unfolding a(2) by (rule slot_step.intros)
    then show ?thesis by (rule one_slot_step [OF a(1)]) (use a(3) connect in simp)
  qed (use connect in auto)
next
  case (server_gone s r)
  show ?thesis
  proof (rule tombstone_cases [OF assms(2), of s])
    fix i r0 g p assume a: "i < length m" "m ! i = Connected (sidx_as_u8 s) r0 g p"
      "tombstone_connection_by_sidx m s = (Some (pack_cid i g), m[i := Tombstone r0 g])"
    have "slot_step (m ! i) (Tombstone r0 g)" unfolding a(2) by (rule slot_step.intros)
    then show ?thesis by (rule one_slot_step [OF a(1)]) (use a(3) server_gone in simp)
  qed (use server_gone in auto)
next
  case (disconnect c r)
  show ?thesis
  proof (rule release_connection_cases [OF assms(2), of c])
    fix i r0 g assume a: "i < length m" "m ! i = Tombstone r0 g" "r0 > 1"
      "release_connection m c = (Done None, m[i := Tombstone (r0 - 1) g])"
    have "slot_step (m ! i) (Tombstone (r0 - 1) g)" unfolding a(2) by (rule slot_step.intros) (rule a(3))
    then show ?thesis by (rule one_slot_step [OF a(1)]) (use a(4) disconnect in simp)
  next
    fix i r0 g assume a: "i < length m" "m ! i = Tombstone r0 g"
      "release_connection m c = (Done None, m[i := free_or_condemn g])"
    have "slot_step (m ! i) (free_or_condemn g)" unfolding a(2) by (rule slot_step.intros)
    then show ?thesis by (rule one_slot_step [OF a(1)]) (use a(3) disconnect in simp)
  next
    fix i s r0 g p assume a: "i < length m" "m ! i = Connected s r0 g p" "r0 > 1"
      "release_connection m c = (Done None, m[i := Connected s (r0 - 1) g p])"
    have "slot_step (m ! i) (Connected s (r0 - 1) g p)"
      unfolding a(2) by (rule slot_step.intros) (rule word_minus_one_nz [OF a(3)])
    then show ?thesis by (rule one_slot_step [OF a(1)]) (use a(4) disconnect in simp)
  next
    fix i s r0 g p assume a: "i < length m" "m ! i = Connected s r0 g p"
      "release_connection m c = (Done (Some s), m[i := free_or_condemn g])"
    have "slot_step (m ! i) (free_or_condemn g)" unfolding a(2) by (rule slot_step.intros)
    then show ?thesis by (rule one_slot_step [OF a(1)]) (use a(3) disconnect in simp)
  qed (use disconnect in auto)
next
  case (grant c rg r)
  show ?thesis
  proof (rule add_permission_cases [of m c rg])
    fix i s n g p r' p' assume a: "i < length m" "m ! i = Connected s n g p"
      "add_connection_permission m c rg = (r', m[i := Connected s n g p'])"
    have "n \<noteq> 0" using wf_connections_slot [OF assms(2) a(1)] a(2) by simp
    then have "slot_step (m ! i) (Connected s n g p')" unfolding a(2) by (rule slot_step.intros)
    then show ?thesis by (rule one_slot_step [OF a(1)]) (use a(3) grant in simp)
  qed (use grant in auto)
qed

lemma conn_step_wf:
  assumes "conn_step m m'" and "wf_connections m"
  shows "wf_connections m'"
  using assms(1)
proof cases
  case (connect perms s r)
  show ?thesis
  proof (rule add_connection_cases [OF assms(2), of s perms])
    fix i r0 r' g p
    assume a: "i < length m" "m ! i = Connected (sidx_as_u8 s) r0 g p" "checked_add r0 1 = Some r'"
      "add_connection m s perms = (Done (pack_cid i g, False), m[i := Connected (sidx_as_u8 s) r' g p])"
    have "r' \<noteq> 0" using checked_add_unat [OF a(3)] by auto
    then show ?thesis using a connect wf_connections_slot [OF assms(2) a(1)]
        wf_connections_same [OF assms(2) a(1), of "Connected (sidx_as_u8 s) r' g p"] by auto
  next
    fix i g
    assume a: "i < length m" "m ! i = FreeSlot g" "\<forall>j < length m. slot_sidx (m ! j) \<noteq> Some (sidx_as_u8 s)"
      "add_connection m s perms = (Done (pack_cid i (g + 1), True), m[i := Connected (sidx_as_u8 s) 1 (g + 1) perms])"
    have "wf_slot (Connected (sidx_as_u8 s) 1 (g + 1) perms)"
      using connect(1) next_generation [of g] wf_connections_slot [OF assms(2) a(1)] a(2)
      by (auto simp: sidx_as_u8_def)
    then have "wf_connections (m[i := Connected (sidx_as_u8 s) 1 (g + 1) perms])"
      by (rule wf_connections_update [OF assms(2) a(1)]) (use a(3) in auto)
    then show ?thesis using a connect by auto
  qed (use connect assms(2) in auto)
next
  case (server_gone s r)
  show ?thesis
  proof (rule tombstone_cases [OF assms(2), of s])
    fix i r0 g p assume a: "i < length m" "m ! i = Connected (sidx_as_u8 s) r0 g p"
      "tombstone_connection_by_sidx m s = (Some (pack_cid i g), m[i := Tombstone r0 g])"
    then show ?thesis using server_gone wf_connections_slot [OF assms(2) a(1)]
        wf_connections_unconnect [OF assms(2) a(1), of "Tombstone r0 g"] by auto
  qed (use server_gone assms(2) in auto)
next
  case (disconnect c r)
  show ?thesis
  proof (rule release_connection_cases [OF assms(2), of c])
    fix i r0 g assume a: "i < length m" "m ! i = Tombstone r0 g" "r0 > 1"
      "release_connection m c = (Done None, m[i := Tombstone (r0 - 1) g])"
    then show ?thesis using disconnect wf_connections_slot [OF assms(2) a(1)] word_minus_one_nz [OF a(3)]
        wf_connections_unconnect [OF assms(2) a(1), of "Tombstone (r0 - 1) g"] by auto
  next
    fix i s r0 g p assume a: "i < length m" "m ! i = Connected s r0 g p" "r0 > 1"
      "release_connection m c = (Done None, m[i := Connected s (r0 - 1) g p])"
    then show ?thesis using disconnect wf_connections_slot [OF assms(2) a(1)] word_minus_one_nz [OF a(3)]
        wf_connections_same [OF assms(2) a(1), of "Connected s (r0 - 1) g p"] by auto
  next
    fix i r0 g assume a: "i < length m" "m ! i = Tombstone r0 g"
      "release_connection m c = (Done None, m[i := free_or_condemn g])"
    then show ?thesis using disconnect wf_connections_slot [OF assms(2) a(1)] wf_free_or_condemn [of g]
        wf_connections_unconnect [OF assms(2) a(1), of "free_or_condemn g"] by auto
  next
    fix i s r0 g p assume a: "i < length m" "m ! i = Connected s r0 g p"
      "release_connection m c = (Done (Some s), m[i := free_or_condemn g])"
    then show ?thesis using disconnect wf_connections_slot [OF assms(2) a(1)] wf_free_or_condemn [of g]
        wf_connections_unconnect [OF assms(2) a(1), of "free_or_condemn g"] by auto
  qed (use disconnect assms(2) in auto)
next
  case (grant c rg r)
  show ?thesis
  proof (rule add_permission_cases [of m c rg])
    fix i s n g p r' p' assume a: "i < length m" "m ! i = Connected s n g p" "permissions_add p rg = (r', p')"
      "add_connection_permission m c rg = (r', m[i := Connected s n g p'])"
    then show ?thesis using grant wf_connections_slot [OF assms(2) a(1)] permissions_add_wf [OF a(3)]
        wf_connections_same [OF assms(2) a(1), of "Connected s n g p'"] by auto
  qed (use grant assms(2) in auto)
qed

section \<open>Handles that die for good\<close>

text \<open>
  A table of handles: a handle that was live and is not any more is retired, and a retired
  handle stays so. From these laws a dead handle is never revived.
\<close>

locale handle_table =
  fixes inv :: "'s \<Rightarrow> bool" and step :: "'s \<Rightarrow> 's \<Rightarrow> bool"
    and live :: "'s \<Rightarrow> 'h \<Rightarrow> bool" and retired :: "'s \<Rightarrow> 'h \<Rightarrow> bool"
  assumes inv_step: "inv s \<Longrightarrow> step s s' \<Longrightarrow> inv s'"
    and dies_retired: "inv s \<Longrightarrow> step s s' \<Longrightarrow> live s h \<Longrightarrow> \<not> live s' h \<Longrightarrow> retired s' h"
    and stays_retired: "inv s \<Longrightarrow> step s s' \<Longrightarrow> retired s h \<Longrightarrow> retired s' h"
    and retired_dead: "inv s \<Longrightarrow> retired s h \<Longrightarrow> \<not> live s h"
begin

lemma inv_steps: "step\<^sup>*\<^sup>* s s' \<Longrightarrow> inv s \<Longrightarrow> inv s'"
  by (induction rule: rtranclp_induct) (auto intro: inv_step)

lemma retired_steps: "step\<^sup>*\<^sup>* s s' \<Longrightarrow> inv s \<Longrightarrow> retired s h \<Longrightarrow> retired s' h"
  by (induction rule: rtranclp_induct) (auto intro: stays_retired dest: inv_steps)

lemma dead_retired: "step\<^sup>*\<^sup>* s s' \<Longrightarrow> inv s \<Longrightarrow> live s h \<Longrightarrow> \<not> live s' h \<Longrightarrow> retired s' h"
proof (induction rule: rtranclp_induct)
  case (step s1 s2)
  have inv: "inv s1" using inv_steps step by blast
  then show ?case using dies_retired [OF inv step.hyps(2)] stays_retired [OF inv step.hyps(2)] step by blast
qed simp

lemma never_revived:
  assumes "inv s" and "live s h" and "step\<^sup>*\<^sup>* s s1" and "\<not> live s1 h" and "step\<^sup>*\<^sup>* s1 s2"
  shows "\<not> live s2 h"
proof -
  have "retired s1 h" by (rule dead_retired [OF assms(3,1,2,4)])
  moreover have "inv s1" by (rule inv_steps [OF assms(3,1)])
  ultimately show ?thesis using retired_steps [OF assms(5)] retired_dead inv_steps [OF assms(5)] by blast
qed

end

definition live_cid :: "connection_map \<Rightarrow> cid \<Rightarrow> bool" where
  "live_cid m c \<longleftrightarrow> (case connection m c of Inr _ \<Rightarrow> True | Inl _ \<Rightarrow> False)"

text \<open>The generation is behind the slot's, or the slot cannot take it up again.\<close>

fun retired_in :: "u32 \<Rightarrow> connection_slot \<Rightarrow> bool" where
  "retired_in g (FreeSlot g') \<longleftrightarrow> g \<le> g'"
| "retired_in g (Tombstone r g') \<longleftrightarrow> g < g'"
| "retired_in g (Connected s r g' p) \<longleftrightarrow> g < g'"
| "retired_in g Condemned \<longleftrightarrow> True"

definition retired_cid :: "connection_map \<Rightarrow> cid \<Rightarrow> bool" where
  "retired_cid m c \<longleftrightarrow> (case unpack_cid c of Inl _ \<Rightarrow> False | Inr (i, g) \<Rightarrow> i < length m \<and> retired_in g (m ! i))"

lemma live_cid_iff:
  "live_cid m c \<longleftrightarrow> (\<exists>i g. unpack_cid c = Inr (i, g) \<and> i < length m \<and> used_generation (m ! i) = Some g)"
  by (auto simp: live_cid_def connection_def split: sum.splits if_splits)

lemma retired_cid_iff:
  "retired_cid m c \<longleftrightarrow> (\<exists>i g. unpack_cid c = Inr (i, g) \<and> i < length m \<and> retired_in g (m ! i))"
  by (auto simp: retired_cid_def split: sum.splits)

lemma retired_in_dead: "retired_in g c \<Longrightarrow> used_generation c \<noteq> Some g"
  by (cases c) auto

lemma next_generation_less: "g < MAX_GENERATION \<Longrightarrow> g' \<le> g \<Longrightarrow> g' < g + 1"
  using next_generation [of g] by (simp add: word_less_nat_alt word_le_nat_alt)

lemma slot_step_retired:
  "slot_step c c' \<Longrightarrow> wf_slot c \<Longrightarrow> retired_in g c \<Longrightarrow> retired_in g c'"
  by (induction rule: slot_step.induct) (auto simp: free_or_condemn_def next_generation_less less_imp_le)

lemma slot_step_dies:
  "slot_step c c' \<Longrightarrow> used_generation c = Some g \<Longrightarrow> used_generation c' \<noteq> Some g \<Longrightarrow> retired_in g c'"
  by (induction rule: slot_step.induct) (auto simp: free_or_condemn_def)

interpretation conns: handle_table wf_connections conn_step live_cid retired_cid
proof (unfold_locales, goal_cases)
  case (1 s s')
  then show ?case by (blast intro: conn_step_wf)
next
  case (2 s s' h)
  obtain i g where h: "unpack_cid h = Inr (i, g)" "i < length s" "used_generation (s ! i) = Some g"
    using 2(3) by (auto simp: live_cid_iff)
  obtain j c where s': "s' = s[j := c]" "j < length s" "slot_step (s ! j) c"
    using conn_step_slot [OF 2(2,1)] 2(3,4) by auto
  show ?case
  proof (cases "i = j")
    case True
    then have "used_generation c \<noteq> Some g" using 2(4) h s' by (auto simp: live_cid_iff)
    then show ?thesis using slot_step_dies [OF s'(3)] h s' True by (auto simp: retired_cid_iff)
  next
    case False
    then show ?thesis using 2(4) h s' by (auto simp: live_cid_iff)
  qed
next
  case (3 s s' h)
  obtain i g where h: "unpack_cid h = Inr (i, g)" "i < length s" "retired_in g (s ! i)"
    using 3(3) by (auto simp: retired_cid_iff)
  show ?case
  proof (cases "s' = s")
    case False
    then obtain j c where s': "s' = s[j := c]" "j < length s" "slot_step (s ! j) c"
      using conn_step_slot [OF 3(2,1)] by auto
    have "retired_in g (s' ! i)"
      using slot_step_retired [OF s'(3) wf_connections_slot [OF 3(1) s'(2)]] h s' by (cases "i = j") auto
    then show ?thesis using h s' by (auto simp: retired_cid_iff)
  qed (use 3(3) in simp)
next
  case (4 s h)
  then show ?case by (auto simp: retired_cid_iff live_cid_iff retired_in_dead)
qed

lemma unpack_cid_inj: "unpack_cid c = unpack_cid c' \<Longrightarrow> unpack_cid c = Inr x \<Longrightarrow> c = c'"
proof -
  assume eq: "unpack_cid c = unpack_cid c'" and x: "unpack_cid c = Inr x"
  have m: "(0xff :: u32) = mask 8" by (simp add: mask_eq_exp_minus_1)
  have "unat ((c AND mask 8) - 2) = unat ((c' AND mask 8) - 2)" and hi: "drop_bit 8 c = drop_bit 8 c'"
    using eq x by (auto simp: unpack_cid_def cid_consts Let_def m split: if_splits)
  then have lo: "c AND mask 8 = c' AND mask 8" by (metis diff_add_cancel word_eq_iff_unsigned)
  have "bit c n = bit c' n" for n
  proof (cases "n < 8")
    case True
    then show ?thesis using arg_cong [OF lo, of "\<lambda>w. bit w n"] by (simp add: bit_simps)
  next
    case False
    then show ?thesis using arg_cong [OF hi, of "\<lambda>w. bit w (n - 8)"] by (simp add: bit_simps)
  qed
  then show ?thesis by (rule bit_word_eqI)
qed

lemma pack_live:
  assumes "wf_connections m" and "i < length m" and "used_generation (m ! i) = Some g"
  shows "unpack_cid (pack_cid i g) = Inr (i, g)" and "connection m (pack_cid i g) = Inr i"
proof -
  have "g \<le> MAX_GENERATION" using wf_connections_slot [OF assms(1,2)] assms(3) by (cases "m ! i") auto
  then have "g \<le> 0xFFFFFF" unfolding MAX_GENERATION_val by (simp add: word_le_nat_alt)
  then show "unpack_cid (pack_cid i g) = Inr (i, g)"
    using unpack_pack [of i g] wf_connections_length [OF assms(1)] assms(2) by simp
  then show "connection m (pack_cid i g) = Inr i" using assms by (simp add: connection_def)
qed

section \<open>Connecting and disconnecting\<close>

text \<open>Replacing a slot leaves what another id names alone, if that id does not name the slot before or after.\<close>

lemma connection_update:
  assumes "i < length m" and "\<And>g. unpack_cid c = Inr (i, g) \<Longrightarrow>
      (used_generation x = Some g \<longleftrightarrow> used_generation (m ! i) = Some g)"
  shows "connection (m[i := x]) c = connection m c"
  using assms by (auto simp: connection_def nth_list_update split: sum.splits)

lemma connect_again:
  assumes wf: "wf_connections m" and add: "add_connection m s perms = (Done (c, False), m')"
    and perms: "wf_permissions perms"
  shows "wf_connections m' \<and> live_cid m c \<and> (\<forall>c'. connection m' c' = connection m c') \<and> release_connection m' c = (Done None, m)"
proof (rule add_connection_cases [OF wf, of s perms])
  have wf': "wf_connections m'" by (rule conn_step_wf [OF conn_step.connect [OF perms add] wf])
  fix i r r' g p
  assume a: "i < length m" "m ! i = Connected (sidx_as_u8 s) r g p" "checked_add r 1 = Some r'"
    "add_connection m s perms = (Done (pack_cid i g, False), m[i := Connected (sidx_as_u8 s) r' g p])"
  have eq: "c = pack_cid i g" "m' = m[i := Connected (sidx_as_u8 s) r' g p]" using a(4) add by auto
  have r': "unat r' = unat r + 1" using checked_add_unat [OF a(3)] by simp
  then have "r' > 1" using wf_connections_slot [OF wf a(1)] a(2) by (simp add: word_less_nat_alt unat_gt_0)
  moreover have "r' - 1 = r"
  proof -
    have "r' = of_nat (unat r')" by simp
    also have "\<dots> = r + 1" by (simp add: r')
    finally show ?thesis by simp
  qed
  moreover have c: "connection m c = Inr i" "connection m' c = Inr i"
    using pack_live(2) [OF wf a(1), of g] pack_live(2) [OF wf', of i g] a by (auto simp: eq)
  ultimately have "release_connection m' c = (Done None, m'[i := m ! i])"
    using a by (simp add: release_connection_def eq)
  moreover have "connection m' c' = connection m c'" for c'
    unfolding eq(2) by (rule connection_update [OF a(1)]) (simp add: a(2))
  ultimately show ?thesis using c wf' by (simp add: live_cid_def) (simp add: eq)
qed (use add in auto)

lemma connect_fresh:
  assumes wf: "wf_connections m" and add: "add_connection m s perms = (Done (c, True), m')"
    and perms: "wf_permissions perms"
  obtains i g where "wf_connections m'" "i < length m" "is_free_slot (m ! i)" "connection m' c = Inr i"
    "\<not> live_cid m c" "m' = m[i := Connected (sidx_as_u8 s) 1 g perms]"
    "release_connection m' c = (Done (Some (sidx_as_u8 s)), m[i := free_or_condemn g])"
    "\<not> live_cid (m[i := free_or_condemn g]) c"
    "\<forall>c'. c' \<noteq> c \<longrightarrow> connection m' c' = connection m c' \<and> connection (m[i := free_or_condemn g]) c' = connection m c'"
proof (rule add_connection_cases [OF wf, of s perms])
  have wf': "wf_connections m'" by (rule conn_step_wf [OF conn_step.connect [OF perms add] wf])
  fix i g
  assume a: "i < length m" "m ! i = FreeSlot g"
    "add_connection m s perms = (Done (pack_cid i (g + 1), True), m[i := Connected (sidx_as_u8 s) 1 (g + 1) perms])"
  have eq: "c = pack_cid i (g + 1)" "m' = m[i := Connected (sidx_as_u8 s) 1 (g + 1) perms]" using a(3) add by auto
  have c: "connection m' c = Inr i" "unpack_cid c = Inr (i, g + 1)"
    using pack_live [OF wf', of i "g + 1"] a by (auto simp: eq)
  have none: "used_generation (free_or_condemn (g + 1)) = None" by (simp add: free_or_condemn_def)
  have rel: "release_connection m' c = (Done (Some (sidx_as_u8 s)), m[i := free_or_condemn (g + 1)])"
    using c a by (simp add: release_connection_def eq)
  have dead: "\<not> live_cid m c" "\<not> live_cid (m[i := free_or_condemn (g + 1)]) c"
    using c a by (auto simp: live_cid_iff none)
  have "connection m' c' = connection m c'" if "c' \<noteq> c" for c'
    unfolding eq(2) using that c(2) unpack_cid_inj [of c' c] a(2) by (intro connection_update [OF a(1)]) auto
  moreover have "connection (m[i := free_or_condemn (g + 1)]) c' = connection m c'" for c'
    using a(2) by (intro connection_update [OF a(1)]) (simp add: none)
  ultimately show thesis using that [OF wf' a(1) _ c(1) dead(1) eq(2) rel dead(2)] a(2) by simp
qed (use add in auto)

section \<open>Properties\<close>

text \<open>
  C3: a stale connection id never names another connection. If an id was live and has
  died, it stays dead in every later state, over any sequence of connects, disconnects,
  server deaths and permission grants, although slots are reused and generations end.
\<close>

theorem stale_cid_never_revived:
  assumes "wf_connections m" and "live_cid m c" and "conn_step\<^sup>*\<^sup>* m m1" and "\<not> live_cid m1 c"
    and "conn_step\<^sup>*\<^sup>* m1 m2"
  shows "\<not> live_cid m2 c"
  by (rule conns.never_revived [OF assms])

definition demo_map :: connection_map where
  "demo_map = initial_connection_map[0 := Connected 3 1 1 default_message_permissions]"

definition demo_cid :: cid where "demo_cid = pack_cid 0 1"

lemma demo_map_wf: "wf_connections demo_map"
  unfolding demo_map_def
  by (rule wf_connections_update [OF wf_initial_connections])
    (auto simp: MAX_GENERATION_val initial_connection_map_def MAX_CONNECTIONS_def)

lemma demo_map_slot: "0 < length demo_map" "demo_map ! 0 = Connected 3 1 1 default_message_permissions"
  by (simp_all add: demo_map_def initial_connection_map_def MAX_CONNECTIONS_def)

lemma demo_connection: "connection demo_map demo_cid = Inr 0"
  using pack_live(2) [OF demo_map_wf demo_map_slot(1), of 1] by (simp add: demo_map_slot demo_cid_def)

lemma demo_release: "release_connection demo_map demo_cid = (Done (Some 3), demo_map[0 := FreeSlot 1])"
  by (simp add: release_connection_def demo_connection demo_map_slot free_or_condemn_def MAX_GENERATION_val
      word_le_nat_alt)

theorem stale_cid_never_revived_witness:
  "\<exists>m1 m2. release_connection demo_map demo_cid = (Done (Some 3), m1)
    \<and> fst (add_connection m1 9 default_message_permissions) = Done (pack_cid 0 2, True)
    \<and> m2 = snd (add_connection m1 9 default_message_permissions) \<and> \<not> live_cid m2 demo_cid"
proof -
  let ?m1 = "demo_map[0 := FreeSlot 1]"
  let ?m2 = "snd (add_connection ?m1 9 default_message_permissions)"
  have s1: "conn_step demo_map ?m1" by (rule conn_step.disconnect [OF demo_release])
  have s2: "conn_step ?m1 ?m2"
    by (rule conn_step.connect [where r = "fst (add_connection ?m1 9 default_message_permissions)"]) simp_all
  have "unpack_cid demo_cid = Inr (0, 1)"
    using pack_live(1) [OF demo_map_wf demo_map_slot(1), of 1] by (simp add: demo_map_slot demo_cid_def)
  moreover have "?m1 ! 0 = FreeSlot 1" using demo_map_slot(1) by (rule nth_list_update_eq)
  ultimately have dead: "\<not> live_cid ?m1 demo_cid" by (simp add: live_cid_iff)
  have live: "live_cid demo_map demo_cid" by (simp add: live_cid_def demo_connection)
  have "\<not> live_cid ?m2 demo_cid"
    by (rule stale_cid_never_revived [OF demo_map_wf live r_into_rtranclp [of conn_step, OF s1] dead
          r_into_rtranclp [of conn_step, OF s2]])
  moreover have "find_index (connected_to 9) ?m1 = None" "find_index is_free_slot ?m1 = Some 0"
    by (simp_all add: find_index_None demo_map_def initial_connection_map_def MAX_CONNECTIONS_def numeral_eq_Suc)
  ultimately show ?thesis
    using demo_release demo_map_slot(1) by (auto simp: add_connection_def)
qed

text \<open>
  C30: connecting and disconnecting are inverse. Connecting again to the same server returns the id
  of the connection that exists, names the same slots for all ids, and one disconnect restores the
  table exactly. A new connection takes one slot that was free and leaves the others as they are;
  its id was dead before, names that slot, which names the server, with one reference and the given
  permissions, and dies with one disconnect, which reports the server to notify. Every other id
  names exactly what it named, or nothing if it named nothing, both while the connection lives and
  after it has gone.
\<close>

theorem connect_disconnect_inverse:
  assumes "wf_connections m" and "wf_permissions perms"
    and "add_connection m s perms = (Done (c, fresh), m')"
  shows "wf_connections m'
    \<and> (if fresh then \<exists>i g m''. i < length m \<and> is_free_slot (m ! i) \<and> \<not> live_cid m c
         \<and> connection m' c = Inr i \<and> m' = m[i := Connected (sidx_as_u8 s) 1 g perms]
         \<and> release_connection m' c = (Done (Some (sidx_as_u8 s)), m'') \<and> m'' = m[i := free_or_condemn g] \<and> \<not> live_cid m'' c
         \<and> (\<forall>c'. c' \<noteq> c \<longrightarrow> connection m' c' = connection m c' \<and> connection m'' c' = connection m c')
       else live_cid m c \<and> (\<forall>c'. connection m' c' = connection m c') \<and> release_connection m' c = (Done None, m))"
proof (cases fresh)
  case True
  with assms(3) have add: "add_connection m s perms = (Done (c, True), m')" by simp
  from connect_fresh [OF assms(1) add assms(2)] obtain i g where
    f: "wf_connections m'" "i < length m" "is_free_slot (m ! i)" "connection m' c = Inr i"
    "\<not> live_cid m c" "m' = m[i := Connected (sidx_as_u8 s) 1 g perms]"
    "release_connection m' c = (Done (Some (sidx_as_u8 s)), m[i := free_or_condemn g])"
    "\<not> live_cid (m[i := free_or_condemn g]) c"
    "\<forall>c'. c' \<noteq> c \<longrightarrow> connection m' c' = connection m c' \<and> connection (m[i := free_or_condemn g]) c' = connection m c'" .
  from f(1) show ?thesis unfolding if_P [OF True]
    by (intro conjI exI [of _ i] exI [of _ g] exI [of _ "m[i := free_or_condemn g]"]) (use f in \<open>simp_all only: not_False_eq_True\<close>)
next
  case False
  with connect_again [OF assms(1) _ assms(2)] assms(3) show ?thesis by simp
qed

theorem connect_disconnect_inverse_witness:
  "\<exists>m1 m2. add_connection demo_map 9 default_message_permissions = (Done (pack_cid 1 1, True), m1)
    \<and> release_connection m1 (pack_cid 1 1) = (Done (Some 9), m2)
    \<and> connection m1 demo_cid = Inr 0 \<and> connection m2 demo_cid = Inr 0 \<and> \<not> live_cid m2 (pack_cid 1 1)
    \<and> (\<exists>m3. add_connection m1 9 default_message_permissions = (Done (pack_cid 1 1, False), m3)
        \<and> release_connection m3 (pack_cid 1 1) = (Done None, m1))"
proof -
  let ?m1 = "demo_map[1 := Connected 9 1 1 default_message_permissions]"
  have demo: "demo_map = Connected 3 1 1 default_message_permissions # FreeSlot 0 # replicate 62 (FreeSlot 0)"
    using replicate_Suc [of 63 "FreeSlot 0"] replicate_Suc [of 62 "FreeSlot 0"]
    by (simp add: demo_map_def initial_connection_map_def MAX_CONNECTIONS_def)
  have f: "find_index (connected_to 9) demo_map = None" "find_index is_free_slot demo_map = Some 1"
    "find_index (connected_to 9) ?m1 = Some 1"
    by (simp_all add: demo find_index_None sidx_as_u8_def)
  have one: "demo_map ! 1 = FreeSlot 0" "?m1 ! 1 = Connected 9 1 1 default_message_permissions" by (simp_all add: demo)
  have add: "add_connection demo_map 9 default_message_permissions = (Done (pack_cid 1 1, True), ?m1)"
    using f one by (simp add: add_connection_def sidx_as_u8_def)
  have ne: "demo_cid \<noteq> pack_cid 1 1" by (simp add: demo_cid_def pack_cid_def cid_consts)
  from connect_disconnect_inverse [OF demo_map_wf wf_default_permissions add] obtain m2 where
    m2: "wf_connections ?m1" "release_connection ?m1 (pack_cid 1 1) = (Done (Some 9), m2)" "\<not> live_cid m2 (pack_cid 1 1)"
      "connection ?m1 demo_cid = Inr 0" "connection m2 demo_cid = Inr 0"
    using ne demo_connection by (auto simp: sidx_as_u8_def)
  have again: "add_connection ?m1 9 default_message_permissions
      = (Done (pack_cid 1 1, False), ?m1[1 := Connected 9 2 1 default_message_permissions])"
    using f(3) one(2) by (simp add: add_connection_def checked_add_def)
  from connect_disconnect_inverse [OF m2(1) wf_default_permissions again] add again m2(2-) show ?thesis by auto
qed

text \<open>
  The table's invariant, over every sequence of its operations from the empty table: 64
  slots, generations within their 24 bits, no reference count of zero, and at most one
  connection per server.
\<close>

theorem connection_map_invariant:
  assumes "conn_step\<^sup>*\<^sup>* initial_connection_map m"
  shows "wf_connections m"
  by (rule conns.inv_steps [OF assms wf_initial_connections])

theorem connection_map_invariant_witness: "wf_connections initial_connection_map"
  by (rule connection_map_invariant) (rule rtranclp.rtrancl_refl)

end
