(* ===== verification/Permission_Requests.thy ===== *)
theory Permission_Requests
  imports Messages
begin

text \<open>
  In-flight permission requests (\<open>xous/kernel/src/permission_requests.rs\<close>): a table of 64
  slots whose indices are the request ids. A request is recorded while its sender is parked,
  may be invalidated, and frees its slot only when the broker answers it.
\<close>

section \<open>State and operations\<close>

definition MAX_PERMISSION_REQUESTS :: nat where "MAX_PERMISSION_REQUESTS = 64"

record permission_request =
  pr_sender_pid :: pid
  pr_sender_app_id :: app_id
  pr_sender_tid :: tid
  pr_cid :: cid
  pr_sidx :: nat
  pr_server_sid :: sid
  pr_message_id :: message_id
  pr_valid :: bool

type_synonym permission_requests = "permission_request option list"

definition new_permission_requests :: permission_requests where
  "new_permission_requests = replicate MAX_PERMISSION_REQUESTS None"

text \<open>\<open>insert\<close> reads the current process for the sender.\<close>

definition insert_request :: "permission_requests \<Rightarrow> pid \<Rightarrow> app_id \<Rightarrow> tid \<Rightarrow> cid \<Rightarrow> nat \<Rightarrow> sid \<Rightarrow> message_id
    \<Rightarrow> nat option \<times> permission_requests" where
  "insert_request es current_pid app t c s sd m =
     (case find_index (\<lambda>e. e = None) es of
        None \<Rightarrow> (None, es)
      | Some slot \<Rightarrow>
          (Some (slot mod 65536),
           es[slot := Some \<lparr>pr_sender_pid = current_pid, pr_sender_app_id = app, pr_sender_tid = t,
             pr_cid = c, pr_sidx = s, pr_server_sid = sd, pr_message_id = m, pr_valid = True\<rparr>]))"

definition get_request :: "permission_requests \<Rightarrow> nat \<Rightarrow> permission_request option" where
  "get_request es i = (if i < length es then es ! i else None)"

definition take_request :: "permission_requests \<Rightarrow> nat \<Rightarrow> permission_request option \<times> permission_requests" where
  "take_request es i = (if i < length es then (es ! i, es[i := None]) else (None, es))"

definition matching :: "(permission_request \<Rightarrow> bool) \<Rightarrow> permission_request option \<Rightarrow> bool" where
  "matching pred e = (case e of None \<Rightarrow> False | Some r \<Rightarrow> pr_valid r \<and> pred r)"

definition tombstone_next ::
    "permission_requests \<Rightarrow> (permission_request \<Rightarrow> bool) \<Rightarrow> (pid \<times> tid \<times> nat) option \<times> permission_requests" where
  "tombstone_next es pred =
     (case find_index (matching pred) es of
        None \<Rightarrow> (None, es)
      | Some slot \<Rightarrow>
          (case es ! slot of
             None \<Rightarrow> (None, es)
           | Some r \<Rightarrow> (Some (pr_sender_pid r, pr_sender_tid r, slot mod 65536),
                        es[slot := Some (r\<lparr>pr_valid := False\<rparr>)])))"

section \<open>Draining\<close>

lemma matching_iff: "matching pred e \<longleftrightarrow> (\<exists>r. e = Some r \<and> pr_valid r \<and> pred r)"
  by (auto simp: matching_def split: option.splits)

lemma tombstone_next_cases:
  obtains (none) "tombstone_next es pred = (None, es)" "\<forall>i < length es. \<not> matching pred (es ! i)"
  | (some) i r where "i < length es" "es ! i = Some r" "pr_valid r" "pred r" "\<forall>j < i. \<not> matching pred (es ! j)"
      "tombstone_next es pred = (Some (pr_sender_pid r, pr_sender_tid r, i mod 65536), es[i := Some (r\<lparr>pr_valid := False\<rparr>)])"
proof (cases "find_index (matching pred) es")
  case None
  then have "\<forall>i < length es. \<not> matching pred (es ! i)" by (auto simp: find_index_None)
  then show thesis using none None by (simp add: tombstone_next_def)
next
  case (Some i)
  then obtain r where "es ! i = Some r" "pr_valid r" "pred r" "i < length es" "\<forall>j < i. \<not> matching pred (es ! j)"
    using find_index_Some [OF Some] by (auto simp: matching_iff)
  then show thesis using some Some by (simp add: tombstone_next_def)
qed

text \<open>The callers' loop \<open>while let Some(sender) = tombstone_next(pred)\<close>.\<close>

function drain_requests ::
    "(permission_request \<Rightarrow> bool) \<Rightarrow> permission_requests \<Rightarrow> (pid \<times> tid \<times> nat) list \<times> permission_requests" where
  "drain_requests pred es =
     (case tombstone_next es pred of
        (None, es') \<Rightarrow> ([], es')
      | (Some x, es') \<Rightarrow> (case drain_requests pred es' of (xs, es'') \<Rightarrow> (x # xs, es'')))"
  by pat_completeness auto

lemma tombstone_next_count:
  assumes "tombstone_next es pred = (Some x, es')"
  shows "count_if (matching pred) es' + 1 = count_if (matching pred) es"
proof (rule tombstone_next_cases [of es pred])
  fix i r
  assume a: "i < length es" "es ! i = Some r" "pr_valid r" "pred r"
    "tombstone_next es pred = (Some (pr_sender_pid r, pr_sender_tid r, i mod 65536), es[i := Some (r\<lparr>pr_valid := False\<rparr>)])"
  have "matching pred (es ! i)" "\<not> matching pred (Some (r\<lparr>pr_valid := False\<rparr>))"
    using a by (auto simp: matching_iff)
  then show ?thesis
    using a assms count_if_update [of i es "matching pred" "Some (r\<lparr>pr_valid := False\<rparr>)"] by simp
qed (use assms in simp)

lemma tombstone_next_less:
  "(Some x, es') = tombstone_next es pred \<Longrightarrow> count_if (matching pred) es' < count_if (matching pred) es"
  using tombstone_next_count [of es pred x es'] by simp

termination drain_requests
  by (relation "measure (\<lambda>(pred, es). count_if (matching pred) es)") (auto dest: tombstone_next_less)

declare drain_requests.simps [simp del]

definition invalidate :: "(permission_request \<Rightarrow> bool) \<Rightarrow> permission_request option \<Rightarrow> permission_request option" where
  "invalidate pred e = (if matching pred e then map_option (pr_valid_update (\<lambda>_. False)) e else e)"

definition matching_ids :: "(permission_request \<Rightarrow> bool) \<Rightarrow> permission_requests \<Rightarrow> nat list" where
  "matching_ids pred es = filter (\<lambda>i. matching pred (es ! i)) [0 ..< length es]"

lemma filter_first:
  assumes "i < n" and "P i" and "\<forall>j < i. \<not> P j" and "\<not> P' i" and "\<And>j. j \<noteq> i \<Longrightarrow> P' j = P j"
  shows "filter P [0 ..< n] = i # filter P' [0 ..< n]"
proof -
  have split: "[0 ..< n] = [0 ..< i] @ i # [Suc i ..< n]"
    using assms(1) by (metis append_Cons le_add1 add.right_neutral le0 less_imp_le upt_add_eq_append upt_conv_Cons
        add_0 le_add_diff_inverse)
  have "filter P [0 ..< i] = []" "filter P' [0 ..< i] = []" "filter P' [Suc i ..< n] = filter P [Suc i ..< n]"
    using assms by (auto simp: filter_empty_conv intro: filter_cong)
  then show ?thesis using assms(2,4) by (simp add: split)
qed

lemma drain_requests_spec:
  "drain_requests pred es =
     (map (\<lambda>i. (pr_sender_pid (the (es ! i)), pr_sender_tid (the (es ! i)), i mod 65536)) (matching_ids pred es),
      map (invalidate pred) es)"
proof (induction pred es rule: drain_requests.induct)
  case (1 pred es)
  show ?case
  proof (rule tombstone_next_cases [of es pred])
    assume a: "tombstone_next es pred = (None, es)" "\<forall>i < length es. \<not> matching pred (es ! i)"
    have "map (invalidate pred) es = es"
      using a(2) by (auto intro!: nth_equalityI simp: invalidate_def)
    moreover have "matching_ids pred es = []" using a(2) by (simp add: matching_ids_def filter_empty_conv)
    ultimately show ?thesis using a(1) by (subst drain_requests.simps) simp
  next
    fix i r
    assume a: "i < length es" "es ! i = Some r" "pr_valid r" "pred r" "\<forall>j < i. \<not> matching pred (es ! j)"
      "tombstone_next es pred = (Some (pr_sender_pid r, pr_sender_tid r, i mod 65536), es[i := Some (r\<lparr>pr_valid := False\<rparr>)])"
    let ?es = "es[i := Some (r\<lparr>pr_valid := False\<rparr>)]"
    have m: "matching pred (es ! i)" "\<not> matching pred (?es ! i)" using a by (auto simp: matching_iff)
    have ids: "matching_ids pred es = i # matching_ids pred ?es"
      unfolding matching_ids_def length_list_update
      by (rule filter_first [where P = "\<lambda>j. matching pred (es ! j)" and P' = "\<lambda>j. matching pred (?es ! j)",
            OF a(1) m(1) a(5) m(2)]) simp
    have inv: "map (invalidate pred) ?es = map (invalidate pred) es"
      using m a by (intro nth_equalityI) (auto simp: nth_list_update invalidate_def)
    have "map (\<lambda>j. (pr_sender_pid (the (?es ! j)), pr_sender_tid (the (?es ! j)), j mod 65536)) (matching_ids pred ?es)
        = map (\<lambda>j. (pr_sender_pid (the (es ! j)), pr_sender_tid (the (es ! j)), j mod 65536)) (matching_ids pred ?es)"
      using m(2) by (auto simp: matching_ids_def nth_update_if split: if_splits)
    then show ?thesis
      using 1 [OF a(6) [symmetric] refl] a ids inv by (subst drain_requests.simps) simp
  qed
qed

section \<open>Histories of the table\<close>

inductive request_step :: "permission_requests \<Rightarrow> permission_requests \<Rightarrow> bool" where
  recorded: "insert_request es p app t c s sd m = (r, es') \<Longrightarrow> request_step es es'"
| invalidated: "tombstone_next es pred = (r, es') \<Longrightarrow> request_step es es'"
| answered: "take_request es i = (r, es') \<Longrightarrow> request_step es es'"

text \<open>Steps other than the broker's answer to the request \<open>i\<close>.\<close>

inductive unanswered_step :: "nat \<Rightarrow> permission_requests \<Rightarrow> permission_requests \<Rightarrow> bool" where
  "insert_request es p app t c s sd m = (r, es') \<Longrightarrow> unanswered_step i es es'"
| "tombstone_next es pred = (r, es') \<Longrightarrow> unanswered_step i es es'"
| "j \<noteq> i \<Longrightarrow> take_request es j = (r, es') \<Longrightarrow> unanswered_step i es es'"

definition same_request :: "permission_request \<Rightarrow> permission_request \<Rightarrow> bool" where
  "same_request r r' \<longleftrightarrow> pr_sender_pid r' = pr_sender_pid r \<and> pr_sender_app_id r' = pr_sender_app_id r
     \<and> pr_sender_tid r' = pr_sender_tid r \<and> pr_cid r' = pr_cid r \<and> pr_sidx r' = pr_sidx r
     \<and> pr_server_sid r' = pr_server_sid r \<and> pr_message_id r' = pr_message_id r
     \<and> (pr_valid r' \<longrightarrow> pr_valid r)"

lemma same_request_refl [simp]: "same_request r r"
  by (simp add: same_request_def)

lemma same_request_trans: "same_request a b \<Longrightarrow> same_request b c \<Longrightarrow> same_request a c"
  by (auto simp: same_request_def)

lemma insert_request_cases:
  obtains (full) "insert_request es p app t c s sd m = (None, es)" "\<forall>i < length es. es ! i \<noteq> None"
  | (slot) i where "i < length es" "es ! i = None" "\<forall>j < i. es ! j \<noteq> None"
      "insert_request es p app t c s sd m = (Some (i mod 65536),
        es[i := Some \<lparr>pr_sender_pid = p, pr_sender_app_id = app, pr_sender_tid = t,
             pr_cid = c, pr_sidx = s, pr_server_sid = sd, pr_message_id = m, pr_valid = True\<rparr>])"
proof (cases "find_index (\<lambda>e. e = None) es")
  case None
  then have "\<forall>i < length es. es ! i \<noteq> None" by (auto simp: find_index_None)
  then show thesis using None full by (simp add: insert_request_def)
next
  case (Some i)
  then show thesis using find_index_Some [OF Some] slot [of i] by (simp add: insert_request_def)
qed

lemma unanswered_keeps:
  assumes "unanswered_step i es es'" and "get_request es i = Some r"
  shows "\<exists>r'. get_request es' i = Some r' \<and> same_request r r'"
  using assms(1)
proof cases
  case (1 p app t c s sd m res)
  show ?thesis
    by (rule insert_request_cases [of es p app t c s sd m])
      (use 1 assms(2) in \<open>auto simp: get_request_def nth_list_update split: if_splits\<close>)
next
  case (2 pred res)
  show ?thesis
    by (rule tombstone_next_cases [of es pred])
      (use 2 assms(2) in \<open>auto simp: get_request_def nth_list_update same_request_def split: if_splits\<close>)
next
  case (3 j res)
  then show ?thesis using assms(2) by (auto simp: get_request_def take_request_def split: if_splits)
qed

lemma unanswered_steps_keep:
  "(unanswered_step i)\<^sup>*\<^sup>* es es' \<Longrightarrow> get_request es i = Some r \<Longrightarrow>
   \<exists>r'. get_request es' i = Some r' \<and> same_request r r'"
proof (induction rule: rtranclp_induct)
  case base
  then show ?case by auto
next
  case (step es1 es2)
  then show ?case using unanswered_keeps same_request_trans by meson
qed

section \<open>Properties\<close>

text \<open>
  C34: a request id keeps naming the request it was issued for, until the broker answers it:
  whatever other requests are recorded, invalidated or answered meanwhile, the slot holds the
  same sender, connection, server and message id; and a request that has been invalidated
  never becomes valid again.
\<close>

theorem request_identity_stable:
  assumes "get_request es i = Some r" and "(unanswered_step i)\<^sup>*\<^sup>* es es'"
  shows "\<exists>r'. get_request es' i = Some r' \<and> same_request r r'"
  by (rule unanswered_steps_keep [OF assms(2,1)])

definition demo_requests :: permission_requests where
  "demo_requests = snd (insert_request new_permission_requests 7 (AppId []) 1 258 3 (SID 1 2 3 4) 77)"

lemma new_requests_slot: "find_index (\<lambda>e. e = None) new_permission_requests = Some 0" "0 < length new_permission_requests"
  by (simp_all add: new_permission_requests_def MAX_PERMISSION_REQUESTS_def numeral_eq_Suc)

lemma demo_request: "\<exists>r. get_request demo_requests 0 = Some r \<and> pr_message_id r = 77 \<and> pr_sender_pid r = 7"
  using new_requests_slot by (simp add: demo_requests_def insert_request_def get_request_def)

theorem request_identity_stable_witness:
  "\<exists>r'. get_request (snd (tombstone_next demo_requests (\<lambda>r. pr_sender_pid r = 7))) 0 = Some r'
    \<and> pr_message_id r' = 77"
proof -
  obtain r where r: "get_request demo_requests 0 = Some r" "pr_message_id r = 77" using demo_request by blast
  have "unanswered_step 0 demo_requests (snd (tombstone_next demo_requests (\<lambda>r. pr_sender_pid r = 7)))"
    by (rule unanswered_step.intros(2) [where r = "fst (tombstone_next demo_requests (\<lambda>r. pr_sender_pid r = 7))"]) simp
  from request_identity_stable [OF r(1) r_into_rtranclp [of "unanswered_step 0", OF this]] r(2) show ?thesis
    by (auto simp: same_request_def)
qed

text \<open>
  C35: draining the table of the requests that match a predicate (on a disconnect, the death
  of a server, or the exit of a process) terminates, reports each matching valid request
  exactly once, with its sender and in the order of the ids, and invalidates those requests
  and no others.
\<close>

theorem drain_reports_each_once:
  "drain_requests pred es =
     (map (\<lambda>i. (pr_sender_pid (the (es ! i)), pr_sender_tid (the (es ! i)), i mod 65536)) (matching_ids pred es),
      map (invalidate pred) es)"
  by (rule drain_requests_spec)

end
