(* ===== verification/Irq_Table.thy ===== *)
theory Irq_Table
  imports Messages
begin

text \<open>
  The interrupt handler table (\<open>xous/kernel/src/irq.rs\<close>): 32 entries, each free, owned by a
  process, or owned by the kernel; an entry's interrupt is enabled when it is claimed and
  disabled when it is freed.
\<close>

section \<open>State and operations\<close>

definition IRQ_COUNT :: nat where "IRQ_COUNT = 32"

text \<open>A kernel handler is a function pointer; only its identity matters here.\<close>

datatype irq_handler =
    IrqFree
  | IrqUser pid usize "usize option"
  | IrqKernel usize

text \<open>The second field is the effect of \<open>arch::irq::enable_irq\<close> and \<open>disable_irq\<close>.\<close>

record irq_state =
  handlers :: "irq_handler list"
  irq_enabled :: "bool list"

definition initial_irqs :: irq_state where
  "initial_irqs = \<lparr>handlers = replicate IRQ_COUNT IrqFree, irq_enabled = replicate IRQ_COUNT False\<rparr>"

definition enable_irq :: "nat \<Rightarrow> irq_state \<Rightarrow> irq_state" where
  "enable_irq n s = s\<lparr>irq_enabled := (irq_enabled s)[n := True]\<rparr>"

definition disable_irq :: "nat \<Rightarrow> irq_state \<Rightarrow> irq_state" where
  "disable_irq n s = s\<lparr>irq_enabled := (irq_enabled s)[n := False]\<rparr>"

definition set_handler :: "nat \<Rightarrow> irq_handler \<Rightarrow> irq_state \<Rightarrow> irq_state" where
  "set_handler n h s = s\<lparr>handlers := (handlers s)[n := h]\<rparr>"

definition interrupt_claim_kernel :: "irq_state \<Rightarrow> nat \<Rightarrow> usize \<Rightarrow> unit res \<times> irq_state" where
  "interrupt_claim_kernel s n h =
     (if handlers s ! n \<noteq> IrqFree then (Panic, s)
      else (Done (), enable_irq n (set_handler n (IrqKernel h) s)))"

definition interrupt_claim_user ::
    "irq_state \<Rightarrow> nat \<Rightarrow> pid \<Rightarrow> usize \<Rightarrow> usize option \<Rightarrow> unit res \<times> irq_state" where
  "interrupt_claim_user s n p pc arg =
     (if handlers s ! n \<noteq> IrqFree then (Fail InterruptInUse, s)
      else (Done (), enable_irq n (set_handler n (IrqUser p pc arg) s)))"

fun irq_owner :: "irq_handler \<Rightarrow> pid option" where
  "irq_owner (IrqUser p pc arg) = Some p"
| "irq_owner _ = None"

definition interrupt_free :: "irq_state \<Rightarrow> nat \<Rightarrow> pid \<Rightarrow> unit res \<times> irq_state" where
  "interrupt_free s n p =
     (if irq_owner (handlers s ! n) = Some p then (Done (), set_handler n IrqFree (disable_irq n s))
      else (Fail InterruptNotFound, s))"

text \<open>The loop over all handlers.\<close>

definition release_step :: "pid \<Rightarrow> nat \<Rightarrow> irq_state \<Rightarrow> irq_state" where
  "release_step p n s =
     (if irq_owner (handlers s ! n) = Some p then set_handler n IrqFree (disable_irq n s) else s)"

definition release_interrupts_for_pid :: "irq_state \<Rightarrow> pid \<Rightarrow> irq_state" where
  "release_interrupts_for_pid s p = fold (release_step p) [0 ..< length (handlers s)] s"

text \<open>What \<open>handle\<close> does for an interrupt: call back into the owner, call the kernel's
  handler, or mask an interrupt that has no handler.\<close>

datatype irq_action = RunUser pid usize usize usize | RunKernel usize | MaskedIrq

definition irq_handle :: "irq_state \<Rightarrow> nat \<Rightarrow> irq_action \<times> irq_state" where
  "irq_handle s n = (case handlers s ! n of
     IrqUser p pc arg \<Rightarrow> (RunUser p pc (of_nat n) (unnz arg), s)
   | IrqKernel h \<Rightarrow> (RunKernel h, s)
   | IrqFree \<Rightarrow> (MaskedIrq, disable_irq n s))"

section \<open>Invariant\<close>

text \<open>Only claimed interrupts are enabled, and every claimed one is.\<close>

definition wf_irqs :: "irq_state \<Rightarrow> bool" where
  "wf_irqs s \<longleftrightarrow> length (handlers s) = IRQ_COUNT \<and> length (irq_enabled s) = IRQ_COUNT
     \<and> (\<forall>n < IRQ_COUNT. irq_enabled s ! n \<longleftrightarrow> handlers s ! n \<noteq> IrqFree)"

lemmas irq_defs = enable_irq_def disable_irq_def set_handler_def

lemma wf_initial_irqs: "wf_irqs initial_irqs"
  by (simp add: wf_irqs_def initial_irqs_def)

lemma wf_irqs_claim: "wf_irqs s \<Longrightarrow> h \<noteq> IrqFree \<Longrightarrow> wf_irqs (enable_irq n (set_handler n h s))"
  by (auto simp: wf_irqs_def irq_defs nth_update_if)

lemma wf_irqs_free: "wf_irqs s \<Longrightarrow> wf_irqs (set_handler n IrqFree (disable_irq n s))"
  by (auto simp: wf_irqs_def irq_defs nth_update_if)

lemma release_fold:
  assumes "set ns \<subseteq> {..< length (handlers s)}" and "distinct ns"
    and "length (irq_enabled s) = length (handlers s)"
  shows "handlers (fold (release_step p) ns s) =
      map (\<lambda>n. if n \<in> set ns \<and> irq_owner (handlers s ! n) = Some p then IrqFree else handlers s ! n)
        [0 ..< length (handlers s)]"
    and "irq_enabled (fold (release_step p) ns s) =
      map (\<lambda>n. if n \<in> set ns \<and> irq_owner (handlers s ! n) = Some p then False else irq_enabled s ! n)
        [0 ..< length (handlers s)]"
  using assms
proof (induction ns arbitrary: s)
  case Nil
  { case 1 then show ?case by (simp add: map_nth) }
  { case (2 s) then have "irq_enabled s = map (\<lambda>n. irq_enabled s ! n) [0 ..< length (handlers s)]"
      by (metis map_nth)
    then show ?case by simp }
next
  case (Cons n ns)
  have h: "handlers (release_step p n s) = (if irq_owner (handlers s ! n) = Some p then (handlers s)[n := IrqFree] else handlers s)"
    "irq_enabled (release_step p n s) = (if irq_owner (handlers s ! n) = Some p then (irq_enabled s)[n := False] else irq_enabled s)" for s
    by (auto simp: release_step_def irq_defs)
  { case (1 s)
    let ?s = "release_step p n s"
    have "handlers (fold (release_step p) ns ?s) =
      map (\<lambda>k. if k \<in> set ns \<and> irq_owner (handlers ?s ! k) = Some p then IrqFree else handlers ?s ! k)
        [0 ..< length (handlers ?s)]"
      by (rule Cons.IH(1)) (use 1 in \<open>auto simp: h\<close>)
    then show ?case using 1 by (auto simp: h nth_update_if) }
  { case (2 s)
    let ?s = "release_step p n s"
    have "irq_enabled (fold (release_step p) ns ?s) =
      map (\<lambda>k. if k \<in> set ns \<and> irq_owner (handlers ?s ! k) = Some p then False else irq_enabled ?s ! k)
        [0 ..< length (handlers ?s)]"
      by (rule Cons.IH(2)) (use 2 in \<open>auto simp: h\<close>)
    then show ?case using 2 by (auto simp: h nth_update_if) }
qed

lemma release_interrupts_nth:
  assumes "wf_irqs s" and "n < IRQ_COUNT"
  shows "handlers (release_interrupts_for_pid s p) ! n =
      (if irq_owner (handlers s ! n) = Some p then IrqFree else handlers s ! n)"
    and "irq_enabled (release_interrupts_for_pid s p) ! n =
      (irq_owner (handlers s ! n) \<noteq> Some p \<and> irq_enabled s ! n)"
  using release_fold [OF _ distinct_upt, of 0 "length (handlers s)" s p] assms
  by (simp_all add: release_interrupts_for_pid_def wf_irqs_def atLeast0LessThan)

lemma wf_release_interrupts:
  assumes "wf_irqs s"
  shows "wf_irqs (release_interrupts_for_pid s p)"
proof -
  have "length (handlers (release_interrupts_for_pid s p)) = IRQ_COUNT"
    "length (irq_enabled (release_interrupts_for_pid s p)) = IRQ_COUNT"
    using release_fold [OF _ distinct_upt, of 0 "length (handlers s)" s p] assms
    by (simp_all add: release_interrupts_for_pid_def wf_irqs_def atLeast0LessThan)
  then show ?thesis using release_interrupts_nth [OF assms] assms
    by (auto simp: wf_irqs_def)
qed

section \<open>Steps\<close>

inductive irq_step :: "irq_state \<Rightarrow> irq_state \<Rightarrow> bool" where
  "interrupt_claim_kernel s n h = (r, s') \<Longrightarrow> irq_step s s'"
| "interrupt_claim_user s n p pc arg = (r, s') \<Longrightarrow> irq_step s s'"
| "interrupt_free s n p = (r, s') \<Longrightarrow> irq_step s s'"
| "irq_step s (release_interrupts_for_pid s p)"
| "irq_handle s n = (a, s') \<Longrightarrow> irq_step s s'"

lemma irq_step_wf: "irq_step s s' \<Longrightarrow> wf_irqs s \<Longrightarrow> wf_irqs s'"
proof (induction rule: irq_step.induct)
  case (4 s p)
  then show ?case by (rule wf_release_interrupts)
next
  case (5 s n a s')
  then show ?case
    by (cases "handlers s ! n"; cases "n < IRQ_COUNT")
      (auto simp: irq_handle_def wf_irqs_def disable_irq_def nth_update_if split: if_splits)
qed (auto simp: interrupt_claim_kernel_def interrupt_claim_user_def interrupt_free_def
    wf_irqs_claim wf_irqs_free split: if_splits)

section \<open>Properties\<close>

text \<open>
  C36: in every state the interrupt table reaches, an interrupt is enabled iff it has a
  handler, so that an interrupt without a handler cannot storm; and a process' exit frees
  exactly the interrupts it owned.
\<close>

theorem irq_enabled_iff_claimed:
  assumes "irq_step\<^sup>*\<^sup>* initial_irqs s" and "n < IRQ_COUNT"
  shows "(irq_enabled s ! n \<longleftrightarrow> handlers s ! n \<noteq> IrqFree)
    \<and> handlers (release_interrupts_for_pid s p) ! n =
        (if irq_owner (handlers s ! n) = Some p then IrqFree else handlers s ! n)"
proof -
  have "wf_irqs s"
    using assms(1) by (induction rule: rtranclp_induct) (auto intro: wf_initial_irqs irq_step_wf)
  then show ?thesis using assms(2) release_interrupts_nth by (simp add: wf_irqs_def)
qed

theorem irq_enabled_iff_claimed_witness:
  "irq_enabled (snd (interrupt_claim_user initial_irqs 5 7 0x1000 None)) ! 5"
proof -
  let ?s = "snd (interrupt_claim_user initial_irqs 5 7 0x1000 None)"
  have "irq_step initial_irqs ?s"
    by (rule irq_step.intros(2) [where r = "fst (interrupt_claim_user initial_irqs 5 7 0x1000 None)"]) simp
  from irq_enabled_iff_claimed [OF r_into_rtranclp [of irq_step, OF this], of 5]
  show ?thesis by (simp add: interrupt_claim_user_def initial_irqs_def IRQ_COUNT_def irq_defs)
qed

end
