(* ===== verification/System_Calls.thy ===== *)
theory System_Calls
  imports Messages
begin

text \<open>
  The system call ABI (\<open>SysCall\<close>, \<open>SysCallNumber\<close> in \<open>xous-rs/src/syscall.rs\<close>, \<open>ThreadInit\<close> and
  \<open>ProcessInit\<close> in \<open>arch/arm/mod.rs\<close>): the calls as a datatype, their encoding into eight
  registers and the kernel's decoder. Constructors carry the prefix \<open>S_\<close>, call numbers \<open>N_\<close>.
\<close>

section \<open>Call numbers\<close>

datatype (plugins only: code size) syscall_number =
    N_MapMemory | N_Yield | N_SetThreadPriority | N_ClaimInterrupt | N_FreeInterrupt | N_FutexWait
  | N_FutexWake | N_UpdateMemoryFlags | N_CreateServerWithAddress | N_ReceiveMessage
  | N_SendMessage | N_Connect | N_CreateThread | N_UnmapMemory | N_ReturnMemory | N_CreateProcess
  | N_TerminateProcess | N_Shutdown | N_TrySendMessage | N_TryConnect | N_ReturnScalar1
  | N_ReturnScalar2 | N_TryReceiveMessage | N_CreateServer | N_ConnectForProcess
  | N_CreateServerId | N_GetThreadId | N_GetProcessId | N_DestroyServer | N_Disconnect
  | N_JoinThread | N_GetRemoteProcessId | N_GetServerOwner | N_VirtToPhys | N_ReturnScalar5
  | N_VirtToPhysPid | N_GetAppId | N_AllowMessagesSID | N_AllowMessagesCID | N_InvalidateCache
  | N_PowerManagement | N_AppIdToPid | N_ServerEventHandler | N_MirrorMemoryToPid | N_DebugCommand
  | N_GetSystemStats | N_TerminatePid | N_SystemEventHandler | N_AppendPanicMessage
  | N_GetPanicMessage | N_ResolveMessagePermission | N_GetPermissionRequestData | N_Invalid

fun number_discr :: "syscall_number \<Rightarrow> usize" where
  "number_discr N_MapMemory = 2"
| "number_discr N_Yield = 3"
| "number_discr N_SetThreadPriority = 4"
| "number_discr N_ClaimInterrupt = 5"
| "number_discr N_FreeInterrupt = 6"
| "number_discr N_FutexWait = 7"
| "number_discr N_FutexWake = 8"
| "number_discr N_UpdateMemoryFlags = 12"
| "number_discr N_CreateServerWithAddress = 14"
| "number_discr N_ReceiveMessage = 15"
| "number_discr N_SendMessage = 16"
| "number_discr N_Connect = 17"
| "number_discr N_CreateThread = 18"
| "number_discr N_UnmapMemory = 19"
| "number_discr N_ReturnMemory = 20"
| "number_discr N_CreateProcess = 21"
| "number_discr N_TerminateProcess = 22"
| "number_discr N_Shutdown = 23"
| "number_discr N_TrySendMessage = 24"
| "number_discr N_TryConnect = 25"
| "number_discr N_ReturnScalar1 = 26"
| "number_discr N_ReturnScalar2 = 27"
| "number_discr N_TryReceiveMessage = 28"
| "number_discr N_CreateServer = 29"
| "number_discr N_ConnectForProcess = 30"
| "number_discr N_CreateServerId = 31"
| "number_discr N_GetThreadId = 32"
| "number_discr N_GetProcessId = 33"
| "number_discr N_DestroyServer = 34"
| "number_discr N_Disconnect = 35"
| "number_discr N_JoinThread = 36"
| "number_discr N_GetRemoteProcessId = 37"
| "number_discr N_GetServerOwner = 38"
| "number_discr N_VirtToPhys = 39"
| "number_discr N_ReturnScalar5 = 40"
| "number_discr N_VirtToPhysPid = 42"
| "number_discr N_GetAppId = 43"
| "number_discr N_AllowMessagesSID = 44"
| "number_discr N_AllowMessagesCID = 45"
| "number_discr N_InvalidateCache = 46"
| "number_discr N_PowerManagement = 47"
| "number_discr N_AppIdToPid = 48"
| "number_discr N_ServerEventHandler = 49"
| "number_discr N_MirrorMemoryToPid = 50"
| "number_discr N_DebugCommand = 51"
| "number_discr N_GetSystemStats = 52"
| "number_discr N_TerminatePid = 53"
| "number_discr N_SystemEventHandler = 54"
| "number_discr N_AppendPanicMessage = 55"
| "number_discr N_GetPanicMessage = 56"
| "number_discr N_ResolveMessagePermission = 57"
| "number_discr N_GetPermissionRequestData = 58"
| "number_discr N_Invalid = 59"

definition number_from :: "usize \<Rightarrow> syscall_number" where
  "number_from val =
     (if val = 2 then N_MapMemory
      else if val = 3 then N_Yield
      else if val = 4 then N_SetThreadPriority
      else if val = 5 then N_ClaimInterrupt
      else if val = 6 then N_FreeInterrupt
      else if val = 7 then N_FutexWait
      else if val = 8 then N_FutexWake
      else if val = 12 then N_UpdateMemoryFlags
      else if val = 14 then N_CreateServerWithAddress
      else if val = 15 then N_ReceiveMessage
      else if val = 16 then N_SendMessage
      else if val = 17 then N_Connect
      else if val = 18 then N_CreateThread
      else if val = 19 then N_UnmapMemory
      else if val = 20 then N_ReturnMemory
      else if val = 21 then N_CreateProcess
      else if val = 22 then N_TerminateProcess
      else if val = 23 then N_Shutdown
      else if val = 24 then N_TrySendMessage
      else if val = 25 then N_TryConnect
      else if val = 26 then N_ReturnScalar1
      else if val = 27 then N_ReturnScalar2
      else if val = 28 then N_TryReceiveMessage
      else if val = 29 then N_CreateServer
      else if val = 30 then N_ConnectForProcess
      else if val = 31 then N_CreateServerId
      else if val = 32 then N_GetThreadId
      else if val = 33 then N_GetProcessId
      else if val = 34 then N_DestroyServer
      else if val = 35 then N_Disconnect
      else if val = 36 then N_JoinThread
      else if val = 37 then N_GetRemoteProcessId
      else if val = 38 then N_GetServerOwner
      else if val = 39 then N_VirtToPhys
      else if val = 40 then N_ReturnScalar5
      else if val = 42 then N_VirtToPhysPid
      else if val = 43 then N_GetAppId
      else if val = 44 then N_AllowMessagesSID
      else if val = 45 then N_AllowMessagesCID
      else if val = 46 then N_InvalidateCache
      else if val = 47 then N_PowerManagement
      else if val = 48 then N_AppIdToPid
      else if val = 49 then N_ServerEventHandler
      else if val = 50 then N_MirrorMemoryToPid
      else if val = 51 then N_DebugCommand
      else if val = 52 then N_GetSystemStats
      else if val = 53 then N_TerminatePid
      else if val = 54 then N_SystemEventHandler
      else if val = 55 then N_AppendPanicMessage
      else if val = 56 then N_GetPanicMessage
      else if val = 57 then N_ResolveMessagePermission
      else if val = 58 then N_GetPermissionRequestData
      else N_Invalid)"

lemma number_roundtrip [simp]: "number_from (number_discr n) = n"
  by (cases n) (simp_all add: number_from_def)

declare number_discr.simps [simp del]

section \<open>Calls\<close>

type_synonym message_range = "message_id \<times> message_id"

record thread_init =
  ti_call :: usize
  ti_stack :: memory_range
  ti_arg1 :: usize
  ti_arg2 :: usize
  ti_arg3 :: usize
  ti_arg4 :: usize

record process_init =
  pi_elf :: memory_range
  pi_name_addr :: usize
  pi_app_id :: app_id

datatype permission_request_field = Target | SenderAppId

fun field_to_usize :: "permission_request_field \<Rightarrow> usize" where
  "field_to_usize Target = 0"
| "field_to_usize SenderAppId = 1"

definition field_from_usize :: "usize \<Rightarrow> permission_request_field" where
  "field_from_usize v = (if v = 1 then SenderAppId else Target)"

text \<open>Exit codes of type \<open>i32\<close> are kept as the word they are cast to; ids of type \<open>u16\<close> are
  natural numbers, with the casts written out.\<close>

datatype (plugins only: code size) syscall =
    S_MapMemory "usize option" "usize option" usize memory_flags
  | S_UnmapMemory memory_range
  | S_UpdateMemoryFlags memory_range memory_flags "pid option"
  | S_Yield
  | S_SetThreadPriority thread_priority
  | S_ReceiveMessage sid
  | S_TryReceiveMessage sid
  | S_ClaimInterrupt usize usize "usize option"
  | S_FreeInterrupt usize
  | S_FutexWait usize usize
  | S_FutexWake usize usize
  | S_CreateServerWithAddress sid message_range
  | S_Connect sid
  | S_TryConnect sid
  | S_SendMessage cid message
  | S_TrySendMessage cid message
  | S_ReturnMemory message_sender memory_range "usize option" "usize option"
  | S_ReturnScalar1 message_sender usize
  | S_ReturnScalar2 message_sender usize usize
  | S_CreateThread thread_init
  | S_CreateProcess process_init
  | S_TerminateProcess u32
  | S_TerminatePid pid u32
  | S_Shutdown u32
  | S_CreateServer
  | S_CreateServerId
  | S_ConnectForProcess pid sid
  | S_GetRemoteProcessId cid
  | S_GetServerOwner sid
  | S_GetThreadId
  | S_GetProcessId
  | S_DestroyServer sid
  | S_Disconnect cid
  | S_JoinThread usize
  | S_VirtToPhys usize
  | S_ReturnScalar5 message_sender usize usize usize usize usize
  | S_VirtToPhysPid pid usize
  | S_GetAppId pid
  | S_AllowMessagesSID sid message_range
  | S_AllowMessagesCID pid cid message_range
  | S_ResolveMessagePermission nat bool
  | S_GetPermissionRequestData nat permission_request_field
  | S_FlushCache memory_range cache_operation
  | S_PowerManagement dram_idle_mode
  | S_AppIdToPid app_id
  | S_ServerEventHandler server_event sid message_id
  | S_MirrorMemoryToPid memory_range pid
  | S_DebugCommand memory_range u8
  | S_GetSystemStats system_stat
  | S_SystemEventHandler system_event sid message_id
  | S_AppendPanicMessage usize usize usize usize usize usize usize
  | S_GetPanicMessage memory_range
  | S_Invalid usize usize usize usize usize usize usize

section \<open>Encoding\<close>

text \<open>The encodings of the two compound arguments (\<open>arch/arm/mod.rs\<close>).\<close>

definition thread_to_args :: "usize \<Rightarrow> thread_init \<Rightarrow> usize8" where
  "thread_to_args n init =
     (n, ti_call init, mr_addr (ti_stack init), mr_size (ti_stack init),
      ti_arg1 init, ti_arg2 init, ti_arg3 init, ti_arg4 init)"

definition process_init_to_args :: "process_init \<Rightarrow> usize7" where
  "process_init_to_args src = (case app_id_to_words (pi_app_id src) of (w0, w1, w2, w3) \<Rightarrow>
     (mr_addr (pi_elf src), mr_size (pi_elf src), pi_name_addr src, w0, w1, w2, w3))"

text \<open>
  \<open>SysCall::as_args\<close>, in three consecutive parts of its \<open>match\<close>: a call that a part does not
  list is encoded by the next one. The last clause of the last part is never reached: every
  call is listed in one of the parts.
\<close>

definition as_args_3 :: "syscall \<Rightarrow> usize8" where
  "as_args_3 call = (case call of
       S_GetAppId p \<Rightarrow> (number_discr N_GetAppId, of_nat p, 0, 0, 0, 0, 0, 0)
     | S_ServerEventHandler event s i \<Rightarrow>
         (case sid_to_u32 s of (a, b, c, d) \<Rightarrow>
            (number_discr N_ServerEventHandler, of_nat (server_event_discr event), a, b, c, d, i, 0))
     | S_AllowMessagesSID s (lo, hi) \<Rightarrow>
         (case sid_to_u32 s of (a, b, c, d) \<Rightarrow>
            (number_discr N_AllowMessagesSID, a, b, c, d, lo, hi, 0))
     | S_AllowMessagesCID p c (lo, hi) \<Rightarrow>
         (number_discr N_AllowMessagesCID, of_nat p, c, lo, hi, 0, 0, 0)
     | S_ResolveMessagePermission request_id allow \<Rightarrow>
         (number_discr N_ResolveMessagePermission, of_nat request_id, if allow then 1 else 0,
          0, 0, 0, 0, 0)
     | S_FlushCache mem op \<Rightarrow>
         (number_discr N_InvalidateCache, mr_addr mem, mr_size mem, cache_operation_discr op,
          0, 0, 0, 0)
     | S_PowerManagement dram \<Rightarrow>
         (number_discr N_PowerManagement, dram_idle_mode_discr dram, 0, 0, 0, 0, 0, 0)
     | S_AppIdToPid i \<Rightarrow>
         (case app_id_to_words i of (a, b, c, d) \<Rightarrow>
            (number_discr N_AppIdToPid, a, b, c, d, 0, 0, 0))
     | S_MirrorMemoryToPid mem p \<Rightarrow>
         (number_discr N_MirrorMemoryToPid, mr_addr mem, mr_size mem, of_nat p, 0, 0, 0, 0)
     | S_DebugCommand buf cmd \<Rightarrow>
         (number_discr N_DebugCommand, mr_addr buf, mr_size buf, ucast cmd, 0, 0, 0, 0)
     | S_GetSystemStats stat \<Rightarrow>
         (number_discr N_GetSystemStats, system_stat_discr stat, 0, 0, 0, 0, 0, 0)
     | S_SystemEventHandler event s i \<Rightarrow>
         (case sid_to_u32 s of (a, b, c, d) \<Rightarrow>
            (number_discr N_SystemEventHandler, of_nat (system_event_discr event), a, b, c, d, i, 0))
     | S_AppendPanicMessage len a2 a3 a4 a5 a6 a7 \<Rightarrow>
         (number_discr N_AppendPanicMessage, len, a2, a3, a4, a5, a6, a7)
     | S_GetPanicMessage buf \<Rightarrow>
         (number_discr N_GetPanicMessage, mr_addr buf, mr_size buf, 0, 0, 0, 0, 0)
     | S_GetPermissionRequestData request_id field \<Rightarrow>
         (number_discr N_GetPermissionRequestData, of_nat request_id, field_to_usize field,
          0, 0, 0, 0, 0)
     | S_TerminatePid p exit_code \<Rightarrow>
         (number_discr N_TerminatePid, of_nat p, exit_code, 0, 0, 0, 0, 0)
     | S_Invalid a1 a2 a3 a4 a5 a6 a7 \<Rightarrow>
         (number_discr N_Invalid, a1, a2, a3, a4, a5, a6, a7)
     | _ \<Rightarrow> (number_discr N_Invalid, 0, 0, 0, 0, 0, 0, 0))"

definition as_args_2 :: "syscall \<Rightarrow> usize8" where
  "as_args_2 call = (case call of
       S_SendMessage c m \<Rightarrow> (number_discr N_SendMessage, c, message_to_args m)
     | S_ReturnMemory sender buf offset valid \<Rightarrow>
         (number_discr N_ReturnMemory, sender, mr_addr buf, mr_size buf, unnz offset, unnz valid, 0, 0)
     | S_CreateThread init \<Rightarrow> thread_to_args (number_discr N_CreateThread) init
     | S_CreateProcess init \<Rightarrow> (number_discr N_CreateProcess, process_init_to_args init)
     | S_TerminateProcess exit_code \<Rightarrow>
         (number_discr N_TerminateProcess, exit_code, 0, 0, 0, 0, 0, 0)
     | S_Shutdown exit_code \<Rightarrow> (number_discr N_Shutdown, exit_code, 0, 0, 0, 0, 0, 0)
     | S_TryConnect s \<Rightarrow>
         (case sid_to_u32 s of (a, b, c, d) \<Rightarrow> (number_discr N_TryConnect, a, b, c, d, 0, 0, 0))
     | S_TrySendMessage c m \<Rightarrow> (number_discr N_TrySendMessage, c, message_to_args m)
     | S_ReturnScalar1 sender arg1 \<Rightarrow>
         (number_discr N_ReturnScalar1, sender, arg1, 0, 0, 0, 0, 0)
     | S_ReturnScalar2 sender arg1 arg2 \<Rightarrow>
         (number_discr N_ReturnScalar2, sender, arg1, arg2, 0, 0, 0, 0)
     | S_GetThreadId \<Rightarrow> (number_discr N_GetThreadId, 0, 0, 0, 0, 0, 0, 0)
     | S_GetProcessId \<Rightarrow> (number_discr N_GetProcessId, 0, 0, 0, 0, 0, 0, 0)
     | S_DestroyServer s \<Rightarrow>
         (case sid_to_u32 s of (a, b, c, d) \<Rightarrow> (number_discr N_DestroyServer, a, b, c, d, 0, 0, 0))
     | S_Disconnect c \<Rightarrow> (number_discr N_Disconnect, c, 0, 0, 0, 0, 0, 0)
     | S_JoinThread t \<Rightarrow> (number_discr N_JoinThread, t, 0, 0, 0, 0, 0, 0)
     | S_GetRemoteProcessId c \<Rightarrow> (number_discr N_GetRemoteProcessId, c, 0, 0, 0, 0, 0, 0)
     | S_GetServerOwner s \<Rightarrow>
         (case sid_to_u32 s of (a, b, c, d) \<Rightarrow> (number_discr N_GetServerOwner, a, b, c, d, 0, 0, 0))
     | S_VirtToPhys vaddr \<Rightarrow> (number_discr N_VirtToPhys, vaddr, 0, 0, 0, 0, 0, 0)
     | S_ReturnScalar5 sender arg1 arg2 arg3 arg4 arg5 \<Rightarrow>
         (number_discr N_ReturnScalar5, sender, arg1, arg2, arg3, arg4, arg5, 0)
     | S_VirtToPhysPid p vaddr \<Rightarrow>
         (number_discr N_VirtToPhysPid, of_nat p, vaddr, 0, 0, 0, 0, 0)
     | c \<Rightarrow> as_args_3 c)"

definition as_args :: "syscall \<Rightarrow> usize8" where
  "as_args call = (case call of
       S_MapMemory a1 a2 a3 a4 \<Rightarrow>
         (number_discr N_MapMemory, unnz a1, unnz a2, a3, bits a4, 0, 0, 0)
     | S_UnmapMemory rng \<Rightarrow>
         (number_discr N_UnmapMemory, mr_addr rng, mr_size rng, 0, 0, 0, 0, 0)
     | S_Yield \<Rightarrow> (number_discr N_Yield, 0, 0, 0, 0, 0, 0, 0)
     | S_SetThreadPriority priority \<Rightarrow>
         (number_discr N_SetThreadPriority, of_nat (prio_index priority), 0, 0, 0, 0, 0, 0)
     | S_ReceiveMessage s \<Rightarrow>
         (case sid_to_u32 s of (a, b, c, d) \<Rightarrow> (number_discr N_ReceiveMessage, a, b, c, d, 0, 0, 0))
     | S_TryReceiveMessage s \<Rightarrow>
         (case sid_to_u32 s of (a, b, c, d) \<Rightarrow> (number_discr N_TryReceiveMessage, a, b, c, d, 0, 0, 0))
     | S_ConnectForProcess p s \<Rightarrow>
         (case sid_to_u32 s of (a, b, c, d) \<Rightarrow>
            (number_discr N_ConnectForProcess, of_nat p, a, b, c, d, 0, 0))
     | S_CreateServerId \<Rightarrow> (number_discr N_CreateServerId, 0, 0, 0, 0, 0, 0, 0)
     | S_ClaimInterrupt a1 a2 a3 \<Rightarrow>
         (number_discr N_ClaimInterrupt, a1, a2, unnz a3, 0, 0, 0, 0)
     | S_FreeInterrupt a1 \<Rightarrow> (number_discr N_FreeInterrupt, a1, 0, 0, 0, 0, 0, 0)
     | S_FutexWait addr val \<Rightarrow> (number_discr N_FutexWait, addr, val, 0, 0, 0, 0, 0)
     | S_FutexWake addr n \<Rightarrow> (number_discr N_FutexWake, addr, n, 0, 0, 0, 0, 0)
     | S_UpdateMemoryFlags a1 a2 a3 \<Rightarrow>
         (number_discr N_UpdateMemoryFlags, mr_addr a1, mr_size a1, bits a2,
          (case a3 of Some m \<Rightarrow> of_nat m | None \<Rightarrow> 0), 0, 0, 0)
     | S_CreateServerWithAddress s (lo, hi) \<Rightarrow>
         (case sid_to_u32 s of (a, b, c, d) \<Rightarrow>
            (number_discr N_CreateServerWithAddress, a, b, c, d, lo, hi, 0))
     | S_CreateServer \<Rightarrow> (number_discr N_CreateServer, 0, 0, 0, 0, 0, 0, 0)
     | S_Connect s \<Rightarrow>
         (case sid_to_u32 s of (a, b, c, d) \<Rightarrow> (number_discr N_Connect, a, b, c, d, 0, 0, 0))
     | c \<Rightarrow> as_args_2 c)"


section \<open>Decoding\<close>

definition PAGE_SIZE :: usize where "PAGE_SIZE = 4096"

definition args_to_thread ::
    "usize \<Rightarrow> usize \<Rightarrow> usize \<Rightarrow> usize \<Rightarrow> usize \<Rightarrow> usize \<Rightarrow> usize \<Rightarrow> error + thread_init" where
  "args_to_thread a1 a2 a3 a4 a5 a6 a7 =
     (if a2 AND (PAGE_SIZE - 1) \<noteq> 0 \<or> a3 AND (PAGE_SIZE - 1) \<noteq> 0 then Inl BadAlignment
      else (case memory_range_new a2 a3 of
              Inl _ \<Rightarrow> Inl InvalidSyscall
            | Inr r \<Rightarrow> Inr \<lparr>ti_call = a1, ti_stack = r, ti_arg1 = a4, ti_arg2 = a5,
                            ti_arg3 = a6, ti_arg4 = a7\<rparr>))"

definition process_init_from_args :: "usize7 \<Rightarrow> error + process_init" where
  "process_init_from_args src = (case src of (s0, s1, s2, s3, s4, s5, s6) \<Rightarrow>
     (case memory_range_new s0 s1 of
        Inl _ \<Rightarrow> Inl OutOfMemory
      | Inr elf \<Rightarrow>
          if s2 = 0 then Inl OutOfMemory
          else Inr \<lparr>pi_elf = elf, pi_name_addr = s2,
                    pi_app_id = app_id_from_words (s3, s4, s5, s6)\<rparr>))"

text \<open>
  The \<open>?\<close> operator on a range and on a PID: a bad range returns its own error
  (\<open>BadAddress\<close>), a zero PID byte returns \<open>InvalidSyscall\<close>.
\<close>

definition with_range :: "usize \<Rightarrow> usize \<Rightarrow> (memory_range \<Rightarrow> error + 'a) \<Rightarrow> error + 'a" where
  "with_range a s f = (case memory_range_new a s of Inl e \<Rightarrow> Inl e | Inr r \<Rightarrow> f r)"

definition with_pid :: "usize \<Rightarrow> (pid \<Rightarrow> error + 'a) \<Rightarrow> error + 'a" where
  "with_pid a f = (case pid_new a of None \<Rightarrow> Inl InvalidSyscall | Some p \<Rightarrow> f p)"

text \<open>
  The \<open>TrySendMessage\<close> arm. Unlike \<open>SendMessage\<close>, which decodes through \<open>Message::try_from\<close>
  and turns every failure into an \<open>Invalid\<close> call, it returns the error of a bad range.
\<close>

definition try_send_from_args ::
    "usize \<Rightarrow> usize \<Rightarrow> usize \<Rightarrow> usize \<Rightarrow> usize \<Rightarrow> usize \<Rightarrow> usize \<Rightarrow> error + syscall" where
  "try_send_from_args a1 a2 a3 a4 a5 a6 a7 =
     (let mem = (\<lambda>k. with_range a4 a5 (\<lambda>r. Inr (S_TrySendMessage a1
                   (k \<lparr>mm_id = a3, mm_buf = r, mm_offset = nz a6, mm_valid = nz a7\<rparr>))));
          sc = \<lparr>sm_id = a3, sm_arg1 = a4, sm_arg2 = a5, sm_arg3 = a6, sm_arg4 = a7\<rparr>
      in if a2 = 1 then mem MutableBorrow
         else if a2 = 2 then mem Borrow
         else if a2 = 3 then mem Move
         else if a2 = 4 then Inr (S_TrySendMessage a1 (Scalar sc))
         else if a2 = 5 then Inr (S_TrySendMessage a1 (BlockingScalar sc))
         else if a2 = 6 then mem BlockingMove
         else Inr (S_Invalid a1 a2 a3 a4 a5 a6 a7))"

text \<open>\<open>SysCall::from_args\<close>, in two consecutive parts of its \<open>match\<close> again.\<close>

definition from_args_2 :: "usize8 \<Rightarrow> error + syscall" where
  "from_args_2 src = (case src of (a0, a1, a2, a3, a4, a5, a6, a7) \<Rightarrow>
     (case number_from a0 of
        N_ReturnScalar1 \<Rightarrow> Inr (S_ReturnScalar1 a1 a2)
      | N_ReturnScalar2 \<Rightarrow> Inr (S_ReturnScalar2 a1 a2 a3)
      | N_ConnectForProcess \<Rightarrow>
          with_pid a1 (\<lambda>p. Inr (S_ConnectForProcess p (sid_from_u32 a2 a3 a4 a5)))
      | N_CreateServerId \<Rightarrow> Inr S_CreateServerId
      | N_GetThreadId \<Rightarrow> Inr S_GetThreadId
      | N_GetProcessId \<Rightarrow> Inr S_GetProcessId
      | N_DestroyServer \<Rightarrow> Inr (S_DestroyServer (sid_from_u32 a1 a2 a3 a4))
      | N_Disconnect \<Rightarrow> Inr (S_Disconnect a1)
      | N_JoinThread \<Rightarrow> Inr (S_JoinThread a1)
      | N_GetRemoteProcessId \<Rightarrow> Inr (S_GetRemoteProcessId a1)
      | N_GetServerOwner \<Rightarrow> Inr (S_GetServerOwner (sid_from_u32 a1 a2 a3 a4))
      | N_VirtToPhys \<Rightarrow> Inr (S_VirtToPhys a1)
      | N_VirtToPhysPid \<Rightarrow>
          (case pid_from_usize a1 of Inl e \<Rightarrow> Inl e | Inr p \<Rightarrow> Inr (S_VirtToPhysPid p a2))
      | N_ReturnScalar5 \<Rightarrow> Inr (S_ReturnScalar5 a1 a2 a3 a4 a5 a6)
      | N_GetAppId \<Rightarrow> with_pid a1 (\<lambda>p. Inr (S_GetAppId p))
      | N_AllowMessagesSID \<Rightarrow> Inr (S_AllowMessagesSID (sid_from_u32 a1 a2 a3 a4) (a5, a6))
      | N_AllowMessagesCID \<Rightarrow> with_pid a1 (\<lambda>p. Inr (S_AllowMessagesCID p a2 (a3, a4)))
      | N_ResolveMessagePermission \<Rightarrow>
          Inr (S_ResolveMessagePermission (unat a1 mod 2 ^ 16) (a2 \<noteq> 0))
      | N_GetPermissionRequestData \<Rightarrow>
          Inr (S_GetPermissionRequestData (unat a1 mod 2 ^ 16) (field_from_usize a2))
      | N_InvalidateCache \<Rightarrow>
          with_range a1 a2 (\<lambda>r. Inr (S_FlushCache r (cache_operation_from a3)))
      | N_PowerManagement \<Rightarrow> Inr (S_PowerManagement (dram_idle_mode_from a1))
      | N_AppIdToPid \<Rightarrow> Inr (S_AppIdToPid (app_id_from_words (a1, a2, a3, a4)))
      | N_ServerEventHandler \<Rightarrow>
          Inr (S_ServerEventHandler (server_event_from a1) (sid_from_u32 a2 a3 a4 a5) a6)
      | N_MirrorMemoryToPid \<Rightarrow>
          with_range a1 a2 (\<lambda>r. with_pid a3 (\<lambda>p. Inr (S_MirrorMemoryToPid r p)))
      | N_DebugCommand \<Rightarrow> with_range a1 a2 (\<lambda>r. Inr (S_DebugCommand r (ucast a3)))
      | N_GetSystemStats \<Rightarrow> Inr (S_GetSystemStats (system_stat_from a1))
      | N_SystemEventHandler \<Rightarrow>
          Inr (S_SystemEventHandler (system_event_from a1) (sid_from_u32 a2 a3 a4 a5) a6)
      | N_AppendPanicMessage \<Rightarrow> Inr (S_AppendPanicMessage a1 a2 a3 a4 a5 a6 a7)
      | N_GetPanicMessage \<Rightarrow> with_range a1 a2 (\<lambda>r. Inr (S_GetPanicMessage r))
      | N_TerminatePid \<Rightarrow> with_pid a1 (\<lambda>p. Inr (S_TerminatePid p a2))
      | _ \<Rightarrow> Inr (S_Invalid a1 a2 a3 a4 a5 a6 a7)))"

definition from_args :: "usize8 \<Rightarrow> error + syscall" where
  "from_args src = (case src of (a0, a1, a2, a3, a4, a5, a6, a7) \<Rightarrow>
     (case number_from a0 of
        N_MapMemory \<Rightarrow>
          if a3 = 0 then Inl InvalidSyscall
          else Inr (S_MapMemory (nz a1) (nz a2) a3 (flags_from_bits a4))
      | N_UnmapMemory \<Rightarrow>
          (case memory_range_new a1 a2 of
             Inl _ \<Rightarrow> Inl InvalidSyscall | Inr r \<Rightarrow> Inr (S_UnmapMemory r))
      | N_Yield \<Rightarrow> Inr S_Yield
      | N_SetThreadPriority \<Rightarrow> Inr (S_SetThreadPriority (prio_from_usize a1))
      | N_ReceiveMessage \<Rightarrow> Inr (S_ReceiveMessage (sid_from_u32 a1 a2 a3 a4))
      | N_TryReceiveMessage \<Rightarrow> Inr (S_TryReceiveMessage (sid_from_u32 a1 a2 a3 a4))
      | N_ClaimInterrupt \<Rightarrow>
          if a2 = 0 then Inl InvalidSyscall else Inr (S_ClaimInterrupt a1 a2 (nz a3))
      | N_FreeInterrupt \<Rightarrow> Inr (S_FreeInterrupt a1)
      | N_FutexWait \<Rightarrow> Inr (S_FutexWait a1 a2)
      | N_FutexWake \<Rightarrow> Inr (S_FutexWake a1 a2)
      | N_UpdateMemoryFlags \<Rightarrow>
          with_range a1 a2 (\<lambda>r. Inr (S_UpdateMemoryFlags r (flags_from_bits a3) (pid_new a4)))
      | N_CreateServerWithAddress \<Rightarrow>
          Inr (S_CreateServerWithAddress (sid_from_u32 a1 a2 a3 a4) (a5, a6))
      | N_CreateServer \<Rightarrow> Inr S_CreateServer
      | N_Connect \<Rightarrow> Inr (S_Connect (sid_from_u32 a1 a2 a3 a4))
      | N_SendMessage \<Rightarrow>
          (case message_try_from (a2, a3, a4, a5, a6, a7) of
             Some m \<Rightarrow> Inr (S_SendMessage a1 m)
           | None \<Rightarrow> Inr (S_Invalid a1 a2 a3 a4 a5 a6 a7))
      | N_ReturnMemory \<Rightarrow>
          with_range a2 a3 (\<lambda>r. Inr (S_ReturnMemory a1 r (nz a4) (nz a5)))
      | N_CreateThread \<Rightarrow>
          (case args_to_thread a1 a2 a3 a4 a5 a6 a7 of
             Inl e \<Rightarrow> Inl e | Inr i \<Rightarrow> Inr (S_CreateThread i))
      | N_CreateProcess \<Rightarrow>
          (case process_init_from_args (a1, a2, a3, a4, a5, a6, a7) of
             Inl e \<Rightarrow> Inl e | Inr i \<Rightarrow> Inr (S_CreateProcess i))
      | N_TerminateProcess \<Rightarrow> Inr (S_TerminateProcess a1)
      | N_Shutdown \<Rightarrow> Inr (S_Shutdown a1)
      | N_TryConnect \<Rightarrow> Inr (S_TryConnect (sid_from_u32 a1 a2 a3 a4))
      | N_TrySendMessage \<Rightarrow> try_send_from_args a1 a2 a3 a4 a5 a6 a7
      | _ \<Rightarrow> from_args_2 src))"


section \<open>Classification\<close>

definition has_memory :: "syscall \<Rightarrow> bool" where
  "has_memory call = (case call of
       S_TrySendMessage _ msg \<Rightarrow> msg_has_memory msg
     | S_SendMessage _ msg \<Rightarrow> msg_has_memory msg
     | S_ReturnMemory _ _ _ _ \<Rightarrow> True
     | _ \<Rightarrow> False)"

fun msg_is_move :: "message \<Rightarrow> bool" where
  "msg_is_move (Move _) = True" | "msg_is_move _ = False"

fun msg_is_blocking_move :: "message \<Rightarrow> bool" where
  "msg_is_blocking_move (BlockingMove _) = True" | "msg_is_blocking_move _ = False"

fun msg_is_borrow :: "message \<Rightarrow> bool" where
  "msg_is_borrow (Borrow _) = True" | "msg_is_borrow _ = False"

fun msg_is_mutableborrow :: "message \<Rightarrow> bool" where
  "msg_is_mutableborrow (MutableBorrow _) = True" | "msg_is_mutableborrow _ = False"

definition on_message :: "(message \<Rightarrow> bool) \<Rightarrow> syscall \<Rightarrow> bool" where
  "on_message P call = (case call of
       S_TrySendMessage _ msg \<Rightarrow> P msg
     | S_SendMessage _ msg \<Rightarrow> P msg
     | _ \<Rightarrow> False)"

definition is_move :: "syscall \<Rightarrow> bool" where "is_move = on_message msg_is_move"
definition is_blocking_move :: "syscall \<Rightarrow> bool" where
  "is_blocking_move = on_message msg_is_blocking_move"
definition is_borrow :: "syscall \<Rightarrow> bool" where "is_borrow = on_message msg_is_borrow"
definition is_mutableborrow :: "syscall \<Rightarrow> bool" where
  "is_mutableborrow = on_message msg_is_mutableborrow"

definition is_return_memory :: "syscall \<Rightarrow> bool" where
  "is_return_memory call = (case call of S_ReturnMemory _ _ _ _ \<Rightarrow> True | _ \<Rightarrow> False)"

definition memory :: "syscall \<Rightarrow> memory_range option" where
  "memory call = (case call of
       S_TrySendMessage _ msg \<Rightarrow> map_option mm_buf (memory_message_of msg)
     | S_SendMessage _ msg \<Rightarrow> map_option mm_buf (memory_message_of msg)
     | S_ReturnMemory _ r _ _ \<Rightarrow> Some r
     | S_FlushCache r _ \<Rightarrow> Some r
     | _ \<Rightarrow> None)"

fun replace_buf :: "memory_range \<Rightarrow> message \<Rightarrow> message" where
  "replace_buf new (Move m) = Move (m\<lparr>mm_buf := new\<rparr>)"
| "replace_buf new (Borrow m) = Borrow (m\<lparr>mm_buf := new\<rparr>)"
| "replace_buf new (MutableBorrow m) = MutableBorrow (m\<lparr>mm_buf := new\<rparr>)"
| "replace_buf new (BlockingMove m) = BlockingMove (m\<lparr>mm_buf := new\<rparr>)"
| "replace_buf new m = m"

definition replace_memory :: "memory_range \<Rightarrow> syscall \<Rightarrow> syscall" where
  "replace_memory new call = (case call of
       S_TrySendMessage c msg \<Rightarrow> S_TrySendMessage c (replace_buf new msg)
     | S_SendMessage c msg \<Rightarrow> S_SendMessage c (replace_buf new msg)
     | S_ReturnMemory s _ offset valid \<Rightarrow> S_ReturnMemory s new offset valid
     | S_FlushCache _ op \<Rightarrow> S_FlushCache new op
     | c \<Rightarrow> c)"

definition can_call_from_interrupt :: "syscall \<Rightarrow> bool" where
  "can_call_from_interrupt call = (case call of
       S_TrySendMessage _ msg \<Rightarrow> \<not> is_blocking msg
     | S_TryConnect _ \<Rightarrow> True
     | S_FreeInterrupt _ \<Rightarrow> True
     | S_ClaimInterrupt _ _ _ \<Rightarrow> True
     | S_TryReceiveMessage _ \<Rightarrow> True
     | S_ReturnScalar5 _ _ _ _ _ _ \<Rightarrow> True
     | S_ReturnScalar2 _ _ _ \<Rightarrow> True
     | S_ReturnScalar1 _ _ \<Rightarrow> True
     | S_ReturnMemory _ _ _ _ \<Rightarrow> True
     | S_MapMemory _ _ _ _ \<Rightarrow> True
     | S_UnmapMemory _ \<Rightarrow> True
     | _ \<Rightarrow> False)"

section \<open>Well-formed calls and the round trip\<close>

text \<open>
  The calls the Rust types can hold: the non-zero words, PIDs, 16-bit ids and flags. A thread
  must also ask for a page-aligned stack, which the decoder checks.
\<close>

definition wf_syscall :: "syscall \<Rightarrow> bool" where
  "wf_syscall call = (case call of
       S_MapMemory a1 a2 a3 a4 \<Rightarrow> wf_nz a1 \<and> wf_nz a2 \<and> a3 \<noteq> 0 \<and> wf_flags a4
     | S_UnmapMemory r \<Rightarrow> wf_range r
     | S_UpdateMemoryFlags r f p \<Rightarrow> wf_range r \<and> wf_flags f \<and> pred_option wf_pid p
     | S_ClaimInterrupt _ a2 a3 \<Rightarrow> a2 \<noteq> 0 \<and> wf_nz a3
     | S_SendMessage _ m \<Rightarrow> wf_message m
     | S_TrySendMessage _ m \<Rightarrow> wf_message m
     | S_ReturnMemory _ r f v \<Rightarrow> wf_range r \<and> wf_nz f \<and> wf_nz v
     | S_CreateThread i \<Rightarrow> wf_range (ti_stack i) \<and>
         mr_addr (ti_stack i) AND (PAGE_SIZE - 1) = 0 \<and> mr_size (ti_stack i) AND (PAGE_SIZE - 1) = 0
     | S_CreateProcess i \<Rightarrow> wf_range (pi_elf i) \<and> pi_name_addr i \<noteq> 0 \<and> wf_app_id (pi_app_id i)
     | S_ConnectForProcess p _ \<Rightarrow> wf_pid p
     | S_TerminatePid p _ \<Rightarrow> wf_pid p
     | S_VirtToPhysPid p _ \<Rightarrow> wf_pid p
     | S_GetAppId p \<Rightarrow> wf_pid p
     | S_AllowMessagesCID p _ _ \<Rightarrow> wf_pid p
     | S_MirrorMemoryToPid r p \<Rightarrow> wf_range r \<and> wf_pid p
     | S_ResolveMessagePermission i _ \<Rightarrow> i < 2 ^ 16
     | S_GetPermissionRequestData i _ \<Rightarrow> i < 2 ^ 16
     | S_FlushCache r _ \<Rightarrow> wf_range r
     | S_AppIdToPid i \<Rightarrow> wf_app_id i
     | S_DebugCommand r _ \<Rightarrow> wf_range r
     | S_GetPanicMessage r \<Rightarrow> wf_range r
     | _ \<Rightarrow> True)"


lemmas from_args_defs = from_args_def from_args_2_def with_range_def with_pid_def
lemmas as_args_defs = as_args_def as_args_2_def as_args_3_def

lemma field_roundtrip [simp]: "field_from_usize (field_to_usize f) = f"
  by (cases f) (simp_all add: field_from_usize_def)

lemma u8_roundtrip [simp]: "ucast (ucast (c :: u8) :: usize) = c"
  by (rule bit_word_eqI) (simp add: bit_simps)

lemma u16_roundtrip [simp]: "i < 65536 \<Longrightarrow> unat (of_nat i :: usize) mod 65536 = i"
  by (simp add: unsigned_of_nat take_bit_nat_eq_self)

lemma pid_new_wf: "pid_new a = Some p \<Longrightarrow> wf_pid p"
  by (auto simp: pid_new_def wf_pid_def Let_def split: if_splits)

lemma pid_from_usize_wf: "pid_from_usize a = Inr p \<Longrightarrow> wf_pid p"
  by (auto simp: pid_from_usize_def split: if_splits option.splits dest: pid_new_wf)

lemma try_send_roundtrip [simp]:
  "wf_message m \<Longrightarrow>
   (case message_to_args m of (a2, a3, a4, a5, a6, a7) \<Rightarrow> try_send_from_args c a2 a3 a4 a5 a6 a7)
   = Inr (S_TrySendMessage c m)"
  by (cases m) (simp_all add: message_to_args_def memory_message_to_usize_def
      scalar_message_to_usize_def wf_memory_message_def try_send_from_args_def with_range_def Let_def)

lemma thread_roundtrip [simp]:
  "\<lbrakk>wf_range (ti_stack i); mr_addr (ti_stack i) AND (PAGE_SIZE - 1) = 0;
    mr_size (ti_stack i) AND (PAGE_SIZE - 1) = 0\<rbrakk> \<Longrightarrow>
   args_to_thread (ti_call i) (mr_addr (ti_stack i)) (mr_size (ti_stack i)) (ti_arg1 i)
     (ti_arg2 i) (ti_arg3 i) (ti_arg4 i) = Inr i"
  by (simp add: args_to_thread_def)

lemma process_init_roundtrip [simp]:
  "\<lbrakk>wf_range (pi_elf i); pi_name_addr i \<noteq> 0; wf_app_id (pi_app_id i)\<rbrakk> \<Longrightarrow>
   process_init_from_args (process_init_to_args i) = Inr i"
  using app_id_from_to_words [of "pi_app_id i"]
  by (cases "app_id_to_words (pi_app_id i)")
    (simp add: process_init_from_args_def process_init_to_args_def)

lemma sid_to_u32_case: "sid_to_u32 s = (case s of SID a b c d \<Rightarrow> (a, b, c, d))"
  by (cases s) simp

lemma usize8_cases:
  obtains a0 a1 a2 a3 a4 a5 a6 a7 where "(src :: usize8) = (a0, a1, a2, a3, a4, a5, a6, a7)"
  by (metis prod.exhaust)

lemma sid_roundtrip [simp]: "sid_to_u32 (sid_from_u32 a b c d) = (a, b, c, d)"
  by (simp add: sid_from_u32_def)

lemma from_as_args:
  assumes "wf_syscall call"
  shows "from_args (as_args call) = Inr call"
proof (cases call)
  case (S_SendMessage c m)
  with assms show ?thesis
    using message_args_roundtrip [of m]
    by (cases "message_to_args m") (simp add: as_args_defs from_args_def wf_syscall_def)
next
  case (S_TrySendMessage c m)
  with assms show ?thesis
    using try_send_roundtrip [of m c]
    by (cases "message_to_args m") (simp add: as_args_defs from_args_def wf_syscall_def)
next
  case (S_CreateProcess i)
  with assms show ?thesis
    using process_init_roundtrip [of i]
    by (cases "process_init_to_args i") (simp add: as_args_defs from_args_def wf_syscall_def)
next
  case (S_AppIdToPid i)
  with assms show ?thesis
    using app_id_from_to_words [of i]
    by (cases "app_id_to_words i") (simp add: as_args_defs from_args_defs wf_syscall_def)
next
  case (S_UpdateMemoryFlags r f p)
  with assms show ?thesis
    by (cases p) (simp_all add: as_args_defs from_args_defs wf_syscall_def)
next
  case (S_CreateThread i)
  with assms show ?thesis
    by (simp add: as_args_defs from_args_defs wf_syscall_def thread_to_args_def)
qed (use assms in \<open>auto simp: as_args_defs from_args_defs wf_syscall_def sid_from_u32_def
    sid_to_u32_case split: sid.splits\<close>)


subsection \<open>What the decoder accepts\<close>

definition decoder_ok :: "error + syscall \<Rightarrow> bool" where
  "decoder_ok r = (case r of
       Inr call \<Rightarrow> wf_syscall call
     | Inl e \<Rightarrow> e \<in> {InvalidSyscall, BadAddress, BadAlignment, OutOfMemory, InvalidPID})"

lemma decoder_ok_simps [simp]:
  "decoder_ok (Inr call) = wf_syscall call"
  "decoder_ok (Inl e) \<longleftrightarrow> e \<in> {InvalidSyscall, BadAddress, BadAlignment, OutOfMemory, InvalidPID}"
  by (simp_all add: decoder_ok_def)

lemma with_range_ok:
  "(\<And>r. wf_range r \<Longrightarrow> decoder_ok (f r)) \<Longrightarrow> decoder_ok (with_range a s f)"
  by (auto simp: with_range_def memory_range_new_def wf_range_def)

lemma with_pid_ok: "(\<And>p. wf_pid p \<Longrightarrow> decoder_ok (f p)) \<Longrightarrow> decoder_ok (with_pid a f)"
  by (auto simp: with_pid_def dest: pid_new_wf split: option.splits)

lemma message_try_from_wf: "message_try_from v = Some m \<Longrightarrow> wf_message m"
  by (auto simp: message_try_from_def Let_def memory_range_new_def wf_memory_message_def wf_range_def
      split: prod.splits if_splits)

lemma try_send_ok: "decoder_ok (try_send_from_args a1 a2 a3 a4 a5 a6 a7)"
  by (auto simp: try_send_from_args_def Let_def wf_syscall_def wf_memory_message_def
      intro!: with_range_ok)

lemma from_args_2_ok: "decoder_ok (from_args_2 src)"
proof (rule usize8_cases [of src])
  fix a0 a1 a2 a3 a4 a5 a6 a7
  assume src: "src = (a0, a1, a2, a3, a4, a5, a6, a7)"
  show "decoder_ok (from_args_2 src)"
    unfolding src from_args_2_def prod.case
    by (cases "number_from a0"; simp add: wf_syscall_def with_range_ok with_pid_ok)
      (auto simp: pid_from_usize_def u32_to_le_def wf_syscall_def dest: pid_new_wf split: option.splits)
qed

lemma args_to_thread_ok:
  "args_to_thread a1 a2 a3 a4 a5 a6 a7 = Inr i \<Longrightarrow> wf_syscall (S_CreateThread i)"
  "args_to_thread a1 a2 a3 a4 a5 a6 a7 = Inl e \<Longrightarrow> e \<in> {BadAlignment, InvalidSyscall}"
  by (auto simp: args_to_thread_def wf_syscall_def memory_range_new_Inr wf_range_def
      split: if_splits sum.splits)

lemma process_init_ok:
  "process_init_from_args src = Inr i \<Longrightarrow> wf_syscall (S_CreateProcess i)"
  "process_init_from_args src = Inl e \<Longrightarrow> e = OutOfMemory"
  by (auto simp: process_init_from_args_def wf_syscall_def memory_range_new_Inr wf_range_def
      simp del: app_id_from_words.simps split: if_splits sum.splits prod.splits)

lemma from_args_ok: "decoder_ok (from_args src)"
proof (rule usize8_cases [of src])
  fix a0 a1 a2 a3 a4 a5 a6 a7
  assume src: "src = (a0, a1, a2, a3, a4, a5, a6, a7)"
  show "decoder_ok (from_args src)"
    unfolding src from_args_def prod.case
    by (cases "number_from a0"; simp add: from_args_2_ok try_send_ok wf_syscall_def with_range_ok)
      (auto simp: memory_range_new_Inr wf_range_def pred_option_def wf_syscall_def
        intro!: with_range_ok dest: pid_new_wf message_try_from_wf args_to_thread_ok process_init_ok
        split: option.splits sum.splits)
qed

text \<open>
  C31: every well-formed system call survives the trip through the eight argument registers:
  what the kernel decodes is the call that user space encoded.
\<close>

theorem syscall_args_roundtrip:
  assumes "wf_syscall call"
  shows "from_args (as_args call) = Inr call"
  using assms by (rule from_as_args)

theorem syscall_args_roundtrip_witness:
  "from_args (as_args (S_TrySendMessage 7 (Borrow \<lparr>mm_id = 3, mm_buf = \<lparr>mr_addr = 0x20000000,
     mr_size = 8192\<rparr>, mm_offset = Some 16, mm_valid = None\<rparr>))) =
   Inr (S_TrySendMessage 7 (Borrow \<lparr>mm_id = 3, mm_buf = \<lparr>mr_addr = 0x20000000,
     mr_size = 8192\<rparr>, mm_offset = Some 16, mm_valid = None\<rparr>))"
  by (rule syscall_args_roundtrip)
    (simp add: wf_syscall_def wf_memory_message_def wf_range_def wf_nz_def)

text \<open>
  C32: the decoder is total and safe. Whatever words user space puts in the registers, it
  returns one of five errors or a call the Rust types allow (non-zero sizes and PIDs, known
  flags, page-aligned stacks); and that call is stable: re-encoding it, as the kernel does when
  it retries a call, decodes to the same call.
\<close>

theorem decoder_total_and_stable:
  "case from_args src of
     Inl e \<Rightarrow> e \<in> {InvalidSyscall, BadAddress, BadAlignment, OutOfMemory, InvalidPID}
   | Inr call \<Rightarrow> wf_syscall call \<and> from_args (as_args call) = Inr call"
  using from_args_ok [of src] by (cases "from_args src") (simp_all add: from_as_args)

section \<open>Memory of a call and calls from interrupt handlers\<close>

lemma memory_of_message:
  "memory_message_of m = None \<longleftrightarrow> \<not> msg_has_memory m"
  by (cases m) simp_all

lemma replace_buf_simps [simp]:
  "map_option mm_buf (memory_message_of (replace_buf new m)) =
     map_option (\<lambda>_. new) (memory_message_of m)"
  "message_type (replace_buf new m) = message_type m"
  "message_id_of (replace_buf new m) = message_id_of m"
  "is_blocking (replace_buf new m) = is_blocking m"
  "wf_message m \<Longrightarrow> wf_range new \<Longrightarrow> wf_message (replace_buf new m)"
  by (cases m; simp add: wf_memory_message_def)+

lemma replace_buf_undo:
  "map_option mm_buf (memory_message_of m) = Some old \<Longrightarrow> replace_buf old (replace_buf new m) = m"
  by (cases m) auto

lemma wf_replace_memory: "wf_syscall call \<Longrightarrow> wf_range new \<Longrightarrow> wf_syscall (replace_memory new call)"
  by (cases call) (simp_all add: replace_memory_def wf_syscall_def)

text \<open>
  Replacing the memory of a call changes that memory and nothing else: the call has memory
  to report exactly when it is a message or a return that carries some, or a cache flush; the
  new range is then reported, and putting the old one back restores the call; the call stays
  encodable; and whether an interrupt handler may make it is unaffected.
\<close>

theorem replace_memory_only:
  assumes "wf_syscall call" and "wf_range new"
  shows "(memory call \<noteq> None \<longleftrightarrow> has_memory call \<or> (\<exists>r op. call = S_FlushCache r op)) \<and>
    memory (replace_memory new call) = map_option (\<lambda>_. new) (memory call) \<and>
    (\<forall>old. memory call = Some old \<longrightarrow> replace_memory old (replace_memory new call) = call) \<and>
    from_args (as_args (replace_memory new call)) = Inr (replace_memory new call) \<and>
    can_call_from_interrupt (replace_memory new call) = can_call_from_interrupt call"
proof (intro conjI allI impI)
  show "memory call \<noteq> None \<longleftrightarrow> has_memory call \<or> (\<exists>r op. call = S_FlushCache r op)"
    by (cases call) (auto simp: memory_def has_memory_def memory_of_message)
  show "memory (replace_memory new call) = map_option (\<lambda>_. new) (memory call)"
    by (cases call) (simp_all add: memory_def replace_memory_def option.map_comp comp_def)
  show "can_call_from_interrupt (replace_memory new call) = can_call_from_interrupt call"
    by (cases call) (simp_all add: can_call_from_interrupt_def replace_memory_def)
  show "from_args (as_args (replace_memory new call)) = Inr (replace_memory new call)"
    by (intro from_as_args wf_replace_memory assms)
  show "replace_memory old (replace_memory new call) = call" if "memory call = Some old" for old
    using that by (cases call) (auto simp: memory_def replace_memory_def intro: replace_buf_undo)
qed

theorem replace_memory_only_witness:
  "memory (replace_memory \<lparr>mr_addr = 0x30000000, mr_size = 4096\<rparr>
     (S_ReturnMemory 1 \<lparr>mr_addr = 0x20000000, mr_size = 8192\<rparr> None (Some 4))) =
   Some \<lparr>mr_addr = 0x30000000, mr_size = 4096\<rparr>"
  using replace_memory_only [of "S_ReturnMemory 1 \<lparr>mr_addr = 0x20000000, mr_size = 8192\<rparr> None (Some 4)"
      "\<lparr>mr_addr = 0x30000000, mr_size = 4096\<rparr>"]
  by (simp add: wf_syscall_def wf_range_def wf_nz_def memory_def)

end
