(* ===== verification/Processes.thy ===== *)
theory Processes
  imports Scheduler Connection_Table
begin

text \<open>
  Processes (\<open>xous/kernel/src/process.rs\<close>): the record of a process with its threads and
  priorities, names, memory and system call permissions and event handlers; the thread
  operations, which keep the scheduler's ready queues in step with the thread states; and the
  process table of \<open>services.rs\<close>. The connection operations are in \<open>Connection_Table\<close>, the
  address space in \<open>mapping\<close> is not part of the record.
\<close>

section \<open>State\<close>

definition NUM_SYSTEM_EVENTS :: nat where "NUM_SYSTEM_EVENTS = 4"
definition MEMORY_PERMISSION_COUNT :: nat where "MEMORY_PERMISSION_COUNT = 8"
definition MAX_PROCESS_NAME_LEN :: nat where "MAX_PROCESS_NAME_LEN = 32"
definition MMAP_AREA_VIRT :: usize where "MMAP_AREA_VIRT = 0x30000000"
definition MMAP_AREA_VIRT_END :: usize where "MMAP_AREA_VIRT_END = 0x40000000"
definition MEMORY_MIRROR_AREA_VIRT :: usize where "MEMORY_MIRROR_AREA_VIRT = 0x40000000"

datatype thread_state =
    TS_Free
  | TS_Ready
  | WaitJoin tid
  | WaitBlocking nat
  | WaitReceive nat
  | WaitFutex usize
  | RetryConnect u32
  | RetryQueueFull nat
  | WaitMapZero
  | RetryMapZero
  | RetryPermission nat

record system_event_handler =
  eh_sid :: sid
  eh_message_id :: message_id

record process =
  proc_pid :: pid
  proc_ppid :: "pid option"
  proc_name :: "u8 list option"
  threads :: "thread_state list"
  thread_priorities :: "thread_priority list"
  proc_event_handlers :: "system_event_handler option list"
  proc_app_id :: app_id
  memory_permissions :: "(usize \<times> usize) list"
  syscall_mask :: u64
  proc_connections :: connection_map
  allocation_hint :: usize
  next_mirror_address :: usize
  aslr_slide :: usize

definition process_new :: "pid \<Rightarrow> pid \<Rightarrow> app_id \<Rightarrow> process" where
  "process_new p pp app =
     \<lparr>proc_pid = p, proc_ppid = Some pp, proc_name = None,
      threads = replicate MAX_THREAD_COUNT TS_Free,
      thread_priorities = replicate MAX_THREAD_COUNT AppDefault,
      proc_event_handlers = replicate NUM_SYSTEM_EVENTS None,
      proc_app_id = app,
      memory_permissions = replicate MEMORY_PERMISSION_COUNT (0, 0), syscall_mask = 0,
      proc_connections = initial_connection_map,
      allocation_hint = MMAP_AREA_VIRT, next_mirror_address = MEMORY_MIRROR_AREA_VIRT,
      aslr_slide = 0\<rparr>"

section \<open>Thread operations\<close>

text \<open>
  A thread operation works on the process and, through the global \<open>Scheduler\<close>, on the ready
  queues. \<open>on_scheduler\<close> is \<open>Scheduler::with_mut\<close>.
\<close>

type_synonym proc_state = "process \<times> scheduler"

definition on_scheduler :: "(scheduler \<Rightarrow> unit res \<times> scheduler) \<Rightarrow> proc_state \<Rightarrow> unit res \<times> proc_state" where
  "on_scheduler f ps = (case f (snd ps) of (r, s) \<Rightarrow> (r, (fst ps, s)))"

definition has_thread :: "process \<Rightarrow> tid \<Rightarrow> bool" where
  "has_thread p t \<longleftrightarrow> t < length (threads p) \<and> t < length (thread_priorities p)"

definition set_thread_state :: "tid \<Rightarrow> thread_state \<Rightarrow> proc_state \<Rightarrow> unit res \<times> proc_state" where
  "set_thread_state t st ps =
     (if \<not> has_thread (fst ps) t then (Panic, ps)
      else
        (let p = fst ps; prio = thread_priorities p ! t in
         seq (if threads p ! t = TS_Ready \<and> st \<noteq> TS_Ready
              then on_scheduler (\<lambda>s. park_thread s (proc_pid p, t) prio) ps else (Done (), ps)) (\<lambda>_ ps1.
         seq (if threads p ! t \<noteq> TS_Ready \<and> st = TS_Ready
              then on_scheduler (\<lambda>s. ready_thread s (proc_pid p, t) prio) ps1 else (Done (), ps1)) (\<lambda>_ ps2.
         (Done (), (p\<lparr>threads := (threads p)[t := st]\<rparr>, snd ps2))))))"

definition set_thread_priority :: "tid \<Rightarrow> thread_priority \<Rightarrow> proc_state \<Rightarrow> unit res \<times> proc_state" where
  "set_thread_priority t priority ps =
     (if \<not> has_thread (fst ps) t then (Panic, ps)
      else
        (let p = fst ps; current = thread_priorities p ! t in
         if current = priority then (Done (), ps)
         else
           seq (if threads p ! t = TS_Ready
                then seq (on_scheduler (\<lambda>s. park_thread s (proc_pid p, t) current) ps)
                       (\<lambda>_. on_scheduler (\<lambda>s. ready_thread s (proc_pid p, t) priority))
                else (Done (), ps)) (\<lambda>_ ps1.
           (Done (), (p\<lparr>thread_priorities := (thread_priorities p)[t := priority]\<rparr>, snd ps1)))))"

text \<open>The loop of \<open>wake_threads_with_state\<close> over the remaining thread ids.\<close>

fun wake_loop :: "tid list \<Rightarrow> thread_state \<Rightarrow> nat \<Rightarrow> proc_state \<Rightarrow> unit res \<times> proc_state" where
  "wake_loop [] st n ps = (Done (), ps)"
| "wake_loop (t # ts) st n ps =
     (if threads (fst ps) ! t = st then
        seq (set_thread_state t TS_Ready ps)
          (\<lambda>_ ps1. if n - 1 = 0 then (Done (), ps1) else wake_loop ts st (n - 1) ps1)
      else wake_loop ts st n ps)"

definition wake_threads_with_state :: "thread_state \<Rightarrow> nat \<Rightarrow> proc_state \<Rightarrow> unit res \<times> proc_state" where
  "wake_threads_with_state st n ps =
     (if n = 0 then (Done (), ps) else wake_loop [1..<MAX_THREAD_COUNT] st n ps)"

text \<open>The loop of \<open>terminate\<close> that takes the threads off the ready queues.\<close>

fun free_threads :: "tid list \<Rightarrow> proc_state \<Rightarrow> unit res \<times> proc_state" where
  "free_threads [] ps = (Done (), ps)"
| "free_threads (t # ts) ps = seq (set_thread_state t TS_Free ps) (\<lambda>_. free_threads ts)"

definition terminate_threads :: "proc_state \<Rightarrow> unit res \<times> proc_state" where
  "terminate_threads = free_threads [1..<MAX_THREAD_COUNT]"

section \<open>The process table\<close>

text \<open>
  \<open>SystemServices.processes\<close> as a map on PIDs, with the array's bound; and the threads of the
  whole system with the scheduler.
\<close>

record thread_system =
  procs :: "pid \<Rightarrow> process option"
  sched :: scheduler

definition get_process :: "thread_system \<Rightarrow> pid \<Rightarrow> process option" where
  "get_process y p = (if 1 \<le> p \<and> p \<le> MAX_PROCESS_COUNT then procs y p else None)"

definition on_process ::
    "pid \<Rightarrow> (proc_state \<Rightarrow> 'a res \<times> proc_state) \<Rightarrow> thread_system \<Rightarrow> 'a res \<times> thread_system" where
  "on_process p f y =
     (case get_process y p of
        None \<Rightarrow> (Fail ProcessNotFound, y)
      | Some pr \<Rightarrow> (case f (pr, sched y) of
          (r, (pr', s')) \<Rightarrow> (r, \<lparr>procs = (procs y)(p := Some pr'), sched = s'\<rparr>)))"

text \<open>\<open>for_all_processes\<close> in the order of the table, for the waking of threads.\<close>

fun wake_processes :: "pid list \<Rightarrow> thread_state \<Rightarrow> nat \<Rightarrow> thread_system \<Rightarrow> unit res \<times> thread_system" where
  "wake_processes [] st n y = (Done (), y)"
| "wake_processes (p # ps) st n y =
     (if get_process y p = None then wake_processes ps st n y
      else seq (on_process p (wake_threads_with_state st n) y) (\<lambda>_. wake_processes ps st n))"

definition wake_all_threads_with_state :: "thread_state \<Rightarrow> nat \<Rightarrow> thread_system \<Rightarrow> unit res \<times> thread_system" where
  "wake_all_threads_with_state = wake_processes [1..<Suc MAX_PROCESS_COUNT]"


section \<open>Names\<close>

text \<open>\<open>core::str::from_utf8\<close> accepts exactly the well-formed UTF-8 sequences.\<close>

definition utf8_cont :: "u8 \<Rightarrow> bool" where
  "utf8_cont b \<longleftrightarrow> 0x80 \<le> b \<and> b \<le> 0xbf"

fun valid_utf8 :: "u8 list \<Rightarrow> bool" where
  "valid_utf8 [] = True"
| "valid_utf8 (a # bs) =
     (if a < 0x80 then valid_utf8 bs
      else if 0xc2 \<le> a \<and> a \<le> 0xdf then
        (case bs of b # cs \<Rightarrow> utf8_cont b \<and> valid_utf8 cs | _ \<Rightarrow> False)
      else if 0xe0 \<le> a \<and> a \<le> 0xef then
        (case bs of b # c # ds \<Rightarrow>
           (if a = 0xe0 then 0xa0 \<le> b \<and> b \<le> 0xbf
            else if a = 0xed then 0x80 \<le> b \<and> b \<le> 0x9f else utf8_cont b)
           \<and> utf8_cont c \<and> valid_utf8 ds | _ \<Rightarrow> False)
      else if 0xf0 \<le> a \<and> a \<le> 0xf4 then
        (case bs of b # c # d # es \<Rightarrow>
           (if a = 0xf0 then 0x90 \<le> b \<and> b \<le> 0xbf
            else if a = 0xf4 then 0x80 \<le> b \<and> b \<le> 0x8f else utf8_cont b)
           \<and> utf8_cont c \<and> utf8_cont d \<and> valid_utf8 es | _ \<Rightarrow> False)
      else False)"

definition process_name :: "process \<Rightarrow> u8 list option" where
  "process_name pr =
     (case proc_name pr of
        None \<Rightarrow> None
      | Some bytes \<Rightarrow>
          (let n = (case find_index (\<lambda>b. b = 0) bytes of Some i \<Rightarrow> i | None \<Rightarrow> MAX_PROCESS_NAME_LEN);
               name = take n bytes
           in if \<not> valid_utf8 name then None else if name \<noteq> [] then Some name else None))"

definition set_name :: "u8 list \<Rightarrow> process \<Rightarrow> unit res \<times> process" where
  "set_name bytes pr =
     (if length bytes > MAX_PROCESS_NAME_LEN then (Fail InvalidString, pr)
      else if process_name pr \<noteq> None then (Fail InternalError, pr)
      else (Done (), pr\<lparr>proc_name := Some (bytes @ replicate (MAX_PROCESS_NAME_LEN - length bytes) 0)\<rparr>))"

section \<open>Permissions and event handlers\<close>

definition RAM_SIZE :: usize where "RAM_SIZE = 128 * 1024 * 1024"
definition PLAINTEXT_DRAM_BASE :: usize where "PLAINTEXT_DRAM_BASE = 0x20000000"
definition PLAINTEXT_DRAM_END :: usize where "PLAINTEXT_DRAM_END = PLAINTEXT_DRAM_BASE + RAM_SIZE"
definition ENCRYPTED_DRAM_BASE :: usize where "ENCRYPTED_DRAM_BASE = 0x40000000"
definition ENCRYPTED_DRAM_END :: usize where "ENCRYPTED_DRAM_END = ENCRYPTED_DRAM_BASE + RAM_SIZE"

definition is_address_encrypted :: "usize \<Rightarrow> bool" where
  "is_address_encrypted a \<longleftrightarrow> ENCRYPTED_DRAM_BASE \<le> a \<and> a < ENCRYPTED_DRAM_END"

definition is_address_in_plaintext_dram :: "usize \<Rightarrow> bool" where
  "is_address_in_plaintext_dram a \<longleftrightarrow> PLAINTEXT_DRAM_BASE \<le> a \<and> a < PLAINTEXT_DRAM_END"

text \<open>The loop over the additional regions stops at the first free slot.\<close>

fun region_loop :: "usize \<Rightarrow> (usize \<times> usize) list \<Rightarrow> bool" where
  "region_loop a [] = False"
| "region_loop a (r # rs) =
     (if fst r \<le> a \<and> a < snd r then True else if snd r = 0 then False else region_loop a rs)"

definition check_memory_permission :: "process \<Rightarrow> usize \<Rightarrow> unit res" where
  "check_memory_permission pr a =
     (if proc_pid pr = 1 \<or> is_address_in_plaintext_dram a \<or> is_address_encrypted a then Done ()
      else if region_loop a (memory_permissions pr) then Done ()
      else Fail AccessDenied)"

definition add_memory_permission :: "usize \<times> usize \<Rightarrow> process \<Rightarrow> unit res \<times> process" where
  "add_memory_permission r pr =
     (case find_index (\<lambda>region. snd region = 0) (memory_permissions pr) of
        Some i \<Rightarrow> (Done (), pr\<lparr>memory_permissions := (memory_permissions pr)[i := r]\<rparr>)
      | None \<Rightarrow> (Fail KernelTableFull, pr))"

definition set_system_event_handler ::
    "system_event \<Rightarrow> sid \<Rightarrow> message_id \<Rightarrow> process \<Rightarrow> unit res \<times> process" where
  "set_system_event_handler ev s i pr =
     (case proc_event_handlers pr ! system_event_discr ev of
        Some _ \<Rightarrow> (Fail MemoryInUse, pr)
      | None \<Rightarrow> (Done (), pr\<lparr>proc_event_handlers :=
          (proc_event_handlers pr)[system_event_discr ev := Some \<lparr>eh_sid = s, eh_message_id = i\<rparr>]\<rparr>))"

definition get_system_event_handler :: "process \<Rightarrow> system_event \<Rightarrow> (sid \<times> message_id) option" where
  "get_system_event_handler pr ev =
     map_option (\<lambda>e. (eh_sid e, eh_message_id e)) (proc_event_handlers pr ! system_event_discr ev)"

definition release_allocation_hint :: "usize \<Rightarrow> process \<Rightarrow> process" where
  "release_allocation_hint virt pr =
     (if MMAP_AREA_VIRT \<le> virt \<and> virt < MMAP_AREA_VIRT_END
      then pr\<lparr>allocation_hint := min (allocation_hint pr) virt\<rparr> else pr)"

section \<open>Creating and ending processes\<close>

text \<open>
  \<open>create_process\<close> of \<open>services.rs\<close>: \<open>panic_pid\<close> is the process that owns the panic message,
  whose PID is not reused. The address space (\<open>MemoryMapping::allocate\<close>) and the loading of
  the ELF file (\<open>Process::create\<close>, unwrapped) are inputs: only their outcomes matter here.
\<close>

definition create_process ::
    "pid option \<Rightarrow> pid \<Rightarrow> app_id \<Rightarrow> u8 list \<Rightarrow> unit res \<Rightarrow> unit res \<Rightarrow> thread_system \<Rightarrow> pid res \<times> thread_system" where
  "create_process panic_pid ppid app name mapping load y =
     (case find_index (\<lambda>i. procs y (i + 1) = None \<and> panic_pid \<noteq> Some (i + 1)) [0..<MAX_PROCESS_COUNT] of
        None \<Rightarrow> (Fail KernelTableFull, y)
      | Some slot \<Rightarrow>
          seq (mapping, y) (\<lambda>_ y.
            let p = slot + 1 in
            case set_name name (process_new p ppid app) of
              (Fail e, _) \<Rightarrow> (Fail e, y)
            | (Panic, _) \<Rightarrow> (Panic, y)
            | (Done _, pr) \<Rightarrow>
                (case set_thread_state INITIAL_TID TS_Ready (pr, sched y) of
                   (r, (pr', s')) \<Rightarrow>
                     seq (r, \<lparr>procs = (procs y)(p := Some pr'), sched = s'\<rparr>) (\<lambda>_ y1.
                       case load of Done _ \<Rightarrow> (Done p, y1) | _ \<Rightarrow> (Panic, y1)))))"

text \<open>
  The end of \<open>terminate_current_process\<close>: the process' threads leave the queues
  (\<open>Process::terminate\<close>), \<open>free_process\<close> empties its slot and its children lose their parent.
\<close>

definition drop_parent :: "pid \<Rightarrow> process \<Rightarrow> process" where
  "drop_parent p pr = (if proc_ppid pr = Some p then pr\<lparr>proc_ppid := None\<rparr> else pr)"

definition end_process :: "pid \<Rightarrow> thread_system \<Rightarrow> unit res \<times> thread_system" where
  "end_process p y =
     seq (on_process p terminate_threads y) (\<lambda>_ y1.
       (Done (), y1\<lparr>procs := (\<lambda>i. map_option (drop_parent p) (((procs y1)(p := None)) i))\<rparr>))"

text \<open>\<open>init_from_memory\<close> sets up PID 1, the kernel, before it loads any process.\<close>

definition boot_threads :: "unit res \<times> thread_system" where
  "boot_threads =
     (case seq (set_thread_priority INITIAL_TID Idle
                  (process_new 1 1 (app_id_from_words (0x31444950, 0, 0, 0)), initial_scheduler))
             (\<lambda>_. set_thread_state INITIAL_TID TS_Ready) of
        (r, (pr, s)) \<Rightarrow>
          (case set_name [107, 101, 114, 110, 101, 108] pr of
             (Done _, pr1) \<Rightarrow> (r, \<lparr>procs = [1 \<mapsto> pr1\<lparr>syscall_mask := - 1\<rparr>], sched = s\<rparr>)
           | (_, pr1) \<Rightarrow> (Panic, \<lparr>procs = [1 \<mapsto> pr1], sched = s\<rparr>)))"

section \<open>Ready queues and thread states agree\<close>

definition wf_process :: "pid \<Rightarrow> process \<Rightarrow> bool" where
  "wf_process p pr \<longleftrightarrow> proc_pid pr = p \<and> 1 \<le> p \<and> p \<le> MAX_PROCESS_COUNT
     \<and> length (threads pr) = MAX_THREAD_COUNT \<and> length (thread_priorities pr) = MAX_THREAD_COUNT"

text \<open>Thread \<open>t\<close> is ready at priority index \<open>k\<close>; the interrupt thread is in no queue.\<close>

definition runnable :: "(pid \<Rightarrow> process option) \<Rightarrow> nat \<Rightarrow> thread \<Rightarrow> bool" where
  "runnable ps k u \<longleftrightarrow> (\<exists>pr. ps (fst u) = Some pr \<and> snd u \<noteq> IRQ_TID \<and> snd u < MAX_THREAD_COUNT
     \<and> threads pr ! snd u = TS_Ready \<and> prio_index (thread_priorities pr ! snd u) = k)"

definition in_irq :: "(pid \<Rightarrow> process option) \<Rightarrow> pid \<Rightarrow> bool" where
  "in_irq ps p \<longleftrightarrow> (\<exists>pr. ps p = Some pr \<and> threads pr ! IRQ_TID = TS_Ready)"

text \<open>
  The queues \<open>q\<close> that the scheduler stands for hold exactly the ready threads, each in the
  queue of its priority; the scheduler is in an interrupt exactly when some process's
  interrupt thread is ready, and no two are.
\<close>

definition threads_inv :: "(pid \<Rightarrow> process option) \<Rightarrow> scheduler \<Rightarrow> ready_queues \<Rightarrow> bool" where
  "threads_inv ps s q \<longleftrightarrow> sched_rel s q
     \<and> (\<forall>p pr. ps p = Some pr \<longrightarrow> wf_process p pr)
     \<and> (\<forall>k < NUM_PRIORITIES. set (q k) = {u. runnable ps k u})
     \<and> (in_irq_handler s \<longleftrightarrow> (\<exists>p. in_irq ps p))
     \<and> (\<forall>p p'. in_irq ps p \<and> in_irq ps p' \<longrightarrow> p = p')"

lemma threads_invD:
  assumes "threads_inv ps s q"
  shows "sched_rel s q" and "ps p = Some pr \<Longrightarrow> wf_process p pr"
    and "k < NUM_PRIORITIES \<Longrightarrow> set (q k) = {u. runnable ps k u}"
    and "in_irq_handler s \<longleftrightarrow> (\<exists>p. in_irq ps p)"
    and "in_irq ps p \<Longrightarrow> in_irq ps p' \<Longrightarrow> p = p'"
  using assms unfolding threads_inv_def by blast+

lemma runnable_bound: "runnable ps k u \<Longrightarrow> k < NUM_PRIORITIES"
  by (auto simp: runnable_def)

lemma ready_in_runnable:
  assumes "threads_inv ps s q"
  shows "ready_in q u \<longleftrightarrow> (\<exists>k. runnable ps k u)"
proof -
  have "k < NUM_PRIORITIES \<and> u \<in> set (q k) \<longleftrightarrow> runnable ps k u" for k
    using threads_invD(3) [OF assms, of k] runnable_bound [of ps k u] by (cases "k < NUM_PRIORITIES") auto
  then show ?thesis unfolding ready_in_def by metis
qed

lemma runnable_update:
  "ps p = Some pr \<Longrightarrow> (\<And>i. i \<noteq> t \<Longrightarrow> threads pr' ! i = threads pr ! i) \<Longrightarrow>
   (\<And>i. i \<noteq> t \<Longrightarrow> thread_priorities pr' ! i = thread_priorities pr ! i) \<Longrightarrow>
   runnable (ps(p \<mapsto> pr')) k u \<longleftrightarrow>
     (if u = (p, t) then t \<noteq> IRQ_TID \<and> t < MAX_THREAD_COUNT \<and> threads pr' ! t = TS_Ready
        \<and> prio_index (thread_priorities pr' ! t) = k
      else runnable ps k u)"
  by (cases u) (auto simp: runnable_def)

lemma in_irq_update: "in_irq (ps(p \<mapsto> pr')) p' \<longleftrightarrow> (if p' = p then threads pr' ! IRQ_TID = TS_Ready else in_irq ps p')"
  by (simp add: in_irq_def)

text \<open>What a change of one thread's state does to the queues.\<close>

definition requeue :: "process \<Rightarrow> tid \<Rightarrow> thread_state \<Rightarrow> ready_queues \<Rightarrow> ready_queues" where
  "requeue pr t st q =
     (let k = prio_index (thread_priorities pr ! t); u = (proc_pid pr, t) in
      if t = IRQ_TID then q
      else if threads pr ! t = TS_Ready \<and> st \<noteq> TS_Ready then q_park u k q
      else if threads pr ! t \<noteq> TS_Ready \<and> st = TS_Ready then q_ready u k q
      else q)"

text \<open>When \<open>set_thread_state\<close> panics: it would park the last ready thread of the system, or
  enter an interrupt in an interrupt.\<close>

definition state_change_panics :: "(pid \<Rightarrow> process option) \<Rightarrow> process \<Rightarrow> tid \<Rightarrow> thread_state \<Rightarrow> bool" where
  "state_change_panics ps pr t st \<longleftrightarrow>
     (if t = IRQ_TID then threads pr ! t \<noteq> TS_Ready \<and> st = TS_Ready \<and> (\<exists>p. in_irq ps p)
      else threads pr ! t = TS_Ready \<and> st \<noteq> TS_Ready
        \<and> (\<forall>k u. runnable ps k u \<longrightarrow> u = (proc_pid pr, t)))"

lemma set_thread_state_run:
  assumes "has_thread pr t"
  shows "set_thread_state t st (pr, s) =
    (case (if threads pr ! t = TS_Ready \<and> st \<noteq> TS_Ready then park_thread s (proc_pid pr, t) (thread_priorities pr ! t)
           else if threads pr ! t \<noteq> TS_Ready \<and> st = TS_Ready then ready_thread s (proc_pid pr, t) (thread_priorities pr ! t)
           else (Done (), s)) of
       (Done u, s') \<Rightarrow> (Done (), (pr\<lparr>threads := (threads pr)[t := st]\<rparr>, s'))
     | (Fail e, s') \<Rightarrow> (Fail e, (pr, s'))
     | (Panic, s') \<Rightarrow> (Panic, (pr, s')))"
  using assms by (auto simp: set_thread_state_def on_scheduler_def Let_def seq_def split: prod.splits outcome.splits)

lemma wf_process_has_thread: "wf_process p pr \<Longrightarrow> t < MAX_THREAD_COUNT \<Longrightarrow> has_thread pr t"
  by (simp add: wf_process_def has_thread_def)

lemma threads_inv_distinct: "threads_inv ps s q \<Longrightarrow> k < NUM_PRIORITIES \<Longrightarrow> distinct (q k)"
  using sched_rel_ring [OF threads_invD(1)] by (simp add: ring_def)

lemma thread_in_table: "wf_process p pr \<Longrightarrow> t \<noteq> IRQ_TID \<Longrightarrow> t < MAX_THREAD_COUNT \<Longrightarrow> in_table (p, t)"
  by (simp add: wf_process_def in_table_def IRQ_TID_def)


text \<open>A thread is in the queue of its priority only.\<close>

lemma runnable_prio: "ps p = Some pr \<Longrightarrow> runnable ps k (p, t) \<Longrightarrow> k = prio_index (thread_priorities pr ! t)"
  by (auto simp: runnable_def)

lemma threads_inv_update:
  assumes inv: "threads_inv ps s q" and pr: "ps p = Some pr"
    and rel: "sched_rel s' q'"
    and wf: "wf_process p pr'"
    and other: "\<And>i. i \<noteq> t \<Longrightarrow> threads pr' ! i = threads pr ! i"
      "\<And>i. i \<noteq> t \<Longrightarrow> thread_priorities pr' ! i = thread_priorities pr ! i"
    and q: "\<And>k. k < NUM_PRIORITIES \<Longrightarrow> set (q' k) - {(p, t)} = set (q k) - {(p, t)}"
    and u: "\<And>k. k < NUM_PRIORITIES \<Longrightarrow> (p, t) \<in> set (q' k) \<longleftrightarrow> t \<noteq> IRQ_TID \<and> t < MAX_THREAD_COUNT
        \<and> threads pr' ! t = TS_Ready \<and> prio_index (thread_priorities pr' ! t) = k"
    and irq: "in_irq_handler s' \<longleftrightarrow> (\<exists>a. in_irq (ps(p \<mapsto> pr')) a)"
      "\<And>a b. in_irq (ps(p \<mapsto> pr')) a \<Longrightarrow> in_irq (ps(p \<mapsto> pr')) b \<Longrightarrow> a = b"
  shows "threads_inv (ps(p \<mapsto> pr')) s' q'"
proof -
  have upd: "runnable (ps(p \<mapsto> pr')) k v \<longleftrightarrow> (if v = (p, t) then t \<noteq> IRQ_TID \<and> t < MAX_THREAD_COUNT
      \<and> threads pr' ! t = TS_Ready \<and> prio_index (thread_priorities pr' ! t) = k else runnable ps k v)" for k v
    by (rule runnable_update [of ps p pr t pr']) (fact pr other)+
  have "v \<in> set (q' k) \<longleftrightarrow> runnable (ps(p \<mapsto> pr')) k v" if "k < NUM_PRIORITIES" for k v
  proof (cases "v = (p, t)")
    case True
    then show ?thesis using u [OF that] upd [of k v] by simp
  next
    case False
    then have "v \<in> set (q' k) \<longleftrightarrow> v \<in> set (q k)" using q [OF that] by blast
    then show ?thesis
      using False upd [of k v] threads_invD(3) [OF inv that] by simp
  qed
  then have "set (q' k) = {v. runnable (ps(p \<mapsto> pr')) k v}" if "k < NUM_PRIORITIES" for k
    using that by blast
  moreover have "wf_process a b" if "(ps(p \<mapsto> pr')) a = Some b" for a b
    using that wf threads_invD(2) [OF inv] by (auto split: if_splits)
  ultimately show ?thesis
    unfolding threads_inv_def using rel irq by blast
qed

lemma set_thread_state_sim:
  assumes inv: "threads_inv ps s q" and pr: "ps p = Some pr" and t: "t < MAX_THREAD_COUNT"
    and ok: "\<not> state_change_panics ps pr t st"
  shows "\<exists>s'. set_thread_state t st (pr, s) = (Done (), (pr\<lparr>threads := (threads pr)[t := st]\<rparr>, s'))
    \<and> threads_inv (ps(p \<mapsto> pr\<lparr>threads := (threads pr)[t := st]\<rparr>)) s' (requeue pr t st q)"
proof -
  let ?pr = "pr\<lparr>threads := (threads pr)[t := st]\<rparr>" and ?prio = "thread_priorities pr ! t"
  let ?k = "prio_index ?prio" and ?u = "(p, t)"
  have wf: "wf_process p pr" using threads_invD(2) [OF inv pr] .
  then have wf': "wf_process p ?pr" and pid: "proc_pid pr = p" and len: "length (threads pr) = MAX_THREAD_COUNT"
    by (simp_all add: wf_process_def)
  note run = set_thread_state_run [OF wf_process_has_thread [OF wf t], of st s]
  have rel: "sched_rel s q" using threads_invD(1) [OF inv] .
  have irqs: "in_irq (ps(p \<mapsto> ?pr)) a \<longleftrightarrow> (if a = p \<and> t = IRQ_TID then st = TS_Ready else in_irq ps a)" for a
    using pr len t by (auto simp: in_irq_update in_irq_def nth_list_update)
  have inq: "?u \<in> set (q k) \<longleftrightarrow> t \<noteq> IRQ_TID \<and> threads pr ! t = TS_Ready \<and> k = ?k" if "k < NUM_PRIORITIES" for k
    using threads_invD(3) [OF inv that] pr t by (auto simp: runnable_def)
  have finish: "threads_inv (ps(p \<mapsto> ?pr)) s' q'"
    if "sched_rel s' q'" "\<And>k. k < NUM_PRIORITIES \<Longrightarrow> set (q' k) - {?u} = set (q k) - {?u}"
      "\<And>k. k < NUM_PRIORITIES \<Longrightarrow> ?u \<in> set (q' k) \<longleftrightarrow> t \<noteq> IRQ_TID \<and> st = TS_Ready \<and> k = ?k"
      "in_irq_handler s' \<longleftrightarrow> (\<exists>a. in_irq (ps(p \<mapsto> ?pr)) a)"
      "\<And>a b. in_irq (ps(p \<mapsto> ?pr)) a \<Longrightarrow> in_irq (ps(p \<mapsto> ?pr)) b \<Longrightarrow> a = b" for s' q'
    using threads_inv_update [OF inv pr that(1) wf', of t] that(2-) t len by auto
  show ?thesis
  proof (cases "t = IRQ_TID")
    case True
    define s' where "s' = (if threads pr ! t = TS_Ready \<and> st \<noteq> TS_Ready then s\<lparr>in_irq_handler := False\<rparr>
      else if threads pr ! t \<noteq> TS_Ready \<and> st = TS_Ready then s\<lparr>in_irq_handler := True\<rparr> else s)"
    have irq: "in_irq_handler s \<longleftrightarrow> (\<exists>a. in_irq ps a)" using threads_invD(4) [OF inv] .
    have self: "in_irq ps p \<longleftrightarrow> threads pr ! t = TS_Ready" using pr True by (simp add: in_irq_def)
    have "set_thread_state t st (pr, s) = (Done (), (?pr, s'))"
      unfolding run using ok True irq self
      by (auto simp: s'_def park_thread_def ready_thread_def state_change_panics_def)
    moreover have "threads_inv (ps(p \<mapsto> ?pr)) s' q"
    proof (rule finish)
      show "in_irq_handler s' \<longleftrightarrow> (\<exists>a. in_irq (ps(p \<mapsto> ?pr)) a)"
        unfolding irqs using True irq self threads_invD(5) [OF inv, of p] by (auto simp: s'_def)
      show "a = b" if "in_irq (ps(p \<mapsto> ?pr)) a" "in_irq (ps(p \<mapsto> ?pr)) b" for a b
        using that ok True self threads_invD(5) [OF inv, of a b]
        unfolding irqs by (auto simp: state_change_panics_def split: if_splits)
    qed (use rel True inq in \<open>auto simp: s'_def\<close>)
    ultimately show ?thesis using True by (auto simp: requeue_def)
  next
    case False
    have same: "in_irq (ps(p \<mapsto> ?pr)) a \<longleftrightarrow> in_irq ps a" for a using irqs False by simp
    have irq: "in_irq_handler s \<longleftrightarrow> (\<exists>a. in_irq (ps(p \<mapsto> ?pr)) a)"
      "\<And>a b. in_irq (ps(p \<mapsto> ?pr)) a \<Longrightarrow> in_irq (ps(p \<mapsto> ?pr)) b \<Longrightarrow> a = b"
      unfolding same using threads_invD(4,5) [OF inv] by blast+
    consider (park) "threads pr ! t = TS_Ready" "st \<noteq> TS_Ready" | (ready) "threads pr ! t \<noteq> TS_Ready" "st = TS_Ready"
      | (same) "threads pr ! t = TS_Ready \<longleftrightarrow> st = TS_Ready" by blast
    then show ?thesis
    proof cases
      case park
      have "?u \<in> set (q ?k)" using inq [of ?k] False park by simp
      moreover obtain u where "ready_in q u" "u \<noteq> ?u"
        using ok False park pid ready_in_runnable [OF inv] by (auto simp: state_change_panics_def)
      ultimately obtain s' where s': "park_thread s ?u ?prio = (Done (), s')" "sched_rel s' (q_park ?u ?k q)"
        "in_irq_handler s' = in_irq_handler s"
        using park_thread_sim [OF rel] by blast
      have "threads_inv (ps(p \<mapsto> ?pr)) s' (q_park ?u ?k q)"
        by (rule finish [OF s'(2)])
          (use irq s'(3) inq False park threads_inv_distinct [OF inv, of ?k] in
            \<open>auto simp: q_park_def\<close>)
      then show ?thesis using run s' park pid False by (simp add: requeue_def)
    next
      case ready
      have "\<not> ready_in q ?u" using inq ready by (auto simp: ready_in_def)
      then obtain s' where s': "ready_thread s ?u ?prio = (Done (), s')" "sched_rel s' (q_ready ?u ?k q)"
        "in_irq_handler s' = in_irq_handler s"
        using ready_thread_sim [OF rel thread_in_table [OF wf False t]] by blast
      have "threads_inv (ps(p \<mapsto> ?pr)) s' (q_ready ?u ?k q)"
        by (rule finish [OF s'(2)]) (use irq s'(3) inq False ready in \<open>auto simp: q_ready_def\<close>)
      then show ?thesis using run s' ready pid False by (simp add: requeue_def)
    next
      case same
      have "threads_inv (ps(p \<mapsto> ?pr)) s q"
        by (rule finish [OF rel]) (use irq inq False same in auto)
      then show ?thesis using run same False by (auto simp: requeue_def)
    qed
  qed
qed

lemma distinct_singleton: "set xs = {x} \<Longrightarrow> distinct xs \<Longrightarrow> xs = [x]"
  by (cases xs; cases "tl xs") auto

lemma set_thread_state_panics:
  assumes inv: "threads_inv ps s q" and pr: "ps p = Some pr" and t: "t < MAX_THREAD_COUNT"
    and bad: "state_change_panics ps pr t st"
  shows "fst (set_thread_state t st (pr, s)) = Panic"
proof -
  have wf: "wf_process p pr" using threads_invD(2) [OF inv pr] .
  then have pid: "proc_pid pr = p" by (simp add: wf_process_def)
  note run = set_thread_state_run [OF wf_process_has_thread [OF wf t], of st s]
  show ?thesis
  proof (cases "t = IRQ_TID")
    case True
    then show ?thesis unfolding run
      using bad threads_invD(4) [OF inv] by (auto simp: state_change_panics_def ready_thread_def)
  next
    case False
    let ?k = "prio_index (thread_priorities pr ! t)"
    have st: "threads pr ! t = TS_Ready" "st \<noteq> TS_Ready" and only: "\<And>k u. runnable ps k u \<Longrightarrow> u = (p, t)"
      using bad False pid by (auto simp: state_change_panics_def)
    have "runnable ps ?k (p, t)" using pr False t st by (simp add: runnable_def)
    then have "set (q ?k) = {(p, t)}"
      using threads_invD(3) [OF inv prio_index_bound [of "thread_priorities pr ! t"]] only by blast
    then have "q ?k = [(p, t)]"
      using threads_inv_distinct [OF inv prio_index_bound [of "thread_priorities pr ! t"]]
      by (rule distinct_singleton)
    then have "fst (park_thread s (p, t) (thread_priorities pr ! t)) = Panic"
      using park_thread_last_panics [OF threads_invD(1) [OF inv]] ready_in_runnable [OF inv] only by blast
    then show ?thesis unfolding run using st pid by (auto split: prod.splits outcome.splits)
  qed
qed

text \<open>Changing the priority of a thread moves it to the end of its new queue, if it is ready.\<close>

definition reprioritise :: "process \<Rightarrow> tid \<Rightarrow> thread_priority \<Rightarrow> ready_queues \<Rightarrow> ready_queues" where
  "reprioritise pr t prio q =
     (let k = prio_index (thread_priorities pr ! t); u = (proc_pid pr, t) in
      if thread_priorities pr ! t = prio \<or> threads pr ! t \<noteq> TS_Ready then q
      else q_ready u (prio_index prio) (q_park u k q))"

lemma set_thread_priority_sim:
  assumes inv: "threads_inv ps s q" and pr: "ps p = Some pr"
    and t: "t < MAX_THREAD_COUNT" "t \<noteq> IRQ_TID"
    and ok: "threads pr ! t = TS_Ready \<and> thread_priorities pr ! t \<noteq> prio \<Longrightarrow>
      \<exists>k u. runnable ps k u \<and> u \<noteq> (p, t)"
  shows "\<exists>s'. set_thread_priority t prio (pr, s)
      = (Done (), (pr\<lparr>thread_priorities := (thread_priorities pr)[t := prio]\<rparr>, s'))
    \<and> threads_inv (ps(p \<mapsto> pr\<lparr>thread_priorities := (thread_priorities pr)[t := prio]\<rparr>)) s'
        (reprioritise pr t prio q)"
proof -
  let ?pr = "pr\<lparr>thread_priorities := (thread_priorities pr)[t := prio]\<rparr>" and ?u = "(p, t)"
  let ?old = "thread_priorities pr ! t"
  let ?k = "prio_index ?old"
  have wf: "wf_process p pr" using threads_invD(2) [OF inv pr] .
  then have wf': "wf_process p ?pr" and pid: "proc_pid pr = p" and len: "length (thread_priorities pr) = MAX_THREAD_COUNT"
    by (simp_all add: wf_process_def)
  have has: "has_thread pr t" using wf_process_has_thread [OF wf t(1)] .
  have rel: "sched_rel s q" using threads_invD(1) [OF inv] .
  have irqs: "in_irq (ps(p \<mapsto> ?pr)) a = in_irq ps a" for a
    using pr by (auto simp: in_irq_update in_irq_def)
  have inq: "?u \<in> set (q k) \<longleftrightarrow> threads pr ! t = TS_Ready \<and> k = ?k" if "k < NUM_PRIORITIES" for k
    using threads_invD(3) [OF inv that] pr t by (auto simp: runnable_def)
  have finish: "threads_inv (ps(p \<mapsto> ?pr)) s' q'"
    if "sched_rel s' q'" "\<And>k. k < NUM_PRIORITIES \<Longrightarrow> set (q' k) - {?u} = set (q k) - {?u}"
      "\<And>k. k < NUM_PRIORITIES \<Longrightarrow> ?u \<in> set (q' k) \<longleftrightarrow> threads pr ! t = TS_Ready \<and> k = prio_index prio"
      "in_irq_handler s' = in_irq_handler s" for s' q'
  proof (rule threads_inv_update [OF inv pr that(1) wf', of t])
    show "in_irq_handler s' \<longleftrightarrow> (\<exists>a. in_irq (ps(p \<mapsto> ?pr)) a)"
      unfolding irqs that(4) using threads_invD(4) [OF inv] .
    show "a = b" if "in_irq (ps(p \<mapsto> ?pr)) a" "in_irq (ps(p \<mapsto> ?pr)) b" for a b
      using that unfolding irqs by (rule threads_invD(5) [OF inv])
  qed (use that t len in auto)
  show ?thesis
  proof (cases "?old = prio \<or> threads pr ! t \<noteq> TS_Ready")
    case True
    have "threads_inv (ps(p \<mapsto> ?pr)) s q"
      by (rule finish [OF rel]) (use inq True in auto)
    moreover have "thread_priorities pr = (thread_priorities pr)[t := prio]" if "?old = prio"
      using that by (metis list_update_id)
    ultimately show ?thesis
      using True has by (auto simp: set_thread_priority_def reprioritise_def Let_def)
  next
    case False
    then have "?u \<in> set (q ?k)" using inq [of ?k] by simp
    moreover obtain u where "ready_in q u" "u \<noteq> ?u"
      using ok False ready_in_runnable [OF inv] by auto
    ultimately obtain s1 where s1: "park_thread s ?u ?old = (Done (), s1)" "sched_rel s1 (q_park ?u ?k q)"
      "in_irq_handler s1 = in_irq_handler s"
      using park_thread_sim [OF rel] by blast
    have "\<not> ready_in (q_park ?u ?k q) ?u"
      using inq threads_inv_distinct [OF inv] by (auto simp: ready_in_def q_park_def)
    then obtain s2 where s2: "ready_thread s1 ?u prio = (Done (), s2)"
      "sched_rel s2 (q_ready ?u (prio_index prio) (q_park ?u ?k q))"
      "in_irq_handler s2 = in_irq_handler s1"
      using ready_thread_sim [OF s1(2) thread_in_table [OF wf t(2,1)]] by blast
    have "threads_inv (ps(p \<mapsto> ?pr)) s2 (q_ready ?u (prio_index prio) (q_park ?u ?k q))"
      by (rule finish [OF s2(2)])
        (use s1(3) s2(3) inq False threads_inv_distinct [OF inv, of ?k] in
          \<open>auto simp: q_ready_def q_park_def\<close>)
    then show ?thesis
      using s1 s2 False has pid
      by (auto simp: set_thread_priority_def reprioritise_def on_scheduler_def Let_def)
  qed
qed


section \<open>Waking and freeing threads\<close>

text \<open>The effect of waking \<open>ts\<close>: the states, and the queues in the order of the loop.\<close>

definition make_ready :: "tid list \<Rightarrow> process \<Rightarrow> process" where
  "make_ready ts pr = pr\<lparr>threads := fold (\<lambda>t xs. xs[t := TS_Ready]) ts (threads pr)\<rparr>"

definition append_ready :: "tid list \<Rightarrow> process \<Rightarrow> ready_queues \<Rightarrow> ready_queues" where
  "append_ready ts pr q =
     fold (\<lambda>t. q_ready (proc_pid pr, t) (prio_index (thread_priorities pr ! t))) ts q"

lemma make_ready_simps [simp]:
  "make_ready [] pr = pr"
  "make_ready (t # ts) pr = make_ready ts (pr\<lparr>threads := (threads pr)[t := TS_Ready]\<rparr>)"
  by (simp_all add: make_ready_def)

lemma append_ready_simps [simp]:
  "append_ready [] pr q = q"
  "append_ready (t # ts) pr q
     = append_ready ts pr (q_ready (proc_pid pr, t) (prio_index (thread_priorities pr ! t)) q)"
  by (simp_all add: append_ready_def)

lemma append_ready_cong [simp]: "append_ready ts (pr\<lparr>threads := x\<rparr>) q = append_ready ts pr q"
  by (simp add: append_ready_def)

lemma make_ready_fields [simp]:
  "proc_pid (make_ready ts pr) = proc_pid pr"
  "thread_priorities (make_ready ts pr) = thread_priorities pr"
  by (simp_all add: make_ready_def)

lemma make_ready_length [simp]: "length (threads (make_ready ts pr)) = length (threads pr)"
  by (induction ts arbitrary: pr) auto

lemma make_ready_nth:
  "i < length (threads pr) \<Longrightarrow> threads (make_ready ts pr) ! i = (if i \<in> set ts then TS_Ready else threads pr ! i)"
  by (induction ts arbitrary: pr) (auto simp: nth_update_if)

lemma filter_threads_cong:
  "t \<notin> set ts \<Longrightarrow> filter (\<lambda>i. (threads pr)[t := x] ! i = st) ts = filter (\<lambda>i. threads pr ! i = st) ts"
  by (rule filter_cong) (auto simp: nth_update_if)

lemma wake_loop_sim:
  assumes "threads_inv ps s q" and "ps p = Some pr" and "distinct ts" and "n > 0" and "st \<noteq> TS_Ready"
    and "\<And>t. t \<in> set ts \<Longrightarrow> t \<noteq> IRQ_TID \<and> t < MAX_THREAD_COUNT"
  shows "\<exists>s'. wake_loop ts st n (pr, s)
      = (Done (), (make_ready (take n (filter (\<lambda>t. threads pr ! t = st) ts)) pr, s'))
    \<and> threads_inv (ps(p \<mapsto> make_ready (take n (filter (\<lambda>t. threads pr ! t = st) ts)) pr)) s'
        (append_ready (take n (filter (\<lambda>t. threads pr ! t = st) ts)) pr q)"
  using assms
proof (induction ts arbitrary: n pr s q ps)
  case Nil
  then show ?case by (simp add: map_upd_triv)
next
  case (Cons t ts)
  show ?case
  proof (cases "threads pr ! t = st")
    case False
    then show ?thesis using Cons.IH [OF Cons.prems(1,2)] Cons.prems(3-6) by simp
  next
    case True
    let ?pr = "pr\<lparr>threads := (threads pr)[t := TS_Ready]\<rparr>"
    have t: "t \<noteq> IRQ_TID" "t < MAX_THREAD_COUNT" using Cons.prems(6) by simp_all
    have "\<not> state_change_panics ps pr t TS_Ready"
      using t True Cons.prems(5) by (simp add: state_change_panics_def)
    then obtain s1 where s1: "set_thread_state t TS_Ready (pr, s) = (Done (), (?pr, s1))"
      and inv1: "threads_inv (ps(p \<mapsto> ?pr)) s1 (requeue pr t TS_Ready q)"
      using set_thread_state_sim [OF Cons.prems(1,2) t(2)] by blast
    have rq: "requeue pr t TS_Ready q = q_ready (proc_pid pr, t) (prio_index (thread_priorities pr ! t)) q"
      using t True Cons.prems(5) by (simp add: requeue_def Let_def)
    have rest: "filter (\<lambda>i. threads ?pr ! i = st) ts = filter (\<lambda>i. threads pr ! i = st) ts"
      using Cons.prems(3) by (simp add: filter_threads_cong)
    obtain m where n: "n = Suc m" using Cons.prems(4) by (cases n) auto
    show ?thesis
    proof (cases "m = 0")
      case True
      then show ?thesis using \<open>threads pr ! t = st\<close> s1 inv1 rq n by (simp add: fun_upd_def)
    next
      case False
      have "\<exists>s'. wake_loop ts st m (?pr, s1) = (Done (), (make_ready (take m (filter (\<lambda>t. threads ?pr ! t = st) ts)) ?pr, s'))
        \<and> threads_inv (ps(p \<mapsto> ?pr, p \<mapsto> make_ready (take m (filter (\<lambda>t. threads ?pr ! t = st) ts)) ?pr)) s'
            (append_ready (take m (filter (\<lambda>t. threads ?pr ! t = st) ts)) ?pr (requeue pr t TS_Ready q))"
        by (rule Cons.IH [OF inv1]) (use False Cons.prems in auto)
      then show ?thesis using \<open>threads pr ! t = st\<close> s1 rq n False unfolding rest fun_upd_upd by (simp add: fun_upd_def)
    qed
  qed
qed


definition make_free :: "tid list \<Rightarrow> process \<Rightarrow> process" where
  "make_free ts pr = pr\<lparr>threads := fold (\<lambda>t xs. xs[t := TS_Free]) ts (threads pr)\<rparr>"

lemma make_free_simps [simp]:
  "make_free [] pr = pr"
  "make_free (t # ts) pr = make_free ts (pr\<lparr>threads := (threads pr)[t := TS_Free]\<rparr>)"
  by (simp_all add: make_free_def)

lemma make_free_length [simp]: "length (threads (make_free ts pr)) = length (threads pr)"
  by (induction ts arbitrary: pr) auto

lemma make_free_nth:
  "i < length (threads pr) \<Longrightarrow> threads (make_free ts pr) ! i = (if i \<in> set ts then TS_Free else threads pr ! i)"
  by (induction ts arbitrary: pr) (auto simp: nth_update_if)

lemma removeAll_as_filter: "removeAll x xs = filter (\<lambda>u. u \<noteq> x) xs"
  by (induction xs) auto

lemma requeue_free:
  assumes inv: "threads_inv ps s q" and pr: "ps p = Some pr" and t: "t \<noteq> IRQ_TID" "t < MAX_THREAD_COUNT"
    and k: "k < NUM_PRIORITIES"
  shows "requeue pr t TS_Free q k = filter (\<lambda>u. u \<noteq> (p, t)) (q k)"
proof -
  have pid: "proc_pid pr = p" using threads_invD(2) [OF inv pr] by (simp add: wf_process_def)
  have inq: "(p, t) \<in> set (q k) \<longleftrightarrow> threads pr ! t = TS_Ready \<and> k = prio_index (thread_priorities pr ! t)"
    using threads_invD(3) [OF inv k] pr t by (auto simp: runnable_def)
  have "filter (\<lambda>u. u \<noteq> (p, t)) (q k) = remove1 (p, t) (q k)"
    using threads_inv_distinct [OF inv k] by (simp add: distinct_remove1_removeAll removeAll_as_filter)
  moreover have "remove1 (p, t) (q k) = q k" if "(p, t) \<notin> set (q k)"
    using that by (rule remove1_idem)
  ultimately show ?thesis using inq t pid by (auto simp: requeue_def q_park_def Let_def)
qed

lemma free_threads_sim:
  assumes "threads_inv ps s q" and "ps p = Some pr" and "runnable ps k0 u0" and "fst u0 \<noteq> p"
    and "\<And>t. t \<in> set ts \<Longrightarrow> t \<noteq> IRQ_TID \<and> t < MAX_THREAD_COUNT"
  shows "\<exists>s' q'. free_threads ts (pr, s) = (Done (), (make_free ts pr, s'))
    \<and> threads_inv (ps(p \<mapsto> make_free ts pr)) s' q'
    \<and> (\<forall>k < NUM_PRIORITIES. q' k = filter (\<lambda>u. \<not> (fst u = p \<and> snd u \<in> set ts)) (q k))"
  using assms
proof (induction ts arbitrary: pr s q ps)
  case Nil
  then show ?case by (auto simp: map_upd_triv)
next
  case (Cons t ts)
  let ?pr = "pr\<lparr>threads := (threads pr)[t := TS_Free]\<rparr>"
  have t: "t \<noteq> IRQ_TID" "t < MAX_THREAD_COUNT" using Cons.prems(5) by simp_all
  have "proc_pid pr = p" using threads_invD(2) [OF Cons.prems(1,2)] by (simp add: wf_process_def)
  moreover have "u0 \<noteq> (p, t)" using Cons.prems(4) by auto
  ultimately have "\<not> state_change_panics ps pr t TS_Free"
    unfolding state_change_panics_def using t Cons.prems(3) by metis
  then obtain s1 where s1: "set_thread_state t TS_Free (pr, s) = (Done (), (?pr, s1))"
    and inv1: "threads_inv (ps(p \<mapsto> ?pr)) s1 (requeue pr t TS_Free q)"
    using set_thread_state_sim [OF Cons.prems(1,2) t(2)] by blast
  have "runnable (ps(p \<mapsto> ?pr)) k0 u0" using Cons.prems(3,4) by (simp add: runnable_def)
  then obtain s' q' where
    "free_threads ts (?pr, s1) = (Done (), (make_free ts ?pr, s'))"
    "threads_inv (ps(p \<mapsto> ?pr, p \<mapsto> make_free ts ?pr)) s' q'"
    "\<forall>k < NUM_PRIORITIES. q' k = filter (\<lambda>u. \<not> (fst u = p \<and> snd u \<in> set ts)) (requeue pr t TS_Free q k)"
    using Cons.IH [OF inv1 _ _ Cons.prems(4)] Cons.prems(5) by fastforce
  moreover have "filter (\<lambda>u. \<not> (fst u = p \<and> snd u \<in> set ts)) (requeue pr t TS_Free q k)
      = filter (\<lambda>u. \<not> (fst u = p \<and> snd u \<in> set (t # ts))) (q k)" if "k < NUM_PRIORITIES" for k
    unfolding requeue_free [OF Cons.prems(1,2) t that] by (auto intro: filter_cong)
  ultimately show ?case using s1 unfolding fun_upd_upd by (auto simp: fun_upd_def)
qed


section \<open>Every reachable system\<close>

text \<open>
  The thread systems the kernel can get into: every call it makes on them, as long as none
  panics. No process is ended while it runs its interrupt handler; what happens then is
  \<open>end_in_interrupt_sticks\<close> below.
\<close>

inductive reachable :: "thread_system \<Rightarrow> bool" where
  boot: "boot_threads = (Done (), y) \<Longrightarrow> reachable y"
| state: "\<lbrakk>reachable y; t < MAX_THREAD_COUNT; on_process p (set_thread_state t st) y = (Done (), y')\<rbrakk>
    \<Longrightarrow> reachable y'"
| priority: "\<lbrakk>reachable y; t < MAX_THREAD_COUNT; t \<noteq> IRQ_TID;
    on_process p (set_thread_priority t prio) y = (Done (), y')\<rbrakk> \<Longrightarrow> reachable y'"
| wake: "\<lbrakk>reachable y; st \<noteq> TS_Ready; wake_all_threads_with_state st n y = (Done (), y')\<rbrakk> \<Longrightarrow> reachable y'"
| create: "\<lbrakk>reachable y; create_process panic_pid ppid app name mapping load y = (Done p, y')\<rbrakk>
    \<Longrightarrow> reachable y'"
| end_: "\<lbrakk>reachable y; \<not> in_irq (procs y) p; end_process p y = (Done (), y')\<rbrakk> \<Longrightarrow> reachable y'"
| yield: "\<lbrakk>reachable y; yield_thread (sched y) u prio = (Done (), s')\<rbrakk> \<Longrightarrow> reachable (y\<lparr>sched := s'\<rparr>)"

lemma on_process_cases:
  assumes "on_process p f y = (Done r, y')"
  obtains pr pr' s' where "1 \<le> p" "p \<le> MAX_PROCESS_COUNT" "procs y p = Some pr"
    "f (pr, sched y) = (Done r, (pr', s'))" "y' = \<lparr>procs = (procs y)(p \<mapsto> pr'), sched = s'\<rparr>"
  using assms by (auto simp: on_process_def get_process_def split: option.splits prod.splits if_splits)

lemma set_thread_state_Done:
  assumes "threads_inv ps s q" and "ps p = Some pr" and "t < MAX_THREAD_COUNT"
    and "set_thread_state t st (pr, s) = (Done (), (pr', s'))"
  shows "pr' = pr\<lparr>threads := (threads pr)[t := st]\<rparr>" and "threads_inv (ps(p \<mapsto> pr')) s' (requeue pr t st q)"
proof -
  have "\<not> state_change_panics ps pr t st"
  proof
    assume "state_change_panics ps pr t st"
    from set_thread_state_panics [OF assms(1-3) this] assms(4) show False by simp
  qed
  from set_thread_state_sim [OF assms(1-3) this] assms(4)
  have res: "pr' = pr\<lparr>threads := (threads pr)[t := st]\<rparr> \<and> threads_inv (ps(p \<mapsto> pr')) s' (requeue pr t st q)"
    by auto
  show "pr' = pr\<lparr>threads := (threads pr)[t := st]\<rparr>" using res by (rule conjunct1)
  show "threads_inv (ps(p \<mapsto> pr')) s' (requeue pr t st q)" using res by (rule conjunct2)
qed

lemma set_thread_priority_panics:
  assumes inv: "threads_inv ps s q" and pr: "ps p = Some pr" and t: "t < MAX_THREAD_COUNT" "t \<noteq> IRQ_TID"
    and bad: "threads pr ! t = TS_Ready" "thread_priorities pr ! t \<noteq> prio" "\<And>k u. runnable ps k u \<Longrightarrow> u = (p, t)"
  shows "fst (set_thread_priority t prio (pr, s)) = Panic"
proof -
  have wf: "wf_process p pr" using threads_invD(2) [OF inv pr] .
  then have pid: "proc_pid pr = p" by (simp add: wf_process_def)
  have "fst (set_thread_state t TS_Free (pr, s)) = Panic"
    by (rule set_thread_state_panics [OF inv pr t(1)]) (use t bad pid in \<open>auto simp: state_change_panics_def\<close>)
  then have "fst (park_thread s (p, t) (thread_priorities pr ! t)) = Panic"
    using set_thread_state_run [OF wf_process_has_thread [OF wf t(1)], of TS_Free s] bad pid
    by (auto split: prod.splits outcome.splits)
  then show ?thesis
    using bad pid wf_process_has_thread [OF wf t(1)]
    by (auto simp: set_thread_priority_def on_scheduler_def Let_def seq_def split: prod.splits)
qed

lemma free_threads_Done:
  "threads_inv ps s q \<Longrightarrow> ps p = Some pr \<Longrightarrow> \<forall>t \<in> set ts. t < MAX_THREAD_COUNT \<Longrightarrow>
   free_threads ts (pr, s) = (Done (), (pr', s')) \<Longrightarrow>
   pr' = make_free ts pr \<and> (\<exists>q'. threads_inv (ps(p \<mapsto> pr')) s' q')"
proof (induction ts arbitrary: ps s q pr)
  case Nil
  then show ?case by (auto simp: map_upd_triv)
next
  case (Cons t ts)
  obtain r pr1 s1 where run: "set_thread_state t TS_Free (pr, s) = (r, (pr1, s1))" by (metis prod.exhaust)
  then have r: "r = Done ()" using Cons.prems(4) by (cases r) auto
  have "t < MAX_THREAD_COUNT" using Cons.prems(3) by simp
  note step = set_thread_state_Done [OF Cons.prems(1,2) this run [unfolded r]]
  have "pr' = make_free ts pr1 \<and> (\<exists>q'. threads_inv (ps(p \<mapsto> pr1, p \<mapsto> pr')) s' q')"
    by (rule Cons.IH [OF step(2)]) (use run r Cons.prems in auto)
  then show ?case unfolding make_free_simps step(1) fun_upd_upd by blast
qed

text \<open>Only the threads, priorities and PIDs matter, and a process without ready threads does not.\<close>

lemma threads_inv_map:
  assumes inv: "threads_inv ps s q"
    and f: "\<And>pr. threads (f pr) = threads pr" "\<And>pr. thread_priorities (f pr) = thread_priorities pr"
      "\<And>pr. proc_pid (f pr) = proc_pid pr"
  shows "threads_inv (\<lambda>i. map_option f (ps i)) s q"
proof -
  have "runnable (\<lambda>i. map_option f (ps i)) k u = runnable ps k u" for k u
    by (auto simp: runnable_def f)
  moreover have "in_irq (\<lambda>i. map_option f (ps i)) p = in_irq ps p" for p
    by (auto simp: in_irq_def f)
  moreover have "wf_process p (f pr) = wf_process p pr" for p pr
    by (simp add: wf_process_def f)
  ultimately show ?thesis using inv unfolding threads_inv_def by auto
qed

lemma threads_inv_idle_process:
  assumes "\<And>k t. \<not> runnable ps k (p, t)" and "\<not> in_irq ps p"
    and "\<And>k t. \<not> runnable (ps(p := o')) k (p, t)" and "\<not> in_irq (ps(p := o')) p"
    and "\<And>pr. o' = Some pr \<Longrightarrow> wf_process p pr"
    and "threads_inv ps s q"
  shows "threads_inv (ps(p := o')) s q"
proof -
  have "runnable (ps(p := o')) k u = runnable ps k u" for k u
  proof (cases "fst u = p")
    case True
    then show ?thesis using assms(1,3) by (metis prod.collapse)
  next
    case False
    then show ?thesis by (simp add: runnable_def)
  qed
  moreover have "in_irq (ps(p := o')) a = in_irq ps a" for a
    using assms(2,4) by (cases "a = p") (auto simp: in_irq_def)
  ultimately show ?thesis
    using assms(5,6) unfolding threads_inv_def by (auto split: if_splits)
qed


text \<open>The threads that a wake-up of at most \<open>n\<close> picks: the first in the order of their ids.\<close>

definition woken :: "thread_state \<Rightarrow> nat \<Rightarrow> process \<Rightarrow> tid list" where
  "woken st n pr = take n (filter (\<lambda>t. threads pr ! t = st) [1..<MAX_THREAD_COUNT])"

lemma wake_sim:
  assumes inv: "threads_inv ps s q" and pr: "ps p = Some pr" and st: "st \<noteq> TS_Ready"
  shows "\<exists>s'. wake_threads_with_state st n (pr, s) = (Done (), (make_ready (woken st n pr) pr, s'))
    \<and> threads_inv (ps(p \<mapsto> make_ready (woken st n pr) pr)) s' (append_ready (woken st n pr) pr q)"
proof (cases "n = 0")
  case True
  then show ?thesis using inv pr by (simp add: wake_threads_with_state_def woken_def map_upd_triv)
next
  case False
  have ts: "\<And>t. t \<in> set [1..<MAX_THREAD_COUNT] \<Longrightarrow> t \<noteq> IRQ_TID \<and> t < MAX_THREAD_COUNT"
    by (simp add: IRQ_TID_def)
  have "n > 0" using False by simp
  note wake_loop_sim [OF inv pr distinct_upt [of 1 MAX_THREAD_COUNT] this st ts]
  then show ?thesis using False unfolding wake_threads_with_state_def woken_def by simp
qed

lemma wake_processes_Done:
  "\<lbrakk>wake_processes ps st n y = (Done (), y'); threads_inv (procs y) (sched y) q; st \<noteq> TS_Ready\<rbrakk>
   \<Longrightarrow> \<exists>q'. threads_inv (procs y') (sched y') q'"
proof (induction ps arbitrary: y q)
  case Nil
  then show ?case by auto
next
  case (Cons p ps)
  show ?case
  proof (cases "get_process y p = None")
    case True
    then show ?thesis using Cons by simp
  next
    case False
    obtain r y1 where run: "on_process p (wake_threads_with_state st n) y = (r, y1)" by (metis prod.exhaust)
    then have r: "r = Done ()" and rest: "wake_processes ps st n y1 = (Done (), y')"
      using Cons.prems(1) False by (cases r; simp)+
    obtain pr pr' s' where pr: "procs y p = Some pr"
      and w: "wake_threads_with_state st n (pr, sched y) = (Done (), (pr', s'))"
      and y1: "y1 = \<lparr>procs = (procs y)(p \<mapsto> pr'), sched = s'\<rparr>"
      using on_process_cases [OF run [unfolded r]] by metis
    obtain q1 where q1: "threads_inv ((procs y)(p \<mapsto> pr')) s' q1"
      using wake_sim [OF Cons.prems(2) pr Cons.prems(3), of n] w by auto
    show ?thesis
      by (rule Cons.IH [OF rest _ Cons.prems(3), of q1]) (simp only: y1 thread_system.simps q1)
  qed
qed

lemma fresh_not_runnable: "\<not> runnable (ps(p \<mapsto> make_free [1..<MAX_THREAD_COUNT] pr)) k (p, t)"
  if "length (threads pr) = MAX_THREAD_COUNT"
  using that by (auto simp: runnable_def make_free_nth IRQ_TID_def)

lemma process_new_threads [simp]:
  "threads (process_new p pp app) = replicate MAX_THREAD_COUNT TS_Free"
  "thread_priorities (process_new p pp app) = replicate MAX_THREAD_COUNT AppDefault"
  "proc_pid (process_new p pp app) = p" "process_name (process_new p pp app) = None"
  by (simp_all add: process_new_def process_name_def)

lemma set_name_threads:
  assumes "set_name name pr = (r, pr')"
  shows "threads pr' = threads pr" "thread_priorities pr' = thread_priorities pr" "proc_pid pr' = proc_pid pr"
  using assms by (auto simp: set_name_def split: if_splits)

lemma threads_inv_new:
  assumes "threads_inv ps s q" and "ps p = None" and "1 \<le> p" and "p \<le> MAX_PROCESS_COUNT"
    and pr: "threads pr = replicate MAX_THREAD_COUNT TS_Free" "length (thread_priorities pr) = MAX_THREAD_COUNT" "proc_pid pr = p"
  shows "threads_inv (ps(p \<mapsto> pr)) s q"
  by (rule threads_inv_idle_process)
    (use assms in \<open>auto simp: runnable_def in_irq_def wf_process_def MAX_THREAD_COUNT_def IRQ_TID_def\<close>)

lemma create_process_Done:
  assumes "threads_inv (procs y) (sched y) q"
    and "create_process panic_pid ppid app name mapping load y = (Done p, y')"
  shows "procs y p = None \<and> 1 \<le> p \<and> p \<le> MAX_PROCESS_COUNT \<and> panic_pid \<noteq> Some p
    \<and> (\<exists>pr. procs y' = (procs y)(p \<mapsto> pr) \<and> runnable (procs y') (prio_index AppDefault) (p, INITIAL_TID))
    \<and> threads_inv (procs y') (sched y') (q_ready (p, INITIAL_TID) (prio_index AppDefault) q)
    \<and> \<not> in_irq (procs y') p"
proof -
  obtain slot where slot: "find_index (\<lambda>i. procs y (i + 1) = None \<and> panic_pid \<noteq> Some (i + 1)) [0..<MAX_PROCESS_COUNT] = Some slot"
    using assms(2) by (auto simp: create_process_def split: option.splits)
  have mapping: "mapping = Done ()" using assms(2) slot by (cases mapping) (auto simp: create_process_def)
  obtain pr where pr: "set_name name (process_new (slot + 1) ppid app) = (Done (), pr)"
    using assms(2) slot mapping
    by (cases "set_name name (process_new (slot + 1) ppid app)")
      (auto simp: create_process_def Let_def split: outcome.splits)
  obtain r pr' s' where run: "set_thread_state INITIAL_TID TS_Ready (pr, sched y) = (r, (pr', s'))"
    by (metis prod.exhaust)
  have r: "r = Done ()" and p: "p = slot + 1" and y': "y' = \<lparr>procs = (procs y)(p \<mapsto> pr'), sched = s'\<rparr>"
    using assms(2) slot mapping pr run
    by (cases r; auto simp: create_process_def Let_def split: outcome.splits)+
  have free: "procs y p = None" "1 \<le> p" "p \<le> MAX_PROCESS_COUNT" "panic_pid \<noteq> Some p"
    using find_index_Some [OF slot] p by (auto simp: nth_upt)
  have flds: "threads pr = replicate MAX_THREAD_COUNT TS_Free" "thread_priorities pr = replicate MAX_THREAD_COUNT AppDefault"
    "proc_pid pr = p" using set_name_threads [OF pr] p by simp_all
  have inv: "threads_inv ((procs y)(p \<mapsto> pr)) (sched y) q"
    by (rule threads_inv_new [OF assms(1) free(1-3)]) (simp_all add: flds)
  have "INITIAL_TID < MAX_THREAD_COUNT" by (simp add: sched_consts)
  note step = set_thread_state_Done [OF inv _ this run [unfolded r], of p]
  have "requeue pr INITIAL_TID TS_Ready q = q_ready (p, INITIAL_TID) (prio_index AppDefault) q"
    by (simp add: requeue_def flds sched_consts)
  then show ?thesis
    using step free y' flds
    by (auto simp: runnable_def in_irq_def sched_consts)
qed

lemma drop_parent_threads [simp]:
  "threads (drop_parent p pr) = threads pr" "thread_priorities (drop_parent p pr) = thread_priorities pr"
  "proc_pid (drop_parent p pr) = proc_pid pr"
  by (simp_all add: drop_parent_def)

lemma terminated_not_runnable:
  assumes "length (threads pr) = MAX_THREAD_COUNT"
  shows "\<not> runnable (ps(p \<mapsto> make_free [1..<MAX_THREAD_COUNT] pr)) k (p, t)"
proof (cases "t < MAX_THREAD_COUNT \<and> t \<noteq> IRQ_TID")
  case True
  then have "t \<in> set [1..<MAX_THREAD_COUNT]" by (simp add: IRQ_TID_def)
  then have "threads (make_free [1..<MAX_THREAD_COUNT] pr) ! t = TS_Free"
    using True make_free_nth [of t pr "[1..<MAX_THREAD_COUNT]"] assms by simp
  then show ?thesis by (simp add: runnable_def)
qed (auto simp: runnable_def)

lemma terminated_in_irq:
  assumes "length (threads pr) = MAX_THREAD_COUNT"
  shows "in_irq (ps(p \<mapsto> make_free [1..<MAX_THREAD_COUNT] pr)) a \<longleftrightarrow>
    (if a = p then threads pr ! IRQ_TID = TS_Ready else in_irq ps a)"
  using make_free_nth [of IRQ_TID pr "[1..<MAX_THREAD_COUNT]"] assms
  by (auto simp: in_irq_def IRQ_TID_def MAX_THREAD_COUNT_def)

lemma end_process_Done:
  assumes inv: "threads_inv (procs y) (sched y) q" and run: "end_process p y = (Done (), y')"
  obtains pr s1 q1 where "procs y p = Some pr"
    "procs y' = (\<lambda>i. map_option (drop_parent p) (((procs y)(p := None)) i))" "sched y' = s1"
    "free_threads [1..<MAX_THREAD_COUNT] (pr, sched y) = (Done (), (make_free [1..<MAX_THREAD_COUNT] pr, s1))"
    "threads_inv ((procs y)(p \<mapsto> make_free [1..<MAX_THREAD_COUNT] pr)) s1 q1"
proof -
  obtain r y1 where r: "on_process p terminate_threads y = (r, y1)" by (metis prod.exhaust)
  then have rd: "r = Done ()" using run by (cases r) (auto simp: end_process_def)
  obtain pr pr' s1 where pr: "procs y p = Some pr" and t: "terminate_threads (pr, sched y) = (Done (), (pr', s1))"
    and y1: "y1 = \<lparr>procs = (procs y)(p \<mapsto> pr'), sched = s1\<rparr>"
    using on_process_cases [OF r [unfolded rd]] by metis
  have bound: "\<forall>t \<in> set [1..<MAX_THREAD_COUNT]. t < MAX_THREAD_COUNT" by simp
  from free_threads_Done [OF inv pr bound t [unfolded terminate_threads_def]]
  obtain q1 where pr': "pr' = make_free [1..<MAX_THREAD_COUNT] pr" and q1: "threads_inv ((procs y)(p \<mapsto> pr')) s1 q1"
    by blast
  have y': "y' = y1\<lparr>procs := (\<lambda>i. map_option (drop_parent p) (((procs y1)(p := None)) i))\<rparr>"
    using run r rd by (simp add: end_process_def)
  show thesis
    by (rule that [OF pr _ _ _ q1 [unfolded pr']])
      (use y' y1 t pr' in \<open>simp_all add: terminate_threads_def\<close>)
qed

lemma end_process_inv:
  assumes inv: "threads_inv (procs y) (sched y) q" and run: "end_process p y = (Done (), y')"
    and irq: "\<not> in_irq (procs y) p"
  shows "\<exists>q'. threads_inv (procs y') (sched y') q'"
proof (rule end_process_Done [OF inv run])
  fix pr s1 q1
  let ?ps = "(procs y)(p \<mapsto> make_free [1..<MAX_THREAD_COUNT] pr)"
  assume pr: "procs y p = Some pr" and y': "procs y' = (\<lambda>i. map_option (drop_parent p) (((procs y)(p := None)) i))"
    and s1: "sched y' = s1" and q1: "threads_inv ?ps s1 q1"
  have len: "length (threads pr) = MAX_THREAD_COUNT"
    using threads_invD(2) [OF inv pr] by (simp add: wf_process_def)
  have "threads_inv (?ps(p := None)) s1 q1"
  proof (rule threads_inv_idle_process [OF _ _ _ _ _ q1])
    show "\<not> in_irq ?ps p"
      unfolding terminated_in_irq [OF len] using irq pr by (auto simp: in_irq_def)
  qed (use terminated_not_runnable [OF len] in \<open>auto simp: runnable_def in_irq_def\<close>)
  then have "threads_inv ((procs y)(p := None)) s1 q1" unfolding fun_upd_upd .
  from threads_inv_map [OF this, of "drop_parent p"] show ?thesis
    unfolding y' s1 by auto
qed

lemma yield_inv:
  assumes inv: "threads_inv ps s q" and run: "yield_thread s u prio = (Done (), s')"
  shows "\<exists>q'. threads_inv ps s' q'"
proof (cases "queue_heads s ! prio_index prio = Some u")
  case True
  have rel: "sched_rel s q" using threads_invD(1) [OF inv] .
  from yield_thread_sim [OF rel True] run
  have "sched_rel s' (q_yield (prio_index prio) q)" "in_irq_handler s' = in_irq_handler s" by auto
  moreover have "set (q_yield (prio_index prio) q k) = set (q k)" for k by (simp add: q_yield_def)
  ultimately show ?thesis using inv unfolding threads_inv_def by (intro exI) auto
next
  case False
  then show ?thesis using inv run yield_thread_other [OF False] by auto
qed

text \<open>The other fields of a process do not matter.\<close>

lemma threads_inv_same:
  assumes inv: "threads_inv ps s q" and pr: "ps p = Some pr"
    and eq: "threads pr' = threads pr" "thread_priorities pr' = thread_priorities pr" "proc_pid pr' = proc_pid pr"
  shows "threads_inv (ps(p \<mapsto> pr')) s q"
proof -
  have "runnable (ps(p \<mapsto> pr')) k u = runnable ps k u" for k u
    using pr by (auto simp: runnable_def eq)
  moreover have "in_irq (ps(p \<mapsto> pr')) a = in_irq ps a" for a
    using pr by (auto simp: in_irq_def eq)
  moreover have "wf_process p pr' = wf_process p pr" by (simp add: wf_process_def eq)
  ultimately show ?thesis
    using inv pr unfolding threads_inv_def by (auto split: if_splits)
qed

lemma boot_inv:
  "\<exists>y q. boot_threads = (Done (), y) \<and> threads_inv (procs y) (sched y) q
    \<and> procs y 1 \<noteq> None \<and> runnable (procs y) (prio_index Idle) (1, INITIAL_TID)"
proof -
  let ?pr0 = "process_new 1 1 (app_id_from_words (0x31444950, 0, 0, 0))"
  let ?pr1 = "?pr0\<lparr>thread_priorities := (thread_priorities ?pr0)[INITIAL_TID := Idle]\<rparr>"
  have prio: "set_thread_priority INITIAL_TID Idle (?pr0, initial_scheduler) = (Done (), (?pr1, initial_scheduler))"
    by (simp add: set_thread_priority_def has_thread_def sched_consts Let_def)
  have "threads_inv (\<lambda>_. None) initial_scheduler (\<lambda>_. [])"
    using sched_rel_initial
    by (simp add: threads_inv_def runnable_def in_irq_def) (simp add: initial_scheduler_def)
  from threads_inv_new [OF this, of 1 ?pr1]
  have inv: "threads_inv [1 \<mapsto> ?pr1] initial_scheduler (\<lambda>_. [])" by (simp add: MAX_PROCESS_COUNT_def)
  have t: "INITIAL_TID < MAX_THREAD_COUNT" "INITIAL_TID \<noteq> IRQ_TID" by (simp_all add: sched_consts)
  have "\<not> state_change_panics [1 \<mapsto> ?pr1] ?pr1 INITIAL_TID TS_Ready"
    using t by (simp add: state_change_panics_def)
  from set_thread_state_sim [OF inv _ t(1) this, of 1]
  obtain s q where st: "set_thread_state INITIAL_TID TS_Ready (?pr1, initial_scheduler)
      = (Done (), (?pr1\<lparr>threads := (threads ?pr1)[INITIAL_TID := TS_Ready]\<rparr>, s))"
    and q: "threads_inv [1 \<mapsto> ?pr1\<lparr>threads := (threads ?pr1)[INITIAL_TID := TS_Ready]\<rparr>] s q" by auto
  let ?pr2 = "?pr1\<lparr>threads := (threads ?pr1)[INITIAL_TID := TS_Ready]\<rparr>"
  obtain pr3 where nm: "set_name [107, 101, 114, 110, 101, 108] ?pr2 = (Done (), pr3)"
    by (simp add: set_name_def process_name_def process_new_def MAX_PROCESS_NAME_LEN_def)
  let ?pr4 = "pr3\<lparr>syscall_mask := - 1\<rparr>"
  have flds: "threads ?pr4 = threads ?pr2" "thread_priorities ?pr4 = thread_priorities ?pr2" "proc_pid ?pr4 = proc_pid ?pr2"
    using set_name_threads [OF nm] by simp_all
  have "threads_inv ([1 \<mapsto> ?pr2](1 \<mapsto> ?pr4)) s q"
    by (rule threads_inv_same [OF q _ flds]) simp
  then have inv4: "threads_inv [1 \<mapsto> ?pr4] s q" by simp
  have "boot_threads = (Done (), \<lparr>procs = [1 \<mapsto> ?pr4], sched = s\<rparr>)"
    by (simp only: boot_threads_def prio seq_simps st prod.case nm outcome.case)
  moreover have "runnable [1 \<mapsto> ?pr4] (prio_index Idle) (1, INITIAL_TID)"
    using t by (auto simp: runnable_def flds sched_consts)
  ultimately show ?thesis
    using inv4 by (intro exI [of _ "\<lparr>procs = [1 \<mapsto> ?pr4], sched = s\<rparr>"] exI [of _ q]) simp
qed

text \<open>Some thread is always ready.\<close>

abbreviation some_runnable :: "(pid \<Rightarrow> process option) \<Rightarrow> bool" where
  "some_runnable ps \<equiv> (\<exists>k u. runnable ps k u)"

lemma set_thread_state_some:
  assumes inv: "threads_inv ps s q" and pr: "ps p = Some pr" and t: "t < MAX_THREAD_COUNT"
    and run: "set_thread_state t st (pr, s) = (Done (), (pr', s'))" and some: "some_runnable ps"
  shows "some_runnable (ps(p \<mapsto> pr'))"
proof -
  have pr': "pr' = pr\<lparr>threads := (threads pr)[t := st]\<rparr>" using set_thread_state_Done(1) [OF inv pr t run] .
  have wf: "proc_pid pr = p" "length (threads pr) = MAX_THREAD_COUNT"
    using threads_invD(2) [OF inv pr] by (simp_all add: wf_process_def)
  have keep: "runnable (ps(p \<mapsto> pr')) k u" if "runnable ps k u" "u \<noteq> (p, t) \<or> t = IRQ_TID" for k u
    using that pr by (cases u) (auto simp: runnable_def pr' nth_update_if)
  have ok: "\<not> state_change_panics ps pr t st"
  proof
    assume "state_change_panics ps pr t st"
    from set_thread_state_panics [OF inv pr t this] run show False by simp
  qed
  obtain k u where u: "runnable ps k u" using some by blast
  show ?thesis
  proof (cases "t = IRQ_TID \<or> u \<noteq> (p, t)")
    case True
    then show ?thesis using keep [OF u] by blast
  next
    case False
    then have ready: "threads pr ! t = TS_Ready" "t \<noteq> IRQ_TID" using u pr by (auto simp: runnable_def)
    show ?thesis
    proof (cases "st = TS_Ready")
      case True
      then have "runnable (ps(p \<mapsto> pr')) (prio_index (thread_priorities pr ! t)) (p, t)"
        using ready t wf by (simp add: runnable_def pr')
      then show ?thesis by blast
    next
      case st: False
      then obtain k' u' where "runnable ps k' u'" "u' \<noteq> (p, t)"
        using ok ready wf unfolding state_change_panics_def by metis
      then show ?thesis using keep by blast
    qed
  qed
qed

lemma free_threads_some:
  "threads_inv ps s q \<Longrightarrow> ps p = Some pr \<Longrightarrow> \<forall>t \<in> set ts. t < MAX_THREAD_COUNT \<Longrightarrow>
   free_threads ts (pr, s) = (Done (), (pr', s')) \<Longrightarrow> some_runnable ps \<Longrightarrow> some_runnable (ps(p \<mapsto> pr'))"
proof (induction ts arbitrary: ps s q pr)
  case Nil
  then show ?case by (auto simp: map_upd_triv)
next
  case (Cons t ts)
  obtain r pr1 s1 where run: "set_thread_state t TS_Free (pr, s) = (r, (pr1, s1))" by (metis prod.exhaust)
  then have r: "r = Done ()" using Cons.prems(4) by (cases r) auto
  have t: "t < MAX_THREAD_COUNT" using Cons.prems(3) by simp
  have "some_runnable (ps(p \<mapsto> pr1, p \<mapsto> pr'))"
  proof (rule Cons.IH [OF set_thread_state_Done(2) [OF Cons.prems(1,2) t run [unfolded r]]])
    show "some_runnable (ps(p \<mapsto> pr1))"
      by (rule set_thread_state_some [OF Cons.prems(1,2) t run [unfolded r] Cons.prems(5)])
  qed (use run r Cons.prems(3,4) in auto)
  then show ?case by (simp only: fun_upd_upd)
qed

lemma end_process_some:
  assumes inv: "threads_inv (procs y) (sched y) q" and run: "end_process p y = (Done (), y')"
    and some: "some_runnable (procs y)"
  shows "some_runnable (procs y')"
proof (rule end_process_Done [OF inv run])
  fix pr s1 q1
  let ?pr' = "make_free [1..<MAX_THREAD_COUNT] pr"
  let ?ps = "(procs y)(p \<mapsto> ?pr')"
  assume pr: "procs y p = Some pr" and y': "procs y' = (\<lambda>i. map_option (drop_parent p) (((procs y)(p := None)) i))"
    and free: "free_threads [1..<MAX_THREAD_COUNT] (pr, sched y) = (Done (), (?pr', s1))"
  have len: "length (threads pr) = MAX_THREAD_COUNT"
    using threads_invD(2) [OF inv pr] by (simp add: wf_process_def)
  obtain k u where u: "runnable ?ps k u" using free_threads_some [OF inv pr _ free some] by auto
  have "fst u \<noteq> p" using terminated_not_runnable [OF len, of "procs y" p k "snd u"] u by auto
  then have "runnable (procs y') k u" using u unfolding y' by (auto simp: runnable_def)
  then show ?thesis by blast
qed

lemma runnable_more:
  "runnable ps k u \<Longrightarrow> ps p = Some pr \<Longrightarrow> (\<And>i. threads pr ! i = TS_Ready \<Longrightarrow> threads pr' ! i = TS_Ready) \<Longrightarrow>
   thread_priorities pr' = thread_priorities pr \<Longrightarrow> runnable (ps(p \<mapsto> pr')) k u"
  by (cases u) (auto simp: runnable_def split: if_splits)

lemma make_ready_keeps: "threads pr ! i = TS_Ready \<Longrightarrow> threads (make_ready ts pr) ! i = TS_Ready"
  by (induction ts arbitrary: pr) (auto simp: nth_update_if)

lemma wake_processes_some:
  "\<lbrakk>wake_processes ps st n y = (Done (), y'); threads_inv (procs y) (sched y) q; st \<noteq> TS_Ready;
    some_runnable (procs y)\<rbrakk> \<Longrightarrow> some_runnable (procs y')"
proof (induction ps arbitrary: y q)
  case Nil
  then show ?case by auto
next
  case (Cons p ps)
  show ?case
  proof (cases "get_process y p = None")
    case True
    then show ?thesis using Cons by simp
  next
    case False
    obtain r y1 where run: "on_process p (wake_threads_with_state st n) y = (r, y1)" by (metis prod.exhaust)
    then have r: "r = Done ()" and rest: "wake_processes ps st n y1 = (Done (), y')"
      using Cons.prems(1) False by (cases r; simp)+
    obtain pr pr' s' where pr: "procs y p = Some pr"
      and w: "wake_threads_with_state st n (pr, sched y) = (Done (), (pr', s'))"
      and y1: "y1 = \<lparr>procs = (procs y)(p \<mapsto> pr'), sched = s'\<rparr>"
      using on_process_cases [OF run [unfolded r]] by metis
    obtain q1 where q1: "threads_inv ((procs y)(p \<mapsto> pr')) s' q1" and pr': "pr' = make_ready (woken st n pr) pr"
      using wake_sim [OF Cons.prems(2) pr Cons.prems(3), of n] w by auto
    obtain k u where u: "runnable (procs y) k u" using Cons.prems(4) by blast
    have "runnable ((procs y)(p \<mapsto> pr')) k u"
      by (rule runnable_more [OF u pr]) (simp_all add: pr' make_ready_keeps)
    then have "some_runnable (procs y1)" unfolding y1 thread_system.simps by blast
    then show ?thesis
      using Cons.IH [OF rest _ Cons.prems(3), of q1] q1 by (simp only: y1 thread_system.simps)
  qed
qed


lemma set_thread_priority_some:
  assumes inv: "threads_inv ps s q" and pr: "ps p = Some pr" and t: "t < MAX_THREAD_COUNT" "t \<noteq> IRQ_TID"
    and run: "set_thread_priority t prio (pr, s) = (Done (), (pr', s'))" and some: "some_runnable ps"
  shows "(\<exists>q'. threads_inv (ps(p \<mapsto> pr')) s' q') \<and> some_runnable (ps(p \<mapsto> pr'))"
proof -
  have len: "length (threads pr) = MAX_THREAD_COUNT" "length (thread_priorities pr) = MAX_THREAD_COUNT"
    using threads_invD(2) [OF inv pr] by (simp_all add: wf_process_def)
  have other: "\<exists>k u. runnable ps k u \<and> u \<noteq> (p, t)"
    if "threads pr ! t = TS_Ready \<and> thread_priorities pr ! t \<noteq> prio"
    using set_thread_priority_panics [OF inv pr t, of prio] that run by auto
  obtain s2 where "set_thread_priority t prio (pr, s)
      = (Done (), (pr\<lparr>thread_priorities := (thread_priorities pr)[t := prio]\<rparr>, s2))"
    "threads_inv (ps(p \<mapsto> pr\<lparr>thread_priorities := (thread_priorities pr)[t := prio]\<rparr>)) s2 (reprioritise pr t prio q)"
    using set_thread_priority_sim [OF inv pr t, of prio] other by blast
  then have pr': "pr' = pr\<lparr>thread_priorities := (thread_priorities pr)[t := prio]\<rparr>"
    and q: "\<exists>q'. threads_inv (ps(p \<mapsto> pr')) s' q'" using run by auto
  obtain k u where u: "runnable ps k u" using some by blast
  then have "runnable (ps(p \<mapsto> pr')) (if u = (p, t) then prio_index prio else k) u"
    using pr len t by (cases u) (auto simp: runnable_def pr' nth_update_if)
  then show ?thesis using q by blast
qed

lemma reachable_inv: "reachable y \<Longrightarrow> (\<exists>q. threads_inv (procs y) (sched y) q) \<and> some_runnable (procs y)"
proof (induction rule: reachable.induct)
  case (boot y)
  obtain y' q where "boot_threads = (Done (), y')" "threads_inv (procs y') (sched y') q"
    "runnable (procs y') (prio_index Idle) (1, INITIAL_TID)" using boot_inv by blast
  moreover have "y' = y" using trans [OF calculation(1) [symmetric] boot] by simp
  ultimately show ?case by blast
next
  case (state y t p st y')
  then obtain q where q: "threads_inv (procs y) (sched y) q" by blast
  obtain pr pr' s' where *: "procs y p = Some pr" "set_thread_state t st (pr, sched y) = (Done (), (pr', s'))"
    "y' = \<lparr>procs = (procs y)(p \<mapsto> pr'), sched = s'\<rparr>"
    using on_process_cases [OF state(3)] by metis
  show ?case
    using set_thread_state_Done(2) [OF q *(1) state(2) *(2)] set_thread_state_some [OF q *(1) state(2) *(2)] state.IH
    unfolding *(3) thread_system.simps by blast
next
  case (priority y t p prio y')
  then obtain q where q: "threads_inv (procs y) (sched y) q" by blast
  obtain pr pr' s' where *: "procs y p = Some pr" "set_thread_priority t prio (pr, sched y) = (Done (), (pr', s'))"
    "y' = \<lparr>procs = (procs y)(p \<mapsto> pr'), sched = s'\<rparr>"
    using on_process_cases [OF priority(4)] by metis
  show ?case
    using set_thread_priority_some [OF q *(1) priority(2,3) *(2)] priority.IH
    unfolding *(3) thread_system.simps by blast
next
  case (wake y st n y')
  then show ?case
    using wake_processes_Done wake_processes_some unfolding wake_all_threads_with_state_def by blast
next
  case (create y panic_pid ppid app name mapping load p y')
  then show ?case using create_process_Done by blast
next
  case (end_ y p y')
  then show ?case using end_process_inv end_process_some by blast
next
  case (yield y u prio s')
  then show ?case using yield_inv by (metis thread_system.simps(1,2) thread_system.update_convs(2) thread_system.surjective)
qed

text \<open>When creating and ending a process succeed.\<close>

lemma create_process_runs:
  assumes inv: "threads_inv (procs y) (sched y) q" and name: "length name \<le> MAX_PROCESS_NAME_LEN"
    and slot: "find_index (\<lambda>i. procs y (i + 1) = None \<and> panic_pid \<noteq> Some (i + 1)) [0..<MAX_PROCESS_COUNT] = Some slot"
  shows "\<exists>y'. create_process panic_pid ppid app name (Done ()) (Done ()) y = (Done (slot + 1), y')"
proof -
  let ?p = "slot + 1"
  have free: "procs y ?p = None" "1 \<le> ?p" "?p \<le> MAX_PROCESS_COUNT"
    using find_index_Some [OF slot] by (auto simp: nth_upt)
  obtain pr where pr: "set_name name (process_new ?p ppid app) = (Done (), pr)"
    using name by (auto simp: set_name_def)
  note flds = set_name_threads [OF pr, unfolded process_new_threads]
  have inv': "threads_inv ((procs y)(?p \<mapsto> pr)) (sched y) q"
    by (rule threads_inv_new [OF inv free]) (simp_all add: flds)
  have "\<not> state_change_panics ((procs y)(?p \<mapsto> pr)) pr INITIAL_TID TS_Ready"
    by (simp add: state_change_panics_def sched_consts)
  from set_thread_state_sim [OF inv' _ _ this, of ?p]
  obtain pr' s' where "set_thread_state INITIAL_TID TS_Ready (pr, sched y) = (Done (), (pr', s'))"
    by (auto simp: sched_consts)
  then show ?thesis using slot pr by (simp add: create_process_def Let_def del: fun_upd_apply)
qed

lemma end_process_runs:
  assumes inv: "threads_inv (procs y) (sched y) q" and p: "get_process y p = Some pr"
    and u: "runnable (procs y) k u" "fst u \<noteq> p"
  shows "\<exists>y'. end_process p y = (Done (), y')"
proof -
  have pr: "procs y p = Some pr" using p by (auto simp: get_process_def split: if_splits)
  have ts: "\<And>t. t \<in> set [1..<MAX_THREAD_COUNT] \<Longrightarrow> t \<noteq> IRQ_TID \<and> t < MAX_THREAD_COUNT"
    by (simp add: IRQ_TID_def)
  obtain s1 where "free_threads [1..<MAX_THREAD_COUNT] (pr, sched y) = (Done (), (make_free [1..<MAX_THREAD_COUNT] pr, s1))"
    using free_threads_sim [OF inv pr u ts] by blast
  then show ?thesis using p by (simp add: end_process_def on_process_def terminate_threads_def)
qed

lemma boot_procs: "boot_threads = (Done (), y) \<Longrightarrow> p \<noteq> 1 \<Longrightarrow> procs y p = None"
  by (auto simp: boot_threads_def split: prod.splits outcome.splits)

lemma boot_no_irq:
  assumes "boot_threads = (Done (), y)"
  shows "\<not> in_irq_handler (sched y)"
  using assms
  by (auto simp: boot_threads_def set_thread_priority_def set_thread_state_def has_thread_def
      on_scheduler_def ready_thread_def put_link_def initial_scheduler_def sched_consts Let_def
      set_name_def in_table_def process_name_def process_new_def MAX_PROCESS_NAME_LEN_def split: prod.splits)

text \<open>A concrete system: the kernel and one process that it created, which gets PID 2.\<close>

lemma two_processes:
  obtains y y1 q pr where "boot_threads = (Done (), y)"
    "create_process None 1 (app_id_from_words (0, 0, 0, 0)) [] (Done ()) (Done ()) y = (Done 2, y1)"
    "threads_inv (procs y1) (sched y1) q" "get_process y1 2 = Some pr"
    "runnable (procs y1) (prio_index Idle) (1, INITIAL_TID)" "\<And>a. \<not> in_irq (procs y1) a"
proof -
  obtain y q where y: "boot_threads = (Done (), y)" "threads_inv (procs y) (sched y) q" "procs y 1 \<noteq> None"
    "runnable (procs y) (prio_index Idle) (1, INITIAL_TID)" using boot_inv by blast
  have "find_index (\<lambda>i. procs y (i + 1) = None \<and> None \<noteq> Some (i + 1)) [0..<MAX_PROCESS_COUNT] = Some 1"
    using y(3) boot_procs [OF y(1), of 2] by (simp add: upt_conv_Cons MAX_PROCESS_COUNT_def numeral_2_eq_2)
  from create_process_runs [OF y(2) _ this, of "[]"] obtain y1 where
    y1: "create_process None 1 (app_id_from_words (0, 0, 0, 0)) [] (Done ()) (Done ()) y = (Done 2, y1)"
    by (auto simp: numeral_2_eq_2 simp del: app_id_from_words.simps)
  from create_process_Done [OF y(2) y1] obtain pr where
    ps: "procs y1 = (procs y)(2 \<mapsto> pr)" and q1: "threads_inv (procs y1) (sched y1) (q_ready (2, INITIAL_TID) (prio_index AppDefault) q)"
    and irq2: "\<not> in_irq (procs y1) 2" by blast
  have irq: "\<not> in_irq (procs y1) a" for a
    using irq2 threads_invD(4) [OF y(2)] boot_no_irq [OF y(1)] by (cases "a = 2") (auto simp: in_irq_def ps)
  show thesis
    by (rule that [OF y(1) y1 q1 _ _ irq]) (use ps y(4) in \<open>auto simp: get_process_def MAX_PROCESS_COUNT_def runnable_def\<close>)
qed

section \<open>Memory permissions of a process\<close>

definition free_suffix :: "(usize \<times> usize) list \<Rightarrow> bool" where
  "free_suffix rs \<longleftrightarrow> (\<forall>i j. i \<le> j \<and> j < length rs \<and> snd (rs ! i) = 0 \<longrightarrow> snd (rs ! j) = 0)"

lemma free_suffix_Cons:
  "free_suffix (r # rs) \<longleftrightarrow> free_suffix rs \<and> (snd r = 0 \<longrightarrow> (\<forall>x \<in> set rs. snd x = 0))"
proof -
  have "free_suffix rs" if "free_suffix (r # rs)"
    unfolding free_suffix_def using that [unfolded free_suffix_def, rule_format, of "Suc _" "Suc _"] by auto
  moreover have "\<forall>x \<in> set rs. snd x = 0" if "free_suffix (r # rs)" "snd r = 0"
    using that [unfolded free_suffix_def] by (force simp: in_set_conv_nth)
  moreover have "free_suffix (r # rs)" if "free_suffix rs" "snd r = 0 \<longrightarrow> (\<forall>x \<in> set rs. snd x = 0)"
    unfolding free_suffix_def
  proof (intro allI impI, elim conjE)
    fix i j assume ij: "i \<le> j" "j < length (r # rs)" "snd ((r # rs) ! i) = 0"
    show "snd ((r # rs) ! j) = 0"
      using ij that by (cases i; cases j) (auto simp: free_suffix_def nth_mem)
  qed
  ultimately show ?thesis by blast
qed

lemma region_loop_free: "\<forall>x \<in> set rs. snd x = 0 \<Longrightarrow> region_loop a rs = False"
  by (cases rs) auto

lemma region_loop_add:
  "free_suffix rs \<Longrightarrow> find_index (\<lambda>r. snd r = 0) rs = Some i \<Longrightarrow>
   free_suffix (rs[i := r]) \<and> (region_loop a (rs[i := r]) \<longleftrightarrow> region_loop a rs \<or> (fst r \<le> a \<and> a < snd r))"
proof (induction rs arbitrary: i)
  case Nil
  then show ?case by simp
next
  case (Cons x rs)
  show ?case
  proof (cases "snd x = 0")
    case True
    then show ?thesis
      using Cons.prems region_loop_free [of rs a] by (auto simp: free_suffix_Cons split: if_splits)
  next
    case False
    then obtain k where "find_index (\<lambda>r. snd r = 0) rs = Some k" "i = Suc k"
      using Cons.prems by auto
    then show ?thesis using Cons False by (simp add: free_suffix_Cons)
  qed
qed


text \<open>The regions granted to a process by a sequence of successful calls, on a new process.\<close>

fun grant_all :: "(usize \<times> usize) list \<Rightarrow> process \<Rightarrow> unit res \<times> process" where
  "grant_all [] pr = (Done (), pr)"
| "grant_all (r # rs) pr = seq (add_memory_permission r pr) (\<lambda>_. grant_all rs)"

lemma grant_all_loop:
  "grant_all rs pr = (Done (), pr') \<Longrightarrow> free_suffix (memory_permissions pr) \<Longrightarrow>
   proc_pid pr' = proc_pid pr \<and>
   (\<forall>a. region_loop a (memory_permissions pr') \<longleftrightarrow>
      region_loop a (memory_permissions pr) \<or> (\<exists>r \<in> set rs. fst r \<le> a \<and> a < snd r))"
proof (induction rs arbitrary: pr)
  case Nil
  then show ?case by simp
next
  case (Cons r rs)
  then obtain i where i: "find_index (\<lambda>region. snd region = 0) (memory_permissions pr) = Some i"
    by (auto simp: add_memory_permission_def split: option.splits)
  let ?pr = "pr\<lparr>memory_permissions := (memory_permissions pr)[i := r]\<rparr>"
  note step = region_loop_add [OF Cons.prems(2) i, of r]
  have "grant_all rs ?pr = (Done (), pr')" using Cons.prems(1) i by (simp add: add_memory_permission_def)
  from Cons.IH [OF this] step show ?case by auto
qed

lemma grant_all_count:
  "\<forall>r \<in> set rs. snd r \<noteq> 0 \<Longrightarrow>
   fst (grant_all rs pr) = (if length rs \<le> count_if (\<lambda>r. snd r = 0) (memory_permissions pr) then Done ()
     else Fail KernelTableFull)"
proof (induction rs arbitrary: pr)
  case Nil
  then show ?case by simp
next
  case (Cons r rs)
  show ?case
  proof (cases "find_index (\<lambda>region. snd region = 0) (memory_permissions pr)")
    case None
    then have "count_if (\<lambda>r. snd r = 0) (memory_permissions pr) = 0"
      by (auto simp: find_index_None count_if_zero)
    then show ?thesis using None by (simp add: add_memory_permission_def)
  next
    case (Some i)
    then show ?thesis
      using Cons find_index_Some [OF Some] count_if_update [of i "memory_permissions pr" "\<lambda>r. snd r = 0" r]
      by (simp add: add_memory_permission_def)
  qed
qed

lemma take_position: "take (case find_index (\<lambda>b. b = x) bs of Some i \<Rightarrow> i | None \<Rightarrow> length bs) bs
    = takeWhile (\<lambda>b. b \<noteq> x) bs"
  by (induction bs) (auto split: option.splits)

lemma takeWhile_padded: "takeWhile (\<lambda>b. b \<noteq> x) (bs @ replicate n x) = takeWhile (\<lambda>b. b \<noteq> x) bs"
  by (induction bs) (cases n; simp)+

section \<open>A flag that stays set\<close>

text \<open>
  The same calls from any thread system on, whether they succeed or fail, with the choice of the next
  thread; here a process may end at any time. Only a panic ends the sequence.
\<close>

inductive thread_step :: "thread_system \<Rightarrow> thread_system \<Rightarrow> bool" where
  state: "on_process p (set_thread_state t st) y = (r, y') \<Longrightarrow> r \<noteq> Panic \<Longrightarrow> thread_step y y'"
| priority: "on_process p (set_thread_priority t prio) y = (r, y') \<Longrightarrow> r \<noteq> Panic \<Longrightarrow> thread_step y y'"
| wake: "wake_all_threads_with_state st n y = (r, y') \<Longrightarrow> r \<noteq> Panic \<Longrightarrow> thread_step y y'"
| create: "create_process panic_pid ppid app name mapping load y = (r, y') \<Longrightarrow> r \<noteq> Panic \<Longrightarrow> thread_step y y'"
| end_: "end_process p y = (r, y') \<Longrightarrow> r \<noteq> Panic \<Longrightarrow> thread_step y y'"
| yield: "yield_thread (sched y) u prio = (r, s') \<Longrightarrow> r \<noteq> Panic \<Longrightarrow> thread_step y (y\<lparr>sched := s'\<rparr>)"
| activate: "activate_current usage u (sched y) = (r, s') \<Longrightarrow> r \<noteq> Panic \<Longrightarrow> thread_step y (y\<lparr>sched := s'\<rparr>)"

text \<open>The interrupt flag is set, and no interrupt thread is ready that could be parked to reset it.\<close>

definition no_irq_thread :: "process \<Rightarrow> bool" where
  "no_irq_thread pr \<longleftrightarrow> length (threads pr) = MAX_THREAD_COUNT \<and> length (thread_priorities pr) = MAX_THREAD_COUNT
     \<and> threads pr ! IRQ_TID \<noteq> TS_Ready"

definition stuck :: "thread_system \<Rightarrow> bool" where
  "stuck y \<longleftrightarrow> in_irq_handler (sched y) \<and> (\<forall>a pr. procs y a = Some pr \<longrightarrow> no_irq_thread pr)"

definition stuck_at :: "proc_state \<Rightarrow> bool" where
  "stuck_at ps \<longleftrightarrow> in_irq_handler (snd ps) \<and> no_irq_thread (fst ps)"

lemma other_thread_flag:
  assumes "snd u \<noteq> IRQ_TID"
  shows "in_irq_handler (snd (ready_thread s u prio)) = in_irq_handler s"
    and "in_irq_handler (snd (park_thread s u prio)) = in_irq_handler s"
  using assms by (simp_all add: ready_thread_def park_thread_def put_link_def Let_def split: option.split)

lemma set_thread_state_stuck:
  assumes st: "stuck_at ps" and run: "set_thread_state t st ps = (r, ps')" and r: "r \<noteq> Panic"
  shows "stuck_at ps'"
proof -
  obtain pr s where ps: "ps = (pr, s)" by (cases ps)
  have h: "has_thread pr t" using run r ps by (auto simp: set_thread_state_def split: if_splits)
  have d: "in_irq_handler s" "length (threads pr) = MAX_THREAD_COUNT" "length (thread_priorities pr) = MAX_THREAD_COUNT"
    "threads pr ! IRQ_TID \<noteq> TS_Ready" using st by (simp_all add: stuck_at_def no_irq_thread_def ps)
  show ?thesis
  proof (cases "t = IRQ_TID")
    case True
    then have "st \<noteq> TS_Ready" using run r d(1,4) h by (auto simp: ps set_thread_state_run ready_thread_def)
    then show ?thesis using run True d h by (auto simp: ps set_thread_state_run stuck_at_def no_irq_thread_def sched_consts)
  next
    case False
    obtain ra sa where a: "park_thread s (proc_pid pr, t) (thread_priorities pr ! t) = (ra, sa)" by fastforce
    obtain rb sb where b: "ready_thread s (proc_pid pr, t) (thread_priorities pr ! t) = (rb, sb)" by fastforce
    have "in_irq_handler sa" "in_irq_handler sb"
      using other_thread_flag [of "(proc_pid pr, t)" s "thread_priorities pr ! t"] False a b d(1) by simp_all
    with run False d show ?thesis
      by (auto simp: ps set_thread_state_run [OF h] a b stuck_at_def no_irq_thread_def split: if_splits outcome.splits)
  qed
qed

lemma set_thread_priority_stuck:
  assumes st: "stuck_at ps" and run: "set_thread_priority t prio ps = (r, ps')" and r: "r \<noteq> Panic"
  shows "stuck_at ps'"
proof -
  obtain pr s where ps: "ps = (pr, s)" by (cases ps)
  have d: "in_irq_handler s" "length (threads pr) = MAX_THREAD_COUNT" "length (thread_priorities pr) = MAX_THREAD_COUNT"
    "threads pr ! IRQ_TID \<noteq> TS_Ready" using st by (simp_all add: stuck_at_def no_irq_thread_def ps)
  show ?thesis
  proof (cases "threads pr ! t = TS_Ready")
    case False
    then show ?thesis using run r d
      by (auto simp: ps set_thread_priority_def stuck_at_def no_irq_thread_def Let_def split: if_splits)
  next
    case True
    then have t: "t \<noteq> IRQ_TID" using d(4) by auto
    obtain ra sa where a: "park_thread s (proc_pid pr, t) (thread_priorities pr ! t) = (ra, sa)" by fastforce
    obtain rb sb where b: "ready_thread sa (proc_pid pr, t) prio = (rb, sb)" by fastforce
    have f: "in_irq_handler sa" "in_irq_handler sb"
      using other_thread_flag(2) [of "(proc_pid pr, t)" s "thread_priorities pr ! t"]
        other_thread_flag(1) [of "(proc_pid pr, t)" sa prio] t a b d(1) by simp_all
    show ?thesis using run r d f
      by (cases ra; cases rb) (auto simp: ps set_thread_priority_def on_scheduler_def a b True stuck_at_def no_irq_thread_def Let_def
        split: if_splits)
  qed
qed

lemma wake_loop_stuck: "stuck_at ps \<Longrightarrow> wake_loop ts st n ps = (r, ps') \<Longrightarrow> r \<noteq> Panic \<Longrightarrow> stuck_at ps'"
proof (induction ts arbitrary: n ps)
  case (Cons t ts)
  obtain r1 ps1 where s: "set_thread_state t TS_Ready ps = (r1, ps1)" by (metis prod.exhaust)
  show ?case
  proof (cases "r1 = Panic")
    case False
    note set_thread_state_stuck [OF Cons.prems(1) s False]
    with Cons s show ?thesis by (cases r1) (auto split: if_splits)
  qed (use Cons s in \<open>auto split: if_splits\<close>)
qed simp

lemma free_threads_stuck: "stuck_at ps \<Longrightarrow> free_threads ts ps = (r, ps') \<Longrightarrow> r \<noteq> Panic \<Longrightarrow> stuck_at ps'"
proof (induction ts arbitrary: ps)
  case (Cons t ts)
  obtain r1 ps1 where s: "set_thread_state t TS_Free ps = (r1, ps1)" by (metis prod.exhaust)
  show ?case
  proof (cases "r1 = Panic")
    case False
    note set_thread_state_stuck [OF Cons.prems(1) s False]
    with Cons s show ?thesis by (cases r1) auto
  qed (use Cons s in auto)
qed simp

lemma on_process_stuck:
  assumes st: "stuck y" and run: "on_process p f y = (r, y')" and r: "r \<noteq> Panic"
    and f: "\<And>ps r ps'. stuck_at ps \<Longrightarrow> f ps = (r, ps') \<Longrightarrow> r \<noteq> Panic \<Longrightarrow> stuck_at ps'"
  shows "stuck y'"
proof (cases "get_process y p")
  case None
  then show ?thesis using run st by (simp add: on_process_def)
next
  case (Some pr)
  then have pr: "procs y p = Some pr" by (simp add: get_process_def split: if_splits)
  then have "stuck_at (pr, sched y)" using st by (simp add: stuck_def stuck_at_def)
  moreover obtain pr' s' where g: "f (pr, sched y) = (r, (pr', s'))" "y' = \<lparr>procs = (procs y)(p \<mapsto> pr'), sched = s'\<rparr>"
    using run Some by (auto simp: on_process_def split: prod.splits)
  ultimately have "stuck_at (pr', s')" using f r by blast
  with g(2) st show ?thesis by (simp add: stuck_def stuck_at_def)
qed

lemma wake_processes_stuck: "stuck y \<Longrightarrow> wake_processes ps st n y = (r, y') \<Longrightarrow> r \<noteq> Panic \<Longrightarrow> stuck y'"
proof (induction ps arbitrary: y)
  case (Cons p ps)
  have w: "stuck_at q'" if "stuck_at q" "wake_threads_with_state st n q = (r', q')" "r' \<noteq> Panic" for q r' q'
    using that wake_loop_stuck by (auto simp: wake_threads_with_state_def split: if_splits)
  obtain r1 y1 where s: "on_process p (wake_threads_with_state st n) y = (r1, y1)" by fastforce
  show ?case
  proof (cases "get_process y p = None \<or> r1 = Panic")
    case False
    then have "r1 \<noteq> Panic" by blast
    from on_process_stuck [OF Cons.prems(1) s this] w have "stuck y1" by blast
    with Cons s False show ?thesis by (cases r1) auto
  qed (use Cons s in \<open>auto split: if_splits\<close>)
qed simp

lemma stuck_step: "thread_step y y' \<Longrightarrow> stuck y \<Longrightarrow> stuck y'"
proof (induction rule: thread_step.induct)
  case (state p t st y r y')
  from on_process_stuck [OF state.prems state.hyps] set_thread_state_stuck show ?case by blast
next
  case (priority p t prio y r y')
  from on_process_stuck [OF priority.prems priority.hyps] set_thread_priority_stuck show ?case by blast
next
  case (wake st n y r y')
  from wake_processes_stuck [OF wake.prems] wake.hyps show ?case by (simp add: wake_all_threads_with_state_def)
next
  case (create panic_pid ppid app name mapping load y r y')
  have new: "stuck y1" if st: "set_thread_state INITIAL_TID TS_Ready (pr, sched y) = (r1, (pr', s'))" "r1 \<noteq> Panic"
      and pr: "pr = process_new p ppid app \<or> (\<exists>n. pr = process_new p ppid app\<lparr>proc_name := n\<rparr>)"
      and y1: "y1 = \<lparr>procs = (procs y)(p \<mapsto> pr'), sched = s'\<rparr>" for p pr r1 pr' s' y1
  proof -
    have "stuck_at (pr, sched y)" using pr create.prems
      by (auto simp: stuck_at_def stuck_def no_irq_thread_def process_new_def sched_consts)
    from set_thread_state_stuck [OF this st] create.prems show ?thesis by (simp add: y1 stuck_def stuck_at_def)
  qed
  show ?case
  proof (cases "find_index (\<lambda>i. procs y (i + 1) = None \<and> panic_pid \<noteq> Some (i + 1)) [0..<MAX_PROCESS_COUNT]")
    case None
    then show ?thesis using create by (simp add: create_process_def)
  next
    case (Some slot)
    let ?p = "slot + 1"
    obtain r0 pr where nm: "set_name name (process_new ?p ppid app) = (r0, pr)" by fastforce
    then have pr: "pr = process_new ?p ppid app \<or> (\<exists>n. pr = process_new ?p ppid app\<lparr>proc_name := n\<rparr>)"
      by (auto simp: set_name_def split: if_splits)
    obtain r1 pr' s' where st: "set_thread_state INITIAL_TID TS_Ready (pr, sched y) = (r1, (pr', s'))" by (metis prod.exhaust)
    have "y' = y \<or> r1 \<noteq> Panic \<and> y' = \<lparr>procs = (procs y)(?p \<mapsto> pr'), sched = s'\<rparr>"
      using create.hyps Some nm st
      by (cases mapping; cases r0; cases r1) (auto simp: create_process_def Let_def split: outcome.splits)
    with new [OF st _ pr] create.prems show ?thesis by blast
  qed
next
  case (end_ p y r y')
  obtain r1 y1 where t: "on_process p terminate_threads y = (r1, y1)" by fastforce
  have f: "stuck_at q'" if "stuck_at q" "terminate_threads q = (r', q')" "r' \<noteq> Panic" for q r' q'
    using that free_threads_stuck by (simp add: terminate_threads_def)
  have "r1 \<noteq> Panic" using end_.hyps t by (cases r1) (auto simp: end_process_def)
  from on_process_stuck [OF end_.prems t this] f have "stuck y1" by blast
  moreover have "no_irq_thread (drop_parent p pr) = no_irq_thread pr" for pr by (simp add: drop_parent_def no_irq_thread_def)
  ultimately show ?case using end_.hyps t by (cases r1) (auto simp: end_process_def stuck_def split: if_splits)
next
  case (yield y u prio r s')
  then show ?case by (auto simp: yield_thread_def stuck_def Let_def split: if_splits option.splits)
next
  case (activate usage u y r s')
  then show ?case by (simp add: activate_current_def stuck_def)
qed

lemma stuck_for_good: "thread_step\<^sup>*\<^sup>* y y' \<Longrightarrow> stuck y \<Longrightarrow> stuck y'"
  by (induction rule: rtranclp_induct) (auto intro: stuck_step)

lemma stuck_means:
  assumes "stuck y"
  shows "in_irq_handler (sched y) \<and> (\<forall>a. \<not> in_irq (procs y) a)
    \<and> activate_current usage current (sched y) = (Done Resume, sched y)
    \<and> (\<forall>a pr. procs y a = Some pr \<longrightarrow> fst (set_thread_state IRQ_TID TS_Ready (pr, sched y)) = Panic)"
proof -
  have "fst (set_thread_state IRQ_TID TS_Ready (pr, sched y)) = Panic" if "procs y a = Some pr" for a pr
  proof -
    have "no_irq_thread pr" "in_irq_handler (sched y)" using assms that by (simp_all add: stuck_def)
    moreover have "has_thread pr IRQ_TID" using calculation(1) by (simp add: no_irq_thread_def has_thread_def sched_consts)
    ultimately show ?thesis by (auto simp: set_thread_state_run ready_thread_def no_irq_thread_def)
  qed
  then show ?thesis using assms by (auto simp: stuck_def activate_current_def in_irq_def no_irq_thread_def)
qed

section \<open>Properties\<close>

text \<open>
  C7: in every state the kernel reaches, the scheduler's linked queues hold exactly the threads
  whose state is ready, each in the queue of its current priority and once; the interrupt flag
  is set exactly when some process' interrupt thread is ready. The thread states and the
  scheduler never drift apart, whatever sequence of wake-ups, state and priority changes,
  process creations and terminations is run.
\<close>

theorem ready_queues_hold_ready_threads:
  assumes "reachable y"
  shows "\<exists>q. sched_rel (sched y) q
    \<and> (\<forall>k < NUM_PRIORITIES. distinct (q k) \<and> set (q k) = {u. runnable (procs y) k u})
    \<and> (in_irq_handler (sched y) \<longleftrightarrow> (\<exists>p. in_irq (procs y) p))"
proof -
  obtain q where q: "threads_inv (procs y) (sched y) q" using reachable_inv [OF assms] by blast
  show ?thesis
    using threads_invD(1,3,4) [OF q] threads_inv_distinct [OF q] by blast
qed

theorem ready_queues_hold_ready_threads_witness:
  "\<exists>y q. boot_threads = (Done (), y) \<and> sched_rel (sched y) q \<and> (1, INITIAL_TID) \<in> set (q (prio_index Idle))"
proof -
  obtain y where y: "boot_threads = (Done (), y)" "runnable (procs y) (prio_index Idle) (1, INITIAL_TID)"
    using boot_inv by blast
  then show ?thesis
    using ready_queues_hold_ready_threads [OF reachable.boot [OF y(1)]] prio_index_bound [of Idle] by blast
qed

text \<open>
  C25: the kernel always has something to run. In every reachable state outside an interrupt,
  \<open>activate_current\<close> does not panic, and the thread it resumes or switches to is ready and of
  the highest priority among all ready threads of all processes.
\<close>

theorem activation_runs_ready_thread:
  assumes "reachable y" and "\<not> in_irq_handler (sched y)"
  shows "\<exists>k u s'. activate_current usage current (sched y)
      = (Done (if u = current then Resume else Switch u (fst u = 1)), s')
    \<and> runnable (procs y) k u \<and> (\<forall>k' u'. runnable (procs y) k' u' \<longrightarrow> k' \<le> k)"
proof -
  obtain q where q: "threads_inv (procs y) (sched y) q" and "some_runnable (procs y)"
    using reachable_inv [OF assms(1)] by blast
  then obtain v where v: "ready_in q v" using ready_in_runnable [OF q] by blast
  from activate_current_sim [OF threads_invD(1) [OF q] v assms(2), of usage current]
  obtain k u s' where k: "k < NUM_PRIORITIES" and u: "head_of (q k) = Some u"
    and top: "\<And>p. p < NUM_PRIORITIES \<Longrightarrow> k < p \<Longrightarrow> q p = []"
    and run: "activate_current usage current (sched y)
      = (Done (if u = current then Resume else Switch u (fst u = 1)), s')" by blast
  have "u \<in> set (q k)" using u by (auto simp: head_of_Some)
  then have "runnable (procs y) k u" using threads_invD(3) [OF q k] by blast
  moreover have "k' \<le> k" if "runnable (procs y) k' u'" for k' u'
    using threads_invD(3) [OF q runnable_bound [OF that]] top [OF runnable_bound [OF that]] that
    by (metis empty_iff linorder_not_le list.set(1) mem_Collect_eq)
  ultimately show ?thesis using run by blast
qed

theorem activation_runs_ready_thread_witness:
  "\<exists>y k u s'. boot_threads = (Done (), y) \<and> runnable (procs y) k u
    \<and> activate_current 0 (1, 5) (sched y) = (Done (if u = (1, 5) then Resume else Switch u (fst u = 1)), s')"
proof -
  obtain y q where y: "boot_threads = (Done (), y)" "threads_inv (procs y) (sched y) q" using boot_inv by blast
  from activation_runs_ready_thread [OF reachable.boot [OF y(1)] boot_no_irq [OF y(1)], of 0 "(1, 5)"] y(1) show ?thesis by blast
qed

text \<open>
  a change of a thread's state either panics, and then it would have parked the last ready
  thread of the system or entered an interrupt inside an interrupt, or it does exactly what it
  says: the state is stored, and the thread is appended to the queue of its priority, removed
  from it, or neither.
\<close>

theorem set_thread_state_outcome:
  assumes "threads_inv ps s q" and "ps p = Some pr" and "t < MAX_THREAD_COUNT"
  shows "if state_change_panics ps pr t st
    then fst (set_thread_state t st (pr, s)) = Panic
    else \<exists>s'. set_thread_state t st (pr, s) = (Done (), (pr\<lparr>threads := (threads pr)[t := st]\<rparr>, s'))
      \<and> threads_inv (ps(p \<mapsto> pr\<lparr>threads := (threads pr)[t := st]\<rparr>)) s' (requeue pr t st q)"
  using set_thread_state_panics [OF assms] set_thread_state_sim [OF assms] by auto

lemma boot_idle_only:
  obtains y q pr where "boot_threads = (Done (), y)" "threads_inv (procs y) (sched y) q" "procs y 1 = Some pr"
    "runnable (procs y) (prio_index Idle) (1, INITIAL_TID)"
  using boot_inv by blast

theorem set_thread_state_outcome_witness:
  "\<exists>y pr. boot_threads = (Done (), y) \<and> procs y 1 = Some pr
    \<and> (\<exists>s'. set_thread_state 2 TS_Ready (pr, sched y) = (Done (), (pr\<lparr>threads := (threads pr)[2 := TS_Ready]\<rparr>, s')))"
proof (rule boot_idle_only)
  fix y q pr
  assume y: "boot_threads = (Done (), y)" "threads_inv (procs y) (sched y) q" "procs y 1 = Some pr"
  have "\<not> state_change_panics (procs y) pr 2 TS_Ready" by (simp add: state_change_panics_def IRQ_TID_def)
  then show ?thesis
    using set_thread_state_outcome [OF y(2,3), of 2 TS_Ready] y by (auto simp: MAX_THREAD_COUNT_def)
qed

text \<open>
  Waking is fair by thread id. At most \<open>n\<close> threads that wait in the given state are woken,
  the least ids first; they enter the ready queues in that order, at the end of the queue of
  their own priority; no other thread changes, and the call never panics.
\<close>

theorem wake_least_threads_first:
  assumes "threads_inv ps s q" and "ps p = Some pr" and "st \<noteq> TS_Ready"
  shows "\<exists>pr' s'. wake_threads_with_state st n (pr, s) = (Done (), (pr', s'))
    \<and> (\<forall>i < MAX_THREAD_COUNT. threads pr' ! i = (if i \<in> set (woken st n pr) then TS_Ready else threads pr ! i))
    \<and> length (woken st n pr) \<le> n \<and> sorted (woken st n pr)
    \<and> (\<forall>i \<in> set (woken st n pr). \<forall>j. 1 \<le> j \<and> j < i \<and> threads pr ! j = st \<longrightarrow> j \<in> set (woken st n pr))
    \<and> threads_inv (ps(p \<mapsto> pr')) s' (append_ready (woken st n pr) pr q)"
proof -
  let ?c = "filter (\<lambda>t. threads pr ! t = st) [1..<MAX_THREAD_COUNT]"
  have len: "length (threads pr) = MAX_THREAD_COUNT"
    using threads_invD(2) [OF assms(1,2)] by (simp add: wf_process_def)
  have sorted: "sorted ?c" by (intro sorted_wrt_filter) simp
  then have wsorted: "sorted (woken st n pr)" by (simp add: woken_def sorted_wrt_take)
  have down: "j \<in> set (woken st n pr)"
    if i: "i \<in> set (woken st n pr)" and j: "1 \<le> j" "j < i" "threads pr ! j = st" for i j
  proof (rule ccontr)
    assume not: "j \<notin> set (woken st n pr)"
    have "i < MAX_THREAD_COUNT" using i in_set_takeD [of i n ?c] by (auto simp: woken_def)
    then have "j \<in> set ?c" using j by auto
    then have "j \<in> set (drop n ?c)" using not by (metis Un_iff append_take_drop_id set_append woken_def)
    moreover have "sorted (take n ?c @ drop n ?c)" using sorted by simp
    ultimately have "i \<le> j" using i unfolding woken_def sorted_append by blast
    then show False using j by simp
  qed
  from wake_sim [OF assms, of n] obtain s' where
    "wake_threads_with_state st n (pr, s) = (Done (), (make_ready (woken st n pr) pr, s'))"
    "threads_inv (ps(p \<mapsto> make_ready (woken st n pr) pr)) s' (append_ready (woken st n pr) pr q)" by blast
  moreover have "length (woken st n pr) \<le> n" by (simp add: woken_def)
  ultimately show ?thesis using wsorted down len by (fastforce simp: make_ready_nth)
qed

theorem wake_least_threads_first_witness:
  "\<exists>y pr pr' s'. boot_threads = (Done (), y) \<and> procs y 1 = Some pr
    \<and> wake_threads_with_state TS_Free 2 (pr, sched y) = (Done (), (pr', s'))"
proof (rule boot_idle_only)
  fix y q pr
  assume y: "boot_threads = (Done (), y)" "threads_inv (procs y) (sched y) q" "procs y 1 = Some pr"
  from wake_least_threads_first [OF y(2,3), of TS_Free 2] y show ?thesis by auto
qed

text \<open>
  C37: a process that ends takes all its threads off the ready queues and nothing else: the other
  processes' threads keep their queues and their order. A child of the process is left without a
  parent.
\<close>

theorem terminate_removes_threads:
  assumes "threads_inv (procs y) (sched y) q" and "get_process y p = Some pr"
    and "runnable (procs y) k u" and "fst u \<noteq> p" and "\<not> in_irq (procs y) p"
  shows "\<exists>y' q'. end_process p y = (Done (), y') \<and> procs y' p = None
    \<and> threads_inv (procs y') (sched y') q'
    \<and> (\<forall>k < NUM_PRIORITIES. q' k = filter (\<lambda>u. fst u \<noteq> p) (q k))
    \<and> (\<forall>c pc. procs y c = Some pc \<and> c \<noteq> p \<longrightarrow> (\<exists>pc'. procs y' c = Some pc' \<and> proc_ppid pc' \<noteq> Some p
         \<and> threads pc' = threads pc))"
proof -
  let ?pr = "make_free [1..<MAX_THREAD_COUNT] pr"
  have pr: "procs y p = Some pr" using assms(2) by (auto simp: get_process_def split: if_splits)
  have ts: "\<And>t. t \<in> set [1..<MAX_THREAD_COUNT] \<Longrightarrow> t \<noteq> IRQ_TID \<and> t < MAX_THREAD_COUNT"
    by (simp add: IRQ_TID_def)
  obtain s1 q1 where free: "free_threads [1..<MAX_THREAD_COUNT] (pr, sched y) = (Done (), (?pr, s1))"
    and q1: "threads_inv ((procs y)(p \<mapsto> ?pr)) s1 q1"
    and qs: "\<forall>k < NUM_PRIORITIES. q1 k = filter (\<lambda>u. \<not> (fst u = p \<and> snd u \<in> set [1..<MAX_THREAD_COUNT])) (q k)"
    using free_threads_sim [OF assms(1) pr assms(3,4) ts] by blast
  define y' where "y' = \<lparr>procs = (\<lambda>i. map_option (drop_parent p) (((procs y)(p := None)) i)), sched = s1\<rparr>"
  have run: "end_process p y = (Done (), y')"
    using assms(2) free by (simp add: end_process_def on_process_def terminate_threads_def y'_def del: fun_upd_apply)
  have len: "length (threads pr) = MAX_THREAD_COUNT"
    using threads_invD(2) [OF assms(1) pr] by (simp add: wf_process_def)
  have "threads_inv ((procs y)(p \<mapsto> ?pr, p := None)) s1 q1"
  proof (rule threads_inv_idle_process [OF _ _ _ _ _ q1])
    show "\<not> in_irq ((procs y)(p \<mapsto> ?pr)) p"
      unfolding terminated_in_irq [OF len] using assms(5) pr by (auto simp: in_irq_def)
  qed (use terminated_not_runnable [OF len] in \<open>auto simp: runnable_def in_irq_def\<close>)
  from threads_inv_map [OF this [unfolded fun_upd_upd], of "drop_parent p"]
  have inv': "threads_inv (procs y') (sched y') q1" by (simp add: y'_def)
  have "q1 k = filter (\<lambda>u. fst u \<noteq> p) (q k)" if k: "k < NUM_PRIORITIES" for k
  proof -
    have "fst u = p \<Longrightarrow> snd u \<in> set [1..<MAX_THREAD_COUNT]" if "u \<in> set (q k)" for u
      using that threads_invD(3) [OF assms(1) k] by (auto simp: runnable_def IRQ_TID_def)
    then show ?thesis using qs k by (auto intro!: filter_cong)
  qed
  moreover have "procs y' p = None" by (simp add: y'_def)
  moreover have "\<exists>pc'. procs y' c = Some pc' \<and> proc_ppid pc' \<noteq> Some p \<and> threads pc' = threads pc"
    if "procs y c = Some pc" "c \<noteq> p" for c pc
    using that by (simp add: y'_def) (simp add: drop_parent_def)
  ultimately show ?thesis using run inv' by blast
qed

theorem terminate_removes_threads_witness:
  "\<exists>y y1 y2. boot_threads = (Done (), y)
    \<and> create_process None 1 (app_id_from_words (0, 0, 0, 0)) [] (Done ()) (Done ()) y = (Done 2, y1)
    \<and> end_process 2 y1 = (Done (), y2) \<and> procs y2 2 = None"
proof (rule two_processes)
  fix y y1 q pr
  assume y: "boot_threads = (Done (), y)"
    "create_process None 1 (app_id_from_words (0, 0, 0, 0)) [] (Done ()) (Done ()) y = (Done 2, y1)"
    and inv: "threads_inv (procs y1) (sched y1) q" "get_process y1 2 = Some pr"
      "runnable (procs y1) (prio_index Idle) (1, INITIAL_TID)" "\<And>a. \<not> in_irq (procs y1) a"
  from terminate_removes_threads [OF inv(1,2,3) _ inv(4)] y show ?thesis by auto
qed

text \<open>
  C38: a process must not end while its interrupt thread runs, and nothing in the code prevents it:
  the loop in \<open>terminate\<close> starts at thread 1, so the scheduler's interrupt flag stays set after the
  process is gone. From then on, after any further calls of the kernel on processes and threads
  (states and priorities set, threads woken, processes created and ended, yields), the flag is still
  set with no interrupt thread to reset it, \<open>activate_current\<close> resumes what runs and never switches,
  and the next interrupt, of whatever process, panics.
\<close>

theorem end_in_interrupt_sticks:
  assumes "threads_inv (procs y) (sched y) q" and "in_irq (procs y) p" and "end_process p y = (Done (), y')"
    and "thread_step\<^sup>*\<^sup>* y' y''"
  shows "in_irq_handler (sched y'') \<and> (\<forall>a. \<not> in_irq (procs y'') a)
    \<and> activate_current usage current (sched y'') = (Done Resume, sched y'')
    \<and> (\<forall>a pr. procs y'' a = Some pr \<longrightarrow> fst (set_thread_state IRQ_TID TS_Ready (pr, sched y'')) = Panic)"
proof (rule end_process_Done [OF assms(1,3)])
  fix pr s1 q1
  let ?pr = "make_free [1..<MAX_THREAD_COUNT] pr"
  assume pr: "procs y p = Some pr" and y': "procs y' = (\<lambda>i. map_option (drop_parent p) (((procs y)(p := None)) i))"
    "sched y' = s1" and q1: "threads_inv ((procs y)(p \<mapsto> ?pr)) s1 q1"
  have len: "length (threads pr) = MAX_THREAD_COUNT"
    using threads_invD(2) [OF assms(1) pr] by (simp add: wf_process_def)
  have self: "threads pr ! IRQ_TID = TS_Ready" using assms(2) pr by (simp add: in_irq_def)
  have irq: "in_irq_handler s1"
    using threads_invD(4) [OF q1] terminated_in_irq [OF len, of "procs y" p p] self by auto
  have "no_irq_thread pa" if pa: "procs y' a = Some pa" for a pa
  proof -
    obtain p0 where p0: "procs y a = Some p0" "pa = drop_parent p p0" "a \<noteq> p"
      using pa unfolding y' by (auto split: if_splits)
    then have "\<not> in_irq (procs y) a" using threads_invD(5) [OF assms(1), of p a] assms(2) by blast
    with threads_invD(2) [OF assms(1) p0(1)] p0(1,2) show ?thesis
      by (simp add: wf_process_def no_irq_thread_def in_irq_def)
  qed
  then have "stuck y'" using irq y'(2) by (simp add: stuck_def)
  from stuck_means [OF stuck_for_good [OF assms(4) this]] show ?thesis .
qed

theorem end_in_interrupt_sticks_witness:
  "\<exists>y y1 y2 y3. boot_threads = (Done (), y)
    \<and> create_process None 1 (app_id_from_words (0, 0, 0, 0)) [] (Done ()) (Done ()) y = (Done 2, y1)
    \<and> on_process 2 (set_thread_state IRQ_TID TS_Ready) y1 = (Done (), y2)
    \<and> end_process 2 y2 = (Done (), y3)
    \<and> (\<exists>y4. on_process 1 (set_thread_state IRQ_TID TS_Free) y3 = (Done (), y4) \<and> in_irq_handler (sched y4)
        \<and> (\<forall>usage u. activate_current usage u (sched y4) = (Done Resume, sched y4))
        \<and> fst (on_process 1 (set_thread_state IRQ_TID TS_Ready) y4) = Panic)"
proof (rule two_processes)
  fix y y1 q and pr :: process
  let ?pr = "pr\<lparr>threads := (threads pr)[IRQ_TID := TS_Ready]\<rparr>"
  assume y: "boot_threads = (Done (), y)"
    "create_process None 1 (app_id_from_words (0, 0, 0, 0)) [] (Done ()) (Done ()) y = (Done 2, y1)"
    and inv: "threads_inv (procs y1) (sched y1) q" and gp: "get_process y1 2 = Some pr"
    and idle: "runnable (procs y1) (prio_index Idle) (1, INITIAL_TID)" and irq: "\<And>a. \<not> in_irq (procs y1) a"
  have pr: "procs y1 2 = Some pr" using gp by (auto simp: get_process_def split: if_splits)
  have len: "length (threads pr) = MAX_THREAD_COUNT"
    using threads_invD(2) [OF inv pr] by (simp add: wf_process_def)
  have "\<not> state_change_panics (procs y1) pr IRQ_TID TS_Ready" using irq by (simp add: state_change_panics_def)
  from set_thread_state_sim [OF inv pr _ this] obtain s2 q2 where
    s2: "set_thread_state IRQ_TID TS_Ready (pr, sched y1) = (Done (), (?pr, s2))"
    and q2: "threads_inv ((procs y1)(2 \<mapsto> ?pr)) s2 q2" by (auto simp: sched_consts)
  define y2 where "y2 = \<lparr>procs = (procs y1)(2 \<mapsto> ?pr), sched = s2\<rparr>"
  have run2: "on_process 2 (set_thread_state IRQ_TID TS_Ready) y1 = (Done (), y2)"
    using gp s2 by (simp add: on_process_def y2_def)
  have inv2: "threads_inv (procs y2) (sched y2) q2" using q2 by (simp add: y2_def del: fun_upd_apply)
  have gp2: "get_process y2 2 = Some ?pr" by (simp add: get_process_def y2_def MAX_PROCESS_COUNT_def)
  have idle2: "runnable (procs y2) (prio_index Idle) (1, INITIAL_TID)"
    using idle by (simp add: runnable_def y2_def)
  have irq2: "in_irq (procs y2) 2" using len by (simp add: in_irq_def y2_def sched_consts)
  obtain y3 where y3: "end_process 2 y2 = (Done (), y3)" using end_process_runs [OF inv2 gp2 idle2] by auto
  note sticks = end_in_interrupt_sticks [OF inv2 irq2 y3]
  obtain p1 where p1: "procs y2 1 = Some p1" using idle2 by (auto simp: runnable_def)
  have p3: "procs y3 1 = Some (drop_parent 2 p1)"
    by (rule end_process_Done [OF inv2 y3]) (use p1 in simp)
  have wf: "wf_process 1 p1" using threads_invD(2) [OF inv2 p1] .
  then have h: "has_thread (drop_parent 2 p1) IRQ_TID" by (auto simp: wf_process_def has_thread_def sched_consts drop_parent_def)
  have "threads (drop_parent 2 p1) ! IRQ_TID \<noteq> TS_Ready"
    using sticks [OF rtranclp.rtrancl_refl] p3 unfolding in_irq_def by metis
  then obtain pr4 where "on_process 1 (set_thread_state IRQ_TID TS_Free) y3 = (Done (), \<lparr>procs = (procs y3)(1 \<mapsto> pr4), sched = sched y3\<rparr>)"
    using p3 by (simp add: on_process_def get_process_def set_thread_state_run [OF h] MAX_PROCESS_COUNT_def)
  then obtain y4 where y4: "on_process 1 (set_thread_state IRQ_TID TS_Free) y3 = (Done (), y4)" "procs y4 1 = Some pr4" by simp
  have s4: "thread_step\<^sup>*\<^sup>* y3 y4" using thread_step.state [OF y4(1)] by simp
  have "fst (on_process 1 (set_thread_state IRQ_TID TS_Ready) y4) = Panic"
    using sticks [OF s4] y4(2) by (auto simp: on_process_def get_process_def MAX_PROCESS_COUNT_def split: prod.splits) (metis fst_conv)
  with sticks [OF s4] y run2 y3 y4(1) show ?thesis by blast
qed

text \<open>
  The memory a process may map is exactly what it was granted. After a sequence of
  successful grants to a new process, an address passes the check when the process is the
  kernel, the address is in plaintext or encrypted DRAM, or one of the granted ranges holds it;
  every other address is denied. Grants of non-empty ranges succeed up to the eighth and fail
  with \<open>KernelTableFull\<close> from the ninth on.
\<close>

theorem memory_permissions_exact:
  assumes "grant_all rs (process_new p pp app) = (r, pr)" and "\<forall>r \<in> set rs. snd r \<noteq> 0"
  shows "r = (if length rs \<le> MEMORY_PERMISSION_COUNT then Done () else Fail KernelTableFull)
    \<and> (r = Done () \<longrightarrow> (\<forall>a. check_memory_permission pr a =
        (if p = 1 \<or> is_address_in_plaintext_dram a \<or> is_address_encrypted a
            \<or> (\<exists>g \<in> set rs. fst g \<le> a \<and> a < snd g)
         then Done () else Fail AccessDenied)))"
proof -
  have "count_if (\<lambda>r. snd r = 0) (memory_permissions (process_new p pp app)) = MEMORY_PERMISSION_COUNT"
    by (simp add: process_new_def count_if_def)
  moreover have "free_suffix (memory_permissions (process_new p pp app))"
    by (auto simp: process_new_def free_suffix_def)
  moreover have "\<not> region_loop a (memory_permissions (process_new p pp app))" for a
    using region_loop_free by (simp add: process_new_def)
  ultimately show ?thesis
    using grant_all_count [OF assms(2), of "process_new p pp app"] grant_all_loop [of rs "process_new p pp app" pr]
      assms(1)
    by (auto simp: check_memory_permission_def)
qed

theorem memory_permissions_exact_witness:
  "check_memory_permission (snd (grant_all [(0xf8000000, 0xf8001000)] (process_new 5 1 (AppId [])))) 0xf8000ffc = Done ()
   \<and> check_memory_permission (snd (grant_all [(0xf8000000, 0xf8001000)] (process_new 5 1 (AppId [])))) 0xf8001000
     = Fail AccessDenied"
proof -
  obtain r pr where run: "grant_all [(0xf8000000, 0xf8001000)] (process_new 5 1 (AppId [])) = (r, pr)"
    by (metis prod.exhaust)
  have "\<forall>g \<in> set [(0xf8000000, 0xf8001000) :: usize \<times> usize]. snd g \<noteq> 0" by simp
  from memory_permissions_exact [OF run this] run show ?thesis
    by (simp add: MEMORY_PERMISSION_COUNT_def is_address_encrypted_def is_address_in_plaintext_dram_def
        PLAINTEXT_DRAM_BASE_def PLAINTEXT_DRAM_END_def ENCRYPTED_DRAM_BASE_def ENCRYPTED_DRAM_END_def
        RAM_SIZE_def word_le_nat_alt word_less_nat_alt)
qed

text \<open>
  the name of a process is what was set, up to its first zero byte, if that is valid UTF-8
  and not empty; once a process has a readable name no later call changes it. Names of more
  than 32 bytes are refused.
\<close>

theorem process_name_set_once:
  assumes "set_name bytes pr = (Done (), pr')"
  shows "process_name pr' = (let n = takeWhile (\<lambda>b. b \<noteq> 0) bytes in if valid_utf8 n \<and> n \<noteq> [] then Some n else None)
    \<and> length bytes \<le> MAX_PROCESS_NAME_LEN
    \<and> (process_name pr' \<noteq> None \<longrightarrow> (\<forall>bytes'. \<exists>e. set_name bytes' pr' = (Fail e, pr')))"
proof -
  have len: "length bytes \<le> MAX_PROCESS_NAME_LEN"
    and pr': "pr' = pr\<lparr>proc_name := Some (bytes @ replicate (MAX_PROCESS_NAME_LEN - length bytes) 0)\<rparr>"
    using assms by (auto simp: set_name_def split: if_splits)
  let ?bs = "bytes @ replicate (MAX_PROCESS_NAME_LEN - length bytes) (0 :: u8)"
  have len32: "length ?bs = MAX_PROCESS_NAME_LEN" using len by simp
  have "take (case find_index (\<lambda>b. b = 0) ?bs of Some i \<Rightarrow> i | None \<Rightarrow> MAX_PROCESS_NAME_LEN) ?bs
      = takeWhile (\<lambda>b. b \<noteq> 0) ?bs" using take_position [of ?bs 0] unfolding len32 .
  also have "\<dots> = takeWhile (\<lambda>b. b \<noteq> 0) bytes"
    by (rule takeWhile_padded)
  finally have name: "process_name pr' = (let n = takeWhile (\<lambda>b. b \<noteq> 0) bytes in if valid_utf8 n \<and> n \<noteq> [] then Some n else None)"
    by (simp add: process_name_def pr' Let_def)
  have "\<exists>e. set_name bytes' pr' = (Fail e, pr')" if "process_name pr' \<noteq> None" for bytes'
    using that by (auto simp: set_name_def)
  then show ?thesis using len name by blast
qed

theorem process_name_set_once_witness:
  "process_name (snd (set_name [107, 101, 0, 255] (process_new 2 1 (AppId [])))) = Some [107, 101]"
proof -
  obtain pr' where run: "set_name [107, 101, 0, 255] (process_new 2 1 (AppId [])) = (Done (), pr')"
    by (simp add: set_name_def MAX_PROCESS_NAME_LEN_def)
  from process_name_set_once [OF run] run show ?thesis
    by (simp add: word_le_nat_alt word_less_nat_alt)
qed

end
