(* ===== verification/Frame_Allocator.thy ===== *)
theory Frame_Allocator
  imports Processes
begin

text \<open>
  The physical memory manager (\<open>xous/kernel/src/mem.rs\<close>) and the background page zeroer
  (\<open>platform/atsama5d2/page_zeroer.rs\<close>): the owner of every page, the bitmaps of free pages
  that are dirty or zeroed, allocation of single pages and of ranges, claiming, moving and
  releasing, and the low-memory state. A ghost set of scrubbed pages follows the DMA, so that
  the flag with which pages are handed out can be related to what is in them.
\<close>

section \<open>Addresses\<close>

definition RAM_PAGES :: nat where "RAM_PAGES = 32768"
definition FRAGMENTED_AREA_PAGES :: nat where "FRAGMENTED_AREA_PAGES = RAM_PAGES - 40 * 1024 * 1024 div 4096"
definition LOW_MEMORY_THRESHOLD :: nat where "LOW_MEMORY_THRESHOLD = 24 * 1024 * 1024"
definition LOW_MEMORY_HYSTERESIS :: nat where "LOW_MEMORY_HYSTERESIS = 1024 * 1024"

text \<open>\<open>additional_regions\<close>: the named regions of the chip less the two views of DRAM.\<close>

definition additional_regions :: "(usize \<times> usize) list" where
  "additional_regions =
     [(0xa0000000, 0xa0001000), (0xf0000000, 0xf0030000), (0xf8000000, 0xf8060000),
      (0xfc000000, 0xfc070000), (0x00a00000, 0x00a04000), (0xf8044000, 0xf8045000),
      (0xf8045000, 0xf8046000), (0x00200000, 0x00220000), (0x00300000, 0x00400000),
      (0x00400000, 0x00401000), (0x00500000, 0x00501000)]"

definition SHARED_PERIPHERALS :: "usize list" where
  "SHARED_PERIPHERALS =
     [0xf8020000, 0xf804c000, 0xfc01c000, 0xfc038000, 0xf8048000, 0xf0014000, 0xf8044000]"

definition to_plaintext_phys_addr :: "usize \<Rightarrow> usize" where
  "to_plaintext_phys_addr a = PLAINTEXT_DRAM_BASE OR (a AND (ENCRYPTED_DRAM_BASE - 1))"

definition to_encrypted_phys_addr :: "usize \<Rightarrow> usize" where
  "to_encrypted_phys_addr a = ENCRYPTED_DRAM_BASE OR (a AND (PLAINTEXT_DRAM_BASE - 1))"

definition pages_between :: "usize \<Rightarrow> usize \<Rightarrow> nat" where
  "pages_between a b = unat (b - a) div 4096"

fun region_offset :: "nat \<Rightarrow> (usize \<times> usize) list \<Rightarrow> usize \<Rightarrow> nat option" where
  "region_offset off [] a = None"
| "region_offset off (r # rs) a =
     (if fst r \<le> a \<and> a < snd r then Some (off + pages_between (fst r) a)
      else region_offset (off + pages_between (fst r) (snd r)) rs a)"

definition address_to_allocation_offset :: "usize \<Rightarrow> nat option" where
  "address_to_allocation_offset a =
     (if ENCRYPTED_DRAM_BASE \<le> a \<and> a < ENCRYPTED_DRAM_END then Some (pages_between ENCRYPTED_DRAM_BASE a)
      else if PLAINTEXT_DRAM_BASE \<le> a \<and> a < PLAINTEXT_DRAM_END
      then Some (pages_between PLAINTEXT_DRAM_BASE a)
      else region_offset RAM_PAGES additional_regions a)"

text \<open>The physical address of a page of DRAM, in the encrypted view.\<close>

definition page_addr :: "nat \<Rightarrow> usize" where
  "page_addr i = ENCRYPTED_DRAM_BASE + of_nat i * 4096"

section \<open>State\<close>

text \<open>A zeroing job of \<open>map_memory()\<close> whose transfer has not ended.\<close>

record pending_zero =
  pz_phys :: usize
  pz_virt :: usize
  pz_size :: usize
  pz_flags :: memory_flags
  pz_pid :: pid
  pz_tid :: tid

text \<open>
  The bitmaps and the owners are functions on page indices; every access of the code is below
  \<open>RAM_PAGES\<close> (bitmaps) or is an offset the lookup above returned (owners). The zeroer's four
  atomics are fields as well, and \<open>low_events\<close> counts the broadcasts of \<open>LowFreeMemory\<close>.
\<close>

record frames =
  allocations :: "nat \<Rightarrow> pid option"
  free_pages_dirty :: "nat \<Rightarrow> bool"
  next_dirty_page_hint :: "nat option"
  free_pages_zeroed :: "nat \<Rightarrow> bool"
  next_zeroed_page_hint :: nat
  num_free_pages :: nat
  low_memory :: bool
  low_events :: nat
  pending_map_zero :: "pending_zero option"
  zeroer_initialized :: bool
  zeroer_running :: bool
  current_page :: usize
  current_page_num :: nat

definition set_range :: "nat \<Rightarrow> nat \<Rightarrow> 'a \<Rightarrow> (nat \<Rightarrow> 'a) \<Rightarrow> nat \<Rightarrow> 'a" where
  "set_range i n v f = (\<lambda>j. if i \<le> j \<and> j < i + n then v else f j)"

text \<open>\<open>bitmap[a..b].first_one()\<close>, as an index into the whole bitmap.\<close>

definition first_one :: "(nat \<Rightarrow> bool) \<Rightarrow> nat \<Rightarrow> nat \<Rightarrow> nat option" where
  "first_one f a b = find f [a..<b]"

text \<open>\<open>init_from_memory\<close>: the owners come from the loader.\<close>

definition frames_init :: "(nat \<Rightarrow> pid option) \<Rightarrow> frames" where
  "frames_init owners =
     \<lparr>allocations = owners,
      free_pages_dirty = (\<lambda>i. i < RAM_PAGES \<and> owners i = None), next_dirty_page_hint = None,
      free_pages_zeroed = (\<lambda>_. False), next_zeroed_page_hint = 0,
      num_free_pages = length (filter (\<lambda>i. owners i = None) [0..<RAM_PAGES]),
      low_memory = False, low_events = 0, pending_map_zero = None,
      zeroer_initialized = False, zeroer_running = False, current_page = 0, current_page_num = 0\<rparr>"

section \<open>Free pages and low memory\<close>

definition add_free_pages :: "nat \<Rightarrow> frames \<Rightarrow> unit res \<times> frames" where
  "add_free_pages n m =
     (if \<not> num_free_pages m + n \<le> RAM_PAGES then (Panic, m)
      else
        (let m1 = m\<lparr>num_free_pages := num_free_pages m + n\<rparr> in
         (Done (),
          if low_memory m1 \<and> num_free_pages m1 \<ge> (LOW_MEMORY_THRESHOLD + LOW_MEMORY_HYSTERESIS) div 4096
          then m1\<lparr>low_memory := False\<rparr> else m1)))"

definition subtract_free_pages :: "nat \<Rightarrow> frames \<Rightarrow> unit res \<times> frames" where
  "subtract_free_pages n m =
     (if \<not> num_free_pages m \<ge> n then (Panic, m)
      else
        (let m1 = m\<lparr>num_free_pages := num_free_pages m - n\<rparr> in
         (Done (),
          if \<not> low_memory m1 \<and> num_free_pages m1 < LOW_MEMORY_THRESHOLD div 4096
          then m1\<lparr>low_memory := True, low_events := low_events m1 + 1\<rparr> else m1)))"

definition ram_free :: "frames \<Rightarrow> nat" where "ram_free m = num_free_pages m * 4096"

definition ram_used_by :: "frames \<Rightarrow> pid \<Rightarrow> nat" where
  "ram_used_by m p = 4096 * length (filter (\<lambda>i. allocations m i = Some p) [0..<RAM_PAGES])"

section \<open>The page zeroer\<close>

text \<open>At most 8 MB are taken at a time.\<close>

definition take_dirty_pages :: "frames \<Rightarrow> (usize \<times> nat) option \<times> frames" where
  "take_dirty_pages m =
     (let start = (case next_dirty_page_hint m of Some h \<Rightarrow> h | None \<Rightarrow> 0) in
      case (case first_one (free_pages_dirty m) start RAM_PAGES of
              Some i \<Rightarrow> Some i | None \<Rightarrow> first_one (free_pages_dirty m) 0 start) of
        None \<Rightarrow> (None, m\<lparr>next_dirty_page_hint := None\<rparr>)
      | Some offset \<Rightarrow>
          (let pages = min (length (takeWhile (free_pages_dirty m) [offset..<RAM_PAGES])) (8 * 1024 * 1024 div 4096)
           in (Some (page_addr offset, pages),
               m\<lparr>free_pages_dirty := set_range offset pages False (free_pages_dirty m),
                 next_dirty_page_hint := Some ((offset + pages) mod RAM_PAGES)\<rparr>)))"

definition set_pages_to_zeroed :: "usize \<Rightarrow> nat \<Rightarrow> frames \<Rightarrow> unit res \<times> frames" where
  "set_pages_to_zeroed phys pages m =
     (case address_to_allocation_offset phys of
        None \<Rightarrow> (Panic, m)
      | Some offset \<Rightarrow>
          if offset + pages \<le> RAM_PAGES
          then (Done (), m\<lparr>free_pages_zeroed := set_range offset pages True (free_pages_zeroed m)\<rparr>)
          else (Panic, m))"

definition zeroer_start :: "frames \<Rightarrow> frames" where
  "zeroer_start m =
     (if zeroer_running m \<or> \<not> zeroer_initialized m then m
      else (case take_dirty_pages m of
          (None, m1) \<Rightarrow> m1
        | (Some (phys, pages), m1) \<Rightarrow>
            m1\<lparr>zeroer_running := True, current_page := phys, current_page_num := pages\<rparr>))"

text \<open>The background channel's half of \<open>xdmac_interrupt\<close>: the transfer is complete.\<close>

definition zeroer_interrupt :: "frames \<Rightarrow> unit res \<times> frames" where
  "zeroer_interrupt m =
     seq (set_pages_to_zeroed (current_page m) (current_page_num m) (m\<lparr>current_page := 0, current_page_num := 0\<rparr>))
       (\<lambda>_ m1. (Done (), zeroer_start (m1\<lparr>zeroer_running := False\<rparr>)))"

text \<open>The second channel serves \<open>map_memory()\<close>.\<close>

definition map_zero_ongoing :: "frames \<Rightarrow> pid option" where
  "map_zero_ongoing m = map_option pz_pid (pending_map_zero m)"

definition cancel_map_zero :: "frames \<Rightarrow> frames" where
  "cancel_map_zero m = m\<lparr>pending_map_zero := None\<rparr>"

definition zeroer_busy :: "frames \<Rightarrow> bool" where
  "zeroer_busy m \<longleftrightarrow> zeroer_running m \<or> map_zero_ongoing m \<noteq> None"

section \<open>Allocation\<close>

text \<open>The five places where \<open>alloc_single_page\<close> looks, with whether the page is zeroed.\<close>

definition find_single_page :: "frames \<Rightarrow> (nat \<times> bool) option" where
  "find_single_page m =
     (let h = next_zeroed_page_hint m; z = free_pages_zeroed m; d = free_pages_dirty m in
      case first_one z h FRAGMENTED_AREA_PAGES of Some i \<Rightarrow> Some (i, True) | None \<Rightarrow>
      (case first_one z 0 h of Some i \<Rightarrow> Some (i, True) | None \<Rightarrow>
      (case first_one d 0 FRAGMENTED_AREA_PAGES of Some i \<Rightarrow> Some (i, False) | None \<Rightarrow>
      (case first_one z FRAGMENTED_AREA_PAGES RAM_PAGES of Some i \<Rightarrow> Some (i, True) | None \<Rightarrow>
      (case first_one d FRAGMENTED_AREA_PAGES RAM_PAGES of Some i \<Rightarrow> Some (i, False) | None \<Rightarrow> None)))))"

definition alloc_single_page :: "pid \<Rightarrow> frames \<Rightarrow> (usize \<times> bool) res \<times> frames" where
  "alloc_single_page p m =
     (if next_zeroed_page_hint m > FRAGMENTED_AREA_PAGES then (Panic, m)
      else case find_single_page m of
        None \<Rightarrow> (Fail OutOfMemory, m)
      | Some (i, zeroed) \<Rightarrow>
          (let m1 = (if zeroed then m\<lparr>free_pages_zeroed := (free_pages_zeroed m)(i := False)\<rparr>
                     else m\<lparr>free_pages_dirty := (free_pages_dirty m)(i := False)\<rparr>) in
           seq (subtract_free_pages 1 m1) (\<lambda>_ m2.
             (Done (page_addr i, zeroed),
              m2\<lparr>allocations := (allocations m2)(i := Some p),
                 next_zeroed_page_hint := (if i + 1 > FRAGMENTED_AREA_PAGES then 0 else i + 1)\<rparr>))))"

definition all_in :: "(nat \<Rightarrow> bool) \<Rightarrow> nat \<Rightarrow> nat \<Rightarrow> bool" where
  "all_in f i n \<longleftrightarrow> list_all f [i..<i + n]"

definition find_range :: "nat \<Rightarrow> nat \<Rightarrow> frames \<Rightarrow> (nat \<times> bool) option" where
  "find_range align n m =
     (let last = RAM_PAGES - n + 1; z = free_pages_zeroed m; d = free_pages_dirty m in
      case find (\<lambda>i. z i \<and> i AND (align - 1) = 0 \<and> all_in z i n) (rev [0..<last]) of
        Some i \<Rightarrow> Some (i, True)
      | None \<Rightarrow>
          (case find (\<lambda>i. all_in (\<lambda>j. z j \<or> d j) i n) (rev (filter (\<lambda>i. i mod align = 0) [0..<last])) of
             Some i \<Rightarrow> Some (i, False)
           | None \<Rightarrow> None))"

definition alloc_range_aligned :: "nat \<Rightarrow> nat \<Rightarrow> pid \<Rightarrow> frames \<Rightarrow> (usize \<times> bool) res \<times> frames" where
  "alloc_range_aligned align n p m =
     (if n = 0 then (Fail InvalidArguments, m)
      else if n > RAM_PAGES then (Fail OutOfMemory, m)
      else case find_range align n m of
        None \<Rightarrow> (Fail OutOfMemory, m)
      | Some (i, zeroed) \<Rightarrow>
          seq (subtract_free_pages n m) (\<lambda>_ m1.
            (let m2 = m1\<lparr>allocations := set_range i n (Some p) (allocations m1),
                         free_pages_zeroed := set_range i n False (free_pages_zeroed m1)\<rparr>
             in (Done (page_addr i, zeroed),
                 if zeroed then m2
                 else m2\<lparr>free_pages_dirty := set_range i n False (free_pages_dirty m2)\<rparr>))))"

definition alloc_range :: "nat \<Rightarrow> pid \<Rightarrow> memory_flags \<Rightarrow> frames \<Rightarrow> (usize \<times> bool) res \<times> frames" where
  "alloc_range n p flags m =
     seq (if n = 1 then alloc_single_page p m else alloc_range_aligned 1 n p m)
       (\<lambda>(allocated, zeroed) m1.
          if is_set flags PLAINTEXT \<or> is_set flags NO_CACHE \<or> is_set flags DEV
          then (Done (to_plaintext_phys_addr allocated, True), m1)
          else (Done (allocated, \<not> zeroed), m1))"

section \<open>Claiming, moving and releasing pages\<close>

datatype crm_action = Claim | Release | MoveFrom pid

text \<open>
  The check of \<open>claim_release_move\<close> for addresses outside DRAM: the process must hold a
  permission for the address. \<open>None\<close> is the early \<open>Ok\<close> for the shared peripherals, which are
  not accounted.
\<close>

definition peripheral_check :: "(pid \<Rightarrow> process option) \<Rightarrow> usize \<Rightarrow> pid \<Rightarrow> unit option res" where
  "peripheral_check get a p =
     (if is_address_encrypted a \<or> is_address_in_plaintext_dram a then Done (Some ())
      else case get p of
        None \<Rightarrow> Fail ProcessNotFound
      | Some pr \<Rightarrow>
          (case check_memory_permission pr a of
             Fail e \<Rightarrow> Fail e
           | Panic \<Rightarrow> Panic
           | Done _ \<Rightarrow>
               if p \<noteq> 1 \<and> (\<exists>base \<in> set SHARED_PERIPHERALS.
                    a = base \<or> a = base + 0x1000 \<or> a = base + 0x2000 \<or> a = base + 0x3000)
               then Done None else Done (Some ())))"

definition claim_release_move ::
    "(pid \<Rightarrow> process option) \<Rightarrow> usize \<Rightarrow> pid \<Rightarrow> crm_action \<Rightarrow> frames \<Rightarrow> unit res \<times> frames" where
  "claim_release_move get a p action m =
     (if a AND 0xfff \<noteq> 0 then (Fail BadAlignment, m)
      else case peripheral_check get a p of
        Panic \<Rightarrow> (Panic, m)
      | Fail e \<Rightarrow> (Fail e, m)
      | Done None \<Rightarrow> (Done (), m)
      | Done (Some _) \<Rightarrow>
          (case address_to_allocation_offset a of
             None \<Rightarrow> (Fail BadAddress, m)
           | Some i \<Rightarrow>
               (case action of
                  Claim \<Rightarrow>
                    if allocations m i \<noteq> None then (Fail MemoryInUse, m)
                    else seq (if i < RAM_PAGES then
                           (if free_pages_zeroed m i
                            then subtract_free_pages 1 (m\<lparr>free_pages_zeroed := (free_pages_zeroed m)(i := False)\<rparr>)
                            else if free_pages_dirty m i
                            then subtract_free_pages 1 (m\<lparr>free_pages_dirty := (free_pages_dirty m)(i := False)\<rparr>)
                            else (Fail MemoryInUse, m))
                         else (Done (), m))
                       (\<lambda>_ m1. (Done (), m1\<lparr>allocations := (allocations m1)(i := Some p)\<rparr>))
                | MoveFrom existing \<Rightarrow>
                    (case allocations m i of
                       None \<Rightarrow> (Fail DoubleFree, m)
                     | Some owner \<Rightarrow>
                         if owner \<noteq> p \<and> existing \<noteq> owner then (Fail MemoryInUse, m)
                         else (Done (), m\<lparr>allocations := (allocations m)(i := Some p)\<rparr>))
                | Release \<Rightarrow>
                    (case allocations m i of
                       None \<Rightarrow> (Fail DoubleFree, m)
                     | Some owner \<Rightarrow>
                         if owner \<noteq> p then (Fail MemoryInUse, m)
                         else seq (if i < RAM_PAGES
                                then add_free_pages 1 (zeroer_start (m\<lparr>
                                  free_pages_dirty := (free_pages_dirty m)(i := True),
                                  next_dirty_page_hint := (case next_dirty_page_hint m of
                                      None \<Rightarrow> Some i | h \<Rightarrow> h)\<rparr>))
                                else (Done (), m))
                              (\<lambda>_ m1. (Done (), m1\<lparr>allocations := (allocations m1)(i := None)\<rparr>))))))"

definition page_owner :: "frames \<Rightarrow> usize \<Rightarrow> pid option" where
  "page_owner m a = (case address_to_allocation_offset a of None \<Rightarrow> None | Some i \<Rightarrow> allocations m i)"

text \<open>The loops over a range: claiming gives back what it took when a page fails.\<close>

fun release_pages :: "(pid \<Rightarrow> process option) \<Rightarrow> usize list \<Rightarrow> pid \<Rightarrow> frames \<Rightarrow> frames" where
  "release_pages get [] p m = m"
| "release_pages get (a # as) p m = release_pages get as p (snd (claim_release_move get a p Release m))"

fun claim_pages :: "(pid \<Rightarrow> process option) \<Rightarrow> usize list \<Rightarrow> usize list \<Rightarrow> pid \<Rightarrow> frames \<Rightarrow> unit res \<times> frames" where
  "claim_pages get taken [] p m = (Done (), m)"
| "claim_pages get taken (a # as) p m =
     (case claim_release_move get a p Claim m of
        (Done _, m1) \<Rightarrow> claim_pages get (taken @ [a]) as p m1
      | (Fail e, m1) \<Rightarrow> (Fail e, release_pages get taken p m1)
      | (Panic, m1) \<Rightarrow> (Panic, m1))"

definition page_range :: "usize \<Rightarrow> nat \<Rightarrow> usize list" where
  "page_range phys n = map (\<lambda>k. phys + of_nat k * 4096) [0..<n]"

text \<open>The loop of \<open>release_all_memory_for_process\<close> over the page indices.\<close>

fun release_all_loop :: "nat list \<Rightarrow> pid \<Rightarrow> frames \<Rightarrow> unit res \<times> frames" where
  "release_all_loop [] p m = (Done (), m)"
| "release_all_loop (i # is) p m =
     (if allocations m i = Some p then
        (let m1 = m\<lparr>allocations := (allocations m)(i := None)\<rparr> in
         if i < RAM_PAGES then
           seq (add_free_pages 1 (m1\<lparr>free_pages_dirty := (free_pages_dirty m1)(i := True)\<rparr>))
             (\<lambda>_. release_all_loop is p)
         else release_all_loop is p m1)
      else release_all_loop is p m)"

definition allocation_count :: nat where
  "allocation_count = RAM_PAGES + (\<Sum>r\<leftarrow>additional_regions. pages_between (fst r) (snd r))"

definition release_all_memory_for_process :: "pid \<Rightarrow> frames \<Rightarrow> unit res \<times> frames" where
  "release_all_memory_for_process p m =
     seq (release_all_loop [0..<allocation_count] p m) (\<lambda>_ m1. (Done (), zeroer_start m1))"

section \<open>Addresses of pages\<close>

lemma frag_less: "FRAGMENTED_AREA_PAGES \<le> RAM_PAGES" "0 < RAM_PAGES"
  by (simp_all add: FRAGMENTED_AREA_PAGES_def RAM_PAGES_def)

lemmas dram_defs = PLAINTEXT_DRAM_BASE_def PLAINTEXT_DRAM_END_def ENCRYPTED_DRAM_BASE_def
  ENCRYPTED_DRAM_END_def RAM_SIZE_def

lemma unat_of_page: "i \<le> RAM_PAGES \<Longrightarrow> unat (of_nat i * 4096 :: usize) = i * 4096"
  by (simp add: RAM_PAGES_def unat_word_ariths unsigned_of_nat take_bit_nat_eq_self)

lemma unat_page_addr: "i \<le> RAM_PAGES \<Longrightarrow> unat (page_addr i) = 0x40000000 + i * 4096"
  using unat_of_page [of i]
  by (simp add: page_addr_def ENCRYPTED_DRAM_BASE_def RAM_PAGES_def unat_word_ariths)

lemma page_addr_encrypted: "i < RAM_PAGES \<Longrightarrow> is_address_encrypted (page_addr i)"
  using unat_page_addr [of i]
  by (simp add: is_address_encrypted_def dram_defs RAM_PAGES_def word_le_nat_alt word_less_nat_alt)

lemma pages_between_page_addr: "i \<le> RAM_PAGES \<Longrightarrow> pages_between ENCRYPTED_DRAM_BASE (page_addr i) = i"
  using unat_of_page [of i] by (simp add: pages_between_def page_addr_def)

lemma offset_page_addr [simp]: "i < RAM_PAGES \<Longrightarrow> address_to_allocation_offset (page_addr i) = Some i"
  using page_addr_encrypted [of i] pages_between_page_addr [of i]
  by (simp add: address_to_allocation_offset_def is_address_encrypted_def)

lemma page_addr_inj: "i < RAM_PAGES \<Longrightarrow> j < RAM_PAGES \<Longrightarrow> page_addr i = page_addr j \<longleftrightarrow> i = j"
  by (metis offset_page_addr option.inject)

lemma page_addr_add: "page_addr (i + k) = page_addr i + of_nat k * 4096"
  by (simp add: page_addr_def algebra_simps)

text \<open>The two views of DRAM differ in one bit.\<close>

lemma plaintext_page_addr:
  assumes "i < RAM_PAGES"
  shows "to_plaintext_phys_addr (page_addr i) = 0x20000000 + of_nat i * 4096"
proof -
  let ?o = "of_nat i * 4096 :: usize"
  have o: "unat ?o < 2 ^ 27" using unat_of_page [of i] assms by (simp add: RAM_PAGES_def)
  have "take_bit 30 (page_addr i) = ?o"
    using unat_page_addr [of i] unat_of_page [of i] assms
    by (simp add: word_unat_eq_iff unsigned_take_bit_eq) (simp add: take_bit_eq_mod RAM_PAGES_def)
  moreover have "page_addr i AND (ENCRYPTED_DRAM_BASE - 1) = take_bit 30 (page_addr i)"
    by (simp add: ENCRYPTED_DRAM_BASE_def take_bit_eq_mask mask_eq_exp_minus_1)
  moreover have "?o = take_bit 27 ?o"
    using o by (simp add: word_unat_eq_iff unsigned_take_bit_eq take_bit_nat_eq_self)
  moreover have "PLAINTEXT_DRAM_BASE OR take_bit 27 ?o = PLAINTEXT_DRAM_BASE + take_bit 27 ?o"
  proof -
    have "PLAINTEXT_DRAM_BASE = push_bit 29 1"
      by (simp add: PLAINTEXT_DRAM_BASE_def)
    then have "\<not> bit PLAINTEXT_DRAM_BASE n" if "n < 27" for n
      unfolding \<open>PLAINTEXT_DRAM_BASE = push_bit 29 1\<close> using that by (subst bit_push_bit_iff) simp
    then have "PLAINTEXT_DRAM_BASE AND take_bit 27 ?o = 0"
      by (auto intro!: bit_word_eqI simp: bit_simps)
    then show ?thesis by (simp add: disjunctive_add_eq_or)
  qed
  ultimately show ?thesis
    by (simp add: to_plaintext_phys_addr_def PLAINTEXT_DRAM_BASE_def)
qed

text \<open>Every offset is an index of the array of owners, and it names one page.\<close>

definition region_ok :: "usize \<times> usize \<Rightarrow> bool" where
  "region_ok r \<longleftrightarrow> fst r \<le> snd r \<and> unat (fst r) mod 4096 = 0 \<and> unat (snd r) mod 4096 = 0"

lemma pages_between_diff:
  assumes "s \<le> a" and "unat s mod 4096 = 0"
  shows "unat a div 4096 = unat s div 4096 + pages_between s a"
proof -
  have "unat s \<le> unat a" using assms(1) by (simp add: word_le_nat_alt)
  moreover have "unat (a - s) = unat a - unat s" using assms(1) by (simp add: unat_sub)
  moreover obtain k where "unat s = k * 4096" using assms(2) by (metis mod_0_imp_dvd dvd_div_mult_self)
  ultimately show ?thesis
    using div_le_mono [of "unat s" "unat a" 4096] by (simp add: pages_between_def)
qed

lemma pages_between_less:
  assumes "region_ok r" and "fst r \<le> a" and "a < snd r"
  shows "pages_between (fst r) a < pages_between (fst r) (snd r)"
proof -
  have "unat a < unat (snd r)" using assms(3) by (simp add: word_less_nat_alt)
  moreover obtain k where "unat (snd r) = k * 4096"
    using assms(1) by (metis region_ok_def mod_0_imp_dvd dvd_div_mult_self)
  ultimately have "unat a div 4096 < unat (snd r) div 4096"
    by (simp add: less_mult_imp_div_less)
  then show ?thesis
    using assms(1,2) pages_between_diff [of "fst r" a] pages_between_diff [of "fst r" "snd r"]
    by (simp add: region_ok_def)
qed

lemma region_offset_bounds:
  assumes "region_offset off rs a = Some i" and "\<forall>r \<in> set rs. region_ok r"
  shows "off \<le> i \<and> i < off + (\<Sum>r\<leftarrow>rs. pages_between (fst r) (snd r))"
  using assms
proof (induction off rs a rule: region_offset.induct)
  case (1 off a)
  then show ?case by simp
next
  case (2 off r rs a)
  then show ?case
    using pages_between_less [of r a] by (fastforce split: if_splits)
qed

lemma region_offset_same_page:
  assumes "region_offset off rs a = Some i" and "region_offset off rs b = Some i"
    and "\<forall>r \<in> set rs. region_ok r"
  shows "unat a div 4096 = unat b div 4096"
  using assms
proof (induction off rs a rule: region_offset.induct)
  case (1 off a)
  then show ?case by simp
next
  case (2 off r rs a)
  have ok: "region_ok r" "\<forall>q \<in> set rs. region_ok q" using 2(4) by simp_all
  have below: "x < y" if "region_offset (off + pages_between (fst r) (snd r)) rs c = Some y"
    "fst r \<le> d" "d < snd r" "x = off + pages_between (fst r) d" for c d x y
    using region_offset_bounds [OF that(1) ok(2)] pages_between_less [OF ok(1) that(2,3)] that(4) by simp
  show ?case
  proof (cases "fst r \<le> a \<and> a < snd r")
    case True
    then have i: "i = off + pages_between (fst r) a" using 2(2) by simp
    have b: "fst r \<le> b \<and> b < snd r"
    proof (rule ccontr)
      assume "\<not> (fst r \<le> b \<and> b < snd r)"
      then have "region_offset (off + pages_between (fst r) (snd r)) rs b = Some i"
        using 2(3) by (simp only: region_offset.simps if_False)
      from below [OF this _ _ i] True show False by simp
    qed
    then have "i = off + pages_between (fst r) b" using 2(3) by simp
    with i b True show ?thesis
      using ok(1) pages_between_diff [of "fst r" a] pages_between_diff [of "fst r" b]
      by (simp add: region_ok_def)
  next
    case False
    then have ra: "region_offset (off + pages_between (fst r) (snd r)) rs a = Some i"
      using 2(2) by (simp only: region_offset.simps if_False)
    have nb: "\<not> (fst r \<le> b \<and> b < snd r)"
    proof
      assume b: "fst r \<le> b \<and> b < snd r"
      then have "i = off + pages_between (fst r) b" using 2(3) by simp
      from below [OF ra _ _ this] b show False by simp
    qed
    then have "region_offset (off + pages_between (fst r) (snd r)) rs b = Some i"
      using 2(3) by (simp only: region_offset.simps if_False)
    from 2(1) [OF False ra this ok(2)] show ?thesis .
  qed
qed

lemma additional_regions_ok: "\<forall>r \<in> set additional_regions. region_ok r"
  by (simp add: additional_regions_def region_ok_def word_le_nat_alt)

section \<open>The invariant of the frame table\<close>

text \<open>
  The pages being zeroed in the background are in no bitmap and have no owner; every other page
  of RAM is owned, dirty or zeroed, and exactly one of these.
\<close>

definition in_flight :: "frames \<Rightarrow> nat \<Rightarrow> bool" where
  "in_flight m i \<longleftrightarrow> zeroer_running m
     \<and> pages_between ENCRYPTED_DRAM_BASE (current_page m) \<le> i
     \<and> i < pages_between ENCRYPTED_DRAM_BASE (current_page m) + current_page_num m"

definition page_ok :: "frames \<Rightarrow> nat \<Rightarrow> bool" where
  "page_ok m i \<longleftrightarrow>
     (i < RAM_PAGES \<and> allocations m i = None)
       = (free_pages_zeroed m i \<or> free_pages_dirty m i \<or> in_flight m i)
     \<and> \<not> (free_pages_zeroed m i \<and> free_pages_dirty m i)
     \<and> \<not> (free_pages_zeroed m i \<and> in_flight m i) \<and> \<not> (free_pages_dirty m i \<and> in_flight m i)"

definition unowned :: "frames \<Rightarrow> nat set" where
  "unowned m = {i. i < RAM_PAGES \<and> allocations m i = None}"

definition flight_ok :: "frames \<Rightarrow> bool" where
  "flight_ok m \<longleftrightarrow> (zeroer_running m \<longrightarrow> zeroer_initialized m \<and>
     (\<exists>k < RAM_PAGES. current_page m = page_addr k \<and> 0 < current_page_num m
        \<and> k + current_page_num m \<le> RAM_PAGES))"

definition wf_frames :: "frames \<Rightarrow> bool" where
  "wf_frames m \<longleftrightarrow> num_free_pages m = card (unowned m) \<and> (\<forall>i. page_ok m i)
     \<and> next_zeroed_page_hint m \<le> FRAGMENTED_AREA_PAGES
     \<and> (\<forall>h. next_dirty_page_hint m = Some h \<longrightarrow> h < RAM_PAGES) \<and> flight_ok m"

lemma finite_unowned [simp]: "finite (unowned m)"
  by (simp add: unowned_def)

lemma card_unowned_le: "card (unowned m) \<le> RAM_PAGES"
  using card_mono [of "{..<RAM_PAGES}" "unowned m"] by (auto simp: unowned_def)

text \<open>What the bitmaps say of a page.\<close>

lemma wf_frames_page:
  assumes "wf_frames m"
  shows "free_pages_zeroed m i \<Longrightarrow> i < RAM_PAGES \<and> allocations m i = None \<and> \<not> in_flight m i
      \<and> \<not> free_pages_dirty m i"
    and "free_pages_dirty m i \<Longrightarrow> i < RAM_PAGES \<and> allocations m i = None \<and> \<not> in_flight m i
      \<and> \<not> free_pages_zeroed m i"
    and "in_flight m i \<Longrightarrow> i < RAM_PAGES \<and> allocations m i = None"
    and "i < RAM_PAGES \<Longrightarrow> allocations m i = None \<Longrightarrow>
      free_pages_zeroed m i \<or> free_pages_dirty m i \<or> in_flight m i"
  using assms by (auto simp: wf_frames_def page_ok_def)

lemma wf_frames_init [simp]: "wf_frames (frames_init owners)"
proof -
  have "unowned (frames_init owners) = {i. i < length [0..<RAM_PAGES] \<and> owners ([0..<RAM_PAGES] ! i) = None}"
    by (auto simp: unowned_def frames_init_def)
  then show ?thesis
    by (auto simp: wf_frames_def frames_init_def page_ok_def flight_ok_def in_flight_def
        length_filter_conv_card FRAGMENTED_AREA_PAGES_def)
qed

lemma frames_init_simps [simp]:
  "allocations (frames_init owners) = owners" "\<not> in_flight (frames_init owners) i"
  "\<not> zeroer_running (frames_init owners)" "\<not> free_pages_zeroed (frames_init owners) i"
  by (simp_all add: frames_init_def in_flight_def)

section \<open>Counting free pages\<close>

text \<open>Whatever the counters do to the low-memory state, the rest of the table stays.\<close>

lemma subtract_free_pages_spec:
  assumes "n \<le> num_free_pages m"
  obtains l e where "subtract_free_pages n m =
    (Done (), m\<lparr>num_free_pages := num_free_pages m - n, low_memory := l, low_events := e\<rparr>)"
proof (cases "\<not> low_memory m \<and> num_free_pages m - n < LOW_MEMORY_THRESHOLD div 4096")
  case True
  then show ?thesis
    using that [where l = True and e = "low_events m + 1"] assms by (simp add: subtract_free_pages_def Let_def)
next
  case False
  then show ?thesis
    using that [where l = "low_memory m" and e = "low_events m"] assms by (auto simp: subtract_free_pages_def Let_def)
qed

lemma add_free_pages_spec:
  assumes "num_free_pages m + n \<le> RAM_PAGES"
  obtains l where "add_free_pages n m =
    (Done (), m\<lparr>num_free_pages := num_free_pages m + n, low_memory := l\<rparr>)"
proof (cases "low_memory m \<and> (LOW_MEMORY_THRESHOLD + LOW_MEMORY_HYSTERESIS) div 4096 \<le> num_free_pages m + n")
  case True
  then show ?thesis
    using that [of False] assms by (simp add: add_free_pages_def Let_def)
next
  case False
  then show ?thesis
    using that [of "low_memory m"] assms by (auto simp: add_free_pages_def Let_def)
qed

lemma wf_frames_low [simp]:
  "wf_frames (m\<lparr>low_memory := l\<rparr>) = wf_frames m" "wf_frames (m\<lparr>low_events := e\<rparr>) = wf_frames m"
  by (simp_all add: wf_frames_def page_ok_def in_flight_def unowned_def flight_ok_def)

lemma first_one_Some: "first_one f a b = Some i \<Longrightarrow> a \<le> i \<and> i < b \<and> f i"
  by (auto simp: first_one_def find_Some_iff)

lemma first_one_None: "first_one f a b = None \<longleftrightarrow> (\<forall>i. a \<le> i \<and> i < b \<longrightarrow> \<not> f i)"
  by (auto simp: first_one_def find_None_iff)

lemma card_diff_range:
  assumes "{i..<i + n} \<subseteq> S" and "finite S"
  shows "card (S - {i..<i + n}) = card S - n" and "n \<le> card S"
  using assms card_mono [OF assms(2,1)] by (simp_all add: card_Diff_subset)

section \<open>Giving out pages\<close>

text \<open>What every allocation and claim does to the table, whatever way it found its pages.\<close>

definition handed_over :: "nat \<Rightarrow> nat \<Rightarrow> pid \<Rightarrow> frames \<Rightarrow> frames \<Rightarrow> bool" where
  "handed_over i n p m m' \<longleftrightarrow>
     allocations m' = set_range i n (Some p) (allocations m)
     \<and> free_pages_zeroed m' = set_range i n False (free_pages_zeroed m)
     \<and> free_pages_dirty m' = set_range i n False (free_pages_dirty m)
     \<and> num_free_pages m' = num_free_pages m - n
     \<and> next_zeroed_page_hint m' \<le> FRAGMENTED_AREA_PAGES
     \<and> next_dirty_page_hint m' = next_dirty_page_hint m
     \<and> pending_map_zero m' = pending_map_zero m
     \<and> zeroer_initialized m' = zeroer_initialized m \<and> zeroer_running m' = zeroer_running m
     \<and> current_page m' = current_page m \<and> current_page_num m' = current_page_num m"

definition free_run :: "frames \<Rightarrow> nat \<Rightarrow> nat \<Rightarrow> bool" where
  "free_run m i n \<longleftrightarrow> i + n \<le> RAM_PAGES
     \<and> (\<forall>j. i \<le> j \<and> j < i + n \<longrightarrow> free_pages_zeroed m j \<or> free_pages_dirty m j)"

lemma free_run_unowned:
  assumes "wf_frames m" and "free_run m i n"
  shows "{i..<i + n} \<subseteq> unowned m" and "n \<le> num_free_pages m"
proof -
  show "{i..<i + n} \<subseteq> unowned m"
    using assms(2) wf_frames_page(1,2) [OF assms(1)] by (auto simp: free_run_def unowned_def)
  from card_diff_range(2) [OF this] show "n \<le> num_free_pages m"
    using assms(1) by (simp add: wf_frames_def)
qed

lemma wf_handed_over:
  assumes wf: "wf_frames m" and run: "free_run m i n" and h: "handed_over i n p m m'"
  shows "wf_frames m'"
proof -
  have fl: "in_flight m' j = in_flight m j" for j
    using h by (simp add: in_flight_def handed_over_def)
  have "unowned m' = unowned m - {i..<i + n}"
    using h by (auto simp: unowned_def handed_over_def set_range_def)
  then have "num_free_pages m' = card (unowned m')"
    using card_diff_range(1) [OF free_run_unowned(1) [OF wf run]] h wf
    by (simp add: handed_over_def wf_frames_def)
  moreover have "page_ok m' j" for j
  proof (cases "i \<le> j \<and> j < i + n")
    case True
    then have "\<not> in_flight m j"
      using run wf_frames_page [OF wf, of j] by (auto simp: free_run_def)
    with True show ?thesis
      using h by (simp add: page_ok_def fl handed_over_def set_range_def)
  next
    case False
    have "page_ok m j" using wf by (simp add: wf_frames_def)
    with False show ?thesis
      using h by (auto simp: page_ok_def fl handed_over_def set_range_def)
  qed
  ultimately show ?thesis
    using wf h by (simp add: wf_frames_def handed_over_def flight_ok_def)
qed

lemma find_single_page_Some:
  assumes "find_single_page m = Some (i, b)" and "wf_frames m"
  shows "i < RAM_PAGES" and "b = free_pages_zeroed m i" and "\<not> b \<Longrightarrow> free_pages_dirty m i"
proof -
  have "(b \<and> free_pages_zeroed m i) \<or> (\<not> b \<and> free_pages_dirty m i)"
    using assms(1) by (auto simp: find_single_page_def Let_def dest!: first_one_Some split: option.splits)
  then show "i < RAM_PAGES" and "b = free_pages_zeroed m i" and "\<not> b \<Longrightarrow> free_pages_dirty m i"
    using wf_frames_page(1,2) [OF assms(2), of i] by blast+
qed

lemma find_single_page_None:
  assumes "find_single_page m = None" and "wf_frames m"
  shows "\<not> free_pages_zeroed m i \<and> \<not> free_pages_dirty m i"
proof -
  have h: "next_zeroed_page_hint m \<le> FRAGMENTED_AREA_PAGES" using assms(2) by (simp add: wf_frames_def)
  have n: "first_one (free_pages_zeroed m) (next_zeroed_page_hint m) FRAGMENTED_AREA_PAGES = None"
    "first_one (free_pages_zeroed m) 0 (next_zeroed_page_hint m) = None"
    "first_one (free_pages_dirty m) 0 FRAGMENTED_AREA_PAGES = None"
    "first_one (free_pages_zeroed m) FRAGMENTED_AREA_PAGES RAM_PAGES = None"
    "first_one (free_pages_dirty m) FRAGMENTED_AREA_PAGES RAM_PAGES = None"
    using assms(1) by (auto simp: find_single_page_def Let_def split: option.splits)
  show ?thesis
    using n wf_frames_page(1,2) [OF assms(2), of i] unfolding first_one_None
    by (meson le0 not_less)
qed

lemma alloc_single_page_spec:
  assumes wf: "wf_frames m" and run: "alloc_single_page p m = (r, m')"
  obtains "r = Fail OutOfMemory" "m' = m" "\<And>i. \<not> free_run m i 1"
  | i where "r = Done (page_addr i, free_pages_zeroed m i)" "i < RAM_PAGES" "free_run m i 1"
      "handed_over i 1 p m m'"
proof (cases "find_single_page m")
  case None
  then show ?thesis
    using that(1) run wf find_single_page_None [OF None wf]
    by (auto simp: alloc_single_page_def wf_frames_def free_run_def)
next
  case (Some q)
  obtain i b where q: "q = (i, b)" by (cases q)
  note f = find_single_page_Some [OF Some [unfolded q] wf]
  have fr: "free_run m i 1"
    using f by (auto simp: free_run_def less_Suc_eq_le)
  have d: "b \<Longrightarrow> \<not> free_pages_dirty m i" "\<not> b \<Longrightarrow> \<not> free_pages_zeroed m i"
    using f wf_frames_page(1) [OF wf, of i] by auto
  let ?m1 = "if b then m\<lparr>free_pages_zeroed := (free_pages_zeroed m)(i := False)\<rparr>
     else m\<lparr>free_pages_dirty := (free_pages_dirty m)(i := False)\<rparr>"
  have "1 \<le> num_free_pages ?m1" using free_run_unowned(2) [OF wf fr] by simp
  then obtain l e where s: "subtract_free_pages 1 ?m1 =
      (Done (), ?m1\<lparr>num_free_pages := num_free_pages ?m1 - 1, low_memory := l, low_events := e\<rparr>)"
    by (rule subtract_free_pages_spec)
  have rm: "r = Done (page_addr i, b)"
    "m' = (?m1\<lparr>num_free_pages := num_free_pages ?m1 - 1, low_memory := l, low_events := e\<rparr>)
       \<lparr>allocations := (allocations m)(i := Some p),
        next_zeroed_page_hint := (if i + 1 > FRAGMENTED_AREA_PAGES then 0 else i + 1)\<rparr>"
    using run wf Some s by (auto simp: alloc_single_page_def wf_frames_def q Let_def split: if_splits)
  have upd: "set_range i (Suc 0) v f = f(i := v)" for v and f :: "nat \<Rightarrow> 'z"
    by (auto simp: set_range_def fun_eq_iff)
  have "handed_over i 1 p m m'"
    using d by (cases b) (auto simp: rm(2) handed_over_def upd fun_eq_iff)
  with that(2) [of i] fr f rm(1) show ?thesis by simp
qed

lemma all_in_iff: "all_in f i n \<longleftrightarrow> (\<forall>j. i \<le> j \<and> j < i + n \<longrightarrow> f j)"
  by (auto simp: all_in_def list_all_iff)

lemma and_mask_nat: "(i :: nat) AND (2 ^ k - 1) = i mod 2 ^ k"
  using take_bit_eq_mask [of k i] by (simp add: take_bit_eq_mod mask_eq_exp_minus_1)

lemma find_SomeD: "find P xs = Some x \<Longrightarrow> P x \<and> x \<in> set xs"
  by (auto simp: find_Some_iff)

lemma find_range_Some:
  assumes "find_range (2 ^ k) n m = Some (i, b)" and n: "0 < n" "n \<le> RAM_PAGES"
  shows "free_run m i n" and "i mod 2 ^ k = 0"
    and "b \<Longrightarrow> \<forall>j. i \<le> j \<and> j < i + n \<longrightarrow> free_pages_zeroed m j"
proof -
  let ?z = "\<lambda>i. free_pages_zeroed m i \<and> i AND (2 ^ k - 1) = 0 \<and> all_in (free_pages_zeroed m) i n"
  let ?d = "\<lambda>i. all_in (\<lambda>j. free_pages_zeroed m j \<or> free_pages_dirty m j) i n"
  let ?stop = "RAM_PAGES - n + 1"
  consider "find ?z (rev [0..<?stop]) = Some i" "b"
    | "find ?d (rev (filter (\<lambda>i. i mod 2 ^ k = 0) [0..<?stop])) = Some i" "\<not> b"
    using assms(1) by (auto simp: find_range_def Let_def simp del: upt_Suc split: option.splits)
  then have "i < ?stop \<and> i mod 2 ^ k = 0 \<and> ?d i \<and> (b \<longrightarrow> all_in (free_pages_zeroed m) i n)"
  proof cases
    case 1
    from find_SomeD [OF 1(1)] show ?thesis
      by (simp only: and_mask_nat set_rev set_upt all_in_iff) auto
  next
    case 2
    from find_SomeD [OF 2(1)] 2(2) show ?thesis by (auto simp del: upt_Suc)
  qed
  then show "free_run m i n" and "i mod 2 ^ k = 0"
    and "b \<Longrightarrow> \<forall>j. i \<le> j \<and> j < i + n \<longrightarrow> free_pages_zeroed m j"
    using n by (auto simp: free_run_def all_in_iff)
qed

lemma find_range_None:
  assumes "find_range (2 ^ k) n m = None" and "0 < n" and "i mod 2 ^ k = 0"
  shows "\<not> free_run m i n"
proof
  assume run: "free_run m i n"
  then have "i \<in> set (rev (filter (\<lambda>i. i mod 2 ^ k = 0) [0..<RAM_PAGES - n + 1]))"
    using assms(2,3) by (auto simp: free_run_def simp del: upt_Suc)
  moreover have "all_in (\<lambda>j. free_pages_zeroed m j \<or> free_pages_dirty m j) i n"
    using run by (auto simp: free_run_def all_in_iff)
  moreover have "find (\<lambda>i. all_in (\<lambda>j. free_pages_zeroed m j \<or> free_pages_dirty m j) i n)
      (rev (filter (\<lambda>i. i mod 2 ^ k = 0) [0..<RAM_PAGES - n + 1])) = None"
    using assms(1) by (auto simp: find_range_def Let_def simp del: upt_Suc split: option.splits)
  ultimately show False unfolding find_None_iff by blast
qed

lemma alloc_range_aligned_spec:
  assumes wf: "wf_frames m" and run: "alloc_range_aligned (2 ^ k) n p m = (r, m')"
  obtains "n = 0" "r = Fail InvalidArguments" "m' = m"
  | "0 < n" "r = Fail OutOfMemory" "m' = m" "\<And>i. i mod 2 ^ k = 0 \<Longrightarrow> \<not> free_run m i n"
  | i z where "0 < n" "r = Done (page_addr i, z)" "free_run m i n" "i mod 2 ^ k = 0"
      "z \<Longrightarrow> \<forall>j. i \<le> j \<and> j < i + n \<longrightarrow> free_pages_zeroed m j" "handed_over i n p m m'"
proof (cases "n = 0 \<or> n > RAM_PAGES")
  case True
  with that(1,2) run show ?thesis
    by (cases "n = 0") (auto simp: alloc_range_aligned_def free_run_def)
next
  case False
  then have n: "0 < n" "n \<le> RAM_PAGES" by auto
  show ?thesis
  proof (cases "find_range (2 ^ k) n m")
    case None
    with that(2) run n find_range_None [OF None n(1)] show ?thesis
      by (auto simp: alloc_range_aligned_def)
  next
    case (Some q)
    obtain i z where q: "q = (i, z)" by (cases q)
    note f = find_range_Some [OF Some [unfolded q] n]
    obtain l e where s: "subtract_free_pages n m =
        (Done (), m\<lparr>num_free_pages := num_free_pages m - n, low_memory := l, low_events := e\<rparr>)"
      using free_run_unowned(2) [OF wf f(1)] by (rule subtract_free_pages_spec)
    have d: "z \<Longrightarrow> set_range i n False (free_pages_dirty m) = free_pages_dirty m"
      using f(3) wf_frames_page(1) [OF wf] by (auto simp: set_range_def fun_eq_iff)
    have rm: "r = Done (page_addr i, z)"
      "allocations m' = set_range i n (Some p) (allocations m)"
      "free_pages_zeroed m' = set_range i n False (free_pages_zeroed m)"
      "free_pages_dirty m' = (if z then free_pages_dirty m else set_range i n False (free_pages_dirty m))"
      "num_free_pages m' = num_free_pages m - n" "next_zeroed_page_hint m' = next_zeroed_page_hint m"
      "next_dirty_page_hint m' = next_dirty_page_hint m" "pending_map_zero m' = pending_map_zero m"
      "zeroer_initialized m' = zeroer_initialized m" "zeroer_running m' = zeroer_running m"
      "current_page m' = current_page m" "current_page_num m' = current_page_num m"
      using run n by (auto simp: alloc_range_aligned_def Some q s Let_def split: if_splits)
    have "next_zeroed_page_hint m \<le> FRAGMENTED_AREA_PAGES" using wf by (simp add: wf_frames_def)
    with rm d have "handed_over i n p m m'" by (cases z) (simp_all add: handed_over_def)
    from that(3) [OF n(1) rm(1) f(1,2) _ this] f(3) show ?thesis by blast
  qed
qed

lemma alloc_range_spec:
  assumes wf: "wf_frames m" and run: "alloc_range n p flags m = (r, m')"
  obtains "n = 0" "r = Fail InvalidArguments" "m' = m"
  | "0 < n" "r = Fail OutOfMemory" "m' = m" "\<And>i. \<not> free_run m i n"
  | i z where "0 < n" "free_run m i n" "handed_over i n p m m'"
      "r = Done (if is_set flags PLAINTEXT \<or> is_set flags NO_CACHE \<or> is_set flags DEV
         then (to_plaintext_phys_addr (page_addr i), True) else (page_addr i, \<not> z))"
      "z \<Longrightarrow> \<forall>j. i \<le> j \<and> j < i + n \<longrightarrow> free_pages_zeroed m j"
proof (cases "n = 1")
  case True
  obtain r1 where one: "alloc_single_page p m = (r1, m')"
    using run True by (cases "alloc_single_page p m"; cases "fst (alloc_single_page p m)")
      (auto simp: alloc_range_def split: if_splits)
  from wf one show ?thesis
  proof (cases rule: alloc_single_page_spec)
    case 1
    with that(2) True run one show ?thesis by (auto simp: alloc_range_def)
  next
    case (2 i)
    show ?thesis
      by (rule that(3) [of i "free_pages_zeroed m i"])
        (use 2 True run one in \<open>auto simp: alloc_range_def less_Suc_eq_le dest: le_antisym\<close>)
  qed
next
  case False
  obtain r1 where many: "alloc_range_aligned (2 ^ 0) n p m = (r1, m')"
    using run False by (cases "alloc_range_aligned 1 n p m"; cases "fst (alloc_range_aligned 1 n p m)")
      (auto simp: alloc_range_def split: if_splits)
  from wf many show ?thesis
  proof (cases rule: alloc_range_aligned_spec)
    case 1
    with that(1) False run many show ?thesis by (auto simp: alloc_range_def)
  next
    case 2
    with that(2) False run many show ?thesis by (auto simp: alloc_range_def)
  next
    case (3 i z)
    show ?thesis
      by (rule that(3) [of i z]) (use 3 False run many in \<open>auto simp: alloc_range_def\<close>)
  qed
qed

section \<open>The zeroer keeps the invariant\<close>

lemma dirty_run:
  assumes "d k" and "k < b" and "n = min (length (takeWhile d [k..<b])) c" and "0 < c"
  shows "0 < n" and "k + n \<le> b" and "\<forall>j. k \<le> j \<and> j < k + n \<longrightarrow> d j"
proof -
  have "[k..<b] = k # [Suc k..<b]" using assms(2) by (simp add: upt_conv_Cons)
  then show "0 < n" using assms by simp
  have le: "n \<le> length (takeWhile d [k..<b])" using assms(3) by simp
  also have "\<dots> \<le> b - k" using length_takeWhile_le [of d "[k..<b]"] by simp
  finally show "k + n \<le> b" using assms(2) by simp
  show "\<forall>j. k \<le> j \<and> j < k + n \<longrightarrow> d j"
  proof (intro allI impI)
    fix j assume j: "k \<le> j \<and> j < k + n"
    then have l: "j - k < length (takeWhile d [k..<b])" using le by linarith
    then have "d (takeWhile d [k..<b] ! (j - k))" by (metis nth_mem set_takeWhileD)
    moreover have "takeWhile d [k..<b] ! (j - k) = [k..<b] ! (j - k)"
      using l by (rule takeWhile_nth)
    moreover have "j - k < b - k" using l length_takeWhile_le [of d "[k..<b]"] by simp
    ultimately show "d j" using j by simp
  qed
qed

lemma zeroer_start_cases:
  assumes "wf_frames m"
  obtains "zeroer_start m = m" "zeroer_running m \<or> \<not> zeroer_initialized m"
  | "zeroer_start m = m\<lparr>next_dirty_page_hint := None\<rparr>"
      "\<forall>i. \<not> free_pages_dirty m i" "zeroer_initialized m" "\<not> zeroer_running m"
  | k n where "\<not> zeroer_running m" "zeroer_initialized m" "k < RAM_PAGES" "0 < n" "k + n \<le> RAM_PAGES"
      "\<forall>j. k \<le> j \<and> j < k + n \<longrightarrow> free_pages_dirty m j"
      "zeroer_start m = m\<lparr>free_pages_dirty := set_range k n False (free_pages_dirty m),
         next_dirty_page_hint := Some ((k + n) mod RAM_PAGES), zeroer_running := True,
         current_page := page_addr k, current_page_num := n\<rparr>"
proof (cases "zeroer_running m \<or> \<not> zeroer_initialized m")
  case True
  then show ?thesis using that(1) by (auto simp: zeroer_start_def)
next
  case False
  define st where "st = (case next_dirty_page_hint m of Some h \<Rightarrow> h | None \<Rightarrow> 0)"
  have st: "st < RAM_PAGES"
    using assms frag_less(2) by (auto simp: wf_frames_def st_def split: option.splits)
  define f where "f = (case first_one (free_pages_dirty m) st RAM_PAGES of
              Some i \<Rightarrow> Some i | None \<Rightarrow> first_one (free_pages_dirty m) 0 st)"
  show ?thesis
  proof (cases f)
    case None
    then have "first_one (free_pages_dirty m) st RAM_PAGES = None"
      "first_one (free_pages_dirty m) 0 st = None" by (auto simp: f_def split: option.splits)
    then have "\<forall>i. \<not> free_pages_dirty m i"
      unfolding first_one_None using wf_frames_page(2) [OF assms] by (meson le0 not_less)
    moreover have "zeroer_start m = m\<lparr>next_dirty_page_hint := None\<rparr>"
      using False None by (simp add: zeroer_start_def take_dirty_pages_def Let_def
          flip: st_def f_def)
    ultimately show ?thesis using that(2) False by blast
  next
    case (Some k)
    then have k: "free_pages_dirty m k" "k < RAM_PAGES"
      using st by (auto simp: f_def dest!: first_one_Some split: option.splits)
    define n where "n = min (length (takeWhile (free_pages_dirty m) [k..<RAM_PAGES])) (8 * 1024 * 1024 div 4096)"
    note run = dirty_run [OF k n_def]
    have "zeroer_start m = m\<lparr>free_pages_dirty := set_range k n False (free_pages_dirty m),
         next_dirty_page_hint := Some ((k + n) mod RAM_PAGES), zeroer_running := True,
         current_page := page_addr k, current_page_num := n\<rparr>"
      using False Some by (simp add: zeroer_start_def take_dirty_pages_def Let_def
          flip: st_def f_def) (simp add: n_def)
    then show ?thesis using that(3) False k run by simp
  qed
qed

lemma wf_zeroer_start:
  assumes wf: "wf_frames m"
  shows "wf_frames (zeroer_start m)"
  using wf
proof (cases rule: zeroer_start_cases)
  case 1
  with wf show ?thesis by simp
next
  case 2
  with wf show ?thesis
    by (simp add: wf_frames_def page_ok_def in_flight_def unowned_def flight_ok_def)
next
  case (3 k n)
  let ?m = "zeroer_start m"
  have fl: "in_flight ?m j \<longleftrightarrow> k \<le> j \<and> j < k + n" for j
    using 3 pages_between_page_addr [of k] by (simp add: in_flight_def)
  have "page_ok ?m j" for j
  proof -
    have "page_ok m j" "\<not> in_flight m j" using wf 3(1) by (simp_all add: wf_frames_def in_flight_def)
    then show ?thesis
      using 3(6) unfolding page_ok_def fl by (auto simp: 3(7) set_range_def)
  qed
  moreover have "flight_ok ?m"
    using 3 by (simp add: flight_ok_def) (rule exI [of _ k], simp)
  ultimately show ?thesis
    using wf frag_less(2) by (simp add: wf_frames_def) (simp add: 3(7) unowned_def)
qed

lemma zeroer_start_keeps [simp]:
  "allocations (zeroer_start m) = allocations m" "num_free_pages (zeroer_start m) = num_free_pages m"
  "free_pages_zeroed (zeroer_start m) = free_pages_zeroed m" "low_memory (zeroer_start m) = low_memory m"
  "pending_map_zero (zeroer_start m) = pending_map_zero m" "low_events (zeroer_start m) = low_events m"
  "zeroer_initialized (zeroer_start m) = zeroer_initialized m"
  by (auto simp: zeroer_start_def take_dirty_pages_def Let_def split: option.splits)

lemma zeroer_start_commutes:
  "zeroer_start (m\<lparr>allocations := a\<rparr>) = (zeroer_start m)\<lparr>allocations := a\<rparr>"
  "zeroer_start (m\<lparr>num_free_pages := k\<rparr>) = (zeroer_start m)\<lparr>num_free_pages := k\<rparr>"
  "zeroer_start (m\<lparr>low_memory := l\<rparr>) = (zeroer_start m)\<lparr>low_memory := l\<rparr>"
  by (auto simp: zeroer_start_def take_dirty_pages_def Let_def split: option.splits)

text \<open>The interrupt that ends a transfer never finds an impossible range.\<close>

lemma zeroer_interrupt_spec:
  assumes wf: "wf_frames m" and run: "zeroer_running m"
  obtains k where "k < RAM_PAGES" "current_page m = page_addr k" "k + current_page_num m \<le> RAM_PAGES"
    "\<And>j. in_flight m j \<longleftrightarrow> k \<le> j \<and> j < k + current_page_num m"
    "zeroer_interrupt m = (Done (), zeroer_start (m\<lparr>current_page := 0, current_page_num := 0,
       free_pages_zeroed := set_range k (current_page_num m) True (free_pages_zeroed m),
       zeroer_running := False\<rparr>))"
    "wf_frames (m\<lparr>current_page := 0, current_page_num := 0,
       free_pages_zeroed := set_range k (current_page_num m) True (free_pages_zeroed m),
       zeroer_running := False\<rparr>)"
proof -
  obtain k where k: "k < RAM_PAGES" "current_page m = page_addr k" "k + current_page_num m \<le> RAM_PAGES"
    using wf run by (auto simp: wf_frames_def flight_ok_def)
  let ?m = "m\<lparr>current_page := 0, current_page_num := 0,
       free_pages_zeroed := set_range k (current_page_num m) True (free_pages_zeroed m),
       zeroer_running := False\<rparr>"
  have fl: "in_flight m j \<longleftrightarrow> k \<le> j \<and> j < k + current_page_num m" for j
    using k run pages_between_page_addr [of k] by (simp add: in_flight_def)
  have int: "zeroer_interrupt m = (Done (), zeroer_start ?m)"
    using k by (simp add: zeroer_interrupt_def set_pages_to_zeroed_def)
  have "page_ok ?m j" for j
  proof -
    have "page_ok m j" using wf by (simp add: wf_frames_def)
    moreover have "\<not> in_flight ?m j" by (simp add: in_flight_def)
    ultimately show ?thesis
      unfolding page_ok_def fl by (auto simp: set_range_def)
  qed
  then have "wf_frames ?m"
    using wf by (simp add: wf_frames_def flight_ok_def unowned_def)
  from that [OF k fl int this] show ?thesis .
qed

section \<open>Claiming, moving and releasing keep the invariant\<close>

text \<open>A page of RAM becomes free: it is dirty from now on.\<close>

definition freed_page :: "nat \<Rightarrow> frames \<Rightarrow> frames" where
  "freed_page i m = m\<lparr>allocations := (allocations m)(i := None),
     free_pages_dirty := (free_pages_dirty m)(i := True), num_free_pages := num_free_pages m + 1\<rparr>"

lemma owned_room:
  assumes "wf_frames m" and "allocations m i = Some p" and "i < RAM_PAGES"
  shows "num_free_pages m + 1 \<le> RAM_PAGES"
proof -
  have "unowned m \<subseteq> {..<RAM_PAGES}" by (auto simp: unowned_def)
  moreover have "i \<notin> unowned m" "i \<in> {..<RAM_PAGES}" using assms(2,3) by (simp_all add: unowned_def)
  ultimately have "unowned m \<subset> {..<RAM_PAGES}" by blast
  from psubset_card_mono [OF _ this] have "card (unowned m) < RAM_PAGES" by simp
  moreover have "num_free_pages m = card (unowned m)" using assms(1) by (simp add: wf_frames_def)
  ultimately show ?thesis by simp
qed

lemma wf_freed_page:
  assumes wf: "wf_frames m" and own: "allocations m i = Some p" and i: "i < RAM_PAGES"
    and h: "\<forall>j. h = Some j \<longrightarrow> j < RAM_PAGES"
  shows "wf_frames (freed_page i m\<lparr>next_dirty_page_hint := h\<rparr>)"
proof -
  let ?m = "freed_page i m\<lparr>next_dirty_page_hint := h\<rparr>"
  have fl: "in_flight ?m j = in_flight m j" for j by (simp add: in_flight_def freed_page_def)
  have "unowned ?m = insert i (unowned m)" using i by (auto simp: unowned_def freed_page_def)
  moreover have "i \<notin> unowned m" using own by (simp add: unowned_def)
  ultimately have "num_free_pages ?m = card (unowned ?m)"
    using wf by (simp add: wf_frames_def) (simp add: freed_page_def)
  moreover have "page_ok ?m j" for j
  proof -
    have "page_ok m j" using wf by (simp add: wf_frames_def)
    with own i show ?thesis unfolding page_ok_def fl by (auto simp: freed_page_def)
  qed
  moreover have "flight_ok ?m" using wf by (simp add: wf_frames_def flight_ok_def freed_page_def)
  ultimately show ?thesis using wf h by (simp add: wf_frames_def) (simp add: freed_page_def)
qed

lemma wf_change_owner:
  assumes wf: "wf_frames m" and i: "RAM_PAGES \<le> i \<or> (allocations m i \<noteq> None \<and> v \<noteq> None)"
  shows "wf_frames (m\<lparr>allocations := (allocations m)(i := v)\<rparr>)"
proof -
  let ?m = "m\<lparr>allocations := (allocations m)(i := v)\<rparr>"
  have fl: "in_flight ?m j = in_flight m j" for j by (simp add: in_flight_def)
  have "unowned ?m = unowned m" using i by (auto simp: unowned_def)
  moreover have "page_ok ?m j" for j
  proof -
    have "page_ok m j" using wf by (simp add: wf_frames_def)
    with i show ?thesis unfolding page_ok_def fl by (cases "j = i") auto
  qed
  ultimately show ?thesis using wf by (simp add: wf_frames_def flight_ok_def)
qed

lemma peripheral_check_no_panic [simp]: "peripheral_check get a p \<noteq> Panic"
  by (auto simp: peripheral_check_def check_memory_permission_def split: option.splits outcome.splits if_splits)

text \<open>The addresses whose owner is recorded: aligned, permitted, and not shared.\<close>

definition accounts :: "(pid \<Rightarrow> process option) \<Rightarrow> usize \<Rightarrow> pid \<Rightarrow> nat \<Rightarrow> bool" where
  "accounts get a p i \<longleftrightarrow> a AND 0xfff = 0 \<and> peripheral_check get a p = Done (Some ())
     \<and> address_to_allocation_offset a = Some i"

lemma claim_spec:
  assumes wf: "wf_frames m" and run: "claim_release_move get a p Claim m = (r, m')"
  obtains "r \<noteq> Panic" "m' = m" "\<And>i. r = Done () \<Longrightarrow> \<not> accounts get a p i"
  | i where "r = Done ()" "accounts get a p i" "i < RAM_PAGES" "free_run m i 1"
      "handed_over i 1 p m m'"
  | i where "r = Done ()" "accounts get a p i" "RAM_PAGES \<le> i"
      "allocations m i = None" "m' = m\<lparr>allocations := (allocations m)(i := Some p)\<rparr>"
proof (cases "\<exists>i. accounts get a p i \<and> allocations m i = None")
  case False
  then have "r \<noteq> Panic \<and> m' = m \<and> (\<forall>i. r = Done () \<longrightarrow> \<not> accounts get a p i)"
    using run peripheral_check_no_panic [of get a p]
    by (auto simp: claim_release_move_def accounts_def split: if_splits outcome.splits option.splits)
  with that(1) show ?thesis by blast
next
  case True
  then obtain i where i: "accounts get a p i" "allocations m i = None" by blast
  have upd: "set_range i (Suc 0) v f = f(i := v)" for v and f :: "nat \<Rightarrow> 'z"
    by (auto simp: set_range_def fun_eq_iff)
  consider "RAM_PAGES \<le> i"
    | "i < RAM_PAGES" "free_pages_zeroed m i" "\<not> free_pages_dirty m i"
    | "i < RAM_PAGES" "\<not> free_pages_zeroed m i" "free_pages_dirty m i"
    | "i < RAM_PAGES" "\<not> free_pages_zeroed m i" "\<not> free_pages_dirty m i"
    using wf_frames_page(1) [OF wf, of i] by fastforce
  then show ?thesis
  proof cases
    case 1
    with that(3) True i run show ?thesis by (auto simp: claim_release_move_def accounts_def)
  next
    case 2
    then have fr: "free_run m i 1" by (auto simp: free_run_def less_Suc_eq_le)
    then have "1 \<le> num_free_pages (m\<lparr>free_pages_zeroed := (free_pages_zeroed m)(i := False)\<rparr>)"
      using free_run_unowned(2) [OF wf] by simp
    then obtain l e where s: "subtract_free_pages 1 (m\<lparr>free_pages_zeroed := (free_pages_zeroed m)(i := False)\<rparr>) =
        (Done (), m\<lparr>free_pages_zeroed := (free_pages_zeroed m)(i := False),
           num_free_pages := num_free_pages m - 1, low_memory := l, low_events := e\<rparr>)"
      by (rule subtract_free_pages_spec) simp
    have "handed_over i 1 p m m'" "r = Done ()"
      using 2 True i run s wf by (auto simp: claim_release_move_def accounts_def handed_over_def upd wf_frames_def fun_eq_iff)
    with that(2) i 2 fr show ?thesis by blast
  next
    case 3
    then have fr: "free_run m i 1" by (auto simp: free_run_def less_Suc_eq_le)
    then have "1 \<le> num_free_pages (m\<lparr>free_pages_dirty := (free_pages_dirty m)(i := False)\<rparr>)"
      using free_run_unowned(2) [OF wf] by simp
    then obtain l e where s: "subtract_free_pages 1 (m\<lparr>free_pages_dirty := (free_pages_dirty m)(i := False)\<rparr>) =
        (Done (), m\<lparr>free_pages_dirty := (free_pages_dirty m)(i := False),
           num_free_pages := num_free_pages m - 1, low_memory := l, low_events := e\<rparr>)"
      by (rule subtract_free_pages_spec) simp
    have "handed_over i 1 p m m'" "r = Done ()"
      using 3 True i run s wf by (auto simp: claim_release_move_def accounts_def handed_over_def upd wf_frames_def fun_eq_iff)
    with that(2) i 3 fr show ?thesis by blast
  next
    case 4
    with that(1) True i run show ?thesis by (auto simp: claim_release_move_def accounts_def)
  qed
qed

lemma move_spec:
  assumes run: "claim_release_move get a p (MoveFrom e) m = (r, m')"
  obtains "r \<noteq> Panic" "m' = m"
  | i q where "r = Done ()" "accounts get a p i" "allocations m i = Some q"
      "q = p \<or> q = e" "m' = m\<lparr>allocations := (allocations m)(i := Some p)\<rparr>"
proof (cases "r = Done () \<and> peripheral_check get a p = Done (Some ())")
  case True
  with run show ?thesis
    by (auto simp: claim_release_move_def accounts_def split: if_splits option.splits intro: that(2))
next
  case False
  then have "r \<noteq> Panic \<and> m' = m"
    using run peripheral_check_no_panic [of get a p]
    by (auto simp: claim_release_move_def split: if_splits outcome.splits option.splits)
  with that(1) show ?thesis by blast
qed

lemma release_spec:
  assumes wf: "wf_frames m" and run: "claim_release_move get a p Release m = (r, m')"
  obtains "r \<noteq> Panic" "m' = m" "\<And>i. accounts get a p i \<Longrightarrow> allocations m i \<noteq> Some p"
  | i l h where "r = Done ()" "accounts get a p i" "allocations m i = Some p"
      "i < RAM_PAGES" "m' = (zeroer_start (freed_page i m\<lparr>next_dirty_page_hint := h\<rparr>))\<lparr>low_memory := l\<rparr>"
      "wf_frames (freed_page i m\<lparr>next_dirty_page_hint := h\<rparr>)"
  | i where "r = Done ()" "accounts get a p i" "allocations m i = Some p"
      "RAM_PAGES \<le> i" "m' = m\<lparr>allocations := (allocations m)(i := None)\<rparr>"
proof (cases "\<exists>i. accounts get a p i \<and> allocations m i = Some p")
  case False
  then have "r \<noteq> Panic \<and> m' = m"
    using run peripheral_check_no_panic [of get a p]
    by (auto simp: claim_release_move_def accounts_def split: if_splits outcome.splits option.splits)
  with that(1) False show ?thesis by blast
next
  case True
  then obtain i where i: "accounts get a p i" "allocations m i = Some p" by blast
  show ?thesis
  proof (cases "i < RAM_PAGES")
    case False
    with that(3) True i run show ?thesis by (auto simp: claim_release_move_def accounts_def)
  next
    case i2: True
    define h where "h = (case next_dirty_page_hint m of None \<Rightarrow> Some i | h \<Rightarrow> h)"
    let ?s = "zeroer_start (m\<lparr>free_pages_dirty := (free_pages_dirty m)(i := True), next_dirty_page_hint := h\<rparr>)"
    have "num_free_pages ?s + 1 \<le> RAM_PAGES" using owned_room [OF wf i(2) i2] by simp
    then obtain l where s: "add_free_pages 1 ?s = (Done (), ?s\<lparr>num_free_pages := num_free_pages m + 1, low_memory := l\<rparr>)"
      by (rule add_free_pages_spec) simp
    have "\<forall>j. h = Some j \<longrightarrow> j < RAM_PAGES"
      using wf i2 by (auto simp: h_def wf_frames_def split: option.splits)
    from wf_freed_page [OF wf i(2) i2 this]
    have w: "wf_frames (freed_page i m\<lparr>next_dirty_page_hint := h\<rparr>)" .
    have f: "freed_page i m\<lparr>next_dirty_page_hint := h\<rparr> =
      m\<lparr>free_pages_dirty := (free_pages_dirty m)(i := True), next_dirty_page_hint := h,
        num_free_pages := num_free_pages m + 1, allocations := (allocations m)(i := None)\<rparr>"
      by (simp add: freed_page_def)
    have "m' = (zeroer_start (freed_page i m\<lparr>next_dirty_page_hint := h\<rparr>))\<lparr>low_memory := l\<rparr>" "r = Done ()"
      using True i i2 run s by (auto simp: claim_release_move_def accounts_def f zeroer_start_commutes h_def [symmetric])
    with that(2) i i2 w show ?thesis by blast
  qed
qed

lemma wf_claim_release_move:
  assumes "wf_frames m" and "claim_release_move get a p act m = (r, m')"
  shows "wf_frames m' \<and> r \<noteq> Panic"
proof (cases act)
  case Claim
  from assms(1) assms(2) [unfolded Claim] show ?thesis
    by (cases rule: claim_spec) (use assms(1) in \<open>auto intro: wf_handed_over wf_change_owner\<close>)
next
  case Release
  from assms(1) assms(2) [unfolded Release] show ?thesis
    by (cases rule: release_spec) (use assms(1) in \<open>auto intro: wf_change_owner wf_zeroer_start\<close>)
next
  case (MoveFrom e)
  from assms(2) [unfolded MoveFrom] show ?thesis
    by (cases rule: move_spec) (use assms(1) in \<open>auto intro: wf_change_owner\<close>)
qed

section \<open>Ranges of claims and releases\<close>

lemma release_owners:
  assumes "wf_frames m"
  shows "allocations (snd (claim_release_move get a p Release m)) j =
    (if accounts get a p j \<and> allocations m j = Some p then None else allocations m j)"
proof -
  obtain r m' where run: "claim_release_move get a p Release m = (r, m')" by fastforce
  from assms run show ?thesis
    by (cases rule: release_spec) (auto simp: run freed_page_def accounts_def)
qed

lemma release_pages_owners:
  assumes "wf_frames m"
  shows "wf_frames (release_pages get as p m)"
    and "allocations (release_pages get as p m) j =
      (if (\<exists>a \<in> set as. accounts get a p j) \<and> allocations m j = Some p then None else allocations m j)"
  using assms
proof (induction as arbitrary: m)
  case Nil
  { case 1 then show ?case by simp next case 2 show ?case by simp }
next
  case (Cons a as)
  have wf: "wf_frames (snd (claim_release_move get a p Release m))" if "wf_frames m" for m
    using wf_claim_release_move [OF that] by (metis prod.collapse)
  { case 1 from Cons.IH(1) [OF wf [OF 1]] show ?case by simp
  next case 2 from Cons.IH(2) [OF wf [OF 2]] release_owners [OF 2] show ?case by auto }
qed

lemma claim_owners:
  assumes "wf_frames m" and "claim_release_move get a p Claim m = (Done (), m')"
  shows "allocations m' j = (if accounts get a p j then Some p else allocations m j)"
    and "accounts get a p j \<Longrightarrow> allocations m j = None"
proof -
  have "allocations m' j = (if accounts get a p j then Some p else allocations m j)
      \<and> (accounts get a p j \<longrightarrow> allocations m j = None)"
    using assms
  proof (cases rule: claim_spec)
    case 1
    then show ?thesis by simp
  next
    case (2 i)
    then have "accounts get a p j \<longleftrightarrow> j = i" by (auto simp: accounts_def)
    moreover have "allocations m i = None"
      using free_run_unowned(1) [OF assms(1) 2(4)] by (auto simp: unowned_def)
    ultimately show ?thesis using 2(5) by (auto simp: handed_over_def set_range_def)
  next
    case (3 i)
    then have "accounts get a p j \<longleftrightarrow> j = i" by (auto simp: accounts_def)
    with 3 show ?thesis by auto
  qed
  then show "allocations m' j = (if accounts get a p j then Some p else allocations m j)"
    and "accounts get a p j \<Longrightarrow> allocations m j = None" by blast+
qed

lemma claim_fails_unchanged:
  assumes "wf_frames m" and "claim_release_move get a p Claim m = (Fail e, m')"
  shows "m' = m"
  using assms by (auto elim!: claim_spec)

text \<open>The owners differ from the original ones exactly on what was taken so far.\<close>

definition taken_from :: "(pid \<Rightarrow> process option) \<Rightarrow> pid \<Rightarrow> usize list \<Rightarrow> (nat \<Rightarrow> pid option)
    \<Rightarrow> (nat \<Rightarrow> pid option) \<Rightarrow> bool" where
  "taken_from get p taken owners owners' \<longleftrightarrow>
     (\<forall>j. if \<exists>a \<in> set taken. accounts get a p j then owners j = None \<and> owners' j = Some p
          else owners' j = owners j)"

lemma claim_pages_owners:
  assumes "claim_pages get taken as p m = (r, m')" and "wf_frames m"
    and "taken_from get p taken owners (allocations m)"
  shows "wf_frames m' \<and> r \<noteq> Panic \<and>
    (if r = Done () then taken_from get p (taken @ as) owners (allocations m') else allocations m' = owners)"
  using assms
proof (induction get taken as p m rule: claim_pages.induct)
  case (1 get taken p m)
  then show ?case by auto
next
  case (2 get taken a as p m)
  obtain r1 m1 where one: "claim_release_move get a p Claim m = (r1, m1)" by fastforce
  have w1: "wf_frames m1" and np: "r1 \<noteq> Panic" using wf_claim_release_move [OF 2(3) one] by blast+
  show ?case
  proof (cases r1)
    case (Done u)
    have "r1 = Done ()" using Done by simp
    note own = claim_owners [OF 2(3) one [unfolded this]]
    have "taken_from get p (taken @ [a]) owners (allocations m1)"
      using 2(4) own by (auto simp: taken_from_def split: if_splits) (metis option.distinct(1))+
    moreover have "claim_pages get (taken @ [a]) as p m1 = (r, m')"
      using 2(2) one Done by simp
    ultimately show ?thesis
      using 2(1) [OF one [symmetric] Done _ w1] by (auto split: if_splits)
  next
    case (Fail e)
    from claim_fails_unchanged [OF 2(3) one [unfolded Fail]] have "m1 = m" .
    with 2(2) one Fail have r: "r = Fail e" "m' = release_pages get taken p m" by simp_all
    have "allocations m' j = owners j" for j
      unfolding r(2) release_pages_owners(2) [OF 2(3)]
      using 2(4) by (auto simp: taken_from_def split: if_splits)
    then show ?thesis using release_pages_owners(1) [OF 2(3)] r by auto
  next
    case Panic
    with np show ?thesis by simp
  qed
qed

section \<open>The end of a process\<close>

lemma release_all_step:
  assumes wf: "wf_frames m" and own: "allocations m i = Some p" and i: "i < RAM_PAGES"
  obtains l where "add_free_pages 1 (m\<lparr>allocations := (allocations m)(i := None),
      free_pages_dirty := (free_pages_dirty m)(i := True)\<rparr>) = (Done (), freed_page i m\<lparr>low_memory := l\<rparr>)"
    "wf_frames (freed_page i m)"
proof -
  have "num_free_pages m + 1 \<le> RAM_PAGES" using owned_room [OF wf own i] .
  then obtain l where "add_free_pages 1 (m\<lparr>allocations := (allocations m)(i := None),
      free_pages_dirty := (free_pages_dirty m)(i := True)\<rparr>) = (Done (), freed_page i m\<lparr>low_memory := l\<rparr>)"
    using add_free_pages_spec [of "m\<lparr>allocations := (allocations m)(i := None),
      free_pages_dirty := (free_pages_dirty m)(i := True)\<rparr>" 1]
    by (fastforce simp: freed_page_def)
  moreover have "\<forall>j. next_dirty_page_hint m = Some j \<longrightarrow> j < RAM_PAGES" using wf by (simp add: wf_frames_def)
  from wf_freed_page [OF wf own i this] have "wf_frames (freed_page i m)"
    by (simp add: freed_page_def)
  ultimately show ?thesis using that by blast
qed

lemma release_all_loop_spec:
  assumes "release_all_loop is p m = (r, m')" and "wf_frames m"
  shows "r = Done () \<and> wf_frames m' \<and> free_pages_zeroed m' = free_pages_zeroed m
    \<and> (\<forall>j. in_flight m' j = in_flight m j)
    \<and> allocations m' = (\<lambda>j. if j \<in> set is \<and> allocations m j = Some p then None else allocations m j)"
  using assms
proof (induction "is" p m rule: release_all_loop.induct)
  case (1 p m)
  then show ?case by auto
next
  case (2 i "is" p m)
  show ?case
  proof (cases "allocations m i = Some p")
    case False
    with 2 show ?thesis by (auto simp: fun_eq_iff)
  next
    case own: True
    show ?thesis
    proof (cases "i < RAM_PAGES")
      case True
      obtain l where l: "add_free_pages 1 (m\<lparr>allocations := (allocations m)(i := None),
          free_pages_dirty := (free_pages_dirty m)(i := True)\<rparr>) = (Done (), freed_page i m\<lparr>low_memory := l\<rparr>)"
        and wf: "wf_frames (freed_page i m)"
        using 2(5) own True by (rule release_all_step)
      have run: "release_all_loop is p (freed_page i m\<lparr>low_memory := l\<rparr>) = (r, m')"
        using 2(4) own True l by simp
      have "wf_frames (freed_page i m\<lparr>low_memory := l\<rparr>)" using wf by simp
      from 2(1) [OF own refl True run this] own
      show ?thesis by (auto simp: freed_page_def in_flight_def fun_eq_iff)
    next
      case False
      have wf: "wf_frames (m\<lparr>allocations := (allocations m)(i := None)\<rparr>)"
        using wf_change_owner [OF 2(5)] False by simp
      have "release_all_loop is p (m\<lparr>allocations := (allocations m)(i := None)\<rparr>) = (r, m')"
        using 2(4) own False by simp
      from 2(2) [OF own refl False this wf] own
      show ?thesis by (auto simp: in_flight_def fun_eq_iff)
    qed
  qed
qed

lemma release_all_spec:
  assumes "release_all_memory_for_process p m = (r, m')" and "wf_frames m"
  obtains m1 where "r = Done ()" "m' = zeroer_start m1" "wf_frames m1" "wf_frames m'"
    "free_pages_zeroed m1 = free_pages_zeroed m"
    "allocations m' = (\<lambda>j. if j < allocation_count \<and> allocations m j = Some p then None else allocations m j)"
proof -
  obtain r1 m1 where l: "release_all_loop [0..<allocation_count] p m = (r1, m1)" by fastforce
  from release_all_loop_spec [OF l assms(2)] assms(1) l wf_zeroer_start [of m1] that [of m1]
  show ?thesis by (auto simp: release_all_memory_for_process_def)
qed

section \<open>Reachable frame tables\<close>

inductive frame_step :: "frames \<Rightarrow> frames \<Rightarrow> bool" where
  fs_range: "alloc_range n p f m = (r, m') \<Longrightarrow> frame_step m m'"
| fs_single: "alloc_single_page p m = (r, m') \<Longrightarrow> frame_step m m'"
| fs_aligned: "alloc_range_aligned (2 ^ k) n p m = (r, m') \<Longrightarrow> frame_step m m'"
| fs_crm: "claim_release_move get a p act m = (r, m') \<Longrightarrow> frame_step m m'"
| fs_claim: "claim_pages get [] as p m = (r, m') \<Longrightarrow> frame_step m m'"
| fs_exit: "release_all_memory_for_process p m = (r, m') \<Longrightarrow> frame_step m m'"
| fs_init: "frame_step m (m\<lparr>zeroer_initialized := True\<rparr>)"
| fs_map_zero: "frame_step m (m\<lparr>pending_map_zero := z\<rparr>)"

text \<open>
  The second component is the set of pages of RAM that read as zero through the encrypted view.
  The contents at boot are arbitrary; the owner of a page may write to it at any time, and a
  completed transfer of the zeroer leaves zeroes. The operations on the table change no contents.
\<close>

inductive reachable_frames :: "frames \<Rightarrow> nat set \<Rightarrow> bool" where
  rf_boot: "reachable_frames (frames_init owners) Z"
| rf_step: "reachable_frames m Z \<Longrightarrow> frame_step m m' \<Longrightarrow> reachable_frames m' Z"
| rf_write: "reachable_frames m Z \<Longrightarrow> allocations m i \<noteq> None \<Longrightarrow> reachable_frames m (Z - {i})"
| rf_interrupt: "reachable_frames m Z \<Longrightarrow> zeroer_running m \<Longrightarrow> zeroer_interrupt m = (r, m') \<Longrightarrow>
    reachable_frames m' (Z \<union> {i. in_flight m i})"

text \<open>No operation marks a page as zeroed; only the interrupt does.\<close>

lemma zeroed_le_handed_over:
  "handed_over i n p m m' \<Longrightarrow> free_pages_zeroed m' j \<Longrightarrow> free_pages_zeroed m j"
  by (simp add: handed_over_def set_range_def split: if_splits)

lemma crm_zeroed:
  assumes "wf_frames m" and "claim_release_move get a p act m = (r, m')" and "free_pages_zeroed m' j"
  shows "free_pages_zeroed m j"
proof (cases act)
  case Claim
  from assms(1) assms(2) [unfolded Claim] show ?thesis
    by (cases rule: claim_spec) (use assms(3) in \<open>auto dest: zeroed_le_handed_over\<close>)
next
  case Release
  from assms(1) assms(2) [unfolded Release] show ?thesis
    by (cases rule: release_spec) (use assms(3) in \<open>auto simp: freed_page_def\<close>)
next
  case (MoveFrom e)
  from assms(2) [unfolded MoveFrom] show ?thesis
    by (cases rule: move_spec) (use assms(3) in auto)
qed

lemma release_pages_zeroed:
  "wf_frames m \<Longrightarrow> free_pages_zeroed (release_pages get as p m) j \<Longrightarrow> free_pages_zeroed m j"
proof (induction as arbitrary: m)
  case (Cons a as)
  obtain r m1 where one: "claim_release_move get a p Release m = (r, m1)" by fastforce
  from Cons wf_claim_release_move [OF Cons.prems(1) one] crm_zeroed [OF Cons.prems(1) one]
  show ?case by (simp add: one)
qed simp

lemma claim_pages_zeroed:
  "claim_pages get taken as p m = (r, m') \<Longrightarrow> wf_frames m \<Longrightarrow> free_pages_zeroed m' j \<Longrightarrow> free_pages_zeroed m j"
proof (induction get taken as p m rule: claim_pages.induct)
  case (2 get taken a as p m)
  obtain r1 m1 where one: "claim_release_move get a p Claim m = (r1, m1)" by fastforce
  note w = wf_claim_release_move [OF 2(3) one] and z = crm_zeroed [OF 2(3) one]
  show ?case
  proof (cases r1)
    case (Done u)
    with 2 one w z show ?thesis by simp
  next
    case (Fail e)
    with 2 one w z release_pages_zeroed [of m1] show ?thesis by auto
  next
    case Panic
    with w show ?thesis by simp
  qed
qed simp

lemma wf_frame_step:
  assumes "frame_step m m'" and "wf_frames m"
  shows "wf_frames m' \<and> (\<forall>j. free_pages_zeroed m' j \<longrightarrow> free_pages_zeroed m j)"
  using assms
proof cases
  case (fs_range n p f r)
  from assms(2) fs_range show ?thesis
    by (cases rule: alloc_range_spec) (use assms(2) in \<open>auto intro: wf_handed_over zeroed_le_handed_over\<close>)
next
  case (fs_single p r)
  from assms(2) fs_single show ?thesis
    by (cases rule: alloc_single_page_spec) (use assms(2) in \<open>auto intro: wf_handed_over zeroed_le_handed_over\<close>)
next
  case (fs_aligned k n p r)
  from assms(2) fs_aligned show ?thesis
    by (cases rule: alloc_range_aligned_spec) (use assms(2) in \<open>auto intro: wf_handed_over zeroed_le_handed_over\<close>)
next
  case (fs_crm get a p act r)
  from wf_claim_release_move [OF assms(2) fs_crm] crm_zeroed [OF assms(2) fs_crm] show ?thesis by blast
next
  case (fs_claim get as p r)
  have "taken_from get p [] (allocations m) (allocations m)" by (simp add: taken_from_def)
  from claim_pages_owners [OF fs_claim assms(2) this] claim_pages_zeroed [OF fs_claim assms(2)]
  show ?thesis by blast
next
  case (fs_exit p r)
  from fs_exit assms(2) show ?thesis by (cases rule: release_all_spec) auto
next
  case fs_init
  with assms(2) show ?thesis
    by (simp add: wf_frames_def page_ok_def in_flight_def unowned_def flight_ok_def)
next
  case (fs_map_zero z)
  with assms(2) show ?thesis
    by (simp add: wf_frames_def page_ok_def in_flight_def unowned_def flight_ok_def)
qed

lemma reachable_frames_inv:
  "reachable_frames m Z \<Longrightarrow> wf_frames m \<and> (\<forall>j. free_pages_zeroed m j \<longrightarrow> j \<in> Z)"
proof (induction rule: reachable_frames.induct)
  case (rf_boot owners Z)
  show ?case by (simp only: wf_frames_init) (simp add: frames_init_def)
next
  case (rf_step m Z m')
  with wf_frame_step show ?case by blast
next
  case (rf_write m Z i)
  with wf_frames_page(1) [of m i] show ?case by auto
next
  case (rf_interrupt m Z r m')
  then have "wf_frames m" by simp
  from this rf_interrupt(2) show ?case
  proof (cases rule: zeroer_interrupt_spec)
    case (1 k)
    from 1(5) rf_interrupt(3)
    have m': "m' = zeroer_start (m\<lparr>current_page := 0, current_page_num := 0,
       free_pages_zeroed := set_range k (current_page_num m) True (free_pages_zeroed m),
       zeroer_running := False\<rparr>)" by simp
    from wf_zeroer_start [OF 1(6)] rf_interrupt(4) 1(4) show ?thesis
      by (auto simp: m' set_range_def)
  qed
qed

lemma frame_operations_no_panic:
  assumes wf: "wf_frames m"
  shows "no_panic (alloc_range n p f m)" and "no_panic (alloc_range_aligned 4 n p m)"
    and "no_panic (claim_release_move get a p act m)" and "no_panic (claim_pages get [] as p m)"
    and "no_panic (release_all_memory_for_process p m)"
    and "zeroer_running m \<Longrightarrow> no_panic (zeroer_interrupt m)"
proof -
  obtain r1 m1 where 1: "alloc_range n p f m = (r1, m1)" by fastforce
  from wf 1 have "r1 \<noteq> Panic" by (cases rule: alloc_range_spec) auto
  with 1 show "no_panic (alloc_range n p f m)" by (simp add: no_panic_def)
  obtain r2 m2 where 2: "alloc_range_aligned (2 ^ 2) n p m = (r2, m2)" by fastforce
  from wf 2 have "r2 \<noteq> Panic" by (cases rule: alloc_range_aligned_spec) auto
  with 2 show "no_panic (alloc_range_aligned 4 n p m)" by (simp add: no_panic_def)
  show "no_panic (claim_release_move get a p act m)"
    using wf_claim_release_move [OF wf] by (cases "claim_release_move get a p act m") (auto simp: no_panic_def)
  show "no_panic (claim_pages get [] as p m)"
    using claim_pages_owners [OF _ wf, of get "[]" as p _ _ "allocations m"]
    by (cases "claim_pages get [] as p m") (auto simp: no_panic_def taken_from_def)
  obtain r3 m3 where 3: "release_all_memory_for_process p m = (r3, m3)" by fastforce
  from 3 wf show "no_panic (release_all_memory_for_process p m)"
    by (cases rule: release_all_spec) (simp add: 3)
  show "no_panic (zeroer_interrupt m)" if "zeroer_running m"
    using wf that by (cases rule: zeroer_interrupt_spec) (simp add: no_panic_def)
qed

section \<open>Properties\<close>

text \<open>
  C8: in every reachable frame table each page of RAM is in exactly one of four states: it has an
  owner, or it is marked dirty, or marked zeroed, or the background zeroer is clearing it; the
  counter of free pages is exact, and no allocation, claim, move, release, process end or
  zeroing interrupt can panic: none of the assertions of the memory manager ever fires.
\<close>

theorem every_page_in_one_state:
  assumes "reachable_frames m Z"
  shows "num_free_pages m = card {i. i < RAM_PAGES \<and> allocations m i = None}
    \<and> (\<forall>i. count_if (\<lambda>b. b) [allocations m i \<noteq> None, free_pages_dirty m i, free_pages_zeroed m i, in_flight m i]
         = (if i < RAM_PAGES \<or> allocations m i \<noteq> None then 1 else 0))
    \<and> no_panic (alloc_range n p f m) \<and> no_panic (alloc_range_aligned 4 n p m)
    \<and> no_panic (claim_release_move get a p act m) \<and> no_panic (claim_pages get [] as p m)
    \<and> no_panic (release_all_memory_for_process p m)
    \<and> (zeroer_running m \<longrightarrow> no_panic (zeroer_interrupt m))"
proof -
  have wf: "wf_frames m" using reachable_frames_inv [OF assms] by blast
  have "count_if (\<lambda>b. b) [allocations m i \<noteq> None, free_pages_dirty m i, free_pages_zeroed m i, in_flight m i]
         = (if i < RAM_PAGES \<or> allocations m i \<noteq> None then 1 else 0)" for i
  proof -
    have "page_ok m i" using wf by (simp add: wf_frames_def)
    then show ?thesis
      unfolding page_ok_def count_if_def
      by (cases "free_pages_zeroed m i"; cases "free_pages_dirty m i"; cases "in_flight m i";
          cases "allocations m i") simp_all
  qed
  moreover have "num_free_pages m = card {i. i < RAM_PAGES \<and> allocations m i = None}"
    using wf by (simp add: wf_frames_def unowned_def)
  ultimately show ?thesis using frame_operations_no_panic [OF wf] by simp
qed

theorem every_page_in_one_state_witness:
  "no_panic (claim_release_move (\<lambda>_. None) 0x40005000 7 Release (frames_init (\<lambda>_. Some 7)))
   \<and> num_free_pages (frames_init (\<lambda>_. Some 7)) = 0"
  using every_page_in_one_state [OF rf_boot, of "\<lambda>_. Some 7"] by simp

lemma free_run_iff:
  assumes "wf_frames m"
  shows "free_run m i n \<longleftrightarrow>
    i + n \<le> RAM_PAGES \<and> (\<forall>j. i \<le> j \<and> j < i + n \<longrightarrow> allocations m j = None \<and> \<not> in_flight m j)"
proof -
  have "free_pages_zeroed m j \<or> free_pages_dirty m j \<longleftrightarrow> allocations m j = None \<and> \<not> in_flight m j"
    if "j < RAM_PAGES" for j
    using wf_frames_page [OF assms, of j] that by blast
  then show ?thesis unfolding free_run_def by (meson less_le_trans)
qed

text \<open>
  C9: a request for pages either takes one contiguous run of RAM pages that had no owner and were
  not being zeroed, records the caller as their owner, leaves every other page alone and lowers
  the count of free pages by the size of the run; or it fails, without any change, and then with
  \<open>OutOfMemory\<close> only when no such run exists (for no page at all: \<open>InvalidArguments\<close>). It never
  panics.
\<close>

theorem alloc_range_exact:
  assumes "reachable_frames m Z" and "alloc_range n p f m = (r, m')"
  shows "case r of
      Done (a, needs_zero) \<Rightarrow> 0 < n \<and> (\<exists>i. i + n \<le> RAM_PAGES
        \<and> (a = page_addr i \<or> a = to_plaintext_phys_addr (page_addr i))
        \<and> (\<forall>j. i \<le> j \<and> j < i + n \<longrightarrow> allocations m j = None \<and> \<not> in_flight m j)
        \<and> (\<forall>j. allocations m' j = (if i \<le> j \<and> j < i + n then Some p else allocations m j))
        \<and> num_free_pages m = num_free_pages m' + n)
    | Fail e \<Rightarrow> m' = m \<and> (if n = 0 then e = InvalidArguments else e = OutOfMemory
        \<and> \<not> (\<exists>i. i + n \<le> RAM_PAGES
              \<and> (\<forall>j. i \<le> j \<and> j < i + n \<longrightarrow> allocations m j = None \<and> \<not> in_flight m j)))
    | Panic \<Rightarrow> False"
proof -
  have wf: "wf_frames m" using reachable_frames_inv [OF assms(1)] by blast
  from wf assms(2) show ?thesis
  proof (cases rule: alloc_range_spec)
    case 1
    then show ?thesis by simp
  next
    case 2
    then show ?thesis by (auto simp: free_run_iff [OF wf])
  next
    case (3 i z)
    have "i + n \<le> RAM_PAGES" "\<forall>j. i \<le> j \<and> j < i + n \<longrightarrow> allocations m j = None \<and> \<not> in_flight m j"
      using 3(2) by (simp_all add: free_run_iff [OF wf])
    moreover have "\<forall>j. allocations m' j = (if i \<le> j \<and> j < i + n then Some p else allocations m j)"
      using 3(3) by (simp add: handed_over_def set_range_def)
    moreover have "num_free_pages m = num_free_pages m' + n"
      using 3(3) free_run_unowned(2) [OF wf 3(2)] by (simp add: handed_over_def)
    ultimately show ?thesis using 3(1,4) by (auto intro!: exI [of _ i])
  qed
qed

theorem alloc_range_exact_witness:
  "fst (alloc_range 2 9 flags_empty (frames_init (\<lambda>i. if i < 32767 then Some 3 else None))) = Fail OutOfMemory"
proof -
  let ?m = "frames_init (\<lambda>i. if i < 32767 then Some 3 else None)"
  obtain r m' where run: "alloc_range 2 9 flags_empty ?m = (r, m')" by fastforce
  have "\<not> (\<exists>i. i + 2 \<le> RAM_PAGES \<and> (\<forall>j. i \<le> j \<and> j < i + 2 \<longrightarrow> allocations ?m j = None \<and> \<not> in_flight ?m j))"
  proof clarify
    fix i
    assume "i + 2 \<le> RAM_PAGES" and all: "\<forall>j. i \<le> j \<and> j < i + 2 \<longrightarrow> allocations ?m j = None \<and> \<not> in_flight ?m j"
    then have "i < 32767" by (simp add: RAM_PAGES_def)
    with all [rule_format, of i] show False by simp
  qed
  with alloc_range_exact [OF rf_boot run] run show ?thesis
    by (cases r) (auto split: prod.splits)
qed

lemma first_one_unfold: "a < b \<Longrightarrow> first_one f a b = (if f a then Some a else first_one f (Suc a) b)"
  by (simp add: first_one_def upt_conv_Cons)

text \<open>
  C10: a range that the allocator hands out as already zeroed really reads as zero: it is the
  encrypted view of pages whose last write was the zeroer's. This holds whatever the memory held
  at boot and whatever the owners of pages wrote while they owned them, so that no process
  receives the data of another.
\<close>

theorem no_stale_data:
  assumes "reachable_frames m Z" and "alloc_range n p f m = (Done (a, False), m')"
  shows "\<exists>i. a = page_addr i \<and> i + n \<le> RAM_PAGES \<and> {i..<i + n} \<subseteq> Z"
proof -
  have wf: "wf_frames m" and z: "\<And>j. free_pages_zeroed m j \<Longrightarrow> j \<in> Z"
    using reachable_frames_inv [OF assms(1)] by blast+
  from wf assms(2) show ?thesis
  proof (cases rule: alloc_range_spec)
    case (3 i b)
    then have "b" "a = page_addr i" by (auto split: if_splits)
    with 3 z show ?thesis by (fastforce simp: free_run_def)
  qed auto
qed

theorem no_stale_data_witness:
  "\<exists>m Z m'. reachable_frames m Z \<and> alloc_range 1 9 flags_empty m = (Done (page_addr 0, False), m') \<and> 0 \<in> Z"
proof -
  let ?m0 = "(frames_init (\<lambda>_. Some 2))\<lparr>zeroer_initialized := True\<rparr>"
  obtain r1 m1 where rel: "claim_release_move (\<lambda>_. None) (page_addr 0) 2 Release ?m0 = (r1, m1)" by fastforce
  have reach0: "reachable_frames ?m0 {}" using rf_step [OF rf_boot fs_init] .
  have reach1: "reachable_frames m1 {}" using rf_step [OF reach0 fs_crm [OF rel]] .
  have ac: "accounts (\<lambda>_. None) (page_addr 0) 2 0"
    using page_addr_encrypted [of 0] frag_less(2)
    by (simp add: accounts_def peripheral_check_def) (simp add: page_addr_def ENCRYPTED_DRAM_BASE_def)
  have wf0: "wf_frames ?m0" using reachable_frames_inv [OF reach0] by blast
  have run1: "zeroer_running m1 \<and> in_flight m1 = (\<lambda>j. j = 0) \<and> (\<forall>j. \<not> free_pages_dirty m1 j)"
    using wf0 rel
  proof (cases rule: release_spec)
    case 1
    from 1(3) [OF ac] show ?thesis by simp
  next
    case (2 i l h)
    have i: "i = 0" using 2(2) ac by (simp add: accounts_def)
    let ?s = "freed_page i ?m0\<lparr>next_dirty_page_hint := h\<rparr>"
    have d: "free_pages_dirty ?s j \<longleftrightarrow> j = 0" for j by (simp add: i freed_page_def frames_init_def)
    have r: "\<not> zeroer_running ?s" "zeroer_initialized ?s" by (simp_all add: freed_page_def)
    from 2(6) show ?thesis
    proof (cases rule: zeroer_start_cases)
      case (3 k n)
      have "k = 0" using 3(4,6) d by auto
      moreover have "n = 1" using 3(4,6) d \<open>k = 0\<close> by (metis One_nat_def Suc_lessI add_0 le0 zero_neq_one)
      ultimately show ?thesis
        using d pages_between_page_addr [of 0]
        by (simp add: 2(5) 3(7) in_flight_def set_range_def fun_eq_iff)
    qed (use r d in auto)
  next
    case (3 i)
    then have "i = 0" using ac by (simp add: accounts_def)
    with 3 frag_less(2) show ?thesis by simp
  qed
  obtain r2 m2 where int: "zeroer_interrupt m1 = (r2, m2)" by fastforce
  have wf1: "wf_frames m1" using reachable_frames_inv [OF reach1] by blast
  have reach2: "reachable_frames m2 ({} \<union> {j. in_flight m1 j})"
    using rf_interrupt [OF reach1 _ int] run1 by blast
  have z2: "free_pages_zeroed m2 0 \<and> allocations m2 = allocations m1"
    using wf1 conjunct1 [OF run1]
  proof (cases rule: zeroer_interrupt_spec)
    case (1 k)
    with int run1 show ?thesis by (auto simp: set_range_def fun_eq_iff)
  qed
  have wf2: "wf_frames m2" using reachable_frames_inv [OF reach2] by blast
  have "allocations m2 j = None \<Longrightarrow> j = 0" for j
    using release_owners [OF wf0, of "\<lambda>_. None" "page_addr 0" 2 j] rel z2 ac
    by (auto simp: accounts_def split: if_splits)
  then have zero: "free_pages_zeroed m2 j \<or> free_pages_dirty m2 j \<Longrightarrow> j = 0 \<and> free_pages_zeroed m2 j" for j
    using wf_frames_page(1,2) [OF wf2, of j] z2 by blast
  obtain r3 m3 where al: "alloc_single_page 9 m2 = (r3, m3)" by fastforce
  have "r3 = Done (page_addr 0, True)"
    using wf2 al
  proof (cases rule: alloc_single_page_spec)
    case 1
    from 1(3) [of 0] z2 frag_less(2) show ?thesis by (simp add: free_run_def)
  next
    case (2 i)
    with zero [of i] show ?thesis by (auto simp: free_run_def)
  qed
  with al have "alloc_range 1 9 flags_empty m2 = (Done (page_addr 0, False), m3)"
    by (simp add: alloc_range_def is_set_def flags_and_def flags_empty_def flag_defs)
  with reach2 no_stale_data [OF reach2 this] show ?thesis by (auto simp: run1)
qed

lemma handed_over_other:
  assumes "wf_frames m" and "free_run m i n" and "handed_over i n p m m'" and "allocations m j = Some q"
  shows "allocations m' j = Some q"
  using free_run_unowned(1) [OF assms(1,2)] assms(3,4)
  by (auto simp: handed_over_def set_range_def unowned_def subset_iff)

lemma claim_release_move_other:
  assumes wf: "wf_frames m" and run: "claim_release_move get a p act m = (r, m')"
    and own: "allocations m j = Some q" "q \<noteq> p" "act \<noteq> MoveFrom q"
  shows "allocations m' j = Some q"
proof (cases act)
  case Claim
  from wf run [unfolded Claim] show ?thesis
    by (cases rule: claim_spec) (use own wf in \<open>auto intro: handed_over_other\<close>)
next
  case Release
  from wf run [unfolded Release] show ?thesis
    by (cases rule: release_spec) (use own in \<open>auto simp: freed_page_def\<close>)
next
  case (MoveFrom e)
  from run [unfolded MoveFrom] show ?thesis
    by (cases rule: move_spec) (use own MoveFrom in auto)
qed

text \<open>
  C24: a process cannot take a page from another: whatever it allocates, claims, moves or releases,
  and when it ends, a page owned by another process keeps its owner, unless the page is moved from
  that very owner.
\<close>

theorem other_owner_kept:
  assumes "reachable_frames m Z" and "allocations m j = Some q" and "q \<noteq> p"
  shows "allocations (snd (alloc_range n p f m)) j = Some q
    \<and> (act \<noteq> MoveFrom q \<longrightarrow> allocations (snd (claim_release_move get a p act m)) j = Some q)
    \<and> allocations (snd (claim_pages get [] as p m)) j = Some q
    \<and> allocations (release_pages get as p m) j = Some q
    \<and> allocations (snd (release_all_memory_for_process p m)) j = Some q"
proof (intro conjI impI)
  have wf: "wf_frames m" using reachable_frames_inv [OF assms(1)] by blast
  obtain r1 m1 where 1: "alloc_range n p f m = (r1, m1)" by fastforce
  from wf 1 have "allocations m1 j = Some q"
    by (cases rule: alloc_range_spec) (use assms(2) wf in \<open>auto intro: handed_over_other\<close>)
  with 1 show "allocations (snd (alloc_range n p f m)) j = Some q" by simp
  show "allocations (snd (claim_release_move get a p act m)) j = Some q" if "act \<noteq> MoveFrom q"
    using claim_release_move_other [OF wf _ assms(2,3) that] by (metis prod.collapse)
  obtain r2 m2 where 2: "claim_pages get [] as p m = (r2, m2)" by fastforce
  have "taken_from get p [] (allocations m) (allocations m)" by (simp add: taken_from_def)
  from claim_pages_owners [OF 2 wf this] have "allocations m2 j = Some q"
    using assms(2,3) by (cases "r2 = Done ()") (auto simp: taken_from_def dest!: spec [of _ j] split: if_splits)
  with 2 show "allocations (snd (claim_pages get [] as p m)) j = Some q" by simp
  show "allocations (release_pages get as p m) j = Some q"
    using release_pages_owners(2) [OF wf] assms(2,3) by simp
  obtain r3 m3 where 3: "release_all_memory_for_process p m = (r3, m3)" by fastforce
  from 3 wf show "allocations (snd (release_all_memory_for_process p m)) j = Some q"
    by (cases rule: release_all_spec) (use assms(2,3) 3 in auto)
qed

theorem other_owner_kept_witness:
  "allocations (snd (claim_release_move (\<lambda>_. None) 0x40000000 9 Release (frames_init (\<lambda>_. Some 2)))) 0 = Some 2"
  using other_owner_kept [OF rf_boot, of "\<lambda>_. Some 2" 0 2 9] by (auto dest: spec [of _ Release])

text \<open>
  When a process ends every page of it becomes free, RAM and peripherals alike, nothing else
  changes its owner, and the free memory grows by exactly what the process used.
\<close>

theorem end_frees_all_pages:
  assumes "reachable_frames m Z" and "\<And>j. allocation_count \<le> j \<Longrightarrow> allocations m j = None"
    and "release_all_memory_for_process p m = (r, m')"
  shows "r = Done () \<and> (\<forall>j. allocations m' j = (if allocations m j = Some p then None else allocations m j))
    \<and> ram_used_by m' p = 0 \<and> ram_free m' = ram_free m + ram_used_by m p"
proof -
  have wf: "wf_frames m" using reachable_frames_inv [OF assms(1)] by blast
  from assms(3) wf show ?thesis
  proof (cases rule: release_all_spec)
    case (1 m1)
    have owner: "allocations m' j = (if allocations m j = Some p then None else allocations m j)" for j
      using 1(6) assms(2) [of j] by auto
    have "unowned m' = unowned m \<union> {j. j < RAM_PAGES \<and> allocations m j = Some p}"
      by (auto simp: unowned_def owner)
    moreover have "unowned m \<inter> {j. j < RAM_PAGES \<and> allocations m j = Some p} = {}"
      by (auto simp: unowned_def)
    ultimately have "card (unowned m') = card (unowned m) + card {j. j < RAM_PAGES \<and> allocations m j = Some p}"
      by (simp add: card_Un_disjoint)
    moreover have "ram_used_by m p = 4096 * card {j. j < RAM_PAGES \<and> allocations m j = Some p}"
      by (simp add: ram_used_by_def length_filter_conv_card conj_commute cong: conj_cong)
    moreover have "ram_used_by m' p = 0"
      by (auto simp: ram_used_by_def filter_empty_conv owner)
    ultimately show ?thesis using wf 1(1,4) owner by (simp add: ram_free_def wf_frames_def)
  qed
qed

theorem end_frees_all_pages_witness:
  "ram_used_by (snd (release_all_memory_for_process 5 (frames_init (\<lambda>i. if i < 9 then Some 5 else None)))) 5 = 0"
proof -
  let ?m = "frames_init (\<lambda>i. if i < 9 then Some 5 else None)"
  obtain r m' where run: "release_all_memory_for_process 5 ?m = (r, m')" by fastforce
  have "allocations ?m j = None" if "allocation_count \<le> j" for j
    using that by (simp add: allocation_count_def RAM_PAGES_def)
  from end_frees_all_pages [OF rf_boot this run] show ?thesis by (simp add: run)
qed

text \<open>
  C39: claiming a range of physical addresses is all or nothing: when it succeeds every page of it
  that is recorded belongs to the caller and had no owner before; when a page fails, because it
  has an owner, is being zeroed, or is not permitted, the owners and the number of free pages are
  what they were.
\<close>

theorem claim_all_or_nothing:
  assumes "reachable_frames m Z" and "claim_pages get [] (page_range phys k) p m = (r, m')"
  shows "(if r = Done ()
     then (\<forall>j. if \<exists>a \<in> set (page_range phys k). accounts get a p j
          then allocations m j = None \<and> allocations m' j = Some p else allocations m' j = allocations m j)
     else (\<exists>e. r = Fail e) \<and> allocations m' = allocations m \<and> num_free_pages m' = num_free_pages m)"
proof -
  have wf: "wf_frames m" using reachable_frames_inv [OF assms(1)] by blast
  have "taken_from get p [] (allocations m) (allocations m)" by (simp add: taken_from_def)
  note c = claim_pages_owners [OF assms(2) wf this]
  show ?thesis
  proof (cases r)
    case (Done u)
    with c show ?thesis by (simp add: taken_from_def)
  next
    case (Fail e)
    with c have "allocations m' = allocations m" "wf_frames m'" by simp_all
    then show ?thesis using wf Fail by (simp add: wf_frames_def unowned_def)
  next
    case Panic
    with c show ?thesis by simp
  qed
qed

lemma accounts_page_addr:
  "i < RAM_PAGES \<Longrightarrow> page_addr i AND 0xfff = 0 \<Longrightarrow> accounts get (page_addr i) p i"
  using page_addr_encrypted [of i] by (simp add: accounts_def peripheral_check_def)

theorem claim_all_or_nothing_witness:
  "allocations (snd (claim_pages (\<lambda>_. None) [] (page_range 0x40000000 2) 4
     (frames_init (\<lambda>i. if i = 1 then Some 8 else None)))) = (\<lambda>i. if i = 1 then Some 8 else None)"
proof -
  let ?m = "frames_init (\<lambda>i. if i = 1 then Some 8 else None)"
  obtain r m' where run: "claim_pages (\<lambda>_. None) [] (page_range 0x40000000 2) 4 ?m = (r, m')" by fastforce
  have a1: "accounts (\<lambda>_. None) (page_addr 1) 4 1"
    by (rule accounts_page_addr) (simp_all add: RAM_PAGES_def page_addr_def ENCRYPTED_DRAM_BASE_def)
  have in1: "page_addr 1 \<in> set (page_range 0x40000000 2)"
    by (simp add: page_range_def page_addr_def ENCRYPTED_DRAM_BASE_def upt_rec)
  have "r \<noteq> Done ()"
  proof
    assume "r = Done ()"
    with claim_all_or_nothing [OF rf_boot run]
    have "\<forall>j. if \<exists>a \<in> set (page_range 0x40000000 2). accounts (\<lambda>_. None) a 4 j
          then allocations ?m j = None \<and> allocations m' j = Some 4 else allocations m' j = allocations ?m j"
      by simp
    then have "allocations ?m 1 = None" using a1 in1 by metis
    then show False by simp
  qed
  with claim_all_or_nothing [OF rf_boot run] have "allocations m' = allocations ?m" by presburger
  then show ?thesis unfolding run by simp
qed

definition in_dram :: "usize \<Rightarrow> bool" where
  "in_dram a \<longleftrightarrow> is_address_encrypted a \<or> is_address_in_plaintext_dram a"

lemma dram_view:
  assumes "B \<le> a" and "a < B + RAM_SIZE" and "unat B mod 2 ^ 27 = 0" and "unat B < 2 ^ 31"
  shows "pages_between B a = unat a mod 2 ^ 27 div 4096"
proof -
  have "unat (B + RAM_SIZE) = unat B + 2 ^ 27"
    using assms(4) by (simp add: RAM_SIZE_def unat_word_ariths)
  then have "unat B \<le> unat a" "unat a < unat B + 2 ^ 27"
    using assms(1,2) by (simp_all add: word_le_nat_alt word_less_nat_alt)
  moreover obtain k where k: "unat B = 2 ^ 27 * k" using assms(3) by (metis mod_0_imp_dvd dvdE)
  ultimately have "unat a - unat B = unat a mod 2 ^ 27"
  proof -
    obtain d where d: "unat a = 2 ^ 27 * k + d" "d < 2 ^ 27"
      using \<open>unat B \<le> unat a\<close> \<open>unat a < unat B + 2 ^ 27\<close> k le_Suc_ex by fastforce
    then show ?thesis using k by simp
  qed
  moreover have "unat (a - B) = unat a - unat B" using assms(1) by (simp add: unat_sub)
  ultimately show ?thesis by (simp add: pages_between_def)
qed

lemma offset_in_dram:
  assumes "in_dram a"
  shows "address_to_allocation_offset a = Some (unat a mod 2 ^ 27 div 4096)"
    and "unat a mod 2 ^ 27 div 4096 < RAM_PAGES"
proof -
  have "a < ENCRYPTED_DRAM_BASE + RAM_SIZE \<Longrightarrow> ENCRYPTED_DRAM_BASE \<le> a \<Longrightarrow>
      pages_between ENCRYPTED_DRAM_BASE a = unat a mod 2 ^ 27 div 4096"
    "a < PLAINTEXT_DRAM_BASE + RAM_SIZE \<Longrightarrow> PLAINTEXT_DRAM_BASE \<le> a \<Longrightarrow>
      pages_between PLAINTEXT_DRAM_BASE a = unat a mod 2 ^ 27 div 4096"
    by (rule dram_view; simp add: ENCRYPTED_DRAM_BASE_def PLAINTEXT_DRAM_BASE_def)+
  with assms show "address_to_allocation_offset a = Some (unat a mod 2 ^ 27 div 4096)"
    by (auto simp: address_to_allocation_offset_def in_dram_def is_address_encrypted_def
        is_address_in_plaintext_dram_def ENCRYPTED_DRAM_END_def PLAINTEXT_DRAM_END_def)
  have "unat a mod 2 ^ 27 < 2 ^ 27" by simp
  then show "unat a mod 2 ^ 27 div 4096 < RAM_PAGES" by (simp add: RAM_PAGES_def less_mult_imp_div_less)
qed

lemma offset_outside_dram:
  assumes "\<not> in_dram a"
  shows "address_to_allocation_offset a = region_offset RAM_PAGES additional_regions a"
  using assms by (auto simp: address_to_allocation_offset_def in_dram_def is_address_encrypted_def
      is_address_in_plaintext_dram_def)

text \<open>
  C40: every offset that the lookup returns is an index of the array of owners (\<open>allocation_count\<close>
  entries), and an entry stands for one page: two addresses share it only when they lie in the
  same physical page, seen directly or through the other view of DRAM.
\<close>

theorem allocation_offset_exact:
  assumes "address_to_allocation_offset a = Some i"
  shows "i < allocation_count
    \<and> (address_to_allocation_offset b = Some i \<longrightarrow>
        (if in_dram a then in_dram b \<and> unat a mod 2 ^ 27 div 4096 = unat b mod 2 ^ 27 div 4096
         else unat a div 4096 = unat b div 4096))"
proof (cases "in_dram a")
  case True
  have "i < RAM_PAGES" and i: "i = unat a mod 2 ^ 27 div 4096"
    using offset_in_dram [OF True] assms by simp_all
  moreover have "in_dram b" if "address_to_allocation_offset b = Some i"
  proof (rule ccontr)
    assume "\<not> in_dram b"
    then have "RAM_PAGES \<le> i"
      using that region_offset_bounds [OF _ additional_regions_ok] by (simp add: offset_outside_dram)
    with \<open>i < RAM_PAGES\<close> show False by simp
  qed
  ultimately show ?thesis using True offset_in_dram(1) [of b] by (auto simp: allocation_count_def)
next
  case False
  then have r: "region_offset RAM_PAGES additional_regions a = Some i"
    using assms by (simp add: offset_outside_dram)
  note i = region_offset_bounds [OF r additional_regions_ok]
  have "unat a div 4096 = unat b div 4096" if "address_to_allocation_offset b = Some i"
  proof (cases "in_dram b")
    case True
    with offset_in_dram [OF True] that i show ?thesis by simp
  next
    case False
    with that have "region_offset RAM_PAGES additional_regions b = Some i"
      by (simp add: offset_outside_dram)
    from region_offset_same_page [OF r this additional_regions_ok] show ?thesis .
  qed
  with i False show ?thesis by (simp add: allocation_count_def)
qed

theorem allocation_offset_exact_witness:
  "address_to_allocation_offset 0x20001004 = Some 1 \<and> address_to_allocation_offset 0x40001000 = Some 1
   \<and> 1 < allocation_count \<and> in_dram 0x20001004 \<and> in_dram 0x40001000"
proof -
  have 1: "address_to_allocation_offset 0x20001004 = Some 1" "address_to_allocation_offset 0x40001000 = Some 1"
    by (simp_all add: address_to_allocation_offset_def dram_defs pages_between_def)
  have "in_dram 0x20001004"
    by (simp add: in_dram_def is_address_in_plaintext_dram_def dram_defs)
  with 1 allocation_offset_exact [OF 1(1), of "0x40001000"] show ?thesis by simp
qed

text \<open>A history of the counter of free pages that never exceeds \<open>b\<close> pages.\<close>

inductive counting :: "nat \<Rightarrow> frames \<Rightarrow> frames \<Rightarrow> bool" for b where
  counting_start: "num_free_pages m \<le> b \<Longrightarrow> counting b m m"
| counting_add: "counting b m m1 \<Longrightarrow> add_free_pages n m1 = (Done (), m2) \<Longrightarrow> num_free_pages m2 \<le> b \<Longrightarrow>
    counting b m m2"
| counting_sub: "counting b m m1 \<Longrightarrow> subtract_free_pages n m1 = (Done (), m2) \<Longrightarrow> num_free_pages m2 \<le> b \<Longrightarrow>
    counting b m m2"

text \<open>
  Less than 24 MB of free memory always means the low-memory state, and the state has a
  hysteresis of 1 MB: over any history of allocations and releases in which the free memory stays
  below 25 MB the event \<open>LowFreeMemory\<close> is broadcast at most once, namely when the state is
  entered, and the state is not left.
\<close>

theorem low_memory_hysteresis:
  assumes "counting b m m'" and "low_memory m \<or> 24 * 1024 * 1024 \<le> ram_free m"
  shows "(low_memory m' \<or> 24 * 1024 * 1024 \<le> ram_free m')
    \<and> (b * 4096 < 25 * 1024 * 1024 \<longrightarrow>
        low_events m' = low_events m + (if low_memory m' \<and> \<not> low_memory m then 1 else 0)
        \<and> (low_memory m \<longrightarrow> low_memory m'))"
  using assms
proof (induction rule: counting.induct)
  case (counting_start m)
  then show ?case by simp
next
  case (counting_add m m1 n m2)
  then show ?case
    by (auto simp: add_free_pages_def Let_def ram_free_def LOW_MEMORY_THRESHOLD_def LOW_MEMORY_HYSTERESIS_def
        split: if_splits)
next
  case (counting_sub m m1 n m2)
  then show ?case
    by (auto simp: subtract_free_pages_def Let_def ram_free_def LOW_MEMORY_THRESHOLD_def LOW_MEMORY_HYSTERESIS_def
        split: if_splits)
qed

theorem low_memory_hysteresis_witness:
  "low_memory (snd (subtract_free_pages 1
     ((frames_init (\<lambda>_. None))\<lparr>num_free_pages := 6144\<rparr>)))"
proof -
  let ?m = "(frames_init (\<lambda>_. None))\<lparr>num_free_pages := 6144\<rparr>"
  have "subtract_free_pages 1 ?m = (Done (), snd (subtract_free_pages 1 ?m))"
    and n: "num_free_pages (snd (subtract_free_pages 1 ?m)) = 6143"
    by (simp_all add: subtract_free_pages_def Let_def)
  then have "counting 6144 ?m (snd (subtract_free_pages 1 ?m))"
    by (intro counting_sub [OF counting_start]) simp_all
  from low_memory_hysteresis [OF this] n show ?thesis by (simp add: ram_free_def)
qed

end
