(* ===== verification/Page_Entries.thy ===== *)
theory Page_Entries
  imports Frame_Allocator
begin

unbundle bit_operations_syntax

text \<open>
  The entries of the second-level page tables (\<open>L2TableEntry\<close> of
  \<open>xous/kernel/src/arch/arm/mem.rs\<close>): their two encodings, the ARM small-page descriptor of a
  mapped page and the private format of a page that is allocated but not mapped, and the
  conversions between them. The descriptor type itself is that of the \<open>armv7\<close> crate
  (\<open>imports/armv7/src/structures/paging.rs\<close>).
\<close>

section \<open>Descriptors\<close>

datatype page_table_type = PT_Invalid | PT_SmallPage | PT_LargePage

fun pt_align :: "page_table_type \<Rightarrow> u32" where
  "pt_align PT_Invalid = 0" | "pt_align PT_SmallPage = 0xfff" | "pt_align PT_LargePage = 0xffff"

definition pt_type :: "u32 \<Rightarrow> page_table_type" where
  "pt_type d = (if d AND 3 = 0 then PT_Invalid else if d AND 3 = 1 then PT_LargePage else PT_SmallPage)"

text \<open>\<open>None\<close> is the error of the crate, on which the kernel panics.\<close>

definition pt_addr :: "u32 \<Rightarrow> u32 option" where
  "pt_addr d = (if pt_type d = PT_Invalid then None else Some (d AND NOT (pt_align (pt_type d))))"

definition pt_flags :: "u32 \<Rightarrow> u32" where
  "pt_flags d = d AND 0xffff"

definition pt_new :: "page_table_type \<Rightarrow> u32 \<Rightarrow> u32 \<Rightarrow> u32 option" where
  "pt_new t addr flags =
     (if t = PT_Invalid then Some 0
      else if addr AND pt_align t \<noteq> 0 then None else Some (addr OR flags))"

text \<open>The fields of \<open>SMALL_PAGE_FLAGS\<close>.\<close>

definition SP_XN :: u32 where "SP_XN = 0x001"
definition SP_VALID :: u32 where "SP_VALID = 0x002"
definition SP_B :: u32 where "SP_B = 0x004"
definition SP_C :: u32 where "SP_C = 0x008"
definition SP_PrivAccess :: u32 where "SP_PrivAccess = 0x010"
definition SP_FullAccess :: u32 where "SP_FullAccess = 0x030"
definition SP_AP2 :: u32 where "SP_AP2 = 0x200"
definition SP_NG :: u32 where "SP_NG = 0x800"

lemmas small_page_defs = SP_XN_def SP_VALID_def SP_B_def SP_C_def SP_PrivAccess_def SP_FullAccess_def
  SP_AP2_def SP_NG_def

section \<open>Entries\<close>

datatype l2_entry = L2Empty | L2Mapped u32 | L2Unmapped usize

definition MAP_USER_FLAG :: usize where "MAP_USER_FLAG = 4"
definition UNMAPPED_FLAGS_OFFSET :: nat where "UNMAPPED_FLAGS_OFFSET = 3"
definition TTBR1_SPLIT :: usize where "TTBR1_SPLIT = 0x80000000"

definition entry_from_u32 :: "u32 \<Rightarrow> l2_entry" where
  "entry_from_u32 v = (if v = 0 then L2Empty else if v AND 3 = 0 then L2Unmapped v else L2Mapped v)"

fun entry_as_u32 :: "l2_entry \<Rightarrow> u32" where
  "entry_as_u32 L2Empty = 0"
| "entry_as_u32 (L2Mapped d) = d"
| "entry_as_u32 (L2Unmapped d) = d"

definition new_on_demand :: "usize \<Rightarrow> memory_flags \<Rightarrow> bool \<Rightarrow> l2_entry res" where
  "new_on_demand phys flags map_user =
     (if phys AND 0xfff \<noteq> 0 then Panic
      else Done (L2Unmapped (phys OR push_bit UNMAPPED_FLAGS_OFFSET (bits flags)
             OR (if map_user then MAP_USER_FLAG else 0))))"

text \<open>The flags of a descriptor for a page with the given memory flags.\<close>

definition small_page_flags :: "usize \<Rightarrow> memory_flags \<Rightarrow> bool \<Rightarrow> u32" where
  "small_page_flags virt flags map_user =
     SP_VALID
     OR (if \<not> is_set flags MF_X then SP_XN else 0)
     OR (if \<not> is_set flags DEV \<and> \<not> is_set flags NO_CACHE then SP_C else 0)
     OR (if is_set flags DEV then SP_B else 0)
     OR (if \<not> is_set flags MF_W then SP_AP2 else 0)
     OR (if map_user then SP_FullAccess else SP_PrivAccess)
     OR (if virt < TTBR1_SPLIT then SP_NG else 0)"

definition new_mapped :: "usize \<Rightarrow> usize \<Rightarrow> memory_flags \<Rightarrow> bool \<Rightarrow> l2_entry res" where
  "new_mapped virt phys flags map_user =
     (if phys AND 0xfff \<noteq> 0 then Fail BadAlignment
      else case pt_new PT_SmallPage phys (small_page_flags virt flags map_user) of
        None \<Rightarrow> Panic | Some d \<Rightarrow> Done (L2Mapped d))"

fun entry_phys :: "l2_entry \<Rightarrow> usize res" where
  "entry_phys L2Empty = Fail BadAddress"
| "entry_phys (L2Mapped d) = (case pt_addr d of None \<Rightarrow> Panic | Some a \<Rightarrow> Done a)"
| "entry_phys (L2Unmapped u) = Done (u AND NOT 0xfff)"

text \<open>The loop-free body of \<open>decode_flags\<close>: each test sets one flag.\<close>

definition decode_flags :: "usize \<Rightarrow> u32 \<Rightarrow> memory_flags" where
  "decode_flags phys flags =
     flags_or (if flags AND SP_AP2 = 0 then MF_W else flags_empty)
    (flags_or (if flags AND SP_XN = 0 then MF_X else flags_empty)
    (flags_or (if flags AND SP_C = 0 then NO_CACHE else flags_empty)
    (flags_or (if flags AND SP_B \<noteq> 0 then DEV else flags_empty)
              (if is_address_in_plaintext_dram phys then PLAINTEXT else flags_empty))))"

fun entry_flags :: "l2_entry \<Rightarrow> memory_flags res" where
  "entry_flags L2Empty = Fail BadAddress"
| "entry_flags (L2Unmapped u) = Done (flags_from_bits (drop_bit UNMAPPED_FLAGS_OFFSET u))"
| "entry_flags (L2Mapped d) =
     (case pt_addr d of None \<Rightarrow> Panic | Some a \<Rightarrow> Done (decode_flags a (pt_flags d)))"

text \<open>Reading two attributes of an entry, one after the other.\<close>

definition phys_and_flags :: "l2_entry \<Rightarrow> (usize \<Rightarrow> memory_flags \<Rightarrow> 'a res) \<Rightarrow> 'a res" where
  "phys_and_flags e f =
     (case entry_phys e of
        Fail x \<Rightarrow> Fail x | Panic \<Rightarrow> Panic
      | Done phys \<Rightarrow> (case entry_flags e of Fail x \<Rightarrow> Fail x | Panic \<Rightarrow> Panic | Done fl \<Rightarrow> f phys fl))"

fun to_mapped :: "l2_entry \<Rightarrow> usize \<Rightarrow> l2_entry res" where
  "to_mapped L2Empty virt = Fail BadAddress"
| "to_mapped (L2Mapped d) virt = Done (L2Mapped d)"
| "to_mapped (L2Unmapped u) virt =
     phys_and_flags (L2Unmapped u) (\<lambda>phys fl. new_mapped virt phys fl (u AND MAP_USER_FLAG \<noteq> 0))"

fun to_unmapped :: "l2_entry \<Rightarrow> l2_entry res" where
  "to_unmapped L2Empty = Fail BadAddress"
| "to_unmapped (L2Mapped d) =
     phys_and_flags (L2Mapped d) (\<lambda>phys fl. new_on_demand phys fl (pt_flags d AND SP_FullAccess = SP_FullAccess))"
| "to_unmapped (L2Unmapped u) = Done (L2Unmapped u)"

fun is_shared :: "l2_entry \<Rightarrow> bool" where
  "is_shared (L2Unmapped u) \<longleftrightarrow> u AND NOT 0xfff \<noteq> 0"
| "is_shared e \<longleftrightarrow> False"

fun is_on_demand :: "l2_entry \<Rightarrow> bool" where
  "is_on_demand (L2Unmapped u) \<longleftrightarrow> u AND NOT 0xfff = 0"
| "is_on_demand e \<longleftrightarrow> False"

definition is_empty :: "l2_entry \<Rightarrow> bool" where
  "is_empty e \<longleftrightarrow> e = L2Empty"

fun is_mapped :: "l2_entry \<Rightarrow> bool" where
  "is_mapped (L2Mapped d) \<longleftrightarrow> True"
| "is_mapped e \<longleftrightarrow> False"

fun is_user_accessible :: "l2_entry \<Rightarrow> bool" where
  "is_user_accessible L2Empty \<longleftrightarrow> False"
| "is_user_accessible (L2Mapped d) \<longleftrightarrow> pt_flags d AND SP_FullAccess = SP_FullAccess"
| "is_user_accessible (L2Unmapped u) \<longleftrightarrow> u AND MAP_USER_FLAG \<noteq> 0"

fun to_immutable :: "l2_entry \<Rightarrow> l2_entry res" where
  "to_immutable L2Empty = Fail BadAddress"
| "to_immutable (L2Mapped d) = Done (L2Mapped (d OR SP_AP2))"
| "to_immutable (L2Unmapped u) = Done (L2Unmapped (u AND NOT (push_bit UNMAPPED_FLAGS_OFFSET (bits MF_W))))"

definition with_phys :: "l2_entry \<Rightarrow> usize \<Rightarrow> l2_entry res" where
  "with_phys e phys =
     (if phys AND 0xfff \<noteq> 0 then Panic
      else case e of
        L2Empty \<Rightarrow> Fail BadAddress
      | L2Mapped d \<Rightarrow>
          (case pt_new PT_SmallPage phys (pt_flags d) of None \<Rightarrow> Panic | Some d' \<Rightarrow> Done (L2Mapped d'))
      | L2Unmapped u \<Rightarrow> Done (L2Unmapped (u AND 0xfff OR phys)))"

section \<open>Bits of aligned addresses\<close>

lemma low_and:
  fixes phys c m :: usize
  assumes "phys AND 0xfff = 0" and "m AND 0xfff = m"
  shows "(phys OR c) AND m = c AND m"
proof -
  have "phys AND m = (phys AND 0xfff) AND m"
    using assms(2) by (metis and.assoc and.commute)
  with assms(1) show ?thesis by (simp add: bit.conj_disj_distrib2)
qed

lemma high_and:
  fixes phys c :: usize
  assumes "phys AND 0xfff = 0" and "c AND 0xfff = c"
  shows "(phys OR c) AND NOT 0xfff = phys"
proof -
  have "phys AND NOT 0xfff = phys"
    using assms(1) by (metis (no_types) bit.conj_disj_distrib bit.conj_one_right bit.disj_cancel_right or.left_neutral)
  moreover have "c AND NOT 0xfff = 0"
    using assms(2) by (metis and.assoc bit.conj_cancel_right bit.conj_zero_right)
  ultimately show ?thesis by (simp add: bit.conj_disj_distrib2)
qed

lemma small_or:
  fixes a b :: usize
  shows "a AND 0xfff = a \<Longrightarrow> b AND 0xfff = b \<Longrightarrow> (a OR b) AND 0xfff = a OR b"
  by (simp add: bit.conj_disj_distrib2)

section \<open>Mapped entries\<close>

lemma small_page_flags_bits:
  "small_page_flags v f u AND 0xfff = small_page_flags v f u"
  "small_page_flags v f u AND 2 = 2"
  "small_page_flags v f u AND SP_XN = (if is_set f MF_X then 0 else SP_XN)"
  "small_page_flags v f u AND SP_AP2 = (if is_set f MF_W then 0 else SP_AP2)"
  "small_page_flags v f u AND SP_B = (if is_set f DEV then SP_B else 0)"
  "small_page_flags v f u AND SP_C = (if is_set f DEV \<or> is_set f NO_CACHE then 0 else SP_C)"
  "small_page_flags v f u AND SP_FullAccess = (if u then SP_FullAccess else SP_PrivAccess)"
  unfolding small_page_flags_def small_page_defs
  by (cases "is_set f MF_X"; cases "is_set f MF_W"; cases "is_set f DEV"; cases "is_set f NO_CACHE";
      cases u; cases "v < TTBR1_SPLIT"; simp)+

text \<open>A mapped entry that the kernel built: its address is aligned, its flags are a page's.\<close>

definition page_desc :: "usize \<Rightarrow> usize \<Rightarrow> memory_flags \<Rightarrow> bool \<Rightarrow> u32" where
  "page_desc virt phys f u = phys OR small_page_flags virt f u"

lemma new_mapped_Done: "phys AND 0xfff = 0 \<Longrightarrow> new_mapped virt phys f u = Done (L2Mapped (page_desc virt phys f u))"
  by (simp add: new_mapped_def pt_new_def page_desc_def)

lemma page_desc_and:
  assumes "phys AND 0xfff = 0" and "m AND 0xfff = m"
  shows "page_desc v phys f u AND m = small_page_flags v f u AND m"
  using low_and [OF assms] by (simp add: page_desc_def)

lemma page_desc_type: "phys AND 0xfff = 0 \<Longrightarrow> pt_type (page_desc v phys f u) = PT_SmallPage"
proof -
  assume a: "phys AND 0xfff = 0"
  have "page_desc v phys f u AND 2 = 2"
    using page_desc_and [OF a, of 2] small_page_flags_bits(2) by simp
  then have "(page_desc v phys f u AND 3) AND 2 = 2" by (simp add: and.assoc)
  then show ?thesis by (auto simp: pt_type_def)
qed

lemma page_desc_addr [simp]: "phys AND 0xfff = 0 \<Longrightarrow> pt_addr (page_desc v phys f u) = Some phys"
  using high_and [of phys "small_page_flags v f u"] small_page_flags_bits(1)
  by (simp add: pt_addr_def page_desc_type) (simp add: page_desc_def)

lemma page_desc_flags:
  assumes "phys AND 0xfff = 0"
  shows "pt_flags (page_desc v phys f u) AND SP_XN = (if is_set f MF_X then 0 else SP_XN)"
    "pt_flags (page_desc v phys f u) AND SP_AP2 = (if is_set f MF_W then 0 else SP_AP2)"
    "pt_flags (page_desc v phys f u) AND SP_B = (if is_set f DEV then SP_B else 0)"
    "pt_flags (page_desc v phys f u) AND SP_C = (if is_set f DEV \<or> is_set f NO_CACHE then 0 else SP_C)"
    "pt_flags (page_desc v phys f u) AND SP_FullAccess = (if u then SP_FullAccess else SP_PrivAccess)"
proof -
  have "pt_flags (page_desc v phys f u) AND m = small_page_flags v f u AND m"
    if "m AND 0xfff = m" "0xffff AND m = m" for m
    using page_desc_and [OF assms that(1)] that(2) by (simp add: pt_flags_def and.assoc)
  from this [of SP_XN] this [of SP_AP2] this [of SP_B] this [of SP_C] this [of SP_FullAccess]
  show "pt_flags (page_desc v phys f u) AND SP_XN = (if is_set f MF_X then 0 else SP_XN)"
    "pt_flags (page_desc v phys f u) AND SP_AP2 = (if is_set f MF_W then 0 else SP_AP2)"
    "pt_flags (page_desc v phys f u) AND SP_B = (if is_set f DEV then SP_B else 0)"
    "pt_flags (page_desc v phys f u) AND SP_C = (if is_set f DEV \<or> is_set f NO_CACHE then 0 else SP_C)"
    "pt_flags (page_desc v phys f u) AND SP_FullAccess = (if u then SP_FullAccess else SP_PrivAccess)"
    unfolding small_page_flags_bits by (simp_all add: small_page_defs)
qed

lemma page_desc_nonzero [simp]: "phys AND 0xfff = 0 \<Longrightarrow> entry_from_u32 (page_desc v phys f u) = L2Mapped (page_desc v phys f u)"
  using page_desc_type [of phys v f u] by (auto simp: entry_from_u32_def pt_type_def split: if_splits)

text \<open>What is left of memory flags in a descriptor: device memory is never cached, the bus view follows the address.\<close>

definition effective_flags :: "usize \<Rightarrow> memory_flags \<Rightarrow> memory_flags" where
  "effective_flags phys f =
     flags_or (if is_set f MF_W then MF_W else flags_empty)
    (flags_or (if is_set f MF_X then MF_X else flags_empty)
    (flags_or (if is_set f DEV \<or> is_set f NO_CACHE then NO_CACHE else flags_empty)
    (flags_or (if is_set f DEV then DEV else flags_empty)
              (if is_address_in_plaintext_dram phys then PLAINTEXT else flags_empty))))"

lemma small_page_nonzero [simp]: "SP_XN \<noteq> 0" "SP_AP2 \<noteq> 0" "SP_B \<noteq> 0" "SP_C \<noteq> 0"
    "SP_PrivAccess \<noteq> SP_FullAccess"
  by (simp_all add: small_page_defs)

lemma decode_page_desc:
  "phys AND 0xfff = 0 \<Longrightarrow> decode_flags phys (pt_flags (page_desc v phys f u)) = effective_flags phys f"
  by (simp add: decode_flags_def page_desc_flags effective_flags_def)

lemma effective_flags_set:
  "is_set (effective_flags phys f) MF_W = is_set f MF_W"
  "is_set (effective_flags phys f) MF_X = is_set f MF_X"
  "is_set (effective_flags phys f) DEV = is_set f DEV"
  "is_set (effective_flags phys f) NO_CACHE = (is_set f DEV \<or> is_set f NO_CACHE)"
  unfolding effective_flags_def
  by (cases "is_set f MF_X"; cases "is_set f MF_W"; cases "is_set f DEV"; cases "is_set f NO_CACHE";
      cases "is_address_in_plaintext_dram phys";
      simp add: flag_defs flags_or_def flags_empty_def; simp add: is_set_def flags_and_def)+

lemma wf_effective_flags [simp]: "wf_flags (effective_flags phys f)"
  unfolding effective_flags_def
  by (cases "is_set f MF_X"; cases "is_set f MF_W"; cases "is_set f DEV"; cases "is_set f NO_CACHE";
      cases "is_address_in_plaintext_dram phys"; simp add: flag_defs flags_or_def flags_empty_def wf_flags_def)

lemma page_desc_effective: "page_desc v phys (effective_flags q f) u = page_desc v phys f u"
  by (simp add: page_desc_def small_page_flags_def effective_flags_set)

text \<open>The address of a page matters only in that the pages of processes are not global.\<close>

lemma page_desc_low: "v < TTBR1_SPLIT \<Longrightarrow> page_desc v phys f u = page_desc 0 phys f u"
  by (simp add: page_desc_def small_page_flags_def TTBR1_SPLIT_def)

section \<open>Unmapped entries\<close>

definition parked :: "usize \<Rightarrow> memory_flags \<Rightarrow> bool \<Rightarrow> usize" where
  "parked phys f u = phys OR (push_bit UNMAPPED_FLAGS_OFFSET (bits f) OR (if u then MAP_USER_FLAG else 0))"

lemma new_on_demand_Done: "phys AND 0xfff = 0 \<Longrightarrow> new_on_demand phys f u = Done (L2Unmapped (parked phys f u))"
  by (simp add: new_on_demand_def parked_def or.assoc)

lemma push_flags:
  assumes "wf_flags f"
  shows "push_bit 3 (bits f) AND 0x3e8 = push_bit 3 (bits f)"
proof -
  have "push_bit 3 (bits f AND 0x7d) = push_bit 3 (bits f) AND push_bit 3 0x7d"
    by (simp only: push_bit_and)
  with assms show ?thesis by (simp add: wf_flags_def FLAGS_ALL_def)
qed

lemma parked_low:
  assumes "wf_flags f"
  shows "(push_bit UNMAPPED_FLAGS_OFFSET (bits f) OR (if u then MAP_USER_FLAG else 0)) AND 0xfff
    = push_bit UNMAPPED_FLAGS_OFFSET (bits f) OR (if u then MAP_USER_FLAG else 0)"
proof (rule small_or)
  have "push_bit 3 (bits f) AND 0xfff = (push_bit 3 (bits f) AND 0x3e8) AND 0xfff"
    by (simp only: push_flags [OF assms])
  also have "\<dots> = push_bit 3 (bits f) AND (0x3e8 AND 0xfff)" by (simp only: and.assoc)
  also have "\<dots> = push_bit 3 (bits f)" using push_flags [OF assms] by simp
  finally show "push_bit UNMAPPED_FLAGS_OFFSET (bits f) AND 0xfff = push_bit UNMAPPED_FLAGS_OFFSET (bits f)"
    by (simp add: UNMAPPED_FLAGS_OFFSET_def)
qed (simp add: MAP_USER_FLAG_def)

lemma parked_fields:
  assumes "phys AND 0xfff = 0" and "wf_flags f"
  shows "entry_phys (L2Unmapped (parked phys f u)) = Done phys"
    and "entry_flags (L2Unmapped (parked phys f u)) = Done f"
    and "parked phys f u AND MAP_USER_FLAG \<noteq> 0 \<longleftrightarrow> u"
    and "parked phys f u AND 3 = 0"
    and "parked phys f u AND NOT 0xfff = phys"
    and "parked phys f u AND 0xfff = push_bit UNMAPPED_FLAGS_OFFSET (bits f) OR (if u then MAP_USER_FLAG else 0)"
proof -
  let ?c = "push_bit UNMAPPED_FLAGS_OFFSET (bits f) OR (if u then MAP_USER_FLAG else 0)"
  have m: "parked phys f u AND m = push_bit 3 (bits f) AND (0x3e8 AND m) OR ((if u then MAP_USER_FLAG else 0) AND m)"
    if "m AND 0xfff = m" for m
  proof -
    have "parked phys f u AND m = ?c AND m"
      using low_and [OF assms(1) that] by (simp add: parked_def)
    also have "\<dots> = (push_bit 3 (bits f) AND m) OR ((if u then MAP_USER_FLAG else 0) AND m)"
      by (simp add: bit.conj_disj_distrib2 UNMAPPED_FLAGS_OFFSET_def)
    finally show ?thesis using push_flags [OF assms(2)] by (simp flip: and.assoc)
  qed
  show p: "parked phys f u AND NOT 0xfff = phys"
    using high_and [OF assms(1) parked_low [OF assms(2)]] by (simp add: parked_def)
  then show "entry_phys (L2Unmapped (parked phys f u)) = Done phys" by simp
  have "drop_bit 3 (parked phys f u) AND 0x7d = drop_bit 3 (parked phys f u AND 0x3e8)"
    by (simp add: drop_bit_and)
  also have "parked phys f u AND 0x3e8 = push_bit 3 (bits f)"
    using m [of "0x3e8"] push_flags [OF assms(2)] by (simp add: MAP_USER_FLAG_def)
  also have "drop_bit 3 (push_bit 3 (bits f)) = bits f"
  proof -
    have "bits f AND 0x7d = bits f" using assms(2) by (simp add: wf_flags_def FLAGS_ALL_def)
    moreover have "take_bit 7 (0x7d :: usize) = 0x7d" by simp
    ultimately have "bit (bits f) n \<Longrightarrow> n < 7" for n
      by (metis bit_and_iff bit_take_bit_iff)
    then have "bit (bits f) n \<Longrightarrow> n < 29" for n by (rule less_trans) simp_all
    then show ?thesis
      by (intro bit_word_eqI) (auto simp: bit_simps not_le)
  qed
  finally have "flags_from_bits (drop_bit 3 (parked phys f u)) = MemoryFlags (bits f)"
    by (simp add: flags_from_bits_def FLAGS_ALL_def)
  then show "entry_flags (L2Unmapped (parked phys f u)) = Done f"
    by (simp add: UNMAPPED_FLAGS_OFFSET_def)
  show "parked phys f u AND MAP_USER_FLAG \<noteq> 0 \<longleftrightarrow> u"
    using m [of MAP_USER_FLAG] by (simp add: MAP_USER_FLAG_def)
  show "parked phys f u AND 3 = 0" using m [of 3] by (simp add: MAP_USER_FLAG_def)
  show "parked phys f u AND 0xfff = ?c"
    using low_and [OF assms(1), of "0xfff" ?c] parked_low [OF assms(2), of u] by (simp add: parked_def)
qed

section \<open>Properties of entries\<close>

text \<open>
  The entries the kernel writes for a process, all below the kernel's half of the address space,
  whose descriptors are therefore not global. No page is both writable and executable. A lent page is a user's,
  and a reserved one has a flag or is a user's: a reserved page of the kernel without any flag
  would be encoded like an empty slot.
\<close>

definition no_wx :: "memory_flags \<Rightarrow> bool" where
  "no_wx f \<longleftrightarrow> \<not> (is_set f MF_W \<and> is_set f MF_X)"

fun wf_entry :: "l2_entry \<Rightarrow> bool" where
  "wf_entry L2Empty \<longleftrightarrow> True"
| "wf_entry (L2Mapped d) \<longleftrightarrow> (\<exists>phys f u. phys AND 0xfff = 0 \<and> phys \<noteq> 0 \<and> no_wx f \<and> d = page_desc 0 phys f u)"
| "wf_entry (L2Unmapped w) \<longleftrightarrow>
     (\<exists>phys f u. phys AND 0xfff = 0 \<and> wf_flags f \<and> no_wx f \<and> (u \<or> phys = 0 \<and> bits f \<noteq> 0) \<and> w = parked phys f u)"

lemma no_wx_effective [simp]: "no_wx (effective_flags phys f) \<longleftrightarrow> no_wx f"
  by (simp add: no_wx_def effective_flags_set)

lemma no_wx_sub [simp]: "no_wx f \<Longrightarrow> no_wx (flags_sub f MF_W)"
  by (auto simp: no_wx_def is_set_def flags_sub_def flags_and_def flag_defs and.assoc)

lemma page_desc_wx:
  assumes "phys AND 0xfff = 0" and "no_wx f"
  shows "page_desc v phys f u AND SP_AP2 \<noteq> 0 \<or> page_desc v phys f u AND SP_XN \<noteq> 0"
proof -
  have "page_desc v phys f u AND SP_AP2 = (if is_set f MF_W then 0 else SP_AP2)"
    "page_desc v phys f u AND SP_XN = (if is_set f MF_X then 0 else SP_XN)"
    using page_desc_and [OF assms(1), of SP_AP2] page_desc_and [OF assms(1), of SP_XN] small_page_flags_bits(3,4)
    by (simp_all add: SP_AP2_def SP_XN_def)
  with assms(2) show ?thesis by (simp add: no_wx_def)
qed

lemma parked_nonzero:
  assumes "phys AND 0xfff = 0" and "wf_flags f" and "u \<or> bits f \<noteq> 0"
  shows "parked phys f u \<noteq> 0"
proof
  assume 0: "parked phys f u = 0"
  then have "\<not> u" using parked_fields(3) [OF assms(1,2), of u] by simp
  moreover have "bits f = 0"
    using 0 parked_fields(2) [OF assms(1,2), of u] by (auto simp: flags_from_bits_def)
  ultimately show False using assms(3) by simp
qed

lemma entry_u32_roundtrip: "wf_entry e \<Longrightarrow> entry_from_u32 (entry_as_u32 e) = e"
  by (cases e) (auto simp: entry_from_u32_def parked_fields parked_nonzero
      dest: page_desc_nonzero [unfolded entry_from_u32_def] split: if_splits)

lemma entry_u32_roundtrip': "entry_as_u32 (entry_from_u32 v) = v"
  by (simp add: entry_from_u32_def)

lemma to_unmapped_page_desc:
  "phys AND 0xfff = 0 \<Longrightarrow>
    to_unmapped (L2Mapped (page_desc v phys f u)) = Done (L2Unmapped (parked phys (effective_flags phys f) u))"
  by (simp add: phys_and_flags_def decode_page_desc page_desc_flags new_on_demand_Done)

lemma to_mapped_parked:
  "phys AND 0xfff = 0 \<Longrightarrow> wf_flags f \<Longrightarrow>
    to_mapped (L2Unmapped (parked phys f u)) v = Done (L2Mapped (page_desc v phys f u))"
  using parked_fields(1-3) [of phys f u]
  by (simp add: phys_and_flags_def new_mapped_Done del: entry_phys.simps entry_flags.simps)

lemma to_immutable_page_desc:
  assumes "phys AND 0xfff = 0"
  shows "to_immutable (L2Mapped (page_desc v phys f u)) = Done (L2Mapped (page_desc v phys (flags_sub f MF_W) u))"
proof -
  have w: "is_set (flags_sub f MF_W) MF_W = False" "is_set (flags_sub f MF_W) MF_X = is_set f MF_X"
    "is_set (flags_sub f MF_W) DEV = is_set f DEV" "is_set (flags_sub f MF_W) NO_CACHE = is_set f NO_CACHE"
    by (simp_all add: is_set_def flags_sub_def flags_and_def flag_defs and.assoc)
  have "small_page_flags v f u OR SP_AP2 = small_page_flags v (flags_sub f MF_W) u"
    by (cases "is_set f MF_W") (simp_all add: small_page_flags_def w or.assoc or.left_commute or.commute)
  then show ?thesis by (simp add: page_desc_def or.assoc)
qed

end
