(* ===== verification/Page_Tables.thy ===== *)
theory Page_Tables
  imports Page_Entries
begin

unbundle bit_operations_syntax

text \<open>
  The address spaces (\<open>MemoryMapping\<close> of \<open>xous/kernel/src/arch/arm/mem.rs\<close>): first- and
  second-level tables in physical memory, read and written through the kernel's transparent
  mapping of the encrypted DRAM: looking up the slot of a page, and adding the tables that hold it.
  The lemmas show that the tables of the processes never overlap, so that writing a slot changes
  the entry of one page of one process, and that adding tables changes no entry at all.
\<close>

section \<open>First-level descriptors\<close>

datatype tt_type = TT_Invalid | TT_Page | TT_Section | TT_Supersection

fun tt_align :: "tt_type \<Rightarrow> u32" where
  "tt_align TT_Invalid = 0" | "tt_align TT_Page = 0x3ff"
| "tt_align TT_Section = 0xfffff" | "tt_align TT_Supersection = 0xfffff"

definition tt_type_of :: "u32 \<Rightarrow> tt_type" where
  "tt_type_of d =
     (if d AND 3 = 0 then TT_Invalid else if d AND 3 = 1 then TT_Page
      else if d AND 0x40000 = 0 then TT_Section else TT_Supersection)"

definition tt_addr :: "u32 \<Rightarrow> u32 option" where
  "tt_addr d = (if tt_type_of d = TT_Invalid then None else Some (d AND NOT (tt_align (tt_type_of d))))"

definition tt_new :: "tt_type \<Rightarrow> u32 \<Rightarrow> u32 \<Rightarrow> u32 option" where
  "tt_new t addr flags =
     (if t = TT_Invalid then Some 0 else if addr AND tt_align t \<noteq> 0 then None else Some (addr OR flags))"

text \<open>\<open>VALID\<close> and the domain field, whose value 15 is cut to three bits.\<close>

definition TT_ATTRIBUTES :: u32 where "TT_ATTRIBUTES = 0x001 OR 0x0e0"

definition translation_table_index :: "usize \<Rightarrow> nat" where
  "translation_table_index a = unat (drop_bit 20 a)"

definition page_table_index :: "usize \<Rightarrow> nat" where
  "page_table_index a = unat (drop_bit 12 (a AND 0xfffff))"

definition L1_USER_PAGE_TABLE_PAGES :: nat where "L1_USER_PAGE_TABLE_PAGES = 2"
definition L1_USER_PAGE_TABLE_ENTRIES :: nat where "L1_USER_PAGE_TABLE_ENTRIES = 2048"
definition USER_AREA_END :: usize where "USER_AREA_END = 0x70000000"
definition L2_TABLE_BYTES :: usize where "L2_TABLE_BYTES = 256 * 4"

section \<open>State\<close>

record mapping =
  ttbr0 :: usize
  map_pid :: pid

definition is_kernel :: "mapping \<Rightarrow> bool" where "is_kernel mp \<longleftrightarrow> map_pid mp = 1"

text \<open>
  Physical memory, word by word, as the kernel sees it through its transparent mapping, and the
  owners of its pages. The contents of data pages matter only in that the zeroer clears them.
\<close>

record vm =
  vm_frames :: frames
  pmem :: "usize \<Rightarrow> u32"

record l2_slot =
  sl_ptr :: usize
  sl_virt :: usize

definition on_frames :: "(frames \<Rightarrow> 'a res \<times> frames) \<Rightarrow> vm \<Rightarrow> 'a res \<times> vm" where
  "on_frames f s = (case f (vm_frames s) of (r, m) \<Rightarrow> (r, s\<lparr>vm_frames := m\<rparr>))"

text \<open>
  The transparent mapping (\<open>transparent_phys_to_virt\<close>) shows the whole encrypted RAM at a constant
  offset; a pointer into it is represented by the physical address it stands for, so that what is
  left of the function is its assertion.
\<close>

definition transparent :: "usize \<Rightarrow> usize res" where
  "transparent phys = (if is_address_encrypted phys then Done phys else Panic)"

definition set_words :: "usize \<Rightarrow> nat \<Rightarrow> u32 \<Rightarrow> (usize \<Rightarrow> u32) \<Rightarrow> usize \<Rightarrow> u32" where
  "set_words a n v f = (\<lambda>b. if unat a \<le> unat b \<and> unat b < unat a + n then v else f b)"

definition zero_newly_allocated_tt_pages :: "usize \<Rightarrow> nat \<Rightarrow> vm \<Rightarrow> unit res \<times> vm" where
  "zero_newly_allocated_tt_pages phys pages s =
     (case transparent phys of
        Done _ \<Rightarrow> (Done (), s\<lparr>pmem := set_words phys (pages * 4096) 0 (pmem s)\<rparr>)
      | Fail e \<Rightarrow> (Fail e, s) | Panic \<Rightarrow> (Panic, s))"

section \<open>Walking and writing the tables\<close>

definition mapping_allocate :: "pid \<Rightarrow> mapping \<Rightarrow> vm \<Rightarrow> mapping res \<times> vm" where
  "mapping_allocate p mp s =
     (if ttbr0 mp \<noteq> 0 then (Fail MemoryInUse, s)
      else seq (on_frames (alloc_range_aligned 4 L1_USER_PAGE_TABLE_PAGES p) s)
        (\<lambda>(l1, zeroed) s1.
          seq (if \<not> zeroed then zero_newly_allocated_tt_pages l1 L1_USER_PAGE_TABLE_PAGES s1 else (Done (), s1))
            (\<lambda>_ s2. (Done (mp\<lparr>ttbr0 := l1, map_pid := p\<rparr>), s2))))"

definition l1_entry_ptr :: "mapping \<Rightarrow> nat \<Rightarrow> usize res" where
  "l1_entry_ptr mp vpn1 =
     (case transparent (ttbr0 mp) of
        Done a \<Rightarrow> Done (a + of_nat vpn1 * 4) | Fail e \<Rightarrow> Fail e | Panic \<Rightarrow> Panic)"

definition l2_slot_at :: "usize \<Rightarrow> usize \<Rightarrow> l2_slot" where
  "l2_slot_at l2_table virt = \<lparr>sl_ptr = l2_table + of_nat (page_table_index virt) * 4, sl_virt = virt\<rparr>"

definition slot_read :: "l2_slot \<Rightarrow> vm \<Rightarrow> l2_entry" where
  "slot_read sl s = entry_from_u32 (pmem s (sl_ptr sl))"

definition slot_write :: "l2_slot \<Rightarrow> l2_entry \<Rightarrow> vm \<Rightarrow> vm" where
  "slot_write sl e s = s\<lparr>pmem := (pmem s)(sl_ptr sl := entry_as_u32 e)\<rparr>"

definition get_l2_slot :: "mapping \<Rightarrow> usize \<Rightarrow> vm \<Rightarrow> l2_slot res" where
  "get_l2_slot mp addr s =
     (if addr AND 0xfff \<noteq> 0 then Fail BadAlignment
      else if \<not> is_kernel mp \<and> translation_table_index addr \<ge> L1_USER_PAGE_TABLE_ENTRIES then Fail AccessDenied
      else case l1_entry_ptr mp (translation_table_index addr) of
        Fail e \<Rightarrow> Fail e | Panic \<Rightarrow> Panic
      | Done p \<Rightarrow>
          (case tt_addr (pmem s p) of
             None \<Rightarrow> Fail BadAddress
           | Some l2 \<Rightarrow>
               (case transparent l2 of
                  Fail e \<Rightarrow> Fail e | Panic \<Rightarrow> Panic
                | Done t \<Rightarrow> Done (l2_slot_at t addr))))"

text \<open>The four descriptors of a group of sections, written one after the other.\<close>

fun write_group :: "usize \<Rightarrow> usize \<Rightarrow> nat list \<Rightarrow> vm \<Rightarrow> unit res \<times> vm" where
  "write_group l1 page [] s = (Done (), s)"
| "write_group l1 page (k # ks) s =
     (case tt_new TT_Page (page + of_nat k * L2_TABLE_BYTES) TT_ATTRIBUTES of
        None \<Rightarrow> (Panic, s)
      | Some d \<Rightarrow> write_group l1 page ks (s\<lparr>pmem := (pmem s)(l1 + of_nat k * 4 := d)\<rparr>))"

definition allocate_l2_slot :: "mapping \<Rightarrow> usize \<Rightarrow> vm \<Rightarrow> l2_slot res \<times> vm" where
  "allocate_l2_slot mp virt s =
     (if virt AND 0xfff \<noteq> 0 then (Fail BadAlignment, s)
      else let vpn1 = translation_table_index virt in
        if \<not> is_kernel mp \<and> vpn1 \<ge> L1_USER_PAGE_TABLE_ENTRIES then (Fail AccessDenied, s)
        else case l1_entry_ptr mp vpn1 of
          Fail e \<Rightarrow> (Fail e, s) | Panic \<Rightarrow> (Panic, s)
        | Done p \<Rightarrow>
            seq (case tt_type_of (pmem s p) of
                   TT_Invalid \<Rightarrow>
                     seq (on_frames (alloc_single_page (map_pid mp)) s) (\<lambda>(page, zeroed) s1.
                       seq (if \<not> zeroed then zero_newly_allocated_tt_pages page 1 s1 else (Done (), s1))
                         (\<lambda>_ s2. seq (write_group (ttbr0 mp + of_nat (4 * (vpn1 div 4)) * 4) page [0, 1, 2, 3] s2)
                            (\<lambda>_ s3. (Done (page + of_nat (vpn1 mod 4) * L2_TABLE_BYTES), s3))))
                 | TT_Page \<Rightarrow> (case tt_addr (pmem s p) of None \<Rightarrow> (Panic, s) | Some a \<Rightarrow> (Done a, s))
                 | _ \<Rightarrow> (Fail MemoryInUse, s))
              (\<lambda>l2 s1.
                case transparent l2 of
                  Fail e \<Rightarrow> (Fail e, s1) | Panic \<Rightarrow> (Panic, s1)
                | Done t \<Rightarrow>
                    (let sl = l2_slot_at t virt in
                     if \<not> is_empty (slot_read sl s1) then (Fail MemoryInUse, s1) else (Done sl, s1))))"

section \<open>Byte addresses of the encrypted DRAM\<close>

definition pa :: "nat \<Rightarrow> usize" where
  "pa n = ENCRYPTED_DRAM_BASE + of_nat n"

lemma unat_pa: "n < 2 ^ 27 \<Longrightarrow> unat (pa n) = 2 ^ 30 + n"
  by (simp add: pa_def ENCRYPTED_DRAM_BASE_def unat_word_ariths unsigned_of_nat take_bit_nat_eq_self)

lemma pa_inj: "m < 2 ^ 27 \<Longrightarrow> n < 2 ^ 27 \<Longrightarrow> pa m = pa n \<longleftrightarrow> m = n"
  by (metis unat_pa add_left_cancel)

lemma pa_encrypted: "n < 2 ^ 27 \<Longrightarrow> is_address_encrypted (pa n)"
  using unat_pa [of n] by (simp add: is_address_encrypted_def dram_defs word_le_nat_alt word_less_nat_alt)

lemma page_addr_pa: "page_addr i = pa (i * 4096)"
  by (simp add: page_addr_def pa_def)

lemma pa_add: "pa n + of_nat m = pa (n + m)"
  by (simp add: pa_def)

lemma pa_aligned:
  assumes "n < 2 ^ 27" and "n mod 2 ^ k = 0" and "k \<le> 30"
  shows "pa n AND (2 ^ k - 1) = 0"
proof -
  have "(2 ^ 30 + n) mod 2 ^ k = 0"
    using assms(2,3) by (metis add_0 dvd_imp_mod_0 le_imp_power_dvd mod_0_imp_dvd dvd_add)
  then have "take_bit k (unat (pa n)) = 0" using unat_pa [OF assms(1)] by (simp add: take_bit_eq_mod)
  then have "take_bit k (pa n) = 0"
    by (simp add: word_unat_eq_iff unsigned_take_bit_eq)
  then show ?thesis by (simp add: take_bit_eq_mask mask_eq_exp_minus_1)
qed

lemma high_and_mask:
  fixes x c M :: usize
  assumes "x AND M = 0" and "c AND M = c"
  shows "(x OR c) AND NOT M = x" and "(x OR c) AND M = c"
proof -
  have "x AND NOT M = x"
    using assms(1) by (metis (no_types) bit.conj_disj_distrib bit.conj_one_right bit.disj_cancel_right or.left_neutral)
  moreover have "c AND NOT M = 0"
    using assms(2) by (metis and.assoc bit.conj_cancel_right bit.conj_zero_right)
  ultimately show "(x OR c) AND NOT M = x" "(x OR c) AND M = c"
    using assms by (simp_all add: bit.conj_disj_distrib2)
qed

text \<open>The words of a first-level and of a second-level table.\<close>

definition l1_word :: "nat \<Rightarrow> nat \<Rightarrow> nat" where
  "l1_word t v = t * 4096 + v * 4"

definition l2_word :: "nat \<Rightarrow> nat \<Rightarrow> nat \<Rightarrow> nat" where
  "l2_word i k x = i * 4096 + k * 1024 + x * 4"

lemma l1_word_bound: "t + 2 \<le> RAM_PAGES \<Longrightarrow> v < 2048 \<Longrightarrow> l1_word t v < 2 ^ 27"
  by (simp add: l1_word_def RAM_PAGES_def)

lemma l2_word_bound: "i < RAM_PAGES \<Longrightarrow> k < 4 \<Longrightarrow> x < 256 \<Longrightarrow> l2_word i k x < 2 ^ 27"
  by (simp add: l2_word_def RAM_PAGES_def)

lemma l2_word_page: "k < 4 \<Longrightarrow> x < 256 \<Longrightarrow> l2_word i k x div 4096 = i"
  unfolding l2_word_def by (rule div_nat_eqI) simp_all

lemma l2_word_inj:
  assumes "l2_word i k x = l2_word j l y" and "k < 4" "x < 256" "l < 4" "y < 256"
  shows "i = j \<and> k = l \<and> x = y"
proof -
  have "i = j" using assms l2_word_page [of k x i] l2_word_page [of l y j] by metis
  then have "k * 1024 + x * 4 = l * 1024 + y * 4" using assms(1) by (simp add: l2_word_def)
  moreover have "(k * 1024 + x * 4) div 1024 = k" "(l * 1024 + y * 4) div 1024 = l"
    using assms(3,5) by (auto intro!: div_nat_eqI)
  ultimately have "k = l \<and> x = y" by simp
  then have "k = l" "x = y" by simp_all
  with \<open>i = j\<close> show ?thesis by simp
qed

lemma l1_word_page: "v < 2048 \<Longrightarrow> l1_word t v div 4096 = t \<or> l1_word t v div 4096 = t + 1"
  unfolding l1_word_def by (cases "v < 1024") (auto intro!: div_nat_eqI)

lemma l1_word_inj: "l1_word t v = l1_word t w \<longleftrightarrow> v = w"
  by (simp add: l1_word_def)

text \<open>The descriptor of the \<open>k\<close>-th table in page \<open>i\<close>.\<close>

definition group_desc :: "nat \<Rightarrow> nat \<Rightarrow> u32" where
  "group_desc i k = pa (i * 4096 + k * 1024) OR TT_ATTRIBUTES"

lemma group_base:
  assumes "i < RAM_PAGES" and "k < 4"
  shows "i * 4096 + k * 1024 < 2 ^ 27" and "pa (i * 4096 + k * 1024) AND 0x3ff = 0"
proof -
  show b: "i * 4096 + k * 1024 < 2 ^ 27" using assms by (simp add: RAM_PAGES_def)
  have "i * 4096 + k * 1024 = 2 ^ 10 * (4 * i + k)" by simp
  then have "(i * 4096 + k * 1024) mod 2 ^ 10 = 0" by (simp only: mod_mult_self1_is_0)
  from pa_aligned [OF b this] show "pa (i * 4096 + k * 1024) AND 0x3ff = 0" by simp
qed

lemma group_desc_type:
  assumes "i < RAM_PAGES" and "k < 4"
  shows "tt_type_of (group_desc i k) = TT_Page" and "tt_addr (group_desc i k) = Some (pa (i * 4096 + k * 1024))"
    and "group_desc i k \<noteq> 0"
proof -
  note b = group_base(2) [OF assms]
  have h: "group_desc i k AND NOT 0x3ff = pa (i * 4096 + k * 1024)" "group_desc i k AND 0x3ff = TT_ATTRIBUTES"
    using high_and_mask [OF b, of TT_ATTRIBUTES] by (simp_all add: group_desc_def TT_ATTRIBUTES_def)
  have "group_desc i k AND 3 = (group_desc i k AND 0x3ff) AND 3" by (simp add: and.assoc)
  also have "\<dots> = 1" by (simp add: h(2)) (simp add: TT_ATTRIBUTES_def)
  finally have 3: "group_desc i k AND 3 = 1" .
  then show t: "tt_type_of (group_desc i k) = TT_Page" by (simp add: tt_type_of_def)
  show "tt_addr (group_desc i k) = Some (pa (i * 4096 + k * 1024))"
    using h(1) by (simp add: tt_addr_def t)
  show "group_desc i k \<noteq> 0" using 3 by auto
qed

lemma tt_new_group:
  assumes "i < RAM_PAGES" and "k < 4"
  shows "tt_new TT_Page (page_addr i + of_nat k * L2_TABLE_BYTES) TT_ATTRIBUTES = Some (group_desc i k)"
proof -
  have "page_addr i + of_nat k * L2_TABLE_BYTES = pa (i * 4096 + k * 1024)"
    by (simp add: page_addr_pa pa_def L2_TABLE_BYTES_def)
  with group_base(2) [OF assms] show ?thesis by (simp add: tt_new_def group_desc_def)
qed

section \<open>Well-formed address spaces\<close>

text \<open>
  Page \<open>t\<close> holds the first-level table of \<open>mp\<close>, and \<open>G g\<close> is the page with the four second-level
  tables of the \<open>g\<close>-th group of sections, if there is one. All of them are owned by the process,
  and each page serves one purpose.
\<close>

definition space_rel :: "vm \<Rightarrow> mapping \<Rightarrow> nat \<Rightarrow> (nat \<Rightarrow> nat option) \<Rightarrow> bool" where
  "space_rel s mp t G \<longleftrightarrow>
     map_pid mp \<noteq> 1 \<and> ttbr0 mp = page_addr t \<and> t + 2 \<le> RAM_PAGES
     \<and> allocations (vm_frames s) t = Some (map_pid mp) \<and> allocations (vm_frames s) (t + 1) = Some (map_pid mp)
     \<and> (\<forall>g < 512. \<forall>k < 4. pmem s (pa (l1_word t (4 * g + k)))
          = (case G g of None \<Rightarrow> 0 | Some i \<Rightarrow> group_desc i k))
     \<and> (\<forall>g < 512. \<forall>i. G g = Some i \<longrightarrow> i < RAM_PAGES \<and> i \<noteq> t \<and> i \<noteq> t + 1
          \<and> allocations (vm_frames s) i = Some (map_pid mp))
     \<and> (\<forall>g < 512. \<forall>h < 512. \<forall>i. G g = Some i \<and> G h = Some i \<longrightarrow> g = h)"

lemma space_relD:
  assumes "space_rel s mp t G"
  shows "map_pid mp \<noteq> 1" "ttbr0 mp = page_addr t" "t + 2 \<le> RAM_PAGES" "\<not> is_kernel mp"
    and "v < 2048 \<Longrightarrow> pmem s (pa (l1_word t v))
      = (case G (v div 4) of None \<Rightarrow> 0 | Some i \<Rightarrow> group_desc i (v mod 4))"
    and "g < 512 \<Longrightarrow> G g = Some i \<Longrightarrow> i < RAM_PAGES \<and> i \<noteq> t \<and> i \<noteq> t + 1
          \<and> allocations (vm_frames s) i = Some (map_pid mp)"
    and "g < 512 \<Longrightarrow> h < 512 \<Longrightarrow> G g = Some i \<Longrightarrow> G h = Some i \<Longrightarrow> g = h"
proof -
  note a = assms [unfolded space_rel_def]
  show "map_pid mp \<noteq> 1" "ttbr0 mp = page_addr t" "t + 2 \<le> RAM_PAGES" "\<not> is_kernel mp"
    using a by (simp_all add: is_kernel_def)
  show "pmem s (pa (l1_word t v)) = (case G (v div 4) of None \<Rightarrow> 0 | Some i \<Rightarrow> group_desc i (v mod 4))"
    if "v < 2048"
  proof -
    have "v div 4 < 512" "v mod 4 < 4" using that by simp_all
    with a have "pmem s (pa (l1_word t (4 * (v div 4) + v mod 4)))
        = (case G (v div 4) of None \<Rightarrow> 0 | Some i \<Rightarrow> group_desc i (v mod 4))" by blast
    then show ?thesis by simp
  qed
  show "g < 512 \<Longrightarrow> G g = Some i \<Longrightarrow> i < RAM_PAGES \<and> i \<noteq> t \<and> i \<noteq> t + 1
          \<and> allocations (vm_frames s) i = Some (map_pid mp)" using a by blast
  show "g < 512 \<Longrightarrow> h < 512 \<Longrightarrow> G g = Some i \<Longrightarrow> G h = Some i \<Longrightarrow> g = h" using a by blast
qed

lemma unat_drop: "unat (drop_bit k (a :: usize)) = unat a div 2 ^ k"
  by (subst unat_drop_bit_eq) (rule drop_bit_eq_div)

lemma page_table_index_less: "page_table_index a < 256"
proof -
  have "unat (a AND 0xfffff) < 2 ^ 20"
  proof -
    have "a AND 0xfffff = take_bit 20 a" by (simp add: take_bit_eq_mask mask_eq_exp_minus_1)
    then show ?thesis using take_bit_nat_less_exp [of 20 "unat a"] by (simp add: unsigned_take_bit_eq)
  qed
  then show ?thesis
    by (simp only: page_table_index_def unat_drop) (simp add: less_mult_imp_div_less)
qed

text \<open>The user addresses of pages, and their indices in the tables.\<close>

definition user_page :: "usize \<Rightarrow> bool" where
  "user_page a \<longleftrightarrow> a AND 0xfff = 0 \<and> translation_table_index a < L1_USER_PAGE_TABLE_ENTRIES"

definition group_of :: "usize \<Rightarrow> nat" where
  "group_of a = translation_table_index a div 4"

lemma user_page_group: "user_page a \<Longrightarrow> group_of a < 512"
  by (simp add: user_page_def group_of_def L1_USER_PAGE_TABLE_ENTRIES_def less_mult_imp_div_less)

lemma page_address_parts:
  assumes "a AND 0xfff = 0"
  shows "unat a = translation_table_index a * 2 ^ 20 + page_table_index a * 2 ^ 12"
proof -
  have "take_bit 12 a = 0" using assms by (simp add: take_bit_eq_mask mask_eq_exp_minus_1)
  then have 0: "unat a mod 2 ^ 12 = 0"
    by (metis take_bit_eq_mod unsigned_0 unsigned_take_bit_eq)
  have t: "translation_table_index a = unat a div 2 ^ 20"
    by (simp only: translation_table_index_def unat_drop)
  have "a AND 0xfffff = take_bit 20 a" by (simp add: take_bit_eq_mask mask_eq_exp_minus_1)
  then have p: "page_table_index a = unat a mod 2 ^ 20 div 2 ^ 12"
    by (simp only: page_table_index_def unat_drop unsigned_take_bit_eq) (simp only: take_bit_eq_mod)
  have "unat a mod 2 ^ 20 mod 2 ^ 12 = 0"
    using 0 by (simp add: mod_mod_cancel)
  then have "page_table_index a * 2 ^ 12 = unat a mod 2 ^ 20"
    unfolding p by (metis add.right_neutral div_mult_mod_eq)
  then show ?thesis unfolding t by (simp only: div_mult_mod_eq)
qed

lemma page_address_inj:
  "a AND 0xfff = 0 \<Longrightarrow> b AND 0xfff = 0 \<Longrightarrow> translation_table_index a = translation_table_index b \<Longrightarrow>
    page_table_index a = page_table_index b \<Longrightarrow> a = b"
  by (metis page_address_parts word_unat_eq_iff)

definition slot_word :: "nat \<Rightarrow> usize \<Rightarrow> nat" where
  "slot_word i a = l2_word i (translation_table_index a mod 4) (page_table_index a)"

lemma slot_word_page: "slot_word i a div 4096 = i"
  using l2_word_page [of "translation_table_index a mod 4" "page_table_index a" i] page_table_index_less
  by (simp add: slot_word_def)

lemma slot_word_bound: "i < RAM_PAGES \<Longrightarrow> slot_word i a < 2 ^ 27"
  unfolding slot_word_def by (rule l2_word_bound) (simp_all add: page_table_index_less)

lemma slot_word_inj:
  assumes "user_page a" and "user_page b" and "slot_word i a = slot_word j b"
  shows "i = j" and "group_of a = group_of b \<Longrightarrow> a = b"
proof -
  have e: "i = j \<and> translation_table_index a mod 4 = translation_table_index b mod 4
      \<and> page_table_index a = page_table_index b"
    using l2_word_inj [OF assms(3) [unfolded slot_word_def]] page_table_index_less by simp
  then show "i = j" by simp
  assume "group_of a = group_of b"
  with e have "translation_table_index a = translation_table_index b"
    unfolding group_of_def by (metis div_mult_mod_eq)
  with e assms(1,2) show "a = b" by (auto simp: user_page_def intro: page_address_inj)
qed

lemma l1_entry_ptr_user:
  assumes "space_rel s mp t G" and "v < 2048"
  shows "l1_entry_ptr mp v = Done (pa (l1_word t v))"
proof -
  note r = space_relD [OF assms(1)]
  have "is_address_encrypted (ttbr0 mp)"
    using r(2,3) pa_encrypted [of "t * 4096"] by (simp add: page_addr_pa RAM_PAGES_def)
  moreover have "ttbr0 mp + of_nat v * 4 = pa (l1_word t v)"
    using r(2) by (simp add: page_addr_pa pa_def l1_word_def)
  ultimately show ?thesis by (simp add: l1_entry_ptr_def transparent_def)
qed

lemma get_l2_slot_user:
  assumes "space_rel s mp t G"
  shows "get_l2_slot mp a s =
    (if a AND 0xfff \<noteq> 0 then Fail BadAlignment
     else if \<not> user_page a then Fail AccessDenied
     else case G (group_of a) of None \<Rightarrow> Fail BadAddress
          | Some i \<Rightarrow> Done \<lparr>sl_ptr = pa (slot_word i a), sl_virt = a\<rparr>)"
proof (cases "user_page a")
  case False
  with space_relD(4) [OF assms] show ?thesis by (auto simp: get_l2_slot_def user_page_def)
next
  case True
  let ?v = "translation_table_index a"
  note r = space_relD [OF assms]
  have v: "?v < 2048" using True by (simp add: user_page_def L1_USER_PAGE_TABLE_ENTRIES_def)
  note g = user_page_group [OF True]
  have G: "group_of a = ?v div 4" by (simp add: group_of_def)
  show ?thesis
  proof (cases "G (group_of a)")
    case None
    with r(4) r(5) [OF v] True v show ?thesis
      by (simp add: get_l2_slot_def user_page_def l1_entry_ptr_user [OF assms] G tt_addr_def tt_type_of_def)
  next
    case (Some i)
    have i: "i < RAM_PAGES" using r(6) [OF g Some] by blast
    have "tt_addr (pmem s (pa (l1_word t ?v))) = Some (pa (i * 4096 + ?v mod 4 * 1024))"
      using r(5) [OF v] Some group_desc_type(2) [OF i, of "?v mod 4"] by (simp add: G)
    moreover have "is_address_encrypted (pa (i * 4096 + ?v mod 4 * 1024))"
      using pa_encrypted group_base(1) [OF i, of "?v mod 4"] by simp
    moreover have "pa (i * 4096 + ?v mod 4 * 1024) + of_nat (page_table_index a) * 4 = pa (slot_word i a)"
      by (simp add: pa_def slot_word_def l2_word_def)
    ultimately show ?thesis
      using Some True v r(4)
      by (simp add: get_l2_slot_def user_page_def l1_entry_ptr_user [OF assms] transparent_def l2_slot_at_def)
  qed
qed

lemma space_rel_unique:
  assumes "space_rel s mp t G" and "space_rel s mp t' G'"
  shows "t = t'" and "g < 512 \<Longrightarrow> G g = G' g"
proof -
  note r = space_relD [OF assms(1)] and r' = space_relD [OF assms(2)]
  have "t < RAM_PAGES" "t' < RAM_PAGES" using r(3) r'(3) by simp_all
  then show t: "t = t'" using r(2) r'(2) page_addr_inj by metis
  assume g: "g < 512"
  then have v: "4 * g < 2048" by simp
  have eq: "(case G g of None \<Rightarrow> 0 | Some i \<Rightarrow> group_desc i 0) = (case G' g of None \<Rightarrow> 0 | Some i \<Rightarrow> group_desc i 0)"
  proof -
    have "4 * g div 4 = g" "4 * g mod 4 = 0" by simp_all
    with r(5) [OF v] r'(5) [OF v] t show ?thesis by metis
  qed
  show "G g = G' g"
  proof (cases "G g")
    case None
    with eq r'(6) [OF g] group_desc_type(3) [of _ 0] show ?thesis by (cases "G' g") auto
  next
    case (Some i)
    with r(6) [OF g] have i: "i < RAM_PAGES" by blast
    with Some eq group_desc_type(3) [OF i, of 0] obtain j where j: "G' g = Some j" by (cases "G' g") auto
    with r'(6) [OF g] have j': "j < RAM_PAGES" by blast
    have "pa (i * 4096) = pa (j * 4096)"
      using eq Some j group_desc_type(2) [OF i, of 0] group_desc_type(2) [OF j', of 0] by simp
    with i j' have "i = j" by (simp add: pa_inj RAM_PAGES_def)
    with Some j show ?thesis by simp
  qed
qed

lemma space_rel_mono:
  assumes "space_rel s mp t G"
    and "\<And>j. allocations (vm_frames s) j = Some (map_pid mp) \<Longrightarrow> allocations (vm_frames s') j = Some (map_pid mp)"
    and "\<And>v. v < 2048 \<Longrightarrow> pmem s' (pa (l1_word t v)) = pmem s (pa (l1_word t v))"
  shows "space_rel s' mp t G"
proof -
  have "pmem s' (pa (l1_word t (4 * g + k))) = (case G g of None \<Rightarrow> 0 | Some i \<Rightarrow> group_desc i k)"
    if "g < 512" "k < 4" for g k
    using assms(1,3) that by (simp add: space_rel_def)
  with assms(1,2) show ?thesis unfolding space_rel_def by blast
qed

section \<open>All address spaces together\<close>

definition page_zero :: "vm \<Rightarrow> nat \<Rightarrow> bool" where
  "page_zero s i \<longleftrightarrow> (\<forall>n. n div 4096 = i \<longrightarrow> pmem s (pa n) = 0)"

type_synonym spaces = "pid \<Rightarrow> mapping option"

definition wf_vm :: "vm \<Rightarrow> spaces \<Rightarrow> bool" where
  "wf_vm s maps \<longleftrightarrow> wf_frames (vm_frames s)
     \<and> (\<forall>i. free_pages_zeroed (vm_frames s) i \<longrightarrow> page_zero s i)
     \<and> (\<forall>p mp. maps p = Some mp \<longrightarrow> map_pid mp = p \<and> (\<exists>t G. space_rel s mp t G))"

lemma wf_vm_space:
  assumes "wf_vm s maps" and "maps p = Some mp"
  obtains t G where "space_rel s mp t G" "map_pid mp = p"
  using assms unfolding wf_vm_def by blast

text \<open>The pages that hold the tables of some process.\<close>

definition table_frame :: "spaces \<Rightarrow> vm \<Rightarrow> nat \<Rightarrow> bool" where
  "table_frame maps s i \<longleftrightarrow> (\<exists>p mp t G. maps p = Some mp \<and> space_rel s mp t G
     \<and> (i = t \<or> i = t + 1 \<or> (\<exists>g < 512. G g = Some i)))"

lemma table_frame_owned:
  assumes "wf_vm s maps" and "table_frame maps s i"
  shows "allocations (vm_frames s) i \<noteq> None"
proof -
  from assms(2) obtain p mp t G where r: "space_rel s mp t G" "i = t \<or> i = t + 1 \<or> (\<exists>g < 512. G g = Some i)"
    unfolding table_frame_def by blast
  from r(2) show ?thesis
  proof (elim disjE exE conjE)
    fix g
    assume "g < 512" "G g = Some i"
    with space_relD(6) [OF r(1) this] show ?thesis by simp
  qed (use r(1) in \<open>simp_all add: space_rel_def\<close>)
qed

lemma table_frame_cong:
  assumes wf: "wf_vm s maps"
    and keep: "\<And>q mq t G. maps q = Some mq \<Longrightarrow> space_rel s mq t G \<Longrightarrow> space_rel s' mq t G"
    and "table_frame maps s' i"
  shows "table_frame maps s i"
proof -
  from assms(3) obtain p mp t G where d: "maps p = Some mp" "space_rel s' mp t G"
    "i = t \<or> i = t + 1 \<or> (\<exists>g < 512. G g = Some i)" unfolding table_frame_def by blast
  obtain t' G' where r: "space_rel s mp t' G'" using wf d(1) by (rule wf_vm_space)
  note u = space_rel_unique [OF keep [OF d(1) r] d(2)]
  from d(3) have "i = t' \<or> i = t' + 1 \<or> (\<exists>g < 512. G' g = Some i)" using u by metis
  with d(1) r show ?thesis unfolding table_frame_def by blast
qed

text \<open>What an address space says of a page.\<close>

definition lookup :: "vm \<Rightarrow> mapping \<Rightarrow> usize \<Rightarrow> l2_entry" where
  "lookup s mp a = (case get_l2_slot mp a s of Done sl \<Rightarrow> slot_read sl s | _ \<Rightarrow> L2Empty)"

lemma lookup_slot: "get_l2_slot mp a s = Done sl \<Longrightarrow> slot_read sl s = lookup s mp a"
  by (simp add: lookup_def)

lemma get_l2_slot_no_panic: "space_rel s mp t G \<Longrightarrow> get_l2_slot mp a s \<noteq> Panic"
  by (simp add: get_l2_slot_user split: option.splits)

lemma get_l2_slot_Done:
  assumes "space_rel s mp t G" and "get_l2_slot mp a s = Done sl"
  obtains i where "user_page a" "G (group_of a) = Some i" "sl = \<lparr>sl_ptr = pa (slot_word i a), sl_virt = a\<rparr>"
    "i < RAM_PAGES" "i \<noteq> t" "i \<noteq> t + 1" "allocations (vm_frames s) i = Some (map_pid mp)"
proof -
  from assms(2) have "user_page a" and "\<exists>i. G (group_of a) = Some i \<and> sl = \<lparr>sl_ptr = pa (slot_word i a), sl_virt = a\<rparr>"
    by (auto simp: get_l2_slot_user [OF assms(1)] split: if_splits option.splits)
  then obtain i where i: "user_page a" "G (group_of a) = Some i" "sl = \<lparr>sl_ptr = pa (slot_word i a), sl_virt = a\<rparr>"
    by blast
  from space_relD(6) [OF assms(1) user_page_group [OF i(1)] i(2)] that [OF i] show ?thesis by blast
qed

text \<open>Two slots are the same word only when they are the same page of the same process.\<close>

lemma slot_ptr_inj:
  assumes wf: "wf_vm s maps" and "maps p = Some mp" and "maps q = Some mq"
    and "get_l2_slot mp a s = Done sl" and "get_l2_slot mq b s = Done sl'" and "sl_ptr sl = sl_ptr sl'"
  shows "p = q \<and> a = b"
proof -
  obtain t G where r: "space_rel s mp t G" "map_pid mp = p" using wf assms(2) by (rule wf_vm_space)
  obtain t' G' where r': "space_rel s mq t' G'" "map_pid mq = q" using wf assms(3) by (rule wf_vm_space)
  obtain i where i: "user_page a" "G (group_of a) = Some i" "sl = \<lparr>sl_ptr = pa (slot_word i a), sl_virt = a\<rparr>"
    "i < RAM_PAGES" "allocations (vm_frames s) i = Some p"
    using get_l2_slot_Done [OF r(1) assms(4)] r(2) by metis
  obtain j where j: "user_page b" "G' (group_of b) = Some j" "sl' = \<lparr>sl_ptr = pa (slot_word j b), sl_virt = b\<rparr>"
    "j < RAM_PAGES" "allocations (vm_frames s) j = Some q"
    using get_l2_slot_Done [OF r'(1) assms(5)] r'(2) by metis
  have w: "slot_word i a = slot_word j b"
    using assms(6) i(3) j(3) pa_inj slot_word_bound [OF i(4)] slot_word_bound [OF j(4)] by simp
  note inj = slot_word_inj [OF i(1) j(1) w]
  have pq: "p = q" using inj(1) i(5) j(5) by simp
  then have "mp = mq" using assms(2,3) by simp
  then have "G (group_of b) = Some j"
    using space_rel_unique(2) [OF r(1) r'(1) [folded \<open>mp = mq\<close>]] j(2) user_page_group [OF j(1)] by simp
  then have "group_of a = group_of b"
    using space_relD(7) [OF r(1) user_page_group [OF i(1)] user_page_group [OF j(1)] i(2)] inj(1) by simp
  with inj(2) pq show ?thesis by simp
qed

lemma slot_not_l1:
  assumes wf: "wf_vm s maps" and "maps p = Some mp" and "maps q = Some mq"
    and "get_l2_slot mp a s = Done sl" and "space_rel s mq t' G'" and v: "v < 2048"
  shows "pa (l1_word t' v) \<noteq> sl_ptr sl"
proof
  assume eq: "pa (l1_word t' v) = sl_ptr sl"
  obtain t G where r: "space_rel s mp t G" "map_pid mp = p" using wf assms(2) by (rule wf_vm_space)
  obtain i where i: "sl = \<lparr>sl_ptr = pa (slot_word i a), sl_virt = a\<rparr>"
    "i < RAM_PAGES" "i \<noteq> t" "i \<noteq> t + 1" "allocations (vm_frames s) i = Some p"
    using get_l2_slot_Done [OF r(1) assms(4)] r(2) by metis
  have q: "map_pid mq = q" using wf assms(3) by (auto simp: wf_vm_def)
  have "l1_word t' v = slot_word i a"
    using eq i(1,2) pa_inj slot_word_bound [OF i(2)] l1_word_bound [OF space_relD(3) [OF assms(5)] v] by simp
  then have "i = t' \<or> i = t' + 1"
    using l1_word_page [OF v, of t'] slot_word_page [of i a] by metis
  then have "allocations (vm_frames s) i = Some q"
    using assms(5) q by (auto simp: space_rel_def)
  with i(5) have "p = q" by simp
  with assms(2,3) have "mp = mq" by simp
  with space_rel_unique(1) [OF r(1)] assms(5) have "t = t'" by blast
  with \<open>i = t' \<or> i = t' + 1\<close> i(3,4) show False by simp
qed

text \<open>Writing one slot: every table stays, and one entry changes.\<close>

lemma slot_write_spec:
  assumes wf: "wf_vm s maps" and mp: "maps p = Some mp" and sl: "get_l2_slot mp a s = Done sl"
    and e: "entry_from_u32 (entry_as_u32 e) = e"
  shows "wf_vm (slot_write sl e s) maps"
    and "maps q = Some mq \<Longrightarrow> get_l2_slot mq b (slot_write sl e s) = get_l2_slot mq b s"
    and "maps q = Some mq \<Longrightarrow> lookup (slot_write sl e s) mq b = (if q = p \<and> b = a then e else lookup s mq b)"
    and "maps q = Some mq \<Longrightarrow> space_rel s mq t0 G0 \<Longrightarrow> space_rel (slot_write sl e s) mq t0 G0"
proof -
  let ?s = "slot_write sl e s"
  have fr [simp]: "vm_frames ?s = vm_frames s" by (simp add: slot_write_def)
  have keep: "space_rel ?s mq t G" if "maps q = Some mq" "space_rel s mq t G" for q mq t G
    using that(2)
  proof (rule space_rel_mono)
    fix v :: nat
    assume "v < 2048"
    from slot_not_l1 [OF wf mp that(1) sl that(2) this]
    show "pmem ?s (pa (l1_word t v)) = pmem s (pa (l1_word t v))" by (simp add: slot_write_def)
  qed simp
  then show "maps q = Some mq \<Longrightarrow> space_rel s mq t0 G0 \<Longrightarrow> space_rel ?s mq t0 G0" .
  show get: "get_l2_slot mq b ?s = get_l2_slot mq b s" if mq: "maps q = Some mq" for q mq b
  proof -
    obtain t G where r: "space_rel s mq t G" "map_pid mq = q" using wf mq by (rule wf_vm_space)
    show ?thesis
      unfolding get_l2_slot_user [OF r(1)] get_l2_slot_user [OF keep [OF mq r(1)]] ..
  qed
  show "lookup ?s mq b = (if q = p \<and> b = a then e else lookup s mq b)" if mq: "maps q = Some mq" for q mq b
  proof (cases "get_l2_slot mq b s")
    case (Done sl')
    show ?thesis
    proof (cases "q = p \<and> b = a")
      case True
      then have "sl' = sl" using mq mp sl Done by simp
      with True show ?thesis
        using Done get [OF mq, of b] by (simp add: lookup_def slot_read_def slot_write_def e)
    next
      case False
      then have "sl_ptr sl' \<noteq> sl_ptr sl" using slot_ptr_inj [OF wf mp mq sl Done] by auto
      then have "lookup ?s mq b = lookup s mq b"
        using Done get [OF mq, of b] by (simp add: lookup_def slot_read_def slot_write_def)
      then show ?thesis unfolding if_not_P [OF False] .
    qed
  qed (use get [OF mq, of b] mq mp sl in \<open>auto simp: lookup_def\<close>)
  have "page_zero ?s i" if z: "free_pages_zeroed (vm_frames s) i" for i
  proof -
    obtain t G where r: "space_rel s mp t G" "map_pid mp = p" using wf mp by (rule wf_vm_space)
    obtain j where j: "sl = \<lparr>sl_ptr = pa (slot_word j a), sl_virt = a\<rparr>" "j < RAM_PAGES"
      "allocations (vm_frames s) j = Some p"
      using get_l2_slot_Done [OF r(1) sl] r(2) by metis
    have "wf_frames (vm_frames s)" and z0: "page_zero s i" using wf z by (simp_all add: wf_vm_def)
    from wf_frames_page(1) [OF this(1) z] j(3) have ij: "i \<noteq> j" "i < RAM_PAGES" by auto
    show ?thesis
      unfolding page_zero_def
    proof (intro allI impI)
      fix n :: nat
      assume n: "n div 4096 = i"
      then have "n < 2 ^ 27" using ij(2) by (simp add: RAM_PAGES_def div_less_iff_less_mult)
      then have "pa n \<noteq> sl_ptr sl"
        using j(1) pa_inj slot_word_bound [OF j(2)] slot_word_page [of j a] n ij(1) by auto
      with z0 n show "pmem ?s (pa n) = 0" by (simp add: slot_write_def page_zero_def)
    qed
  qed
  moreover have "map_pid mq = q \<and> (\<exists>t G. space_rel ?s mq t G)" if "maps q = Some mq" for q mq
    using wf_vm_space [OF wf that] keep [OF that] by metis
  ultimately show "wf_vm ?s maps"
    using wf by (simp add: wf_vm_def)
qed

text \<open>Writing the four descriptors of a group.\<close>

definition with_group :: "nat \<Rightarrow> nat \<Rightarrow> nat \<Rightarrow> (usize \<Rightarrow> u32) \<Rightarrow> usize \<Rightarrow> u32" where
  "with_group t g i f =
     (f(pa (l1_word t (4 * g)) := group_desc i 0))(pa (l1_word t (4 * g + 1)) := group_desc i 1,
        pa (l1_word t (4 * g + 2)) := group_desc i 2, pa (l1_word t (4 * g + 3)) := group_desc i 3)"

lemma write_group_four:
  assumes "i < RAM_PAGES"
  shows "write_group (pa (l1_word t (4 * g))) (page_addr i) [0, 1, 2, 3] s
    = (Done (), s\<lparr>pmem := with_group t g i (pmem s)\<rparr>)"
proof -
  have "pa (l1_word t (4 * g)) + of_nat k * 4 = pa (l1_word t (4 * g + k))" for k
    by (simp add: pa_def l1_word_def)
  from this [of 0] this [of 1] this [of 2] this [of 3]
    tt_new_group [OF assms, of 0] tt_new_group [OF assms, of 1] tt_new_group [OF assms, of 2] tt_new_group [OF assms, of 3]
  show ?thesis by (simp add: with_group_def del: of_nat_numeral fun_upd_apply)
qed

lemma with_group_l1:
  assumes "t + 2 \<le> RAM_PAGES" and "g < 512" and "v < 2048"
  shows "with_group t g i f (pa (l1_word t v)) = (if v div 4 = g then group_desc i (v mod 4) else f (pa (l1_word t v)))"
proof -
  have p: "pa (l1_word t x) = pa (l1_word t y) \<longleftrightarrow> x = y" if "x < 2048" "y < 2048" for x y
    using pa_inj [OF l1_word_bound [OF assms(1) that(1)] l1_word_bound [OF assms(1) that(2)]] by (simp add: l1_word_inj)
  show ?thesis
  proof (cases "v div 4 = g")
    case True
    have "v = 4 * g + v mod 4" using True by auto
    moreover have "v mod 4 = 0 \<or> v mod 4 = 1 \<or> v mod 4 = 2 \<or> v mod 4 = 3" by linarith
    ultimately consider "v = 4 * g" "v mod 4 = 0" | "v = 4 * g + 1" "v mod 4 = 1"
      | "v = 4 * g + 2" "v mod 4 = 2" | "v = 4 * g + 3" "v mod 4 = 3" by auto
    then show ?thesis
      unfolding if_P [OF True] with_group_def using assms(2) by cases (simp_all add: p)
  next
    case False
    then have "v \<noteq> 4 * g" "v \<noteq> 4 * g + 1" "v \<noteq> 4 * g + 2" "v \<noteq> 4 * g + 3" by auto
    then show ?thesis
      unfolding if_not_P [OF False] with_group_def using assms(2,3) by (simp add: p)
  qed
qed

lemma with_group_other:
  assumes "\<And>k. k < 4 \<Longrightarrow> w \<noteq> pa (l1_word t (4 * g + k))"
  shows "with_group t g i f w = f w"
  using assms [of 0] assms [of 1] assms [of 2] assms [of 3] by (simp add: with_group_def)

lemma pa_page_neq:
  assumes "m div 4096 \<noteq> n div 4096" and "m < 2 ^ 27" and "n < 2 ^ 27"
  shows "pa m \<noteq> pa n"
  using assms pa_inj by metis

lemma page_bound: "n div 4096 < RAM_PAGES \<Longrightarrow> n < 2 ^ 27"
  by (simp add: RAM_PAGES_def div_less_iff_less_mult)

lemma set_words_page:
  assumes "i < RAM_PAGES" and "n < 2 ^ 27"
  shows "set_words (page_addr i) 4096 v f (pa n) = (if n div 4096 = i then v else f (pa n))"
proof -
  have "unat (page_addr i) = 2 ^ 30 + i * 4096"
    using unat_pa [of "i * 4096"] assms(1) by (simp add: page_addr_pa RAM_PAGES_def)
  moreover have "n div 4096 = i \<longleftrightarrow> i * 4096 \<le> n \<and> n < i * 4096 + 4096"
    by (auto simp: div_nat_eqI dest: div_less_iff_less_mult [THEN iffD1])
  ultimately show ?thesis using unat_pa [OF assms(2)] by (simp add: set_words_def)
qed

text \<open>A physical page in one of its two views, and the words of it.\<close>

definition bus_view :: "nat \<Rightarrow> usize \<Rightarrow> bool" where
  "bus_view i phys \<longleftrightarrow> i < RAM_PAGES \<and> (phys = page_addr i \<or> phys = to_plaintext_phys_addr (page_addr i))"

definition on_page :: "usize \<Rightarrow> usize \<Rightarrow> bool" where
  "on_page phys b \<longleftrightarrow> unat b div 4096 = unat phys div 4096"

lemma plain_offset:
  assumes "i < RAM_PAGES"
  shows "unat (0x20000000 + of_nat i * 4096 :: usize) = 2 ^ 29 + i * 4096"
  using assms by (simp add: RAM_PAGES_def unat_word_ariths unsigned_of_nat take_bit_nat_eq_self)

lemma bus_view_div:
  assumes "bus_view i phys"
  shows "i < RAM_PAGES" and "unat phys div 4096 = 2 ^ 18 + i \<or> unat phys div 4096 = 2 ^ 17 + i"
  using assms unat_page_addr [of i] plaintext_page_addr [of i] plain_offset [of i] by (auto simp: bus_view_def)

lemma bus_view_same_page: "bus_view i phys \<Longrightarrow> bus_view j phys' \<Longrightarrow> on_page phys b \<Longrightarrow> on_page phys' b \<Longrightarrow> i = j"
  using bus_view_div [of i phys] bus_view_div [of j phys'] by (auto simp: on_page_def RAM_PAGES_def)

lemma on_page_pa:
  assumes "i < RAM_PAGES" and "n < 2 ^ 27"
  shows "on_page (page_addr i) (pa n) \<longleftrightarrow> n div 4096 = i"
  using assms unat_page_addr [of i] unat_pa [OF assms(2)] by (simp add: on_page_def div_add1_eq [of _ n])

lemma set_words_off_page:
  assumes "bus_view i phys" and "\<not> on_page phys b"
  shows "set_words phys 4096 v f b = f b"
proof -
  have "4096 dvd unat phys"
    using assms(1) unat_page_addr [of i] plaintext_page_addr [of i] plain_offset [of i] by (auto simp: bus_view_def)
  then obtain k where "unat phys = 4096 * k" by (rule dvdE)
  with assms(2) show ?thesis by (auto simp: set_words_def on_page_def)
qed

lemma set_words_on_page:
  assumes "bus_view i phys" and "on_page phys b"
  shows "set_words phys 4096 v f b = v"
proof -
  have "4096 dvd unat phys"
    using assms(1) unat_page_addr [of i] plaintext_page_addr [of i] plain_offset [of i] by (auto simp: bus_view_def)
  then obtain k where k: "unat phys = 4096 * k" by (rule dvdE)
  with assms(2) have "unat b div 4096 = k" by (simp add: on_page_def)
  then have "4096 * k \<le> unat b" "unat b < 4096 * k + 4096" by auto
  with k show ?thesis by (simp add: set_words_def)
qed

text \<open>The pages that processes own, other than those with tables, keep their contents.\<close>

definition data_kept :: "spaces \<Rightarrow> vm \<Rightarrow> vm \<Rightarrow> bool" where
  "data_kept maps s s' \<longleftrightarrow> (\<forall>i phys b. bus_view i phys \<and> allocations (vm_frames s) i \<noteq> None \<and> \<not> table_frame maps s i
     \<and> on_page phys b \<longrightarrow> pmem s' b = pmem s b)"

lemma data_kept_refl: "pmem s' = pmem s \<Longrightarrow> data_kept maps s s'"
  by (simp add: data_kept_def)

lemma data_keptI:
  assumes "\<And>b. pmem s' b \<noteq> pmem s b \<Longrightarrow> \<exists>i phys. bus_view i phys \<and> on_page phys b
      \<and> (allocations (vm_frames s) i = None \<or> table_frame maps s i)"
  shows "data_kept maps s s'"
  unfolding data_kept_def using assms bus_view_same_page by (metis (no_types, lifting))

text \<open>What an operation that only adds tables leaves as it was.\<close>

definition tables_added :: "spaces \<Rightarrow> pid \<Rightarrow> vm \<Rightarrow> vm \<Rightarrow> bool" where
  "tables_added maps p s s' \<longleftrightarrow> wf_vm s' maps
     \<and> (\<forall>q mq b. maps q = Some mq \<longrightarrow> lookup s' mq b = lookup s mq b)
     \<and> (\<forall>q mq b sl. maps q = Some mq \<and> get_l2_slot mq b s = Done sl \<longrightarrow> get_l2_slot mq b s' = Done sl)
     \<and> (\<forall>j. allocations (vm_frames s') j = allocations (vm_frames s) j
          \<or> (allocations (vm_frames s) j = None \<and> allocations (vm_frames s') j = Some p))
     \<and> (\<forall>j. table_frame maps s' j \<longrightarrow> table_frame maps s j \<or> allocations (vm_frames s) j = None)
     \<and> data_kept maps s s'"

lemma tables_added_refl: "wf_vm s maps \<Longrightarrow> tables_added maps p s s"
  by (simp add: tables_added_def data_kept_refl)

text \<open>A new group of tables in a page that nobody owned.\<close>

definition fresh_group :: "vm \<Rightarrow> spaces \<Rightarrow> pid \<Rightarrow> mapping \<Rightarrow> nat \<Rightarrow> (nat \<Rightarrow> nat option) \<Rightarrow> nat \<Rightarrow> nat
    \<Rightarrow> frames \<Rightarrow> (usize \<Rightarrow> u32) \<Rightarrow> bool" where
  "fresh_group s maps p mp t G g i m' f \<longleftrightarrow>
     wf_vm s maps \<and> maps p = Some mp \<and> space_rel s mp t G \<and> g < 512 \<and> G g = None
     \<and> i < RAM_PAGES \<and> allocations (vm_frames s) i = None
     \<and> handed_over i 1 p (vm_frames s) m' \<and> wf_frames m'
     \<and> (\<forall>n < 2 ^ 27. f (pa n) = (if n div 4096 = i then 0 else pmem s (pa n)))
     \<and> (\<forall>b. \<not> on_page (page_addr i) b \<longrightarrow> f b = pmem s b)"

definition grown :: "vm \<Rightarrow> nat \<Rightarrow> nat \<Rightarrow> nat \<Rightarrow> frames \<Rightarrow> (usize \<Rightarrow> u32) \<Rightarrow> vm" where
  "grown s t g i m' f = s\<lparr>vm_frames := m', pmem := with_group t g i f\<rparr>"

lemma fresh_groupD:
  assumes "fresh_group s maps p mp t G g i m' f"
  shows "wf_vm s maps" "maps p = Some mp" "space_rel s mp t G" "g < 512" "G g = None" "i < RAM_PAGES"
    "allocations (vm_frames s) i = None" "handed_over i 1 p (vm_frames s) m'" "wf_frames m'" "map_pid mp = p"
    "allocations m' = (allocations (vm_frames s))(i := Some p)"
    "allocations (vm_frames s) t = Some p" "allocations (vm_frames s) (t + 1) = Some p" "i \<noteq> t" "i \<noteq> t + 1"
    "n < 2 ^ 27 \<Longrightarrow> f (pa n) = (if n div 4096 = i then 0 else pmem s (pa n))"
    "k < 4 \<Longrightarrow> l1_word t (4 * g + k) < 2 ^ 27"
    "k < 4 \<Longrightarrow> l1_word t (4 * g + k) div 4096 = t \<or> l1_word t (4 * g + k) div 4096 = t + 1"
    "\<not> is_kernel mp"
    "\<not> on_page (page_addr i) b \<Longrightarrow> f b = pmem s b"
proof -
  note a = assms [unfolded fresh_group_def]
  show "\<not> on_page (page_addr i) b \<Longrightarrow> f b = pmem s b" using a by blast
  show "wf_vm s maps" "maps p = Some mp" "space_rel s mp t G" "g < 512" "G g = None" "i < RAM_PAGES"
    "allocations (vm_frames s) i = None" "handed_over i 1 p (vm_frames s) m'" "wf_frames m'"
    using a by blast+
  show pid: "map_pid mp = p" using a by (auto simp: wf_vm_def)
  show "allocations m' = (allocations (vm_frames s))(i := Some p)"
    using a by (auto simp: handed_over_def set_range_def fun_eq_iff)
  show tp: "allocations (vm_frames s) t = Some p" "allocations (vm_frames s) (t + 1) = Some p"
    using a pid by (simp_all add: space_rel_def)
  then show "i \<noteq> t" "i \<noteq> t + 1" using a by auto
  show "n < 2 ^ 27 \<Longrightarrow> f (pa n) = (if n div 4096 = i then 0 else pmem s (pa n))" using a by blast
  have d: "space_rel s mp t G" "g < 512" using a by blast+
  show "l1_word t (4 * g + k) < 2 ^ 27" if "k < 4"
    using l1_word_bound [OF space_relD(3) [OF d(1)], of "4 * g + k"] d(2) that by simp
  show "l1_word t (4 * g + k) div 4096 = t \<or> l1_word t (4 * g + k) div 4096 = t + 1" if "k < 4"
    using l1_word_page [of "4 * g + k" t] d(2) that by simp
  show "\<not> is_kernel mp" using space_relD(4) [OF d(1)] .
qed

lemma grown_other:
  assumes F: "fresh_group s maps p mp t G g i m' f"
    and "n div 4096 < RAM_PAGES" and "n div 4096 \<noteq> i" and "\<And>k. k < 4 \<Longrightarrow> n \<noteq> l1_word t (4 * g + k)"
  shows "pmem (grown s t g i m' f) (pa n) = pmem s (pa n)"
proof -
  note d = fresh_groupD [OF F]
  have "with_group t g i f (pa n) = f (pa n)"
    by (rule with_group_other) (metis pa_inj page_bound [OF assms(2)] d(17) assms(4))
  with assms(3) d(16) [OF page_bound [OF assms(2)]] show ?thesis by (simp add: grown_def)
qed

lemma grown_data:
  assumes F: "fresh_group s maps p mp t G g i m' f" and "j < RAM_PAGES" "j \<noteq> i" "j \<noteq> t" "j \<noteq> t + 1"
    and "n div 4096 = j"
  shows "pmem (grown s t g i m' f) (pa n) = pmem s (pa n)"
  using assms fresh_groupD(18) [OF F] by (intro grown_other [OF F]) auto

lemma grown_new:
  assumes F: "fresh_group s maps p mp t G g i m' f" and "n div 4096 = i"
  shows "pmem (grown s t g i m' f) (pa n) = 0"
proof -
  note d = fresh_groupD [OF F]
  have n: "n < 2 ^ 27" using page_bound assms(2) d(6) by simp
  have "n \<noteq> l1_word t (4 * g + k)" if "k < 4" for k
    using d(18) [OF that] assms(2) d(14,15) by auto
  then have "with_group t g i f (pa n) = f (pa n)"
    by (intro with_group_other) (metis pa_inj n d(17))
  then show ?thesis using d(16) [OF n] assms(2) by (simp add: grown_def)
qed

lemma grown_rel:
  assumes F: "fresh_group s maps p mp t G g i m' f"
  shows "space_rel (grown s t g i m' f) mp t (G(g := Some i))"
proof -
  let ?s = "grown s t g i m' f"
  note d = fresh_groupD [OF F] and r = space_relD [OF fresh_groupD(3) [OF F]]
  have "pmem ?s (pa (l1_word t (4 * h + k))) = (case (G(g := Some i)) h of None \<Rightarrow> 0 | Some j \<Rightarrow> group_desc j k)"
    if h: "h < 512" and k: "k < 4" for h k
  proof -
    have v: "4 * h + k < 2048" and vd: "(4 * h + k) div 4 = h" "(4 * h + k) mod 4 = k" using h k by simp_all
    have p: "l1_word t (4 * h + k) div 4096 < RAM_PAGES" "l1_word t (4 * h + k) div 4096 \<noteq> i"
      using l1_word_page [OF v, of t] r(3) d(14,15) by auto
    show ?thesis
      using with_group_l1 [OF r(3) d(4) v, of i f, unfolded vd] r(5) [OF v, unfolded vd]
        d(16) [OF page_bound [OF p(1)]] p(2) by (simp add: grown_def)
  qed
  moreover have "j < RAM_PAGES \<and> j \<noteq> t \<and> j \<noteq> t + 1 \<and> allocations (vm_frames ?s) j = Some (map_pid mp)"
    if "h < 512" "(G(g := Some i)) h = Some j" for h j
    using that r(6) [of h j] d(6,10,14,15) by (auto simp: grown_def d(11) split: if_splits)
  moreover have "h = h'" if "h < 512" "h' < 512" "(G(g := Some i)) h = Some j" "(G(g := Some i)) h' = Some j" for h h' j
    using that r(6) [of _ i] r(7) [of h h' j] d(7) by (auto split: if_splits)
  ultimately show ?thesis
    using d(3,12-15) unfolding space_rel_def by (simp add: grown_def d(10,11))
qed

lemma grown_keep:
  assumes F: "fresh_group s maps p mp t G g i m' f"
    and mq: "maps q = Some mq" "q \<noteq> p" and r': "space_rel s mq t' G'"
  shows "space_rel (grown s t g i m' f) mq t' G'"
  using r'
proof (rule space_rel_mono)
  note d = fresh_groupD [OF F]
  fix v :: nat
  assume v: "v < 2048"
  have q: "map_pid mq = q" using d(1) mq(1) by (auto simp: wf_vm_def)
  have o: "allocations (vm_frames s) (l1_word t' v div 4096) = Some q" "l1_word t' v div 4096 < RAM_PAGES"
    using l1_word_page [OF v, of t'] r' q by (auto simp: space_rel_def)
  have "l1_word t' v \<noteq> l1_word t (4 * g + k)" if "k < 4" for k
    using d(18) [OF that] o(1) d(12,13) mq(2) by auto
  with o d(7) show "pmem (grown s t g i m' f) (pa (l1_word t' v)) = pmem s (pa (l1_word t' v))"
    by (intro grown_other [OF F]) auto
qed (use fresh_groupD(7,11) [OF F] in \<open>auto simp: grown_def\<close>)

lemma grown_slots_other:
  assumes F: "fresh_group s maps p mp t G g i m' f" and mq: "maps q = Some mq" "q \<noteq> p"
  shows "get_l2_slot mq b (grown s t g i m' f) = get_l2_slot mq b s"
    and "lookup (grown s t g i m' f) mq b = lookup s mq b"
proof -
  note d = fresh_groupD [OF F]
  obtain t' G' where r': "space_rel s mq t' G'" "map_pid mq = q" using d(1) mq(1) by (rule wf_vm_space)
  show same: "get_l2_slot mq b (grown s t g i m' f) = get_l2_slot mq b s"
    unfolding get_l2_slot_user [OF grown_keep [OF F mq r'(1)]] get_l2_slot_user [OF r'(1)] ..
  show "lookup (grown s t g i m' f) mq b = lookup s mq b"
  proof (cases "get_l2_slot mq b s")
    case (Done sl)
    from get_l2_slot_Done [OF r'(1) Done] r'(2) mq(2) d(7,12,13)
    obtain j where "sl = \<lparr>sl_ptr = pa (slot_word j b), sl_virt = b\<rparr>" "j < RAM_PAGES" "j \<noteq> i" "j \<noteq> t" "j \<noteq> t + 1"
      by (metis option.inject option.distinct(1))
    with grown_data [OF F, of j "slot_word j b"] Done same slot_word_page show ?thesis
      by (simp add: lookup_def slot_read_def)
  qed (use same in \<open>simp_all add: lookup_def\<close>)
qed

lemma grown_slots_own:
  assumes F: "fresh_group s maps p mp t G g i m' f"
  shows "get_l2_slot mp b s = Done sl \<Longrightarrow> get_l2_slot mp b (grown s t g i m' f) = Done sl"
    and "lookup (grown s t g i m' f) mp b = lookup s mp b"
proof -
  note d = fresh_groupD [OF F] and rel = grown_rel [OF F]
  have old: "get_l2_slot mp b (grown s t g i m' f) = Done sl
      \<and> lookup (grown s t g i m' f) mp b = lookup s mp b" if Done: "get_l2_slot mp b s = Done sl" for sl
  proof -
    from get_l2_slot_Done [OF d(3) Done] d(5,7,10)
    obtain j where j: "user_page b" "G (group_of b) = Some j" "sl = \<lparr>sl_ptr = pa (slot_word j b), sl_virt = b\<rparr>"
      "j < RAM_PAGES" "j \<noteq> i" "j \<noteq> t" "j \<noteq> t + 1"
      by (metis option.inject option.distinct(1))
    then have "group_of b \<noteq> g" using d(5) by auto
    then have "get_l2_slot mp b (grown s t g i m' f) = Done sl"
      using j(1-3) unfolding get_l2_slot_user [OF rel] by (simp add: user_page_def)
    with grown_data [OF F, of j "slot_word j b"] slot_word_page Done j show ?thesis
      by (simp add: lookup_def slot_read_def)
  qed
  then show "get_l2_slot mp b s = Done sl \<Longrightarrow> get_l2_slot mp b (grown s t g i m' f) = Done sl" by blast
  show "lookup (grown s t g i m' f) mp b = lookup s mp b"
  proof (cases "\<exists>sl. get_l2_slot mp b s = Done sl")
    case True
    with old show ?thesis by blast
  next
    case False
    then have "lookup s mp b = L2Empty" by (auto simp: lookup_def split: outcome.splits)
    moreover have "lookup (grown s t g i m' f) mp b = L2Empty"
    proof (cases "get_l2_slot mp b (grown s t g i m' f)")
      case (Done sl)
      from get_l2_slot_Done [OF rel Done]
      obtain j where j: "user_page b" "(G(g := Some i)) (group_of b) = Some j"
        "sl = \<lparr>sl_ptr = pa (slot_word j b), sl_virt = b\<rparr>" by metis
      have "G (group_of b) = None"
        using False j(1) unfolding get_l2_slot_user [OF d(3)] by (cases "G (group_of b)") (auto simp: user_page_def)
      with j(2) have "j = i" by (auto split: if_splits)
      with grown_new [OF F slot_word_page] Done j(3) show ?thesis
        by (simp add: lookup_def slot_read_def entry_from_u32_def)
    qed (simp_all add: lookup_def)
    ultimately show ?thesis by simp
  qed
qed

lemma grown_added:
  assumes F: "fresh_group s maps p mp t G g i m' f"
  shows "tables_added maps p s (grown s t g i m' f)"
proof -
  let ?s = "grown s t g i m' f"
  note d = fresh_groupD [OF F]
  have fr: "vm_frames ?s = m'" by (simp add: grown_def)
  have "page_zero ?s j" if z: "free_pages_zeroed m' j" for j
  proof -
    have z0: "free_pages_zeroed (vm_frames s) j" using zeroed_le_handed_over [OF d(8) z] .
    have j: "j < RAM_PAGES" "allocations (vm_frames s) j = None" "j \<noteq> i"
      using wf_frames_page(1) [OF _ z0] d(1) wf_frames_page(1) [OF d(9) z] by (auto simp: wf_vm_def d(11))
    have "pmem ?s (pa n) = pmem s (pa n)" if "n div 4096 = j" for n
      using that j d(12,13) by (intro grown_data [OF F]) auto
    with z0 d(1) show ?thesis by (simp add: wf_vm_def page_zero_def)
  qed
  moreover have "map_pid mq = q \<and> (\<exists>t G. space_rel ?s mq t G)" if mq: "maps q = Some mq" for q mq
  proof -
    obtain t' G' where r': "space_rel s mq t' G'" "map_pid mq = q" using d(1) mq by (rule wf_vm_space)
    show ?thesis
    proof (cases "q = p")
      case True
      with d(2) mq have "mq = mp" by simp
      with grown_rel [OF F] r'(2) show ?thesis by blast
    next
      case False
      with grown_keep [OF F mq _ r'(1)] r'(2) show ?thesis by blast
    qed
  qed
  ultimately have "wf_vm ?s maps" using d(9) by (simp add: wf_vm_def fr)
  moreover have "lookup ?s mq b = lookup s mq b" "get_l2_slot mq b s = Done sl \<Longrightarrow> get_l2_slot mq b ?s = Done sl"
    if "maps q = Some mq" for q mq b sl
    using grown_slots_own [OF F] grown_slots_other [OF F that] d(2) that by (cases "q = p"; simp)+
  moreover have "table_frame maps s j \<or> allocations (vm_frames s) j = None" if tf: "table_frame maps ?s j" for j
  proof -
    from tf obtain q mq t' G' where e: "maps q = Some mq" "space_rel ?s mq t' G'"
      "j = t' \<or> j = t' + 1 \<or> (\<exists>g < 512. G' g = Some j)" unfolding table_frame_def by blast
    show ?thesis
    proof (cases "q = p")
      case True
      then have "mq = mp" using e(1) d(2) by simp
      note u = space_rel_unique [OF grown_rel [OF F] e(2) [unfolded this]]
      from e(3) have "j = t \<or> j = t + 1 \<or> (\<exists>h < 512. (G(g := Some i)) h = Some j)" using u by metis
      then have "j = t \<or> j = t + 1 \<or> j = i \<or> (\<exists>h < 512. G h = Some j)" by (auto split: if_splits)
      then show ?thesis
      proof (cases "j = i")
        case False
        with \<open>j = t \<or> j = t + 1 \<or> j = i \<or> (\<exists>h < 512. G h = Some j)\<close> d(2,3) show ?thesis
          unfolding table_frame_def by blast
      qed (use d(7) in simp)
    next
      case False
      obtain t2 G2 where r2: "space_rel s mq t2 G2" using d(1) e(1) by (rule wf_vm_space)
      note u = space_rel_unique [OF grown_keep [OF F e(1) False r2] e(2)]
      from e(3) have "j = t2 \<or> j = t2 + 1 \<or> (\<exists>h < 512. G2 h = Some j)" using u by metis
      with e(1) r2 show ?thesis unfolding table_frame_def by blast
    qed
  qed
  moreover have "data_kept maps s ?s"
  proof (rule data_keptI)
    fix b assume b: "pmem ?s b \<noteq> pmem s b"
    have views: "bus_view j (page_addr j)" if "j < RAM_PAGES" for j using that by (simp add: bus_view_def)
    show "\<exists>j phys. bus_view j phys \<and> on_page phys b \<and> (allocations (vm_frames s) j = None \<or> table_frame maps s j)"
    proof (cases "\<exists>k < 4. b = pa (l1_word t (4 * g + k))")
      case True
      then obtain k where k: "k < 4" "b = pa (l1_word t (4 * g + k))" by blast
      let ?j = "l1_word t (4 * g + k) div 4096"
      have j: "?j = t \<or> ?j = t + 1" by (rule d(18) [OF k(1)])
      then have "table_frame maps s ?j" using d(2,3) unfolding table_frame_def by blast
      moreover have "?j < RAM_PAGES" using j space_relD(3) [OF d(3)] by auto
      moreover have "on_page (page_addr ?j) b" using on_page_pa [OF calculation(2) d(17) [OF k(1)]] k(2) by simp
      ultimately show ?thesis using views by blast
    next
      case False
      then have "with_group t g i f b = f b" by (intro with_group_other) auto
      then have "on_page (page_addr i) b" using b d(20) [of b] by (auto simp: grown_def)
      with views [OF d(6)] d(7) show ?thesis by blast
    qed
  qed
  ultimately show ?thesis
    using d(7) by (auto simp: tables_added_def fr d(11))
qed

lemma page_desc_slot:
  assumes "i < RAM_PAGES"
  shows "is_address_encrypted (pa (i * 4096 + translation_table_index a mod 4 * 1024))"
    and "l2_slot_at (pa (i * 4096 + translation_table_index a mod 4 * 1024)) a = \<lparr>sl_ptr = pa (slot_word i a), sl_virt = a\<rparr>"
proof -
  have "translation_table_index a mod 4 < 4" by simp
  from pa_encrypted [OF group_base(1) [OF assms this]]
  show "is_address_encrypted (pa (i * 4096 + translation_table_index a mod 4 * 1024))" .
  show "l2_slot_at (pa (i * 4096 + translation_table_index a mod 4 * 1024)) a = \<lparr>sl_ptr = pa (slot_word i a), sl_virt = a\<rparr>"
    by (simp add: l2_slot_at_def pa_def slot_word_def l2_word_def)
qed

text \<open>The page for a new group: handed over to the process, and cleared if the allocator did not promise it.\<close>

lemma fresh_page:
  assumes wf: "wf_vm s maps" and mp: "maps p = Some mp" and r: "space_rel s mp t G"
    and g: "g < 512" "G g = None"
    and al: "alloc_single_page p (vm_frames s) = (Done (phys, zeroed), m')"
  obtains i f where "phys = page_addr i" "fresh_group s maps p mp t G g i m' f"
    "(if \<not> zeroed then zero_newly_allocated_tt_pages phys 1 (s\<lparr>vm_frames := m'\<rparr>) else (Done (), s\<lparr>vm_frames := m'\<rparr>))
      = (Done (), s\<lparr>vm_frames := m', pmem := f\<rparr>)"
proof -
  have wff: "wf_frames (vm_frames s)" using wf by (simp add: wf_vm_def)
  from wff al show ?thesis
  proof (cases rule: alloc_single_page_spec)
    case 1
    then show ?thesis by simp
  next
    case (2 i)
    let ?f = "if zeroed then pmem s else set_words (page_addr i) 4096 0 (pmem s)"
    have ph: "phys = page_addr i" "zeroed = free_pages_zeroed (vm_frames s) i" using 2(1) by simp_all
    have free: "allocations (vm_frames s) i = None"
      using free_run_unowned(1) [OF wff 2(3)] by (auto simp: unowned_def)
    have "?f (pa n) = (if n div 4096 = i then 0 else pmem s (pa n))" if "n < 2 ^ 27" for n
      using that set_words_page [OF 2(2) that] wf ph(2) by (auto simp: wf_vm_def page_zero_def)
    moreover have "?f b = pmem s b" if "\<not> on_page (page_addr i) b" for b
      using set_words_off_page [of i "page_addr i" b] that 2(2) by (simp add: bus_view_def)
    ultimately have F: "fresh_group s maps p mp t G g i m' ?f"
      using wf mp r g 2 free wf_handed_over [OF wff 2(3,4)] by (simp add: fresh_group_def)
    have "is_address_encrypted phys" using page_addr_encrypted [OF 2(2)] ph(1) by simp
    then have "(if \<not> zeroed then zero_newly_allocated_tt_pages phys 1 (s\<lparr>vm_frames := m'\<rparr>) else (Done (), s\<lparr>vm_frames := m'\<rparr>))
        = (Done (), s\<lparr>vm_frames := m', pmem := ?f\<rparr>)"
      by (cases zeroed) (simp_all add: zero_newly_allocated_tt_pages_def transparent_def ph(1))
    from that [OF ph(1) F this] show ?thesis .
  qed
qed

definition slot_allocated :: "spaces \<Rightarrow> pid \<Rightarrow> mapping \<Rightarrow> usize \<Rightarrow> vm \<Rightarrow> l2_slot res \<Rightarrow> vm \<Rightarrow> bool" where
  "slot_allocated maps p mp a s r s' \<longleftrightarrow> tables_added maps p s s' \<and>
     (case r of
        Done sl \<Rightarrow> user_page a \<and> lookup s mp a = L2Empty \<and> get_l2_slot mp a s' = Done sl
      | Fail e \<Rightarrow> (e = BadAlignment \<and> a AND 0xfff \<noteq> 0) \<or> (e = AccessDenied \<and> \<not> user_page a)
          \<or> (e = MemoryInUse \<and> lookup s mp a \<noteq> L2Empty) \<or> e = OutOfMemory
      | Panic \<Rightarrow> False)"

lemma allocate_l2_slot_existing:
  assumes rel: "space_rel s mp t G" and user: "user_page a" and Some: "G (group_of a) = Some i"
  shows "get_l2_slot mp a s = Done \<lparr>sl_ptr = pa (slot_word i a), sl_virt = a\<rparr>"
    and "allocate_l2_slot mp a s
      = (if lookup s mp a = L2Empty then Done \<lparr>sl_ptr = pa (slot_word i a), sl_virt = a\<rparr> else Fail MemoryInUse, s)"
proof -
  let ?v = "translation_table_index a"
  have v: "?v < 2048" using user by (simp add: user_page_def L1_USER_PAGE_TABLE_ENTRIES_def)
  note g = user_page_group [OF user] and d = space_relD [OF rel]
  have i: "i < RAM_PAGES" using d(6) [OF g Some] by blast
  show slot: "get_l2_slot mp a s = Done \<lparr>sl_ptr = pa (slot_word i a), sl_virt = a\<rparr>"
    using Some user unfolding get_l2_slot_user [OF rel] by (simp add: user_page_def)
  have desc: "pmem s (pa (l1_word t ?v)) = group_desc i (?v mod 4)"
    using d(5) [OF v] Some by (simp add: group_of_def)
  show "allocate_l2_slot mp a s
      = (if lookup s mp a = L2Empty then Done \<lparr>sl_ptr = pa (slot_word i a), sl_virt = a\<rparr> else Fail MemoryInUse, s)"
    using user [unfolded user_page_def] l1_entry_ptr_user [OF rel v] d(4)
      group_desc_type(1,2) [OF i, of "?v mod 4"] page_desc_slot [OF i, of a]
    by (simp add: allocate_l2_slot_def desc transparent_def is_empty_def lookup_slot [OF slot] Let_def not_le seq_def)
qed

lemma allocate_l2_slot_spec:
  assumes wf: "wf_vm s maps" and mp: "maps p = Some mp" and run: "allocate_l2_slot mp a s = (r, s')"
  shows "slot_allocated maps p mp a s r s'"
proof (cases "user_page a")
  case False
  obtain t G where "space_rel s mp t G" using wf mp by (rule wf_vm_space)
  from space_relD(4) [OF this] False run
  have "s' = s \<and> (r = Fail BadAlignment \<and> a AND 0xfff \<noteq> 0 \<or> r = Fail AccessDenied \<and> \<not> user_page a)"
    by (cases "a AND 0xfff = 0") (simp_all add: allocate_l2_slot_def user_page_def Let_def not_less)
  with tables_added_refl [OF wf] show ?thesis by (auto simp: slot_allocated_def)
next
  case True
  obtain t G where rel: "space_rel s mp t G" and pid: "map_pid mp = p" using wf mp by (rule wf_vm_space)
  let ?v = "translation_table_index a"
  have v: "?v < 2048" using True by (simp add: user_page_def L1_USER_PAGE_TABLE_ENTRIES_def)
  note g = user_page_group [OF True] and d = space_relD [OF rel]
  note guards = True [unfolded user_page_def] l1_entry_ptr_user [OF rel v] d(4)
  show ?thesis
  proof (cases "G (group_of a)")
    case (Some i)
    from allocate_l2_slot_existing [OF rel True Some] run True tables_added_refl [OF wf] show ?thesis
      by (auto simp: slot_allocated_def split: if_splits)
  next
    case None
    have desc: "pmem s (pa (l1_word t ?v)) = 0"
      using d(5) [OF v] None by (simp add: group_of_def)
    have empty: "lookup s mp a = L2Empty"
      using None True unfolding lookup_def get_l2_slot_user [OF rel] by (simp add: user_page_def)
    obtain r1 m1 where al: "alloc_single_page p (vm_frames s) = (r1, m1)" by fastforce
    have wff: "wf_frames (vm_frames s)" using wf by (simp add: wf_vm_def)
    show ?thesis
    proof (cases r1)
      case (Done x)
      obtain phys z where x: "x = (phys, z)" by (cases x)
      obtain i f where F: "phys = page_addr i" "fresh_group s maps p mp t G (group_of a) i m1 f"
        "(if \<not> z then zero_newly_allocated_tt_pages phys 1 (s\<lparr>vm_frames := m1\<rparr>) else (Done (), s\<lparr>vm_frames := m1\<rparr>))
          = (Done (), s\<lparr>vm_frames := m1, pmem := f\<rparr>)"
        using fresh_page [OF wf mp rel g None al [unfolded Done x]] by blast
      note i = fresh_groupD(6) [OF F(2)]
      let ?s = "grown s t (group_of a) i m1 f"
      have w: "write_group (ttbr0 mp + of_nat (4 * (?v div 4)) * 4) (page_addr i) [0, 1, 2, 3] (s\<lparr>vm_frames := m1, pmem := f\<rparr>)
          = (Done (), ?s)"
      proof -
        have "ttbr0 mp + of_nat (4 * (?v div 4)) * 4 = pa (l1_word t (4 * group_of a))"
          using d(2) by (simp add: page_addr_pa pa_def l1_word_def group_of_def)
        with write_group_four [OF i] show ?thesis by (simp add: grown_def)
      qed
      have slot: "get_l2_slot mp a ?s = Done \<lparr>sl_ptr = pa (slot_word i a), sl_virt = a\<rparr>"
        using True unfolding get_l2_slot_user [OF grown_rel [OF F(2)]] by (simp add: user_page_def)
      have "page_addr i + of_nat (?v mod 4) * L2_TABLE_BYTES = pa (i * 4096 + ?v mod 4 * 1024)"
        by (simp add: page_addr_pa pa_def L2_TABLE_BYTES_def)
      then have "s' = ?s \<and> r = Done \<lparr>sl_ptr = pa (slot_word i a), sl_virt = a\<rparr>"
        using run guards page_desc_slot [OF i, of a] al Done x F(1) F(3) [unfolded F(1)] w empty
          lookup_slot [OF slot] grown_slots_own(2) [OF F(2), of a]
        by (simp add: allocate_l2_slot_def desc tt_type_of_def on_frames_def pid transparent_def is_empty_def Let_def not_le
            del: write_group.simps split del: if_split)
      with slot True empty grown_added [OF F(2)] show ?thesis by (simp add: slot_allocated_def)
    next
      case (Fail e)
      from wff al [unfolded Fail] have "e = OutOfMemory \<and> m1 = vm_frames s"
        by (cases rule: alloc_single_page_spec) simp_all
      then have "s' = s \<and> r = Fail OutOfMemory"
        using run guards al Fail by (simp add: allocate_l2_slot_def desc tt_type_of_def on_frames_def pid Let_def not_le)
      with tables_added_refl [OF wf] show ?thesis by (simp add: slot_allocated_def)
    next
      case Panic
      from wff al [unfolded Panic] show ?thesis by (cases rule: alloc_single_page_spec) simp_all
    qed
  qed
qed

end
