(* ===== verification/Address_Spaces.thy ===== *)
theory Address_Spaces
  imports Page_Tables
begin

unbundle bit_operations_syntax

text \<open>
  The operations of an address space on one page (\<open>MemoryMapping\<close> of
  \<open>xous/kernel/src/arch/arm/mem.rs\<close>): mapping, unmapping, moving, lending and returning a page,
  dropping a lent one, and backing a page on demand. The lemmas show that together the page tables
  implement one finite map per process from pages to entries, and that each operation is an update
  of that map.
\<close>

section \<open>Operations on pages\<close>

definition map_page :: "mapping \<Rightarrow> usize \<Rightarrow> usize \<Rightarrow> memory_flags \<Rightarrow> bool \<Rightarrow> vm \<Rightarrow> unit res \<times> vm" where
  "map_page mp phys virt flags map_user s =
     (if is_set flags (flags_or MF_W MF_X) then (Panic, s)
      else seq (if phys \<noteq> 0 then new_mapped virt phys flags map_user else new_on_demand phys flags map_user, s)
        (\<lambda>e s1. seq (allocate_l2_slot mp virt s1) (\<lambda>sl s2. (Done (), slot_write sl e s2))))"

definition unmap_page :: "mapping \<Rightarrow> usize \<Rightarrow> vm \<Rightarrow> unit res \<times> vm" where
  "unmap_page mp virt s =
     seq (get_l2_slot mp virt s, s) (\<lambda>sl s1.
       let e = slot_read sl s1 in
       if is_empty e \<or> is_shared e then (Fail BadAddress, s1) else (Done (), slot_write sl L2Empty s1))"

text \<open>
  The page that backs an on-demand entry is cleared through the new mapping when the allocator
  did not promise zeroes; through the plaintext view this leaves data in the encrypted view that
  no table walk reads.
\<close>

definition clear_page :: "usize \<Rightarrow> vm \<Rightarrow> vm" where
  "clear_page phys s = s\<lparr>pmem := set_words phys 4096 0 (pmem s)\<rparr>"

definition allocate_backing_page :: "mapping \<Rightarrow> l2_slot \<Rightarrow> l2_entry \<Rightarrow> vm \<Rightarrow> unit res \<times> vm" where
  "allocate_backing_page mp sl e s =
     seq (entry_flags e, s) (\<lambda>flags s0.
       if \<not> is_set flags MF_W then (Fail AccessDenied, s0)
       else seq (on_frames (alloc_single_page (map_pid mp)) s0) (\<lambda>(page, zeroed) s1.
         let bus = is_set flags PLAINTEXT \<or> is_set flags NO_CACHE \<or> is_set flags DEV;
             phys = (if bus then to_plaintext_phys_addr page else page) in
         seq (with_phys e phys, s1) (\<lambda>e1 s2.
           seq (to_mapped e1 (sl_virt sl), s2) (\<lambda>e2 s3.
             let s4 = slot_write sl e2 s3 in
             (Done (), if \<not> zeroed \<or> bus then clear_page phys s4 else s4)))))"

definition ensure_backed :: "mapping \<Rightarrow> usize \<Rightarrow> vm \<Rightarrow> unit res \<times> vm" where
  "ensure_backed mp virt s =
     seq (get_l2_slot mp virt s, s) (\<lambda>sl s1.
       let e = slot_read sl s1 in
       if is_mapped e then (Done (), s1)
       else if is_empty e then (Fail BadAddress, s1)
       else if \<not> is_on_demand e then (Fail MemoryInUse, s1)
       else allocate_backing_page mp sl e s1)"

text \<open>The first steps of moving and of lending: the source entry, backed if it was not.\<close>

definition source_entry :: "mapping \<Rightarrow> usize \<Rightarrow> vm \<Rightarrow> (l2_slot \<times> l2_entry) res \<times> vm" where
  "source_entry mp src s =
     seq (get_l2_slot mp src s, s) (\<lambda>sl s1.
       let e = slot_read sl s1 in
       if \<not> is_kernel mp \<and> \<not> is_user_accessible e then (Fail AccessDenied, s1)
       else if is_on_demand e
       then seq (allocate_backing_page mp sl e s1) (\<lambda>_ s2. (Done (sl, slot_read sl s2), s2))
       else (Done (sl, e), s1))"

definition space_move_page :: "mapping \<Rightarrow> usize \<Rightarrow> mapping \<Rightarrow> usize \<Rightarrow> vm \<Rightarrow> usize res \<times> vm" where
  "space_move_page mp src mp' dest s =
     seq (source_entry mp src s) (\<lambda>(sl, e) s1.
       seq (if is_mapped e then Done 0 else entry_phys e, s1) (\<lambda>phys s2.
         if \<not> is_mapped e \<and> phys \<noteq> 0 then (Fail BadAddress, s2)
         else seq (allocate_l2_slot mp' dest s2) (\<lambda>dl s3.
           (entry_phys e, slot_write dl e (slot_write sl L2Empty s3)))))"

definition space_lend_page ::
    "mapping \<Rightarrow> usize \<Rightarrow> mapping \<Rightarrow> usize \<Rightarrow> bool \<Rightarrow> vm \<Rightarrow> usize res \<times> vm" where
  "space_lend_page mp src mp' dest mutable s =
     seq (source_entry mp src s) (\<lambda>(sl, e) s1.
       if \<not> is_mapped e then (Fail BadAddress, s1)
       else seq (allocate_l2_slot mp' dest s1) (\<lambda>dl s2.
         seq (to_unmapped e, s2) (\<lambda>shared s3.
           let s4 = slot_write sl shared s3 in
           seq (if \<not> mutable then to_immutable e else Done e, s4) (\<lambda>new s5.
             (entry_phys e, slot_write dl new s5)))))"

definition space_return_page :: "mapping \<Rightarrow> usize \<Rightarrow> mapping \<Rightarrow> usize \<Rightarrow> vm \<Rightarrow> usize res \<times> vm" where
  "space_return_page mp src mp' dest s =
     seq (get_l2_slot mp src s, s) (\<lambda>sl s1.
       seq (get_l2_slot mp' dest s1, s1) (\<lambda>dl s2.
         let e = slot_read sl s2; d = slot_read dl s2 in
         seq (entry_phys e, s2) (\<lambda>p s3.
           seq (entry_phys d, s3) (\<lambda>q s4.
             if p \<noteq> q then (Fail ShareViolation, s4)
             else (let s5 = slot_write sl L2Empty s4 in
               seq (to_mapped d dest, s5) (\<lambda>back s6. (entry_phys d, slot_write dl back s6)))))))"

datatype clear_shared_mode = ClearOnDemand | ClearFree

definition clear_shared :: "mapping \<Rightarrow> usize \<Rightarrow> clear_shared_mode \<Rightarrow> vm \<Rightarrow> unit res \<times> vm" where
  "clear_shared mp addr mode s =
     seq (get_l2_slot mp addr s, s) (\<lambda>sl s1.
       let e = slot_read sl s1 in
       if \<not> is_shared e then (Done (), s1)
       else case mode of
         ClearFree \<Rightarrow> (Done (), slot_write sl L2Empty s1)
       | ClearOnDemand \<Rightarrow> seq (with_phys e 0, s1) (\<lambda>e' s2. (Done (), slot_write sl e' s2)))"

definition virt_to_phys :: "mapping \<Rightarrow> usize \<Rightarrow> vm \<Rightarrow> usize res" where
  "virt_to_phys mp virt s =
     (case get_l2_slot mp virt s of
        Fail _ \<Rightarrow> Fail BadAddress
      | Panic \<Rightarrow> Panic
      | Done sl \<Rightarrow>
          (let e = slot_read sl s in
           if is_mapped e then entry_phys e
           else if is_empty e then Fail BadAddress
           else if is_shared e then Fail ShareViolation
           else Fail MemoryInUse))"

definition address_user_accessible :: "mapping \<Rightarrow> usize \<Rightarrow> vm \<Rightarrow> bool" where
  "address_user_accessible mp virt s =
     (case get_l2_slot mp virt s of Done sl \<Rightarrow> is_user_accessible (slot_read sl s) | _ \<Rightarrow> False)"

definition address_executable :: "mapping \<Rightarrow> usize \<Rightarrow> vm \<Rightarrow> bool" where
  "address_executable mp virt s =
     (case get_l2_slot mp virt s of
        Done sl \<Rightarrow>
          (let e = slot_read sl s in
           is_mapped e \<and> (case entry_flags e of Done f \<Rightarrow> is_set f MF_X | _ \<Rightarrow> False))
      | _ \<Rightarrow> False)"

section \<open>The map of all processes\<close>

type_synonym view = "pid \<Rightarrow> usize \<Rightarrow> l2_entry"

definition view_of :: "spaces \<Rightarrow> vm \<Rightarrow> view" where
  "view_of maps s = (\<lambda>p a. case maps p of None \<Rightarrow> L2Empty | Some mp \<Rightarrow> lookup s mp a)"

definition upd :: "view \<Rightarrow> pid \<Rightarrow> usize \<Rightarrow> l2_entry \<Rightarrow> view" where
  "upd v p a e = v(p := (v p)(a := e))"

lemma upd_apply [simp]: "upd v p a e q b = (if q = p \<and> b = a then e else v q b)"
  by (simp add: upd_def)

lemma upd_same [simp]: "upd (upd v p a e) p a e' = upd v p a e'" and upd_id [simp]: "upd v p a (v p a) = v"
  by (simp_all add: upd_def)

text \<open>What every operation keeps: the tables, the slots they hold, the owners of owned pages and their contents.\<close>

definition keeps :: "spaces \<Rightarrow> vm \<Rightarrow> vm \<Rightarrow> bool" where
  "keeps maps s s' \<longleftrightarrow> wf_vm s' maps
     \<and> (\<forall>q mq b sl. maps q = Some mq \<and> get_l2_slot mq b s = Done sl \<longrightarrow> get_l2_slot mq b s' = Done sl)
     \<and> (\<forall>j. allocations (vm_frames s) j \<noteq> None \<longrightarrow> allocations (vm_frames s') j = allocations (vm_frames s) j)
     \<and> (\<forall>j. table_frame maps s' j \<longrightarrow> table_frame maps s j \<or> allocations (vm_frames s) j = None)
     \<and> data_kept maps s s'"

text \<open>
  The pages a process got in a step, other than those for tables, in a view in which they read as
  zero.
\<close>

definition reads_zero :: "usize \<Rightarrow> vm \<Rightarrow> bool" where
  "reads_zero phys s \<longleftrightarrow> (\<forall>b. on_page phys b \<longrightarrow> pmem s b = 0)"

definition new_frames :: "spaces \<Rightarrow> pid \<Rightarrow> vm \<Rightarrow> vm \<Rightarrow> (nat \<times> usize) set" where
  "new_frames maps p s s' = {(i, phys). allocations (vm_frames s) i = None \<and> allocations (vm_frames s') i = Some p
     \<and> \<not> table_frame maps s' i \<and> bus_view i phys \<and> reads_zero phys s'}"

lemma new_frames_mono:
  assumes "keeps maps s1 s2" and "x \<in> new_frames maps p s s1"
  shows "x \<in> new_frames maps p s s2"
proof -
  obtain i phys where x: "x = (i, phys)" by (cases x)
  with assms(2) have i: "allocations (vm_frames s) i = None" "allocations (vm_frames s1) i = Some p" "\<not> table_frame maps s1 i"
    "bus_view i phys" "reads_zero phys s1"
    by (simp_all add: new_frames_def)
  with assms(1) have "allocations (vm_frames s2) i = Some p" "\<not> table_frame maps s2 i" "data_kept maps s1 s2"
    unfolding keeps_def by force+
  moreover have "reads_zero phys s2"
    using calculation(3) i(2-5) unfolding data_kept_def reads_zero_def by (metis option.distinct(1))
  ultimately show ?thesis using i(1,4) by (simp add: x new_frames_def)
qed

lemma keepsD:
  assumes "keeps maps s s'"
  shows "wf_vm s' maps" "maps q = Some mq \<Longrightarrow> get_l2_slot mq b s = Done sl \<Longrightarrow> get_l2_slot mq b s' = Done sl"
  using assms unfolding keeps_def by blast+

lemma keeps_refl: "wf_vm s maps \<Longrightarrow> keeps maps s s"
  by (simp add: keeps_def data_kept_refl)

lemma keeps_trans:
  assumes "keeps maps s s'" and "keeps maps s' s''"
  shows "keeps maps s s''"
proof -
  have "data_kept maps s s''"
    unfolding data_kept_def
  proof (intro allI impI, elim conjE)
    fix i phys b
    assume i: "bus_view i phys" "allocations (vm_frames s) i \<noteq> None" "\<not> table_frame maps s i" "on_page phys b"
    then have "allocations (vm_frames s') i \<noteq> None" "\<not> table_frame maps s' i" using assms(1) unfolding keeps_def by metis+
    with assms i show "pmem s'' b = pmem s b" unfolding keeps_def data_kept_def by metis
  qed
  with assms show ?thesis unfolding keeps_def by (metis (no_types, lifting))
qed

lemma keeps_tables: "tables_added maps p s s' \<Longrightarrow> keeps maps s s'"
  unfolding tables_added_def keeps_def by (metis option.distinct(1))

lemma view_tables: "tables_added maps p s s' \<Longrightarrow> view_of maps s' = view_of maps s"
  by (auto simp: tables_added_def view_of_def fun_eq_iff split: option.splits)

lemma view_at: "maps p = Some mp \<Longrightarrow> view_of maps s p a = lookup s mp a"
  by (simp add: view_of_def)

lemma slot_write_view:
  assumes "wf_vm s maps" and "maps p = Some mp" and "get_l2_slot mp a s = Done sl"
    and "entry_from_u32 (entry_as_u32 e) = e"
  shows "keeps maps s (slot_write sl e s)" and "view_of maps (slot_write sl e s) = upd (view_of maps s) p a e"
    and "table_frame maps (slot_write sl e s) i \<Longrightarrow> table_frame maps s i"
    and "vm_frames (slot_write sl e s) = vm_frames s"
proof -
  note w = slot_write_spec [OF assms]
  show fr: "vm_frames (slot_write sl e s) = vm_frames s" by (simp add: slot_write_def)
  show tf: "table_frame maps (slot_write sl e s) i \<Longrightarrow> table_frame maps s i" for i
    using table_frame_cong [of s maps "slot_write sl e s" i, OF assms(1)] w(4) by blast
  have "data_kept maps s (slot_write sl e s)"
  proof (rule data_keptI)
    fix b assume b: "pmem (slot_write sl e s) b \<noteq> pmem s b"
    obtain t G where rel: "space_rel s mp t G" using assms(1,2) by (rule wf_vm_space)
    from get_l2_slot_Done [OF rel assms(3)] obtain j where j: "user_page a" "G (group_of a) = Some j"
      "sl = \<lparr>sl_ptr = pa (slot_word j a), sl_virt = a\<rparr>" "j < RAM_PAGES" by metis
    have "b = pa (slot_word j a)" using b j(3) by (simp add: slot_write_def split: if_splits)
    then have "on_page (page_addr j) b" using on_page_pa [OF j(4) slot_word_bound [OF j(4)]] slot_word_page by simp
    moreover have "table_frame maps s j"
      using assms(2) rel j(2) user_page_group [OF j(1)] unfolding table_frame_def by blast
    ultimately show "\<exists>i phys. bus_view i phys \<and> on_page phys b \<and> (allocations (vm_frames s) i = None \<or> table_frame maps s i)"
      using j(4) by (auto simp: bus_view_def)
  qed
  with fr w(1,2) tf show "keeps maps s (slot_write sl e s)" unfolding keeps_def by (metis (no_types, lifting))
  show "view_of maps (slot_write sl e s) = upd (view_of maps s) p a e"
    using w(3) assms(2) by (auto simp: view_of_def fun_eq_iff split: option.splits)
qed

lemma slot_read_view:
  "maps p = Some mp \<Longrightarrow> get_l2_slot mp a s = Done sl \<Longrightarrow> slot_read sl s = view_of maps s p a"
  by (simp add: view_at lookup_slot)

lemma no_slot_view:
  "maps p = Some mp \<Longrightarrow> get_l2_slot mp a s = Fail e \<Longrightarrow> view_of maps s p a = L2Empty"
  by (simp add: view_at lookup_def)

section \<open>A page that backs an entry\<close>

lemma new_data_page:
  assumes wf: "wf_vm s maps" and h: "handed_over i 1 p (vm_frames s) m'" "wf_frames m'"
    and i: "i < RAM_PAGES" "allocations (vm_frames s) i = None"
    and view: "bus_view i phys" and f0: "\<And>b. \<not> on_page phys b \<Longrightarrow> f b = pmem s b"
  shows "keeps maps s (s\<lparr>vm_frames := m', pmem := f\<rparr>)" (is "keeps maps s ?s")
    and "view_of maps (s\<lparr>vm_frames := m', pmem := f\<rparr>) = view_of maps s"
    and "\<not> table_frame maps (s\<lparr>vm_frames := m', pmem := f\<rparr>) i" and "allocations m' i = Some p"
proof -
  have al: "allocations m' = (allocations (vm_frames s))(i := Some p)"
    using h(1) by (auto simp: handed_over_def set_range_def fun_eq_iff)
  have f: "f (pa n) = pmem s (pa n)" if "n < 2 ^ 27" "n div 4096 \<noteq> i" for n
  proof (rule f0, rule notI)
    assume "on_page phys (pa n)"
    moreover have "on_page (page_addr (n div 4096)) (pa n)" "bus_view (n div 4096) (page_addr (n div 4096))"
      using on_page_pa [of "n div 4096" n] that(1) by (auto simp: bus_view_def RAM_PAGES_def)
    ultimately show False using bus_view_same_page [OF view] that(2) by blast
  qed
  have same: "f (pa n) = pmem s (pa n)" if "n div 4096 < RAM_PAGES" "allocations (vm_frames s) (n div 4096) \<noteq> None" for n
  proof -
    have "n div 4096 \<noteq> i" using that(2) i(2) by metis
    with f page_bound [OF that(1)] show ?thesis by blast
  qed
  have rel: "space_rel ?s mq t G" if "space_rel s mq t G" for mq t G
    using that
  proof (rule space_rel_mono)
    fix v :: nat
    assume "v < 2048"
    from l1_word_page [OF this, of t] that
    have "l1_word t v div 4096 < RAM_PAGES \<and> allocations (vm_frames s) (l1_word t v div 4096) \<noteq> None"
      by (auto simp: space_rel_def)
    with same show "pmem ?s (pa (l1_word t v)) = pmem s (pa (l1_word t v))" by simp
  qed (use i(2) al in auto)
  have slots: "get_l2_slot mq b ?s = get_l2_slot mq b s" "lookup ?s mq b = lookup s mq b" if "maps q = Some mq" for q mq b
  proof -
    obtain t G where r: "space_rel s mq t G" using wf \<open>maps q = Some mq\<close> by (rule wf_vm_space)
    show 1: "get_l2_slot mq b ?s = get_l2_slot mq b s"
      unfolding get_l2_slot_user [OF r] get_l2_slot_user [OF rel [OF r]] ..
    show "lookup ?s mq b = lookup s mq b"
    proof (cases "get_l2_slot mq b s")
      case (Done sl)
      from get_l2_slot_Done [OF r Done] obtain j where "sl = \<lparr>sl_ptr = pa (slot_word j b), sl_virt = b\<rparr>" "j < RAM_PAGES"
        "allocations (vm_frames s) j = Some (map_pid mq)" by metis
      with same [of "slot_word j b"] Done 1 show ?thesis by (simp add: lookup_def slot_read_def slot_word_page)
    qed (use 1 in \<open>simp_all add: lookup_def\<close>)
  qed
  have "page_zero ?s j" if z: "free_pages_zeroed m' j" for j
  proof -
    have z0: "free_pages_zeroed (vm_frames s) j" using zeroed_le_handed_over [OF h(1) z] .
    have j: "j < RAM_PAGES" "j \<noteq> i" using wf_frames_page(1) [OF h(2) z] by (auto simp: al)
    have "f (pa n) = pmem s (pa n)" if "n div 4096 = j" for n
      using f [OF page_bound] that j by simp
    with z0 wf show ?thesis by (simp add: wf_vm_def page_zero_def)
  qed
  moreover have "\<exists>t G. space_rel ?s mq t G" if "maps q = Some mq" for q mq
    using wf_vm_space [OF wf that] rel by metis
  ultimately have "wf_vm ?s maps" using wf h(2) by (auto simp: wf_vm_def)
  moreover have tf: "table_frame maps s j" if "table_frame maps ?s j" for j
    using wf rel that by (rule table_frame_cong)
  moreover have "data_kept maps s ?s"
  proof (rule data_keptI)
    fix b assume "pmem ?s b \<noteq> pmem s b"
    with f0 view i(2) show "\<exists>j phys. bus_view j phys \<and> on_page phys b \<and> (allocations (vm_frames s) j = None \<or> table_frame maps s j)"
      by auto
  qed
  ultimately show "keeps maps s ?s" using slots(1) i(2) by (auto simp: keeps_def al)
  show "\<not> table_frame maps ?s i" using tf table_frame_owned [OF wf] i(2) by metis
  show "allocations m' i = Some p" by (simp add: al)
  show "view_of maps ?s = view_of maps s"
    using slots(2) by (auto simp: view_of_def fun_eq_iff split: option.splits)
qed

section \<open>Backing a page on demand\<close>

lemma bus_view_page:
  assumes "bus_view i phys"
  shows "phys AND 0xfff = 0" and "phys \<noteq> 0"
proof -
  have i: "i < RAM_PAGES" and phys: "unat phys = 2 ^ 30 + i * 4096 \<or> unat phys = 2 ^ 29 + i * 4096"
    using assms unat_page_addr [of i] plaintext_page_addr [of i] plain_offset [of i]
    by (auto simp: bus_view_def)
  have "unat phys mod 2 ^ 12 = 0" using phys by auto
  then have "take_bit 12 (unat phys) = 0" by (simp only: take_bit_eq_mod)
  then have "take_bit 12 phys = 0"
    by (simp add: word_unat_eq_iff unsigned_take_bit_eq)
  then show "phys AND 0xfff = 0" by (simp add: take_bit_eq_mask mask_eq_exp_minus_1)
  show "phys \<noteq> 0" using phys by auto
qed

lemma clear_page_other:
  assumes "bus_view i phys" and "n < 2 ^ 27" and "n div 4096 \<noteq> i"
  shows "\<not> (unat phys \<le> unat (pa n) \<and> unat (pa n) < unat phys + 4096)"
proof -
  have i: "i < RAM_PAGES" and phys: "unat phys = 2 ^ 30 + i * 4096 \<or> unat phys = 2 ^ 29 + i * 4096"
    using assms(1) unat_page_addr [of i] plaintext_page_addr [of i] plain_offset [of i]
    by (auto simp: bus_view_def)
  have "\<not> (i * 4096 \<le> n \<and> n < i * 4096 + 4096)"
    using assms(3) by (metis add.commute div_nat_eqI mult.commute mult_Suc)
  moreover have "i * 4096 + 4096 \<le> 2 ^ 27" using i by (simp add: RAM_PAGES_def)
  ultimately show ?thesis using phys unat_pa [OF assms(2)] by auto
qed

lemma set_words_upd:
  "\<not> (unat w \<le> unat b \<and> unat b < unat w + n) \<Longrightarrow> set_words w n v (f(b := x)) = (set_words w n v f)(b := x)"
  by (auto simp: set_words_def fun_eq_iff)

text \<open>An entry that reserves a page, and the one that maps it.\<close>

lemma with_phys_parked:
  assumes "wf_flags f" and "phys AND 0xfff = 0"
  shows "with_phys (L2Unmapped (parked p0 f u)) phys
    = (if p0 AND 0xfff = 0 then Done (L2Unmapped (parked phys f u)) else with_phys (L2Unmapped (parked p0 f u)) phys)"
  using parked_fields(6) [OF _ assms(1), of p0 u] assms(2)
  by (simp add: with_phys_def) (simp add: parked_def or.commute or.left_commute)

definition backs :: "(nat \<times> usize) set \<Rightarrow> pid \<Rightarrow> usize \<Rightarrow> view \<Rightarrow> view \<Rightarrow> bool" where
  "backs F p a v v' \<longleftrightarrow> user_page a \<and> (\<exists>i phys f u. wf_flags f \<and> is_set f MF_W \<and> v p a = L2Unmapped (parked 0 f u)
     \<and> bus_view i phys \<and> (i, phys) \<in> F \<and> v' = upd v p a (L2Mapped (page_desc a phys f u)))"

lemma seq_simps_pair: "seq (Done a, s) f = f a s" "seq (Fail e, s) f = (Fail e, s)" "seq (Panic, s) f = (Panic, s)"
  by (simp_all add: seq_def)

lemma allocate_backing_page_spec:
  assumes wf: "wf_vm s maps" and mp: "maps p = Some mp" and sl: "get_l2_slot mp a s = Done sl"
    and e: "view_of maps s p a = L2Unmapped (parked 0 f u)" "wf_flags f"
    and run: "allocate_backing_page mp sl (L2Unmapped (parked 0 f u)) s = (r, s')"
  shows "keeps maps s s'"
    and "(r = Fail AccessDenied \<and> \<not> is_set f MF_W \<or> r = Fail OutOfMemory) \<and> view_of maps s' = view_of maps s
      \<or> r = Done () \<and> backs (new_frames maps p s s') p a (view_of maps s) (view_of maps s')"
proof -
  have fl: "entry_flags (L2Unmapped (parked 0 f u)) = Done f" using parked_fields(2) [of 0 f u] e(2) by simp
  obtain t G where rel: "space_rel s mp t G" and pid: "map_pid mp = p" using wf mp by (rule wf_vm_space)
  have virt: "sl_virt sl = a" and user: "user_page a" using get_l2_slot_Done [OF rel sl] by (metis l2_slot.select_convs(2))+
  have wff: "wf_frames (vm_frames s)" using wf by (simp add: wf_vm_def)
  obtain r1 m1 where al: "alloc_single_page p (vm_frames s) = (r1, m1)" by fastforce
  have "keeps maps s s' \<and> ((r = Fail AccessDenied \<and> \<not> is_set f MF_W \<or> r = Fail OutOfMemory) \<and> view_of maps s' = view_of maps s
      \<or> r = Done () \<and> backs (new_frames maps p s s') p a (view_of maps s) (view_of maps s'))"
  proof (cases "is_set f MF_W")
    case False
    with run fl keeps_refl [OF wf] show ?thesis by (auto simp: allocate_backing_page_def seq_simps_pair simp del: entry_flags.simps)
  next
    case W: True
    from wff al show ?thesis
    proof (cases rule: alloc_single_page_spec)
      case 1
      with run fl W keeps_refl [OF wf] al show ?thesis
        by (auto simp: allocate_backing_page_def seq_simps_pair on_frames_def pid simp del: entry_flags.simps)
    next
      case (2 i)
      define bus where "bus \<longleftrightarrow> is_set f PLAINTEXT \<or> is_set f NO_CACHE \<or> is_set f DEV"
      define phys where "phys = (if bus then to_plaintext_phys_addr (page_addr i) else page_addr i)"
      define z where "z \<longleftrightarrow> free_pages_zeroed (vm_frames s) i"
      define e1 where "e1 = L2Mapped (page_desc a phys f u)"
      have bv: "bus_view i phys" using 2(2) by (simp add: bus_view_def phys_def)
      note al4 = bus_view_page [OF bv]
      have steps: "with_phys (L2Unmapped (parked 0 f u)) phys = Done (L2Unmapped (parked phys f u))"
        "to_mapped (L2Unmapped (parked phys f u)) a = Done e1"
        using with_phys_parked [OF e(2) al4(1), of 0 u] to_mapped_parked [OF al4(1) e(2), of u a]
        by (simp_all add: e1_def)
      let ?s1 = "s\<lparr>vm_frames := m1\<rparr>"
      have s': "r = Done () \<and> s' = (if \<not> z \<or> bus then clear_page phys (slot_write sl e1 ?s1) else slot_write sl e1 ?s1)"
        using run fl W al 2(1) steps
        by (simp add: allocate_backing_page_def seq_simps_pair on_frames_def pid virt Let_def z_def
            flip: bus_def phys_def del: entry_flags.simps to_mapped.simps split del: if_split) (cases bus; auto simp: phys_def simp del: entry_flags.simps to_mapped.simps)
      define f1 where "f1 = (if \<not> z \<or> bus then set_words phys 4096 0 (pmem s) else pmem s)"
      let ?S = "s\<lparr>vm_frames := m1, pmem := f1\<rparr>"
      have free: "allocations (vm_frames s) i = None"
        using free_run_unowned(1) [OF wff 2(3)] by (auto simp: unowned_def)
      have "\<And>b. \<not> on_page phys b \<Longrightarrow> f1 b = pmem s b"
        using set_words_off_page [OF bv] by (simp add: f1_def)
      then have new: "keeps maps s ?S" "view_of maps ?S = view_of maps s" "\<not> table_frame maps ?S i" "allocations m1 i = Some p"
        using new_data_page [OF wf 2(4) wf_handed_over [OF wff 2(3,4)] 2(2) free bv, of f1] by blast+
      have sl': "get_l2_slot mp a ?S = Done sl" using keepsD(2) [OF new(1) mp sl] .
      from get_l2_slot_Done [OF rel sl] pid free obtain j where j: "sl = \<lparr>sl_ptr = pa (slot_word j a), sl_virt = a\<rparr>"
        "j < RAM_PAGES" "j \<noteq> i" by (metis option.distinct(1))
      then have "\<not> (unat phys \<le> unat (sl_ptr sl) \<and> unat (sl_ptr sl) < unat phys + 4096)"
        using clear_page_other [OF bv slot_word_bound [OF j(2)]] slot_word_page [of j a] by simp
      then have s'': "s' = slot_write sl e1 ?S"
        using s' by (simp add: clear_page_def slot_write_def f1_def set_words_upd)
      have e1: "entry_from_u32 (entry_as_u32 e1) = e1"
        using page_desc_nonzero [OF al4(1)] by (simp add: e1_def)
      note w = slot_write_view [OF keepsD(1) [OF new(1)] mp sl' e1]
      have "f1 b = 0" if b: "on_page phys b" for b
      proof (cases "\<not> z \<or> bus")
        case True
        then show ?thesis using set_words_on_page [OF bv b] by (simp add: f1_def)
      next
        case False
        then have ph: "phys = page_addr i" and "page_zero s i" using wf by (simp_all add: phys_def z_def wf_vm_def)
        have "unat b div 4096 = 2 ^ 18 + i" using b unat_page_addr [of i] 2(2) by (simp add: on_page_def ph)
        then have "unat b = (2 ^ 18 + i) * 4096 + unat b mod 4096" by (metis div_mult_mod_eq)
        then have e: "unat b = 2 ^ 30 + (i * 4096 + unat b mod 4096)" by (simp add: algebra_simps)
        let ?n = "i * 4096 + unat b mod 4096"
        have "?n < 2 ^ 27" using 2(2) by (simp add: RAM_PAGES_def)
        then have "unat (pa ?n) = unat b" using e unat_pa by simp
        then have "b = pa ?n" by (simp add: word_unat_eq_iff)
        moreover have "?n div 4096 = i" by simp
        ultimately have "pmem s b = 0" using \<open>page_zero s i\<close> unfolding page_zero_def by metis
        with False show ?thesis by (simp add: f1_def)
      qed
      then have "reads_zero phys ?S" by (simp add: reads_zero_def)
      then have "(i, phys) \<in> new_frames maps p s ?S" using new(3,4) free bv by (simp add: new_frames_def)
      then have "(i, phys) \<in> new_frames maps p s s'" using new_frames_mono [OF w(1)] unfolding s'' by blast
      then have "backs (new_frames maps p s s') p a (view_of maps s) (view_of maps s')"
        using user e W bv w(2) [unfolded new(2)] unfolding backs_def s'' e1_def by blast
      with s' keeps_trans [OF new(1) w(1)] show ?thesis by (simp add: s'')
    qed
  qed
  then show "keeps maps s s'"
    and "(r = Fail AccessDenied \<and> \<not> is_set f MF_W \<or> r = Fail OutOfMemory) \<and> view_of maps s' = view_of maps s
      \<or> r = Done () \<and> backs (new_frames maps p s s') p a (view_of maps s) (view_of maps s')" by blast+
qed

text \<open>The entries that the kernel writes, in every process.\<close>

definition wf_view :: "view \<Rightarrow> bool" where
  "wf_view v \<longleftrightarrow> (\<forall>p a. wf_entry (v p a))"

lemma wf_view_at: "wf_view v \<Longrightarrow> wf_entry (v p a)"
  by (simp add: wf_view_def)

lemma wf_view_upd: "wf_view v \<Longrightarrow> wf_entry e \<Longrightarrow> wf_view (upd v p a e)"
  by (simp add: wf_view_def)

lemma wf_on_demand:
  assumes "wf_entry e" and "is_on_demand e"
  obtains f u where "e = L2Unmapped (parked 0 f u)" "wf_flags f" "no_wx f" "u \<or> bits f \<noteq> 0"
proof (cases e)
  case (L2Unmapped w)
  with assms(1) obtain phys f u where w: "phys AND 0xfff = 0" "wf_flags f" "w = parked phys f u" "no_wx f" "u \<or> bits f \<noteq> 0" by auto
  with assms(2) L2Unmapped have "phys = 0" using parked_fields(5) [OF w(1,2), of u] by simp
  with that w L2Unmapped show ?thesis by blast
qed (use assms in simp_all)

lemma wf_parked:
  "phys AND 0xfff = 0 \<Longrightarrow> wf_flags f \<Longrightarrow> no_wx f \<Longrightarrow> u \<or> phys = 0 \<and> bits f \<noteq> 0 \<Longrightarrow> wf_entry (L2Unmapped (parked phys f u))"
  unfolding wf_entry.simps by blast

text \<open>An entry that can be moved or lent: it is a user's, and it is mapped or can be backed.\<close>

definition entry_writable :: "l2_entry \<Rightarrow> bool" where
  "entry_writable e \<longleftrightarrow> (case entry_flags e of Done f \<Rightarrow> is_set f MF_W | _ \<Rightarrow> False)"

definition giveable :: "l2_entry \<Rightarrow> bool" where
  "giveable e \<longleftrightarrow> is_user_accessible e \<and> (is_mapped e \<or> is_on_demand e \<and> entry_writable e)"

lemma entry_writable_parked: "wf_flags f \<Longrightarrow> entry_writable (L2Unmapped (parked 0 f u)) \<longleftrightarrow> is_set f MF_W"
  using parked_fields(2) [of 0 f u] by (simp add: entry_writable_def del: entry_flags.simps)

lemma user_page_low:
  assumes "user_page a"
  shows "a < TTBR1_SPLIT"
proof -
  have "unat a div 2 ^ 20 < 2048"
    using assms by (simp add: user_page_def translation_table_index_def unat_drop L1_USER_PAGE_TABLE_ENTRIES_def)
  then have "unat a < 2 ^ 31" by (simp add: div_less_iff_less_mult)
  then show ?thesis by (simp add: TTBR1_SPLIT_def word_less_nat_alt)
qed

lemma page_desc_user: "user_page a \<Longrightarrow> page_desc a phys f u = page_desc 0 phys f u"
  using user_page_low by (rule page_desc_low)

lemma wf_page_desc: "phys AND 0xfff = 0 \<Longrightarrow> phys \<noteq> 0 \<Longrightarrow> no_wx f \<Longrightarrow> wf_entry (L2Mapped (page_desc 0 phys f u))"
  unfolding wf_entry.simps by blast

lemma wf_mapped:
  assumes "wf_entry e" and "is_mapped e"
  obtains phys f u where "e = L2Mapped (page_desc 0 phys f u)" "phys AND 0xfff = 0" "phys \<noteq> 0" "no_wx f"
  using assms by (cases e) auto

lemma parked_inj:
  assumes "wf_flags f" and "wf_flags g" and "phys AND 0xfff = 0" and "parked phys f u = parked phys g u'"
  shows "f = g \<and> u = u'"
  using assms parked_fields(2,3) [OF assms(3,1), of u] parked_fields(2,3) [OF assms(3,2), of u']
  by (simp del: entry_flags.simps)

lemma backs_wf:
  assumes "wf_view v" and "backs F p a v v'"
  shows "wf_view v' \<and> is_mapped (v' p a) \<and> is_on_demand (v p a)"
proof -
  from assms(2) obtain i phys f u where b: "wf_flags f" "v p a = L2Unmapped (parked 0 f u)" "bus_view i phys"
    "v' = upd v p a (L2Mapped (page_desc a phys f u))" and user: "user_page a" unfolding backs_def by blast
  note wf_view_at [OF assms(1), of p a]
  moreover have od: "is_on_demand (v p a)" using b(1,2) parked_fields(5) [of 0 f u] by simp
  ultimately obtain g u' where "v p a = L2Unmapped (parked 0 g u')" "wf_flags g" "no_wx g" by (rule wf_on_demand)
  with b(2) have "parked 0 f u = parked 0 g u'" by (metis l2_entry.inject(2))
  with parked_inj [OF b(1) \<open>wf_flags g\<close>, of 0 u u'] have "f = g" by simp
  with \<open>no_wx g\<close> have "no_wx f" by simp
  with bus_view_page [OF b(3)] have "wf_entry (L2Mapped (page_desc a phys f u))"
    unfolding page_desc_user [OF user] by (intro wf_page_desc)
  with od b(4) assms(1) show ?thesis by (simp add: wf_view_upd)
qed

text \<open>The source of a move or of a loan: backed if it was reserved, and unchanged on an error.\<close>

definition source_view :: "(nat \<times> usize) set \<Rightarrow> pid \<Rightarrow> usize \<Rightarrow> view \<Rightarrow> view \<Rightarrow> bool" where
  "source_view F p a v v' \<longleftrightarrow> v' = v \<or> backs F p a v v'"

definition source_result :: "spaces \<Rightarrow> pid \<Rightarrow> mapping \<Rightarrow> usize \<Rightarrow> vm \<Rightarrow> (l2_slot \<times> l2_entry) res \<Rightarrow> vm \<Rightarrow> bool" where
  "source_result maps p mp a s r s' \<longleftrightarrow> keeps maps s s'
     \<and> source_view (new_frames maps p s s') p a (view_of maps s) (view_of maps s')
     \<and> (case r of
          Done (sl, e) \<Rightarrow> e = view_of maps s' p a \<and> get_l2_slot mp a s' = Done sl
            \<and> is_user_accessible (view_of maps s p a) \<and> \<not> is_on_demand e
            \<and> (is_mapped e \<longrightarrow> giveable (view_of maps s p a)) \<and> (\<not> is_mapped e \<longrightarrow> \<not> giveable (view_of maps s p a))
        | Fail err \<Rightarrow> view_of maps s' = view_of maps s \<and> (err = OutOfMemory \<or> \<not> giveable (view_of maps s p a))
        | Panic \<Rightarrow> False)"

lemma source_entry_spec:
  assumes wf: "wf_vm s maps" and wv: "wf_view (view_of maps s)" and mp: "maps p = Some mp"
    and run: "source_entry mp a s = (r, s')"
  shows "source_result maps p mp a s r s'"
proof -
  obtain t G where rel: "space_rel s mp t G" using wf mp by (rule wf_vm_space)
  note k = space_relD(4) [OF rel]
  show ?thesis
  proof (cases "get_l2_slot mp a s")
    case (Done sl)
    note rd = slot_read_view [where maps = maps, OF mp Done]
    let ?e = "view_of maps s p a"
    consider "\<not> is_user_accessible ?e" | "is_user_accessible ?e" "\<not> is_on_demand ?e" | "is_user_accessible ?e" "is_on_demand ?e" by blast
    then show ?thesis
    proof cases
      case 1
      with run Done rd k keeps_refl [OF wf] show ?thesis
        by (auto simp: source_entry_def seq_simps_pair Let_def source_view_def source_result_def giveable_def)
    next
      case 2
      with run Done rd k keeps_refl [OF wf] show ?thesis
        by (auto simp: source_entry_def seq_simps_pair Let_def source_view_def source_result_def giveable_def)
    next
      case 3
      have "wf_entry ?e" using wv by (simp add: wf_view_def)
      from wf_on_demand [OF this 3(2)] obtain f u where e: "?e = L2Unmapped (parked 0 f u)" "wf_flags f" .
      have g: "giveable ?e \<longleftrightarrow> is_set f MF_W" using e 3 entry_writable_parked by (simp add: giveable_def)
      obtain r1 s1 where bk: "allocate_backing_page mp sl (L2Unmapped (parked 0 f u)) s = (r1, s1)" by fastforce
      note b = allocate_backing_page_spec [OF wf mp Done e bk]
      from b(2) show ?thesis
      proof
        assume "r1 = Done () \<and> backs (new_frames maps p s s1) p a (view_of maps s) (view_of maps s1)"
        then have r1: "r1 = Done ()" "backs (new_frames maps p s s1) p a (view_of maps s) (view_of maps s1)" by blast+
        have s1: "get_l2_slot mp a s1 = Done sl" using keepsD(2) [OF b(1) mp Done] .
        have m: "is_mapped (view_of maps s1 p a)" using backs_wf [OF wv r1(2)] by blast
        then have "\<not> is_on_demand (view_of maps s1 p a)" by (cases "view_of maps s1 p a") simp_all
        moreover have "s' = s1 \<and> r = Done (sl, view_of maps s1 p a)"
          using run Done rd 3 k e r1(1) bk slot_read_view [where maps = maps, OF mp s1] by (auto simp: source_entry_def seq_simps_pair Let_def)
        moreover have "giveable ?e"
          using r1(2) e unfolding backs_def giveable_def by (metis 3 entry_writable_parked)
        ultimately show ?thesis using b(1) s1 r1(2) 3 m by (auto simp: source_view_def source_result_def)
      next
        assume r1: "(r1 = Fail AccessDenied \<and> \<not> is_set f MF_W \<or> r1 = Fail OutOfMemory) \<and> view_of maps s1 = view_of maps s"
        then have "s' = s1 \<and> r = (case r1 of Fail e \<Rightarrow> Fail e)"
          using run Done rd 3 k e bk by (auto simp: source_entry_def seq_simps_pair Let_def)
        with b(1) r1 g show ?thesis by (auto simp: source_result_def source_view_def)
      qed
    qed
  next
    case (Fail err)
    have "\<not> giveable (view_of maps s p a)"
      using no_slot_view [where maps = maps, OF mp Fail] by (simp add: giveable_def)
    with Fail run keeps_refl [OF wf] show ?thesis
      by (auto simp: source_entry_def seq_simps_pair source_result_def source_view_def)
  next
    case Panic
    with get_l2_slot_no_panic [OF rel] show ?thesis by simp
  qed
qed

section \<open>The operations as updates of the map\<close>

datatype page_op =
    OpMap pid usize usize memory_flags bool
  | OpUnmap pid usize
  | OpBack pid usize
  | OpMove pid usize pid usize
  | OpLend pid usize pid usize bool
  | OpReturn pid usize pid usize
  | OpClear pid usize clear_shared_mode

definition in_space :: "spaces \<Rightarrow> pid \<Rightarrow> (mapping \<Rightarrow> 'a res \<times> vm) \<Rightarrow> vm \<Rightarrow> 'a res \<times> vm" where
  "in_space maps p f s = (case maps p of None \<Rightarrow> (Fail ProcessNotFound, s) | Some mp \<Rightarrow> f mp)"

definition no_addr :: "unit res \<times> vm \<Rightarrow> usize res \<times> vm" where
  "no_addr x = seq x (\<lambda>_ s. (Done 0, s))"

fun run_op :: "spaces \<Rightarrow> page_op \<Rightarrow> vm \<Rightarrow> usize res \<times> vm" where
  "run_op maps (OpMap p phys a f u) s = in_space maps p (\<lambda>mp. no_addr (map_page mp phys a f u s)) s"
| "run_op maps (OpUnmap p a) s = in_space maps p (\<lambda>mp. no_addr (unmap_page mp a s)) s"
| "run_op maps (OpBack p a) s = in_space maps p (\<lambda>mp. no_addr (ensure_backed mp a s)) s"
| "run_op maps (OpMove p a q b) s =
     in_space maps p (\<lambda>mp. in_space maps q (\<lambda>mq. space_move_page mp a mq b s) s) s"
| "run_op maps (OpLend p a q b mutable) s =
     in_space maps p (\<lambda>mp. in_space maps q (\<lambda>mq. space_lend_page mp a mq b mutable s) s) s"
| "run_op maps (OpReturn p a q b) s =
     in_space maps p (\<lambda>mp. in_space maps q (\<lambda>mq. space_return_page mp a mq b s) s) s"
| "run_op maps (OpClear p a mode) s = in_space maps p (\<lambda>mp. no_addr (clear_shared mp a mode s)) s"

text \<open>The entry that \<open>map_page\<close> writes: a mapped page, or a page reserved for later.\<close>

definition map_entry :: "usize \<Rightarrow> usize \<Rightarrow> memory_flags \<Rightarrow> bool \<Rightarrow> l2_entry" where
  "map_entry phys a f u = (if phys = 0 then L2Unmapped (parked 0 f u) else L2Mapped (page_desc a phys f u))"

definition free_at :: "view \<Rightarrow> pid \<Rightarrow> usize \<Rightarrow> bool" where
  "free_at v p a \<longleftrightarrow> user_page a \<and> v p a = L2Empty"

text \<open>
  The specification: what the result is, and which entries change. Only running out of memory
  depends on more than the map.
\<close>

fun page_spec :: "(nat \<times> usize) set \<Rightarrow> page_op \<Rightarrow> view \<Rightarrow> usize res \<Rightarrow> view \<Rightarrow> bool" where
  "page_spec F (OpMap p phys a f u) v r v' \<longleftrightarrow>
     (case r of
        Done x \<Rightarrow> x = 0 \<and> \<not> is_set f (flags_or MF_W MF_X) \<and> phys AND 0xfff = 0 \<and> free_at v p a
          \<and> v' = upd v p a (map_entry phys a f u)
      | Fail err \<Rightarrow> v' = v \<and> (err = OutOfMemory \<or> err = BadAlignment \<and> (phys AND 0xfff \<noteq> 0 \<or> a AND 0xfff \<noteq> 0)
          \<or> err = AccessDenied \<and> \<not> user_page a \<or> err = MemoryInUse \<and> v p a \<noteq> L2Empty)
      | Panic \<Rightarrow> v' = v \<and> is_set f (flags_or MF_W MF_X))"
| "page_spec F (OpUnmap p a) v r v' \<longleftrightarrow>
     (if v p a = L2Empty \<or> is_shared (v p a) then (\<exists>err. r = Fail err) \<and> v' = v
      else r = Done 0 \<and> v' = upd v p a L2Empty)"
| "page_spec F (OpBack p a) v r v' \<longleftrightarrow>
     (case r of
        Done x \<Rightarrow> x = 0 \<and> (is_mapped (v p a) \<and> v' = v \<or> backs F p a v v')
      | Fail err \<Rightarrow> v' = v \<and> \<not> is_mapped (v p a)
          \<and> (err = OutOfMemory \<or> \<not> (is_on_demand (v p a) \<and> entry_writable (v p a)))
      | Panic \<Rightarrow> False)"
| "page_spec F (OpMove p a q b) v r v' \<longleftrightarrow>
     (\<exists>w. source_view F p a v w \<and>
       (case r of
          Done phys \<Rightarrow> is_mapped (w p a) \<and> entry_phys (w p a) = Done phys \<and> giveable (v p a) \<and> free_at v q b
            \<and> v' = upd (upd w p a L2Empty) q b (w p a)
        | Fail err \<Rightarrow> v' = w \<and> (err = OutOfMemory \<or> \<not> giveable (v p a) \<or> \<not> free_at v q b)
        | Panic \<Rightarrow> False))"
| "page_spec F (OpLend p a q b mutable) v r v' \<longleftrightarrow>
     (\<exists>w. source_view F p a v w \<and>
       (case r of
          Done phys \<Rightarrow> is_mapped (w p a) \<and> entry_phys (w p a) = Done phys \<and> giveable (v p a) \<and> free_at v q b
            \<and> (\<exists>shared new. to_unmapped (w p a) = Done shared
                \<and> (if mutable then Done (w p a) else to_immutable (w p a)) = Done new
                \<and> v' = upd (upd w p a shared) q b new)
        | Fail err \<Rightarrow> v' = w \<and> (err = OutOfMemory \<or> \<not> giveable (v p a) \<or> \<not> free_at v q b)
        | Panic \<Rightarrow> False))"
| "page_spec F (OpReturn p a q b) v r v' \<longleftrightarrow>
     (case r of
        Done phys \<Rightarrow> entry_phys (v p a) = Done phys \<and> entry_phys (v q b) = Done phys \<and> user_page b
          \<and> (\<exists>e. to_mapped (v q b) b = Done e \<and> v' = upd (upd v p a L2Empty) q b e)
      | Fail err \<Rightarrow> v' = v \<and> (\<forall>phys. \<not> (entry_phys (v p a) = Done phys \<and> entry_phys (v q b) = Done phys))
      | Panic \<Rightarrow> False)"
| "page_spec F (OpClear p a mode) v r v' \<longleftrightarrow>
     (if \<not> is_shared (v p a) then v' = v \<and> (r = Done 0 \<or> (\<exists>err. r = Fail err) \<and> v p a = L2Empty)
      else r = Done 0 \<and>
        (case mode of
           ClearFree \<Rightarrow> v' = upd v p a L2Empty
         | ClearOnDemand \<Rightarrow> \<exists>e. with_phys (v p a) 0 = Done e \<and> v' = upd v p a e))"

text \<open>The processes exist, and the kernel passes flags it knows; a reserved page has some attribute.\<close>

fun valid_op :: "spaces \<Rightarrow> page_op \<Rightarrow> view \<Rightarrow> bool" where
  "valid_op maps (OpMap p phys a f u) v \<longleftrightarrow> maps p \<noteq> None \<and> wf_flags f \<and> (phys = 0 \<longrightarrow> u \<or> bits f \<noteq> 0)"
| "valid_op maps (OpUnmap p a) v \<longleftrightarrow> maps p \<noteq> None"
| "valid_op maps (OpBack p a) v \<longleftrightarrow> maps p \<noteq> None"
| "valid_op maps (OpMove p a q b) v \<longleftrightarrow> maps p \<noteq> None \<and> maps q \<noteq> None"
| "valid_op maps (OpLend p a q b mutable) v \<longleftrightarrow> maps p \<noteq> None \<and> maps q \<noteq> None"
| "valid_op maps (OpReturn p a q b) v \<longleftrightarrow> maps p \<noteq> None \<and> maps q \<noteq> None \<and> \<not> is_on_demand (v q b)"
| "valid_op maps (OpClear p a mode) v \<longleftrightarrow> maps p \<noteq> None"

text \<open>The process whose page may be backed during an operation.\<close>

fun giver :: "page_op \<Rightarrow> pid" where
  "giver (OpMap p phys a f u) = p"
| "giver (OpUnmap p a) = p"
| "giver (OpBack p a) = p"
| "giver (OpMove p a q b) = p"
| "giver (OpLend p a q b mutable) = p"
| "giver (OpReturn p a q b) = p"
| "giver (OpClear p a mode) = p"

definition op_result :: "spaces \<Rightarrow> page_op \<Rightarrow> vm \<Rightarrow> usize res \<Rightarrow> vm \<Rightarrow> bool" where
  "op_result maps op s r s' \<longleftrightarrow> keeps maps s s'
     \<and> page_spec (new_frames maps (giver op) s s') op (view_of maps s) r (view_of maps s')"

lemma target_slot:
  assumes wf: "wf_vm s maps" and mp: "maps p = Some mp" and run: "allocate_l2_slot mp a s = (r, s')"
  shows "keeps maps s s'" and "view_of maps s' = view_of maps s"
    and "case r of Done sl \<Rightarrow> free_at (view_of maps s) p a \<and> get_l2_slot mp a s' = Done sl
      | Fail e \<Rightarrow> e = OutOfMemory \<or> e = BadAlignment \<and> a AND 0xfff \<noteq> 0 \<or> e = AccessDenied \<and> \<not> user_page a
          \<or> e = MemoryInUse \<and> view_of maps s p a \<noteq> L2Empty
      | Panic \<Rightarrow> False"
proof -
  note sp = allocate_l2_slot_spec [OF wf mp run]
  then have t: "tables_added maps p s s'" by (simp add: slot_allocated_def)
  from keeps_tables [OF t] show "keeps maps s s'" .
  from view_tables [OF t] show "view_of maps s' = view_of maps s" .
  from sp show "case r of Done sl \<Rightarrow> free_at (view_of maps s) p a \<and> get_l2_slot mp a s' = Done sl
      | Fail e \<Rightarrow> e = OutOfMemory \<or> e = BadAlignment \<and> a AND 0xfff \<noteq> 0 \<or> e = AccessDenied \<and> \<not> user_page a
          \<or> e = MemoryInUse \<and> view_of maps s p a \<noteq> L2Empty
      | Panic \<Rightarrow> False"
    using mp by (auto simp: slot_allocated_def free_at_def view_at split: outcome.splits)
qed

lemma map_entry_wf:
  assumes "phys AND 0xfff = 0" and "wf_flags f" and "phys = 0 \<longrightarrow> u \<or> bits f \<noteq> 0" and "\<not> is_set f (flags_or MF_W MF_X)"
    and "user_page a"
  shows "wf_entry (map_entry phys a f u)"
proof -
  have "no_wx f" using assms(4) by (simp add: is_set_or no_wx_def)
  with assms wf_parked [of 0 f u] wf_page_desc [of phys f u] show ?thesis
    by (simp add: map_entry_def page_desc_user del: wf_entry.simps)
qed

lemma run_map:
  assumes wf: "wf_vm s maps" and mp: "maps p = Some mp" and f: "wf_flags f" "phys = 0 \<longrightarrow> u \<or> bits f \<noteq> 0"
    and run: "run_op maps (OpMap p phys a f u) s = (r, s')"
  shows "op_result maps (OpMap p phys a f u) s r s'"
proof -
  let ?e = "map_entry phys a f u"
  have e: "entry_from_u32 (entry_as_u32 ?e) = ?e" if "phys AND 0xfff = 0" "\<not> is_set f (flags_or MF_W MF_X)" "user_page a"
    using map_entry_wf [OF that(1) f that(2,3)] by (rule entry_u32_roundtrip)
  have new: "(if phys \<noteq> 0 then new_mapped a phys f u else new_on_demand phys f u)
      = (if phys AND 0xfff = 0 then Done ?e else Fail BadAlignment)"
    by (auto simp: map_entry_def new_mapped_Done new_on_demand_Done) (simp add: new_mapped_def)
  consider (panic) "is_set f (flags_or MF_W MF_X)" | (bad) "\<not> is_set f (flags_or MF_W MF_X)" "phys AND 0xfff \<noteq> 0"
    | (slot) "\<not> is_set f (flags_or MF_W MF_X)" "phys AND 0xfff = 0" by blast
  then show ?thesis
  proof cases
    case panic
    with run mp keeps_refl [OF wf] show ?thesis
      by (auto simp: op_result_def in_space_def no_addr_def map_page_def seq_simps_pair)
  next
    case bad
    with run mp keeps_refl [OF wf] new show ?thesis
      by (auto simp: op_result_def in_space_def no_addr_def map_page_def seq_simps_pair split: if_splits)
  next
    case slot
    obtain r1 s1 where al: "allocate_l2_slot mp a s = (r1, s1)" by fastforce
    note t = target_slot [OF wf mp al]
    have run': "(r, s') = no_addr (seq (r1, s1) (\<lambda>sl s2. (Done (), slot_write sl ?e s2)))"
      using run mp slot new al by (simp add: in_space_def map_page_def seq_simps_pair)
    show ?thesis
    proof (cases r1)
      case (Done sl)
      from t(3) Done have sl: "get_l2_slot mp a s1 = Done sl" and fr: "free_at (view_of maps s) p a" by simp_all
      have "user_page a" using fr by (simp add: free_at_def)
      note w = slot_write_view [OF keepsD(1) [OF t(1)] mp sl e [OF slot(2,1) this]]
      with sl fr run' Done t(1,2) slot keeps_trans show ?thesis
        by (auto simp: op_result_def no_addr_def seq_simps_pair)
    qed (use run' t slot in \<open>auto simp: op_result_def no_addr_def seq_simps_pair\<close>)
  qed
qed

lemma run_unmap:
  assumes wf: "wf_vm s maps" and mp: "maps p = Some mp" and run: "run_op maps (OpUnmap p a) s = (r, s')"
  shows "op_result maps (OpUnmap p a) s r s'"
proof -
  obtain t G where rel: "space_rel s mp t G" using wf mp by (rule wf_vm_space)
  show ?thesis
  proof (cases "get_l2_slot mp a s")
    case (Done sl)
    note rd = slot_read_view [where maps = maps, OF mp Done]
    note w = slot_write_view [OF wf mp Done, of L2Empty]
    have "entry_from_u32 (entry_as_u32 L2Empty) = L2Empty" by (simp add: entry_from_u32_def)
    with w run mp Done rd keeps_refl [OF wf] show ?thesis
      by (auto simp: op_result_def in_space_def no_addr_def unmap_page_def seq_simps_pair Let_def is_empty_def split: if_splits)
  next
    case (Fail err)
    with no_slot_view [where maps = maps, OF mp Fail] run mp keeps_refl [OF wf] show ?thesis
      by (auto simp: op_result_def in_space_def no_addr_def unmap_page_def seq_simps_pair)
  next
    case Panic
    with get_l2_slot_no_panic [OF rel] show ?thesis by simp
  qed
qed

lemma run_back:
  assumes wf: "wf_vm s maps" and wv: "wf_view (view_of maps s)" and mp: "maps p = Some mp"
    and run: "run_op maps (OpBack p a) s = (r, s')"
  shows "op_result maps (OpBack p a) s r s'"
proof -
  obtain t G where rel: "space_rel s mp t G" using wf mp by (rule wf_vm_space)
  let ?e = "view_of maps s p a"
  show ?thesis
  proof (cases "get_l2_slot mp a s")
    case (Done sl)
    note rd = slot_read_view [where maps = maps, OF mp Done]
    show ?thesis
    proof (cases "is_on_demand ?e")
      case True
      have "wf_entry ?e" using wv by (simp add: wf_view_def)
      from wf_on_demand [OF this True] obtain f u where e: "?e = L2Unmapped (parked 0 f u)" "wf_flags f" .
      obtain r1 s1 where bk: "allocate_backing_page mp sl (L2Unmapped (parked 0 f u)) s = (r1, s1)" by fastforce
      have "(r, s') = no_addr (r1, s1)"
        using run mp Done rd e True bk by (simp add: in_space_def ensure_backed_def seq_simps_pair Let_def is_empty_def)
      with allocate_backing_page_spec [OF wf mp Done e bk] e True entry_writable_parked [OF e(2), of u] show ?thesis
        by (auto simp: op_result_def no_addr_def seq_simps_pair)
    next
      case False
      with run mp Done rd keeps_refl [OF wf] show ?thesis
        by (auto simp: op_result_def in_space_def no_addr_def ensure_backed_def seq_simps_pair Let_def is_empty_def split: if_splits)
    qed
  next
    case (Fail err)
    with no_slot_view [where maps = maps, OF mp Fail] run mp keeps_refl [OF wf] show ?thesis
      by (auto simp: op_result_def in_space_def no_addr_def ensure_backed_def seq_simps_pair)
  next
    case Panic
    with get_l2_slot_no_panic [OF rel] show ?thesis by simp
  qed
qed

lemma empty_roundtrip: "entry_from_u32 (entry_as_u32 L2Empty) = L2Empty"
  by (simp add: entry_from_u32_def)

text \<open>The part that moving and lending share: the source, the destination, and the two writes.\<close>

lemma two_slots:
  assumes wf: "wf_vm s maps" and p: "maps p = Some mp" "get_l2_slot mp a s = Done sl"
    and q: "maps q = Some mq" "get_l2_slot mq b s = Done dl"
    and e: "entry_from_u32 (entry_as_u32 e) = e" "entry_from_u32 (entry_as_u32 d) = d"
  shows "keeps maps s (slot_write dl d (slot_write sl e s))"
    and "view_of maps (slot_write dl d (slot_write sl e s)) = upd (upd (view_of maps s) p a e) q b d"
proof -
  note w1 = slot_write_view [OF wf p e(1)]
  note w2 = slot_write_view [OF keepsD(1) [OF w1(1)] q(1) keepsD(2) [OF w1(1) q] e(2)]
  show "keeps maps s (slot_write dl d (slot_write sl e s))" using w1(1) w2(1) by (rule keeps_trans)
  show "view_of maps (slot_write dl d (slot_write sl e s)) = upd (upd (view_of maps s) p a e) q b d"
    using w1(2) w2(2) by simp
qed

lemma source_view_other:
  "source_view F p a v w \<Longrightarrow> giveable (v p a) \<Longrightarrow> free_at w q b \<longleftrightarrow> free_at v q b"
  by (auto simp: source_view_def backs_def free_at_def giveable_def split: if_splits)

lemma source_view_mono: "source_view F p a v w \<Longrightarrow> F \<subseteq> F' \<Longrightarrow> source_view F' p a v w"
  unfolding source_view_def backs_def by blast

lemma source_view_keeps:
  "source_view (new_frames maps p s s1) p a v w \<Longrightarrow> keeps maps s1 s2 \<Longrightarrow> source_view (new_frames maps p s s2) p a v w"
  by (erule source_view_mono) (auto intro: new_frames_mono)

lemma source_view_wf: "wf_view v \<Longrightarrow> source_view F p a v w \<Longrightarrow> wf_view w"
  using backs_wf by (auto simp: source_view_def)

lemma mapped_phys: "wf_entry e \<Longrightarrow> is_mapped e \<Longrightarrow> \<exists>phys. entry_phys e = Done phys"
  by (cases e) auto

lemma giver_cases:
  assumes wf: "wf_vm s maps" and wv: "wf_view (view_of maps s)" and mp: "maps p = Some mp" and mq: "maps q = Some mq"
    and src: "source_entry mp a s = (r0, s1)"
  obtains (none) err where "r0 = Fail err" "keeps maps s s1" "view_of maps s1 = view_of maps s"
      "err = OutOfMemory \<or> \<not> giveable (view_of maps s p a)"
    | (unmapped) sl e where "r0 = Done (sl, e)" "keeps maps s s1" "source_view (new_frames maps p s s1) p a (view_of maps s) (view_of maps s1)"
      "\<not> is_mapped e" "\<not> giveable (view_of maps s p a)" "e = view_of maps s1 p a" "is_user_accessible (view_of maps s p a)"
      "\<not> is_on_demand e"
    | (target) sl e r2 s2 where "r0 = Done (sl, e)" "keeps maps s s2" "source_view (new_frames maps p s s2) p a (view_of maps s) (view_of maps s2)"
      "is_mapped e" "giveable (view_of maps s p a)" "e = view_of maps s2 p a" "allocate_l2_slot mq b s1 = (r2, s2)"
      "get_l2_slot mp a s2 = Done sl" "view_of maps s2 = view_of maps s1"
      "case r2 of Done dl \<Rightarrow> free_at (view_of maps s) q b \<and> get_l2_slot mq b s2 = Done dl
        | Fail err \<Rightarrow> err = OutOfMemory \<or> \<not> free_at (view_of maps s) q b | Panic \<Rightarrow> False"
proof -
  note so = source_entry_spec [OF wf wv mp src, unfolded source_result_def]
  then have k: "keeps maps s s1" and sv: "source_view (new_frames maps p s s1) p a (view_of maps s) (view_of maps s1)" by blast+
  show ?thesis
  proof (cases r0)
    case (Fail err)
    with so k none show ?thesis by simp
  next
    case Panic
    with so show ?thesis by simp
  next
    case (Done x)
    obtain sl e where x: "x = (sl, e)" by (cases x)
    show ?thesis
    proof (cases "is_mapped e")
      case False
      show ?thesis by (rule unmapped [of sl e]) (use False so k sv Done x in auto)
    next
      case True
      with so Done x have g: "giveable (view_of maps s p a)" and e: "e = view_of maps s1 p a"
        and sl: "get_l2_slot mp a s1 = Done sl" by simp_all
      obtain r2 s2 where al: "allocate_l2_slot mq b s1 = (r2, s2)" by fastforce
      note t = target_slot [OF keepsD(1) [OF k] mq al]
      have "case r2 of Done dl \<Rightarrow> free_at (view_of maps s) q b \<and> get_l2_slot mq b s2 = Done dl
        | Fail err \<Rightarrow> err = OutOfMemory \<or> \<not> free_at (view_of maps s) q b | Panic \<Rightarrow> False"
        using t(3) source_view_other [OF sv g, of q b] by (auto simp: free_at_def user_page_def split: outcome.splits)
      moreover have "source_view (new_frames maps p s s2) p a (view_of maps s) (view_of maps s2)"
        using source_view_keeps [OF sv t(1)] t(2) by simp
      ultimately show ?thesis
        using target [of sl e s2 r2] Done x True g e al t keeps_trans [OF k t(1)] keepsD(2) [OF t(1) mp sl] by simp
    qed
  qed
qed

lemma run_move:
  assumes wf: "wf_vm s maps" and wv: "wf_view (view_of maps s)" and mp: "maps p = Some mp" and mq: "maps q = Some mq"
    and run: "run_op maps (OpMove p a q b) s = (r, s')"
  shows "op_result maps (OpMove p a q b) s r s'"
proof -
  obtain r0 s1 where src: "source_entry mp a s = (r0, s1)" by fastforce
  have run': "(r, s') = space_move_page mp a mq b s" using run mp mq by (simp add: in_space_def)
  from wf wv mp mq src show ?thesis
  proof (cases rule: giver_cases [where b = b])
    case (none err)
    with run' src show ?thesis
      by (auto simp: op_result_def space_move_page_def seq_simps_pair source_view_def)
  next
    case (unmapped sl e)
    have "wf_entry e" using unmapped(6) source_view_wf [OF wv unmapped(3)] by (simp add: wf_view_def)
    with unmapped(4,8) have "(\<exists>err. entry_phys e = Fail err) \<or> (\<exists>phys. entry_phys e = Done phys \<and> phys \<noteq> 0)"
      by (cases e) auto
    with run' src unmapped(1,4) have "s' = s1 \<and> (\<exists>err. r = Fail err)"
      by (auto simp: space_move_page_def seq_simps_pair)
    with unmapped show ?thesis by (auto simp: op_result_def)
  next
    case (target sl e r2 s2)
    have we: "wf_entry e" using target(6) source_view_wf [OF wv target(3)] by (simp add: wf_view_def)
    show ?thesis
    proof (cases r2)
      case (Done dl)
      obtain phys where ph: "entry_phys e = Done phys" using mapped_phys [OF we target(4)] by blast
      have dl: "get_l2_slot mq b s2 = Done dl" "free_at (view_of maps s) q b" using target(10) Done by simp_all
      note w = two_slots [OF keepsD(1) [OF target(2)] mp target(8) mq dl(1) empty_roundtrip entry_u32_roundtrip [OF we]]
      have "r = Done phys \<and> s' = slot_write dl e (slot_write sl L2Empty s2)"
        using run' src target Done ph by (simp add: space_move_page_def seq_simps_pair)
      with w target dl ph keeps_trans [OF target(2) w(1)] source_view_keeps [OF target(3) w(1)] show ?thesis
        by (auto simp: op_result_def)
    qed (use run' src target in \<open>auto simp: op_result_def space_move_page_def seq_simps_pair\<close>)
  qed
qed

lemma run_lend:
  assumes wf: "wf_vm s maps" and wv: "wf_view (view_of maps s)" and mp: "maps p = Some mp" and mq: "maps q = Some mq"
    and run: "run_op maps (OpLend p a q b mutable) s = (r, s')"
  shows "op_result maps (OpLend p a q b mutable) s r s'"
proof -
  obtain r0 s1 where src: "source_entry mp a s = (r0, s1)" by fastforce
  have run': "(r, s') = space_lend_page mp a mq b mutable s" using run mp mq by (simp add: in_space_def)
  from wf wv mp mq src show ?thesis
  proof (cases rule: giver_cases [where b = b])
    case (none err)
    with run' src show ?thesis
      by (auto simp: op_result_def space_lend_page_def seq_simps_pair source_view_def)
  next
    case (unmapped sl e)
    with run' src show ?thesis
      by (auto simp: op_result_def space_lend_page_def seq_simps_pair)
  next
    case (target sl e r2 s2)
    have we: "wf_entry e" using target(6) source_view_wf [OF wv target(3)] by (simp add: wf_view_def)
    show ?thesis
    proof (cases r2)
      case (Done dl)
      from wf_mapped [OF we target(4)] obtain phys f u
        where e: "e = L2Mapped (page_desc 0 phys f u)" "phys AND 0xfff = 0" "phys \<noteq> 0" "no_wx f" .
      have u: "u"
      proof -
        have "is_user_accessible e"
          using target(3,5,6) by (auto simp: giveable_def source_view_def backs_def page_desc_flags bus_view_page parked_fields(3))
        then show ?thesis using e page_desc_flags(5) [OF e(2), of 0 f u] small_page_nonzero(5) [symmetric] by (cases u) simp_all
      qed
      let ?sh = "L2Unmapped (parked phys (effective_flags phys f) u)"
      let ?new = "if mutable then e else L2Mapped (page_desc 0 phys (flags_sub f MF_W) u)"
      have ws: "wf_entry ?sh" using wf_parked [OF e(2) wf_effective_flags] e(4) u by simp
      have wn: "wf_entry ?new"
        using we wf_page_desc [OF e(2,3) no_wx_sub [OF e(4)], of u] by (simp del: wf_entry.simps)
      have dl: "get_l2_slot mq b s2 = Done dl" "free_at (view_of maps s) q b" using target(10) Done by simp_all
      note w = two_slots [OF keepsD(1) [OF target(2)] mp target(8) mq dl(1) entry_u32_roundtrip [OF ws] entry_u32_roundtrip [OF wn]]
      have en: "entry_phys e = Done phys" "to_unmapped e = Done ?sh"
        "(if \<not> mutable then to_immutable e else Done e) = Done ?new"
        using e to_unmapped_page_desc [OF e(2)] to_immutable_page_desc [OF e(2)] by simp_all
      have "r = Done phys \<and> s' = slot_write dl ?new (slot_write sl ?sh s2)"
        using run' src target(1,4,7) Done en
        by (simp add: space_lend_page_def seq_simps_pair Let_def del: to_unmapped.simps to_immutable.simps entry_phys.simps split del: if_split)
      moreover have "(if mutable then Done e else to_immutable e) = Done ?new" using en(3) by (cases mutable) simp_all
      ultimately show ?thesis
        using w target dl en(1,2) keeps_trans [OF target(2) w(1)] source_view_keeps [OF target(3) w(1)]
        unfolding op_result_def page_spec.simps by auto
    qed (use run' src target in \<open>auto simp: op_result_def space_lend_page_def seq_simps_pair\<close>)
  qed
qed

lemma run_clear:
  assumes wf: "wf_vm s maps" and wv: "wf_view (view_of maps s)" and mp: "maps p = Some mp"
    and run: "run_op maps (OpClear p a mode) s = (r, s')"
  shows "op_result maps (OpClear p a mode) s r s'"
proof -
  obtain t G where rel: "space_rel s mp t G" using wf mp by (rule wf_vm_space)
  let ?e = "view_of maps s p a"
  show ?thesis
  proof (cases "get_l2_slot mp a s")
    case (Done sl)
    note rd = slot_read_view [where maps = maps, OF mp Done]
    have run': "(r, s') = no_addr (clear_shared mp a mode s)" using run mp by (simp add: in_space_def)
    show ?thesis
    proof (cases "is_shared ?e")
      case False
      with run' Done rd keeps_refl [OF wf] show ?thesis
        by (auto simp: op_result_def no_addr_def clear_shared_def seq_simps_pair Let_def)
    next
      case True
      then obtain w where w: "?e = L2Unmapped w" by (cases ?e) simp_all
      have "wf_entry ?e" using wv by (simp add: wf_view_def)
      with w obtain phys f u where e: "phys AND 0xfff = 0" "wf_flags f" "u \<or> phys = 0 \<and> bits f \<noteq> 0" "w = parked phys f u" "no_wx f" by auto
      have u: u using True w e parked_fields(5) [OF e(1,2), of u] by auto
      have wp: "with_phys ?e 0 = Done (L2Unmapped (parked 0 f u))"
        unfolding w e(4) using with_phys_parked [of f 0 phys u] e(1,2) by simp
      have rt: "entry_from_u32 (entry_as_u32 (L2Unmapped (parked 0 f u))) = L2Unmapped (parked 0 f u)"
        by (rule entry_u32_roundtrip, rule wf_parked) (use e(2,5) u in simp_all)
      show ?thesis
      proof (cases mode)
        case ClearOnDemand
        with slot_write_view [OF wf mp Done rt] run' Done rd True wp show ?thesis
          by (simp add: op_result_def no_addr_def clear_shared_def seq_simps_pair Let_def)
      next
        case ClearFree
        with slot_write_view [OF wf mp Done empty_roundtrip] run' Done rd True show ?thesis
          by (simp add: op_result_def no_addr_def clear_shared_def seq_simps_pair Let_def)
      qed
    qed
  next
    case (Fail err)
    with no_slot_view [where maps = maps, OF mp Fail] run mp keeps_refl [OF wf] show ?thesis
      by (auto simp: op_result_def in_space_def no_addr_def clear_shared_def seq_simps_pair)
  next
    case Panic
    with get_l2_slot_no_panic [OF rel] show ?thesis by simp
  qed
qed

lemma run_return:
  assumes wf: "wf_vm s maps" and wv: "wf_view (view_of maps s)" and mp: "maps p = Some mp" and mq: "maps q = Some mq"
    and nd: "\<not> is_on_demand (view_of maps s q b)" and run: "run_op maps (OpReturn p a q b) s = (r, s')"
  shows "op_result maps (OpReturn p a q b) s r s'"
proof -
  obtain t G where rel: "space_rel s mp t G" using wf mp by (rule wf_vm_space)
  obtain t' G' where rel': "space_rel s mq t' G'" using wf mq by (rule wf_vm_space)
  let ?e = "view_of maps s p a" and ?d = "view_of maps s q b"
  have run': "(r, s') = space_return_page mp a mq b s" using run mp mq by (simp add: in_space_def)
  have nophys: "entry_phys L2Empty = Fail BadAddress" by simp
  show ?thesis
  proof (cases "\<exists>sl dl. get_l2_slot mp a s = Done sl \<and> get_l2_slot mq b s = Done dl")
    case False
    from False get_l2_slot_no_panic [OF rel] get_l2_slot_no_panic [OF rel']
    consider err where "get_l2_slot mp a s = Fail err" | sl err where "get_l2_slot mp a s = Done sl" "get_l2_slot mq b s = Fail err"
      by (meson outcome.exhaust)
    then show ?thesis
    proof cases
      case 1
      with no_slot_view [where maps = maps, OF mp 1] run' keeps_refl [OF wf] show ?thesis
        by (auto simp: op_result_def space_return_page_def seq_simps_pair)
    next
      case 2
      with no_slot_view [where maps = maps, OF mq 2(2)] run' keeps_refl [OF wf] show ?thesis
        by (auto simp: op_result_def space_return_page_def seq_simps_pair)
    qed
  next
    case True
    then obtain sl dl where sl: "get_l2_slot mp a s = Done sl" and dl: "get_l2_slot mq b s = Done dl" by blast
    note rd = slot_read_view [where maps = maps, OF mp sl] slot_read_view [where maps = maps, OF mq dl]
    show ?thesis
    proof (cases "\<exists>phys. entry_phys ?e = Done phys \<and> entry_phys ?d = Done phys")
      case False
      have np: "entry_phys x \<noteq> Panic" if "wf_entry x" for x using that by (cases x) auto
      have "entry_phys ?e \<noteq> Panic" "entry_phys ?d \<noteq> Panic" using np wv by (simp_all add: wf_view_def)
      with run' sl dl rd False have "s' = s \<and> (\<exists>err. r = Fail err)"
        by (cases "entry_phys ?e"; cases "entry_phys ?d") (auto simp: space_return_page_def seq_simps_pair Let_def)
      with False keeps_refl [OF wf] show ?thesis by (auto simp: op_result_def)
    next
      case True
      then obtain phys where ph: "entry_phys ?e = Done phys" "entry_phys ?d = Done phys" by blast
      have wd: "wf_entry ?d" using wv by (simp add: wf_view_def)
      from get_l2_slot_Done [OF rel' dl] have ub: "user_page b" by blast
      obtain d' where d': "to_mapped ?d b = Done d'" "wf_entry d'"
      proof (cases ?d)
        case (L2Unmapped w)
        with wd obtain ph' f u where e: "ph' AND 0xfff = 0" "wf_flags f" "w = parked ph' f u" "no_wx f" by auto
        with nd L2Unmapped have "ph' \<noteq> 0" using parked_fields(5) [OF e(1,2), of u] by auto
        with that [of "L2Mapped (page_desc b ph' f u)"] to_mapped_parked [OF e(1,2), of u b] L2Unmapped e wf_page_desc show ?thesis
          by (auto simp: page_desc_user [OF ub] simp del: to_mapped.simps wf_entry.simps)
      qed (use ph(2) wd that in auto)
      note w = two_slots [OF wf mp sl mq dl empty_roundtrip entry_u32_roundtrip [OF d'(2)]]
      have "r = Done phys \<and> s' = slot_write dl d' (slot_write sl L2Empty s)"
        using run' sl dl rd ph d'(1)
        by (simp add: space_return_page_def seq_simps_pair Let_def del: to_mapped.simps entry_phys.simps)
      with w ph d'(1) ub show ?thesis by (auto simp: op_result_def simp del: to_mapped.simps)
    qed
  qed
qed

theorem page_tables_refine_maps_aux:
  assumes "wf_vm s maps" and "wf_view (view_of maps s)" and "valid_op maps op (view_of maps s)"
    and "run_op maps op s = (r, s')"
  shows "op_result maps op s r s'"
  using assms
  by (cases op) (auto simp del: run_op.simps intro: run_map run_unmap run_back run_move run_lend run_return run_clear)

text \<open>Every operation keeps the entries well formed.\<close>

lemma to_mapped_wf:
  assumes "wf_entry d" and "\<not> is_on_demand d" and "to_mapped d b = Done e" and "user_page b"
  shows "wf_entry e"
proof (cases d)
  case (L2Unmapped w)
  with assms(1) obtain phys f u where e: "phys AND 0xfff = 0" "wf_flags f" "no_wx f" "w = parked phys f u" by auto
  with assms(2) L2Unmapped have "phys \<noteq> 0" using parked_fields(5) [OF e(1,2), of u] by auto
  with to_mapped_parked [OF e(1,2), of u b] assms(3) L2Unmapped e wf_page_desc show ?thesis
    by (auto simp: page_desc_user [OF assms(4)] simp del: to_mapped.simps wf_entry.simps)
qed (use assms in \<open>simp_all del: wf_entry.simps\<close>)

lemma user_page_desc: "phys AND 0xfff = 0 \<Longrightarrow> is_user_accessible (L2Mapped (page_desc v phys f u)) \<longleftrightarrow> u"
  using page_desc_flags(5) [of phys v f u] small_page_nonzero(5) [symmetric] by simp

lemma lend_wf:
  assumes "wf_entry e" and "is_mapped e" and "is_user_accessible e"
  shows "to_unmapped e = Done shared \<Longrightarrow> wf_entry shared" and "to_immutable e = Done new \<Longrightarrow> wf_entry new"
proof -
  from wf_mapped [OF assms(1,2)] obtain phys f u
    where e: "e = L2Mapped (page_desc 0 phys f u)" "phys AND 0xfff = 0" "phys \<noteq> 0" "no_wx f" .
  have u: u using assms(3) user_page_desc [OF e(2)] e(1) by simp
  show "to_unmapped e = Done shared \<Longrightarrow> wf_entry shared"
    using to_unmapped_page_desc [OF e(2)] e u wf_parked [OF e(2) wf_effective_flags]
    by (auto simp del: to_unmapped.simps wf_entry.simps)
  show "to_immutable e = Done new \<Longrightarrow> wf_entry new"
    using to_immutable_page_desc [OF e(2)] e wf_page_desc [OF e(2,3) no_wx_sub [OF e(4)]]
    by (auto simp del: to_immutable.simps wf_entry.simps)
qed

lemma clear_wf:
  assumes "wf_entry e" and "is_shared e" and "with_phys e 0 = Done x"
  shows "wf_entry x"
proof -
  obtain w where w: "e = L2Unmapped w" using assms(2) by (cases e) simp_all
  with assms(1) obtain phys f u where e: "phys AND 0xfff = 0" "wf_flags f" "u \<or> phys = 0 \<and> bits f \<noteq> 0"
    "w = parked phys f u" "no_wx f" by auto
  have u using assms(2) w e parked_fields(5) [OF e(1,2), of u] by auto
  moreover have "x = L2Unmapped (parked 0 f u)"
    using with_phys_parked [of f 0 phys u] e(1,2,4) assms(3) w by simp
  ultimately show ?thesis using wf_parked [of 0 f u] e(2,5) by simp
qed

lemma source_view_accessible:
  assumes "source_view F p a v w" and "giveable (v p a)"
  shows "is_user_accessible (w p a)"
  using assms user_page_desc parked_fields(3) [of 0] bus_view_page
  by (fastforce simp: source_view_def giveable_def backs_def simp del: is_user_accessible.simps(2))

lemma page_spec_wf:
  assumes v: "wf_view v" and ok: "valid_op maps op v" and sp: "page_spec F op v r v'"
  shows "wf_view v'"
proof -
  have E: "wf_entry L2Empty" by simp
  show ?thesis
  proof (cases op)
    case (OpMap p phys a f u)
    with sp ok v show ?thesis
      by (auto intro!: wf_view_upd map_entry_wf simp: free_at_def simp del: wf_entry.simps split: outcome.splits)
  next
    case (OpUnmap p a)
    with sp v E show ?thesis by (auto intro!: wf_view_upd simp del: wf_entry.simps split: if_splits)
  next
    case (OpBack p a)
    with sp v backs_wf show ?thesis by (auto split: outcome.splits)
  next
    case (OpMove p a q b)
    with sp obtain w where "source_view F p a v w"
      "v' = w \<or> v' = upd (upd w p a L2Empty) q b (w p a)" by (cases r) auto
    with source_view_wf [OF v] E show ?thesis
      by (auto intro!: wf_view_upd simp del: wf_entry.simps intro: wf_view_at)
  next
    case (OpLend p a q b mutable)
    then obtain w where w: "source_view F p a v w" "case r of
          Done phys \<Rightarrow> is_mapped (w p a) \<and> entry_phys (w p a) = Done phys \<and> giveable (v p a) \<and> free_at v q b
            \<and> (\<exists>shared new. to_unmapped (w p a) = Done shared
                \<and> (if mutable then Done (w p a) else to_immutable (w p a)) = Done new
                \<and> v' = upd (upd w p a shared) q b new)
        | Fail err \<Rightarrow> v' = w \<and> (err = OutOfMemory \<or> \<not> giveable (v p a) \<or> \<not> free_at v q b)
        | Panic \<Rightarrow> False" using sp by auto
    have ww: "wf_view w" using source_view_wf [OF v w(1)] .
    show ?thesis
    proof (cases r)
      case (Done phys)
      with w(2) obtain shared new where d: "is_mapped (w p a)" "giveable (v p a)" "to_unmapped (w p a) = Done shared"
        "(if mutable then Done (w p a) else to_immutable (w p a)) = Done new" "v' = upd (upd w p a shared) q b new" by auto
      note lw = lend_wf [OF wf_view_at [OF ww] d(1) source_view_accessible [OF w(1) d(2)]]
      have "wf_entry new" using d(4) lw(2) wf_view_at [OF ww, of p a] by (cases mutable) simp_all
      with lw(1) [OF d(3)] ww d(5) show ?thesis by (simp add: wf_view_upd)
    qed (use w ww in auto)
  next
    case (OpReturn p a q b)
    with sp ok v E show ?thesis
      by (auto intro!: wf_view_upd intro: to_mapped_wf wf_view_at simp del: wf_entry.simps to_mapped.simps split: outcome.splits)
  next
    case (OpClear p a mode)
    with sp v E show ?thesis
      by (auto intro!: wf_view_upd intro: clear_wf wf_view_at simp del: wf_entry.simps split: if_splits clear_shared_mode.splits)
  qed
qed

section \<open>Sequences of operations\<close>

definition good_spaces :: "spaces \<Rightarrow> vm \<Rightarrow> bool" where
  "good_spaces maps s \<longleftrightarrow> wf_vm s maps \<and> wf_view (view_of maps s)"

inductive page_steps :: "spaces \<Rightarrow> vm \<Rightarrow> vm \<Rightarrow> bool" for maps where
  ps_refl: "page_steps maps s s"
| ps_step: "page_steps maps s s' \<Longrightarrow> valid_op maps op (view_of maps s') \<Longrightarrow> run_op maps op s' = (r, s'')
    \<Longrightarrow> page_steps maps s s''"

lemma page_op_refines:
  assumes "good_spaces maps s" and "valid_op maps op (view_of maps s)" and "run_op maps op s = (r, s')"
  shows "op_result maps op s r s'" and "good_spaces maps s'"
proof -
  from assms show o: "op_result maps op s r s'"
    unfolding good_spaces_def by (intro page_tables_refine_maps_aux) auto
  then show "good_spaces maps s'"
    using assms page_spec_wf unfolding good_spaces_def op_result_def keeps_def by metis
qed

lemma page_steps_good: "page_steps maps s s' \<Longrightarrow> good_spaces maps s \<Longrightarrow> good_spaces maps s'"
  by (induction rule: page_steps.induct) (auto dest: page_op_refines(2))

section \<open>Two processes to try the operations on\<close>

text \<open>
  Processes 2 and 3, each with a first-level table, the second-level tables of its first four
  megabytes, and a page of its own; process 2 has its page mapped.
\<close>

definition two_spaces :: spaces where
  "two_spaces = [2 \<mapsto> \<lparr>ttbr0 = page_addr 0, map_pid = 2\<rparr>, 3 \<mapsto> \<lparr>ttbr0 = page_addr 4, map_pid = 3\<rparr>]"

definition boot_vm :: vm where
  "boot_vm = \<lparr>vm_frames = frames_init (\<lambda>i. if i < 4 then Some 2 else if i < 8 then Some 3 else None),
     pmem = with_group 4 0 6 (with_group 0 0 2 (\<lambda>_. 0))\<rparr>"

definition own_page :: l2_entry where
  "own_page = L2Mapped (page_desc 0 (page_addr 3) MF_W True)"

definition sample_vm :: vm where
  "sample_vm = slot_write \<lparr>sl_ptr = pa (slot_word 2 0x10000), sl_virt = 0x10000\<rparr> own_page boot_vm"

definition group_at :: "nat \<Rightarrow> nat \<Rightarrow> nat option" where
  "group_at i = (\<lambda>g. if g = 0 then Some i else None)"

lemma boot_l1:
  assumes "v < 2048"
  shows "pmem boot_vm (pa (l1_word 0 v)) = (if v div 4 = 0 then group_desc 2 (v mod 4) else 0)"
    and "pmem boot_vm (pa (l1_word 4 v)) = (if v div 4 = 0 then group_desc 6 (v mod 4) else 0)"
proof -
  have p: "l1_word 0 w < 2 ^ 27" "l1_word 4 w < 2 ^ 27" if "w < 2048" for w
    using that by (simp_all add: l1_word_def)
  have ne: "pa (l1_word 0 w) \<noteq> pa (l1_word 4 x)" if "w < 2048" "x < 2048" for w x
    using pa_inj [OF p(1) [OF that(1)] p(2) [OF that(2)]] that by (simp add: l1_word_def)
  have t: "(0::nat) + 2 \<le> RAM_PAGES" "(4::nat) + 2 \<le> RAM_PAGES" by (simp_all add: RAM_PAGES_def)
  have "pmem boot_vm (pa (l1_word 0 v)) = with_group 0 0 2 (\<lambda>_. 0) (pa (l1_word 0 v))"
    using ne [OF assms] by (simp add: boot_vm_def with_group_other)
  also have "\<dots> = (if v div 4 = 0 then group_desc 2 (v mod 4) else 0)"
    using with_group_l1 [OF t(1) _ assms, of 0 2 "\<lambda>_. 0"] by simp
  finally show "pmem boot_vm (pa (l1_word 0 v)) = (if v div 4 = 0 then group_desc 2 (v mod 4) else 0)" .
  have "with_group 0 0 2 (\<lambda>_. 0) (pa (l1_word 4 v)) = (0 :: u32)"
  proof (rule with_group_other)
    fix k :: nat
    assume "k < 4"
    then have "k < 2048" by simp
    from ne [OF this assms] show "pa (l1_word 4 v) \<noteq> pa (l1_word 0 (4 * 0 + k))" by auto
  qed
  then show "pmem boot_vm (pa (l1_word 4 v)) = (if v div 4 = 0 then group_desc 6 (v mod 4) else 0)"
    using with_group_l1 [OF t(2) _ assms, of 0 6 "with_group 0 0 2 (\<lambda>_. 0)"] by (simp add: boot_vm_def)
qed

lemma boot_data:
  assumes "n div 4096 = 2 \<or> n div 4096 = 6"
  shows "pmem boot_vm (pa n) = 0"
proof -
  have n: "n < 2 ^ 27" using assms by (intro page_bound) (auto simp: RAM_PAGES_def)
  have "pa n \<noteq> pa (l1_word t (4 * 0 + k))" if "k < 4" "t = 0 \<or> t = 4" for t k
  proof -
    have "l1_word t k div 4096 \<noteq> n div 4096" using l1_word_page [of k t] that assms by auto
    moreover have "l1_word t k < 2 ^ 27" using that by (auto simp: l1_word_def)
    ultimately show ?thesis using pa_inj [OF n] by auto
  qed
  then show ?thesis by (simp add: boot_vm_def with_group_other)
qed

lemma boot_rel:
  "space_rel boot_vm \<lparr>ttbr0 = page_addr 0, map_pid = 2\<rparr> 0 (group_at 2)"
  "space_rel boot_vm \<lparr>ttbr0 = page_addr 4, map_pid = 3\<rparr> 4 (group_at 6)"
proof -
  have "pmem boot_vm (pa (l1_word 0 (4 * g + k))) = (case group_at 2 g of None \<Rightarrow> 0 | Some i \<Rightarrow> group_desc i k)"
    "pmem boot_vm (pa (l1_word 4 (4 * g + k))) = (case group_at 6 g of None \<Rightarrow> 0 | Some i \<Rightarrow> group_desc i k)"
    if "g < 512" "k < 4" for g k
    using boot_l1 [of "4 * g + k"] that by (auto simp: group_at_def)
  then show "space_rel boot_vm \<lparr>ttbr0 = page_addr 0, map_pid = 2\<rparr> 0 (group_at 2)"
    "space_rel boot_vm \<lparr>ttbr0 = page_addr 4, map_pid = 3\<rparr> 4 (group_at 6)"
    by (auto simp: space_rel_def boot_vm_def RAM_PAGES_def group_at_def split: if_splits)
qed

lemma boot_good: "wf_vm boot_vm two_spaces" and boot_view: "view_of two_spaces boot_vm = (\<lambda>_ _. L2Empty)"
proof -
  show "wf_vm boot_vm two_spaces"
    using boot_rel by (auto simp: wf_vm_def two_spaces_def boot_vm_def split: if_splits)
  have "lookup boot_vm \<lparr>ttbr0 = page_addr 0, map_pid = 2\<rparr> a = L2Empty" "lookup boot_vm \<lparr>ttbr0 = page_addr 4, map_pid = 3\<rparr> a = L2Empty" for a
    using boot_data [of "slot_word 2 a"] boot_data [of "slot_word 6 a"] slot_word_page
    unfolding lookup_def get_l2_slot_user [OF boot_rel(1)] get_l2_slot_user [OF boot_rel(2)]
    by (auto simp: group_at_def slot_read_def entry_from_u32_def)
  then show "view_of two_spaces boot_vm = (\<lambda>_ _. L2Empty)"
    by (auto simp: view_of_def two_spaces_def fun_eq_iff)
qed

lemma own_page_wf: "wf_entry own_page"
proof -
  have "no_wx MF_W" by (simp add: no_wx_def is_set_def flags_and_def flag_defs)
  moreover have "page_addr 3 AND 0xfff = 0" "page_addr 3 \<noteq> 0"
    by (simp_all add: page_addr_def ENCRYPTED_DRAM_BASE_def)
  ultimately show ?thesis unfolding own_page_def by (intro wf_page_desc)
qed

lemma sample_pages: "user_page 0x10000" "group_of 0x10000 = 0" "user_page 0x20000" "group_of 0x20000 = 0"
  by (simp_all add: user_page_def translation_table_index_def L1_USER_PAGE_TABLE_ENTRIES_def group_of_def)

lemma sample_good: "good_spaces two_spaces sample_vm"
  and sample_view: "view_of two_spaces sample_vm = upd (\<lambda>_ _. L2Empty) 2 0x10000 own_page"
  and sample_rel: "space_rel sample_vm \<lparr>ttbr0 = page_addr 0, map_pid = 2\<rparr> 0 (group_at 2)"
    "space_rel sample_vm \<lparr>ttbr0 = page_addr 4, map_pid = 3\<rparr> 4 (group_at 6)"
proof -
  let ?mp = "\<lparr>ttbr0 = page_addr 0, map_pid = 2\<rparr>"
  have m: "two_spaces 2 = Some ?mp" "two_spaces 3 = Some \<lparr>ttbr0 = page_addr 4, map_pid = 3\<rparr>" by (simp_all add: two_spaces_def)
  have sl: "get_l2_slot ?mp 0x10000 boot_vm = Done \<lparr>sl_ptr = pa (slot_word 2 0x10000), sl_virt = 0x10000\<rparr>"
    using sample_pages unfolding get_l2_slot_user [OF boot_rel(1)] by (simp add: group_at_def)
  note w = slot_write_view [OF boot_good m(1) sl entry_u32_roundtrip [OF own_page_wf], folded sample_vm_def]
  show v: "view_of two_spaces sample_vm = upd (\<lambda>_ _. L2Empty) 2 0x10000 own_page"
    using w(2) by (simp add: boot_view)
  show "good_spaces two_spaces sample_vm"
    using keepsD(1) [OF w(1)] own_page_wf by (simp add: good_spaces_def v wf_view_upd wf_view_def)
  note k = slot_write_spec(4) [OF boot_good m(1) sl entry_u32_roundtrip [OF own_page_wf], folded sample_vm_def]
  show "space_rel sample_vm ?mp 0 (group_at 2)" "space_rel sample_vm \<lparr>ttbr0 = page_addr 4, map_pid = 3\<rparr> 4 (group_at 6)"
    using k [OF m(1) boot_rel(1)] k [OF m(2) boot_rel(2)] by simp_all
qed

lemma sample_lend: "\<exists>s1. run_op two_spaces (OpLend 2 0x10000 3 0x20000 False) sample_vm = (Done (page_addr 3), s1)"
proof -
  let ?mp = "\<lparr>ttbr0 = page_addr 0, map_pid = 2\<rparr>" and ?mq = "\<lparr>ttbr0 = page_addr 4, map_pid = 3\<rparr>"
  have m: "two_spaces 2 = Some ?mp" "two_spaces 3 = Some ?mq" by (simp_all add: two_spaces_def)
  have vw: "view_of two_spaces sample_vm 2 0x10000 = lookup sample_vm ?mp 0x10000"
    "view_of two_spaces sample_vm 3 0x20000 = lookup sample_vm ?mq 0x20000" by (simp_all add: view_of_def m)
  have a: "page_addr 3 AND 0xfff = 0" by (simp add: page_addr_def ENCRYPTED_DRAM_BASE_def)
  have G: "group_at 2 (group_of 0x10000) = Some 2" "group_at 6 (group_of 0x20000) = Some 6"
    by (simp_all add: sample_pages group_at_def)
  have al: "\<exists>dl. allocate_l2_slot ?mq 0x20000 sample_vm = (Done dl, sample_vm)"
    using allocate_l2_slot_existing(2) [OF sample_rel(2) sample_pages(3) G(2)] vw(2) sample_view
    by simp
  note sl = allocate_l2_slot_existing(1) [OF sample_rel(1) sample_pages(1) G(1)]
  have e: "lookup sample_vm ?mp 0x10000 = own_page" using vw(1) sample_view by simp
  have "is_user_accessible own_page" "\<not> is_on_demand own_page"
    using user_page_desc [OF a, of 0 MF_W True] by (simp_all add: own_page_def)
  with sl lookup_slot [OF sl] e have src: "\<exists>sl. source_entry ?mp 0x10000 sample_vm = (Done (sl, own_page), sample_vm)"
    by (simp add: source_entry_def seq_simps_pair Let_def)
  have "is_mapped own_page" "entry_phys own_page = Done (page_addr 3)"
    "to_unmapped own_page = Done (L2Unmapped (parked (page_addr 3) (effective_flags (page_addr 3) MF_W) True))"
    "to_immutable own_page = Done (L2Mapped (page_desc 0 (page_addr 3) (flags_sub MF_W MF_W) True))"
    using to_unmapped_page_desc [OF a] to_immutable_page_desc [OF a] page_desc_addr [OF a] by (simp_all add: own_page_def)
  with al src m show ?thesis
    by (auto simp: in_space_def space_lend_page_def seq_simps_pair Let_def simp del: to_unmapped.simps to_immutable.simps entry_phys.simps)
qed

section \<open>Properties\<close>

text \<open>
  C17: The page tables implement one finite map per process from pages to entries. Each operation
  on a page (map, unmap, back on demand, move, lend, return, drop a lent page) has the result of
  its specification on these maps and changes the entries that the specification names and no
  others; the only panic is for a mapping that is to be writable and executable at once, and it changes
  nothing. The tables stay well formed, no page is taken from its owner, and the contents of every
  page that a process owned, other than tables, stay as they were. A page that backs an entry is one
  that nobody owned, is now the process's, holds no table, and reads as zero where it is mapped.
\<close>

theorem page_tables_refine_maps:
  assumes "good_spaces maps s" and "valid_op maps op (view_of maps s)" and "run_op maps op s = (r, s')"
  shows "page_spec (new_frames maps (giver op) s s') op (view_of maps s) r (view_of maps s')
    \<and> good_spaces maps s' \<and> data_kept maps s s'
    \<and> (\<forall>i. allocations (vm_frames s) i \<noteq> None \<longrightarrow> allocations (vm_frames s') i = allocations (vm_frames s) i)"
  using page_op_refines [OF assms] by (simp add: op_result_def keeps_def)

theorem page_tables_refine_maps_witness:
  "\<exists>s'. run_op two_spaces (OpLend 2 0x10000 3 0x20000 False) sample_vm = (Done (page_addr 3), s')
    \<and> good_spaces two_spaces s' \<and> view_of two_spaces s' 2 0x10000 \<noteq> own_page"
proof -
  obtain s1 where run: "run_op two_spaces (OpLend 2 0x10000 3 0x20000 False) sample_vm = (Done (page_addr 3), s1)"
    using sample_lend by blast
  have "valid_op two_spaces (OpLend 2 0x10000 3 0x20000 False) (view_of two_spaces sample_vm)"
    by (simp add: two_spaces_def)
  note r = page_tables_refine_maps [OF sample_good this run]
  then obtain w shared where w: "source_view (new_frames two_spaces 2 sample_vm s1) 2 0x10000 (view_of two_spaces sample_vm) w"
    "is_mapped (w 2 0x10000)" "to_unmapped (w 2 0x10000) = Done shared" "view_of two_spaces s1 2 0x10000 = shared"
    by (auto simp del: to_unmapped.simps to_immutable.simps)
  have "\<not> is_mapped shared"
    using w(2,3) by (cases "w 2 0x10000") (auto simp: phys_and_flags_def new_on_demand_def split: outcome.splits if_splits option.splits)
  with w(4) have "view_of two_spaces s1 2 0x10000 \<noteq> own_page" by (auto simp: own_page_def)
  with run r show ?thesis by blast
qed

text \<open>
  Lending a mapped page and getting it back leaves every page of every process as it was: the
  lender has its page again with the same permissions, also after a read-only loan, and the
  borrower's slot is free again.
\<close>

theorem lend_return_inverse:
  assumes good: "good_spaces maps s" and m: "maps p \<noteq> None" "maps q \<noteq> None"
    and mapped: "is_mapped (view_of maps s p a)"
    and lend: "run_op maps (OpLend p a q b mutable) s = (Done phys, s1)"
    and ret: "run_op maps (OpReturn q b p a) s1 = (r, s2)"
  shows "r = Done phys \<and> view_of maps s2 = view_of maps s"
proof -
  let ?v = "view_of maps s" and ?F = "new_frames maps p s s1"
  have ok: "valid_op maps (OpLend p a q b mutable) ?v" using m by simp
  note L = page_op_refines [OF good ok lend]
  from L(1) obtain w shared new where w: "source_view ?F p a ?v w" "entry_phys (w p a) = Done phys" "free_at ?v q b"
    "to_unmapped (w p a) = Done shared" "(if mutable then Done (w p a) else to_immutable (w p a)) = Done new"
    "view_of maps s1 = upd (upd w p a shared) q b new" "giveable (?v p a)"
    by (auto simp: op_result_def simp del: to_unmapped.simps to_immutable.simps entry_phys.simps)
  have wv: "w = ?v" using w(1) mapped by (auto simp: source_view_def backs_def)
  have we: "wf_entry (?v p a)" using good wf_view_at by (simp add: good_spaces_def)
  from wf_mapped [OF we mapped] obtain ph f u where e: "?v p a = L2Mapped (page_desc 0 ph f u)" "ph AND 0xfff = 0" "ph \<noteq> 0" "no_wx f" .
  have ph: "ph = phys" using w(2) e by (simp add: wv page_desc_addr)
  have sh: "shared = L2Unmapped (parked ph (effective_flags ph f) u)"
    using w(4) to_unmapped_page_desc [OF e(2)] e(1) wv by simp
  have new: "entry_phys new = Done phys"
    using w(2,5) wv e to_immutable_page_desc [OF e(2)] ph by (cases mutable) auto
  have ne: "(p, a) \<noteq> (q, b)" using w(3) mapped by (auto simp: free_at_def)
  have v1: "view_of maps s1 p a = shared" "view_of maps s1 q b = new" using w(6) ne by auto
  have nd: "\<not> is_on_demand (view_of maps s1 p a)"
    using parked_fields(5) [OF e(2) wf_effective_flags, of ph f u] e(3) by (simp add: v1 sh)
  then have ok': "valid_op maps (OpReturn q b p a) (view_of maps s1)" using m by simp
  note R = page_op_refines(1) [OF L(2) ok' ret, unfolded op_result_def]
  have shp: "entry_phys shared = Done phys"
    using parked_fields(1) [OF e(2) wf_effective_flags] by (simp add: sh ph)
  from R shp new v1 obtain d where d: "r = Done phys" "user_page a" "to_mapped shared a = Done d"
    "view_of maps s2 = upd (upd (view_of maps s1) q b L2Empty) p a d"
    by (cases r) (auto simp del: to_mapped.simps entry_phys.simps)
  have "d = L2Mapped (page_desc a ph (effective_flags ph f) u)"
    using d(3) to_mapped_parked [OF e(2) wf_effective_flags] by (simp add: sh)
  then have "d = ?v p a" by (simp add: page_desc_effective page_desc_user [OF d(2)] e(1))
  with d(4) w(3,6) wv ne have "view_of maps s2 = ?v" by (auto simp: fun_eq_iff free_at_def)
  with d(1) show ?thesis by simp
qed

theorem lend_return_inverse_witness:
  "\<exists>s1 s2. run_op two_spaces (OpLend 2 0x10000 3 0x20000 False) sample_vm = (Done (page_addr 3), s1)
    \<and> run_op two_spaces (OpReturn 3 0x20000 2 0x10000) s1 = (Done (page_addr 3), s2)
    \<and> view_of two_spaces s2 2 0x10000 = own_page"
proof -
  obtain s1 where run: "run_op two_spaces (OpLend 2 0x10000 3 0x20000 False) sample_vm = (Done (page_addr 3), s1)"
    using sample_lend by blast
  obtain r s2 where ret: "run_op two_spaces (OpReturn 3 0x20000 2 0x10000) s1 = (r, s2)" by fastforce
  have "two_spaces 2 \<noteq> None" "two_spaces 3 \<noteq> None" by (simp_all add: two_spaces_def)
  moreover have "is_mapped (view_of two_spaces sample_vm 2 0x10000)" by (simp add: sample_view own_page_def)
  ultimately have "r = Done (page_addr 3) \<and> view_of two_spaces s2 = view_of two_spaces sample_vm"
    using lend_return_inverse [OF sample_good _ _ _ run ret] by blast
  with run ret show ?thesis by (auto simp: sample_view)
qed

text \<open>
  C18: No page of any process is ever both writable and executable, whatever sequence of page
  operations runs: in every descriptor that the hardware reads, the write-protect bit or the
  execute-never bit is set.
\<close>

theorem never_writable_and_executable:
  assumes "good_spaces maps s" and "page_steps maps s s'" and "view_of maps s' p a = L2Mapped d"
  shows "d AND SP_AP2 \<noteq> 0 \<or> d AND SP_XN \<noteq> 0"
proof -
  have "wf_entry (L2Mapped d)"
    using page_steps_good [OF assms(2,1)] wf_view_at assms(3) unfolding good_spaces_def by metis
  then show ?thesis using page_desc_wx by auto
qed

theorem never_writable_and_executable_witness:
  "\<exists>s1 d. page_steps two_spaces sample_vm s1 \<and> view_of two_spaces s1 3 0x20000 = L2Mapped d
    \<and> (d AND SP_AP2 \<noteq> 0 \<or> d AND SP_XN \<noteq> 0)"
proof -
  obtain s1 where run: "run_op two_spaces (OpLend 2 0x10000 3 0x20000 False) sample_vm = (Done (page_addr 3), s1)"
    using sample_lend by blast
  have ok: "valid_op two_spaces (OpLend 2 0x10000 3 0x20000 False) (view_of two_spaces sample_vm)"
    by (simp add: two_spaces_def)
  have steps: "page_steps two_spaces sample_vm s1" using ps_step [OF ps_refl ok run] .
  from page_op_refines(1) [OF sample_good ok run] obtain e where "is_mapped e" "to_immutable e = Done (view_of two_spaces s1 3 0x20000)"
    by (auto simp: op_result_def simp del: to_immutable.simps to_unmapped.simps entry_phys.simps)
  then obtain d where "view_of two_spaces s1 3 0x20000 = L2Mapped d" by (cases e) (auto dest: sym)
  with never_writable_and_executable [OF sample_good steps this] steps show ?thesis by blast
qed

end
