(* ===== verification/Address_Search.thy ===== *)
theory Address_Search
  imports Address_Spaces
begin

unbundle bit_operations_syntax

text \<open>
  The search for free virtual addresses: \<open>find_free_run\<close> of \<open>xous/kernel/src/arch/arm/mem.rs\<close>,
  which walks sections and pages in one pass, and \<open>find_virtual_address\<close> of
  \<open>xous/kernel/src/process.rs\<close>, which starts at the hint of the process and wraps around. The first
  is shown equal to a search that tries every page as a start; the second finds a free run wherever
  in the area for mappings there is one. Addresses are numbers here: the searches stay below
  \<open>2\<^sup>3\<^sup>1\<close>, where nothing wraps.
\<close>

section \<open>The search\<close>

text \<open>What the search carries from page to page: a result, or the start and length of the current run.\<close>

datatype run_state = Found nat | Searching nat nat

definition page_free :: "run_state \<Rightarrow> nat \<Rightarrow> nat \<Rightarrow> nat \<Rightarrow> run_state" where
  "page_free st needed addr pages =
     (case st of
        Found a \<Rightarrow> Found a
      | Searching start len \<Rightarrow>
          (let start' = (if len = 0 then addr else start); len' = len + pages in
           if len' \<ge> needed then Found start' else Searching start' len'))"

definition break_run :: "run_state \<Rightarrow> run_state" where
  "break_run st = (case st of Found a \<Rightarrow> Found a | Searching start len \<Rightarrow> Searching start 0)"

text \<open>The inner loop, over the entries of one second-level table.\<close>

function scan_table :: "vm \<Rightarrow> usize \<Rightarrow> nat \<Rightarrow> nat \<Rightarrow> nat \<Rightarrow> run_state \<Rightarrow> run_state" where
  "scan_table s l2 section_end needed addr st =
     (if addr < section_end then
        (if is_empty (slot_read (l2_slot_at l2 (of_nat addr)) s) then
           (case page_free st needed addr 1 of
              Found a \<Rightarrow> Found a
            | st' \<Rightarrow> scan_table s l2 section_end needed (addr + 4096) st')
         else scan_table s l2 section_end needed (addr + 4096) (break_run st))
      else st)"
  by pat_completeness auto
termination by (relation "measure (\<lambda>(s, l2, e, n, a, st). e - a)") auto

declare scan_table.simps [simp del]

definition section_end_of :: "nat \<Rightarrow> nat \<Rightarrow> nat" where
  "section_end_of addr stop = min ((addr div 2 ^ 20 + 1) * 2 ^ 20) stop"

lemma section_end_progress:
  assumes "addr < stop"
  shows "addr < section_end_of addr stop"
proof -
  have "addr mod 2 ^ 20 < 2 ^ 20" by simp
  then have "addr < addr div 2 ^ 20 * 2 ^ 20 + 2 ^ 20" using div_mult_mod_eq [of addr "2 ^ 20"] by linarith
  with assms show ?thesis by (simp add: section_end_of_def)
qed

text \<open>The outer loop, over sections. The index of the next section must exist.\<close>

function find_run_loop :: "mapping \<Rightarrow> vm \<Rightarrow> nat \<Rightarrow> nat \<Rightarrow> nat \<Rightarrow> run_state \<Rightarrow> nat option res" where
  "find_run_loop mp s stop needed addr st =
     (if addr < stop then
        (let vpn1 = addr div 2 ^ 20; sec = section_end_of addr stop in
         if vpn1 + 1 \<ge> 4096 then Panic
         else case l1_entry_ptr mp vpn1 of
           Fail e \<Rightarrow> Fail e | Panic \<Rightarrow> Panic
         | Done p \<Rightarrow>
             (case tt_type_of (pmem s p) of
                TT_Invalid \<Rightarrow>
                  (case page_free st needed addr ((sec - addr) div 4096) of
                     Found a \<Rightarrow> Done (Some a)
                   | st' \<Rightarrow> find_run_loop mp s stop needed sec st')
              | TT_Page \<Rightarrow>
                  (case tt_addr (pmem s p) of
                     None \<Rightarrow> Panic
                   | Some l2 \<Rightarrow>
                       (case transparent l2 of
                          Fail e \<Rightarrow> Fail e | Panic \<Rightarrow> Panic
                        | Done t \<Rightarrow>
                            (case scan_table s t sec needed addr st of
                               Found a \<Rightarrow> Done (Some a)
                             | st' \<Rightarrow> find_run_loop mp s stop needed sec st')))
              | _ \<Rightarrow> find_run_loop mp s stop needed sec (break_run st)))
      else Done None)"
  by pat_completeness auto
termination
  by (relation "measure (\<lambda>(mp, s, e, n, a, st). e - a)") (use section_end_progress in \<open>auto intro: diff_less_mono2\<close>)

declare find_run_loop.simps [simp del]

definition find_free_run :: "mapping \<Rightarrow> vm \<Rightarrow> nat \<Rightarrow> nat \<Rightarrow> nat \<Rightarrow> nat option res" where
  "find_free_run mp s from stop needed = find_run_loop mp s stop needed from (Searching from 0)"

section \<open>The reference: try every page as a start\<close>

definition pages :: "nat \<Rightarrow> nat \<Rightarrow> nat list" where
  "pages from stop = map (\<lambda>k. from + k * 4096) [0..<(stop - from) div 4096]"

definition run_at :: "(nat \<Rightarrow> bool) \<Rightarrow> nat \<Rightarrow> nat \<Rightarrow> nat \<Rightarrow> bool" where
  "run_at free stop needed a \<longleftrightarrow> a + needed * 4096 \<le> stop \<and> (\<forall>k \<in> set [0..<needed]. free (a + k * 4096))"

definition first_run :: "(nat \<Rightarrow> bool) \<Rightarrow> nat \<Rightarrow> nat \<Rightarrow> nat \<Rightarrow> nat option" where
  "first_run free from stop needed = find (run_at free stop needed) (pages from stop)"

fun scan_pages :: "(nat \<Rightarrow> bool) \<Rightarrow> nat \<Rightarrow> nat list \<Rightarrow> run_state \<Rightarrow> run_state" where
  "scan_pages free needed [] st = st"
| "scan_pages free needed (a # as) st =
     scan_pages free needed as (if free a then page_free st needed a 1 else break_run st)"

lemma scan_pages_append:
  "scan_pages free needed (as @ bs) st = scan_pages free needed bs (scan_pages free needed as st)"
  by (induction as arbitrary: st) simp_all

lemma scan_pages_Found [simp]: "scan_pages free needed as (Found a) = Found a"
  by (induction as) (simp_all add: page_free_def break_run_def)

lemma pages_empty [simp]: "stop \<le> from \<Longrightarrow> pages from stop = []"
  by (simp add: pages_def)

lemma pages_append:
  assumes "a \<le> b" and "b \<le> c" and "a mod 4096 = 0" and "b mod 4096 = 0"
  shows "pages a c = pages a b @ pages b c"
proof -
  obtain k where k: "b = a + k * 4096"
  proof -
    have "(b - a) mod 4096 = 0" using assms by (metis mod_0_imp_dvd dvd_diff_nat dvd_imp_mod_0)
    then have "b = a + ((b - a) div 4096) * 4096" using assms(1) by auto
    then show ?thesis using that by blast
  qed
  have n: "(c - a) div 4096 = k + (c - b) div 4096"
  proof -
    have "c - a = k * 4096 + (c - b)" using assms(1,2) k by simp
    then show ?thesis by simp
  qed
  have m: "(b - a) div 4096 = k" using k by simp
  have sp: "[0..<k + m] = [0..<k] @ map (\<lambda>i. i + k) [0..<m]" for m :: nat
  proof -
    have "[0..<k + m] = [0..<k] @ [k..<k + m]" by (rule upt_add_eq_append) simp
    then show ?thesis using map_add_upt [of k m] by (simp add: add.commute)
  qed
  show ?thesis unfolding pages_def n m sp by (simp add: k algebra_simps)
qed

lemma pages_Cons:
  assumes "a < c" and "a mod 4096 = 0" and "c mod 4096 = 0"
  shows "pages a c = a # pages (a + 4096) c" and "a + 4096 \<le> c"
proof -
  show le: "a + 4096 \<le> c"
  proof -
    obtain i j where "a = 4096 * i" "c = 4096 * j" using assms(2,3) by (metis mod_0_imp_dvd dvdE)
    with assms(1) show ?thesis by simp
  qed
  have "pages a (a + 4096) = [a]" by (simp add: pages_def)
  with pages_append [of a "a + 4096" c] le assms(2) show "pages a c = a # pages (a + 4096) c" by simp
qed

text \<open>A stretch of free pages, taken at once.\<close>

lemma scan_pages_free:
  assumes "\<And>x. x \<in> set as \<Longrightarrow> free x" and "as \<noteq> []" and "len < needed"
  shows "scan_pages free needed as (Searching start len) = page_free (Searching start len) needed (hd as) (length as)"
  using assms
proof (induction as arbitrary: start len)
  case (Cons a as)
  show ?case
  proof (cases "as = [] \<or> len + 1 \<ge> needed")
    case True
    with Cons.prems show ?thesis by (auto simp: page_free_def Let_def)
  next
    case False
    with Cons.IH [of "len + 1" "if len = 0 then a else start"] Cons.prems show ?thesis
      by (auto simp: page_free_def Let_def)
  qed
qed simp

text \<open>The scan finds the first run.\<close>

lemma scan_pages_first:
  assumes "cur + len * 4096 = addr" "len > 0 \<longrightarrow> start = cur" "len < needed" "from \<le> cur"
    "\<forall>k < len. free (cur + k * 4096)"
    "\<forall>b. from \<le> b \<and> b < cur \<and> b mod 4096 = 0 \<longrightarrow> \<not> run_at free stop needed b"
    "addr mod 4096 = 0" "stop mod 4096 = 0" "addr \<le> stop"
  shows "case scan_pages free needed (pages addr stop) (Searching start len) of
      Found a \<Rightarrow> from \<le> a \<and> a mod 4096 = 0 \<and> run_at free stop needed a
        \<and> (\<forall>b. from \<le> b \<and> b < a \<and> b mod 4096 = 0 \<longrightarrow> \<not> run_at free stop needed b)
    | _ \<Rightarrow> \<forall>b. from \<le> b \<and> b mod 4096 = 0 \<longrightarrow> \<not> run_at free stop needed b"
  using assms
proof (induction "stop - addr" arbitrary: addr cur len start rule: less_induct)
  case less
  have cm: "cur mod 4096 = 0" using less.prems(7) unfolding less.prems(1) [symmetric] by (metis mod_mult_self1)
  show ?case
  proof (cases "addr < stop")
    case False
    then have "addr = stop" using less.prems(9) by simp
    have "\<not> run_at free stop needed b" if "from \<le> b" "b mod 4096 = 0" for b
    proof (cases "b < cur")
      case True
      with less.prems(6) [rule_format, of b] that show ?thesis by simp
    next
      case False
      have "len * 4096 < needed * 4096" using less.prems(3) by simp
      with False less.prems(1) \<open>addr = stop\<close> have "stop < b + needed * 4096" by linarith
      then show ?thesis by (simp add: run_at_def)
    qed
    with \<open>addr = stop\<close> show ?thesis by simp
  next
    case True
    note pc = pages_Cons [OF True less.prems(7,8)]
    have am: "(addr + 4096) mod 4096 = 0" using less.prems(7) by simp
    show ?thesis
    proof (cases "free addr")
      case free: True
      have fr: "free (cur + k * 4096)" if "k < len + 1" for k
        using that less.prems(1,5) free by (cases "k = len") auto
      have start: "(if len = 0 then addr else start) = cur" using less.prems(1,2) by auto
      show ?thesis
      proof (cases "needed \<le> len + 1")
        case True
        then have "needed = len + 1" using less.prems(3) by simp
        then have "run_at free stop needed cur" using fr pc(2) less.prems(1) by (auto simp: run_at_def)
        with pc(1) free True start less.prems(4,6) cm show ?thesis by (simp add: page_free_def Let_def)
      next
        case False
        have "case scan_pages free needed (pages (addr + 4096) stop) (Searching cur (len + 1)) of
          Found a \<Rightarrow> from \<le> a \<and> a mod 4096 = 0 \<and> run_at free stop needed a
            \<and> (\<forall>b. from \<le> b \<and> b < a \<and> b mod 4096 = 0 \<longrightarrow> \<not> run_at free stop needed b)
          | _ \<Rightarrow> \<forall>b. from \<le> b \<and> b mod 4096 = 0 \<longrightarrow> \<not> run_at free stop needed b"
          by (rule less.hyps) (use True less.prems False fr am pc(2) in auto)
        with pc(1) free False start show ?thesis by (simp add: page_free_def Let_def)
      qed
    next
      case free: False
      have "\<not> run_at free stop needed b" if b: "from \<le> b" "b < addr + 4096" "b mod 4096 = 0" for b
      proof (cases "b < cur")
        case True
        with less.prems(6) [rule_format, of b] b show ?thesis by simp
      next
        case False
        have "b \<le> addr"
        proof (rule ccontr)
          assume "\<not> b \<le> addr"
          with pages_Cons(2) [of addr b] less.prems(7) b(3) have "addr + 4096 \<le> b" by simp
          with b(2) show False by simp
        qed
        then obtain k where k: "addr = b + k * 4096"
        proof -
          have "(addr - b) mod 4096 = 0" using b(3) less.prems(7) by (metis mod_0_imp_dvd dvd_diff_nat dvd_imp_mod_0)
          with \<open>b \<le> addr\<close> that [of "(addr - b) div 4096"] show ?thesis by auto
        qed
        have "k * 4096 \<le> len * 4096" using False k less.prems(1) by linarith
        then have "k < needed" using less.prems(3) by simp
        with free k show ?thesis by (auto simp: run_at_def)
      qed
      then have "case scan_pages free needed (pages (addr + 4096) stop) (Searching start 0) of
          Found a \<Rightarrow> from \<le> a \<and> a mod 4096 = 0 \<and> run_at free stop needed a
            \<and> (\<forall>b. from \<le> b \<and> b < a \<and> b mod 4096 = 0 \<longrightarrow> \<not> run_at free stop needed b)
          | _ \<Rightarrow> \<forall>b. from \<le> b \<and> b mod 4096 = 0 \<longrightarrow> \<not> run_at free stop needed b"
        by (intro less.hyps [of "addr + 4096" "addr + 4096"]) (use True less.prems am pc(2) in auto)
      with pc(1) free show ?thesis by (simp add: break_run_def)
    qed
  qed
qed

section \<open>The walk is a scan of the pages\<close>

lemma scan_table_pages:
  assumes "addr mod 4096 = 0" "sec mod 4096 = 0" "addr \<le> sec" "st = Searching start len"
    and "\<And>x. addr \<le> x \<Longrightarrow> x < sec \<Longrightarrow> x mod 4096 = 0 \<Longrightarrow> is_empty (slot_read (l2_slot_at l2 (of_nat x)) s) = free x"
  shows "scan_table s l2 sec needed addr st = scan_pages free needed (pages addr sec) st"
  using assms
proof (induction "sec - addr" arbitrary: addr st start len rule: less_induct)
  case less
  show ?case
  proof (cases "addr < sec")
    case False
    with less.prems(3) show ?thesis by (simp add: scan_table.simps)
  next
    case True
    note pc = pages_Cons [OF True less.prems(1,2)]
    have IH: "scan_table s l2 sec needed (addr + 4096) (Searching a l)
        = scan_pages free needed (pages (addr + 4096) sec) (Searching a l)" for a l
      by (rule less.hyps [OF _ _ less.prems(2) pc(2) refl]) (use True less.prems(1,5) in auto)
    have f: "is_empty (slot_read (l2_slot_at l2 (of_nat addr)) s) = free addr" using less.prems(1,5) True by simp
    show ?thesis
    proof (cases "free addr")
      case fr: True
      show ?thesis
        using f fr True IH pc(1) by (subst scan_table.simps) (cases "page_free st needed addr 1", simp_all)
    next
      case fr: False
      show ?thesis
        using f fr True IH pc(1) less.prems(4) by (subst scan_table.simps) (simp add: break_run_def)
    qed
  qed
qed

definition free_page_at :: "vm \<Rightarrow> mapping \<Rightarrow> nat \<Rightarrow> bool" where
  "free_page_at s mp a \<longleftrightarrow> lookup s mp (of_nat a) = L2Empty"

lemma unat_small: "x < 2 ^ 31 \<Longrightarrow> unat (of_nat x :: usize) = x"
  by (simp add: unsigned_of_nat take_bit_nat_eq_self)

lemma nat_page_index:
  assumes "x < 2 ^ 31" and "x mod 4096 = 0"
  shows "user_page (of_nat x)" and "translation_table_index (of_nat x) = x div 2 ^ 20"
proof -
  show t: "translation_table_index (of_nat x) = x div 2 ^ 20"
    using unat_small [OF assms(1)] by (simp add: translation_table_index_def unat_drop)
  have "take_bit 12 (of_nat x :: usize) = 0"
    using assms unat_small [OF assms(1)] by (simp add: word_unat_eq_iff unsigned_take_bit_eq) (simp add: take_bit_eq_mod)
  then have "(of_nat x :: usize) AND 0xfff = 0" by (simp add: take_bit_eq_mask mask_eq_exp_minus_1)
  moreover have "x div 2 ^ 20 < 2048" using assms(1) by (simp add: div_less_iff_less_mult)
  ultimately show "user_page (of_nat x)" by (simp add: user_page_def t L1_USER_PAGE_TABLE_ENTRIES_def)
qed

lemma section_end_props:
  assumes "addr < stop" and "addr mod 4096 = 0" and "stop mod 4096 = 0"
  shows "section_end_of addr stop mod 4096 = 0" and "section_end_of addr stop \<le> stop"
    and "addr \<le> x \<Longrightarrow> x < section_end_of addr stop \<Longrightarrow> x div 2 ^ 20 = addr div 2 ^ 20"
proof -
  show "section_end_of addr stop \<le> stop" by (simp add: section_end_of_def)
  have "(addr div 2 ^ 20 + 1) * 2 ^ 20 = (addr div 2 ^ 20 + 1) * 256 * (4096 :: nat)" by simp
  then have "((addr div 2 ^ 20 + 1) * 2 ^ 20) mod 4096 = (0 :: nat)" by (metis mod_mult_self2_is_0)
  with assms(3) show "section_end_of addr stop mod 4096 = 0" by (simp add: section_end_of_def min_def)
  assume x: "addr \<le> x" "x < section_end_of addr stop"
  then have "x < (addr div 2 ^ 20 + 1) * 2 ^ 20" by (simp add: section_end_of_def)
  then have "x div 2 ^ 20 < addr div 2 ^ 20 + 1" by (simp add: div_less_iff_less_mult)
  moreover have "addr div 2 ^ 20 \<le> x div 2 ^ 20" using x(1) by (rule div_le_mono)
  ultimately show "x div 2 ^ 20 = addr div 2 ^ 20" by simp
qed

lemma pages_mem: "x \<in> set (pages a c) \<Longrightarrow> a mod 4096 = 0 \<Longrightarrow> a \<le> x \<and> x < c \<and> x mod 4096 = 0"
proof -
  assume "x \<in> set (pages a c)" and a: "a mod 4096 = 0"
  then obtain k where k: "x = a + k * 4096" "k + 1 \<le> (c - a) div 4096" by (auto simp: pages_def)
  then have "(k + 1) * 4096 \<le> c - a" by (simp only: less_eq_div_iff_mult_less_eq zero_less_numeral)
  then have "x < c" using k(1) by simp
  moreover have "x mod 4096 = 0" using k(1) a by (metis mod_mult_self1)
  ultimately show ?thesis using k(1) by simp
qed

lemma find_run_loop_pages:
  assumes rel: "space_rel s mp t G" and stop: "stop \<le> 2 ^ 31" "stop mod 4096 = 0"
    and "addr mod 4096 = 0" and "len < needed"
  shows "find_run_loop mp s stop needed addr (Searching start len)
    = Done (case scan_pages (free_page_at s mp) needed (pages addr stop) (Searching start len) of Found a \<Rightarrow> Some a | _ \<Rightarrow> None)"
  using assms(4,5)
proof (induction "stop - addr" arbitrary: addr start len rule: less_induct)
  case less
  show ?case
  proof (cases "addr < stop")
    case False
    then show ?thesis by (simp add: find_run_loop.simps)
  next
    case True
    let ?v = "addr div 2 ^ 20" and ?sec = "section_end_of addr stop" and ?free = "free_page_at s mp"
    have a31: "addr < 2 ^ 31" using True stop(1) by simp
    have v: "?v < 2048" using a31 by (simp add: div_less_iff_less_mult)
    note sp = section_end_props [OF True less.prems(1) stop(2)] and prog = section_end_progress [OF True]
    have split: "pages addr stop = pages addr ?sec @ pages ?sec stop"
      using prog sp less.prems(1) by (intro pages_append) auto
    have IH: "find_run_loop mp s stop needed ?sec (Searching a l)
        = Done (case scan_pages ?free needed (pages ?sec stop) (Searching a l) of Found a \<Rightarrow> Some a | _ \<Rightarrow> None)" if "l < needed" for a l
      using less.hyps [OF _ sp(1) that] prog True by auto
    have x31: "x < 2 ^ 31" if "x < ?sec" for x using that sp(2) stop(1) by simp
    note ptr = l1_entry_ptr_user [OF rel v] and l1 = space_relD(5) [OF rel v]
    have group: "group_of (of_nat x) = ?v div 4" if "addr \<le> x" "x < ?sec" "x mod 4096 = 0" for x
      using nat_page_index(2) [OF x31 [OF that(2)] that(3)] sp(3) [OF that(1,2)] by (simp add: group_of_def)
    have st: "\<exists>a l. st = Searching a l \<and> l < needed"
      if "st = scan_pages ?free needed as (Searching start len)" "\<forall>a. st \<noteq> Found a" for st as
      using that less.prems(2)
    proof (induction as arbitrary: start len)
      case (Cons x as)
      show ?case
      proof (cases "?free x \<and> needed \<le> len + 1")
        case True
        with Cons.prems show ?thesis by (simp add: page_free_def Let_def)
      next
        case False
        with Cons show ?thesis
          by (cases "?free x") (auto simp: page_free_def Let_def break_run_def dest!: Cons.IH)
      qed
    qed simp
    show ?thesis
    proof (cases "G (?v div 4)")
      case None
      have "?free x" if "x \<in> set (pages addr ?sec)" for x
      proof -
        note x = pages_mem [OF that less.prems(1)]
        show ?thesis
          using None group [of x] x unfolding free_page_at_def lookup_def get_l2_slot_user [OF rel]
          by (auto simp: nat_page_index(1) [OF x31])
      qed
      moreover have "pages addr ?sec \<noteq> []" "hd (pages addr ?sec) = addr"
        using pages_Cons(1) [OF prog less.prems(1) sp(1)] by simp_all
      moreover have "length (pages addr ?sec) = (?sec - addr) div 4096" by (simp add: pages_def)
      ultimately have scan: "scan_pages ?free needed (pages addr ?sec) (Searching start len)
          = page_free (Searching start len) needed addr ((?sec - addr) div 4096)"
        using scan_pages_free [of "pages addr ?sec" ?free len needed start] less.prems(2) by simp
      have "tt_type_of (pmem s (pa (l1_word t ?v))) = TT_Invalid" using l1 None by (simp add: tt_type_of_def)
      then have "find_run_loop mp s stop needed addr (Searching start len)
          = (case page_free (Searching start len) needed addr ((?sec - addr) div 4096) of
               Found a \<Rightarrow> Done (Some a) | st' \<Rightarrow> find_run_loop mp s stop needed ?sec st')"
        using True v ptr by (subst find_run_loop.simps) (simp add: Let_def)
      with st [OF scan [symmetric]] IH split scan show ?thesis
        by (cases "page_free (Searching start len) needed addr ((?sec - addr) div 4096)")
          (auto simp: scan_pages_append)
    next
      case (Some i)
      have g: "?v div 4 < 512" using v by (simp add: div_less_iff_less_mult)
      have i: "i < RAM_PAGES" using space_relD(6) [OF rel g Some] by blast
      let ?t = "pa (i * 4096 + ?v mod 4 * 1024)"
      have desc: "tt_type_of (pmem s (pa (l1_word t ?v))) = TT_Page" "tt_addr (pmem s (pa (l1_word t ?v))) = Some ?t"
        using l1 Some group_desc_type(1,2) [OF i, of "?v mod 4"] by simp_all
      have enc: "is_address_encrypted ?t"
        using pa_encrypted [OF group_base(1) [OF i, of "?v mod 4"]] by simp
      have fr: "is_empty (slot_read (l2_slot_at ?t (of_nat x)) s) = ?free x"
        if x: "addr \<le> x" "x < ?sec" "x mod 4096 = 0" for x
      proof -
        have "translation_table_index (of_nat x) = ?v"
          using nat_page_index(2) [OF x31 [OF x(2)] x(3)] sp(3) [OF x(1,2)] by simp
        then have sl: "l2_slot_at ?t (of_nat x) = \<lparr>sl_ptr = pa (slot_word i (of_nat x)), sl_virt = of_nat x\<rparr>"
          using page_desc_slot(2) [OF i, of "of_nat x"] by simp
        have "user_page (of_nat x)" using nat_page_index(1) [OF x31 [OF x(2)] x(3)] .
        then have "get_l2_slot mp (of_nat x) s = Done \<lparr>sl_ptr = pa (slot_word i (of_nat x)), sl_virt = of_nat x\<rparr>"
          using group [OF x] Some unfolding get_l2_slot_user [OF rel] by (simp add: user_page_def)
        then show ?thesis unfolding sl free_page_at_def lookup_def is_empty_def by simp
      qed
      have scan: "scan_table s ?t ?sec needed addr (Searching start len)
          = scan_pages ?free needed (pages addr ?sec) (Searching start len)"
        using prog by (intro scan_table_pages [OF less.prems(1) sp(1) _ refl fr]) auto
      have "find_run_loop mp s stop needed addr (Searching start len)
          = (case scan_pages ?free needed (pages addr ?sec) (Searching start len) of
               Found a \<Rightarrow> Done (Some a) | st' \<Rightarrow> find_run_loop mp s stop needed ?sec st')"
        using True v ptr desc enc scan by (subst find_run_loop.simps) (simp add: Let_def transparent_def)
      with st [OF refl, of "pages addr ?sec"] IH split show ?thesis
        by (cases "scan_pages ?free needed (pages addr ?sec) (Searching start len)")
          (auto simp: scan_pages_append)
    qed
  qed
qed

text \<open>The first run, as the plain search over all starts finds it.\<close>

lemma first_run_char:
  assumes "from mod 4096 = 0" and "stop mod 4096 = 0" and "0 < needed"
  shows "first_run free from stop needed = Some a \<longleftrightarrow>
      from \<le> a \<and> a mod 4096 = 0 \<and> run_at free stop needed a
        \<and> (\<forall>b. from \<le> b \<and> b < a \<and> b mod 4096 = 0 \<longrightarrow> \<not> run_at free stop needed b)"
    and "first_run free from stop needed = None \<longleftrightarrow> (\<forall>b. from \<le> b \<and> b mod 4096 = 0 \<longrightarrow> \<not> run_at free stop needed b)"
proof -
  let ?P = "run_at free stop needed" and ?n = "(stop - from) div 4096"
  have starts: "\<exists>k < ?n. b = from + k * 4096" if "from \<le> b" "b mod 4096 = 0" "?P b" for b
  proof -
    have "(b - from) mod 4096 = 0" using that(2) assms(1) by (metis mod_0_imp_dvd dvd_diff_nat dvd_imp_mod_0)
    then have b: "b = from + (b - from) div 4096 * 4096" using that(1) by auto
    have "b + needed * 4096 \<le> stop" using that(3) by (simp add: run_at_def)
    then have "((b - from) div 4096 + 1) * 4096 \<le> stop - from" using b assms(3) by simp
    then have "(b - from) div 4096 + 1 \<le> ?n" by (simp only: less_eq_div_iff_mult_less_eq zero_less_numeral)
    with b show ?thesis by (metis add.commute less_eq_Suc_le plus_1_eq_Suc)
  qed
  have al: "(from + k * 4096) mod 4096 = 0" for k using assms(1) by (metis mod_mult_self1)
  have fr: "first_run free from stop needed = Some a \<longleftrightarrow>
      (\<exists>i < ?n. ?P (from + i * 4096) \<and> a = from + i * 4096 \<and> (\<forall>j < i. \<not> ?P (from + j * 4096)))"
    by (auto simp: first_run_def find_Some_iff pages_def)
  show "first_run free from stop needed = Some a \<longleftrightarrow>
      from \<le> a \<and> a mod 4096 = 0 \<and> ?P a \<and> (\<forall>b. from \<le> b \<and> b < a \<and> b mod 4096 = 0 \<longrightarrow> \<not> ?P b)"
  proof
    assume "first_run free from stop needed = Some a"
    then obtain i where i: "i < ?n" "?P (from + i * 4096)" "a = from + i * 4096" "\<forall>j < i. \<not> ?P (from + j * 4096)" unfolding fr by blast
    have "\<not> ?P b" if "from \<le> b" "b < a" "b mod 4096 = 0" for b
    proof
      assume P: "?P b"
      from starts [OF that(1,3) P] obtain j where "b = from + j * 4096" by blast
      then have "j < i" using that(2) i(3) by simp
      with i(4) P \<open>b = from + j * 4096\<close> show False by simp
    qed
    with i al show "from \<le> a \<and> a mod 4096 = 0 \<and> ?P a \<and> (\<forall>b. from \<le> b \<and> b < a \<and> b mod 4096 = 0 \<longrightarrow> \<not> ?P b)" by simp
  next
    assume a: "from \<le> a \<and> a mod 4096 = 0 \<and> ?P a \<and> (\<forall>b. from \<le> b \<and> b < a \<and> b mod 4096 = 0 \<longrightarrow> \<not> ?P b)"
    then have a1: "from \<le> a" "a mod 4096 = 0" "?P a"
      and a2: "\<And>b. from \<le> b \<Longrightarrow> b < a \<Longrightarrow> b mod 4096 = 0 \<Longrightarrow> \<not> ?P b" by simp_all
    from starts [OF a1] obtain k where k: "k < ?n" "a = from + k * 4096" by blast
    have "\<not> ?P (from + j * 4096)" if "j < k" for j
      by (rule a2 [OF _ _ al]) (use that k(2) in simp_all)
    with a1(3) k show "first_run free from stop needed = Some a" unfolding fr by blast
  qed
  show "first_run free from stop needed = None \<longleftrightarrow> (\<forall>b. from \<le> b \<and> b mod 4096 = 0 \<longrightarrow> \<not> ?P b)"
  proof
    assume "first_run free from stop needed = None"
    then have n: "\<not> ?P (from + k * 4096)" if "k < ?n" for k
      using that by (auto simp: first_run_def find_None_iff pages_def)
    show "\<forall>b. from \<le> b \<and> b mod 4096 = 0 \<longrightarrow> \<not> ?P b"
    proof (intro allI impI)
      fix b
      assume b: "from \<le> b \<and> b mod 4096 = 0"
      show "\<not> ?P b"
      proof
        assume P: "?P b"
        from starts [OF conjunct1 [OF b] conjunct2 [OF b] P] obtain k where "k < ?n" "b = from + k * 4096" by blast
        with n P show False by simp
      qed
    qed
  next
    assume "\<forall>b. from \<le> b \<and> b mod 4096 = 0 \<longrightarrow> \<not> ?P b"
    with al show "first_run free from stop needed = None"
      by (auto simp: first_run_def find_None_iff pages_def)
  qed
qed

lemma find_free_run_first:
  assumes rel: "space_rel s mp t G" and al: "from mod 4096 = 0" "stop mod 4096 = 0" "stop \<le> 2 ^ 31" "0 < needed"
  shows "find_free_run mp s from stop needed = Done (first_run (free_page_at s mp) from stop needed)"
proof (cases "from \<le> stop")
  case False
  then show ?thesis
    by (simp add: find_free_run_def find_run_loop.simps first_run_def)
next
  case True
  let ?f = "free_page_at s mp"
  note c = scan_pages_first [of "from" 0 "from" "from" needed "from" ?f stop, simplified, OF al(4) _ al(1,2) True]
  have "case scan_pages ?f needed (pages from stop) (Searching from 0) of
      Found a \<Rightarrow> first_run ?f from stop needed = Some a | _ \<Rightarrow> first_run ?f from stop needed = None"
    unfolding first_run_char [OF al(1,2,4)] by (rule c) (metis not_less)
  moreover have "find_free_run mp s from stop needed
      = Done (case scan_pages ?f needed (pages from stop) (Searching from 0) of Found a \<Rightarrow> Some a | _ \<Rightarrow> None)"
    unfolding find_free_run_def using al by (intro find_run_loop_pages [OF rel]) auto
  ultimately show ?thesis by (auto split: run_state.splits)
qed

section \<open>Choosing a virtual address\<close>

definition area_start :: nat where "area_start = unat MMAP_AREA_VIRT"
definition area_end :: nat where "area_end = unat MMAP_AREA_VIRT_END"

text \<open>\<open>saturating_add\<close> cannot saturate below the end of the area.\<close>

definition found_address :: "nat \<Rightarrow> nat \<Rightarrow> process \<Rightarrow> usize res \<times> process" where
  "found_address start len pr =
     (Done (of_nat start), pr\<lparr>allocation_hint := of_nat (min (start + len) area_end)\<rparr>)"

definition find_virtual_address :: "mapping \<Rightarrow> vm \<Rightarrow> usize \<Rightarrow> usize \<Rightarrow> process \<Rightarrow> usize res \<times> process" where
  "find_virtual_address mp s virt len pr =
     (if virt \<noteq> 0 then (Done virt, pr)
      else if unat len > area_end - area_start then (Fail OutOfMemory, pr)
      else let needed = unat len div 4096; hint = unat (allocation_hint pr) in
        case find_free_run mp s hint area_end needed of
          Fail e \<Rightarrow> (Fail e, pr) | Panic \<Rightarrow> (Panic, pr)
        | Done (Some start) \<Rightarrow> found_address start (unat len) pr
        | Done None \<Rightarrow>
            (case find_free_run mp s area_start (min (min (hint + unat len) (2 ^ 32 - 1)) area_end) needed of
               Fail e \<Rightarrow> (Fail e, pr) | Panic \<Rightarrow> (Panic, pr)
             | Done (Some start) \<Rightarrow> found_address start (unat len) pr
             | Done None \<Rightarrow> (Fail BadAddress, pr)))"

lemma area: "area_start = 0x30000000" "area_end = 0x40000000"
  by (simp_all add: area_start_def area_end_def MMAP_AREA_VIRT_def MMAP_AREA_VIRT_END_def)

text \<open>The hint stays page aligned and within the area.\<close>

definition hint_ok :: "process \<Rightarrow> bool" where
  "hint_ok pr \<longleftrightarrow> area_start \<le> unat (allocation_hint pr) \<and> unat (allocation_hint pr) \<le> area_end
     \<and> unat (allocation_hint pr) mod 4096 = 0"

definition free_range :: "vm \<Rightarrow> mapping \<Rightarrow> nat \<Rightarrow> nat \<Rightarrow> bool" where
  "free_range s mp a needed \<longleftrightarrow> area_start \<le> a \<and> a mod 4096 = 0 \<and> run_at (free_page_at s mp) area_end needed a"

lemma found_address_ok:
  assumes "free_range s mp a n" and "0 < n" and "hint_ok pr" and "found_address a (n * 4096) pr = (r, pr')"
  shows "r = Done (of_nat a) \<and> hint_ok pr' \<and> unat (allocation_hint pr') = a + n * 4096"
proof -
  have a: "area_start \<le> a" "a mod 4096 = 0" "a + n * 4096 \<le> area_end" using assms(1) by (simp_all add: free_range_def run_at_def)
  then have "min (a + n * 4096) area_end = a + n * 4096" by simp
  moreover have "unat (of_nat (a + n * 4096) :: usize) = a + n * 4096"
    using a(3) by (intro unat_small) (simp add: area)
  moreover have "(a + n * 4096) mod 4096 = 0" using a(2) by (metis mod_mult_self1)
  ultimately show ?thesis using assms(4) a by (auto simp: found_address_def hint_ok_def)
qed

lemma run_at_mono: "run_at free stop n a \<Longrightarrow> stop \<le> stop' \<Longrightarrow> run_at free stop' n a"
  by (auto simp: run_at_def)

text \<open>
  C19: The search for free addresses is equivalent to trying every page as a start: walking whole
  sections and tables in one pass, it returns the first address at or after the start from which
  the wanted number of pages is free, and nothing if there is none; it never panics.
\<close>

theorem free_run_is_first_run:
  assumes "good_spaces maps s" and "maps p = Some mp"
    and "from mod 4096 = 0" and "stop mod 4096 = 0" and "stop \<le> 2 ^ 31" and "0 < needed"
  shows "find_free_run mp s from stop needed
    = Done (first_run (\<lambda>a. view_of maps s p (of_nat a) = L2Empty) from stop needed)"
proof -
  obtain t G where rel: "space_rel s mp t G" using assms(1,2) wf_vm_space unfolding good_spaces_def by metis
  have "free_page_at s mp = (\<lambda>a. view_of maps s p (of_nat a) = L2Empty)"
    using assms(2) by (simp add: free_page_at_def view_of_def fun_eq_iff)
  with find_free_run_first [OF rel assms(3-6)] show ?thesis by simp
qed

theorem free_run_is_first_run_witness:
  "find_free_run \<lparr>ttbr0 = page_addr 0, map_pid = 2\<rparr> sample_vm 0xf000 0x20000 2 = Done (Some 0x11000)"
proof -
  have "two_spaces 2 = Some \<lparr>ttbr0 = page_addr 0, map_pid = 2\<rparr>" by (simp add: two_spaces_def)
  from free_run_is_first_run [OF sample_good this, of "0xf000" "0x20000" 2]
  have "find_free_run \<lparr>ttbr0 = page_addr 0, map_pid = 2\<rparr> sample_vm 0xf000 0x20000 2
    = Done (first_run (\<lambda>a. view_of two_spaces sample_vm 2 (of_nat a) = L2Empty) 0xf000 0x20000 2)" by simp
  also have "pages 0xf000 0x20000 = [0xf000, 0x10000, 0x11000] @ map (\<lambda>k. 0xf000 + k * 4096) [3..<17]"
    by (simp add: pages_def upt_rec)
  then have "first_run (\<lambda>a. view_of two_spaces sample_vm 2 (of_nat a) = L2Empty) 0xf000 0x20000 2 = Some 0x11000"
    by (simp add: first_run_def run_at_def sample_view own_page_def upt_rec)
  finally show ?thesis .
qed

text \<open>
  C22: A process asking for fresh addresses gets them whenever its mapping area has room: the search
  from the hint and the second one below it find a run of free pages wherever in the area one lies,
  the hint moves just past it and stays aligned and inside the area; \<open>BadAddress\<close> means that no
  such run exists, and then the hint is unchanged.
\<close>

theorem address_search_complete:
  assumes good: "good_spaces maps s" "maps p = Some mp" and hint: "hint_ok pr"
    and len: "unat len = n * 4096" "0 < n" "unat len \<le> area_end - area_start"
    and run: "find_virtual_address mp s 0 len pr = (r, pr')"
  shows "hint_ok pr' \<and>
    (if \<exists>a. free_range s mp a n
     then \<exists>a. r = Done (of_nat a) \<and> free_range s mp a n \<and> unat (allocation_hint pr') = a + n * 4096
     else r = Fail BadAddress \<and> pr' = pr)"
proof -
  obtain t G where rel: "space_rel s mp t G" using good wf_vm_space unfolding good_spaces_def by metis
  let ?f = "free_page_at s mp" and ?h = "unat (allocation_hint pr)"
  let ?e = "min (?h + n * 4096) area_end"
  have h: "area_start \<le> ?h" "?h \<le> area_end" "?h mod 4096 = 0" using hint by (simp_all add: hint_ok_def)
  have am: "area_end mod 4096 = 0" "area_start mod 4096 = 0" "area_end \<le> 2 ^ 31" by (simp_all add: area)
  have e: "min (min (?h + unat len) (2 ^ 32 - 1)) area_end = ?e" by (simp add: len(1) area)
  have em: "?e mod 4096 = 0" using am(1) h(3) by (auto simp: min_def)
  note s1 = find_free_run_first [OF rel h(3) am(1,3) len(2)]
    and s2 = find_free_run_first [OF rel am(2) em _ len(2)]
  have s2': "find_free_run mp s area_start ?e n = Done (first_run ?f area_start ?e n)"
    by (rule s2) (use am(3) in simp)
  have run': "(r, pr') = (case first_run ?f ?h area_end n of Some a \<Rightarrow> found_address a (n * 4096) pr
     | None \<Rightarrow> (case first_run ?f area_start ?e n of Some a \<Rightarrow> found_address a (n * 4096) pr | None \<Rightarrow> (Fail BadAddress, pr)))"
    using run len s1 s2' e by (simp add: find_virtual_address_def Let_def split: option.splits)
  show ?thesis
  proof (cases "first_run ?f ?h area_end n")
    case (Some a)
    with first_run_char(1) [OF h(3) am(1) len(2)] h(1) have fr: "free_range s mp a n"
      by (simp add: free_range_def)
    with found_address_ok [OF fr len(2) hint, of r pr'] run' Some show ?thesis by auto
  next
    case None
    note no1 = first_run_char(2) [OF h(3) am(1) len(2), THEN iffD1, OF None]
    show ?thesis
    proof (cases "first_run ?f area_start ?e n")
      case (Some a)
      with first_run_char(1) [OF am(2) em len(2)] have "area_start \<le> a \<and> a mod 4096 = 0 \<and> run_at ?f ?e n a" by blast
      then have fr: "free_range s mp a n" using run_at_mono [of ?f ?e n a area_end] by (simp add: free_range_def)
      with found_address_ok [OF fr len(2) hint, of r pr'] run' None Some show ?thesis by auto
    next
      case None2: None
      note no2 = first_run_char(2) [OF am(2) em len(2), THEN iffD1, OF None2]
      have "\<not> free_range s mp a n" for a
      proof
        assume fr: "free_range s mp a n"
        show False
        proof (cases "?h \<le> a")
          case True
          with no1 [rule_format, of a] fr show False by (simp add: free_range_def)
        next
          case False
          with fr have "run_at ?f ?e n a" by (auto simp: free_range_def run_at_def)
          with no2 [rule_format, of a] fr show False by (simp add: free_range_def)
        qed
      qed
      with run' None None2 hint show ?thesis by simp
    qed
  qed
qed

theorem address_search_complete_witness:
  "\<exists>a pr'. find_virtual_address \<lparr>ttbr0 = page_addr 0, map_pid = 2\<rparr> sample_vm 0 0x2000 (process_new 2 1 (AppId (replicate 16 0)))
      = (Done (of_nat a), pr') \<and> unat (allocation_hint pr') = a + 0x2000"
proof -
  let ?mp = "\<lparr>ttbr0 = page_addr 0, map_pid = 2\<rparr>" and ?pr = "process_new 2 1 (AppId (replicate 16 0))"
  obtain r pr' where run: "find_virtual_address ?mp sample_vm 0 0x2000 ?pr = (r, pr')" by fastforce
  have m: "two_spaces 2 = Some ?mp" by (simp add: two_spaces_def)
  have h: "hint_ok ?pr" by (simp add: hint_ok_def process_new_def area MMAP_AREA_VIRT_def)
  have "free_page_at sample_vm ?mp a" if "0x20000 \<le> a" "a < 2 ^ 31" for a
  proof -
    have "(of_nat a :: usize) \<noteq> 0x10000" using unat_small [OF that(2)] that(1) by auto
    then have "view_of two_spaces sample_vm 2 (of_nat a) = L2Empty" by (simp add: sample_view)
    then show ?thesis by (simp add: view_of_def m free_page_at_def)
  qed
  then have "free_range sample_vm ?mp area_start 2" by (auto simp: free_range_def run_at_def area)
  then have ex: "\<exists>a. free_range sample_vm ?mp a 2" by blast
  have z: "unat (0x2000 :: usize) = 2 * 4096" "unat (0x2000 :: usize) \<le> area_end - area_start" by (simp_all add: area)
  have "(0 :: nat) < 2" by simp
  from conjunct2 [OF address_search_complete [OF sample_good m h z(1) this z(2) run], unfolded if_P [OF ex]]
  obtain a where "r = Done (of_nat a)" "unat (allocation_hint pr') = a + 2 * 4096" by blast
  with run show ?thesis by auto
qed

end
