(* ===== verification/Memory_Mappings.thy ===== *)
theory Memory_Mappings
  imports Address_Search
begin

unbundle bit_operations_syntax

text \<open>
  The memory manager on address spaces (\<open>xous/kernel/src/mem.rs\<close>): mapping and unmapping ranges of
  a process, moving, lending and returning a page together with its ownership, and the end of a
  process. The page tables and the accounts of the owners are composed here; the invariant on them
  is isolation: a process only ever has pages mapped that it owns, each in one place, and never a
  page that holds a table. The lemmas of this theory show that the operations on one page keep it.
\<close>

section \<open>Pages of a range\<close>

text \<open>\<open>(a..b).step_by(PAGE_SIZE)\<close>, which is empty if the end lies before the start.\<close>

definition addr_range :: "usize \<Rightarrow> usize \<Rightarrow> usize list" where
  "addr_range a b = map (\<lambda>k. a + of_nat k * 4096) [0..<(unat b - unat a + 4095) div 4096]"

definition next_page :: "usize \<Rightarrow> usize option" where
  "next_page a = (if a AND 0xfff = 0 then Some a else checked_add (a AND NOT 0xfff) 0x1000)"

definition check_range_accessible :: "mapping \<Rightarrow> usize \<Rightarrow> usize \<Rightarrow> vm \<Rightarrow> unit res" where
  "check_range_accessible mp start len s =
     (case checked_add start len of
        None \<Rightarrow> Fail BadAddress
      | Some e \<Rightarrow>
          (case next_page e of
             None \<Rightarrow> Fail BadAddress
           | Some stop \<Rightarrow>
               if \<exists>a \<in> set (addr_range (start AND NOT 0xfff) stop). a > USER_AREA_END \<or> \<not> address_user_accessible mp a s
               then Fail BadAddress else Done ()))"

section \<open>Mapping and unmapping\<close>

text \<open>Errors of these clean-up steps are ignored, and they do not panic.\<close>

fun unmap_pages :: "mapping \<Rightarrow> usize \<Rightarrow> nat list \<Rightarrow> vm \<Rightarrow> vm" where
  "unmap_pages mp virt [] s = s"
| "unmap_pages mp virt (k # ks) s = unmap_pages mp virt ks (snd (unmap_page mp (virt + of_nat k * 4096) s))"

definition release_range :: "(pid \<Rightarrow> process option) \<Rightarrow> usize \<Rightarrow> usize \<Rightarrow> pid \<Rightarrow> vm \<Rightarrow> vm" where
  "release_range get phys len p s =
     (if phys = 0 then s
      else s\<lparr>vm_frames := release_pages get (addr_range phys (phys + len)) p (vm_frames s)\<rparr>)"

fun map_pages :: "(pid \<Rightarrow> process option) \<Rightarrow> mapping \<Rightarrow> usize \<Rightarrow> usize \<Rightarrow> usize \<Rightarrow> memory_flags \<Rightarrow> bool \<Rightarrow> nat list
    \<Rightarrow> vm \<Rightarrow> unit res \<times> vm" where
  "map_pages get mp phys virt len fl u [] s = (Done (), s)"
| "map_pages get mp phys virt len fl u (k # ks) s =
     (case map_page mp (if phys = 0 then 0 else phys + of_nat k * 4096) (virt + of_nat k * 4096) fl u s of
        (Done _, s1) \<Rightarrow> map_pages get mp phys virt len fl u ks s1
      | (Panic, s1) \<Rightarrow> (Panic, s1)
      | (Fail e, s1) \<Rightarrow> (Fail e, release_range get phys len (map_pid mp) (unmap_pages mp virt [0..<k] s1)))"

definition page_steps_of :: "usize \<Rightarrow> nat" where
  "page_steps_of len = (unat len + 4095) div 4096"

definition map_allocated_range ::
    "(pid \<Rightarrow> process option) \<Rightarrow> mapping \<Rightarrow> usize \<Rightarrow> usize \<Rightarrow> usize \<Rightarrow> memory_flags \<Rightarrow> bool \<Rightarrow> vm \<Rightarrow> unit res \<times> vm" where
  "map_allocated_range get mp phys virt len fl u s = map_pages get mp phys virt len fl u [0..<page_steps_of len] s"

text \<open>
  The pages that \<open>map_range\<close> maps: allocated on the spot, claimed at an address, or none yet.
  The flag says whether the range is to be cleared after it was mapped.
\<close>

definition range_pages :: "(pid \<Rightarrow> process option) \<Rightarrow> mapping \<Rightarrow> usize \<Rightarrow> usize \<Rightarrow> memory_flags \<Rightarrow> vm \<Rightarrow> (usize \<times> bool) res \<times> vm" where
  "range_pages get mp phys len fl s =
     (if is_set fl POPULATE then
        (if \<not> is_set fl MF_W then (Fail InvalidArguments, s)
         else if phys \<noteq> 0 then (Fail InvalidArguments, s)
         else on_frames (alloc_range (unat len div 4096) (map_pid mp) fl) s)
      else if phys \<noteq> 0 then
        (case checked_add phys len of
           None \<Rightarrow> (Fail BadAddress, s)
         | Some stop \<Rightarrow>
             seq (on_frames (claim_pages get [] (addr_range phys stop) (map_pid mp)) s)
               (\<lambda>_ s1. (Done (phys, is_address_in_plaintext_dram phys \<or> is_address_encrypted phys), s1)))
      else (Done (phys, is_address_in_plaintext_dram phys \<or> is_address_encrypted phys), s))"

text \<open>
  The range is cleared by stores through the new mapping. Without \<open>W\<close> that mapping is read-only
  for the kernel too, and an abort in kernel mode is a panic.
\<close>

definition map_range ::
    "(pid \<Rightarrow> process option) \<Rightarrow> mapping \<Rightarrow> usize \<Rightarrow> usize \<Rightarrow> usize \<Rightarrow> memory_flags \<Rightarrow> bool \<Rightarrow> process \<Rightarrow> vm
      \<Rightarrow> memory_range res \<times> process \<times> vm" where
  "map_range get mp phys virt_ptr len fl u pr s =
     (case find_virtual_address mp s virt_ptr len pr of
        (Fail e, pr1) \<Rightarrow> (Fail e, pr1, s)
      | (Panic, pr1) \<Rightarrow> (Panic, pr1, s)
      | (Done virt, pr1) \<Rightarrow>
          (case seq (range_pages get mp phys len fl s) (\<lambda>(ph, zero) s1.
                 seq (map_allocated_range get mp ph virt len fl u s1) (\<lambda>_ s2.
                   case memory_range_new virt len of
                     Inl e \<Rightarrow> (Fail e, s2)
                   | Inr mem \<Rightarrow>
                       if zero then
                         (if \<not> is_set fl MF_W then (Panic, s2)
                          else (Done mem, s2\<lparr>pmem := set_words ph (unat len) 0 (pmem s2)\<rparr>))
                       else (Done mem, s2))) of
             (r, s3) \<Rightarrow> (r, pr1, s3)))"

fun unmap_loop :: "(pid \<Rightarrow> process option) \<Rightarrow> mapping \<Rightarrow> usize list \<Rightarrow> unit res \<Rightarrow> vm \<Rightarrow> unit res \<times> vm" where
  "unmap_loop get mp [] r s = (r, s)"
| "unmap_loop get mp (a # as) r s =
     (let s1 = (case virt_to_phys mp a s of
          Done phys \<Rightarrow> snd (on_frames (claim_release_move get phys (map_pid mp) Release) s)
        | _ \<Rightarrow> s) in
      case unmap_page mp a s1 of
        (Done _, s2) \<Rightarrow> unmap_loop get mp as r s2
      | (Panic, s2) \<Rightarrow> (Panic, s2)
      | (Fail e, s2) \<Rightarrow> unmap_loop get mp as (if r = Done () then Fail e else r) s2)"

definition unmap_range :: "(pid \<Rightarrow> process option) \<Rightarrow> mapping \<Rightarrow> usize \<Rightarrow> usize \<Rightarrow> vm \<Rightarrow> unit res \<times> vm" where
  "unmap_range get mp virt len s =
     (if virt AND 0xfff \<noteq> 0 \<or> len AND 0xfff \<noteq> 0 then (Fail BadAlignment, s)
      else unmap_loop get mp (addr_range virt (virt + len)) (Done ()) s)"

section \<open>The read-only mirror\<close>

text \<open>
  \<open>MirrorMemoryToPid\<close> shows a range of the caller to another process. The pages stay with the
  caller: nothing is claimed for the process that sees them.
\<close>

definition saturating_add :: "usize \<Rightarrow> usize \<Rightarrow> usize" where
  "saturating_add a b = (case checked_add a b of Some c \<Rightarrow> c | None \<Rightarrow> 0xffffffff)"

fun mirror_pages :: "mapping \<Rightarrow> usize \<Rightarrow> usize \<Rightarrow> nat list \<Rightarrow> vm \<Rightarrow> unit res \<times> vm" where
  "mirror_pages mp phys virt [] s = (Done (), s)"
| "mirror_pages mp phys virt (k # ks) s =
     (case map_page mp (of_nat k * 4096 + phys) (of_nat k * 4096 + virt) flags_empty True s of
        (Done _, s1) \<Rightarrow> mirror_pages mp phys virt ks s1
      | (Panic, s1) \<Rightarrow> (Panic, s1)
      | (Fail e, s1) \<Rightarrow> (Fail e, unmap_pages mp virt [0..<k] s1))"

definition map_range_readonly_mirror :: "mapping \<Rightarrow> usize \<Rightarrow> usize \<Rightarrow> process \<Rightarrow> vm \<Rightarrow> memory_range res \<times> process \<times> vm" where
  "map_range_readonly_mirror mp phys len pr s =
     (let virt = next_mirror_address pr in
      case mirror_pages mp phys virt [0..<page_steps_of len] s of
        (Done _, s1) \<Rightarrow>
          (let next = saturating_add virt len;
               pr1 = pr\<lparr>next_mirror_address := (case next_page next of Some a \<Rightarrow> a | None \<Rightarrow> next)\<rparr> in
           case memory_range_new virt len of
             Inl e \<Rightarrow> (Fail e, pr1, s1)
           | Inr mem \<Rightarrow> (Done mem, pr1, s1))
      | (Fail e, s1) \<Rightarrow> (Fail e, pr, s1)
      | (Panic, s1) \<Rightarrow> (Panic, pr, s1))"

text \<open>The caller's range has to be mapped and physically contiguous.\<close>

fun check_contiguous :: "mapping \<Rightarrow> usize \<Rightarrow> usize list \<Rightarrow> vm \<Rightarrow> unit res" where
  "check_contiguous mp phys [] s = Done ()"
| "check_contiguous mp phys (a # as) s =
     (case virt_to_phys mp a s of
        Done ph \<Rightarrow> if ph \<noteq> phys then Fail AccessDenied else check_contiguous mp (phys + 4096) as s
      | Fail e \<Rightarrow> Fail e
      | Panic \<Rightarrow> Panic)"

definition mirror_memory :: "mapping \<Rightarrow> usize \<Rightarrow> usize \<Rightarrow> mapping \<Rightarrow> process \<Rightarrow> vm \<Rightarrow> memory_range res \<times> process \<times> vm" where
  "mirror_memory mp a len mq pr s =
     (case virt_to_phys mp a s of
        Fail e \<Rightarrow> (Fail e, pr, s)
      | Panic \<Rightarrow> (Panic, pr, s)
      | Done phys \<Rightarrow>
          (case check_contiguous mp phys (addr_range a (a + len)) s of
             Fail e \<Rightarrow> (Fail e, pr, s)
           | Panic \<Rightarrow> (Panic, pr, s)
           | Done _ \<Rightarrow> map_range_readonly_mirror mq phys len pr s))"

section \<open>Pages and their owners\<close>

text \<open>The ownership follows the page, unless it has no address.\<close>

definition hand_over :: "(pid \<Rightarrow> process option) \<Rightarrow> pid \<Rightarrow> pid \<Rightarrow> usize res \<times> vm \<Rightarrow> unit res \<times> vm" where
  "hand_over get src dst x =
     seq x (\<lambda>phys s.
       if phys \<noteq> 0 then on_frames (claim_release_move get phys dst (MoveFrom src)) s else (Done (), s))"

definition mm_move_page :: "(pid \<Rightarrow> process option) \<Rightarrow> mapping \<Rightarrow> usize \<Rightarrow> mapping \<Rightarrow> usize \<Rightarrow> vm \<Rightarrow> unit res \<times> vm" where
  "mm_move_page get mp a mq b s = hand_over get (map_pid mp) (map_pid mq) (space_move_page mp a mq b s)"

definition mm_lend_page ::
    "(pid \<Rightarrow> process option) \<Rightarrow> mapping \<Rightarrow> usize \<Rightarrow> mapping \<Rightarrow> usize \<Rightarrow> bool \<Rightarrow> vm \<Rightarrow> unit res \<times> vm" where
  "mm_lend_page get mp a mq b mutable s =
     hand_over get (map_pid mp) (map_pid mq) (space_lend_page mp a mq b mutable s)"

definition mm_unlend_page :: "(pid \<Rightarrow> process option) \<Rightarrow> mapping \<Rightarrow> usize \<Rightarrow> mapping \<Rightarrow> usize \<Rightarrow> vm \<Rightarrow> unit res \<times> vm" where
  "mm_unlend_page get mp a mq b s = hand_over get (map_pid mp) (map_pid mq) (space_return_page mp a mq b s)"

text \<open>The end of a process: its pages are released, and its mapping is gone.\<close>

definition end_space :: "pid \<Rightarrow> spaces \<Rightarrow> vm \<Rightarrow> spaces \<times> vm" where
  "end_space p maps s = (maps(p := None), snd (on_frames (release_all_memory_for_process p) s))"

section \<open>Changing the accounts under the tables\<close>

text \<open>
  The accounts may change as long as the pages with tables keep their owner and no page is
  promised to be zero that was not.
\<close>

definition accounts_change :: "spaces \<Rightarrow> vm \<Rightarrow> frames \<Rightarrow> bool" where
  "accounts_change maps s m' \<longleftrightarrow> wf_frames m'
     \<and> (\<forall>i. free_pages_zeroed m' i \<longrightarrow> free_pages_zeroed (vm_frames s) i)
     \<and> (\<forall>i. table_frame maps s i \<longrightarrow> allocations m' i = allocations (vm_frames s) i)"

definition tables_kept :: "spaces \<Rightarrow> vm \<Rightarrow> frames \<Rightarrow> bool" where
  "tables_kept maps s m' \<longleftrightarrow> wf_frames m'
     \<and> (\<forall>i. table_frame maps s i \<longrightarrow> allocations m' i = allocations (vm_frames s) i)"

lemma tables_kept: "accounts_change maps s m' \<Longrightarrow> tables_kept maps s m'"
  by (simp add: accounts_change_def tables_kept_def)

lemma tables_kept_rel:
  assumes c: "tables_kept maps s m'" and mq: "maps q = Some mq" and r: "space_rel s mq t G"
    and f: "\<And>i n. table_frame maps s i \<Longrightarrow> n div 4096 = i \<Longrightarrow> f (pa n) = pmem s (pa n)"
  shows "space_rel (s\<lparr>vm_frames := m', pmem := f\<rparr>) mq t G"
proof -
  have tf: "table_frame maps s t" "table_frame maps s (t + 1)" "g < 512 \<Longrightarrow> G g = Some i \<Longrightarrow> table_frame maps s i" for g i
    using mq r unfolding table_frame_def by blast+
  have w: "f (pa (l1_word t v)) = pmem s (pa (l1_word t v))" if "v < 2048" for v
    using l1_word_page [OF that, of t] f tf by metis
  have w4: "f (pa (l1_word t (4 * g + k))) = pmem s (pa (l1_word t (4 * g + k)))" if "g < 512" "k < 4" for g k
    by (rule w) (use that in simp)
  have al: "allocations m' t = allocations (vm_frames s) t" "allocations m' (t + 1) = allocations (vm_frames s) (t + 1)"
    "g < 512 \<Longrightarrow> G g = Some i \<Longrightarrow> allocations m' i = allocations (vm_frames s) i" for g i
    using c tf by (simp_all add: tables_kept_def)
  from r show ?thesis
    unfolding space_rel_def by (simp add: al(1,3) al(2) [simplified] w4)
qed

lemma under_tables:
  assumes c: "tables_kept maps s m'" and wf: "wf_vm s maps"
    and f: "\<And>i n. table_frame maps s i \<Longrightarrow> n div 4096 = i \<Longrightarrow> f (pa n) = pmem s (pa n)"
    and z: "\<And>i n. free_pages_zeroed m' i \<Longrightarrow> n div 4096 = i \<Longrightarrow> f (pa n) = 0"
  shows "wf_vm (s\<lparr>vm_frames := m', pmem := f\<rparr>) maps"
    and "maps q = Some mq \<Longrightarrow> get_l2_slot mq b (s\<lparr>vm_frames := m', pmem := f\<rparr>) = get_l2_slot mq b s"
    and "view_of maps (s\<lparr>vm_frames := m', pmem := f\<rparr>) = view_of maps s"
    and "table_frame maps (s\<lparr>vm_frames := m', pmem := f\<rparr>) i \<Longrightarrow> table_frame maps s i"
proof -
  let ?s = "s\<lparr>vm_frames := m', pmem := f\<rparr>"
  have rel: "space_rel ?s mq t G" if "maps q = Some mq" "space_rel s mq t G" for q mq t G
    using tables_kept_rel [OF c that f] .
  show slots: "get_l2_slot mq b ?s = get_l2_slot mq b s" if m: "maps q = Some mq" for q mq b
  proof -
    obtain t G where r: "space_rel s mq t G" using wf m by (rule wf_vm_space)
    show ?thesis unfolding get_l2_slot_user [OF r] get_l2_slot_user [OF rel [OF m r]] ..
  qed
  have "lookup ?s mq b = lookup s mq b" if m: "maps q = Some mq" for q mq b
  proof (cases "get_l2_slot mq b s")
    case (Done sl)
    obtain t G where r: "space_rel s mq t G" using wf m by (rule wf_vm_space)
    from get_l2_slot_Done [OF r Done] obtain j where j: "user_page b" "G (group_of b) = Some j"
      "sl = \<lparr>sl_ptr = pa (slot_word j b), sl_virt = b\<rparr>" by metis
    have "table_frame maps s j" using m r j(2) user_page_group [OF j(1)] unfolding table_frame_def by blast
    from f [OF this slot_word_page] Done j(3) slots [OF m, of b] show ?thesis by (simp add: lookup_def slot_read_def)
  qed (use slots [OF m, of b] in \<open>simp_all add: lookup_def\<close>)
  then show "view_of maps ?s = view_of maps s" by (auto simp: view_of_def fun_eq_iff split: option.splits)
  show "table_frame maps ?s i \<Longrightarrow> table_frame maps s i"
    using wf rel by (rule table_frame_cong)
  have "page_zero ?s i" if "free_pages_zeroed m' i" for i
    using z [OF that] by (simp add: page_zero_def)
  moreover have "\<exists>t G. space_rel ?s mq t G" if "maps q = Some mq" for q mq
    using wf_vm_space [OF wf that] rel [OF that] by metis
  ultimately show "wf_vm ?s maps" using wf c by (auto simp: wf_vm_def tables_kept_def)
qed

lemma accounts_only:
  assumes c: "accounts_change maps s m'" and wf: "wf_vm s maps"
  shows "wf_vm (s\<lparr>vm_frames := m'\<rparr>) maps" and "view_of maps (s\<lparr>vm_frames := m'\<rparr>) = view_of maps s"
    and "table_frame maps (s\<lparr>vm_frames := m'\<rparr>) i \<Longrightarrow> table_frame maps s i"
    and "maps q = Some mq \<Longrightarrow> get_l2_slot mq b (s\<lparr>vm_frames := m'\<rparr>) = get_l2_slot mq b s"
proof -
  have z: "pmem s (pa n) = 0" if "free_pages_zeroed m' i" "n div 4096 = i" for i n
  proof -
    have "free_pages_zeroed (vm_frames s) i" using c that(1) by (simp add: accounts_change_def)
    then have "page_zero s i" using wf by (simp add: wf_vm_def)
    with that(2) show ?thesis by (simp add: page_zero_def)
  qed
  note a = under_tables [OF tables_kept [OF c] wf, of "pmem s", OF refl z]
  show "wf_vm (s\<lparr>vm_frames := m'\<rparr>) maps" "view_of maps (s\<lparr>vm_frames := m'\<rparr>) = view_of maps s"
    "table_frame maps (s\<lparr>vm_frames := m'\<rparr>) i \<Longrightarrow> table_frame maps s i"
    "maps q = Some mq \<Longrightarrow> get_l2_slot mq b (s\<lparr>vm_frames := m'\<rparr>) = get_l2_slot mq b s"
    using a by simp_all
qed

section \<open>Addresses of pages in memory\<close>

lemma dram_mod:
  assumes "x < 2 ^ 27"
  shows "(2 ^ 30 + x) mod 2 ^ 27 = x" and "(2 ^ 29 + x) mod 2 ^ 27 = (x :: nat)"
proof -
  have "(8 * 2 ^ 27 + x) mod 2 ^ 27 = x mod 2 ^ 27" "(4 * 2 ^ 27 + x) mod 2 ^ 27 = x mod 2 ^ 27"
    by (rule mod_mult_self3)+
  with assms show "(2 ^ 30 + x) mod 2 ^ 27 = x" "(2 ^ 29 + x) mod 2 ^ 27 = x" by simp_all
qed

lemma bus_view_accounts:
  assumes "bus_view i a"
  shows "accounts get a p i"
proof -
  have i: "i < RAM_PAGES" using assms by (simp add: bus_view_def)
  have d: "in_dram a \<and> unat a mod 2 ^ 27 div 4096 = i"
  proof -
    consider "a = page_addr i" | "a = to_plaintext_phys_addr (page_addr i)" using assms by (auto simp: bus_view_def)
    then show ?thesis
    proof cases
      case 1
      have "(2 ^ 30 + i * 4096) mod 2 ^ 27 = i * 4096" by (rule dram_mod(1)) (use i in \<open>simp add: RAM_PAGES_def\<close>)
      with 1 i unat_page_addr [of i] page_addr_encrypted [of i] show ?thesis by (simp add: in_dram_def)
    next
      case 2
      then have u: "unat a = 2 ^ 29 + i * 4096" using plaintext_page_addr [OF i] plain_offset [OF i] by simp
      have "(2 ^ 29 + i * 4096) mod 2 ^ 27 = i * 4096" by (rule dram_mod(2)) (use i in \<open>simp add: RAM_PAGES_def\<close>)
      moreover have "is_address_in_plaintext_dram a"
        using u i by (simp add: is_address_in_plaintext_dram_def dram_defs word_le_nat_alt word_less_nat_alt RAM_PAGES_def)
      ultimately show ?thesis using u by (simp add: in_dram_def)
    qed
  qed
  then show ?thesis
    using offset_in_dram(1) [of a] bus_view_page(1) [OF assms]
    by (auto simp: accounts_def peripheral_check_def in_dram_def)
qed

lemma accounts_bus_view:
  assumes "accounts get a p i" and "i < RAM_PAGES"
  shows "bus_view i a"
proof -
  have a: "a AND 0xfff = 0" "address_to_allocation_offset a = Some i" using assms(1) by (simp_all add: accounts_def)
  have d: "in_dram a"
  proof (rule ccontr)
    assume "\<not> in_dram a"
    with a(2) offset_outside_dram have "region_offset RAM_PAGES additional_regions a = Some i" by simp
    with region_offset_bounds additional_regions_ok assms(2) show False by fastforce
  qed
  have i: "i = unat a mod 2 ^ 27 div 4096" using offset_in_dram(1) [OF d] a(2) by simp
  have "take_bit 12 a = 0" using a(1) by (simp add: take_bit_eq_mask mask_eq_exp_minus_1)
  then have "unat a mod 2 ^ 12 = 0" by (metis take_bit_eq_mod unsigned_0 unsigned_take_bit_eq)
  then have al: "unat a mod 4096 = 0" by simp
  have "unat a mod 2 ^ 27 mod 4096 = 0" using al by (simp add: mod_mod_cancel)
  then have ia: "unat a mod 2 ^ 27 = i * 4096" unfolding i by (metis add.right_neutral div_mult_mod_eq)
  consider "2 ^ 30 \<le> unat a \<and> unat a < 2 ^ 30 + 2 ^ 27" | "2 ^ 29 \<le> unat a \<and> unat a < 2 ^ 29 + 2 ^ 27"
    using d by (auto simp: in_dram_def is_address_encrypted_def is_address_in_plaintext_dram_def dram_defs
        word_le_nat_alt word_less_nat_alt)
  then show ?thesis
  proof cases
    case 1
    then obtain k where k: "unat a = 2 ^ 30 + k" "k < 2 ^ 27" using le_Suc_ex by fastforce
    then have "unat a mod 2 ^ 27 = k" using dram_mod(1) by presburger
    with k ia unat_page_addr [of i] assms(2) have "unat a = unat (page_addr i)" by simp
    with assms(2) show ?thesis by (simp add: bus_view_def word_unat_eq_iff)
  next
    case 2
    then obtain k where k: "unat a = 2 ^ 29 + k" "k < 2 ^ 27" using le_Suc_ex by fastforce
    then have "unat a mod 2 ^ 27 = k" using dram_mod(2) by presburger
    with k ia plain_offset [OF assms(2)] plaintext_page_addr [OF assms(2)]
    have "unat a = unat (to_plaintext_phys_addr (page_addr i))" by simp
    with assms(2) show ?thesis by (simp add: bus_view_def word_unat_eq_iff)
  qed
qed

lemma accounts_inj: "accounts get a p i \<Longrightarrow> accounts get' a p' j \<Longrightarrow> i = j"
  by (simp add: accounts_def)

lemma bus_view_inj: "bus_view i a \<Longrightarrow> bus_view j a \<Longrightarrow> i = j"
  using bus_view_accounts accounts_inj by metis

section \<open>Isolation\<close>

definition maps_frame :: "l2_entry \<Rightarrow> nat \<Rightarrow> bool" where
  "maps_frame e i \<longleftrightarrow> is_mapped e \<and> (\<exists>phys. entry_phys e = Done phys \<and> bus_view i phys)"

definition iso :: "view \<Rightarrow> (nat \<Rightarrow> pid option) \<Rightarrow> (nat \<Rightarrow> bool) \<Rightarrow> bool" where
  "iso v own tab \<longleftrightarrow> (\<forall>p a i. maps_frame (v p a) i \<longrightarrow> own i = Some p \<and> \<not> tab i)
     \<and> (\<forall>p a b i. maps_frame (v p a) i \<and> maps_frame (v p b) i \<longrightarrow> a = b)"

text \<open>Every page in memory that a process has mapped is its own, mapped once, and holds no table.\<close>

definition isolated :: "spaces \<Rightarrow> vm \<Rightarrow> bool" where
  "isolated maps s \<longleftrightarrow> good_spaces maps s
     \<and> iso (view_of maps s) (allocations (vm_frames s)) (table_frame maps s)"

lemma maps_frame_lt: "maps_frame e i \<Longrightarrow> i < RAM_PAGES"
  by (auto simp: maps_frame_def bus_view_def)

lemma maps_frame_inj: "maps_frame e i \<Longrightarrow> maps_frame e j \<Longrightarrow> i = j"
  by (auto simp: maps_frame_def dest: bus_view_inj)

lemma not_mapped_frame [simp]: "\<not> is_mapped e \<Longrightarrow> \<not> maps_frame e i"
  by (simp add: maps_frame_def)

lemma isoD:
  assumes "iso v own tab" and "maps_frame (v p a) i"
  shows "own i = Some p" and "\<not> tab i" and "maps_frame (v q b) i \<Longrightarrow> q = p \<and> b = a"
  using assms unfolding iso_def by (blast, blast, metis option.inject)

lemma iso_mono:
  assumes "iso v own tab" and "\<And>p a i. maps_frame (v p a) i \<Longrightarrow> own' i = own i"
    and "\<And>p a i. maps_frame (v p a) i \<Longrightarrow> tab' i \<Longrightarrow> tab i"
  shows "iso v own' tab'"
  using assms unfolding iso_def by (metis (no_types, lifting))

lemma iso_clear: "iso v own tab \<Longrightarrow> (\<And>i. \<not> maps_frame e i) \<Longrightarrow> iso (upd v p a e) own tab"
  unfolding iso_def by simp

lemma iso_put:
  assumes "iso v own tab" and "\<And>p a. \<not> maps_frame (v p a) i" and "\<not> tab i"
    and "\<And>j. maps_frame e j \<Longrightarrow> j = i"
  shows "iso (upd v q b e) (own(i := Some q)) tab"
  using assms unfolding iso_def by (auto simp: upd_apply split: if_splits)

lemma keeps_iso:
  assumes "iso v (allocations (vm_frames s)) (table_frame maps s)" and "keeps maps s s'"
  shows "iso v (allocations (vm_frames s')) (table_frame maps s')"
  by (rule iso_mono [OF assms(1)]) (use assms in \<open>auto simp: iso_def keeps_def\<close>)

lemma page_desc_frame:
  assumes "bus_view i phys"
  shows "maps_frame (L2Mapped (page_desc v phys f u)) j \<longleftrightarrow> j = i"
  using assms page_desc_addr [OF bus_view_page(1) [OF assms]] by (auto simp: maps_frame_def dest: bus_view_inj)

lemma source_iso:
  assumes "iso v (allocations (vm_frames s)) (table_frame maps s)" and k: "keeps maps s s'"
    and "source_view (new_frames maps p s s') p a v w"
  shows "iso w (allocations (vm_frames s')) (table_frame maps s')"
proof -
  note i = keeps_iso [OF assms(1) k]
  consider "w = v" | "backs (new_frames maps p s s') p a v w" using assms(3) by (auto simp: source_view_def)
  then show ?thesis
  proof cases
    case 1
    with i show ?thesis by simp
  next
    case 2
    then obtain j phys f u where b: "bus_view j phys" "(j, phys) \<in> new_frames maps p s s'"
      "w = upd v p a (L2Mapped (page_desc a phys f u))" unfolding backs_def by blast
    from b(2) have n: "allocations (vm_frames s) j = None" "allocations (vm_frames s') j = Some p" "\<not> table_frame maps s' j"
      by (simp_all add: new_frames_def)
    have "\<not> maps_frame (v q c) j" for q c
      using isoD(1) [OF assms(1)] n(1) by fastforce
    from iso_put [OF i this n(3), of "L2Mapped (page_desc a phys f u)" p a] page_desc_frame [OF b(1)] b(3) n(2)
    show ?thesis by (simp add: fun_upd_idem)
  qed
qed

lemma table_frame_lt: "table_frame maps s i \<Longrightarrow> i < RAM_PAGES"
  unfolding table_frame_def by (auto dest: space_relD(3,6))

lemma crm_elsewhere:
  assumes "wf_frames m" and "claim_release_move get a p act m = (r, m')" and "\<And>i. \<not> bus_view i a" and "j < RAM_PAGES"
  shows "allocations m' j = allocations m j"
proof -
  have na: "\<not> accounts get a p i" if "i < RAM_PAGES" for i using accounts_bus_view that assms(3) by blast
  show ?thesis
  proof (cases act)
    case Claim
    from assms(1) assms(2) [unfolded Claim] show ?thesis
      by (cases rule: claim_spec) (use na assms(4) in auto)
  next
    case Release
    from assms(1) assms(2) [unfolded Release] show ?thesis
      by (cases rule: release_spec) (use na assms(4) in auto)
  next
    case (MoveFrom e)
    from assms(2) [unfolded MoveFrom] show ?thesis
    proof (cases rule: move_spec)
      case (2 i q)
      then have "i \<noteq> j" using na assms(4) by blast
      with 2 show ?thesis by simp
    qed simp
  qed
qed

lemma move_frame:
  assumes "bus_view i a" and "allocations m i = Some e"
  shows "claim_release_move get a p (MoveFrom e) m = (Done (), m\<lparr>allocations := (allocations m)(i := Some p)\<rparr>)"
  using bus_view_accounts [OF assms(1), of get p] assms(2) by (simp add: claim_release_move_def accounts_def)

text \<open>A page that is placed elsewhere, with its ownership.\<close>

lemma hand_over_iso:
  assumes wf: "wf_vm s maps" "wf_view (view_of maps s)" and i: "iso w (allocations (vm_frames s)) (table_frame maps s)"
    and m: "is_mapped (w p a)" "entry_phys (w p a) = Done phys"
    and v: "view_of maps s = upd (upd w p a e0) q b e1" "\<not> is_mapped e0" "entry_phys e1 = Done phys"
    and run: "hand_over get p q (Done phys, s) = (r, s')"
  shows "isolated maps s'"
proof -
  have w1: "iso (upd w p a e0) (allocations (vm_frames s)) (table_frame maps s)" using i v(2) by (intro iso_clear) auto
  have wff: "wf_frames (vm_frames s)" using wf(1) by (simp add: wf_vm_def)
  show ?thesis
  proof (cases "\<exists>i. bus_view i phys")
    case True
    then obtain j where j: "bus_view j phys" by blast
    have f: "maps_frame (w p a) j" using m j by (auto simp: maps_frame_def)
    note d = isoD [OF i f]
    let ?m = "(vm_frames s)\<lparr>allocations := (allocations (vm_frames s))(j := Some q)\<rparr>"
    have s': "s' = s\<lparr>vm_frames := ?m\<rparr>"
      using run move_frame [OF j d(1), of get q] bus_view_page(2) [OF j]
      by (simp add: hand_over_def seq_simps_pair on_frames_def)
    have "wf_frames ?m" using wf_claim_release_move [OF wff move_frame [OF j d(1)]] by blast
    then have c: "accounts_change maps s ?m" using d(2) by (auto simp: accounts_change_def)
    note a = accounts_only [OF c wf(1)]
    have "\<not> maps_frame (upd w p a e0 q' b') j" for q' b' using d(3) v(2) by auto
    then have n: "\<And>q' b'. \<not> maps_frame ((upd w p a e0) q' b') j" .
    have e: "j' = j" if "maps_frame e1 j'" for j' using that v(3) j by (auto simp: maps_frame_def dest: bus_view_inj)
    have "iso (view_of maps s) ((allocations (vm_frames s))(j := Some q)) (table_frame maps s)"
      unfolding v(1) by (rule iso_put [OF w1 n d(2) e])
    then have "iso (view_of maps s) ((allocations (vm_frames s))(j := Some q)) (table_frame maps s')"
      by (rule iso_mono) (use a(3) s' in auto)
    with a(1,2) wf(2) show ?thesis by (simp add: isolated_def good_spaces_def s')
  next
    case False
    have e1: "\<not> maps_frame e1 j" for j using False v(3) by (auto simp: maps_frame_def)
    have io: "iso (view_of maps s) (allocations (vm_frames s)) (table_frame maps s)"
      unfolding v(1) by (rule iso_clear [OF w1 e1])
    show ?thesis
    proof (cases "phys = 0")
      case True
      with run io wf show ?thesis by (simp add: hand_over_def seq_simps_pair isolated_def good_spaces_def)
    next
      case nz: False
      obtain r1 m1 where crm: "claim_release_move get phys q (MoveFrom p) (vm_frames s) = (r1, m1)" by fastforce
      have s': "s' = s\<lparr>vm_frames := m1\<rparr>" using run crm nz by (simp add: hand_over_def seq_simps_pair on_frames_def)
      have same: "allocations m1 j = allocations (vm_frames s) j" if "j < RAM_PAGES" for j
        using crm_elsewhere [OF wff crm _ that] False by blast
      have c: "accounts_change maps s m1"
        using wf_claim_release_move [OF wff crm] crm_zeroed [OF wff crm] same table_frame_lt by (auto simp: accounts_change_def)
      note a = accounts_only [OF c wf(1)]
      have "iso (view_of maps s) (allocations m1) (table_frame maps s')"
        by (rule iso_mono [OF io]) (use same maps_frame_lt a(3) s' in auto)
      with a(1,2) wf(2) show ?thesis by (simp add: isolated_def good_spaces_def s')
    qed
  qed
qed


section \<open>Isolation is kept: one page\<close>

lemma isolatedD:
  assumes "isolated maps s"
  shows "wf_vm s maps" and "wf_view (view_of maps s)" and "good_spaces maps s"
    and "iso (view_of maps s) (allocations (vm_frames s)) (table_frame maps s)"
  using assms by (simp_all add: isolated_def good_spaces_def)

lemma isolatedI:
  "good_spaces maps s \<Longrightarrow> iso (view_of maps s) (allocations (vm_frames s)) (table_frame maps s) \<Longrightarrow> isolated maps s"
  by (simp add: isolated_def)

lemma op_keeps: "op_result maps op s r s' \<Longrightarrow> keeps maps s s'"
  by (simp add: op_result_def)

text \<open>An operation that empties an entry, or does nothing.\<close>

lemma cleared_isolated:
  assumes i: "isolated maps s" and "keeps maps s s'" and "good_spaces maps s'"
    and "view_of maps s' = view_of maps s \<or> (\<exists>e. view_of maps s' = upd (view_of maps s) p a e \<and> \<not> is_mapped e)"
  shows "isolated maps s'"
proof (rule isolatedI)
  show "good_spaces maps s'" by fact
  note io = keeps_iso [OF isolatedD(4) [OF i] assms(2)]
  from assms(4) show "iso (view_of maps s') (allocations (vm_frames s')) (table_frame maps s')"
  proof
    assume "\<exists>e. view_of maps s' = upd (view_of maps s) p a e \<and> \<not> is_mapped e"
    then obtain e where e: "view_of maps s' = upd (view_of maps s) p a e" "\<not> is_mapped e" by blast
    show ?thesis unfolding e(1) by (rule iso_clear [OF io]) (use e(2) in simp)
  qed (use io in simp)
qed

lemma unmap_isolated:
  assumes i: "isolated maps s" and mp: "maps p = Some mp" and run: "unmap_page mp a s = (r, s')"
  shows "isolated maps s'" and "r \<noteq> Panic" and "vm_frames s' = vm_frames s"
    and "view_of maps s' = (if is_mapped (view_of maps s p a) then upd (view_of maps s) p a L2Empty else view_of maps s')"
    and "view_of maps s' q b = view_of maps s q b \<or> view_of maps s' q b = L2Empty"
    and "get_l2_slot mp a s = Done sl \<Longrightarrow> is_mapped (view_of maps s p a) \<Longrightarrow> r = Done ()"
proof -
  have op: "run_op maps (OpUnmap p a) s = no_addr (r, s')" using mp run by (simp add: in_space_def)
  then obtain r1 where r1: "run_op maps (OpUnmap p a) s = (r1, s')" "r1 = Panic \<longleftrightarrow> r = Panic" "r1 = Done 0 \<longleftrightarrow> r = Done ()"
    by (cases r) (auto simp: no_addr_def seq_simps_pair)
  have "valid_op maps (OpUnmap p a) (view_of maps s)" using mp by simp
  note o = page_op_refines [OF isolatedD(3) [OF i] this r1(1)]
  note v = o(1) [unfolded op_result_def, THEN conjunct2, unfolded page_spec.simps]
  have "view_of maps s' = view_of maps s \<or> view_of maps s' = upd (view_of maps s) p a L2Empty" using v by (auto split: if_splits)
  then have "view_of maps s' = view_of maps s \<or> (\<exists>e. view_of maps s' = upd (view_of maps s) p a e \<and> \<not> is_mapped e)"
    by (metis is_mapped.simps(2))
  then show "isolated maps s'" by (rule cleared_isolated [OF i op_keeps [OF o(1)] o(2)])
  show "r \<noteq> Panic" using v r1(2) by (auto split: if_splits)
  show "view_of maps s' = (if is_mapped (view_of maps s p a) then upd (view_of maps s) p a L2Empty else view_of maps s')"
    "get_l2_slot mp a s = Done sl \<Longrightarrow> is_mapped (view_of maps s p a) \<Longrightarrow> r = Done ()"
    using v r1(3) by (cases "view_of maps s p a"; auto)+
  show "view_of maps s' q b = view_of maps s q b \<or> view_of maps s' q b = L2Empty" using v by (auto split: if_splits)
  show "vm_frames s' = vm_frames s"
    using run by (auto simp: unmap_page_def slot_write_def seq_def Let_def split: outcome.splits if_splits)
qed

lemma clear_isolated:
  assumes i: "isolated maps s" and mp: "maps p = Some mp" and run: "clear_shared mp a mode s = (r, s')"
  shows "isolated maps s'"
proof -
  obtain r1 where r1: "run_op maps (OpClear p a mode) s = (r1, s')"
    using mp run by (cases r) (simp_all add: in_space_def no_addr_def seq_simps_pair)
  have "valid_op maps (OpClear p a mode) (view_of maps s)" using mp by simp
  note o = page_op_refines [OF isolatedD(3) [OF i] this r1]
  have "\<not> is_mapped e" if "is_shared d" "with_phys d 0 = Done e" for d e
    using that by (cases d) (auto simp: with_phys_def split: if_splits)
  with o(1) have "view_of maps s' = view_of maps s \<or> (\<exists>e. view_of maps s' = upd (view_of maps s) p a e \<and> \<not> is_mapped e)"
    by (cases mode) (auto simp: op_result_def split: if_splits)
  then show ?thesis by (rule cleared_isolated [OF i op_keeps [OF o(1)] o(2)])
qed

lemma back_isolated:
  assumes i: "isolated maps s" and mp: "maps p = Some mp" and run: "ensure_backed mp a s = (r, s')"
  shows "isolated maps s'"
proof -
  obtain r1 where r1: "run_op maps (OpBack p a) s = (r1, s')"
    using mp run by (cases r) (simp_all add: in_space_def no_addr_def seq_simps_pair)
  have "valid_op maps (OpBack p a) (view_of maps s)" using mp by simp
  note o = page_op_refines [OF isolatedD(3) [OF i] this r1]
  then have "source_view (new_frames maps p s s') p a (view_of maps s) (view_of maps s')"
    by (auto simp: op_result_def source_view_def split: outcome.splits)
  from source_iso [OF isolatedD(4) [OF i] op_keeps [OF o(1)] this] o(2) show ?thesis by (rule isolatedI [rotated])
qed

lemma move_isolated:
  assumes i: "isolated maps s" and mp: "maps p = Some mp" and mq: "maps q = Some mq"
    and run: "mm_move_page get mp a mq b s = (r, s')"
  shows "isolated maps s'"
proof -
  have pid: "map_pid mp = p" "map_pid mq = q" using isolatedD(1) [OF i] mp mq by (auto simp: wf_vm_def)
  obtain r1 s1 where r1: "space_move_page mp a mq b s = (r1, s1)" by fastforce
  then have op: "run_op maps (OpMove p a q b) s = (r1, s1)" using mp mq by (simp add: in_space_def)
  have "valid_op maps (OpMove p a q b) (view_of maps s)" using mp mq by simp
  note o = page_op_refines [OF isolatedD(3) [OF i] this op]
  from o(1) [unfolded op_result_def page_spec.simps giver.simps, THEN conjunct2] obtain w where
    w: "source_view (new_frames maps p s s1) p a (view_of maps s) w" "case r1 of
          Done phys \<Rightarrow> is_mapped (w p a) \<and> entry_phys (w p a) = Done phys \<and> giveable (view_of maps s p a)
            \<and> free_at (view_of maps s) q b \<and> view_of maps s1 = upd (upd w p a L2Empty) q b (w p a)
        | Fail err \<Rightarrow> view_of maps s1 = w \<and> (err = OutOfMemory \<or> \<not> giveable (view_of maps s p a) \<or> \<not> free_at (view_of maps s) q b)
        | Panic \<Rightarrow> False"
    by blast
  note io = source_iso [OF isolatedD(4) [OF i] op_keeps [OF o(1)] w(1)]
  show ?thesis
  proof (cases r1)
    case (Done phys)
    with w(2) have d: "is_mapped (w p a)" "entry_phys (w p a) = Done phys" "view_of maps s1 = upd (upd w p a L2Empty) q b (w p a)"
      by simp_all
    have "hand_over get p q (Done phys, s1) = (r, s')" using run r1 Done pid by (simp add: mm_move_page_def)
    from hand_over_iso [OF _ _ io d(1,2,3) _ d(2) this] o(2) show ?thesis by (simp add: good_spaces_def)
  qed (use w(2) io o(2) run r1 pid in \<open>auto simp: isolated_def mm_move_page_def hand_over_def seq_simps_pair\<close>)
qed

lemma lend_isolated:
  assumes i: "isolated maps s" and mp: "maps p = Some mp" and mq: "maps q = Some mq"
    and run: "mm_lend_page get mp a mq b mutable s = (r, s')"
  shows "isolated maps s'"
proof -
  have pid: "map_pid mp = p" "map_pid mq = q" using isolatedD(1) [OF i] mp mq by (auto simp: wf_vm_def)
  obtain r1 s1 where r1: "space_lend_page mp a mq b mutable s = (r1, s1)" by fastforce
  then have op: "run_op maps (OpLend p a q b mutable) s = (r1, s1)" using mp mq by (simp add: in_space_def)
  have "valid_op maps (OpLend p a q b mutable) (view_of maps s)" using mp mq by simp
  note o = page_op_refines [OF isolatedD(3) [OF i] this op]
  from o(1) [unfolded op_result_def page_spec.simps giver.simps, THEN conjunct2] obtain w where
    w: "source_view (new_frames maps p s s1) p a (view_of maps s) w" "case r1 of
          Done phys \<Rightarrow> is_mapped (w p a) \<and> entry_phys (w p a) = Done phys \<and> giveable (view_of maps s p a)
            \<and> free_at (view_of maps s) q b
            \<and> (\<exists>shared new. to_unmapped (w p a) = Done shared
                \<and> (if mutable then Done (w p a) else to_immutable (w p a)) = Done new
                \<and> view_of maps s1 = upd (upd w p a shared) q b new)
        | Fail err \<Rightarrow> view_of maps s1 = w \<and> (err = OutOfMemory \<or> \<not> giveable (view_of maps s p a) \<or> \<not> free_at (view_of maps s) q b)
        | Panic \<Rightarrow> False"
    by blast
  note io = source_iso [OF isolatedD(4) [OF i] op_keeps [OF o(1)] w(1)]
  have ww: "wf_entry (w p a)"
    using w(1) isolatedD(2) [OF i] backs_wf wf_view_at unfolding source_view_def by metis
  show ?thesis
  proof (cases r1)
    case (Done phys)
    with w(2) obtain shared new where d: "is_mapped (w p a)" "entry_phys (w p a) = Done phys"
      "to_unmapped (w p a) = Done shared" "(if mutable then Done (w p a) else to_immutable (w p a)) = Done new"
      "view_of maps s1 = upd (upd w p a shared) q b new"
      by (auto simp del: to_unmapped.simps to_immutable.simps)
    from wf_mapped [OF ww d(1)] obtain ph f u where e: "w p a = L2Mapped (page_desc 0 ph f u)" "ph AND 0xfff = 0" "ph \<noteq> 0" .
    have sh: "\<not> is_mapped shared" using d(3) to_unmapped_page_desc [OF e(2)] by (auto simp: e(1))
    have new: "entry_phys new = Done phys"
      using d(2,4) to_immutable_page_desc [OF e(2)] page_desc_addr [OF e(2)] by (cases mutable) (auto simp: e(1))
    have "hand_over get p q (Done phys, s1) = (r, s')" using run r1 Done pid by (simp add: mm_lend_page_def)
    from hand_over_iso [OF _ _ io d(1,2,5) sh new this] o(2) show ?thesis by (simp add: good_spaces_def)
  qed (use w(2) io o(2) run r1 pid in \<open>auto simp: isolated_def mm_lend_page_def hand_over_def seq_simps_pair\<close>)
qed

lemma to_mapped_phys:
  assumes "wf_entry d" and "to_mapped d b = Done e" and "entry_phys d = Done phys"
  shows "is_mapped e \<and> entry_phys e = Done phys"
proof (cases d)
  case (L2Unmapped x)
  with assms(1) obtain ph f u where x: "ph AND 0xfff = 0" "wf_flags f" "x = parked ph f u" by auto
  have "phys = ph" using assms(3) parked_fields(1) [OF x(1,2)] by (simp add: L2Unmapped x(3))
  moreover have "e = L2Mapped (page_desc b ph f u)"
    using assms(2) to_mapped_parked [OF x(1,2)] by (simp add: L2Unmapped x(3))
  ultimately show ?thesis using page_desc_addr [OF x(1)] by simp
next
  case (L2Mapped x)
  then have "e = L2Mapped x" using assms(2) by simp
  with assms(3) L2Mapped show ?thesis by (metis is_mapped.simps(1))
next
  case L2Empty
  with assms(2) show ?thesis by simp
qed

text \<open>A page can be returned safely if the borrower still has it mapped.\<close>

lemma unlend_isolated:
  assumes i: "isolated maps s" and mp: "maps p = Some mp" and mq: "maps q = Some mq"
    and src: "is_mapped (view_of maps s p a)" and dst: "\<not> is_on_demand (view_of maps s q b)"
    and run: "mm_unlend_page get mp a mq b s = (r, s')"
  shows "isolated maps s'"
proof -
  have pid: "map_pid mp = p" "map_pid mq = q" using isolatedD(1) [OF i] mp mq by (auto simp: wf_vm_def)
  obtain r1 s1 where r1: "space_return_page mp a mq b s = (r1, s1)" by fastforce
  then have op: "run_op maps (OpReturn p a q b) s = (r1, s1)" using mp mq by (simp add: in_space_def)
  have "valid_op maps (OpReturn p a q b) (view_of maps s)" using mp mq dst by simp
  note o = page_op_refines [OF isolatedD(3) [OF i] this op]
  note io = keeps_iso [OF isolatedD(4) [OF i] op_keeps [OF o(1)]]
  show ?thesis
  proof (cases r1)
    case (Done phys)
    with o(1) obtain e where d: "entry_phys (view_of maps s p a) = Done phys" "entry_phys (view_of maps s q b) = Done phys"
      "to_mapped (view_of maps s q b) b = Done e" "view_of maps s1 = upd (upd (view_of maps s) p a L2Empty) q b e"
      by (auto simp: op_result_def simp del: to_mapped.simps entry_phys.simps)
    have e: "entry_phys e = Done phys" using to_mapped_phys [OF wf_view_at [OF isolatedD(2) [OF i]] d(3,2)] by blast
    have "hand_over get p q (Done phys, s1) = (r, s')" using run r1 Done pid by (simp add: mm_unlend_page_def)
    from hand_over_iso [OF _ _ io src d(1,4) _ e this] o(2) show ?thesis by (simp add: good_spaces_def)
  qed (use o io run r1 pid in \<open>auto simp: isolated_def op_result_def mm_unlend_page_def hand_over_def seq_simps_pair\<close>)
qed

end
