(* ===== verification/Memory_Isolation.thy ===== *)
theory Memory_Isolation
  imports Memory_Mappings
begin

unbundle bit_operations_syntax

text \<open>
  Isolation is kept by everything that happens to memory: mapping and unmapping ranges, the
  start and the end of processes, stores, and the background zeroer. The steps of the memory
  system are one relation; the theorems say what holds in every state it reaches, and what goes
  wrong when a range is mirrored, or a lent page is lent on and then returned.
\<close>

section \<open>Isolation is kept: unmapping a range\<close>

lemma virt_to_phys_view:
  assumes "maps p = Some mp" and "virt_to_phys mp a s = Done phys"
  shows "\<exists>sl. get_l2_slot mp a s = Done sl" and "is_mapped (view_of maps s p a)"
    and "entry_phys (view_of maps s p a) = Done phys"
proof -
  from assms(2) obtain sl where sl: "get_l2_slot mp a s = Done sl" "is_mapped (slot_read sl s)"
    "entry_phys (slot_read sl s) = Done phys"
    by (auto simp: virt_to_phys_def Let_def simp del: entry_phys.simps split: outcome.splits if_splits)
  with slot_read_view [where maps = maps, OF assms(1) sl(1)]
  show "\<exists>sl. get_l2_slot mp a s = Done sl" "is_mapped (view_of maps s p a)"
    "entry_phys (view_of maps s p a) = Done phys" by auto
qed

text \<open>Giving up a page that the process has mapped: the accounts change at that page only.\<close>

lemma release_mapped:
  assumes i: "isolated maps s" and m: "is_mapped (view_of maps s p a)" "entry_phys (view_of maps s p a) = Done phys"
    and run: "claim_release_move get phys p Release (vm_frames s) = (r, m')"
  shows "accounts_change maps s m'"
    and "allocations m' j \<noteq> allocations (vm_frames s) j \<Longrightarrow> j < RAM_PAGES \<Longrightarrow> maps_frame (view_of maps s p a) j"
proof -
  have wf: "wf_frames (vm_frames s)" using isolatedD(1) [OF i] by (simp add: wf_vm_def)
  note own = release_owners [OF wf, of get phys p, unfolded run snd_conv]
  show fr: "maps_frame (view_of maps s p a) j" if "allocations m' j \<noteq> allocations (vm_frames s) j" "j < RAM_PAGES" for j
  proof -
    have "accounts get phys p j" using that(1) own [of j] by (auto split: if_splits)
    from accounts_bus_view [OF this that(2)] m show ?thesis by (auto simp: maps_frame_def)
  qed
  have "allocations m' j = allocations (vm_frames s) j" if "table_frame maps s j" for j
    using fr [OF _ table_frame_lt [OF that]] isoD(2) [OF isolatedD(4) [OF i]] that by blast
  with wf_claim_release_move [OF wf run] crm_zeroed [OF wf run] show "accounts_change maps s m'"
    by (auto simp: accounts_change_def)
qed

lemma unmap_step:
  assumes good: "good_spaces maps s" and mp: "maps p = Some mp" and phys: "virt_to_phys mp a s = Done phys"
    and c: "accounts_change maps s m1" and run: "unmap_page mp a (s\<lparr>vm_frames := m1\<rparr>) = (r, s')"
  shows "r = Done ()" and "vm_frames s' = m1" and "view_of maps s' = upd (view_of maps s) p a L2Empty"
    and "good_spaces maps s'" and "table_frame maps s' j \<Longrightarrow> table_frame maps s j"
proof -
  let ?s = "s\<lparr>vm_frames := m1\<rparr>" and ?v = "view_of maps s"
  have w: "wf_vm s maps" "wf_view ?v" using good by (simp_all add: good_spaces_def)
  note v = virt_to_phys_view [where maps = maps, OF mp phys]
  note a = accounts_only [OF c w(1)]
  obtain sl where sl: "get_l2_slot mp a ?s = Done sl" using v(1) a(4) [OF mp] by metis
  have good': "good_spaces maps ?s" using a(1,2) w(2) by (simp add: good_spaces_def)
  obtain r2 where r2: "run_op maps (OpUnmap p a) ?s = (r2, s')" "r2 = Done 0 \<longleftrightarrow> r = Done ()"
    using mp run by (cases r) (simp_all add: in_space_def no_addr_def seq_simps_pair)
  have "valid_op maps (OpUnmap p a) (view_of maps ?s)" using mp by simp
  note o = page_op_refines [OF good' this r2(1)]
  have nf: "?v p a \<noteq> L2Empty" "\<not> is_shared (?v p a)" using v(2) by (cases "?v p a"; simp)+
  with o(1) a(2) have "view_of maps s' = upd ?v p a L2Empty" and ok: "r2 = Done 0" by (simp_all add: op_result_def)
  then show "view_of maps s' = upd ?v p a L2Empty" "r = Done ()" "good_spaces maps s'" using r2(2) o(2) by simp_all
  show fr: "vm_frames s' = m1"
    using run by (auto simp: unmap_page_def slot_write_def seq_def Let_def split: outcome.splits if_splits)
  show "table_frame maps s j" if "table_frame maps s' j" for j
  proof -
    have "table_frame maps ?s j \<or> allocations (vm_frames ?s) j = None" using op_keeps [OF o(1)] that by (simp add: keeps_def)
    moreover have "allocations (vm_frames ?s) j \<noteq> None"
      using table_frame_owned [OF keepsD(1) [OF op_keeps [OF o(1)]] that] fr by simp
    ultimately show ?thesis using a(3) by blast
  qed
qed

lemma unmap_step_isolated:
  assumes i: "isolated maps s" and mp: "maps p = Some mp" and phys: "virt_to_phys mp a s = Done phys"
    and crm: "claim_release_move get phys p Release (vm_frames s) = (r1, m1)"
    and run: "unmap_page mp a (s\<lparr>vm_frames := m1\<rparr>) = (r, s')"
  shows "isolated maps s' \<and> r = Done ()"
proof -
  let ?v = "view_of maps s"
  note c = release_mapped [OF i virt_to_phys_view(2,3) [where maps = maps, OF mp phys] crm]
  note u = unmap_step [OF isolatedD(3) [OF i] mp phys c(1) run]
  note io = isolatedD(4) [OF i]
  have "iso (upd ?v p a L2Empty) (allocations (vm_frames s)) (table_frame maps s)" using io by (intro iso_clear) auto
  then have "iso (upd ?v p a L2Empty) (allocations m1) (table_frame maps s')"
  proof (rule iso_mono)
    fix q b j
    assume f: "maps_frame (upd ?v p a L2Empty q b) j"
    then have n: "(q, b) \<noteq> (p, a)" and f': "maps_frame (?v q b) j" by (auto split: if_splits)
    show "allocations m1 j = allocations (vm_frames s) j"
    proof (rule ccontr)
      assume "allocations m1 j \<noteq> allocations (vm_frames s) j"
      from isoD(3) [OF io f' c(2) [OF this maps_frame_lt [OF f]]] n show False by auto
    qed
  qed (use u(5) in blast)
  with u(1-4) show ?thesis by (simp add: isolated_def)
qed

lemma unmap_loop_isolated:
  "isolated maps s \<Longrightarrow> maps p = Some mp \<Longrightarrow> unmap_loop get mp as r0 s = (r, s') \<Longrightarrow> r0 \<noteq> Panic
    \<Longrightarrow> isolated maps s' \<and> r \<noteq> Panic"
proof (induction as arbitrary: s r0)
  case (Cons a as)
  have pid: "map_pid mp = p" using isolatedD(1) [OF Cons.prems(1)] Cons.prems(2) by (auto simp: wf_vm_def)
  have go: "isolated maps s' \<and> r \<noteq> Panic"
    if un: "unmap_page mp a s1 = (r1, s2)" and i2: "isolated maps s2" and np: "r1 \<noteq> Panic"
      and run: "(case unmap_page mp a s1 of
          (Done _, s2) \<Rightarrow> unmap_loop get mp as r0 s2
        | (Panic, s2) \<Rightarrow> (Panic, s2)
        | (Fail e, s2) \<Rightarrow> unmap_loop get mp as (if r0 = Done () then Fail e else r0) s2) = (r, s')" for s1 r1 s2
  proof (cases r1)
    case (Fail e)
    with un run have "unmap_loop get mp as (if r0 = Done () then Fail e else r0) s2 = (r, s')" by simp
    with Cons.IH [OF i2 Cons.prems(2) this] Cons.prems(4) show ?thesis by simp
  qed (use un run np Cons.IH [OF i2 Cons.prems(2) _ Cons.prems(4)] in simp_all)
  show ?case
  proof (cases "virt_to_phys mp a s")
    case (Done phys)
    obtain r1 m1 where crm: "claim_release_move get phys p Release (vm_frames s) = (r1, m1)" by fastforce
    obtain r2 s2 where un: "unmap_page mp a (s\<lparr>vm_frames := m1\<rparr>) = (r2, s2)" by fastforce
    note st = unmap_step_isolated [OF Cons.prems(1,2) Done crm un]
    with Cons.prems(3) Done crm pid show ?thesis by (intro go [OF un]) (simp_all add: on_frames_def)
  next
    case (Fail e)
    obtain r2 s2 where un: "unmap_page mp a s = (r2, s2)" by fastforce
    note st = unmap_isolated(1,2) [OF Cons.prems(1,2) un]
    with Cons.prems(3) Fail show ?thesis by (intro go [OF un]) simp_all
  next
    case Panic
    obtain r2 s2 where un: "unmap_page mp a s = (r2, s2)" by fastforce
    note st = unmap_isolated(1,2) [OF Cons.prems(1,2) un]
    with Cons.prems(3) Panic show ?thesis by (intro go [OF un]) simp_all
  qed
qed simp

lemma unmap_range_isolated:
  assumes "isolated maps s" and "maps p = Some mp" and "unmap_range get mp a len s = (r, s')"
  shows "isolated maps s'" and "r \<noteq> Panic"
  using assms unmap_loop_isolated [OF assms(1,2)] by (auto simp: unmap_range_def split: if_splits)

section \<open>Isolation is kept: the end of a process\<close>

lemma wf_vm_subset: "wf_vm s maps \<Longrightarrow> wf_vm s (maps(p := None))"
  by (auto simp: wf_vm_def split: if_splits)

lemma table_frame_subset: "table_frame (maps(p := None)) s i \<Longrightarrow> table_frame maps s i"
  unfolding table_frame_def by (metis (no_types, lifting) fun_upd_apply option.distinct(1))

lemma table_frame_owner:
  assumes "wf_vm s maps" and "table_frame maps s i"
  obtains q where "maps q \<noteq> None" "allocations (vm_frames s) i = Some q"
proof -
  from assms(2) obtain q mq t G where r: "maps q = Some mq" "space_rel s mq t G"
    "i = t \<or> i = t + 1 \<or> (\<exists>g < 512. G g = Some i)" unfolding table_frame_def by blast
  have "map_pid mq = q" using assms(1) r(1) by (auto simp: wf_vm_def)
  with r space_relD(6) [OF r(2)] have "allocations (vm_frames s) i = Some q" by (auto simp: space_rel_def)
  with r(1) that show thesis by blast
qed

lemma end_isolated:
  assumes i: "isolated maps s" and run: "end_space p maps s = (maps', s')"
  shows "isolated maps' s'"
proof -
  have wf: "wf_frames (vm_frames s)" using isolatedD(1) [OF i] by (simp add: wf_vm_def)
  obtain r m' where rel: "release_all_memory_for_process p (vm_frames s) = (r, m')" by fastforce
  from run rel have maps': "maps' = maps(p := None)" "s' = s\<lparr>vm_frames := m'\<rparr>" by (simp_all add: end_space_def on_frames_def)
  from rel wf obtain m1 where m1: "m' = zeroer_start m1" "wf_frames m'" "free_pages_zeroed m1 = free_pages_zeroed (vm_frames s)"
    "allocations m' = (\<lambda>j. if j < allocation_count \<and> allocations (vm_frames s) j = Some p then None else allocations (vm_frames s) j)"
    by (rule release_all_spec)
  have w: "wf_vm s maps'" unfolding maps'(1) by (rule wf_vm_subset [OF isolatedD(1) [OF i]])
  have own: "allocations m' j = allocations (vm_frames s) j" if "allocations (vm_frames s) j = Some q" "q \<noteq> p" for j q
    using that m1(4) by simp
  have "allocations m' j = allocations (vm_frames s) j" if "table_frame maps' s j" for j
    using table_frame_owner [OF w that] own maps'(1) by (metis fun_upd_same)
  with m1 have c: "accounts_change maps' s m'" by (simp add: accounts_change_def)
  note a = accounts_only [OF c w, folded maps'(2)]
  have v: "view_of maps' s q b = (if q = p then L2Empty else view_of maps s q b)" for q b
    by (simp add: view_of_def maps'(1))
  have "wf_view (view_of maps' s')" using isolatedD(2) [OF i] by (simp add: a(2) wf_view_def v)
  with a(1) have good: "good_spaces maps' s'" by (simp add: good_spaces_def)
  have "iso (view_of maps' s') (allocations m') (table_frame maps' s')"
    unfolding iso_def a(2) v
  proof (intro conjI allI impI)
    fix q b j
    assume f: "maps_frame (if q = p then L2Empty else view_of maps s q b) j"
    then have n: "q \<noteq> p" and f': "maps_frame (view_of maps s q b) j" by (auto split: if_splits)
    note d = isoD(1,2) [OF isolatedD(4) [OF i] f']
    show "allocations m' j = Some q" using own [OF d(1) n] d(1) by simp
    show "\<not> table_frame maps' s' j" using d(2) a(3) table_frame_subset unfolding maps'(1) by blast
  next
    fix q b b' j
    assume "maps_frame (if q = p then L2Empty else view_of maps s q b) j \<and> maps_frame (if q = p then L2Empty else view_of maps s q b') j"
    then show "b = b'" using isoD(3) [OF isolatedD(4) [OF i]] by (auto split: if_splits)
  qed
  with good show ?thesis by (simp add: isolated_def maps'(2))
qed


section \<open>Isolation is kept: mapping a range\<close>

lemma addr_range_len:
  assumes "unat a + unat len < 2 ^ 32"
  shows "addr_range a (a + len) = map (\<lambda>k. a + of_nat k * 4096) [0..<page_steps_of len]"
proof -
  have "unat (a + len) = unat a + unat len" using assms by (simp add: unat_word_ariths)
  then show ?thesis by (simp add: addr_range_def page_steps_of_def)
qed

text \<open>A page of the process that nobody has mapped and that holds no table.\<close>

definition fresh :: "spaces \<Rightarrow> pid \<Rightarrow> vm \<Rightarrow> nat \<Rightarrow> bool" where
  "fresh maps p s j \<longleftrightarrow> allocations (vm_frames s) j = Some p \<and> \<not> table_frame maps s j
     \<and> (\<forall>q b. \<not> maps_frame (view_of maps s q b) j)"

definition page_at :: "usize \<Rightarrow> nat \<Rightarrow> usize" where
  "page_at a k = a + of_nat k * 4096"

definition separate :: "usize \<Rightarrow> nat \<Rightarrow> bool" where
  "separate ph n \<longleftrightarrow> (\<forall>k k' j. k < n \<and> k' < n \<and> bus_view j (page_at ph k) \<and> bus_view j (page_at ph k') \<longrightarrow> k = k')"

lemma claim_pages_distinct:
  assumes "claim_pages get taken as p m = (Done (), m')" and "wf_frames m"
  shows "(\<forall>a \<in> set as. \<forall>j. accounts get a p j \<longrightarrow> allocations m j = None)
    \<and> sorted_wrt (\<lambda>a b. \<forall>j. \<not> (accounts get a p j \<and> accounts get b p j)) as"
  using assms
proof (induction get taken as p m rule: claim_pages.induct)
  case (2 get taken a as p m)
  obtain r1 m1 where one: "claim_release_move get a p Claim m = (r1, m1)" by fastforce
  from 2(2) one have r1: "r1 = Done ()" by (cases r1) simp_all
  note own = claim_owners [OF 2(3) one [unfolded r1]]
  have w1: "wf_frames m1" using wf_claim_release_move [OF 2(3) one] by blast
  have run: "claim_pages get (taken @ [a]) as p m1 = (Done (), m')" using 2(2) one r1 by simp
  note ih = 2(1) [OF one [symmetric] r1 run w1]
  have "allocations m j = None" if "b \<in> set as" "accounts get b p j" for b j
    using ih that own by (metis option.distinct(1))
  moreover have "\<not> (accounts get a p j \<and> accounts get b p j)" if "b \<in> set as" for b j
    using ih that own(1) by (metis option.distinct(1))
  ultimately show ?case using ih own(2) by auto
qed simp

lemma owner_change:
  assumes i: "isolated maps s" and wf: "wf_frames m'"
    and z: "\<And>j. free_pages_zeroed m' j \<Longrightarrow> free_pages_zeroed (vm_frames s) j"
    and own: "\<And>j. allocations (vm_frames s) j \<noteq> None \<Longrightarrow> allocations m' j = allocations (vm_frames s) j"
  shows "isolated maps (s\<lparr>vm_frames := m'\<rparr>)" and "view_of maps (s\<lparr>vm_frames := m'\<rparr>) = view_of maps s"
    and "allocations (vm_frames s) j = None \<Longrightarrow> allocations m' j = Some p \<Longrightarrow> fresh maps p (s\<lparr>vm_frames := m'\<rparr>) j"
proof -
  have "accounts_change maps s m'"
    using wf z own table_frame_owned [OF isolatedD(1) [OF i]] by (simp add: accounts_change_def)
  note a = accounts_only [OF this isolatedD(1) [OF i]]
  show v: "view_of maps (s\<lparr>vm_frames := m'\<rparr>) = view_of maps s" by (rule a(2))
  note io = isolatedD(4) [OF i]
  have "iso (view_of maps s) (allocations m') (table_frame maps (s\<lparr>vm_frames := m'\<rparr>))"
    by (rule iso_mono [OF io]) (use isoD(1) [OF io] own a(3) in auto)
  with a(1) v isolatedD(2) [OF i] show "isolated maps (s\<lparr>vm_frames := m'\<rparr>)" by (simp add: isolated_def good_spaces_def)
  assume n: "allocations (vm_frames s) j = None" "allocations m' j = Some p"
  have "\<not> maps_frame (view_of maps s q b) j" for q b using isoD(1) [OF io] n(1) by fastforce
  moreover have "\<not> table_frame maps (s\<lparr>vm_frames := m'\<rparr>) j"
    using a(3) table_frame_owned [OF isolatedD(1) [OF i]] n(1) by blast
  ultimately show "fresh maps p (s\<lparr>vm_frames := m'\<rparr>) j" using n(2) v by (simp add: fresh_def)
qed

definition range_ready :: "spaces \<Rightarrow> pid \<Rightarrow> usize \<Rightarrow> usize \<Rightarrow> vm \<Rightarrow> bool" where
  "range_ready maps p ph len s \<longleftrightarrow> unat ph + unat len < 2 ^ 32 \<and> separate ph (page_steps_of len)
     \<and> (\<forall>k < page_steps_of len. \<forall>j. bus_view j (page_at ph k) \<longrightarrow> fresh maps p s j)"

lemma plaintext_add:
  assumes "i + k < RAM_PAGES"
  shows "to_plaintext_phys_addr (page_addr i) + of_nat k * 4096 = to_plaintext_phys_addr (page_addr (i + k))"
proof -
  have "i < RAM_PAGES" using assms by simp
  from plaintext_page_addr [OF this] plaintext_page_addr [OF assms] show ?thesis by (simp add: algebra_simps)
qed

lemma allocated_ready:
  assumes i: "isolated maps s" and run: "free_run (vm_frames s) i n" and h: "handed_over i n p (vm_frames s) m'"
    and ph: "ph = page_addr i \<or> ph = to_plaintext_phys_addr (page_addr i)" and len: "unat len = n * 4096" "0 < n"
  shows "isolated maps (s\<lparr>vm_frames := m'\<rparr>) \<and> view_of maps (s\<lparr>vm_frames := m'\<rparr>) = view_of maps s
    \<and> range_ready maps p ph len (s\<lparr>vm_frames := m'\<rparr>)"
proof -
  have wf: "wf_frames (vm_frames s)" using isolatedD(1) [OF i] by (simp add: wf_vm_def)
  have le: "i + n \<le> RAM_PAGES" using run by (simp add: free_run_def)
  have none: "allocations (vm_frames s) j = None" if "i \<le> j" "j < i + n" for j
    using free_run_unowned(1) [OF wf run] that by (auto simp: unowned_def)
  have al: "allocations m' = set_range i n (Some p) (allocations (vm_frames s))" using h by (simp add: handed_over_def)
  have keep: "allocations m' j = allocations (vm_frames s) j" if "allocations (vm_frames s) j \<noteq> None" for j
    using none [of j] that by (auto simp: al set_range_def)
  note c = owner_change [OF i wf_handed_over [OF wf run h] zeroed_le_handed_over [OF h] keep]
  have st: "page_steps_of len = n" using len by (simp add: page_steps_of_def)
  have bv: "bus_view (i + k) (page_at ph k)" if "k < n" for k
    using ph le that page_addr_add [of i k] plaintext_add [of i k] by (auto simp: bus_view_def page_at_def)
  have at: "j = i + k" if "k < n" "bus_view j (page_at ph k)" for j k using bus_view_inj [OF that(2) bv [OF that(1)]] .
  have "fresh maps p (s\<lparr>vm_frames := m'\<rparr>) j" if "k < n" "bus_view j (page_at ph k)" for j k
    using at [OF that] that(1) none [of j] by (intro c(3)) (simp_all add: al set_range_def)
  moreover have "separate ph n" unfolding separate_def using at by (metis add_left_cancel)
  moreover have "unat ph + unat len < 2 ^ 32"
  proof -
    have "i < RAM_PAGES" using le len(2) by simp
    then have "unat ph \<le> 2 ^ 30 + i * 4096"
      using ph unat_page_addr [of i] plaintext_page_addr [of i] plain_offset [of i] by auto
    with le len(1) show ?thesis by (simp add: RAM_PAGES_def)
  qed
  ultimately show ?thesis using c(1,2) by (simp add: range_ready_def st)
qed

lemma claimed_ready:
  assumes i: "isolated maps s" and chk: "unat ph + unat len < 2 ^ 32"
    and run: "claim_pages get [] (addr_range ph (ph + len)) p (vm_frames s) = (r, m')"
  shows "isolated maps (s\<lparr>vm_frames := m'\<rparr>) \<and> view_of maps (s\<lparr>vm_frames := m'\<rparr>) = view_of maps s
    \<and> r \<noteq> Panic \<and> (r = Done () \<longrightarrow> range_ready maps p ph len (s\<lparr>vm_frames := m'\<rparr>))"
proof -
  have wf: "wf_frames (vm_frames s)" using isolatedD(1) [OF i] by (simp add: wf_vm_def)
  let ?as = "addr_range ph (ph + len)" and ?own = "allocations (vm_frames s)"
  have as: "?as = map (page_at ph) [0..<page_steps_of len]" using addr_range_len [OF chk] by (simp add: page_at_def [abs_def])
  have "taken_from get p [] ?own ?own" by (simp add: taken_from_def)
  note t = claim_pages_owners [OF run wf this]
  have keep: "allocations m' j = ?own j" if "?own j \<noteq> None" for j
  proof (cases "r = Done ()")
    case True
    with t have "taken_from get p ?as ?own (allocations m')" by simp
    then have "if \<exists>a \<in> set ?as. accounts get a p j then ?own j = None \<and> allocations m' j = Some p
      else allocations m' j = ?own j" unfolding taken_from_def by blast
    with that show ?thesis by (auto split: if_splits)
  qed (use t in simp)
  note c = owner_change [OF i _ claim_pages_zeroed [OF run wf] keep]
  have "range_ready maps p ph len (s\<lparr>vm_frames := m'\<rparr>)" if ok: "r = Done ()"
  proof -
    note d = claim_pages_distinct [OF run [unfolded ok] wf]
    have fr: "fresh maps p (s\<lparr>vm_frames := m'\<rparr>) j" if "k < page_steps_of len" "bus_view j (page_at ph k)" for k j
    proof -
      have "page_at ph k \<in> set ?as" using that(1) by (simp add: as)
      moreover have "accounts get (page_at ph k) p j" using bus_view_accounts [OF that(2)] .
      ultimately have "?own j = None" "allocations m' j = Some p"
        using t ok by (auto simp: taken_from_def split: if_splits)
      with t show ?thesis by (intro c(3)) auto
    qed
    have "False" if "k < k'" "k' < page_steps_of len" "bus_view j (page_at ph k)" "bus_view j (page_at ph k')" for k k' j
    proof -
      from d have "sorted_wrt (\<lambda>a b. \<forall>j. \<not> (accounts get a p j \<and> accounts get b p j)) (map (page_at ph) [0..<page_steps_of len])"
        by (simp add: as)
      from sorted_wrt_nth_less [OF this that(1)] that(1,2) bus_view_accounts [OF that(3), of get p]
        bus_view_accounts [OF that(4), of get p] show False by simp
    qed
    then have "separate ph (page_steps_of len)" unfolding separate_def by (metis linorder_neq_iff)
    with fr chk show ?thesis by (simp add: range_ready_def)
  qed
  with c(1,2) t show ?thesis by auto
qed


lemma unmap_page_tables:
  assumes "isolated maps s" and "maps p = Some mp" and "unmap_page mp a s = (r, s')" and "table_frame maps s' j"
  shows "table_frame maps s j"
proof -
  obtain r1 where r1: "run_op maps (OpUnmap p a) s = (r1, s')"
    using assms(2,3) by (cases r) (simp_all add: in_space_def no_addr_def seq_simps_pair)
  have "valid_op maps (OpUnmap p a) (view_of maps s)" using assms(2) by simp
  note k = op_keeps [OF page_op_refines(1) [OF isolatedD(3) [OF assms(1)] this r1]]
  have "allocations (vm_frames s) j \<noteq> None"
    using table_frame_owned [OF keepsD(1) [OF k] assms(4)] unmap_isolated(3) [OF assms(1-3)] by simp
  with k assms(4) show ?thesis unfolding keeps_def by metis
qed

lemma unmap_pages_isolated:
  assumes "isolated maps s" and "maps p = Some mp"
  shows "isolated maps (unmap_pages mp a ks s) \<and> vm_frames (unmap_pages mp a ks s) = vm_frames s
    \<and> (\<forall>q b. view_of maps (unmap_pages mp a ks s) q b \<in> {view_of maps s q b, L2Empty})
    \<and> (\<forall>k \<in> set ks. \<not> is_mapped (view_of maps (unmap_pages mp a ks s) p (page_at a k)))
    \<and> (\<forall>j. table_frame maps (unmap_pages mp a ks s) j \<longrightarrow> table_frame maps s j)"
  using assms(1)
proof (induction ks arbitrary: s)
  case (Cons k ks)
  obtain r s1 where un: "unmap_page mp (page_at a k) s = (r, s1)" by fastforce
  then have e: "unmap_pages mp a (k # ks) s = unmap_pages mp a ks s1" by (simp add: page_at_def)
  note u = unmap_isolated [OF Cons.prems assms(2) un] and t = unmap_page_tables [OF Cons.prems assms(2) un]
  note ih = Cons.IH [OF u(1)]
  have n1: "\<not> is_mapped (view_of maps s1 p (page_at a k))"
  proof (cases "is_mapped (view_of maps s p (page_at a k))")
    case True
    with u(4) have "view_of maps s1 p (page_at a k) = L2Empty" by simp
    then show ?thesis by simp
  next
    case False
    with u(5) [of p "page_at a k"] show ?thesis by auto
  qed
  have "view_of maps (unmap_pages mp a ks s1) p (page_at a k) \<in> {view_of maps s1 p (page_at a k), L2Empty}" using ih by blast
  with n1 have "\<not> is_mapped (view_of maps (unmap_pages mp a ks s1) p (page_at a k))" by auto
  moreover have "view_of maps (unmap_pages mp a ks s1) q b \<in> {view_of maps s q b, L2Empty}" for q b
  proof -
    have "view_of maps (unmap_pages mp a ks s1) q b \<in> {view_of maps s1 q b, L2Empty}" using ih by blast
    with u(5) [of q b] show ?thesis by auto
  qed
  ultimately show ?case unfolding e using ih u(3) t by auto
qed simp

lemma release_range_isolated:
  assumes i: "isolated maps s" and chk: "unat ph + unat len < 2 ^ 32"
    and f: "\<And>k j. k < page_steps_of len \<Longrightarrow> bus_view j (page_at ph k) \<Longrightarrow> fresh maps p s j"
  shows "isolated maps (release_range get ph len p s)"
proof (cases "ph = 0")
  case False
  have wf: "wf_frames (vm_frames s)" using isolatedD(1) [OF i] by (simp add: wf_vm_def)
  let ?m = "release_pages get (addr_range ph (ph + len)) p (vm_frames s)"
  have as: "addr_range ph (ph + len) = map (page_at ph) [0..<page_steps_of len]"
    using addr_range_len [OF chk] by (simp add: page_at_def [abs_def])
  note own = release_pages_owners [OF wf, of get "addr_range ph (ph + len)" p]
  have fr: "fresh maps p s j" if ne: "allocations ?m j \<noteq> allocations (vm_frames s) j" and j: "j < RAM_PAGES" for j
  proof -
    obtain k where k: "k < page_steps_of len" "accounts get (page_at ph k) p j"
      using own(2) [of j] ne by (auto simp: as split: if_splits)
    from f [OF k(1) accounts_bus_view [OF k(2) j]] show ?thesis .
  qed
  have tab: "allocations ?m j = allocations (vm_frames s) j" if "table_frame maps s j" for j
    using fr [OF _ table_frame_lt [OF that]] that unfolding fresh_def by blast
  have "accounts_change maps s ?m"
    using own(1) release_pages_zeroed [OF wf] tab unfolding accounts_change_def by blast
  note a = accounts_only [OF this isolatedD(1) [OF i]]
  have "iso (view_of maps s) (allocations ?m) (table_frame maps (s\<lparr>vm_frames := ?m\<rparr>))"
  proof (rule iso_mono [OF isolatedD(4) [OF i]])
    show "allocations ?m j = allocations (vm_frames s) j" if "maps_frame (view_of maps s q b) j" for q b j
      using fr [OF _ maps_frame_lt [OF that]] that unfolding fresh_def by blast
  qed (use a(3) in blast)
  with a(1,2) isolatedD(2) [OF i] False show ?thesis
    by (simp add: release_range_def isolated_def good_spaces_def)
qed (use i in \<open>simp add: release_range_def\<close>)

text \<open>One page of the range: it is mapped, or nothing changes.\<close>

lemma fresh_keeps:
  assumes "fresh maps p s j" and "keeps maps s s'" and "\<And>q b. \<not> maps_frame (view_of maps s' q b) j"
  shows "fresh maps p s' j"
  using assms unfolding fresh_def keeps_def by (metis option.distinct(1))

lemma map_entry_frame:
  assumes "maps_frame (map_entry ph a f u) j" and "ph AND 0xfff = 0"
  shows "bus_view j ph"
  using assms page_desc_addr [OF assms(2)] by (auto simp: map_entry_def maps_frame_def split: if_splits)

lemma map_page_isolated:
  assumes i: "isolated maps s" and mp: "maps p = Some mp" and f: "wf_flags f" "u \<or> bits f \<noteq> 0"
    and fr: "\<forall>j. bus_view j ph \<longrightarrow> fresh maps p s j"
    and run: "map_page mp ph a f u s = (r, s')"
  shows "isolated maps s'" and "keeps maps s s'"
    and "r \<noteq> Done () \<Longrightarrow> view_of maps s' = view_of maps s"
    and "r = Done () \<Longrightarrow> ph AND 0xfff = 0 \<and> view_of maps s p a = L2Empty
      \<and> view_of maps s' = upd (view_of maps s) p a (map_entry ph a f u)"
    and "r = Panic \<Longrightarrow> is_set f (flags_or MF_W MF_X)"
proof -
  obtain r1 where r1: "run_op maps (OpMap p ph a f u) s = (r1, s')" "r1 = Panic \<longleftrightarrow> r = Panic" "r1 = Done 0 \<longleftrightarrow> r = Done ()"
    using mp run by (cases r) (simp_all add: in_space_def no_addr_def seq_simps_pair)
  have "valid_op maps (OpMap p ph a f u) (view_of maps s)" using mp f by simp
  note o = page_op_refines [OF isolatedD(3) [OF i] this r1(1)]
  show k: "keeps maps s s'" by (rule op_keeps [OF o(1)])
  note sp = o(1) [unfolded op_result_def page_spec.simps, THEN conjunct2]
  show same: "view_of maps s' = view_of maps s" if "r \<noteq> Done ()"
    using sp that r1(3) by (auto split: outcome.splits)
  show new: "ph AND 0xfff = 0 \<and> view_of maps s p a = L2Empty
      \<and> view_of maps s' = upd (view_of maps s) p a (map_entry ph a f u)" if "r = Done ()"
    using sp that r1(3) by (auto simp: free_at_def split: outcome.splits)
  show "is_set f (flags_or MF_W MF_X)" if "r = Panic" using sp that r1(2) by (auto split: outcome.splits)
  note io = keeps_iso [OF isolatedD(4) [OF i] k]
  show "isolated maps s'"
  proof (cases "r = Done ()")
    case True
    note d = new [OF True]
    have "iso (view_of maps s') (allocations (vm_frames s')) (table_frame maps s')"
    proof (cases "\<exists>j. maps_frame (map_entry ph a f u) j")
      case True
      then obtain j where j: "maps_frame (map_entry ph a f u) j" by blast
      note fj = fr [rule_format, OF map_entry_frame [OF j conjunct1 [OF d]]]
      have n: "\<not> maps_frame (view_of maps s q b) j" for q b using fj by (simp add: fresh_def)
      have own: "allocations (vm_frames s') j = Some p" "\<not> table_frame maps s' j"
        using fj k unfolding fresh_def keeps_def by (metis option.distinct(1))+
      have u: "j' = j" if "maps_frame (map_entry ph a f u) j'" for j' using maps_frame_inj [OF that j] .
      have "iso (upd (view_of maps s) p a (map_entry ph a f u)) ((allocations (vm_frames s'))(j := Some p)) (table_frame maps s')"
        by (rule iso_put [OF io n own(2) u])
      with d own(1) show ?thesis by (simp add: fun_upd_idem)
    next
      case False
      with d io show ?thesis by (simp add: iso_clear)
    qed
    with o(2) show ?thesis by (simp add: isolated_def)
  next
    case False
    with same io o(2) show ?thesis by (simp add: isolated_def)
  qed
qed


text \<open>The loop: the pages before the current one are mapped, those from it on are fresh.\<close>

definition page_phys :: "usize \<Rightarrow> nat \<Rightarrow> usize" where
  "page_phys ph k = (if ph = 0 then 0 else page_at ph k)"

definition mapped_upto :: "spaces \<Rightarrow> pid \<Rightarrow> usize \<Rightarrow> usize \<Rightarrow> nat \<Rightarrow> vm \<Rightarrow> bool" where
  "mapped_upto maps p ph virt k s \<longleftrightarrow>
     (\<forall>k' < k. \<forall>j. bus_view j (page_phys ph k') \<longrightarrow> maps_frame (view_of maps s p (page_at virt k')) j)"

definition fresh_from :: "spaces \<Rightarrow> pid \<Rightarrow> usize \<Rightarrow> nat \<Rightarrow> nat \<Rightarrow> vm \<Rightarrow> bool" where
  "fresh_from maps p ph k n s \<longleftrightarrow>
     (\<forall>k' j. k \<le> k' \<and> k' < n \<and> bus_view j (page_phys ph k') \<longrightarrow> fresh maps p s j)"

lemma page_phys_nz: "bus_view j (page_phys ph k) \<Longrightarrow> ph \<noteq> 0 \<and> page_phys ph k = page_at ph k"
  using bus_view_page(2) [of j 0] by (auto simp: page_phys_def)

lemma map_cleanup_isolated:
  assumes i: "isolated maps s" and mp: "maps p = Some mp" and chk: "unat ph + unat len < 2 ^ 32"
    and fr: "fresh_from maps p ph k (page_steps_of len) s" and m: "mapped_upto maps p ph virt k s"
  shows "isolated maps (release_range get ph len p (unmap_pages mp virt [0..<k] s))"
proof (cases "ph = 0")
  case True
  with unmap_pages_isolated [OF i mp] show ?thesis by (simp add: release_range_def)
next
  case False
  let ?s = "unmap_pages mp virt [0..<k] s"
  from unmap_pages_isolated [OF i mp, of virt "[0..<k]"] have u: "isolated maps ?s" "vm_frames ?s = vm_frames s"
    "\<And>q b. view_of maps ?s q b \<in> {view_of maps s q b, L2Empty}"
    "\<And>k'. k' < k \<Longrightarrow> \<not> is_mapped (view_of maps ?s p (page_at virt k'))"
    "\<And>j. table_frame maps ?s j \<Longrightarrow> table_frame maps s j" by auto
  show ?thesis
  proof (rule release_range_isolated [OF u(1) chk])
    fix k' j
    assume k': "k' < page_steps_of len" and j: "bus_view j (page_at ph k')"
    have j': "bus_view j (page_phys ph k')" using j False by (simp add: page_phys_def)
    show "fresh maps p ?s j"
    proof (cases "k \<le> k'")
      case True
      with fr k' j' have f: "fresh maps p s j" by (simp add: fresh_from_def)
      have "\<not> maps_frame (view_of maps ?s q b) j" for q b using u(3) [of q b] f by (auto simp: fresh_def)
      with f u(2,5) show ?thesis by (auto simp: fresh_def)
    next
      case False
      with m j' have f: "maps_frame (view_of maps s p (page_at virt k')) j" by (simp add: mapped_upto_def)
      note d = isoD [OF isolatedD(4) [OF i] f]
      have "\<not> maps_frame (view_of maps ?s q b) j" for q b
      proof
        assume g: "maps_frame (view_of maps ?s q b) j"
        with u(3) [of q b] have "maps_frame (view_of maps s q b) j" by auto
        from d(3) [OF this] have "q = p \<and> b = page_at virt k'" .
        with g u(4) False show False by (simp add: maps_frame_def)
      qed
      with d u(2,5) show ?thesis by (auto simp: fresh_def)
    qed
  qed
qed

lemma map_pages_isolated:
  assumes mp: "maps p = Some mp" and f: "wf_flags fl" "u \<or> bits fl \<noteq> 0" and chk: "unat ph + unat len < 2 ^ 32"
    and sep: "ph \<noteq> 0 \<Longrightarrow> separate ph (page_steps_of len)"
  shows "isolated maps s \<Longrightarrow> k \<le> page_steps_of len \<Longrightarrow> fresh_from maps p ph k (page_steps_of len) s
    \<Longrightarrow> mapped_upto maps p ph virt k s \<Longrightarrow> map_pages get mp ph virt len fl u [k..<page_steps_of len] s = (r, s')
    \<Longrightarrow> isolated maps s' \<and> (r = Done () \<longrightarrow> mapped_upto maps p ph virt (page_steps_of len) s'
      \<and> (k < page_steps_of len \<and> ph \<noteq> 0 \<longrightarrow> page_at ph k AND 0xfff = 0))"
proof (induction "page_steps_of len - k" arbitrary: k s)
  case 0
  then show ?case by simp
next
  case (Suc d)
  let ?n = "page_steps_of len" and ?ph = "page_phys ph k" and ?a = "page_at virt k"
  have k: "k < ?n" using Suc.hyps(2) by simp
  have pid: "map_pid mp = p" using isolatedD(1) [OF Suc.prems(1)] mp by (auto simp: wf_vm_def)
  obtain r1 s1 where one: "map_page mp ?ph ?a fl u s = (r1, s1)" by fastforce
  have run: "(case (r1, s1) of
        (Done _, s1) \<Rightarrow> map_pages get mp ph virt len fl u [Suc k..<?n] s1
      | (Panic, s1) \<Rightarrow> (Panic, s1)
      | (Fail e, s1) \<Rightarrow> (Fail e, release_range get ph len p (unmap_pages mp virt [0..<k] s1))) = (r, s')"
    using Suc.prems(5) one [unfolded page_phys_def page_at_def] k pid by (cases r1) (auto simp: upt_conv_Cons)
  have fr: "\<forall>j. bus_view j ?ph \<longrightarrow> fresh maps p s j" using Suc.prems(3) [unfolded fresh_from_def, rule_format, of k] k by simp
  note st = map_page_isolated [OF Suc.prems(1) mp f fr one]
  show ?case
  proof (cases "r1 = Done ()")
    case True
    note d = st(4) [OF True]
    have frm: "bus_view j ?ph" if "maps_frame (map_entry ?ph ?a fl u) j" for j
      using map_entry_frame [OF that] d by simp
    have "fresh_from maps p ph (Suc k) ?n s1"
      unfolding fresh_from_def
    proof (intro allI impI)
      fix k' j
      assume a: "Suc k \<le> k' \<and> k' < ?n \<and> bus_view j (page_phys ph k')"
      have fj: "fresh maps p s j" using Suc.prems(3) [unfolded fresh_from_def, rule_format, of k' j] a by simp
      have "\<not> maps_frame (view_of maps s1 q b) j" for q b
      proof
        assume "maps_frame (view_of maps s1 q b) j"
        moreover have "\<not> maps_frame (view_of maps s q b) j" using fj by (simp add: fresh_def)
        ultimately have "maps_frame (map_entry ?ph ?a fl u) j" using d by (simp split: if_splits)
        note b = page_phys_nz [OF frm [OF this]] and b' = page_phys_nz [of j ph k'] and jk = frm [OF this]
        have "k = k'" using sep a jk b b' k unfolding separate_def by (metis Suc_le_lessD)
        with a show False by simp
      qed
      with fresh_keeps [OF fj st(2)] show "fresh maps p s1 j" by blast
    qed
    moreover have "mapped_upto maps p ph virt (Suc k) s1"
      unfolding mapped_upto_def
    proof (intro allI impI)
      fix k' j
      assume a: "k' < Suc k" "bus_view j (page_phys ph k')"
      show "maps_frame (view_of maps s1 p (page_at virt k')) j"
      proof (cases "k' = k")
        case True
        with a(2) have j: "bus_view j ?ph" by simp
        have "map_entry ?ph ?a fl u = L2Mapped (page_desc ?a ?ph fl u)" using bus_view_page(2) [OF j] by (simp add: map_entry_def)
        with page_desc_frame [OF j] d True show ?thesis by simp
      next
        case False
        with a have m: "maps_frame (view_of maps s p (page_at virt k')) j" using Suc.prems(4) by (simp add: mapped_upto_def)
        with d have "page_at virt k' \<noteq> ?a" by auto
        with d m show ?thesis by simp
      qed
    qed
    moreover have "map_pages get mp ph virt len fl u [Suc k..<?n] s1 = (r, s')" using run True by simp
    moreover have "d = ?n - Suc k" using Suc.hyps(2) by simp
    ultimately have "isolated maps s' \<and> (r = Done () \<longrightarrow> mapped_upto maps p ph virt ?n s')"
      using Suc.hyps(1) [of "Suc k" s1] st(1) k by simp
    moreover have "page_at ph k AND 0xfff = 0" if "ph \<noteq> 0" using d that by (simp add: page_phys_def)
    ultimately show ?thesis by blast
  next
    case False
    note v = st(3) [OF False]
    show ?thesis
    proof (cases r1)
      case (Fail e)
      have "fresh_from maps p ph k ?n s1"
        unfolding fresh_from_def
      proof (intro allI impI)
        fix k' j
        assume "k \<le> k' \<and> k' < ?n \<and> bus_view j (page_phys ph k')"
        then have fj: "fresh maps p s j" by (rule Suc.prems(3) [unfolded fresh_from_def, rule_format])
        have "\<not> maps_frame (view_of maps s1 q b) j" for q b using fj v by (simp add: fresh_def)
        with fresh_keeps [OF fj st(2)] show "fresh maps p s1 j" by blast
      qed
      moreover have "mapped_upto maps p ph virt k s1" using Suc.prems(4) v by (simp add: mapped_upto_def)
      ultimately have "isolated maps (release_range get ph len p (unmap_pages mp virt [0..<k] s1))"
        by (rule map_cleanup_isolated [OF st(1) mp chk])
      with run Fail show ?thesis by auto
    qed (use False run st(1) in auto)
  qed
qed

text \<open>Clearing the pages just mapped leaves the tables alone.\<close>

lemma clear_range_isolated:
  assumes i: "isolated maps s" and chk: "unat ph + unat len < 2 ^ 32" and nz: "ph \<noteq> 0"
    and al: "0 < page_steps_of len \<Longrightarrow> ph AND 0xfff = 0" and m: "mapped_upto maps p ph virt (page_steps_of len) s"
  shows "isolated maps (s\<lparr>pmem := set_words ph (unat len) 0 (pmem s)\<rparr>)"
proof -
  let ?f = "set_words ph (unat len) 0 (pmem s)"
  have wf: "wf_vm s maps" using isolatedD(1) [OF i] .
  have tab: "?f (pa n) = pmem s (pa n)" if t: "table_frame maps s j" and n: "n div 4096 = j" for j n
  proof (rule ccontr)
    assume "?f (pa n) \<noteq> pmem s (pa n)"
    then have b: "unat ph \<le> unat (pa n)" "unat (pa n) < unat ph + unat len" by (auto simp: set_words_def split: if_splits)
    have j: "j < RAM_PAGES" using table_frame_lt [OF t] .
    have n27: "n < 2 ^ 27" using j n by (intro page_bound) simp
    note un = unat_pa [OF n27]
    define k where "k = (unat (pa n) - unat ph) div 4096"
    have k: "k < page_steps_of len" using b by (simp add: k_def page_steps_of_def less_mult_imp_div_less div_less_iff_less_mult)
    then have "ph AND 0xfff = 0" using al by simp
    then have "take_bit 12 ph = 0" by (simp add: take_bit_eq_mask mask_eq_exp_minus_1)
    then have "unat ph mod 2 ^ 12 = 0" by (metis take_bit_eq_mod unsigned_0 unsigned_take_bit_eq)
    then have am: "unat ph mod 4096 = 0" by simp
    then obtain h where h: "unat ph = h * 4096" by (metis div_mult_mod_eq add.right_neutral)
    have hk: "h + k = 2 ^ 18 + j"
      using b(1) un n h by (simp add: k_def)
    have le: "unat ph + k * 4096 < 2 ^ 32" using b chk by (simp add: k_def)
    have "unat (page_at ph k) = unat ph + k * 4096"
      using le by (simp add: page_at_def unat_word_ariths unsigned_of_nat take_bit_nat_eq_self)
    also have "\<dots> = unat (page_addr j)" using hk h j unat_page_addr [of j] by simp
    finally have "page_at ph k = page_addr j" by (simp add: word_unat_eq_iff)
    with j have "bus_view j (page_phys ph k)" using nz by (simp add: bus_view_def page_phys_def)
    with m k have "maps_frame (view_of maps s p (page_at virt k)) j" by (simp add: mapped_upto_def)
    from isoD(2) [OF isolatedD(4) [OF i] this] t show False by simp
  qed
  have z: "?f (pa n) = 0" if "free_pages_zeroed (vm_frames s) j" "n div 4096 = j" for j n
    using wf that by (auto simp: wf_vm_def page_zero_def set_words_def)
  have c: "tables_kept maps s (vm_frames s)" using wf by (simp add: tables_kept_def wf_vm_def)
  have e: "s\<lparr>vm_frames := vm_frames s, pmem := ?f\<rparr> = s\<lparr>pmem := ?f\<rparr>" by simp
  note a = under_tables [OF c wf tab z, unfolded e]
  have "iso (view_of maps s) (allocations (vm_frames s)) (table_frame maps (s\<lparr>pmem := ?f\<rparr>))"
    by (rule iso_mono [OF isolatedD(4) [OF i]]) (use a(4) in auto)
  with a(1,3) isolatedD(2) [OF i] show ?thesis by (simp add: isolated_def good_spaces_def)
qed


lemma range_pages_isolated:
  assumes i: "isolated maps s" and mp: "maps p = Some mp" and al: "len AND 0xfff = 0"
    and run: "range_pages get mp ph len fl s = (r, s')"
  shows "isolated maps s' \<and> r \<noteq> Panic
    \<and> (\<forall>ph' z. r = Done (ph', z) \<longrightarrow> (if ph' = 0 then \<not> z else range_ready maps p ph' len s'))"
proof -
  have pid: "map_pid mp = p" using isolatedD(1) [OF i] mp by (auto simp: wf_vm_def)
  have wf: "wf_frames (vm_frames s)" using isolatedD(1) [OF i] by (simp add: wf_vm_def)
  consider (err) e where "r = Fail e" "s' = s"
    | (alloc) "is_set fl POPULATE" "on_frames (alloc_range (unat len div 4096) p fl) s = (r, s')"
    | (claim) "ph \<noteq> 0" "unat ph + unat len < 2 ^ 32" "seq (on_frames (claim_pages get [] (addr_range ph (ph + len)) p) s)
         (\<lambda>_ s1. (Done (ph, is_address_in_plaintext_dram ph \<or> is_address_encrypted ph), s1)) = (r, s')"
    | (none) "r = Done (0, False)" "s' = s"
    using run pid
    by (auto simp: range_pages_def checked_add_def is_address_in_plaintext_dram_def is_address_encrypted_def dram_defs
        split: if_splits)
  then show ?thesis
  proof cases
    case alloc
    let ?n = "unat len div 4096"
    obtain m' where m': "alloc_range ?n p fl (vm_frames s) = (r, m')" "s' = s\<lparr>vm_frames := m'\<rparr>"
      using alloc(2) by (auto simp: on_frames_def split: prod.splits)
    have "take_bit 12 len = 0" using al by (simp add: take_bit_eq_mask mask_eq_exp_minus_1)
    then have "unat len mod 2 ^ 12 = 0" by (metis take_bit_eq_mod unsigned_0 unsigned_take_bit_eq)
    then have len: "unat len = ?n * 4096" by (simp add: mult.commute dvd_eq_mod_eq_0 flip: dvd_mult_div_cancel)
    from wf m'(1) show ?thesis
    proof (cases rule: alloc_range_spec)
      case (3 j z)
      obtain ph' z' where r: "r = Done (ph', z')" "ph' = page_addr j \<or> ph' = to_plaintext_phys_addr (page_addr j)"
        using 3(4) by (auto split: if_splits)
      have "j < RAM_PAGES" using 3(1,2) by (simp add: free_run_def)
      then have "bus_view j ph'" using r(2) by (simp add: bus_view_def)
      then have "ph' \<noteq> 0" by (rule bus_view_page)
      with allocated_ready [OF i 3(2,3) r(2) len 3(1)] r(1) m'(2) show ?thesis by simp
    qed (use i m' in auto)
  next
    case claim
    obtain r1 m' where m': "claim_pages get [] (addr_range ph (ph + len)) p (vm_frames s) = (r1, m')" by fastforce
    note c = claimed_ready [OF i claim(2) m']
    have on: "on_frames (claim_pages get [] (addr_range ph (ph + len)) p) s = (r1, s\<lparr>vm_frames := m'\<rparr>)"
      by (simp add: on_frames_def m')
    show ?thesis
    proof (cases r1)
      case (Done x)
      with claim(3) on have "r = Done (ph, is_address_in_plaintext_dram ph \<or> is_address_encrypted ph)" "s' = s\<lparr>vm_frames := m'\<rparr>"
        by (simp_all add: seq_simps_pair)
      with c Done claim(1) show ?thesis by simp
    next
      case (Fail e)
      with claim(3) on have "r = Fail e" "s' = s\<lparr>vm_frames := m'\<rparr>" by (simp_all add: seq_simps_pair)
      with c show ?thesis by simp
    qed (use c in simp)
  qed (use i in auto)
qed

lemma map_range_isolated:
  assumes i: "isolated maps s" and mp: "maps p = Some mp" and f: "wf_flags fl" "u \<or> bits fl \<noteq> 0"
    and al: "len AND 0xfff = 0" and run: "map_range get mp ph virt_ptr len fl u pr s = (r, pr', s')"
  shows "isolated maps s'"
proof (cases "find_virtual_address mp s virt_ptr len pr")
  case (Pair r0 pr1)
  show ?thesis
  proof (cases r0)
    case (Done virt)
    obtain r1 s1 where r1: "range_pages get mp ph len fl s = (r1, s1)" by fastforce
    note g = range_pages_isolated [OF i mp al r1]
    show ?thesis
    proof (cases r1)
      case d1: (Done x)
      obtain ph' z where x: "x = (ph', z)" by fastforce
      obtain r2 s2 where r2: "map_pages get mp ph' virt len fl u [0..<page_steps_of len] s1 = (r2, s2)" by fastforce
      have gd: "if ph' = 0 then \<not> z else range_ready maps p ph' len s1"
        using g [THEN conjunct2, THEN conjunct2, rule_format, of ph' z] d1 x by simp
      then have ready: "range_ready maps p ph' len s1" if "ph' \<noteq> 0" using that by simp
      have i2: "isolated maps s2 \<and> (r2 = Done () \<longrightarrow> mapped_upto maps p ph' virt (page_steps_of len) s2
          \<and> (0 < page_steps_of len \<and> ph' \<noteq> 0 \<longrightarrow> page_at ph' 0 AND 0xfff = 0))"
      proof (rule map_pages_isolated [where maps = maps, OF mp f _ _ _ _ _ _ r2])
        show "unat ph' + unat len < 2 ^ 32"
          using ready unsigned_less [of len] by (cases "ph' = 0") (simp_all add: range_ready_def)
        show "fresh_from maps p ph' 0 (page_steps_of len) s1"
          unfolding fresh_from_def using ready page_phys_nz by (metis range_ready_def)
      qed (use ready g in \<open>auto simp: range_ready_def mapped_upto_def\<close>)
      have run': "s' = s2 \<or> r2 = Done () \<and> z \<and> s' = s2\<lparr>pmem := set_words ph' (unat len) 0 (pmem s2)\<rparr>"
      proof -
        have "(r, pr', s') = (case seq (r2, s2) (\<lambda>_ s2. case memory_range_new virt len of
                 Inl e \<Rightarrow> (Fail e, s2)
               | Inr mem \<Rightarrow> if z then if \<not> is_set fl MF_W then (Panic, s2)
                   else (Done mem, s2\<lparr>pmem := set_words ph' (unat len) 0 (pmem s2)\<rparr>) else (Done mem, s2))
            of (r, s3) \<Rightarrow> (r, pr1, s3))"
          unfolding run [symmetric] map_range_def Pair Done r1 d1 x
          by (simp only: prod.case outcome.case seq_simps_pair map_allocated_range_def r2)
        then show ?thesis by (cases r2; cases "memory_range_new virt len"; simp only: seq_simps_pair prod.case sum.case split: if_splits) simp_all
      qed
      have "isolated maps (s2\<lparr>pmem := set_words ph' (unat len) 0 (pmem s2)\<rparr>)" if "r2 = Done ()" "z"
      proof -
        have nz: "ph' \<noteq> 0" using gd that(2) by (simp split: if_splits)
        have chk: "unat ph' + unat len < 2 ^ 32" using ready [OF nz] unfolding range_ready_def by (rule conjunct1)
        have pa0: "page_at ph' 0 = ph'" by (simp add: page_at_def)
        have m: "isolated maps s2" "mapped_upto maps p ph' virt (page_steps_of len) s2"
          "0 < page_steps_of len \<Longrightarrow> ph' AND 0xfff = 0"
          using i2 that(1) nz unfolding pa0 by blast+
        show ?thesis by (rule clear_range_isolated [OF m(1) chk nz m(3,2)])
      qed
      with i2 run' show ?thesis by blast
    next
      case (Fail e)
      with run Pair Done r1 g show ?thesis by (simp add: map_range_def seq_simps_pair)
    next
      case Panic
      with g show ?thesis by simp
    qed
  qed (use run Pair i in \<open>auto simp: map_range_def\<close>)
qed


section \<open>Isolation is kept: a new process, stores, and the zeroer\<close>

text \<open>The address space of a new process: two pages for the first-level table.\<close>

definition new_space :: "pid \<Rightarrow> spaces \<Rightarrow> vm \<Rightarrow> spaces \<times> vm" where
  "new_space p maps s =
     (case mapping_allocate p \<lparr>ttbr0 = 0, map_pid = 1\<rparr> s of
        (Done mp, s1) \<Rightarrow> (maps(p \<mapsto> mp), s1)
      | (_, s1) \<Rightarrow> (maps, s1))"

lemma under_isolated:
  assumes i: "isolated maps s" and c: "tables_kept maps s m'"
    and own: "\<And>p a j. maps_frame (view_of maps s p a) j \<Longrightarrow> allocations m' j = allocations (vm_frames s) j"
    and f: "\<And>j n. table_frame maps s j \<Longrightarrow> n div 4096 = j \<Longrightarrow> f (pa n) = pmem s (pa n)"
    and z: "\<And>j n. free_pages_zeroed m' j \<Longrightarrow> n div 4096 = j \<Longrightarrow> f (pa n) = 0"
  shows "isolated maps (s\<lparr>vm_frames := m', pmem := f\<rparr>)"
proof -
  note a = under_tables [where f = f, OF c isolatedD(1) [OF i] f z]
  have "iso (view_of maps s) (allocations m') (table_frame maps (s\<lparr>vm_frames := m', pmem := f\<rparr>))"
    by (rule iso_mono [OF isolatedD(4) [OF i]]) (use own a(4) in auto)
  with a(1,3) isolatedD(2) [OF i] show ?thesis by (simp add: isolated_def good_spaces_def)
qed

text \<open>A process writes to a page it has mapped; only the contents of that page change.\<close>

lemma store_isolated:
  assumes i: "isolated maps s" and m: "maps_frame (view_of maps s p a) j"
    and f: "\<And>n. n < 2 ^ 27 \<Longrightarrow> n div 4096 \<noteq> j \<Longrightarrow> f (pa n) = pmem s (pa n)"
  shows "isolated maps (s\<lparr>pmem := f\<rparr>)"
proof -
  note d = isoD(1,2) [OF isolatedD(4) [OF i] m]
  have wf: "wf_vm s maps" using isolatedD(1) [OF i] .
  have "isolated maps (s\<lparr>vm_frames := vm_frames s, pmem := f\<rparr>)"
  proof (rule under_isolated [OF i])
    show "tables_kept maps s (vm_frames s)" using wf by (simp add: tables_kept_def wf_vm_def)
    show "f (pa n) = pmem s (pa n)" if t: "table_frame maps s j'" and n: "n div 4096 = j'" for j' n
      using table_frame_lt [OF t] n d(2) t by (intro f page_bound) auto
    show "f (pa n) = 0" if z: "free_pages_zeroed (vm_frames s) j'" and n: "n div 4096 = j'" for j' n
    proof -
      have j': "j' < RAM_PAGES" "allocations (vm_frames s) j' = None"
        using wf_frames_page(1) [of "vm_frames s" j'] wf z by (auto simp: wf_vm_def)
      have "f (pa n) = pmem s (pa n)" using j' n d(1) by (intro f page_bound) auto
      with wf z n show ?thesis by (auto simp: wf_vm_def page_zero_def)
    qed
  qed simp
  then show ?thesis by simp
qed

text \<open>The transfer of the zeroer writes zeroes to the pages it holds, and its interrupt frees them.\<close>

definition zero_frames :: "frames \<Rightarrow> (usize \<Rightarrow> u32) \<Rightarrow> usize \<Rightarrow> u32" where
  "zero_frames m f b = (if is_address_encrypted b \<and> in_flight m ((unat b - 2 ^ 30) div 4096) then 0 else f b)"

definition zeroing_done :: "vm \<Rightarrow> vm" where
  "zeroing_done s = s\<lparr>vm_frames := snd (zeroer_interrupt (vm_frames s)), pmem := zero_frames (vm_frames s) (pmem s)\<rparr>"

lemma zero_frames_pa: "n < 2 ^ 27 \<Longrightarrow> zero_frames m f (pa n) = (if in_flight m (n div 4096) then 0 else f (pa n))"
  by (simp add: zero_frames_def pa_encrypted unat_pa)

lemma zeroer_isolated:
  assumes i: "isolated maps s" and run: "zeroer_running (vm_frames s)"
  shows "isolated maps (zeroing_done s)"
proof -
  let ?m = "vm_frames s"
  have wf: "wf_vm s maps" "wf_frames ?m" using isolatedD(1) [OF i] by (simp_all add: wf_vm_def)
  obtain k where "k < RAM_PAGES" "current_page ?m = page_addr k" "k + current_page_num ?m \<le> RAM_PAGES" and
    k: "\<And>j. in_flight ?m j \<longleftrightarrow> k \<le> j \<and> j < k + current_page_num ?m"
    "zeroer_interrupt ?m = (Done (), zeroer_start (?m\<lparr>current_page := 0, current_page_num := 0,
       free_pages_zeroed := set_range k (current_page_num ?m) True (free_pages_zeroed ?m), zeroer_running := False\<rparr>))"
    "wf_frames (?m\<lparr>current_page := 0, current_page_num := 0,
       free_pages_zeroed := set_range k (current_page_num ?m) True (free_pages_zeroed ?m), zeroer_running := False\<rparr>)"
    by (rule zeroer_interrupt_spec [OF wf(2) run]) (rule that)
  define m1 where "m1 = ?m\<lparr>current_page := 0, current_page_num := 0,
       free_pages_zeroed := set_range k (current_page_num ?m) True (free_pages_zeroed ?m), zeroer_running := False\<rparr>"
  have z: "free_pages_zeroed ?m j \<or> in_flight ?m j" if "free_pages_zeroed m1 j" for j
    using that unfolding k(1) by (simp add: m1_def set_range_def split: if_splits)
  note m1 = k(2,3) [folded m1_def] and al = m1_def [THEN arg_cong [of _ _ allocations], simplified]
  have idle: "allocations ?m j = None \<and> j < RAM_PAGES" if "in_flight ?m j" for j
    using wf(2) that by (auto simp: wf_frames_def page_ok_def)
  show ?thesis unfolding zeroing_done_def m1(1) snd_conv
  proof (rule under_isolated [OF i])
    show "tables_kept maps s (zeroer_start m1)" using wf_zeroer_start [OF m1(2)] al by (simp add: tables_kept_def)
    show "zero_frames ?m (pmem s) (pa n) = pmem s (pa n)" if t: "table_frame maps s j" and n: "n div 4096 = j" for j n
      using zero_frames_pa [OF page_bound, of n] table_frame_lt [OF t] table_frame_owned [OF wf(1) t] idle [of j] n by auto
    show "zero_frames ?m (pmem s) (pa n) = 0" if zj: "free_pages_zeroed (zeroer_start m1) j" and n: "n div 4096 = j" for j n
    proof -
      have z': "free_pages_zeroed ?m j \<or> in_flight ?m j" using z zj by simp
      then have "j < RAM_PAGES" using idle wf_frames_page(1) [OF wf(2)] by auto
      with z' n wf(1) show ?thesis using zero_frames_pa [OF page_bound, of n] by (auto simp: wf_vm_def page_zero_def)
    qed
  qed (use al in simp)
qed


lemma new_isolated:
  assumes i: "isolated maps s" and p: "maps p = None" "p \<noteq> 1" and run: "new_space p maps s = (maps', s')"
  shows "isolated maps' s'"
proof -
  let ?m = "vm_frames s"
  have wf: "wf_vm s maps" "wf_frames ?m" using isolatedD(1) [OF i] by (simp_all add: wf_vm_def)
  obtain r1 m1 where al: "alloc_range_aligned 4 2 p ?m = (r1, m1)" by fastforce
  have run': "new_space p maps s = (case seq (r1, s\<lparr>vm_frames := m1\<rparr>) (\<lambda>(l1, zeroed) s1.
      seq (if \<not> zeroed then zero_newly_allocated_tt_pages l1 2 s1 else (Done (), s1))
        (\<lambda>_ s2. (Done \<lparr>ttbr0 = l1, map_pid = p\<rparr>, s2))) of
      (Done mp, s1) \<Rightarrow> (maps(p \<mapsto> mp), s1) | (_, s1) \<Rightarrow> (maps, s1))"
    unfolding new_space_def mapping_allocate_def L1_USER_PAGE_TABLE_PAGES_def on_frames_def by (simp add: al)
  have al2: "alloc_range_aligned (2 ^ 2) 2 p ?m = (r1, m1)" using al by simp
  from wf(2) al2 show ?thesis
  proof (cases rule: alloc_range_aligned_spec)
    case 2
    with run run' i show ?thesis by (simp add: seq_simps_pair)
  next
    case (3 t z)
    have t: "t + 2 \<le> RAM_PAGES" using 3(3) by (simp add: free_run_def)
    have none: "allocations ?m j = None" if "j = t \<or> j = t + 1" for j
      using subsetD [OF free_run_unowned(1) [OF wf(2) 3(3)], of j] that by (auto simp: unowned_def)
    have own: "allocations m1 = set_range t 2 (Some p) (allocations ?m)"
      and zd: "free_pages_zeroed m1 = set_range t 2 False (free_pages_zeroed ?m)" using 3(6) by (simp_all add: handed_over_def)
    define f where "f = (if z then pmem s else set_words (page_addr t) (2 * 4096) 0 (pmem s))"
    define mp where "mp = \<lparr>ttbr0 = page_addr t, map_pid = p\<rparr>"
    have enc: "transparent (page_addr t) = Done (page_addr t)" using page_addr_encrypted [of t] t by (simp add: transparent_def)
    have s': "maps' = maps(p \<mapsto> mp)" "s' = s\<lparr>vm_frames := m1, pmem := f\<rparr>"
      using run [unfolded run'] 3(2) enc
      by (auto simp: seq_simps_pair f_def mp_def zero_newly_allocated_tt_pages_def split: if_splits)
    have ft: "f (pa n) = 0" if n: "n div 4096 = t \<or> n div 4096 = t + 1" for n
    proof -
      have n27: "n < 2 ^ 27" using n t by (intro page_bound) auto
      have b: "t * 4096 \<le> n" "n < t * 4096 + 2 * 4096" using n by auto
      show ?thesis
      proof (cases z)
        case True
        have "free_pages_zeroed ?m (n div 4096)" using 3(5) [OF True] n by auto
        with wf(1) have "page_zero s (n div 4096)" by (simp add: wf_vm_def)
        with True show ?thesis by (simp add: f_def page_zero_def)
      next
        case False
        have "unat (page_addr t) = 2 ^ 30 + t * 4096" using unat_page_addr [of t] t by simp
        with False b unat_pa [OF n27] show ?thesis by (simp add: f_def set_words_def)
      qed
    qed
    have fo: "f (pa n) = pmem s (pa n)" if n: "n div 4096 \<noteq> t" "n div 4096 \<noteq> t + 1" "n div 4096 < RAM_PAGES" for n
    proof -
      have n27: "n < 2 ^ 27" using n(3) by (rule page_bound)
      have "\<not> (t * 4096 \<le> n \<and> n < t * 4096 + 2 * 4096)"
      proof
        assume b: "t * 4096 \<le> n \<and> n < t * 4096 + 2 * 4096"
        have "n div 4096 = t" if "n < t * 4096 + 4096" using b that by (intro div_nat_eqI) auto
        moreover have "n div 4096 = t + 1" if "\<not> n < t * 4096 + 4096" using b that by (intro div_nat_eqI) auto
        ultimately show False using n(1,2) by blast
      qed
      moreover have "unat (page_addr t) = 2 ^ 30 + t * 4096" using unat_page_addr [of t] t by simp
      ultimately show ?thesis using unat_pa [OF n27] by (auto simp: f_def set_words_def)
    qed
    have fz: "f (pa n) = 0" if "free_pages_zeroed m1 j" "n div 4096 = j" for j n
    proof -
      have j: "free_pages_zeroed ?m j" "j \<noteq> t" "j \<noteq> t + 1" using that(1) by (auto simp: zd set_range_def split: if_splits)
      then have "j < RAM_PAGES" using wf_frames_page(1) [OF wf(2)] by blast
      with fo [of n] j that(2) wf(1) show ?thesis by (simp add: wf_vm_def page_zero_def)
    qed
    have tab: "f (pa n) = pmem s (pa n)" if "table_frame maps s j" "n div 4096 = j" for j n
      using table_frame_owned [OF wf(1) that(1)] none [of j] table_frame_lt [OF that(1)] that(2) by (intro fo) auto
    have same: "allocations m1 j = allocations ?m j" if "allocations ?m j \<noteq> None" for j
    proof -
      have "j \<noteq> t" "j \<noteq> t + 1" using none [of j] that by auto
      then have "\<not> (t \<le> j \<and> j < t + 2)" by linarith
      then show ?thesis by (auto simp: own set_range_def)
    qed
    have c: "tables_kept maps s m1"
      using wf_handed_over [OF wf(2) 3(3,6)] table_frame_owned [OF wf(1)] same by (simp add: tables_kept_def)
    have i': "isolated maps s'"
      unfolding s'(2) by (rule under_isolated [OF i c _ tab fz]) (use isoD(1) [OF isolatedD(4) [OF i]] same in auto)
    note tb = under_tables(4) [where f = f, OF c wf(1) tab fz, folded s'(2)]
    have rel: "space_rel s' mp t (\<lambda>_. None)"
      using t p(2) ft [OF l1_word_page] by (auto simp: space_rel_def s' mp_def own set_range_def)
    have w: "wf_vm s' maps'"
      using isolatedD(1) [OF i'] rel by (auto simp: wf_vm_def s'(1) mp_def)
    have v: "view_of maps' s' = view_of maps s'"
    proof -
      have "lookup s' mp a = L2Empty" for a by (simp add: lookup_def get_l2_slot_user [OF rel])
      then show ?thesis using p(1) by (auto simp: view_of_def s'(1) fun_eq_iff split: option.splits)
    qed
    have tf: "table_frame maps' s' j \<Longrightarrow> table_frame maps s' j \<or> j = t \<or> j = t + 1" for j
    proof -
      assume "table_frame maps' s' j"
      then obtain q mq t' G where q: "maps' q = Some mq" "space_rel s' mq t' G" "j = t' \<or> j = t' + 1 \<or> (\<exists>g < 512. G g = Some j)"
        unfolding table_frame_def by blast
      show ?thesis
      proof (cases "q = p")
        case True
        then have "space_rel s' mp t' G" using q(1,2) by (simp add: s'(1))
        note u = space_rel_unique [OF this rel]
        with q(3) show ?thesis by auto
      next
        case False
        then have "maps q = Some mq" using q(1) by (simp add: s'(1))
        with q(2,3) show ?thesis unfolding table_frame_def by blast
      qed
    qed
    have "iso (view_of maps s') (allocations (vm_frames s')) (table_frame maps' s')"
    proof (rule iso_mono [OF isolatedD(4) [OF i']])
      show "table_frame maps s' j" if f: "maps_frame (view_of maps s' q a) j" and "table_frame maps' s' j" for q a j
      proof -
        have vs: "view_of maps s' = view_of maps s" using under_tables(3) [where f = f, OF c wf(1) tab fz, folded s'(2)] .
        have "allocations ?m j = Some q" using isoD(1) [OF isolatedD(4) [OF i] f [unfolded vs]] .
        then have "j \<noteq> t" "j \<noteq> t + 1" using none [of j] by auto
        with tf [OF that(2)] show ?thesis by simp
      qed
    qed simp
    with w v isolatedD(2) [OF i'] show ?thesis by (simp add: isolated_def good_spaces_def)
  qed simp
qed


section \<open>Steps of the memory system\<close>

text \<open>
  Whatever the processes and the hardware do to memory, one step at a time. The label singles out
  the two things after which a page may be mapped in two places: a borrower returns a page, and a
  range is mirrored into another process.
\<close>

datatype mem_event = Returned pid usize pid usize | Mirrored | Otherwise

inductive mem_step :: "mem_event \<Rightarrow> spaces \<times> vm \<Rightarrow> spaces \<times> vm \<Rightarrow> bool" where
  ms_new: "maps p = None \<Longrightarrow> p \<noteq> 1 \<Longrightarrow> new_space p maps s = (maps', s') \<Longrightarrow> mem_step Otherwise (maps, s) (maps', s')"
| ms_map: "maps p = Some mp \<Longrightarrow> wf_flags fl \<Longrightarrow> u \<or> bits fl \<noteq> 0 \<Longrightarrow> len AND 0xfff = 0
    \<Longrightarrow> map_range get mp ph virt len fl u pr s = (r, pr', s') \<Longrightarrow> mem_step Otherwise (maps, s) (maps, s')"
| ms_unmap: "maps p = Some mp \<Longrightarrow> unmap_range get mp a len s = (r, s') \<Longrightarrow> mem_step Otherwise (maps, s) (maps, s')"
| ms_back: "maps p = Some mp \<Longrightarrow> ensure_backed mp a s = (r, s') \<Longrightarrow> mem_step Otherwise (maps, s) (maps, s')"
| ms_move: "maps p = Some mp \<Longrightarrow> maps q = Some mq \<Longrightarrow> mm_move_page get mp a mq b s = (r, s')
    \<Longrightarrow> mem_step Otherwise (maps, s) (maps, s')"
| ms_lend: "maps p = Some mp \<Longrightarrow> maps q = Some mq \<Longrightarrow> mm_lend_page get mp a mq b mutable s = (r, s')
    \<Longrightarrow> mem_step Otherwise (maps, s) (maps, s')"
| ms_return: "maps p = Some mp \<Longrightarrow> maps q = Some mq \<Longrightarrow> mm_unlend_page get mp a mq b s = (r, s')
    \<Longrightarrow> mem_step (Returned p a q b) (maps, s) (maps, s')"
| ms_mirror: "maps p = Some mp \<Longrightarrow> maps q = Some mq \<Longrightarrow> mirror_memory mp a len mq pr s = (r, pr', s')
    \<Longrightarrow> mem_step Mirrored (maps, s) (maps, s')"
| ms_clear: "maps p = Some mp \<Longrightarrow> clear_shared mp a mode s = (r, s') \<Longrightarrow> mem_step Otherwise (maps, s) (maps, s')"
| ms_end: "end_space p maps s = (maps', s') \<Longrightarrow> mem_step Otherwise (maps, s) (maps', s')"
| ms_store: "maps_frame (view_of maps s p a) j \<Longrightarrow> (\<And>n. n < 2 ^ 27 \<Longrightarrow> n div 4096 \<noteq> j \<Longrightarrow> f (pa n) = pmem s (pa n))
    \<Longrightarrow> mem_step Otherwise (maps, s) (maps, s\<lparr>pmem := f\<rparr>)"
| ms_init: "mem_step Otherwise (maps, s) (maps, s\<lparr>vm_frames := (vm_frames s)\<lparr>zeroer_initialized := True\<rparr>\<rparr>)"
| ms_zero: "zeroer_running (vm_frames s) \<Longrightarrow> mem_step Otherwise (maps, s) (maps, zeroing_done s)"

text \<open>
  The discipline that the kernel leaves to the processes: nothing is mirrored, and a borrower only
  returns a page that it still has mapped, to a place that the lender has not reserved anew. The
  kernel checks neither.
\<close>

fun orderly :: "mem_event \<Rightarrow> view \<Rightarrow> bool" where
  "orderly (Returned p a q b) v \<longleftrightarrow> is_mapped (v p a) \<and> \<not> is_on_demand (v q b)"
| "orderly Mirrored v \<longleftrightarrow> False"
| "orderly Otherwise v \<longleftrightarrow> True"

inductive orderly_steps :: "spaces \<times> vm \<Rightarrow> spaces \<times> vm \<Rightarrow> bool" where
  orderly_refl: "orderly_steps x x"
| orderly_step: "orderly_steps x (maps, s) \<Longrightarrow> mem_step ev (maps, s) z \<Longrightarrow> orderly ev (view_of maps s) \<Longrightarrow> orderly_steps x z"

lemma init_isolated:
  assumes i: "isolated maps s"
  shows "isolated maps (s\<lparr>vm_frames := (vm_frames s)\<lparr>zeroer_initialized := True\<rparr>\<rparr>)"
proof -
  have "wf_frames (vm_frames s)" using isolatedD(1) [OF i] by (simp add: wf_vm_def)
  then have "wf_frames ((vm_frames s)\<lparr>zeroer_initialized := True\<rparr>)"
    by (auto simp: wf_frames_def page_ok_def in_flight_def unowned_def flight_ok_def)
  from owner_change(1) [OF i this] show ?thesis by simp
qed

lemma mem_step_isolated:
  assumes "mem_step ev x y" and "isolated (fst x) (snd x)" and "orderly ev (view_of (fst x) (snd x))"
  shows "isolated (fst y) (snd y)"
  using assms
proof cases
  case (ms_new maps p s maps' s')
  have i: "isolated maps s" using assms(2) ms_new(2) by simp
  with ms_new(3) show ?thesis using new_isolated [OF i ms_new(4-6)] by simp
next
  case (ms_map maps p mp fl u len get ph virt pr s r pr' s')
  have i: "isolated maps s" using assms(2) ms_map(2) by simp
  with ms_map(3) show ?thesis using map_range_isolated [OF i ms_map(4-8)] by simp
next
  case (ms_unmap maps p mp get a len s r s')
  have i: "isolated maps s" using assms(2) ms_unmap(2) by simp
  with ms_unmap(3) show ?thesis using unmap_range_isolated(1) [OF i ms_unmap(4,5)] by simp
next
  case (ms_back maps p mp a s r s')
  have i: "isolated maps s" using assms(2) ms_back(2) by simp
  with ms_back(3) show ?thesis using back_isolated [OF i ms_back(4,5)] by simp
next
  case (ms_move maps p mp q mq get a b s r s')
  have i: "isolated maps s" using assms(2) ms_move(2) by simp
  with ms_move(3) show ?thesis using move_isolated [OF i ms_move(4-6)] by simp
next
  case (ms_lend maps p mp q mq get a b mutable s r s')
  have i: "isolated maps s" using assms(2) ms_lend(2) by simp
  with ms_lend(3) show ?thesis using lend_isolated [OF i ms_lend(4-6)] by simp
next
  case (ms_return maps p mp q mq get a b s r s')
  have i: "isolated maps s" using assms(2) ms_return(2) by simp
  with ms_return(3) show ?thesis using unlend_isolated [OF i ms_return(4,5) _ _ ms_return(6)] assms(3) ms_return(1,2) by simp
next
  case (ms_mirror maps p mp q mq a len pr s r pr' s')
  then show ?thesis using assms(3) by simp
next
  case (ms_clear maps p mp a mode s r s')
  have i: "isolated maps s" using assms(2) ms_clear(2) by simp
  with ms_clear(3) show ?thesis using clear_isolated [OF i ms_clear(4,5)] by simp
next
  case (ms_end p maps s maps' s')
  have i: "isolated maps s" using assms(2) ms_end(2) by simp
  with ms_end(3) show ?thesis using end_isolated [OF i ms_end(4)] by simp
next
  case (ms_store maps s p a j f)
  have i: "isolated maps s" using assms(2) ms_store(2) by simp
  with ms_store(3) show ?thesis using store_isolated [OF i ms_store(4), of f] ms_store(5) by simp
next
  case (ms_init maps s)
  have i: "isolated maps s" using assms(2) ms_init(2) by simp
  with ms_init(3) show ?thesis using init_isolated by simp
next
  case (ms_zero s maps)
  have i: "isolated maps s" using assms(2) ms_zero(2) by simp
  with ms_zero(3) show ?thesis using zeroer_isolated [OF i ms_zero(4)] by simp
qed

lemma orderly_steps_isolated: "orderly_steps x y \<Longrightarrow> isolated (fst x) (snd x) \<Longrightarrow> isolated (fst y) (snd y)"
  by (induction rule: orderly_steps.induct) (auto dest: mem_step_isolated)

text \<open>
  What a mirror does, and why isolation excludes it: every page of the range is mapped at the mirror
  address, read-only, and stays the caller's and where the caller has it.
\<close>

lemma mirror_pages_map:
  assumes "maps q = Some mq"
  shows "good_spaces maps s \<Longrightarrow> mirror_pages mq phys virt ks s = (Done (), s')
    \<Longrightarrow> good_spaces maps s' \<and> (allocations (vm_frames s) j \<noteq> None \<longrightarrow> allocations (vm_frames s') j = allocations (vm_frames s) j)
      \<and> (\<forall>k \<in> set ks. view_of maps s' q (of_nat k * 4096 + virt)
           = map_entry (of_nat k * 4096 + phys) (of_nat k * 4096 + virt) flags_empty True)
      \<and> (\<forall>p a. view_of maps s p a \<noteq> L2Empty \<longrightarrow> view_of maps s' p a = view_of maps s p a)"
proof (induction ks arbitrary: s)
  case (Cons k ks)
  let ?ph = "of_nat k * 4096 + phys" and ?a = "of_nat k * 4096 + virt"
  obtain s1 where m: "map_page mq ?ph ?a flags_empty True s = (Done (), s1)"
    and r: "mirror_pages mq phys virt ks s1 = (Done (), s')"
    using Cons.prems(2) by (auto split: prod.splits outcome.splits)
  have run: "run_op maps (OpMap q ?ph ?a flags_empty True) s = (Done 0, s1)"
    using assms m by (simp add: in_space_def no_addr_def seq_simps_pair)
  have "valid_op maps (OpMap q ?ph ?a flags_empty True) (view_of maps s)"
    using assms by (simp add: flags_empty_def wf_flags_def)
  note o = page_op_refines [OF Cons.prems(1) this run]
  have v: "view_of maps s q ?a = L2Empty"
    "view_of maps s1 = upd (view_of maps s) q ?a (map_entry ?ph ?a flags_empty True)"
    using o(1) [unfolded op_result_def page_spec.simps, THEN conjunct2] by (simp_all add: free_at_def)
  have ne: "map_entry ?ph ?a flags_empty True \<noteq> L2Empty" by (simp add: map_entry_def)
  note k = op_keeps [OF o(1)]
  have own: "allocations (vm_frames s) j = None \<or> allocations (vm_frames s1) j = allocations (vm_frames s) j"
    using k unfolding keeps_def by blast
  note ih = Cons.IH [OF o(2) r]
  have new: "view_of maps s' q ?a = map_entry ?ph ?a flags_empty True"
    using ih v(2) ne by simp
  have old: "view_of maps s' p a = view_of maps s p a" if "view_of maps s p a \<noteq> L2Empty" for p a
  proof -
    have "view_of maps s1 p a = view_of maps s p a" using that v by auto
    with that ih show ?thesis by simp
  qed
  from ih new old own show ?case by auto
qed simp

lemma mirrored_twice:
  assumes i: "isolated maps s" and mp: "maps p = Some mp" "maps q = Some mq" and m: "maps_frame (view_of maps s p a) j"
    and len: "0 < len" and run: "mirror_memory mp a len mq pr s = (Done mem, pr', s')"
  shows "maps_frame (view_of maps s' q (next_mirror_address pr)) j" 
    and "\<exists>d. view_of maps s' q (next_mirror_address pr) = L2Mapped d \<and> d AND SP_AP2 \<noteq> 0"
    and "maps_frame (view_of maps s' p a) j"
proof -
  obtain phys where ph: "virt_to_phys mp a s = Done phys"
    and r: "map_range_readonly_mirror mq phys len pr s = (Done mem, pr', s')"
    using run by (auto simp: mirror_memory_def split: outcome.splits)
  let ?v = "next_mirror_address pr"
  have b: "bus_view j phys"
    using m virt_to_phys_view(3) [where maps = maps, OF mp(1) ph] by (simp add: maps_frame_def)
  have run': "mirror_pages mq phys ?v [0..<page_steps_of len] s = (Done (), s')"
    using r by (auto simp: map_range_readonly_mirror_def Let_def split: prod.splits outcome.splits sum.splits)
  have "0 < unat len" using len by (simp add: word_less_nat_alt)
  then have z: "0 \<in> set [0..<page_steps_of len]" by (simp add: page_steps_of_def)
  note g = mirror_pages_map [OF mp(2) isolatedD(3) [OF i] run', of j]
  have e: "view_of maps s' q ?v = L2Mapped (page_desc ?v phys flags_empty True)"
    using g z bus_view_page(2) [OF b] by (auto simp: map_entry_def dest!: bspec [where x = 0])
  show "maps_frame (view_of maps s' q ?v) j" unfolding e by (rule page_desc_frame [THEN iffD2, OF b refl])
  have "small_page_flags ?v flags_empty True AND SP_AP2 \<noteq> 0"
    using small_page_flags_bits [of ?v flags_empty True] 
    by (simp add: flags_empty_def MF_W_def is_set_def flags_and_def small_page_defs)
  then have "page_desc ?v phys flags_empty True AND SP_AP2 \<noteq> 0"
    using page_desc_and [OF bus_view_page(1) [OF b], of SP_AP2 ?v flags_empty True]
    by (simp add: small_page_defs)
  with e show "\<exists>d. view_of maps s' q ?v = L2Mapped d \<and> d AND SP_AP2 \<noteq> 0" by blast
  have "view_of maps s p a \<noteq> L2Empty" using m by (auto simp: maps_frame_def)
  with g m show "maps_frame (view_of maps s' p a) j" by simp
qed

text \<open>After boot no process has an address space yet, and every page that nobody owns is dirty.\<close>

lemma boot_isolated: "isolated Map.empty \<lparr>vm_frames = frames_init owners, pmem = f\<rparr>"
  by (simp add: isolated_def good_spaces_def wf_vm_def wf_view_def view_of_def iso_def)

lemma sample_isolated: "isolated two_spaces sample_vm"
proof (rule isolatedI [OF sample_good])
  have f: "vm_frames sample_vm = frames_init (\<lambda>i. if i < 4 then Some 2 else if i < 8 then Some 3 else None)"
    by (simp add: sample_vm_def slot_write_def boot_vm_def)
  have own: "maps_frame own_page j \<longleftrightarrow> j = 3" for j
    unfolding own_page_def by (rule page_desc_frame) (simp add: bus_view_def RAM_PAGES_def)
  have "\<not> table_frame two_spaces sample_vm 3"
  proof
    assume "table_frame two_spaces sample_vm 3"
    then obtain p mp t G where p: "two_spaces p = Some mp" "space_rel sample_vm mp t G"
      "3 = t \<or> 3 = t + 1 \<or> (\<exists>g < 512. G g = Some 3)" unfolding table_frame_def by blast
    consider "mp = \<lparr>ttbr0 = page_addr 0, map_pid = 2\<rparr>" | "mp = \<lparr>ttbr0 = page_addr 4, map_pid = 3\<rparr>"
      using p(1) by (auto simp: two_spaces_def split: if_splits)
    then show False
    proof cases
      case 1
      note u = space_rel_unique [OF sample_rel(1) p(2) [unfolded 1]]
      have "G g \<noteq> Some 3" if "g < 512" for g using u(2) [OF that] by (auto simp: group_at_def split: if_splits)
      with p(3) u(1) show False by auto
    next
      case 2
      note u = space_rel_unique [OF sample_rel(2) p(2) [unfolded 2]]
      have "G g \<noteq> Some 3" if "g < 512" for g using u(2) [OF that] by (auto simp: group_at_def split: if_splits)
      with p(3) u(1) show False by auto
    qed
  qed
  then show "iso (view_of two_spaces sample_vm) (allocations (vm_frames sample_vm)) (table_frame two_spaces sample_vm)"
    by (auto simp: iso_def sample_view f own split: if_splits)
qed


text \<open>Process 2 lends its page to process 3.\<close>

lemma frame_3: "bus_view 3 (page_addr 3)" and page_3: "page_addr 3 \<noteq> 0"
  by (simp_all add: bus_view_def RAM_PAGES_def page_addr_def ENCRYPTED_DRAM_BASE_def)

lemma own_frame: "maps_frame own_page j \<longleftrightarrow> j = 3"
  unfolding own_page_def by (rule page_desc_frame [OF frame_3])

lemma shared_not_on_demand: "is_shared e \<Longrightarrow> \<not> is_on_demand e"
  by (cases e) auto

text \<open>What lending a page that the giver owns and has mapped does.\<close>

definition lent :: "spaces \<Rightarrow> pid \<Rightarrow> usize \<Rightarrow> pid \<Rightarrow> usize \<Rightarrow> nat \<Rightarrow> usize \<Rightarrow> vm \<Rightarrow> vm \<Rightarrow> bool" where
  "lent maps p a q b j phys s s' \<longleftrightarrow> isolated maps s' \<and> bus_view j phys
     \<and> maps_frame (view_of maps s' q b) j \<and> is_user_accessible (view_of maps s' q b)
     \<and> entry_phys (view_of maps s p a) = Done phys \<and> entry_phys (view_of maps s' q b) = Done phys
     \<and> is_shared (view_of maps s' p a) \<and> entry_phys (view_of maps s' p a) = Done phys
     \<and> (\<forall>p' mp' a' sl. maps p' = Some mp' \<and> get_l2_slot mp' a' s = Done sl \<longrightarrow> get_l2_slot mp' a' s' = Done sl)
     \<and> (\<forall>p' a'. (p', a') \<noteq> (p, a) \<and> (p', a') \<noteq> (q, b) \<longrightarrow> view_of maps s' p' a' = view_of maps s p' a')"

lemma lentD:
  assumes "lent maps p a q b j phys s s'"
  shows "isolated maps s'" "bus_view j phys" "maps_frame (view_of maps s' q b) j" "is_user_accessible (view_of maps s' q b)"
    "is_shared (view_of maps s' p a)" "entry_phys (view_of maps s' p a) = Done phys"
    "maps p' = Some mp' \<Longrightarrow> get_l2_slot mp' a' s = Done sl \<Longrightarrow> get_l2_slot mp' a' s' = Done sl"
    "(p', a') \<noteq> (p, a) \<Longrightarrow> (p', a') \<noteq> (q, b) \<Longrightarrow> view_of maps s' p' a' = view_of maps s p' a'"
    "entry_phys (view_of maps s p a) = Done phys" "entry_phys (view_of maps s' q b) = Done phys"
  using assms unfolding lent_def by (simp_all del: entry_phys.simps)

lemma lend_mapped:
  assumes i: "isolated maps s" and mp: "maps p = Some mp" and mq: "maps q = Some mq"
    and m: "maps_frame (view_of maps s p a) j" and run: "run_op maps (OpLend p a q b mutable) s = (Done phys, s1)"
  shows "\<exists>s'. mm_lend_page get mp a mq b mutable s = (Done (), s') \<and> lent maps p a q b j phys s s'"
proof -
  have pid: "map_pid mp = p" "map_pid mq = q" using isolatedD(1) [OF i] mp mq by (auto simp: wf_vm_def)
  have ok: "valid_op maps (OpLend p a q b mutable) (view_of maps s)" using mp mq by simp
  note o = page_op_refines [OF isolatedD(3) [OF i] ok run]
  have im: "is_mapped (view_of maps s p a)" using m by (simp add: maps_frame_def)
  from o(1) [unfolded op_result_def page_spec.simps giver.simps, THEN conjunct2] obtain w shared new where
    w: "source_view (new_frames maps p s s1) p a (view_of maps s) w" "entry_phys (w p a) = Done phys"
      "free_at (view_of maps s) q b" "to_unmapped (w p a) = Done shared"
      "(if mutable then Done (w p a) else to_immutable (w p a)) = Done new"
      "view_of maps s1 = upd (upd w p a shared) q b new" "is_user_accessible (view_of maps s p a)"
    by (auto simp: giveable_def simp del: to_unmapped.simps to_immutable.simps entry_phys.simps)
  have wv: "w = view_of maps s" using w(1) im by (auto simp: source_view_def backs_def)
  from wf_mapped [OF wf_view_at [OF isolatedD(2) [OF i]] im] obtain ph f u where
    e: "view_of maps s p a = L2Mapped (page_desc 0 ph f u)" "ph AND 0xfff = 0" "ph \<noteq> 0" .
  have ph: "ph = phys" using w(2) page_desc_addr [OF e(2)] by (simp add: wv e(1))
  have b: "bus_view j phys" using m page_desc_addr [OF e(2)] by (simp add: maps_frame_def e(1) ph)
  have sh: "shared = L2Unmapped (parked phys (effective_flags phys f) u)"
    using w(4) to_unmapped_page_desc [OF e(2)] by (simp add: wv e(1) ph)
  have new: "maps_frame new j"
    using w(5) to_immutable_page_desc [OF e(2)] page_desc_frame [OF b] by (cases mutable) (auto simp: wv e(1) ph)
  have ne: "(p, a) \<noteq> (q, b)" using w(3) im by (auto simp: free_at_def)
  have own: "allocations (vm_frames s) j = Some p" using isoD(1) [OF isolatedD(4) [OF i] m] .
  then have own1: "allocations (vm_frames s1) j = Some p"
    using op_keeps [OF o(1)] unfolding keeps_def by (metis option.distinct(1))
  have sp: "space_lend_page mp a mq b mutable s = (Done phys, s1)" using run mp mq by (simp add: in_space_def)
  let ?m = "(vm_frames s1)\<lparr>allocations := (allocations (vm_frames s1))(j := Some q)\<rparr>"
  have run': "mm_lend_page get mp a mq b mutable s = (Done (), s1\<lparr>vm_frames := ?m\<rparr>)"
    using move_frame [OF b own1] e(3) by (simp add: mm_lend_page_def hand_over_def seq_simps_pair sp on_frames_def pid ph)
  note i' = lend_isolated [OF i mp mq run']
  have wf1: "wf_vm s1 maps" using o(2) by (simp add: good_spaces_def)
  have "\<not> table_frame maps s1 j"
    using op_keeps [OF o(1)] isoD(2) [OF isolatedD(4) [OF i] m] own unfolding keeps_def by (metis option.distinct(1))
  moreover have "wf_frames ?m" using wf_claim_release_move [OF _ move_frame [OF b own1]] wf1 by (auto simp: wf_vm_def)
  ultimately have "accounts_change maps s1 ?m" by (auto simp: accounts_change_def)
  note ao = accounts_only [OF this wf1] and v = accounts_only(2) [OF this wf1]
  have acc: "is_user_accessible new"
    using w(5,7) to_immutable_page_desc [OF e(2)] user_page_desc [OF e(2)] by (cases mutable) (auto simp: wv e(1))
  have "lent maps p a q b j phys s (s1\<lparr>vm_frames := ?m\<rparr>)"
    unfolding lent_def
  proof (intro conjI allI impI)
    show "isolated maps (s1\<lparr>vm_frames := ?m\<rparr>)" by (rule i')
    show "bus_view j phys" by (rule b)
    show "maps_frame (view_of maps (s1\<lparr>vm_frames := ?m\<rparr>) q b) j" using new by (simp add: v w(6))
    show "is_user_accessible (view_of maps (s1\<lparr>vm_frames := ?m\<rparr>) q b)" using acc by (simp add: v w(6))
    show "entry_phys (view_of maps s p a) = Done phys" using w(2) by (simp only: wv)
    have "entry_phys new = Done phys"
      using w(5) to_immutable_page_desc [OF e(2)] page_desc_addr [OF e(2)] by (cases mutable) (auto simp: wv e(1) ph)
    then show "entry_phys (view_of maps (s1\<lparr>vm_frames := ?m\<rparr>) q b) = Done phys" by (simp add: v w(6))
    have "view_of maps (s1\<lparr>vm_frames := ?m\<rparr>) p a = shared" using ne by (auto simp: v w(6))
    then show "is_shared (view_of maps (s1\<lparr>vm_frames := ?m\<rparr>) p a)" "entry_phys (view_of maps (s1\<lparr>vm_frames := ?m\<rparr>) p a) = Done phys"
      using parked_fields(1,5) [of phys "effective_flags phys f" u] e(2,3) wf_effective_flags by (simp_all add: sh ph)
    fix p' a'
    show "get_l2_slot mp' a' (s1\<lparr>vm_frames := ?m\<rparr>) = Done sl"
      if "maps p' = Some mp' \<and> get_l2_slot mp' a' s = Done sl" for mp' sl
      using ao(4) [of p'] keepsD(2) [OF op_keeps [OF o(1)]] that by metis
    show "view_of maps (s1\<lparr>vm_frames := ?m\<rparr>) p' a' = view_of maps s p' a'" if "(p', a') \<noteq> (p, a) \<and> (p', a') \<noteq> (q, b)"
      using that by (auto simp: v w(6) wv)
  qed
  with run' show ?thesis by blast
qed

lemma lend_succeeds:
  assumes i: "isolated maps s" and mp: "maps p = Some mp" and mq: "maps q = Some mq"
    and m: "maps_frame (view_of maps s p a) j" "is_user_accessible (view_of maps s p a)"
    and sl: "get_l2_slot mp a s = Done sl" and dl: "get_l2_slot mq b s = Done dl" and fr: "view_of maps s q b = L2Empty"
  shows "\<exists>phys s1. run_op maps (OpLend p a q b mutable) s = (Done phys, s1)"
proof -
  have wf: "wf_vm s maps" using isolatedD(1) [OF i] .
  obtain t G where r: "space_rel s mq t G" using wf mq by (rule wf_vm_space)
  obtain h where h: "user_page b" "G (group_of b) = Some h" using get_l2_slot_Done [OF r dl] by metis
  have im: "is_mapped (view_of maps s p a)" using m(1) by (simp add: maps_frame_def)
  from wf_mapped [OF wf_view_at [OF isolatedD(2) [OF i]] im] obtain ph f u where
    e: "view_of maps s p a = L2Mapped (page_desc 0 ph f u)" "ph AND 0xfff = 0" .
  have src: "source_entry mp a s = (Done (sl, view_of maps s p a), s)"
    using sl slot_read_view [where maps = maps, OF mp sl] m(2) im e(1)
    by (simp add: source_entry_def seq_simps_pair Let_def)
  have al: "\<exists>dl. allocate_l2_slot mq b s = (Done dl, s)"
    using allocate_l2_slot_existing(2) [OF r h] fr view_at [where maps = maps, OF mq] by auto
  have "\<exists>sh. to_unmapped (view_of maps s p a) = Done sh" "\<exists>n. to_immutable (view_of maps s p a) = Done n"
    "\<exists>ph. entry_phys (view_of maps s p a) = Done ph"
    using to_unmapped_page_desc [OF e(2)] to_immutable_page_desc [OF e(2)] page_desc_addr [OF e(2)] by (auto simp: e(1))
  with al src im mp mq show ?thesis
    by (auto simp: in_space_def space_lend_page_def seq_simps_pair Let_def simp del: to_unmapped.simps to_immutable.simps entry_phys.simps)
qed

lemma sample_run:
  obtains s1 where "mm_lend_page get \<lparr>ttbr0 = page_addr 0, map_pid = 2\<rparr> 0x10000 \<lparr>ttbr0 = page_addr 4, map_pid = 3\<rparr> 0x20000 False sample_vm
      = (Done (), s1)" "isolated two_spaces s1" "maps_frame (view_of two_spaces s1 3 0x20000) 3"
    "is_shared (view_of two_spaces s1 2 0x10000)" "entry_phys (view_of two_spaces s1 2 0x10000) = Done (page_addr 3)"
    "is_user_accessible (view_of two_spaces s1 3 0x20000)" "entry_phys (view_of two_spaces s1 3 0x20000) = Done (page_addr 3)"
    "view_of two_spaces s1 2 0x30000 = L2Empty" "\<exists>sl. get_l2_slot \<lparr>ttbr0 = page_addr 0, map_pid = 2\<rparr> 0x10000 s1 = Done sl"
    "\<exists>sl. get_l2_slot \<lparr>ttbr0 = page_addr 4, map_pid = 3\<rparr> 0x20000 s1 = Done sl"
    "\<exists>sl. get_l2_slot \<lparr>ttbr0 = page_addr 0, map_pid = 2\<rparr> 0x30000 s1 = Done sl"
proof -
  let ?mp = "\<lparr>ttbr0 = page_addr 0, map_pid = 2\<rparr>" and ?mq = "\<lparr>ttbr0 = page_addr 4, map_pid = 3\<rparr>"
  have m: "two_spaces 2 = Some ?mp" "two_spaces 3 = Some ?mq" by (simp_all add: two_spaces_def)
  obtain s0 where run: "run_op two_spaces (OpLend 2 0x10000 3 0x20000 False) sample_vm = (Done (page_addr 3), s0)"
    using sample_lend by blast
  have f: "maps_frame (view_of two_spaces sample_vm 2 0x10000) 3" by (simp add: sample_view own_frame)
  note L = lend_mapped [OF sample_isolated m f run]
  have pg: "user_page 0x30000" "group_of 0x30000 = 0"
    by (simp_all add: user_page_def translation_table_index_def L1_USER_PAGE_TABLE_ENTRIES_def group_of_def)
  have sl: "\<exists>sl. get_l2_slot ?mp 0x10000 sample_vm = Done sl" "\<exists>sl. get_l2_slot ?mq 0x20000 sample_vm = Done sl"
    "\<exists>sl. get_l2_slot ?mp 0x30000 sample_vm = Done sl"
    using sample_pages pg unfolding get_l2_slot_user [OF sample_rel(1)] get_l2_slot_user [OF sample_rel(2)]
    by (simp_all add: group_at_def user_page_def)
  have v3: "view_of two_spaces sample_vm 2 0x30000 = L2Empty" by (simp add: sample_view)
  from L obtain s1 where s1: "mm_lend_page get ?mp 0x10000 ?mq 0x20000 False sample_vm = (Done (), s1)"
    "lent two_spaces 2 0x10000 3 0x20000 3 (page_addr 3) sample_vm s1" by blast
  note l = lentD(1,3,5,6,4,10) [OF s1(2)]
  have "view_of two_spaces s1 2 0x30000 = L2Empty" using lentD(8) [OF s1(2), of 2 "0x30000"] v3 by simp
  moreover have "\<exists>sl. get_l2_slot ?mp 0x10000 s1 = Done sl" "\<exists>sl. get_l2_slot ?mq 0x20000 s1 = Done sl"
    "\<exists>sl. get_l2_slot ?mp 0x30000 s1 = Done sl"
    using lentD(7) [OF s1(2) m(1)] lentD(7) [OF s1(2) m(2)] sl by blast+
  ultimately show thesis by (rule that [OF s1(1) l])
qed


section \<open>Properties\<close>

text \<open>
  C11: Isolation of the processes, under a discipline that the kernel does not enforce: no range is
  mirrored with \<open>MirrorMemoryToPid\<close>, and a borrower only returns a page that it still has mapped, to
  a place the lender has not reserved anew (\<open>orderly\<close>; C23 shows what happens otherwise). Whatever
  sequence of such steps runs (creating and ending processes, mapping and unmapping ranges, backing on
  demand, moving, lending, returning and dropping pages, failed attempts at these, stores of the
  processes, the zeroer), a page of RAM that a process has mapped is owned by that process, is mapped
  in no other place of any process, and holds no page table, so that no store of a process reaches
  a table or the memory of another process.
\<close>

theorem memory_isolated:
  assumes "isolated maps0 s0" and "orderly_steps (maps0, s0) (maps, s)" and "maps_frame (view_of maps s p a) i"
  shows "allocations (vm_frames s) i = Some p \<and> \<not> table_frame maps s i
    \<and> (\<forall>q b. maps_frame (view_of maps s q b) i \<longrightarrow> q = p \<and> b = a)"
proof -
  have "isolated maps s" using orderly_steps_isolated [OF assms(2)] assms(1) by simp
  note d = isoD [OF isolatedD(4) [OF this] assms(3)]
  show ?thesis using d by blast
qed

theorem memory_isolated_witness:
  "\<exists>s. orderly_steps (two_spaces, sample_vm) (two_spaces, s) \<and> maps_frame (view_of two_spaces s 3 0x20000) 3
    \<and> allocations (vm_frames s) 3 = Some 3"
proof -
  obtain s1 where s1: "mm_lend_page (\<lambda>_. None) \<lparr>ttbr0 = page_addr 0, map_pid = 2\<rparr> 0x10000 \<lparr>ttbr0 = page_addr 4, map_pid = 3\<rparr>
      0x20000 False sample_vm = (Done (), s1)" "maps_frame (view_of two_spaces s1 3 0x20000) 3"
    by (rule sample_run)
  have "two_spaces 2 = Some \<lparr>ttbr0 = page_addr 0, map_pid = 2\<rparr>" "two_spaces 3 = Some \<lparr>ttbr0 = page_addr 4, map_pid = 3\<rparr>"
    by (simp_all add: two_spaces_def)
  then have st: "orderly_steps (two_spaces, sample_vm) (two_spaces, s1)"
    by (intro orderly_step [OF orderly_refl, where ev = Otherwise] ms_lend [OF _ _ s1(1)]) simp_all
  from memory_isolated [OF sample_isolated st s1(2)] st s1(2) show ?thesis by blast
qed

text \<open>
  C23: A page is not safe when a borrower lends it on and then returns it. Process 2 lends a page
  to 3, which lends it back to 2 at another address and then returns the first loan: all three
  succeed, because returning does not check that the borrower still has the page mapped. Process 2
  has the page twice, and after it unmaps it once the page is free while still mapped.
\<close>

theorem relend_leaves_dangling_page:
  "\<exists>s1 s2 s3 s4. let m2 = \<lparr>ttbr0 = page_addr 0, map_pid = 2\<rparr>; m3 = \<lparr>ttbr0 = page_addr 4, map_pid = 3\<rparr> in
     mm_lend_page get m2 0x10000 m3 0x20000 False sample_vm = (Done (), s1)
     \<and> mm_lend_page get m3 0x20000 m2 0x30000 False s1 = (Done (), s2)
     \<and> mm_unlend_page get m3 0x20000 m2 0x10000 s2 = (Done (), s3)
     \<and> unmap_range get m2 0x10000 0x1000 s3 = (Done (), s4)
     \<and> allocations (vm_frames s4) 3 = None \<and> maps_frame (view_of two_spaces s4 2 0x30000) 3"
proof -
  let ?m2 = "\<lparr>ttbr0 = page_addr 0, map_pid = 2\<rparr>" and ?m3 = "\<lparr>ttbr0 = page_addr 4, map_pid = 3\<rparr>" and ?v = "view_of two_spaces"
  have m: "two_spaces 2 = Some ?m2" "two_spaces 3 = Some ?m3" by (simp_all add: two_spaces_def)
  obtain s1 where s1: "mm_lend_page get ?m2 0x10000 ?m3 0x20000 False sample_vm = (Done (), s1)" "isolated two_spaces s1"
    "maps_frame (?v s1 3 0x20000) 3" "is_shared (?v s1 2 0x10000)" "entry_phys (?v s1 2 0x10000) = Done (page_addr 3)"
    "is_user_accessible (?v s1 3 0x20000)" "entry_phys (?v s1 3 0x20000) = Done (page_addr 3)" "?v s1 2 0x30000 = L2Empty"
    "\<exists>sl. get_l2_slot ?m2 0x10000 s1 = Done sl" "\<exists>sl. get_l2_slot ?m3 0x20000 s1 = Done sl"
    "\<exists>sl. get_l2_slot ?m2 0x30000 s1 = Done sl" by (rule sample_run)
  obtain sl dl where sd: "get_l2_slot ?m3 0x20000 s1 = Done sl" "get_l2_slot ?m2 0x30000 s1 = Done dl" using s1(10,11) by blast
  obtain ph s1' where op2: "run_op two_spaces (OpLend 3 0x20000 2 0x30000 False) s1 = (Done ph, s1')"
    using lend_succeeds [where maps = two_spaces, OF s1(2) m(2,1) s1(3,6) sd s1(8)] by blast
  obtain s2 where s2: "mm_lend_page get ?m3 0x20000 ?m2 0x30000 False s1 = (Done (), s2)"
    "lent two_spaces 3 0x20000 2 0x30000 3 ph s1 s2" using lend_mapped [OF s1(2) m(2,1) s1(3) op2] by blast
  note l = lentD [OF s2(2)]
  have ph: "ph = page_addr 3" using l(9) s1(7) by simp
  have v2: "?v s2 2 0x10000 = ?v s1 2 0x10000" using l(8) [of 2 "0x10000"] by simp
  obtain r3 s3 where op3: "space_return_page ?m3 0x20000 ?m2 0x10000 s2 = (r3, s3)" by fastforce
  have nd: "\<not> is_on_demand (?v s2 2 0x10000)" using shared_not_on_demand [OF s1(4)] v2 by simp
  have "run_op two_spaces (OpReturn 3 0x20000 2 0x10000) s2 = (r3, s3)" using op3 m by (simp add: in_space_def)
  moreover have "valid_op two_spaces (OpReturn 3 0x20000 2 0x10000) (?v s2)" using m nd by simp
  ultimately have o: "op_result two_spaces (OpReturn 3 0x20000 2 0x10000) s2 r3 s3" "good_spaces two_spaces s3"
    using page_op_refines [OF isolatedD(3) [OF l(1)]] by blast+
  from o(1) l(6) s1(5) v2 ph obtain e where e: "r3 = Done (page_addr 3)" "to_mapped (?v s2 2 0x10000) 0x10000 = Done e"
    "?v s3 = upd (upd (?v s2) 3 0x20000 L2Empty) 2 0x10000 e"
    by (cases r3) (auto simp: op_result_def simp del: to_mapped.simps entry_phys.simps)
  note em = to_mapped_phys [OF wf_view_at [OF isolatedD(2) [OF l(1)]] e(2), of "page_addr 3"]
  have em: "is_mapped e" "entry_phys e = Done (page_addr 3)" using em s1(5) v2 by simp_all
  note own2 = isoD [OF isolatedD(4) [OF l(1)] l(3)]
  have own: "allocations (vm_frames s3) 3 = Some 2" "\<not> table_frame two_spaces s3 3"
    using op_keeps [OF o(1)] own2(1,2) unfolding keeps_def by (metis option.distinct(1))+
  have crm: "claim_release_move get (page_addr 3) 2 (MoveFrom 3) (vm_frames s3) = (Done (), vm_frames s3)"
    using bus_view_accounts [OF frame_3, of get 2] own(1) by (simp add: claim_release_move_def accounts_def fun_upd_idem)
  have s3: "mm_unlend_page get ?m3 0x20000 ?m2 0x10000 s2 = (Done (), s3)"
    using page_3 crm by (simp add: mm_unlend_page_def op3 e(1) hand_over_def seq_simps_pair on_frames_def)
  obtain r4 m4 where rel: "claim_release_move get (page_addr 3) 2 Release (vm_frames s3) = (r4, m4)" by fastforce
  have wf3: "wf_frames (vm_frames s3)" using o(2) by (simp add: good_spaces_def wf_vm_def)
  note ro = release_owners [OF wf3, of get "page_addr 3" 2, unfolded rel snd_conv]
  have free: "allocations m4 3 = None" using ro [of 3] bus_view_accounts [OF frame_3, of get 2] own(1) by simp
  have "allocations m4 j = allocations (vm_frames s3) j" if "table_frame two_spaces s3 j" for j
  proof -
    have "\<not> accounts get (page_addr 3) 2 j" using accounts_inj [OF bus_view_accounts [OF frame_3]] own(2) that by metis
    with ro [of j] show ?thesis by simp
  qed
  then have c: "accounts_change two_spaces s3 m4"
    using wf_claim_release_move [OF wf3 rel] crm_zeroed [OF wf3 rel] by (simp add: accounts_change_def)
  obtain sl0 where sl0: "get_l2_slot ?m2 0x10000 s3 = Done sl0"
    using s1(9) l(7) [OF m(1)] keepsD(2) [OF op_keeps [OF o(1)] m(1)] by metis
  have e3: "?v s3 2 0x10000 = e" using e(3) by simp
  have vp: "virt_to_phys ?m2 0x10000 s3 = Done (page_addr 3)"
    using slot_read_view [where maps = two_spaces, OF m(1) sl0] em e3 sl0 by (simp add: virt_to_phys_def Let_def)
  obtain r5 s4 where un: "unmap_page ?m2 0x10000 (s3\<lparr>vm_frames := m4\<rparr>) = (r5, s4)" by fastforce
  note u = unmap_step [OF o(2) m(1) vp c un]
  have "addr_range 0x10000 (0x10000 + 0x1000) = [0x10000]" by (simp add: addr_range_def)
  then have s4: "unmap_range get ?m2 0x10000 0x1000 s3 = (Done (), s4)"
    using vp rel un u(1) by (simp add: unmap_range_def on_frames_def)
  have "?v s4 2 0x30000 = ?v s2 2 0x30000" using u(3) e(3) by simp
  then have "maps_frame (?v s4 2 0x30000) 3" using l(3) by simp
  moreover have "allocations (vm_frames s4) 3 = None" using free u(2) by simp
  ultimately show ?thesis unfolding Let_def using s1(1) s2(1) s3 s4 by blast
qed

end
