(* ===== verification/Range_Transfers.thy ===== *)
theory Range_Transfers
  imports Memory_Isolation
begin

unbundle bit_operations_syntax

text \<open>
  The loops over the pages of a message (in \<open>send_memory\<close>, \<open>lend_memory\<close>, \<open>return_memory\<close> and
  \<open>clear_shared_range\<close> of \<open>xous/kernel/src/services.rs\<close>): a range moves page by page from one
  process to another, and when a page fails the earlier pages are given back. That such a loop
  transfers everything or nothing and that giving back cannot fail is proved once, in a locale,
  for any step that can be undone; it is interpreted for lending and for moving.
\<close>

section \<open>All or nothing\<close>

text \<open>The loops over the pages: \<open>undo_all\<close> expects every step to succeed.\<close>

fun undo_all :: "(nat \<Rightarrow> 's \<Rightarrow> unit res \<times> 's) \<Rightarrow> nat list \<Rightarrow> 's \<Rightarrow> unit res \<times> 's" where
  "undo_all undo [] s = (Done (), s)"
| "undo_all undo (k # ks) s =
     (case undo k s of (Done _, s1) \<Rightarrow> undo_all undo ks s1 | (_, s1) \<Rightarrow> (Panic, s1))"

fun run_all :: "(nat \<Rightarrow> 's \<Rightarrow> unit res \<times> 's) \<Rightarrow> (nat \<Rightarrow> 's \<Rightarrow> unit res \<times> 's) \<Rightarrow> nat list \<Rightarrow> 's \<Rightarrow> unit res \<times> 's" where
  "run_all step undo [] s = (Done (), s)"
| "run_all step undo (k # ks) s =
     (case step k s of
        (Done _, s1) \<Rightarrow> run_all step undo ks s1
      | (Panic, s1) \<Rightarrow> (Panic, s1)
      | (Fail e, s1) \<Rightarrow> (case undo_all undo [0..<k] s1 of (Done _, s2) \<Rightarrow> (Fail e, s2) | (_, s2) \<Rightarrow> (Panic, s2)))"

text \<open>
  \<open>part i k s\<close>: the elements from \<open>i\<close> up to \<open>k\<close> are transferred and the others are not. A step
  transfers one more or fails without transferring it, and the first one can always be undone.
\<close>

locale transaction =
  fixes step undo :: "nat \<Rightarrow> 's \<Rightarrow> unit res \<times> 's" and part :: "nat \<Rightarrow> nat \<Rightarrow> 's \<Rightarrow> bool" and n :: nat
  assumes step: "part 0 k s \<Longrightarrow> k < n \<Longrightarrow> step k s = (r, s') \<Longrightarrow>
      (r = Done () \<and> part 0 (Suc k) s') \<or> (\<exists>e. r = Fail e \<and> part 0 k s')"
    and undo: "part i k s \<Longrightarrow> i < k \<Longrightarrow> k \<le> n \<Longrightarrow> \<exists>s'. undo i s = (Done (), s') \<and> part (Suc i) k s'"
begin

lemma undo_all_part:
  "part i k s \<Longrightarrow> i \<le> k \<Longrightarrow> k \<le> n \<Longrightarrow> \<exists>s'. undo_all undo [i..<k] s = (Done (), s') \<and> part k k s'"
proof (induction "k - i" arbitrary: i s)
  case (Suc d)
  then have i: "i < k" by simp
  obtain s1 where s1: "undo i s = (Done (), s1)" "part (Suc i) k s1" using undo [OF Suc.prems(1) i Suc.prems(3)] by blast
  have "d = k - Suc i" "Suc i \<le> k" using Suc.hyps(2) i by simp_all
  from Suc.hyps(1) [OF this(1) s1(2) this(2) Suc.prems(3)] s1(1) i show ?case by (simp add: upt_conv_Cons)
qed simp

lemma run_all_part:
  "part 0 k s \<Longrightarrow> k \<le> n \<Longrightarrow> run_all step undo [k..<n] s = (r, s') \<Longrightarrow>
    (r = Done () \<and> part 0 n s') \<or> (\<exists>e j. r = Fail e \<and> j < n \<and> part j j s')"
proof (induction "n - k" arbitrary: k s)
  case (Suc d)
  then have k: "k < n" by simp
  obtain r1 s1 where one: "step k s = (r1, s1)" by fastforce
  from step [OF Suc.prems(1) k one] show ?case
  proof
    assume d: "r1 = Done () \<and> part 0 (Suc k) s1"
    have "run_all step undo [Suc k..<n] s1 = (r, s')" using Suc.prems(3) k one d by (simp add: upt_conv_Cons)
    moreover have "d = n - Suc k" "Suc k \<le> n" using Suc.hyps(2) k by simp_all
    ultimately show ?case using Suc.hyps(1) [of "Suc k" s1] d by blast
  next
    assume "\<exists>e. r1 = Fail e \<and> part 0 k s1"
    then obtain e where e: "r1 = Fail e" "part 0 k s1" by blast
    obtain s2 where s2: "undo_all undo [0..<k] s1 = (Done (), s2)" "part k k s2"
      using undo_all_part [OF e(2)] Suc.prems(2) by auto
    then have "r = Fail e \<and> s' = s2" using Suc.prems(3) k one e(1) by (simp add: upt_conv_Cons)
    with s2(2) k show ?case by blast
  qed
qed simp

lemma all_or_nothing:
  assumes "part 0 0 s" and "run_all step undo [0..<n] s = (r, s')"
  shows "(r = Done () \<and> part 0 n s') \<or> (\<exists>e j. r = Fail e \<and> j < n \<and> part j j s')"
  using run_all_part [OF assms(1) _ assms(2)] by simp

end

section \<open>Pages of a range\<close>

definition lend_pages ::
    "(pid \<Rightarrow> process option) \<Rightarrow> mapping \<Rightarrow> usize \<Rightarrow> mapping \<Rightarrow> usize \<Rightarrow> bool \<Rightarrow> nat \<Rightarrow> vm \<Rightarrow> unit res \<times> vm" where
  "lend_pages get mp src mq dst mutable n =
     run_all (\<lambda>k. mm_lend_page get mp (page_at src k) mq (page_at dst k) mutable)
       (\<lambda>k. mm_unlend_page get mq (page_at dst k) mp (page_at src k)) [0..<n]"

definition move_pages ::
    "(pid \<Rightarrow> process option) \<Rightarrow> mapping \<Rightarrow> usize \<Rightarrow> mapping \<Rightarrow> usize \<Rightarrow> nat \<Rightarrow> vm \<Rightarrow> unit res \<times> vm" where
  "move_pages get mp src mq dst n =
     run_all (\<lambda>k. mm_move_page get mp (page_at src k) mq (page_at dst k))
       (\<lambda>k. mm_move_page get mq (page_at dst k) mp (page_at src k)) [0..<n]"

text \<open>Returning goes on after an error and reports the last one.\<close>

fun return_pages ::
    "(pid \<Rightarrow> process option) \<Rightarrow> mapping \<Rightarrow> usize \<Rightarrow> mapping \<Rightarrow> usize \<Rightarrow> nat list \<Rightarrow> unit res \<Rightarrow> vm \<Rightarrow> unit res \<times> vm" where
  "return_pages get mp src mq dst [] r s = (r, s)"
| "return_pages get mp src mq dst (k # ks) r s =
     (case mm_unlend_page get mp (page_at src k) mq (page_at dst k) s of
        (Done _, s1) \<Rightarrow> return_pages get mp src mq dst ks r s1
      | (Fail e, s1) \<Rightarrow> return_pages get mp src mq dst ks (Fail e) s1
      | (Panic, s1) \<Rightarrow> (Panic, s1))"

fun clear_pages :: "mapping \<Rightarrow> usize \<Rightarrow> clear_shared_mode \<Rightarrow> nat list \<Rightarrow> vm \<Rightarrow> unit res \<times> vm" where
  "clear_pages mp a mode [] s = (Done (), s)"
| "clear_pages mp a mode (k # ks) s =
     (case clear_shared mp (page_at a k) mode s of (Done _, s1) \<Rightarrow> clear_pages mp a mode ks s1 | (_, s1) \<Rightarrow> (Panic, s1))"

fun back_pages :: "mapping \<Rightarrow> usize \<Rightarrow> nat list \<Rightarrow> vm \<Rightarrow> unit res \<times> vm" where
  "back_pages mp a [] s = (Done (), s)"
| "back_pages mp a (k # ks) s = seq (ensure_backed mp (page_at a k) s) (\<lambda>_. back_pages mp a ks)"

lemma page_at_inj:
  assumes "page_at a k = page_at a k'" and "k < 2 ^ 20" and "k' < 2 ^ 20"
  shows "k = k'"
proof -
  have "(of_nat (k * 4096) :: usize) = of_nat (k' * 4096)" using assms(1) by (simp add: page_at_def)
  moreover have "unat (of_nat (x * 4096) :: usize) = x * 4096" if "x < 2 ^ 20" for x
    using that by (subst unsigned_of_nat) (simp add: take_bit_nat_eq_self)
  ultimately have "k * 4096 = k' * 4096" using assms(2,3) by metis
  then show ?thesis by simp
qed

text \<open>A page that is not a device's.\<close>

definition ram_entry :: "l2_entry \<Rightarrow> bool" where
  "ram_entry e \<longleftrightarrow> (is_mapped e \<longrightarrow> (\<exists>j. maps_frame e j))"

section \<open>Lending one page\<close>

text \<open>What the tables say of a page of the range, before and after it was lent.\<close>

definition lent_entries :: "bool \<Rightarrow> l2_entry \<Rightarrow> l2_entry \<Rightarrow> l2_entry \<Rightarrow> bool" where
  "lent_entries mutable e shared new \<longleftrightarrow> is_mapped e \<and> (\<exists>j. maps_frame e j)
     \<and> to_unmapped e = Done shared \<and> (if mutable then Done e else to_immutable e) = Done new"

lemma accounts_hand_over:
  assumes good: "good_spaces maps s" and own: "allocations (vm_frames s) j = Some p" and tab: "\<not> table_frame maps s j"
    and b: "bus_view j phys"
  shows "\<exists>s'. hand_over get p q (Done phys, s) = (Done (), s') \<and> view_of maps s' = view_of maps s
    \<and> (\<forall>i mi a. maps i = Some mi \<longrightarrow> get_l2_slot mi a s' = get_l2_slot mi a s)"
proof -
  have w: "wf_vm s maps" "wf_frames (vm_frames s)" using good by (simp_all add: good_spaces_def wf_vm_def)
  let ?m = "(vm_frames s)\<lparr>allocations := (allocations (vm_frames s))(j := Some q)\<rparr>"
  have run: "hand_over get p q (Done phys, s) = (Done (), s\<lparr>vm_frames := ?m\<rparr>)"
    using move_frame [OF b own, of get q] bus_view_page(2) [OF b] by (simp add: hand_over_def seq_simps_pair on_frames_def)
  have "wf_frames ?m" using wf_claim_release_move [OF w(2) move_frame [OF b own]] by blast
  then have "accounts_change maps s ?m" using tab by (auto simp: accounts_change_def)
  note a = accounts_only [OF this w(1)]
  show ?thesis using run a(2,4) by blast
qed

text \<open>A page in RAM that was given in the tables is also given in the accounts.\<close>

lemma give_step:
  assumes i: "isolated maps s" and ram: "ram_entry (view_of maps s p a)" and kp: "keeps maps s s1" and good: "good_spaces maps s1"
    and w: "source_view (new_frames maps p s s1) p a (view_of maps s) w" "is_mapped (w p a)" "entry_phys (w p a) = Done phys"
  obtains j s' where "maps_frame (w p a) j" "hand_over get p q (Done phys, s1) = (Done (), s')" "view_of maps s' = view_of maps s1"
    "\<And>q mq b sl. maps q = Some mq \<Longrightarrow> get_l2_slot mq b s = Done sl \<Longrightarrow> get_l2_slot mq b s' = Done sl"
proof -
  note io = source_iso [OF isolatedD(4) [OF i] kp w(1)]
  have "\<exists>j. maps_frame (w p a) j"
    using w(1,2) ram page_desc_frame by (fastforce simp: source_view_def backs_def ram_entry_def)
  then obtain j where f: "maps_frame (w p a) j" by blast
  have b: "bus_view j phys" using f w(3) by (simp add: maps_frame_def del: entry_phys.simps)
  from accounts_hand_over [OF good isoD(1,2) [OF io f] b, of get q] obtain s' where
    s': "hand_over get p q (Done phys, s1) = (Done (), s')" "view_of maps s' = view_of maps s1"
      "\<forall>i mi a. maps i = Some mi \<longrightarrow> get_l2_slot mi a s' = get_l2_slot mi a s1" by blast
  show thesis by (rule that [OF f s'(1,2)]) (use s'(3) keepsD(2) [OF kp] in \<open>metis\<close>)
qed

text \<open>One page: it is lent, or the tables differ at most in that the source was backed.\<close>

lemma lend_step:
  assumes i: "isolated maps s" and mp: "maps p = Some mp" and mq: "maps q = Some mq"
    and ram: "ram_entry (view_of maps s p a)" and run: "mm_lend_page get mp a mq b mutable s = (r, s')"
  shows "isolated maps s' \<and> (\<exists>F w. source_view F p a (view_of maps s) w \<and>
    ((\<exists>shared new. r = Done () \<and> lent_entries mutable (w p a) shared new \<and> free_at (view_of maps s) q b
        \<and> view_of maps s' = upd (upd w p a shared) q b new)
      \<or> (\<exists>e. r = Fail e \<and> view_of maps s' = w)))"
proof -
  have pid: "map_pid mp = p" "map_pid mq = q" using isolatedD(1) [OF i] mp mq by (auto simp: wf_vm_def)
  obtain r1 s1 where r1: "space_lend_page mp a mq b mutable s = (r1, s1)" by fastforce
  then have op: "run_op maps (OpLend p a q b mutable) s = (r1, s1)" using mp mq by (simp add: in_space_def)
  have "valid_op maps (OpLend p a q b mutable) (view_of maps s)" using mp mq by simp
  note o = page_op_refines [OF isolatedD(3) [OF i] this op]
  from o(1) [unfolded op_result_def page_spec.simps giver.simps, THEN conjunct2] obtain w where
    w: "source_view (new_frames maps p s s1) p a (view_of maps s) w" "case r1 of
          Done phys \<Rightarrow> is_mapped (w p a) \<and> entry_phys (w p a) = Done phys \<and> giveable (view_of maps s p a)
            \<and> free_at (view_of maps s) q b
            \<and> (\<exists>shared new. to_unmapped (w p a) = Done shared
                \<and> (if mutable then Done (w p a) else to_immutable (w p a)) = Done new
                \<and> view_of maps s1 = upd (upd w p a shared) q b new)
        | Fail err \<Rightarrow> view_of maps s1 = w \<and> (err = OutOfMemory \<or> \<not> giveable (view_of maps s p a) \<or> \<not> free_at (view_of maps s) q b)
        | Panic \<Rightarrow> False"
    by blast
  note is' = lend_isolated [OF i mp mq run]
  show ?thesis
  proof (cases r1)
    case (Done phys)
    with w(2) obtain shared new where d: "is_mapped (w p a)" "entry_phys (w p a) = Done phys" "free_at (view_of maps s) q b"
      "to_unmapped (w p a) = Done shared" "(if mutable then Done (w p a) else to_immutable (w p a)) = Done new"
      "view_of maps s1 = upd (upd w p a shared) q b new"
      by (auto simp del: to_unmapped.simps to_immutable.simps entry_phys.simps)
    from give_step [OF i ram op_keeps [OF o(1)] o(2) w(1) d(1,2), of get q] obtain j s2 where
      j: "maps_frame (w p a) j" "hand_over get p q (Done phys, s1) = (Done (), s2)" "view_of maps s2 = view_of maps s1" by metis
    have ho: "r = Done ()" "view_of maps s' = view_of maps s1" using j run r1 Done pid by (simp_all add: mm_lend_page_def)
    have "lent_entries mutable (w p a) shared new" using d(1,4,5) j(1) unfolding lent_entries_def by blast
    then have "r = Done () \<and> lent_entries mutable (w p a) shared new \<and> free_at (view_of maps s) q b
        \<and> view_of maps s' = upd (upd w p a shared) q b new" using ho d(3,6) by simp
    with is' w(1) show ?thesis by blast
  next
    case (Fail e)
    with run r1 w(2) have "r = Fail e" "view_of maps s' = w" by (simp_all add: mm_lend_page_def hand_over_def seq_simps_pair)
    with is' w(1) show ?thesis by blast
  qed (use w(2) in simp)
qed


text \<open>Giving a lent page back restores both entries.\<close>

lemma unlend_step:
  assumes i: "isolated maps s" and mp: "maps p = Some mp" and mq: "maps q = Some mq" and ne: "(p, a) \<noteq> (q, b)"
    and up: "user_page a" and e: "lent_entries mutable e shared new" "wf_entry e"
    and v: "view_of maps s p a = shared" "view_of maps s q b = new"
  shows "\<exists>s'. mm_unlend_page get mq b mp a s = (Done (), s') \<and> isolated maps s'
    \<and> view_of maps s' = upd (upd (view_of maps s) q b L2Empty) p a e"
proof -
  have pid: "map_pid mp = p" "map_pid mq = q" using isolatedD(1) [OF i] mp mq by (auto simp: wf_vm_def)
  note l = e(1) [unfolded lent_entries_def]
  obtain j where j: "maps_frame e j" using l by blast
  have im: "is_mapped e" using l by blast
  from wf_mapped [OF e(2) im] obtain ph f u where
    d: "e = L2Mapped (page_desc 0 ph f u)" "ph AND 0xfff = 0" "ph \<noteq> 0" .
  have b: "bus_view j ph" using j page_desc_addr [OF d(2)] by (simp add: maps_frame_def d(1))
  have sh: "shared = L2Unmapped (parked ph (effective_flags ph f) u)"
    using l to_unmapped_page_desc [OF d(2)] by (simp add: d(1))
  have new: "maps_frame new j" "entry_phys new = Done ph" "is_mapped new"
    using l to_immutable_page_desc [OF d(2)] page_desc_frame [OF b] page_desc_addr [OF d(2)]
    by (cases mutable; auto simp: d(1))+
  have shp: "entry_phys shared = Done ph" "\<not> is_on_demand shared"
    using parked_fields(1,5) [OF d(2) wf_effective_flags, of ph f u] d(3) by (simp_all add: sh)
  obtain r1 s1 where r1: "space_return_page mq b mp a s = (r1, s1)" by fastforce
  then have op: "run_op maps (OpReturn q b p a) s = (r1, s1)" using mp mq by (simp add: in_space_def)
  have ok: "valid_op maps (OpReturn q b p a) (view_of maps s)" using mp mq v shp by simp
  note o = page_op_refines [OF isolatedD(3) [OF i] ok op]
  from o(1) shp(1) new(2) v obtain ret where d2: "r1 = Done ph" "to_mapped shared a = Done ret"
    "view_of maps s1 = upd (upd (view_of maps s) q b L2Empty) p a ret"
    by (cases r1) (auto simp: op_result_def simp del: to_mapped.simps entry_phys.simps)
  have "ret = L2Mapped (page_desc a ph (effective_flags ph f) u)"
    using d2(2) to_mapped_parked [OF d(2) wf_effective_flags] by (simp add: sh)
  then have ret: "ret = e" by (simp add: page_desc_effective page_desc_user [OF up] d(1))
  note f = isoD(1,2) [OF isolatedD(4) [OF i], of q b j, unfolded v(2), OF new(1)]
  have own: "allocations (vm_frames s1) j = Some q" "\<not> table_frame maps s1 j"
    using op_keeps [OF o(1)] f unfolding keeps_def by (metis option.distinct(1))+
  obtain s' where s': "hand_over get q p (Done ph, s1) = (Done (), s')" "view_of maps s' = view_of maps s1"
    using accounts_hand_over [OF o(2) own b, of get p] by blast
  have run: "mm_unlend_page get mq b mp a s = (Done (), s')" using s'(1) by (simp add: mm_unlend_page_def r1 d2(1) pid)
  have "isolated maps s'" by (rule unlend_isolated [OF i mq mp _ _ run]) (use v new(3) shp(2) in simp_all)
  with run s'(2) d2(3) ret show ?thesis by metis
qed

section \<open>Lending a range\<close>

text \<open>The sender's side of a failed transfer: pages reserved on demand may have been backed.\<close>

definition backed :: "pid \<Rightarrow> usize \<Rightarrow> nat \<Rightarrow> view \<Rightarrow> view \<Rightarrow> bool" where
  "backed p src n v w \<longleftrightarrow> (\<forall>q b. w q b = v q b
     \<or> q = p \<and> (\<exists>k < n. b = page_at src k) \<and> is_on_demand (v q b) \<and> is_mapped (w q b))"

lemma backed_refl: "backed p src n v v"
  by (simp add: backed_def)

lemma source_backed:
  assumes "backed p src n v w" and "source_view F p (page_at src k) w w'" and "wf_view w" and "k < n"
  shows "backed p src n v w'" and "wf_view w'" and "w' p' b = w p' b \<or> (p', b) = (p, page_at src k)"
proof -
  have "wf_view w' \<and> (\<forall>p' b. w' p' b = w p' b \<or> (p', b) = (p, page_at src k) \<and> is_on_demand (w p' b) \<and> is_mapped (w' p' b))"
  proof (cases "w' = w")
    case False
    then have b: "backs F p (page_at src k) w w'" using assms(2) by (simp add: source_view_def)
    note c = backs_wf [OF assms(3) b]
    have o: "w' p' b = w p' b" if "(p', b) \<noteq> (p, page_at src k)" for p' b using b that by (auto simp: backs_def)
    show ?thesis
    proof (intro conjI allI)
      show "w' p' b = w p' b \<or> (p', b) = (p, page_at src k) \<and> is_on_demand (w p' b) \<and> is_mapped (w' p' b)" for p' b
        using c o [of p' b] by (cases "(p', b) = (p, page_at src k)") auto
    qed (use c in blast)
  qed (use assms(3) in simp)
  note c = this
  show "wf_view w'" using c by blast
  show "w' p' b = w p' b \<or> (p', b) = (p, page_at src k)" using c by blast
  show "backed p src n v w'"
    unfolding backed_def
  proof (intro allI)
    fix q b
    have "w q b = v q b \<or> q = p \<and> (\<exists>k < n. b = page_at src k) \<and> is_on_demand (v q b) \<and> is_mapped (w q b)"
      using assms(1) by (simp add: backed_def)
    moreover have "w' q b = w q b \<or> (q, b) = (p, page_at src k) \<and> is_on_demand (w q b) \<and> is_mapped (w' q b)" using c by blast
    moreover have "\<not> (is_on_demand (w q b) \<and> is_mapped (w q b))" by (cases "w q b") auto
    ultimately show "w' q b = v q b \<or> q = p \<and> (\<exists>k < n. b = page_at src k) \<and> is_on_demand (v q b) \<and> is_mapped (w' q b)"
      using assms(4) by auto
  qed
qed

text \<open>
  The state of the loop: \<open>w\<close> is what the processes would have without the transfer; the pages from
  \<open>i\<close> up to \<open>k\<close> are at the receiver.
\<close>

definition transferred ::
    "(l2_entry \<Rightarrow> l2_entry \<Rightarrow> l2_entry \<Rightarrow> bool) \<Rightarrow> pid \<Rightarrow> usize \<Rightarrow> pid \<Rightarrow> usize \<Rightarrow> nat \<Rightarrow> nat \<Rightarrow> view \<Rightarrow> view \<Rightarrow> bool" where
  "transferred R p src q dst i k w v \<longleftrightarrow>
     (\<forall>m. i \<le> m \<and> m < k \<longrightarrow> R (w p (page_at src m)) (v p (page_at src m)) (v q (page_at dst m))
        \<and> w q (page_at dst m) = L2Empty \<and> user_page (page_at src m))
     \<and> (\<forall>p' b. (\<forall>m. i \<le> m \<and> m < k \<longrightarrow> (p', b) \<noteq> (p, page_at src m) \<and> (p', b) \<noteq> (q, page_at dst m)) \<longrightarrow> v p' b = w p' b)"

lemma transferred_whole: "transferred R p src q dst k k w v \<longleftrightarrow> v = w"
proof -
  have c: "(k \<le> m \<and> m < k) = False" for m :: nat by auto
  show ?thesis unfolding transferred_def c by (auto simp: fun_eq_iff)
qed

lemma transferred_step:
  assumes t: "transferred R p src q dst 0 k w v" and k: "k < n" "n \<le> 2 ^ 20" and pq: "p \<noteq> q"
    and w': "\<And>p' b. w' p' b = w p' b \<or> (p', b) = (p, page_at src k)"
    and fr: "v q (page_at dst k) = L2Empty" and R: "R (w' p (page_at src k)) e1 e2" "user_page (page_at src k)"
    and v': "v' = upd (upd v1 p (page_at src k) e1) q (page_at dst k) e2"
    and v1: "\<And>p' b. v1 p' b = v p' b \<or> (p', b) = (p, page_at src k)"
  shows "transferred R p src q dst 0 (Suc k) w' v'"
proof -
  have ne: "page_at src m \<noteq> page_at src k" "page_at dst m \<noteq> page_at dst k" if "m < k" for m
    using page_at_inj [of _ m k] that k by fastforce+
  have old: "R (w p (page_at src m)) (v p (page_at src m)) (v q (page_at dst m)) \<and> w q (page_at dst m) = L2Empty
      \<and> user_page (page_at src m)" if "m < k" for m
    using t that by (simp add: transferred_def)
  have rest: "v p' b = w p' b" if "\<And>m. m < k \<Longrightarrow> (p', b) \<noteq> (p, page_at src m) \<and> (p', b) \<noteq> (q, page_at dst m)" for p' b
    using t that unfolding transferred_def by blast
  have wq: "w q (page_at dst k) = L2Empty"
    using rest [of q "page_at dst k"] ne(2) pq fr by fastforce
  show ?thesis
    unfolding transferred_def
  proof (rule conjI; intro allI impI)
    fix m
    assume m: "0 \<le> m \<and> m < Suc k"
    have A: "w' q (page_at dst m) = w q (page_at dst m)" using w' [of q "page_at dst m"] pq by auto
    show "R (w' p (page_at src m)) (v' p (page_at src m)) (v' q (page_at dst m))
        \<and> w' q (page_at dst m) = L2Empty \<and> user_page (page_at src m)"
    proof (cases "m = k")
      case True
      then show ?thesis using R wq A pq by (simp add: v')
    next
      case False
      then have mk: "m < k" using m by simp
      have "w' p (page_at src m) = w p (page_at src m)" using w' [of p "page_at src m"] ne [OF mk] by auto
      moreover have "v' p (page_at src m) = v p (page_at src m)" using v1 [of p "page_at src m"] ne [OF mk] pq by (auto simp: v')
      moreover have "v' q (page_at dst m) = v q (page_at dst m)" using v1 [of q "page_at dst m"] ne [OF mk] pq by (auto simp: v')
      ultimately show ?thesis using old [OF mk] A by simp
    qed
  next
    fix p' b
    assume a: "\<forall>m. 0 \<le> m \<and> m < Suc k \<longrightarrow> (p', b) \<noteq> (p, page_at src m) \<and> (p', b) \<noteq> (q, page_at dst m)"
    then have nk: "(p', b) \<noteq> (p, page_at src k)" "(p', b) \<noteq> (q, page_at dst k)" by auto
    have "v p' b = w p' b" by (rule rest) (use a in auto)
    then show "v' p' b = w' p' b" using nk w' [of p' b] v1 [of p' b] by (auto simp: v')
  qed
qed

lemma transferred_undo:
  assumes t: "transferred R p src q dst i k w v" and i: "i < k" "k \<le> 2 ^ 20" and pq: "p \<noteq> q"
  shows "transferred R p src q dst (Suc i) k w (upd (upd v q (page_at dst i) L2Empty) p (page_at src i) (w p (page_at src i)))"
proof -
  have ne: "page_at src m \<noteq> page_at src i" "page_at dst m \<noteq> page_at dst i" if "Suc i \<le> m" "m < k" for m
    using page_at_inj [of _ m i] that i by fastforce+
  have wi: "w q (page_at dst i) = L2Empty" using t i by (simp add: transferred_def)
  show ?thesis
    unfolding transferred_def
  proof (rule conjI; intro allI impI)
    fix m
    assume m: "Suc i \<le> m \<and> m < k"
    then have "R (w p (page_at src m)) (v p (page_at src m)) (v q (page_at dst m)) \<and> w q (page_at dst m) = L2Empty
        \<and> user_page (page_at src m)" using t by (simp add: transferred_def)
    with ne [of m] m pq show "R (w p (page_at src m))
        (upd (upd v q (page_at dst i) L2Empty) p (page_at src i) (w p (page_at src i)) p (page_at src m))
        (upd (upd v q (page_at dst i) L2Empty) p (page_at src i) (w p (page_at src i)) q (page_at dst m))
        \<and> w q (page_at dst m) = L2Empty \<and> user_page (page_at src m)" by simp
  next
    fix p' b
    assume a: "\<forall>m. Suc i \<le> m \<and> m < k \<longrightarrow> (p', b) \<noteq> (p, page_at src m) \<and> (p', b) \<noteq> (q, page_at dst m)"
    consider "(p', b) = (p, page_at src i)" | "(p', b) = (q, page_at dst i)" | "(p', b) \<noteq> (p, page_at src i)" "(p', b) \<noteq> (q, page_at dst i)" by blast
    then show "upd (upd v q (page_at dst i) L2Empty) p (page_at src i) (w p (page_at src i)) p' b = w p' b"
    proof cases
      case 3
      have "\<forall>m. i \<le> m \<and> m < k \<longrightarrow> (p', b) \<noteq> (p, page_at src m) \<and> (p', b) \<noteq> (q, page_at dst m)"
        using a 3 by (metis Suc_leI le_neq_implies_less)
      then have "v p' b = w p' b" using t unfolding transferred_def by blast
      with 3 show ?thesis by auto
    qed (use wi pq in auto)
  qed
qed


text \<open>The loop of \<open>lend_memory\<close> is a transaction.\<close>

definition range_setting ::
    "spaces \<Rightarrow> pid \<Rightarrow> mapping \<Rightarrow> usize \<Rightarrow> pid \<Rightarrow> mapping \<Rightarrow> nat \<Rightarrow> view \<Rightarrow> view \<Rightarrow> bool" where
  "range_setting maps p mp src q mq n v0 w \<longleftrightarrow> maps p = Some mp \<and> maps q = Some mq \<and> p \<noteq> q \<and> n \<le> 2 ^ 20
     \<and> backed p src n v0 w \<and> wf_view w \<and> (\<forall>m < n. ram_entry (w p (page_at src m)))"

definition transferring ::
    "(l2_entry \<Rightarrow> l2_entry \<Rightarrow> l2_entry \<Rightarrow> bool) \<Rightarrow> spaces \<Rightarrow> pid \<Rightarrow> mapping \<Rightarrow> usize \<Rightarrow> pid \<Rightarrow> mapping \<Rightarrow> usize \<Rightarrow> nat \<Rightarrow> view \<Rightarrow> nat \<Rightarrow> nat \<Rightarrow> vm \<Rightarrow> bool" where
  "transferring R maps p mp src q mq dst n v0 i k s \<longleftrightarrow> isolated maps s
     \<and> (\<exists>w. range_setting maps p mp src q mq n v0 w \<and> transferred R p src q dst i k w (view_of maps s))"

lemma source_view_elsewhere: "source_view F p a v w \<Longrightarrow> w p' b = v p' b \<or> (p', b) = (p, a)"
  by (cases "(p', b) = (p, a)") (auto simp: source_view_def backs_def)

lemma source_ram:
  assumes "source_view F p a v w" and "ram_entry (v p a)"
  shows "ram_entry (w p a)"
  using assms page_desc_frame by (fastforce simp: source_view_def backs_def ram_entry_def)

lemma view_user_page:
  assumes "good_spaces maps s" and "view_of maps s p a \<noteq> L2Empty"
  shows "user_page a"
proof -
  from assms(2) obtain mp where mp: "maps p = Some mp" by (auto simp: view_of_def split: option.splits)
  obtain t G where r: "space_rel s mp t G" using assms(1) mp wf_vm_space unfolding good_spaces_def by metis
  from assms(2) obtain sl where "get_l2_slot mp a s = Done sl"
    by (auto simp: view_of_def mp lookup_def split: outcome.splits)
  from get_l2_slot_Done [OF r this] show ?thesis by metis
qed

text \<open>A page that is transferred next is still the sender's.\<close>

lemma next_page:
  assumes t: "transferred R p src q dst 0 k w v" and k: "k < n" "n \<le> 2 ^ 20" and pq: "p \<noteq> q"
  shows "v p (page_at src k) = w p (page_at src k)"
proof -
  have "(p, page_at src k) \<noteq> (p, page_at src m) \<and> (p, page_at src k) \<noteq> (q, page_at dst m)" if "m < k" for m
    using page_at_inj [of src k m] that k pq by auto
  then show ?thesis using t unfolding transferred_def by blast
qed

lemma setting_step:
  assumes "range_setting maps p mp src q mq n v0 w" and "source_view F p (page_at src k) v v1" and "k < n"
    and "v p (page_at src k) = w p (page_at src k)"
  shows "range_setting maps p mp src q mq n v0 (upd w p (page_at src k) (v1 p (page_at src k)))"
proof -
  let ?a = "page_at src k" and ?w = "upd w p (page_at src k) (v1 p (page_at src k))"
  note r = assms(1) [unfolded range_setting_def]
  have sv: "source_view F p ?a w ?w"
  proof (cases "v1 = v")
    case True
    with assms(4) show ?thesis by (simp add: source_view_def)
  next
    case False
    with assms(2) have "backs F p ?a v v1" by (simp add: source_view_def)
    then obtain i phys f u where "user_page ?a" "wf_flags f" "is_set f MF_W" "v p ?a = L2Unmapped (parked 0 f u)"
      "bus_view i phys" "(i, phys) \<in> F" "v1 = upd v p ?a (L2Mapped (page_desc ?a phys f u))" unfolding backs_def by blast
    moreover from this have "?w = upd w p ?a (L2Mapped (page_desc ?a phys f u))" by simp
    ultimately have "backs F p ?a w ?w" using assms(4) unfolding backs_def by metis
    then show ?thesis by (simp add: source_view_def)
  qed
  have rw: "ram_entry (w p ?a)" using r assms(3) by blast
  have "ram_entry (?w p (page_at src m))" if "m < n" for m
    using r that source_ram [OF sv rw] by auto
  moreover have "backed p src n v0 w" "wf_view w" using r by blast+
  note source_backed(1,2) [OF this(1) sv this(2) assms(3)]
  ultimately show ?thesis using r unfolding range_setting_def by blast
qed

lemma transferring_next:
  assumes "transferring R maps p mp src q mq dst n v0 0 k s" and "k < n"
  shows "isolated maps s" and "maps p = Some mp" and "maps q = Some mq" and "ram_entry (view_of maps s p (page_at src k))"
proof -
  from assms(1) obtain w where i: "isolated maps s" and st: "range_setting maps p mp src q mq n v0 w"
    and t: "transferred R p src q dst 0 k w (view_of maps s)" unfolding transferring_def by blast
  show "isolated maps s" by (rule i)
  note r = st [unfolded range_setting_def]
  show "maps p = Some mp" "maps q = Some mq" using r by blast+
  have "p \<noteq> q" "n \<le> 2 ^ 20" using r by blast+
  from next_page [OF t assms(2) this(2,1)] r assms(2) show "ram_entry (view_of maps s p (page_at src k))" by metis
qed

text \<open>The next page is transferred, or the step fails and at most backed the source.\<close>

lemma transferring_step:
  assumes t: "transferring R maps p mp src q mq dst n v0 0 k s" and k: "k < n"
    and step: "isolated maps s' \<and> (\<exists>F w. source_view F p (page_at src k) (view_of maps s) w \<and>
        ((\<exists>e1 e2. r = Done () \<and> R (w p (page_at src k)) e1 e2 \<and> w p (page_at src k) \<noteq> L2Empty
            \<and> free_at (view_of maps s) q (page_at dst k)
            \<and> view_of maps s' = upd (upd w p (page_at src k) e1) q (page_at dst k) e2)
          \<or> (\<exists>e. r = Fail e \<and> view_of maps s' = w)))"
  shows "(r = Done () \<and> transferring R maps p mp src q mq dst n v0 0 (Suc k) s')
    \<or> (\<exists>e. r = Fail e \<and> transferring R maps p mp src q mq dst n v0 0 k s')"
proof -
  let ?a = "page_at src k" and ?b = "page_at dst k" and ?v = "view_of maps s"
  from t obtain w where i: "isolated maps s" and st: "range_setting maps p mp src q mq n v0 w"
    and t: "transferred R p src q dst 0 k w ?v" unfolding transferring_def by blast
  note r = st [unfolded range_setting_def]
  have pq: "p \<noteq> q" "n \<le> 2 ^ 20" using r by blast+
  have eq: "?v p ?a = w p ?a" by (rule next_page [OF t k pq(2,1)])
  from step obtain F v1 where iso': "isolated maps s'" and sv: "source_view F p ?a ?v v1" and
    o: "(\<exists>e1 e2. r = Done () \<and> R (v1 p ?a) e1 e2 \<and> v1 p ?a \<noteq> L2Empty \<and> free_at ?v q ?b
        \<and> view_of maps s' = upd (upd v1 p ?a e1) q ?b e2)
      \<or> (\<exists>e. r = Fail e \<and> view_of maps s' = v1)" by blast
  let ?w = "upd w p ?a (v1 p ?a)"
  note st' = setting_step [OF st sv k eq]
  have v1: "v1 p' b = ?v p' b \<or> (p', b) = (p, ?a)" for p' b by (rule source_view_elsewhere [OF sv])
  from o show ?thesis
  proof (elim disjE exE conjE)
    fix e1 e2
    assume d: "r = Done ()" "R (v1 p ?a) e1 e2" "v1 p ?a \<noteq> L2Empty" "free_at ?v q ?b"
      "view_of maps s' = upd (upd v1 p ?a e1) q ?b e2"
    have "?v p ?a \<noteq> L2Empty" using sv d(3) by (auto simp: source_view_def backs_def)
    then have up: "user_page ?a" by (rule view_user_page [OF isolatedD(3) [OF i]])
    have "transferred R p src q dst 0 (Suc k) ?w (view_of maps s')"
      by (rule transferred_step [OF t k pq(2,1) _ _ _ up d(5) v1]) (use d(2,4) in \<open>auto simp: free_at_def\<close>)
    with d(1) iso' st' show ?thesis unfolding transferring_def by blast
  next
    fix e
    assume e: "r = Fail e" "view_of maps s' = v1"
    have "transferred R p src q dst 0 k ?w v1"
    proof -
      have "page_at src m \<noteq> ?a" if "m < k" for m using page_at_inj [of src m k] that k pq by auto
      then have "v1 p (page_at src m) = ?v p (page_at src m)" "v1 q (page_at dst m) = ?v q (page_at dst m)"
        "?w p (page_at src m) = w p (page_at src m)" "?w q (page_at dst m) = w q (page_at dst m)" if "m < k" for m
        using that v1 [of p "page_at src m"] v1 [of q "page_at dst m"] pq by auto
      with t v1 show ?thesis unfolding transferred_def by (auto; metis prod.inject)
    qed
    with e iso' st' show ?thesis unfolding transferring_def by blast
  qed
qed

text \<open>What the way back has to know of a page, and what it has to do.\<close>

lemma transferring_undo:
  assumes t: "transferring R maps p mp src q mq dst n v0 i k s" and i: "i < k" "k \<le> n"
    and step: "\<And>e. maps p = Some mp \<Longrightarrow> maps q = Some mq \<Longrightarrow> p \<noteq> q \<Longrightarrow> user_page (page_at src i) \<Longrightarrow> wf_entry e \<Longrightarrow> isolated maps s
      \<Longrightarrow> R e (view_of maps s p (page_at src i)) (view_of maps s q (page_at dst i))
      \<Longrightarrow> \<exists>s'. f s = (Done (), s') \<and> isolated maps s'
        \<and> view_of maps s' = upd (upd (view_of maps s) q (page_at dst i) L2Empty) p (page_at src i) e \<and> P s'"
  shows "\<exists>s'. f s = (Done (), s') \<and> transferring R maps p mp src q mq dst n v0 (Suc i) k s' \<and> P s'"
proof -
  let ?a = "page_at src i" and ?b = "page_at dst i" and ?v = "view_of maps s"
  from t obtain w where iso0: "isolated maps s" and st: "range_setting maps p mp src q mq n v0 w"
    and t: "transferred R p src q dst i k w ?v" unfolding transferring_def by blast
  note r = st [unfolded range_setting_def]
  have mp: "maps p = Some mp" "maps q = Some mq" and pq: "p \<noteq> q" "n \<le> 2 ^ 20" and ww: "wf_view w" using r by blast+
  have e: "R (w p ?a) (?v p ?a) (?v q ?b)" "user_page ?a" using t i(1) unfolding transferred_def by auto
  from step [OF mp pq(1) e(2) wf_view_at [OF ww] iso0 e(1)] obtain s' where
    s': "f s = (Done (), s')" "isolated maps s'" "view_of maps s' = upd (upd ?v q ?b L2Empty) p ?a (w p ?a)" "P s'" by blast
  have "k \<le> 2 ^ 20" using i(2) pq(2) by simp
  note u = transferred_undo [OF t i(1) this pq(1), folded s'(3)]
  with s'(1,2,4) st show ?thesis unfolding transferring_def by blast
qed

lemma lending_step:
  assumes "transferring (lent_entries mutable) maps p mp src q mq dst n v0 0 k s" and "k < n"
    and "mm_lend_page get mp (page_at src k) mq (page_at dst k) mutable s = (r, s')"
  shows "(r = Done () \<and> transferring (lent_entries mutable) maps p mp src q mq dst n v0 0 (Suc k) s')
    \<or> (\<exists>e. r = Fail e \<and> transferring (lent_entries mutable) maps p mp src q mq dst n v0 0 k s')"
proof (rule transferring_step [OF assms(1,2)])
  have ne: "e \<noteq> L2Empty" if "lent_entries mutable e e1 e2" for e e1 e2
    using that by (auto simp: lent_entries_def)
  show "isolated maps s' \<and> (\<exists>F w. source_view F p (page_at src k) (view_of maps s) w \<and>
        ((\<exists>e1 e2. r = Done () \<and> lent_entries mutable (w p (page_at src k)) e1 e2 \<and> w p (page_at src k) \<noteq> L2Empty
            \<and> free_at (view_of maps s) q (page_at dst k)
            \<and> view_of maps s' = upd (upd w p (page_at src k) e1) q (page_at dst k) e2)
          \<or> (\<exists>e. r = Fail e \<and> view_of maps s' = w)))"
    using lend_step [OF transferring_next [OF assms(1,2)] assms(3)] ne by blast
qed

lemma lending_undo:
  assumes "transferring (lent_entries mutable) maps p mp src q mq dst n v0 i k s" and "i < k" "k \<le> n"
  shows "\<exists>s'. mm_unlend_page get mq (page_at dst i) mp (page_at src i) s = (Done (), s')
    \<and> transferring (lent_entries mutable) maps p mp src q mq dst n v0 (Suc i) k s'"
  using transferring_undo [OF assms, where P = "\<lambda>_. True" and f = "mm_unlend_page get mq (page_at dst i) mp (page_at src i)"]
    unlend_step [OF _ _ _ _ _ _ _ refl refl] by blast

interpretation lend: transaction
  "\<lambda>k. mm_lend_page get mp (page_at src k) mq (page_at dst k) mutable"
  "\<lambda>k. mm_unlend_page get mq (page_at dst k) mp (page_at src k)"
  "transferring (lent_entries mutable) maps p mp src q mq dst n v0" n
  for get mp src mq dst mutable maps p q n v0
  by unfold_locales (rule lending_step lending_undo; assumption)+

section \<open>Moving a range\<close>

definition moved_entries :: "l2_entry \<Rightarrow> l2_entry \<Rightarrow> l2_entry \<Rightarrow> bool" where
  "moved_entries e e1 e2 \<longleftrightarrow> is_mapped e \<and> is_user_accessible e \<and> (\<exists>j. maps_frame e j) \<and> e1 = L2Empty \<and> e2 = e"

lemma source_accessible:
  assumes "source_view F p a v w" and "is_user_accessible (v p a)"
  shows "is_user_accessible (w p a)"
proof (cases "w = v")
  case False
  then obtain i phys f u where d: "wf_flags f" "v p a = L2Unmapped (parked 0 f u)" "bus_view i phys"
    "w = upd v p a (L2Mapped (page_desc a phys f u))" using assms(1) unfolding source_view_def backs_def by blast
  have "u" using assms(2) d(1,2) parked_fields(3) [of 0 f u] by simp
  then have "is_user_accessible (L2Mapped (page_desc a phys f u))" using user_page_desc [OF bus_view_page(1) [OF d(3)]] by blast
  then show ?thesis by (simp only: d(4) upd_apply) simp
qed (use assms(2) in simp)

lemma move_step:
  assumes i: "isolated maps s" and mp: "maps p = Some mp" and mq: "maps q = Some mq"
    and ram: "ram_entry (view_of maps s p a)" and run: "mm_move_page get mp a mq b s = (r, s')"
  shows "isolated maps s' \<and> (\<forall>c sl. get_l2_slot mp c s = Done sl \<longrightarrow> get_l2_slot mp c s' = Done sl)
    \<and> (\<exists>F w. source_view F p a (view_of maps s) w \<and>
      ((r = Done () \<and> moved_entries (w p a) L2Empty (w p a) \<and> free_at (view_of maps s) q b
          \<and> view_of maps s' = upd (upd w p a L2Empty) q b (w p a))
        \<or> (\<exists>e. r = Fail e \<and> view_of maps s' = w)))"
proof -
  have pid: "map_pid mp = p" "map_pid mq = q" using isolatedD(1) [OF i] mp mq by (auto simp: wf_vm_def)
  obtain r1 s1 where r1: "space_move_page mp a mq b s = (r1, s1)" by fastforce
  then have op: "run_op maps (OpMove p a q b) s = (r1, s1)" using mp mq by (simp add: in_space_def)
  have "valid_op maps (OpMove p a q b) (view_of maps s)" using mp mq by simp
  note o = page_op_refines [OF isolatedD(3) [OF i] this op]
  from o(1) [unfolded op_result_def page_spec.simps giver.simps, THEN conjunct2] obtain w where
    w: "source_view (new_frames maps p s s1) p a (view_of maps s) w" "case r1 of
          Done phys \<Rightarrow> is_mapped (w p a) \<and> entry_phys (w p a) = Done phys \<and> giveable (view_of maps s p a)
            \<and> free_at (view_of maps s) q b
            \<and> view_of maps s1 = upd (upd w p a L2Empty) q b (w p a)
        | Fail err \<Rightarrow> view_of maps s1 = w \<and> (err = OutOfMemory \<or> \<not> giveable (view_of maps s p a) \<or> \<not> free_at (view_of maps s) q b)
        | Panic \<Rightarrow> False"
    by blast
  note iso' = move_isolated [OF i mp mq run]
  show ?thesis
  proof (cases r1)
    case (Done phys)
    with w(2) have d: "is_mapped (w p a)" "entry_phys (w p a) = Done phys" "giveable (view_of maps s p a)"
      "free_at (view_of maps s) q b" "view_of maps s1 = upd (upd w p a L2Empty) q b (w p a)" by simp_all
    from give_step [OF i ram op_keeps [OF o(1)] o(2) w(1) d(1,2), of get q] obtain j s2 where
      j: "maps_frame (w p a) j" "hand_over get p q (Done phys, s1) = (Done (), s2)" "view_of maps s2 = view_of maps s1"
        "\<And>c sl. get_l2_slot mp c s = Done sl \<Longrightarrow> get_l2_slot mp c s2 = Done sl" using mp by metis
    have s2: "r = Done ()" "s' = s2" using j(2) run r1 Done pid by (simp_all add: mm_move_page_def)
    have "is_user_accessible (w p a)" using source_accessible [OF w(1)] d(3) by (simp add: giveable_def)
    then have "moved_entries (w p a) L2Empty (w p a)" using d(1) j(1) unfolding moved_entries_def by blast
    then have "r = Done () \<and> moved_entries (w p a) L2Empty (w p a) \<and> free_at (view_of maps s) q b
          \<and> view_of maps s' = upd (upd w p a L2Empty) q b (w p a)" using s2 j(3) d(4,5) by simp
    moreover have "\<forall>c sl. get_l2_slot mp c s = Done sl \<longrightarrow> get_l2_slot mp c s' = Done sl" using j(4) s2(2) by blast
    ultimately show ?thesis using iso' w(1) by blast
  next
    case (Fail e)
    with run r1 w(2) have "r = Fail e" "view_of maps s' = w" "s' = s1"
      by (simp_all add: mm_move_page_def hand_over_def seq_simps_pair)
    with iso' w(1) keepsD(2) [OF op_keeps [OF o(1)] mp] show ?thesis by blast
  qed (use w(2) in simp)
qed

text \<open>A page that came with a transfer moves back: its table is still there, so nothing can fail.\<close>

lemma move_back:
  assumes i: "isolated maps s" and mp: "maps p = Some mp" and mq: "maps q = Some mq"
    and e: "moved_entries e L2Empty e" and v: "view_of maps s p a = L2Empty" "view_of maps s q b = e"
    and sl: "get_l2_slot mp a s = Done sl"
  shows "\<exists>s'. mm_move_page get mq b mp a s = (Done (), s') \<and> isolated maps s'
    \<and> view_of maps s' = upd (upd (view_of maps s) q b L2Empty) p a e
    \<and> (\<forall>c sl. get_l2_slot mp c s = Done sl \<longrightarrow> get_l2_slot mp c s' = Done sl)"
proof -
  have pid: "map_pid mp = p" "map_pid mq = q" using isolatedD(1) [OF i] mp mq by (auto simp: wf_vm_def)
  note m = e [unfolded moved_entries_def]
  have nd: "\<not> is_on_demand e" "e \<noteq> L2Empty" using m by (cases e; simp)+
  have we: "wf_entry e" using wf_view_at [OF isolatedD(2) [OF i], of q b] v(2) by simp
  obtain ph where ph: "entry_phys e = Done ph" using mapped_phys [OF we] m by blast
  obtain dl where dl: "get_l2_slot mq b s = Done dl"
    using v(2) nd(2) mq by (cases "get_l2_slot mq b s") (auto simp: view_of_def lookup_def)
  have "slot_read dl s = e" using v(2) mq lookup_slot [OF dl] by (simp add: view_of_def)
  then have src: "source_entry mq b s = (Done (dl, e), s)"
    using dl m nd(1) by (simp add: source_entry_def seq_simps_pair Let_def)
  obtain t G where rel: "space_rel s mp t G" using isolatedD(1) [OF i] mp wf_vm_space by metis
  from get_l2_slot_Done [OF rel sl] obtain k where k: "user_page a" "G (group_of a) = Some k" by metis
  have al: "\<exists>sl. allocate_l2_slot mp a s = (Done sl, s)"
    using allocate_l2_slot_existing(2) [OF rel k] v(1) mp by (simp add: view_of_def)
  then obtain s1 where r1: "space_move_page mq b mp a s = (Done ph, s1)"
    using src m ph by (auto simp: space_move_page_def seq_simps_pair)
  then have op: "run_op maps (OpMove q b p a) s = (Done ph, s1)" using mp mq by (simp add: in_space_def)
  have "valid_op maps (OpMove q b p a) (view_of maps s)" using mp mq by simp
  note o = page_op_refines [OF isolatedD(3) [OF i] this op]
  from o(1) [unfolded op_result_def page_spec.simps giver.simps, THEN conjunct2] obtain w where
    w: "source_view (new_frames maps q s s1) q b (view_of maps s) w" "is_mapped (w q b)" "entry_phys (w q b) = Done ph"
      "view_of maps s1 = upd (upd w q b L2Empty) p a (w q b)" by (auto simp del: entry_phys.simps)
  have wv: "w = view_of maps s" using w(1) v(2) m by (auto simp: source_view_def backs_def)
  have "ram_entry (view_of maps s q b)" using m v(2) by (simp add: ram_entry_def)
  from give_step [OF i this op_keeps [OF o(1)] o(2) w(1-3), of get p] obtain s' where
    s': "hand_over get q p (Done ph, s1) = (Done (), s')" "view_of maps s' = view_of maps s1"
      "\<And>c sl. get_l2_slot mp c s = Done sl \<Longrightarrow> get_l2_slot mp c s' = Done sl" using mp by metis
  have run: "mm_move_page get mq b mp a s = (Done (), s')" using s'(1) pid by (simp add: mm_move_page_def r1)
  have "view_of maps s' = upd (upd (view_of maps s) q b L2Empty) p a e" using s'(2) w(4) v(2) by (simp add: wv)
  with run move_isolated [OF i mq mp run] s'(3) show ?thesis by blast
qed

text \<open>On the way the sender's tables for the pages stay.\<close>

definition tables_left :: "mapping \<Rightarrow> usize \<Rightarrow> nat \<Rightarrow> nat \<Rightarrow> vm \<Rightarrow> bool" where
  "tables_left mp src i k s \<longleftrightarrow> (\<forall>m. i \<le> m \<and> m < k \<longrightarrow> (\<exists>sl. get_l2_slot mp (page_at src m) s = Done sl))"

definition moving ::
    "spaces \<Rightarrow> pid \<Rightarrow> mapping \<Rightarrow> usize \<Rightarrow> pid \<Rightarrow> mapping \<Rightarrow> usize \<Rightarrow> nat \<Rightarrow> view \<Rightarrow> nat \<Rightarrow> nat \<Rightarrow> vm \<Rightarrow> bool" where
  "moving maps p mp src q mq dst n v0 i k s \<longleftrightarrow>
     transferring moved_entries maps p mp src q mq dst n v0 i k s \<and> tables_left mp src i k s"

lemma tables_left_mono:
  "tables_left mp src i k s \<Longrightarrow> (\<And>c sl. get_l2_slot mp c s = Done sl \<Longrightarrow> get_l2_slot mp c s' = Done sl) \<Longrightarrow> tables_left mp src i k s'"
  unfolding tables_left_def by blast

lemma moving_step:
  assumes m: "moving maps p mp src q mq dst n v0 0 k s" and k: "k < n"
    and run: "mm_move_page get mp (page_at src k) mq (page_at dst k) s = (r, s')"
  shows "(r = Done () \<and> moving maps p mp src q mq dst n v0 0 (Suc k) s')
    \<or> (\<exists>e. r = Fail e \<and> moving maps p mp src q mq dst n v0 0 k s')"
proof -
  have t: "transferring moved_entries maps p mp src q mq dst n v0 0 k s" and tl: "tables_left mp src 0 k s"
    using m by (simp_all add: moving_def)
  note st = move_step [OF transferring_next [OF t k] run]
  have ne: "e \<noteq> L2Empty" if "moved_entries e e1 e2" for e e1 e2
    using that by (auto simp: moved_entries_def)
  have "(r = Done () \<and> transferring moved_entries maps p mp src q mq dst n v0 0 (Suc k) s')
    \<or> (\<exists>e. r = Fail e \<and> transferring moved_entries maps p mp src q mq dst n v0 0 k s')"
    by (rule transferring_step [OF t k]) (use st ne in blast)
  moreover have kept: "tables_left mp src 0 k s'" by (rule tables_left_mono [OF tl]) (use st in blast)
  moreover have "tables_left mp src 0 (Suc k) s'" if "r = Done ()"
  proof -
    from st that obtain F w where sv: "source_view F p (page_at src k) (view_of maps s) w"
      and m: "moved_entries (w p (page_at src k)) L2Empty (w p (page_at src k))" by blast
    have "view_of maps s p (page_at src k) \<noteq> L2Empty" using sv ne [OF m] by (auto simp: source_view_def backs_def)
    then have "\<exists>sl. get_l2_slot mp (page_at src k) s = Done sl" using transferring_next(2) [OF t k]
      by (cases "get_l2_slot mp (page_at src k) s") (auto simp: view_of_def lookup_def)
    then have "\<exists>sl. get_l2_slot mp (page_at src k) s' = Done sl" using st by blast
    with kept show ?thesis unfolding tables_left_def by (metis less_Suc_eq)
  qed
  ultimately show ?thesis by (auto simp: moving_def)
qed

lemma moving_undo:
  assumes m: "moving maps p mp src q mq dst n v0 i k s" and k: "i < k" "k \<le> n"
  shows "\<exists>s'. mm_move_page get mq (page_at dst i) mp (page_at src i) s = (Done (), s')
    \<and> moving maps p mp src q mq dst n v0 (Suc i) k s'"
proof -
  have t: "transferring moved_entries maps p mp src q mq dst n v0 i k s" and tl: "tables_left mp src i k s"
    using m by (simp_all add: moving_def)
  obtain sl where sl: "get_l2_slot mp (page_at src i) s = Done sl" using tl k(1) unfolding tables_left_def by blast
  let ?P = "\<lambda>s'. \<forall>c sl. get_l2_slot mp c s = Done sl \<longrightarrow> get_l2_slot mp c s' = Done sl"
  have "\<exists>s'. mm_move_page get mq (page_at dst i) mp (page_at src i) s = (Done (), s')
    \<and> transferring moved_entries maps p mp src q mq dst n v0 (Suc i) k s' \<and> ?P s'"
  proof (rule transferring_undo [OF t k])
    fix e
    assume a: "maps p = Some mp" "maps q = Some mq" "p \<noteq> q" "isolated maps s"
      "moved_entries e (view_of maps s p (page_at src i)) (view_of maps s q (page_at dst i))"
    then have v: "view_of maps s p (page_at src i) = L2Empty" "view_of maps s q (page_at dst i) = e" "moved_entries e L2Empty e"
      by (auto simp: moved_entries_def)
    from move_back [OF a(4,1,2) v(3,1,2) sl, of get]
    show "\<exists>s'. mm_move_page get mq (page_at dst i) mp (page_at src i) s = (Done (), s') \<and> isolated maps s'
        \<and> view_of maps s' = upd (upd (view_of maps s) q (page_at dst i) L2Empty) p (page_at src i) e \<and> ?P s'" by blast
  qed
  then obtain s' where s': "mm_move_page get mq (page_at dst i) mp (page_at src i) s = (Done (), s')"
    "transferring moved_entries maps p mp src q mq dst n v0 (Suc i) k s'" "?P s'" by blast
  have "tables_left mp src i k s'" by (rule tables_left_mono [OF tl]) (use s'(3) in blast)
  then have "tables_left mp src (Suc i) k s'" by (simp add: tables_left_def)
  with s' show ?thesis unfolding moving_def by blast
qed

interpretation move: transaction
  "\<lambda>k. mm_move_page get mp (page_at src k) mq (page_at dst k)"
  "\<lambda>k. mm_move_page get mq (page_at dst k) mp (page_at src k)"
  "moving maps p mp src q mq dst n v0" n
  for get mp src mq dst maps p q n v0
  by unfold_locales (rule moving_step moving_undo; assumption)+

end
