(* ===== verification/Message_Memory.thy ===== *)
theory Message_Memory
  imports Range_Transfers
begin

unbundle bit_operations_syntax

text \<open>
  The memory of messages at the level of the kernel's services (\<open>send_memory\<close>, \<open>lend_memory\<close>,
  \<open>return_memory\<close> and \<open>clear_shared_range\<close> of \<open>xous/kernel/src/services.rs\<close>): the checks of the
  arguments, the two processes, the choice of addresses at the receiver and the loops over the
  pages. A range of RAM is lent or moved whole or not at all, and a lent range comes back as it was.
  The mirror of a range in another process (\<open>syscall.rs\<close>) is beside them.
\<close>

section \<open>The services' state\<close>

text \<open>
  The part of \<open>SystemServices\<close> and of the memory manager these functions use: the process table,
  each process with its mapping, the current process, and the memory. The address spaces of the
  theories below are those of the processes other than the kernel.
\<close>

record memory_services =
  mem_procs :: "pid \<Rightarrow> (process \<times> mapping) option"
  mem_current :: pid
  mem_vm :: vm

definition mem_process :: "memory_services \<Rightarrow> pid \<Rightarrow> (process \<times> mapping) res" where
  "mem_process m p =
     (case if 1 \<le> p \<and> p \<le> MAX_PROCESS_COUNT then mem_procs m p else None of
        None \<Rightarrow> Fail ProcessNotFound | Some x \<Rightarrow> Done x)"

definition mem_get :: "memory_services \<Rightarrow> pid \<Rightarrow> process option" where
  "mem_get m p = (case mem_process m p of Done (pr, _) \<Rightarrow> Some pr | _ \<Rightarrow> None)"

definition put_process :: "pid \<Rightarrow> process \<Rightarrow> memory_services \<Rightarrow> memory_services" where
  "put_process p pr m = m\<lparr>mem_procs := (mem_procs m)(p := map_option (\<lambda>(_, mp). (pr, mp)) (mem_procs m p))\<rparr>"

section \<open>Sending, lending and returning ranges\<close>

text \<open>The receiver's side: its process, and where the range goes.\<close>

definition receiver :: "pid \<Rightarrow> usize \<Rightarrow> usize \<Rightarrow> memory_services \<Rightarrow> (usize \<times> mapping) res \<times> memory_services" where
  "receiver q dst len m =
     seq (mem_process m q, m) (\<lambda>(pr, mq) m1.
       case find_virtual_address mq (mem_vm m1) dst len pr of
         (Done d, pr') \<Rightarrow> (Done (d, mq), put_process q pr' m1)
       | (Fail e, pr') \<Rightarrow> (Fail e, put_process q pr' m1)
       | (Panic, pr') \<Rightarrow> (Panic, put_process q pr' m1))"

text \<open>A loop over the pages, and the result when it is done.\<close>

definition on_vm :: "(vm \<Rightarrow> unit res \<times> vm) \<Rightarrow> 'a \<Rightarrow> memory_services \<Rightarrow> 'a res \<times> memory_services" where
  "on_vm f x m =
     (case f (mem_vm m) of
        (Done _, v) \<Rightarrow> (Done x, m\<lparr>mem_vm := v\<rparr>)
      | (Fail e, v) \<Rightarrow> (Fail e, m\<lparr>mem_vm := v\<rparr>)
      | (Panic, v) \<Rightarrow> (Panic, m\<lparr>mem_vm := v\<rparr>))"

definition out_of_area :: "usize \<Rightarrow> usize \<Rightarrow> bool" where
  "out_of_area a len \<longleftrightarrow> (case checked_add a len of None \<Rightarrow> True | Some stop \<Rightarrow> stop > USER_AREA_END)"

text \<open>The assertions on alignment hold for every page of the range if they do for the first.\<close>

definition send_memory :: "usize \<Rightarrow> pid \<Rightarrow> usize \<Rightarrow> usize \<Rightarrow> memory_services \<Rightarrow> usize res \<times> memory_services" where
  "send_memory src q dst len m =
     (if len = 0 \<or> len AND 0xfff \<noteq> 0 \<or> src AND 0xfff \<noteq> 0 \<or> dst AND 0xfff \<noteq> 0
        \<or> out_of_area src len \<or> out_of_area dst len then (Fail BadAddress, m)
      else if mem_current m = q then (Done src, m)
      else seq (mem_process m (mem_current m), m) (\<lambda>(_, mp) m1.
        seq (receiver q dst len m1) (\<lambda>(d, mq) m2.
          if d AND 0xfff \<noteq> 0 then (Panic, m2)
          else seq (on_vm (move_pages (mem_get m2) mp src mq d (unat len div 4096)) d m2) (\<lambda>d m3.
            seq (mem_process m3 (mem_current m3), m3) (\<lambda>(pr, _) m4.
              (Done d, put_process (mem_current m4) (release_allocation_hint src pr) m4))))))"

definition lend_memory :: "usize \<Rightarrow> pid \<Rightarrow> usize \<Rightarrow> usize \<Rightarrow> bool \<Rightarrow> memory_services \<Rightarrow> usize res \<times> memory_services" where
  "lend_memory src q dst len mutable m =
     (if len = 0 then (Fail BadAddress, m)
      else if len AND 0xfff \<noteq> 0 \<or> src AND 0xfff \<noteq> 0 \<or> dst AND 0xfff \<noteq> 0 then (Fail BadAlignment, m)
      else if mem_current m = q then
        seq (mem_process m q, m) (\<lambda>(_, mp). on_vm (back_pages mp src [0..<unat len div 4096]) src)
      else seq (mem_process m (mem_current m), m) (\<lambda>(_, mp) m1.
        seq (receiver q dst len m1) (\<lambda>(d, mq) m2.
          if d AND 0xfff \<noteq> 0 then (Panic, m2)
          else on_vm (lend_pages (mem_get m2) mp src mq d mutable (unat len div 4096)) d m2)))"

definition return_memory :: "usize \<Rightarrow> pid \<Rightarrow> usize \<Rightarrow> usize \<Rightarrow> memory_services \<Rightarrow> usize res \<times> memory_services" where
  "return_memory src q dst len m =
     (if len = 0 \<or> len AND 0xfff \<noteq> 0 \<or> src AND 0xfff \<noteq> 0 \<or> dst AND 0xfff \<noteq> 0 then (Fail BadAddress, m)
      else if mem_current m = q then (Done src, m)
      else seq (mem_process m (mem_current m), m) (\<lambda>(_, mp) m1.
        seq (mem_process m1 q, m1) (\<lambda>(_, mq) m2.
          on_vm (return_pages (mem_get m2) mp src mq dst [0..<unat len div 4096] (Done ())) dst m2)))"

definition clear_shared_range :: "pid \<Rightarrow> usize \<Rightarrow> usize \<Rightarrow> clear_shared_mode \<Rightarrow> memory_services \<Rightarrow> unit res \<times> memory_services" where
  "clear_shared_range p a len mode m =
     (case mem_process m p of
        Done (_, mp) \<Rightarrow> on_vm (clear_pages mp a mode [0..<(unat len + 4095) div 4096]) () m
      | _ \<Rightarrow> (Panic, m))"

text \<open>\<open>MirrorMemoryToPid\<close>: the caller's range is mapped read-only into process \<open>q\<close> as well.\<close>

definition mirror_memory_to_pid :: "usize \<Rightarrow> usize \<Rightarrow> pid \<Rightarrow> memory_services \<Rightarrow> memory_range res \<times> memory_services" where
  "mirror_memory_to_pid a len q m =
     seq (mem_process m (mem_current m), m) (\<lambda>(_, mp) m1.
       seq (virt_to_phys mp a (mem_vm m1), m1) (\<lambda>phys m2.
         seq (check_contiguous mp phys (addr_range a (a + len)) (mem_vm m2), m2) (\<lambda>_ m3.
           seq (mem_process m3 q, m3) (\<lambda>(pr, mq) m4.
             case map_range_readonly_mirror mq phys len pr (mem_vm m4) of
               (r, pr1, v) \<Rightarrow> (r, put_process q pr1 (m4\<lparr>mem_vm := v\<rparr>))))))"

section \<open>The services' invariant\<close>

definition user_spaces :: "memory_services \<Rightarrow> spaces" where
  "user_spaces m p = (if 2 \<le> p \<and> p \<le> MAX_PROCESS_COUNT then map_option snd (mem_procs m p) else None)"

definition mem_view :: "memory_services \<Rightarrow> view" where
  "mem_view m = view_of (user_spaces m) (mem_vm m)"

definition mem_ok :: "memory_services \<Rightarrow> bool" where
  "mem_ok m \<longleftrightarrow> isolated (user_spaces m) (mem_vm m)
     \<and> (\<forall>p x. mem_procs m p = Some x \<longrightarrow> hint_ok (fst x))"

lemma user_process:
  assumes "user_spaces m p = Some mp"
  obtains pr where "mem_process m p = Done (pr, mp)" "mem_procs m p = Some (pr, mp)"
  using assms by (auto simp: user_spaces_def mem_process_def split: if_splits)

lemma put_process_spaces [simp]: "user_spaces (put_process p pr m) = user_spaces m"
  by (auto simp: user_spaces_def put_process_def fun_eq_iff option.map_comp comp_def split_beta)

lemma put_process_fields [simp]: "mem_vm (put_process p pr m) = mem_vm m" "mem_current (put_process p pr m) = mem_current m"
  by (simp_all add: put_process_def)

lemma vm_spaces [simp]: "user_spaces (m\<lparr>mem_vm := v\<rparr>) = user_spaces m"
  by (simp add: user_spaces_def fun_eq_iff)

lemma put_process_ok: "mem_ok m \<Longrightarrow> hint_ok pr \<Longrightarrow> mem_ok (put_process p pr m)"
  by (auto simp: mem_ok_def) (auto simp: put_process_def split: if_splits)

lemma vm_ok: "mem_ok m \<Longrightarrow> isolated (user_spaces m) v \<Longrightarrow> mem_ok (m\<lparr>mem_vm := v\<rparr>)"
  by (auto simp: mem_ok_def)

lemma aligned_mod: "(a :: usize) AND 0xfff = 0 \<longleftrightarrow> unat a mod 4096 = 0"
proof -
  have "a AND 0xfff = take_bit 12 a" by (simp add: take_bit_eq_mask mask_eq_exp_minus_1)
  then have "unat (a AND 0xfff) = take_bit 12 (unat a)" by (simp only: unsigned_take_bit_eq)
  then have "unat (a AND 0xfff) = unat a mod 4096" by (simp add: take_bit_eq_mod)
  then show ?thesis by (metis unat_eq_zero unat_0)
qed

lemma pages_of: "len AND 0xfff = 0 \<Longrightarrow> unat (len :: usize) = unat len div 4096 * 4096"
  "len \<noteq> 0 \<Longrightarrow> len AND 0xfff = 0 \<Longrightarrow> 0 < unat len div 4096" "unat (len :: usize) div 4096 \<le> 2 ^ 20"
proof -
  show 1: "unat len = unat len div 4096 * 4096" if "len AND 0xfff = 0" using that div_mult_mod_eq [of "unat len" 4096] by (simp only: aligned_mod)
  show "0 < unat len div 4096" if "len \<noteq> 0" "len AND 0xfff = 0"
    using 1 [OF that(2)] that(1) by (metis gr0I mult_0 unat_eq_zero)
  show "unat len div 4096 \<le> 2 ^ 20" proof -
    have "unat len < 2 ^ LENGTH(32)" by (rule unsigned_less)
    then show ?thesis by simp
  qed
qed

lemma current_spaces [simp]: "user_spaces (m\<lparr>mem_current := q\<rparr>) = user_spaces m" "mem_ok (m\<lparr>mem_current := q\<rparr>) = mem_ok m"
proof -
  show u: "user_spaces (m\<lparr>mem_current := q\<rparr>) = user_spaces m" by (simp add: user_spaces_def fun_eq_iff)
  show "mem_ok (m\<lparr>mem_current := q\<rparr>) = mem_ok m" by (simp add: mem_ok_def u)
qed

text \<open>The receiver gets an aligned address, or nothing changes but the allocation hint.\<close>

lemma find_virtual_address_ok:
  assumes good: "good_spaces maps s" "maps q = Some mq" and hint: "hint_ok pr"
    and len: "len \<noteq> 0" "len AND 0xfff = 0" and dst: "dst AND 0xfff = 0"
  shows "\<exists>r pr'. find_virtual_address mq s dst len pr = (r, pr') \<and> hint_ok pr'
    \<and> ((\<exists>d. r = Done d \<and> d AND 0xfff = 0 \<and> d \<noteq> 0) \<or> (\<exists>e. r = Fail e))"
proof (cases "dst \<noteq> 0 \<or> unat len > area_end - area_start")
  case True
  then show ?thesis using hint dst by (auto simp: find_virtual_address_def)
next
  case False
  obtain t G where rel: "space_rel s mq t G" using good wf_vm_space unfolding good_spaces_def by metis
  let ?f = "free_page_at s mq" and ?h = "unat (allocation_hint pr)" and ?n = "unat len div 4096"
  let ?e = "min (min (?h + unat len) (2 ^ 32 - 1)) area_end"
  have n: "unat len = ?n * 4096" "0 < ?n" using pages_of len by blast+
  have h: "area_start \<le> ?h" "?h \<le> area_end" "?h mod 4096 = 0" using hint by (simp_all add: hint_ok_def)
  have am: "area_end mod 4096 = 0" "area_start mod 4096 = 0" "area_end \<le> 2 ^ 31" by (simp_all add: area)
  have e: "?e = min (?h + ?n * 4096) area_end" using n(1) by (simp add: area)
  have em: "?e mod 4096 = 0" unfolding e using am(1) h(3) by (auto simp: min_def)
  have s1: "find_free_run mq s ?h area_end ?n = Done (first_run ?f ?h area_end ?n)"
    by (rule find_free_run_first [OF rel h(3) am(1,3) n(2)])
  have s2: "find_free_run mq s area_start ?e ?n = Done (first_run ?f area_start ?e ?n)"
    by (rule find_free_run_first [OF rel am(2) em _ n(2)]) (use am(3) in simp)
  have found: "\<exists>r pr'. found_address a (unat len) pr = (r, pr') \<and> hint_ok pr'
      \<and> ((\<exists>d. r = Done d \<and> d AND 0xfff = 0 \<and> d \<noteq> 0) \<or> (\<exists>e. r = Fail e))" if fr: "free_range s mq a ?n" for a
  proof -
    obtain r pr' where f: "found_address a (?n * 4096) pr = (r, pr')" by fastforce
    note o = found_address_ok [OF fr n(2) hint f]
    have "a < 2 ^ 31" "a mod 4096 = 0" "0 < a" using fr n(2) am(3) by (auto simp: free_range_def run_at_def area)
    then have u: "unat (of_nat a :: usize) = a" using unat_small [of a] by simp
    have "(of_nat a :: usize) AND 0xfff = 0" using u \<open>a mod 4096 = 0\<close> by (simp add: aligned_mod)
    moreover have "(of_nat a :: usize) \<noteq> 0" using u \<open>0 < a\<close> by (metis less_irrefl unat_0)
    ultimately show ?thesis using f o n(1) by auto
  qed
  show ?thesis
  proof (cases "first_run ?f ?h area_end ?n")
    case (Some a)
    have "free_range s mq a ?n"
      using first_run_char(1) [OF h(3) am(1) n(2), THEN iffD1, OF Some] h(1) by (simp add: free_range_def)
    from found [OF this] s1 Some False show ?thesis by (simp add: find_virtual_address_def Let_def)
  next
    case None
    show ?thesis
    proof (cases "first_run ?f area_start ?e ?n")
      case (Some a)
      have "free_range s mq a ?n" using first_run_char(1) [OF am(2) em n(2), THEN iffD1, OF Some] run_at_mono [of ?f ?e ?n a area_end]
        by (simp add: free_range_def)
      from found [OF this] s1 s2 None Some False show ?thesis by (simp add: find_virtual_address_def Let_def)
    next
      case None2: None
      then show ?thesis using s1 s2 None False hint by (simp add: find_virtual_address_def Let_def)
    qed
  qed
qed

definition same_memory :: "memory_services \<Rightarrow> memory_services \<Rightarrow> bool" where
  "same_memory m m' \<longleftrightarrow> mem_vm m' = mem_vm m \<and> user_spaces m' = user_spaces m \<and> mem_current m' = mem_current m"

lemma same_memoryD: "same_memory m m' \<Longrightarrow> mem_vm m' = mem_vm m" "same_memory m m' \<Longrightarrow> user_spaces m' = user_spaces m"
  "same_memory m m' \<Longrightarrow> mem_current m' = mem_current m" "same_memory m m' \<Longrightarrow> mem_view m' = mem_view m"
  by (simp_all add: same_memory_def mem_view_def)

lemma receiver_cases:
  assumes ok: "mem_ok m" and q: "user_spaces m q = Some mq" and len: "len \<noteq> 0" "len AND 0xfff = 0" and dst: "dst AND 0xfff = 0"
    and call: "receiver q dst len m = (r, m')"
  obtains (fail) e where "r = Fail e" "mem_ok m'" "same_memory m m'"
    | (run) d where "r = Done (d, mq)" "d AND 0xfff = 0" "mem_ok m'" "same_memory m m'" "d \<noteq> 0"
proof -
  obtain pr where pr: "mem_process m q = Done (pr, mq)" "mem_procs m q = Some (pr, mq)" using q by (rule user_process)
  have "good_spaces (user_spaces m) (mem_vm m)" "hint_ok pr" using ok pr(2) unfolding mem_ok_def by (metis isolatedD(3), metis fst_conv)
  from find_virtual_address_ok [OF this(1) q this(2) len dst] obtain r1 pr1 where
    f: "find_virtual_address mq (mem_vm m) dst len pr = (r1, pr1)" "hint_ok pr1"
      "(\<exists>d. r1 = Done d \<and> d AND 0xfff = 0 \<and> d \<noteq> 0) \<or> (\<exists>e. r1 = Fail e)" by blast
  then have "same_memory m m' \<and> mem_ok m' \<and> ((\<exists>d. r = Done (d, mq) \<and> d AND 0xfff = 0 \<and> d \<noteq> 0) \<or> (\<exists>e. r = Fail e))"
    using call pr(1) put_process_ok [OF ok f(2), of q] by (auto simp: receiver_def seq_simps_pair same_memory_def)
  with that show thesis by blast
qed

section \<open>All or nothing\<close>

text \<open>
  What a transfer may do: everything arrives, every other entry is as before and only pages that
  were reserved on demand at the sender have been backed; or nothing has moved.
\<close>

definition transfer_result ::
    "(l2_entry \<Rightarrow> l2_entry \<Rightarrow> l2_entry \<Rightarrow> bool) \<Rightarrow> memory_services \<Rightarrow> usize \<Rightarrow> pid \<Rightarrow> nat \<Rightarrow> usize res \<Rightarrow> memory_services \<Rightarrow> bool" where
  "transfer_result R m src q n r m' \<longleftrightarrow> mem_ok m' \<and> user_spaces m' = user_spaces m \<and> mem_current m' = mem_current m
     \<and> (case r of
          Done d \<Rightarrow> \<exists>w. wf_view w \<and> backed (mem_current m) src n (mem_view m) w
            \<and> transferred R (mem_current m) src q d 0 n w (mem_view m')
        | Fail e \<Rightarrow> backed (mem_current m) src n (mem_view m) (mem_view m')
        | Panic \<Rightarrow> False)"

definition ram_range :: "memory_services \<Rightarrow> pid \<Rightarrow> usize \<Rightarrow> nat \<Rightarrow> bool" where
  "ram_range m p src n \<longleftrightarrow> (\<forall>k < n. ram_entry (mem_view m p (page_at src k)))"

lemma transfer_result_same:
  "same_memory m m1 \<Longrightarrow> transfer_result R m1 src q n r m' = transfer_result R m src q n r m'"
  unfolding transfer_result_def by (simp only: same_memoryD)

lemma refused: "mem_ok m' \<Longrightarrow> same_memory m m' \<Longrightarrow> transfer_result R m src q n (Fail e) m'"
  by (simp add: transfer_result_def backed_refl same_memoryD)

lemma transferring_start:
  assumes "isolated maps v" and "maps p = Some mp" and "maps q = Some mq" and "p \<noteq> q" and "n \<le> 2 ^ 20"
    and "\<forall>k < n. ram_entry (view_of maps v p (page_at src k))"
  shows "transferring R maps p mp src q mq dst n (view_of maps v) 0 0 v"
proof -
  have "range_setting maps p mp src q mq n (view_of maps v) (view_of maps v)"
    using assms isolatedD(2) [OF assms(1)] backed_refl unfolding range_setting_def by blast
  with assms(1) transferred_whole show ?thesis unfolding transferring_def by blast
qed

lemma transferring_done:
  assumes "transferring R maps p mp src q mq dst n v0 i k s"
  shows "isolated maps s" and "\<exists>w. wf_view w \<and> backed p src n v0 w \<and> transferred R p src q dst i k w (view_of maps s)"
    and "i = k \<Longrightarrow> backed p src n v0 (view_of maps s)"
  using assms transferred_whole unfolding transferring_def range_setting_def by metis+

text \<open>From the loop to the service.\<close>

lemma transfer_services:
  assumes ok: "mem_ok m" and n: "n = unat len div 4096" and f: "on_vm f d m = (r, m')" "\<And>r v. f (mem_vm m) = (r, v) \<Longrightarrow>
      (r = Done () \<and> transferring R (user_spaces m) (mem_current m) mp src q mq d n (mem_view m) 0 n v)
      \<or> (\<exists>e j. r = Fail e \<and> transferring R (user_spaces m) (mem_current m) mp src q mq d n (mem_view m) j j v)"
  shows "transfer_result R m src q n r m'"
proof -
  obtain r1 v where r1: "f (mem_vm m) = (r1, v)" by fastforce
  from f(2) [OF r1] show "transfer_result R m src q n r m'"
  proof (elim disjE exE conjE)
    assume d: "r1 = Done ()" "transferring R (user_spaces m) (mem_current m) mp src q mq d n (mem_view m) 0 n v"
    note t = transferring_done [OF d(2)]
    have "r = Done d" "m' = m\<lparr>mem_vm := v\<rparr>" using f(1) r1 d(1) by (simp_all add: on_vm_def)
    with t vm_ok [OF ok t(1)] show ?thesis by (simp add: transfer_result_def mem_view_def)
  next
    fix e j
    assume d: "r1 = Fail e" "transferring R (user_spaces m) (mem_current m) mp src q mq d n (mem_view m) j j v"
    note t = transferring_done [OF d(2)]
    have "r = Fail e" "m' = m\<lparr>mem_vm := v\<rparr>" using f(1) r1 d(1) by (simp_all add: on_vm_def)
    with t vm_ok [OF ok t(1)] show ?thesis by (simp add: transfer_result_def mem_view_def)
  qed
qed

lemma on_vm_value: "on_vm f d m = (Done x, m') \<Longrightarrow> x = d"
  by (auto simp: on_vm_def split: outcome.splits prod.splits)

text \<open>Who takes part, and what is given.\<close>

definition transfer_between :: "memory_services \<Rightarrow> mapping \<Rightarrow> pid \<Rightarrow> mapping \<Rightarrow> bool" where
  "transfer_between m mp q mq \<longleftrightarrow> mem_ok m \<and> user_spaces m (mem_current m) = Some mp
     \<and> user_spaces m q = Some mq \<and> mem_current m \<noteq> q"

lemma transfer_betweenD:
  assumes "transfer_between m mp q mq"
  shows "mem_ok m" "isolated (user_spaces m) (mem_vm m)" "user_spaces m (mem_current m) = Some mp" "user_spaces m q = Some mq" "mem_current m \<noteq> q"
  using assms by (simp_all add: transfer_between_def mem_ok_def)

lemma lend_memory_transfer:
  assumes between: "transfer_between m mp q mq" and ram: "ram_range m (mem_current m) src (unat len div 4096)"
    and run: "lend_memory src q dst len mutable m = (r, m')"
  shows "transfer_result (lent_entries mutable) m src q (unat len div 4096) r m' \<and> (\<forall>a. r = Done a \<longrightarrow> a \<noteq> 0)"
proof (cases "len = 0 \<or> len AND 0xfff \<noteq> 0 \<or> src AND 0xfff \<noteq> 0 \<or> dst AND 0xfff \<noteq> 0")
  case True
  with run have "m' = m \<and> (\<exists>e. r = Fail e)" by (auto simp: lend_memory_def split: if_splits)
  with refused [of m m] transfer_betweenD(1) [OF between] same_memory_def show ?thesis by blast
next
  case False
  let ?p = "mem_current m"
  note b = transfer_betweenD [OF between]
  obtain pr where pr: "mem_process m ?p = Done (pr, mp)" using b(3) by (rule user_process)
  obtain r1 m1 where rc: "receiver q dst len m = (r1, m1)" by fastforce
  have len: "len \<noteq> 0" "len AND 0xfff = 0" "dst AND 0xfff = 0" using False by simp_all
  from b(1,4) len rc show ?thesis
  proof (cases rule: receiver_cases)
    case (fail e)
    with run False pr rc b(5) have "r = Fail e \<and> m' = m1" by (simp add: lend_memory_def seq_simps_pair)
    with refused [OF fail(2,3)] show ?thesis by blast
  next
    case (run d)
    let ?n = "unat len div 4096"
    have l: "on_vm (lend_pages (mem_get m1) mp src mq d mutable ?n) d m1 = (r, m')"
      using assms(3) False pr rc b(5) run by (simp add: lend_memory_def seq_simps_pair)
    have "transferring (lent_entries mutable) (user_spaces m) ?p mp src q mq d ?n (mem_view m) 0 0 (mem_vm m)"
      using transferring_start [OF b(2,3,4,5) pages_of(3)] ram by (simp add: mem_view_def ram_range_def)
    from lend.all_or_nothing [OF this] have "\<And>r v. lend_pages (mem_get m1) mp src mq d mutable ?n (mem_vm m1) = (r, v) \<Longrightarrow>
      (r = Done () \<and> transferring (lent_entries mutable) (user_spaces m1) (mem_current m1) mp src q mq d ?n (mem_view m1) 0 ?n v)
      \<or> (\<exists>e j. r = Fail e \<and> transferring (lent_entries mutable) (user_spaces m1) (mem_current m1) mp src q mq d ?n (mem_view m1) j j v)"
      unfolding lend_pages_def same_memoryD [OF run(4)] by blast
    note t = transfer_services [OF run(3) refl l this]
    have "\<forall>a. r = Done a \<longrightarrow> a \<noteq> 0" using on_vm_value l run(5) by metis
    with t show ?thesis by (simp only: transfer_result_same [OF run(4)])
  qed
qed

text \<open>
  C13: Lending a range of RAM pages to another process never panics and is all or nothing: the whole
  range ends up at the receiver while the sender keeps the reservations, or the call fails and
  nothing has moved, apart from pages reserved on demand that have been backed on the way. Every
  other page of every process stays as it was, and no two processes share a page afterwards.
\<close>

theorem lend_memory_all_or_nothing:
  assumes "transfer_between m mp q mq" and "ram_range m (mem_current m) src (unat len div 4096)"
    and "lend_memory src q dst len mutable m = (r, m')"
  shows "transfer_result (lent_entries mutable) m src q (unat len div 4096) r m'"
  using lend_memory_transfer [OF assms] ..

lemma release_hint_ok:
  assumes "hint_ok pr" and "src AND 0xfff = 0"
  shows "hint_ok (release_allocation_hint src pr)"
proof (cases "MMAP_AREA_VIRT \<le> src \<and> src < MMAP_AREA_VIRT_END")
  case True
  then have "area_start \<le> unat src" "unat src \<le> area_end"
    by (simp_all add: area_start_def area_end_def word_le_nat_alt word_less_nat_alt)
  moreover have "unat src mod 4096 = 0" using assms(2) by (simp only: aligned_mod)
  ultimately show ?thesis using assms(1) True by (simp add: hint_ok_def release_allocation_hint_def min_def)
qed (use assms(1) in \<open>auto simp: release_allocation_hint_def\<close>)

lemma release_result:
  assumes t: "transfer_result R m src q n (Done x) m2" and p: "user_spaces m (mem_current m) = Some mp" and src: "src AND 0xfff = 0"
  shows "\<exists>pr. mem_process m2 (mem_current m2) = Done (pr, mp)
    \<and> transfer_result R m src q n (Done x) (put_process (mem_current m2) (release_allocation_hint src pr) m2)"
proof -
  let ?p = "mem_current m"
  have m2: "mem_ok m2" "user_spaces m2 = user_spaces m" "mem_current m2 = ?p" using t by (simp_all add: transfer_result_def)
  have "user_spaces m2 ?p = Some mp" using m2(2) p by simp
  then obtain pr where pr: "mem_process m2 ?p = Done (pr, mp)" "mem_procs m2 ?p = Some (pr, mp)" by (rule user_process)
  have "hint_ok pr" using m2(1) pr(2) unfolding mem_ok_def by (metis fst_conv)
  from put_process_ok [OF m2(1) release_hint_ok [OF this src], of ?p] t pr m2 show ?thesis
    by (simp add: transfer_result_def mem_view_def)
qed

lemma send_memory_transfer:
  assumes between: "transfer_between m mp q mq" and ram: "ram_range m (mem_current m) src (unat len div 4096)"
    and run: "send_memory src q dst len m = (r, m')"
  shows "transfer_result moved_entries m src q (unat len div 4096) r m' \<and> (\<forall>a. r = Done a \<longrightarrow> a \<noteq> 0)"
proof (cases "len = 0 \<or> len AND 0xfff \<noteq> 0 \<or> src AND 0xfff \<noteq> 0 \<or> dst AND 0xfff \<noteq> 0 \<or> out_of_area src len \<or> out_of_area dst len")
  case True
  with run have "m' = m \<and> r = Fail BadAddress" by (auto simp: send_memory_def)
  with refused [of m m] transfer_betweenD(1) [OF between] same_memory_def show ?thesis by blast
next
  case False
  let ?p = "mem_current m"
  note b = transfer_betweenD [OF between]
  obtain pr where pr: "mem_process m ?p = Done (pr, mp)" using b(3) by (rule user_process)
  obtain r1 m1 where rc: "receiver q dst len m = (r1, m1)" by fastforce
  have len: "len \<noteq> 0" "len AND 0xfff = 0" "dst AND 0xfff = 0" and src: "src AND 0xfff = 0" using False by simp_all
  from b(1,4) len rc show ?thesis
  proof (cases rule: receiver_cases)
    case (fail e)
    with run False pr rc b(5) have "r = Fail e \<and> m' = m1" by (simp add: send_memory_def seq_simps_pair)
    with refused [OF fail(2,3)] show ?thesis by blast
  next
    case (run d)
    let ?n = "unat len div 4096"
    obtain r2 m2 where l: "on_vm (move_pages (mem_get m1) mp src mq d ?n) d m1 = (r2, m2)" by fastforce
    have "moving (user_spaces m) ?p mp src q mq d ?n (mem_view m) 0 0 (mem_vm m)"
      using transferring_start [OF b(2,3,4,5) pages_of(3)] ram by (simp add: mem_view_def ram_range_def moving_def tables_left_def)
    from move.all_or_nothing [OF this] have "\<And>r v. move_pages (mem_get m1) mp src mq d ?n (mem_vm m1) = (r, v) \<Longrightarrow>
      (r = Done () \<and> transferring moved_entries (user_spaces m1) (mem_current m1) mp src q mq d ?n (mem_view m1) 0 ?n v)
      \<or> (\<exists>e j. r = Fail e \<and> transferring moved_entries (user_spaces m1) (mem_current m1) mp src q mq d ?n (mem_view m1) j j v)"
      unfolding move_pages_def same_memoryD [OF run(4)] moving_def by blast
    note t = transfer_services [OF run(3) refl l this]
    have t1: "transfer_result moved_entries m src q ?n r2 m2" using t by (simp only: transfer_result_same [OF run(4)])
    have call: "(r, m') = seq (r2, m2) (\<lambda>d m3. seq (mem_process m3 (mem_current m3), m3) (\<lambda>(pr, _) m4.
              (Done d, put_process (mem_current m4) (release_allocation_hint src pr) m4)))"
      using assms(3) False pr rc b(5) run l by (simp add: send_memory_def seq_simps_pair)
    show ?thesis
    proof (cases r2)
      case (Done x)
      have "x \<noteq> 0" using on_vm_value [OF l [unfolded Done]] run(5) by simp
      with release_result [OF t1 [unfolded Done] b(3) src] call Done show ?thesis by (auto simp: seq_simps_pair)
    qed (use call t1 in \<open>simp_all add: seq_simps_pair\<close>)
  qed
qed

text \<open>
  C12: Sending a range of RAM pages never panics, not even when a move fails half way and the pages
  already moved have to be moved back: the whole range leaves the sender and arrives unchanged, or
  the call fails and every page is where it was.
\<close>

theorem send_memory_all_or_nothing:
  assumes "transfer_between m mp q mq" and "ram_range m (mem_current m) src (unat len div 4096)"
    and "send_memory src q dst len m = (r, m')"
  shows "transfer_result moved_entries m src q (unat len div 4096) r m'"
  using send_memory_transfer [OF assms] ..

section \<open>There and back\<close>

lemma return_pages_undo:
  "undo_all (\<lambda>k. mm_unlend_page get mq (page_at dst k) mp (page_at src k)) ks s = (Done (), s') \<Longrightarrow>
    return_pages get mq dst mp src ks r s = (r, s')"
  by (induction ks arbitrary: s) (auto split: prod.splits outcome.splits)

lemma page_at_zero [simp]: "page_at a 0 = a"
  by (simp add: page_at_def)

lemma lent_new_mapped:
  assumes l: "lent_entries mutable e shared new" and e: "wf_entry e"
  shows "is_mapped new"
proof -
  have "is_mapped e" using l unfolding lent_entries_def by blast
  from wf_mapped [OF e this] obtain ph f u where d: "e = L2Mapped (page_desc 0 ph f u)" "ph AND 0xfff = 0" by metis
  show ?thesis using l to_immutable_page_desc [OF d(2)] unfolding lent_entries_def by (cases mutable) (auto simp: d(1))
qed

text \<open>
  C16: When a lent range is returned, return_memory succeeds and undoes the loan: every page of every
  process is again as it was, also after a read-only loan, apart from pages reserved on demand that
  the loan has backed.
\<close>

theorem lend_return_memory_roundtrip:
  assumes between: "transfer_between m mp q mq" and ram: "ram_range m (mem_current m) src (unat len div 4096)"
    and lend: "lend_memory src q dst len mutable m = (Done d, m1)"
    and ret: "return_memory d (mem_current m) src len (m1\<lparr>mem_current := q\<rparr>) = (r, m2)"
  shows "r = Done src \<and> mem_ok m2 \<and> backed (mem_current m) src (unat len div 4096) (mem_view m) (mem_view m2)"
proof -
  let ?p = "mem_current m" and ?n = "unat len div 4096" and ?m1 = "m1\<lparr>mem_current := q\<rparr>" and ?R = "lent_entries mutable"
  note b = transfer_betweenD [OF between]
  have c: "len \<noteq> 0" "len AND 0xfff = 0" "src AND 0xfff = 0" using lend by (auto simp: lend_memory_def split: if_splits)
  from conjunct1 [OF lend_memory_transfer [OF between ram lend]] obtain w where
    m1: "mem_ok m1" "user_spaces m1 = user_spaces m" and
    w: "wf_view w" "backed ?p src ?n (mem_view m) w" "transferred ?R ?p src q d 0 ?n w (mem_view m1)"
    by (auto simp: transfer_result_def)
  have n: "0 < ?n" "?n \<le> 2 ^ 20" using pages_of c by blast+
  have R: "?R (w ?p (page_at src k)) (mem_view m1 ?p (page_at src k)) (mem_view m1 q (page_at d k))" if "k < ?n" for k
    using w(3) that unfolding transferred_def by blast
  have "mem_view m1 q (page_at d 0) \<noteq> L2Empty" using lent_new_mapped [OF R [OF n(1)] wf_view_at [OF w(1)]] by auto
  then have "user_page d" using view_user_page isolatedD(3) m1(1) by (metis mem_ok_def mem_view_def page_at_zero)
  then have d: "d AND 0xfff = 0" by (simp add: user_page_def)
  have "ram_entry (w ?p (page_at src k))" if "k < ?n" for k using R [OF that] by (auto simp: lent_entries_def ram_entry_def)
  then have "range_setting (user_spaces m) ?p mp src q mq ?n (mem_view m) w" using b n w by (simp add: range_setting_def)
  then have "transferring ?R (user_spaces m) ?p mp src q mq d ?n (mem_view m) 0 ?n (mem_vm m1)"
    using m1 w(3) unfolding transferring_def mem_view_def mem_ok_def by metis
  from lend.undo_all_part [OF this le0 order_refl] obtain v where
    v: "undo_all (\<lambda>k. mm_unlend_page (mem_get ?m1) mq (page_at d k) mp (page_at src k)) [0..<?n] (mem_vm m1) = (Done (), v)"
      "transferring ?R (user_spaces m) ?p mp src q mq d ?n (mem_view m) ?n ?n v" by blast
  note t = transferring_done [OF v(2)]
  obtain pr qr where pr: "mem_process ?m1 ?p = Done (pr, mp)" "mem_process ?m1 q = Done (qr, mq)"
    using b(3,4) m1(2) user_process [of ?m1] by (metis current_spaces(1))
  have "r = Done src \<and> m2 = ?m1\<lparr>mem_vm := v\<rparr>"
    using ret c d b(5) pr return_pages_undo [OF v(1), of "Done ()"]
    by (auto simp: return_memory_def seq_simps_pair on_vm_def)
  with t vm_ok [of ?m1 v] m1 show ?thesis by (simp add: mem_view_def)
qed

section \<open>Two processes to try the services on\<close>

definition sample_services :: memory_services where
  "sample_services = \<lparr>mem_procs = [2 \<mapsto> (process_new 2 1 (AppId (replicate 16 0)), \<lparr>ttbr0 = page_addr 0, map_pid = 2\<rparr>),
       3 \<mapsto> (process_new 3 1 (AppId (replicate 16 0)), \<lparr>ttbr0 = page_addr 4, map_pid = 3\<rparr>)],
     mem_current = 2, mem_vm = sample_vm\<rparr>"

lemma sample_user_spaces: "user_spaces sample_services = two_spaces"
  by (auto simp: user_spaces_def sample_services_def two_spaces_def MAX_PROCESS_COUNT_def fun_eq_iff)

lemma sample_between:
  "transfer_between sample_services \<lparr>ttbr0 = page_addr 0, map_pid = 2\<rparr> 3 \<lparr>ttbr0 = page_addr 4, map_pid = 3\<rparr>"
proof -
  have "hint_ok (process_new p 1 i)" for p i by (simp add: hint_ok_def process_new_def area MMAP_AREA_VIRT_def)
  then have "mem_ok sample_services"
    using sample_isolated sample_user_spaces by (auto simp: mem_ok_def sample_services_def split: if_splits)
  then show ?thesis by (simp add: transfer_between_def sample_user_spaces) (simp add: sample_services_def two_spaces_def)
qed

lemma sample_fields: "mem_current sample_services = 2" "mem_vm sample_services = sample_vm"
  "mem_process sample_services 2 = Done (process_new 2 1 (AppId (replicate 16 0)), \<lparr>ttbr0 = page_addr 0, map_pid = 2\<rparr>)"
  "mem_process sample_services 3 = Done (process_new 3 1 (AppId (replicate 16 0)), \<lparr>ttbr0 = page_addr 4, map_pid = 3\<rparr>)"
  "mem_view sample_services = view_of two_spaces sample_vm"
  by (simp_all add: mem_view_def sample_user_spaces) (simp_all add: sample_services_def mem_process_def MAX_PROCESS_COUNT_def)

lemma sample_ram: "ram_range sample_services (mem_current sample_services) 0x10000 (unat (0x1000 :: usize) div 4096)"
  by (auto simp: ram_range_def sample_fields sample_view ram_entry_def own_frame)

lemma sample_receiver: "\<exists>m1. receiver 3 0x20000 0x1000 sample_services = (Done (0x20000, \<lparr>ttbr0 = page_addr 4, map_pid = 3\<rparr>), m1)
    \<and> mem_vm m1 = sample_vm \<and> mem_current m1 = 2 \<and> user_spaces m1 = two_spaces"
  by (simp add: receiver_def seq_simps_pair sample_fields find_virtual_address_def sample_user_spaces)

lemma sample_lending: "\<exists>m1. lend_memory 0x10000 3 0x20000 0x1000 False sample_services = (Done 0x20000, m1)"
proof -
  obtain m1 where m1: "receiver 3 0x20000 0x1000 sample_services = (Done (0x20000, \<lparr>ttbr0 = page_addr 4, map_pid = 3\<rparr>), m1)"
    "mem_vm m1 = sample_vm" "mem_current m1 = 2" "user_spaces m1 = two_spaces" using sample_receiver by blast
  obtain s1 where s1: "mm_lend_page (mem_get m1) \<lparr>ttbr0 = page_addr 0, map_pid = 2\<rparr> 0x10000 \<lparr>ttbr0 = page_addr 4, map_pid = 3\<rparr>
      0x20000 False sample_vm = (Done (), s1)" by (rule sample_run)
  then show ?thesis using m1 by (simp add: lend_memory_def seq_simps_pair sample_fields on_vm_def lend_pages_def)
qed

lemma sample_sending: "\<exists>m1. send_memory 0x10000 3 0x20000 0x1000 sample_services = (Done 0x20000, m1)"
proof -
  obtain m1 where m1: "receiver 3 0x20000 0x1000 sample_services = (Done (0x20000, \<lparr>ttbr0 = page_addr 4, map_pid = 3\<rparr>), m1)"
    "mem_vm m1 = sample_vm" "mem_current m1 = 2" "user_spaces m1 = two_spaces" using sample_receiver by blast
  have m: "two_spaces 2 = Some \<lparr>ttbr0 = page_addr 0, map_pid = 2\<rparr>" "two_spaces 3 = Some \<lparr>ttbr0 = page_addr 4, map_pid = 3\<rparr>"
    by (simp_all add: two_spaces_def)
  have own: "moved_entries own_page L2Empty own_page"
    using own_frame user_page_desc [OF bus_view_page(1) [OF frame_3]] by (simp add: moved_entries_def own_page_def)
  obtain sl where sl: "get_l2_slot \<lparr>ttbr0 = page_addr 4, map_pid = 3\<rparr> 0x20000 sample_vm = Done sl"
    using sample_pages unfolding get_l2_slot_user [OF sample_rel(2)] by (auto simp: group_at_def user_page_def)
  have "view_of two_spaces sample_vm 3 0x20000 = L2Empty" "view_of two_spaces sample_vm 2 0x10000 = own_page" by (simp_all add: sample_view)
  from move_back [OF sample_isolated m(2,1) own this sl, of "mem_get m1"] obtain s1 where
    s1: "mm_move_page (mem_get m1) \<lparr>ttbr0 = page_addr 0, map_pid = 2\<rparr> 0x10000 \<lparr>ttbr0 = page_addr 4, map_pid = 3\<rparr> 0x20000 sample_vm = (Done (), s1)" by blast
  obtain pr where "mem_process (m1\<lparr>mem_vm := s1\<rparr>) 2 = Done (pr, \<lparr>ttbr0 = page_addr 0, map_pid = 2\<rparr>)"
    using m1(4) m(1) user_process [of "m1\<lparr>mem_vm := s1\<rparr>" 2] by (metis vm_spaces)
  then show ?thesis using m1 s1
    by (simp add: send_memory_def seq_simps_pair sample_fields on_vm_def move_pages_def out_of_area_def checked_add_def USER_AREA_END_def)
qed

lemma sample_backed:
  assumes "backed (mem_current sample_services) 0x10000 (unat (0x1000 :: usize) div 4096) (mem_view sample_services) w"
  shows "w = view_of two_spaces sample_vm"
proof (intro ext)
  show "w q b = view_of two_spaces sample_vm q b" for q b
    using assms [unfolded backed_def sample_fields, rule_format, of q b] by (auto simp: sample_view own_page_def split: if_splits)
qed

theorem lend_memory_all_or_nothing_witness:
  "\<exists>m'. lend_memory 0x10000 3 0x20000 0x1000 False sample_services = (Done 0x20000, m')
    \<and> is_mapped (mem_view m' 3 0x20000) \<and> is_shared (mem_view m' 2 0x10000)"
proof -
  obtain m' where run: "lend_memory 0x10000 3 0x20000 0x1000 False sample_services = (Done 0x20000, m')"
    using sample_lending by blast
  from lend_memory_all_or_nothing [OF sample_between sample_ram run] obtain w where
    b: "backed (mem_current sample_services) 0x10000 (unat (0x1000 :: usize) div 4096) (mem_view sample_services) w" and
    t: "transferred (lent_entries False) (mem_current sample_services) 0x10000 3 0x20000 0 (unat (0x1000 :: usize) div 4096) w (mem_view m')"
    by (auto simp: transfer_result_def)
  from t have l: "lent_entries False own_page (mem_view m' 2 0x10000) (mem_view m' 3 0x20000)"
    unfolding sample_backed [OF b] by (auto simp: transferred_def sample_fields sample_view)
  have "wf_entry own_page" using wf_view_at [OF isolatedD(2) [OF sample_isolated], of 2 "0x10000"] by (simp add: sample_view)
  from lent_new_mapped [OF l this] have m: "is_mapped (mem_view m' 3 0x20000)" .
  have e: "mem_view m' 2 0x10000 = L2Unmapped (parked (page_addr 3) (effective_flags (page_addr 3) MF_W) True)"
    using l to_unmapped_page_desc [OF bus_view_page(1) [OF frame_3]] by (simp add: lent_entries_def own_page_def)
  have "is_shared (mem_view m' 2 0x10000)"
    using parked_fields(1,5) [of "page_addr 3" "effective_flags (page_addr 3) MF_W" True] bus_view_page [OF frame_3] wf_effective_flags
    by (simp add: e)
  with m run show ?thesis by blast
qed

theorem send_memory_all_or_nothing_witness:
  "\<exists>m'. send_memory 0x10000 3 0x20000 0x1000 sample_services = (Done 0x20000, m')
    \<and> mem_view m' 3 0x20000 = own_page \<and> mem_view m' 2 0x10000 = L2Empty"
proof -
  obtain m' where run: "send_memory 0x10000 3 0x20000 0x1000 sample_services = (Done 0x20000, m')"
    using sample_sending by blast
  from send_memory_all_or_nothing [OF sample_between sample_ram run] obtain w where
    b: "backed (mem_current sample_services) 0x10000 (unat (0x1000 :: usize) div 4096) (mem_view sample_services) w" and
    t: "transferred moved_entries (mem_current sample_services) 0x10000 3 0x20000 0 (unat (0x1000 :: usize) div 4096) w (mem_view m')"
    by (auto simp: transfer_result_def)
  from t have "moved_entries own_page (mem_view m' 2 0x10000) (mem_view m' 3 0x20000)"
    unfolding sample_backed [OF b] by (auto simp: transferred_def sample_fields sample_view)
  with run show ?thesis by (simp add: moved_entries_def)
qed

theorem lend_return_memory_roundtrip_witness:
  "\<exists>m1 m2. lend_memory 0x10000 3 0x20000 0x1000 False sample_services = (Done 0x20000, m1)
    \<and> return_memory 0x20000 2 0x10000 0x1000 (m1\<lparr>mem_current := 3\<rparr>) = (Done 0x10000, m2)
    \<and> mem_view m2 = mem_view sample_services"
proof -
  obtain m1 where lend: "lend_memory 0x10000 3 0x20000 0x1000 False sample_services = (Done 0x20000, m1)"
    using sample_lending by blast
  obtain r m2 where ret: "return_memory 0x20000 (mem_current sample_services) 0x10000 0x1000 (m1\<lparr>mem_current := 3\<rparr>) = (r, m2)" by fastforce
  from lend_return_memory_roundtrip [OF sample_between sample_ram lend ret] have
    "r = Done 0x10000" "mem_view m2 = mem_view sample_services" using sample_backed sample_fields(5) by simp_all
  with lend ret show ?thesis by (simp add: sample_fields)
qed

end
