(* ===== verification/Waiting_Threads.thy ===== *)
theory Waiting_Threads
  imports Processes Server_Queue
begin

unbundle bit_operations_syntax

text \<open>
  Which threads wait for what: a sender for the answer to its message, or a thread of a server for
  the next message. The kernel keeps this twice, as the state of the thread (\<open>process.rs\<close>) and in
  the server, as a slot of its queue or a bit of its mask of ready threads (\<open>server.rs\<close>). The
  abstract view holds both sides; its steps are what the message calls of the kernel do to it,
  and they keep the two sides in agreement.
\<close>

section \<open>Both sides of waiting\<close>

datatype wait = Sending nat | Receiving nat

record waits =
  w_for :: "thread \<Rightarrow> wait option"
  w_slot :: "nat \<Rightarrow> nat \<Rightarrow> thread option"
  w_recv :: "nat \<Rightarrow> thread set"

text \<open>When a server goes, everybody who waits there is released; a process takes its threads along.\<close>

definition closed :: "nat \<Rightarrow> waits \<Rightarrow> waits" where
  "closed x w = w\<lparr>w_for := (\<lambda>u. if (\<exists>i. w_slot w x i = Some u) \<or> u \<in> w_recv w x then None else w_for w u),
     w_slot := (w_slot w)(x := (\<lambda>_. None)), w_recv := (w_recv w)(x := {})\<rparr>"

definition without :: "pid \<Rightarrow> waits \<Rightarrow> waits" where
  "without p w = \<lparr>w_for = (\<lambda>u. if fst u = p then None else w_for w u),
     w_slot = (\<lambda>x i. case w_slot w x i of None \<Rightarrow> None | Some u \<Rightarrow> if fst u = p then None else Some u),
     w_recv = (\<lambda>x. {u \<in> w_recv w x. fst u \<noteq> p})\<rparr>"

inductive wait_step :: "waits \<Rightarrow> waits \<Rightarrow> bool" where
  call: "w_for w u = None \<Longrightarrow> w_slot w x i = None \<Longrightarrow>
    wait_step w (w\<lparr>w_for := (w_for w)(u \<mapsto> Sending x), w_slot := (w_slot w)(x := (w_slot w x)(i \<mapsto> u))\<rparr>)"
| answer: "w_slot w x i = Some u \<Longrightarrow>
    wait_step w (w\<lparr>w_for := (w_for w)(u := None), w_slot := (w_slot w)(x := (w_slot w x)(i := None))\<rparr>)"
| park: "w_for w u = None \<Longrightarrow>
    wait_step w (w\<lparr>w_for := (w_for w)(u \<mapsto> Receiving x), w_recv := (w_recv w)(x := insert u (w_recv w x))\<rparr>)"
| hand: "u \<in> w_recv w x \<Longrightarrow>
    wait_step w (w\<lparr>w_for := (w_for w)(u := None), w_recv := (w_recv w)(x := w_recv w x - {u})\<rparr>)"
| close: "wait_step w (closed x w)"
| leave: "wait_step w (without p w)"

inductive wait_steps :: "waits \<Rightarrow> waits \<Rightarrow> bool" where
  stay: "wait_steps w w"
| go: "wait_steps w1 w2 \<Longrightarrow> wait_step w2 w3 \<Longrightarrow> wait_steps w1 w3"

lemma wait_steps_one: "wait_step w w' \<Longrightarrow> wait_steps w w'"
  by (rule wait_steps.go [OF wait_steps.stay])

lemma wait_steps_trans: "wait_steps w2 w3 \<Longrightarrow> wait_steps w1 w2 \<Longrightarrow> wait_steps w1 w3"
  by (induction rule: wait_steps.induct) (auto intro: wait_steps.intros)

text \<open>
  The two sides agree: a thread waits for an answer of a server exactly when one slot of its queue
  holds the thread, and for a message exactly when the server has it in its mask.
\<close>

definition accounted :: "waits \<Rightarrow> bool" where
  "accounted w \<longleftrightarrow>
     (\<forall>u x. w_for w u = Some (Sending x) \<longleftrightarrow> (\<exists>i. w_slot w x i = Some u))
     \<and> (\<forall>x i j u. w_slot w x i = Some u \<and> w_slot w x j = Some u \<longrightarrow> i = j)
     \<and> (\<forall>u x. w_for w u = Some (Receiving x) \<longleftrightarrow> u \<in> w_recv w x)"

lemma accountedD:
  assumes "accounted w"
  shows "w_for w u = Some (Sending x) \<longleftrightarrow> (\<exists>i. w_slot w x i = Some u)"
    and "w_slot w x i = Some u \<Longrightarrow> w_slot w x j = Some u \<Longrightarrow> i = j"
    and "w_for w u = Some (Receiving x) \<longleftrightarrow> u \<in> w_recv w x"
  using assms unfolding accounted_def by blast+

lemma accountedI:
  assumes "\<And>u x. w_for w u = Some (Sending x) \<longleftrightarrow> (\<exists>i. w_slot w x i = Some u)"
    and "\<And>x i j u. w_slot w x i = Some u \<Longrightarrow> w_slot w x j = Some u \<Longrightarrow> i = j"
    and "\<And>u x. w_for w u = Some (Receiving x) \<longleftrightarrow> u \<in> w_recv w x"
  shows "accounted w"
  unfolding accounted_def by (intro conjI allI impI assms(1,3)) (elim conjE, rule assms(2))

lemma slot_update: "((w_slot w)(x := (w_slot w x)(i := b))) y j = Some v \<longleftrightarrow>
    (if y = x \<and> j = i then b = Some v else w_slot w y j = Some v)"
  by auto

lemma without_slot: "w_slot (without p w) x i = Some u \<longleftrightarrow> w_slot w x i = Some u \<and> fst u \<noteq> p"
  by (auto simp: without_def split: option.splits)

text \<open>
  A sender can also lose its slot without being woken. Apart from the threads \<open>L\<close> this has happened to,
  the two sides agree.
\<close>

definition accounted_but :: "thread set \<Rightarrow> waits \<Rightarrow> bool" where
  "accounted_but L w \<longleftrightarrow>
     (\<forall>u x i. w_slot w x i = Some u \<longrightarrow> w_for w u = Some (Sending x))
     \<and> (\<forall>u x. w_for w u = Some (Sending x) \<longrightarrow> (\<exists>i. w_slot w x i = Some u) \<or> u \<in> L)
     \<and> (\<forall>x i j u. w_slot w x i = Some u \<and> w_slot w x j = Some u \<longrightarrow> i = j)
     \<and> (\<forall>u x. w_for w u = Some (Receiving x) \<longleftrightarrow> u \<in> w_recv w x)"

lemma accounted_butD:
  assumes "accounted_but L w"
  shows "w_slot w x i = Some u \<Longrightarrow> w_for w u = Some (Sending x)"
    and "w_for w u = Some (Sending x) \<Longrightarrow> u \<notin> L \<Longrightarrow> \<exists>i. w_slot w x i = Some u"
    and "w_slot w x i = Some u \<Longrightarrow> w_slot w x j = Some u \<Longrightarrow> i = j"
    and "w_for w u = Some (Receiving x) \<longleftrightarrow> u \<in> w_recv w x"
  using assms unfolding accounted_but_def by blast+

lemma accounted_butI:
  assumes "\<And>u x i. w_slot w x i = Some u \<Longrightarrow> w_for w u = Some (Sending x)"
    and "\<And>u x. w_for w u = Some (Sending x) \<Longrightarrow> u \<notin> L \<Longrightarrow> \<exists>i. w_slot w x i = Some u"
    and "\<And>x i j u. w_slot w x i = Some u \<Longrightarrow> w_slot w x j = Some u \<Longrightarrow> i = j"
    and "\<And>u x. w_for w u = Some (Receiving x) \<longleftrightarrow> u \<in> w_recv w x"
  shows "accounted_but L w"
  unfolding accounted_but_def using assms by blast

lemma accounted_but_none: "accounted_but {} w = accounted w"
  unfolding accounted_but_def accounted_def by blast

lemma accounted_but_mono: "accounted_but L w \<Longrightarrow> L \<subseteq> M \<Longrightarrow> accounted_but M w"
  unfolding accounted_but_def by blast

lemma wait_step_accounted_but: "wait_step w w' \<Longrightarrow> accounted_but L w \<Longrightarrow> accounted_but L w'"
proof (induction rule: wait_step.induct)
  case (call w u x i)
  note a = accounted_butD [OF call.prems]
  have free: "w_slot w y j \<noteq> Some u" "u \<notin> w_recv w y" for y j
    using a(1) [of y j u] a(4) [of u y] call.hyps(1) by auto
  have new: "((w_slot w)(x := (w_slot w x)(i \<mapsto> u))) y j = Some v \<longleftrightarrow>
      (if v = u then y = x \<and> j = i else w_slot w y j = Some v)" for y j v
    using call.hyps(2) free by (auto simp: slot_update)
  show ?case
  proof (rule accounted_butI, goal_cases)
    case (1 v y j)
    then show ?case using a(1) [of y j v] by (simp add: new del: fun_upd_apply split: if_splits) (simp_all add: fun_upd_def)
  next
    case (2 v y)
    have "((w_for w)(u \<mapsto> Sending x)) v = Some (Sending y) \<longleftrightarrow> (if v = u then y = x else w_for w v = Some (Sending y))"
      by auto
    then show ?case using 2 a(2) [of v y] by (cases "v = u") (simp_all add: new del: fun_upd_apply)
  next
    case (3 y j k v)
    then show ?case using a(3) [of y j v k] by (auto simp: new simp del: fun_upd_apply split: if_splits)
  next
    case (4 v y)
    show ?case using a(4) [of v y] free by auto
  qed
next
  case (answer w x i u)
  note a = accounted_butD [OF answer.prems]
  have u: "w_for w u = Some (Sending x)" using a(1) answer.hyps by blast
  have no: "u \<notin> w_recv w y" for y using a(4) [of u y] u by auto
  have only: "w_slot w y j = Some u \<longleftrightarrow> y = x \<and> j = i" for y j
    using a(1) [of y j u] a(3) [of x i u j] u answer.hyps by auto
  have new: "((w_slot w)(x := (w_slot w x)(i := None))) y j = Some v \<longleftrightarrow> v \<noteq> u \<and> w_slot w y j = Some v" for y j v
    using only [of y j] answer.hyps by (auto simp: slot_update)
  show ?case
  proof (rule accounted_butI, goal_cases)
    case (1 v y j)
    then show ?case using a(1) [of y j v] by (simp add: new del: fun_upd_apply) (simp add: fun_upd_def)
  next
    case (2 v y)
    have "((w_for w)(u := None)) v = Some (Sending y) \<longleftrightarrow> v \<noteq> u \<and> w_for w v = Some (Sending y)" by auto
    then show ?case using 2 a(2) [of v y] by (simp add: new del: fun_upd_apply)
  next
    case (3 y j k v)
    then show ?case using a(3) [of y j v k] by (auto simp: new simp del: fun_upd_apply)
  next
    case (4 v y)
    show ?case using a(4) [of v y] no by auto
  qed
next
  case (park w u x)
  note a = accounted_butD [OF park.prems]
  have free: "w_slot w y j \<noteq> Some u" "u \<notin> w_recv w y" for y j
    using a(1) [of y j u] a(4) [of u y] park.hyps by auto
  show ?case
    by (rule accounted_butI) (use a free in \<open>auto split: if_splits\<close>)
next
  case (hand u w x)
  note a = accounted_butD [OF hand.prems]
  have u: "w_for w u = Some (Receiving x)" using a(4) hand.hyps by blast
  have no: "w_slot w y j \<noteq> Some u" for y j using a(1) [of y j u] u by auto
  have only: "u \<in> w_recv w y \<longleftrightarrow> y = x" for y using a(4) [of u y] u by auto
  show ?case
    by (rule accounted_butI) (use a no only in \<open>auto split: if_splits\<close>)
next
  case (close w x)
  note a = accounted_butD [OF close.prems]
  show ?case
  proof (rule accounted_butI, goal_cases)
    case (1 v y j)
    then have y: "y \<noteq> x" "w_slot w y j = Some v" by (auto simp: closed_def split: if_splits)
    then have "w_for w v = Some (Sending y)" using a(1) by blast
    moreover have "w_slot w x k \<noteq> Some v" "v \<notin> w_recv w x" for k
      using a(1) [of x k v] a(4) [of v x] y(1) calculation by auto
    ultimately show ?case by (simp add: closed_def)
  next
    case (2 v y)
    then show ?case using a(2) [of v y] by (auto simp: closed_def split: if_splits)
  next
    case (3 y j k v)
    then show ?case using a(3) [of y j v k] by (auto simp: closed_def split: if_splits)
  next
    case (4 v y)
    show ?case using a(4) [of v y] a(4) [of v x] a(1) [of x _ v] by (auto simp: closed_def)
  qed
next
  case (leave w p)
  note a = accounted_butD [OF leave.prems]
  show ?case
  proof (rule accounted_butI, goal_cases)
    case (1 v y j)
    then show ?case using a(1) [of y j v] by (simp add: without_slot) (simp add: without_def)
  next
    case (2 v y)
    then show ?case using a(2) [of v y] by (simp add: without_slot) (auto simp: without_def split: if_splits)
  next
    case (3 y j k v)
    then show ?case using a(3) [of y j v k] by (simp add: without_slot)
  next
    case (4 v y)
    show ?case using a(4) [of v y] by (simp add: without_def)
  qed
qed

lemma wait_step_accounted: "wait_step w w' \<Longrightarrow> accounted w \<Longrightarrow> accounted w'"
  using wait_step_accounted_but [of w w' "{}"] by (simp add: accounted_but_none)

lemma wait_steps_accounted: "wait_steps w w' \<Longrightarrow> accounted w \<Longrightarrow> accounted w'"
  by (induction rule: wait_steps.induct) (auto intro: wait_step_accounted)

text \<open>Runs of the protocol in which the senders \<open>L\<close> lose their slot; steps of the protocol and losses mix.\<close>

inductive wait_run :: "waits \<Rightarrow> thread set \<Rightarrow> waits \<Rightarrow> bool" where
  begins: "wait_run w {} w"
| goes: "wait_run w L w1 \<Longrightarrow> wait_step w1 w2 \<Longrightarrow> wait_run w L w2"
| loses: "wait_run w L w1 \<Longrightarrow> w_slot w1 x i = Some u \<Longrightarrow>
    wait_run w (L \<union> {u}) (w1\<lparr>w_slot := (w_slot w1)(x := (w_slot w1 x)(i := None))\<rparr>)"

lemma wait_run_goes: "wait_steps w1 w2 \<Longrightarrow> wait_run w L w1 \<Longrightarrow> wait_run w L w2"
  by (induction rule: wait_steps.induct) (auto intro: wait_run.goes)

lemma lost_accounted:
  assumes a: "accounted_but L w" and s: "w_slot w x i = Some u"
  shows "accounted_but (L \<union> {u}) (w\<lparr>w_slot := (w_slot w)(x := (w_slot w x)(i := None))\<rparr>)"
proof -
  note d = accounted_butD [OF a]
  have only: "w_slot w y j = Some u \<longleftrightarrow> y = x \<and> j = i" for y j
    using d(1) [of y j u] d(1) [OF s] d(3) [of x i u j] s by auto
  have new: "((w_slot w)(x := (w_slot w x)(i := None))) y j = Some v \<longleftrightarrow> v \<noteq> u \<and> w_slot w y j = Some v" for y j v
    using only [of y j] s by (auto simp: slot_update)
  show ?thesis
    by (rule accounted_butI) (use d in \<open>auto simp: new simp del: fun_upd_apply\<close>)
qed

lemma wait_run_accounted: "wait_run w L w' \<Longrightarrow> accounted w \<Longrightarrow> accounted_but L w'"
  by (induction rule: wait_run.induct)
    (auto simp: accounted_but_none intro: wait_step_accounted_but lost_accounted [of _ _ _ _ _, simplified])

text \<open>What a process does while it goes looks, without it, like steps of the others.\<close>

lemma waits_eqI: "w_for v = w_for w \<Longrightarrow> w_slot v = w_slot w \<Longrightarrow> w_recv v = w_recv w \<Longrightarrow> v = (w :: waits)"
  by simp

lemma without_step: "wait_step w w' \<Longrightarrow> without p w' = without p w \<or> wait_step (without p w) (without p w')"
proof (induction rule: wait_step.induct)
  case (call w u x i)
  let ?w = "w\<lparr>w_for := (w_for w)(u \<mapsto> Sending x), w_slot := (w_slot w)(x := (w_slot w x)(i \<mapsto> u))\<rparr>"
  let ?v = "without p w"
  show ?case
  proof (cases "fst u = p")
    case True
    then have "without p ?w = without p w" using call by (auto simp: without_def fun_eq_iff)
    then show ?thesis ..
  next
    case False
    then have "without p ?w = ?v\<lparr>w_for := (w_for ?v)(u \<mapsto> Sending x), w_slot := (w_slot ?v)(x := (w_slot ?v x)(i \<mapsto> u))\<rparr>"
      by (auto simp: without_def fun_eq_iff)
    moreover have "w_for ?v u = None" "w_slot ?v x i = None" using call by (simp_all add: without_def)
    ultimately show ?thesis using wait_step.call [of ?v u x i] by simp
  qed
next
  case (answer w x i u)
  let ?w = "w\<lparr>w_for := (w_for w)(u := None), w_slot := (w_slot w)(x := (w_slot w x)(i := None))\<rparr>"
  let ?v = "without p w"
  show ?case
  proof (cases "fst u = p")
    case True
    then have "without p ?w = without p w" using answer by (auto simp: without_def fun_eq_iff)
    then show ?thesis ..
  next
    case False
    then have "without p ?w = ?v\<lparr>w_for := (w_for ?v)(u := None), w_slot := (w_slot ?v)(x := (w_slot ?v x)(i := None))\<rparr>"
      by (auto simp: without_def fun_eq_iff)
    moreover have "w_slot ?v x i = Some u" using answer False by (simp add: without_def)
    ultimately show ?thesis using wait_step.answer [of ?v x i u] by simp
  qed
next
  case (park w u x)
  let ?w = "w\<lparr>w_for := (w_for w)(u \<mapsto> Receiving x), w_recv := (w_recv w)(x := insert u (w_recv w x))\<rparr>"
  let ?v = "without p w"
  show ?case
  proof (cases "fst u = p")
    case True
    then have "without p ?w = without p w" by (auto simp: without_def fun_eq_iff)
    then show ?thesis ..
  next
    case False
    then have "without p ?w = ?v\<lparr>w_for := (w_for ?v)(u \<mapsto> Receiving x), w_recv := (w_recv ?v)(x := insert u (w_recv ?v x))\<rparr>"
      by (auto simp: without_def fun_eq_iff)
    moreover have "w_for ?v u = None" using park by (simp add: without_def)
    ultimately show ?thesis using wait_step.park [of ?v u x] by simp
  qed
next
  case (hand u w x)
  let ?w = "w\<lparr>w_for := (w_for w)(u := None), w_recv := (w_recv w)(x := w_recv w x - {u})\<rparr>"
  let ?v = "without p w"
  show ?case
  proof (cases "fst u = p")
    case True
    then have "without p ?w = without p w" by (auto simp: without_def fun_eq_iff)
    then show ?thesis ..
  next
    case False
    then have "without p ?w = ?v\<lparr>w_for := (w_for ?v)(u := None), w_recv := (w_recv ?v)(x := w_recv ?v x - {u})\<rparr>"
      by (auto simp: without_def fun_eq_iff)
    moreover have "u \<in> w_recv ?v x" using hand False by (simp add: without_def)
    ultimately show ?thesis using wait_step.hand [of u ?v x] by simp
  qed
next
  case (close w x)
  have "without p (closed x w) = closed x (without p w)"
    by (rule waits_eqI) (auto simp: closed_def without_slot fun_eq_iff, auto simp: without_def)
  then show ?case using wait_step.close [of "without p w" x] by simp
next
  case (leave w q)
  have "without p (without q w) = without q (without p w)"
    by (auto simp: without_def fun_eq_iff split: option.splits)
  then show ?case using wait_step.leave [of "without p w" q] by simp
qed

lemma without_steps: "wait_steps w w' \<Longrightarrow> wait_steps (without p w) (without p w')"
proof (induction rule: wait_steps.induct)
  case (go w1 w2 w3)
  with without_step [OF go(2), of p] show ?case by (auto intro: wait_steps.go)
qed (rule wait_steps.stay)

section \<open>A server's side\<close>

definition slots_of :: "server \<Rightarrow> nat \<Rightarrow> thread option" where
  "slots_of s i = (if i < length (queue s) then blocked_thread (queue s ! i) else None)"

definition receivers :: "server \<Rightarrow> thread set" where
  "receivers s = Pair (srv_pid s) ` waiting_threads s"

definition server_ok :: "server \<Rightarrow> bool" where
  "server_ok s \<longleftrightarrow> (\<exists>ms. mailbox_rel s ms)"

text \<open>What an operation makes of both: the slots \<open>sl\<close> and the waiting threads \<open>rc\<close>.\<close>

definition served :: "server \<Rightarrow> (nat \<Rightarrow> thread option) \<Rightarrow> thread set \<Rightarrow> server \<Rightarrow> bool" where
  "served s sl rc s' \<longleftrightarrow> server_ok s' \<and> srv_pid s' = srv_pid s \<and> srv_sid s' = srv_sid s
     \<and> slots_of s' = sl \<and> receivers s' = rc"

lemma slots_of_update: "i < length (queue s) \<Longrightarrow> queue s' = (queue s)[i := q] \<Longrightarrow>
    slots_of s' = (slots_of s)(i := blocked_thread q)"
  by (auto simp: slots_of_def fun_eq_iff nth_list_update)

lemma slots_of_same: "queue s' = queue s \<Longrightarrow> slots_of s' = slots_of s"
  by (simp add: slots_of_def fun_eq_iff)

lemma receivers_same: "srv_pid s' = srv_pid s \<Longrightarrow> ready_threads s' = ready_threads s \<Longrightarrow> receivers s' = receivers s"
  by (simp add: receivers_def waiting_threads_def)

lemma served_refl: "server_ok s \<Longrightarrow> served s (slots_of s) (receivers s) s"
  by (simp add: served_def)

lemma served_trans: "served s sl rc s1 \<Longrightarrow> served s1 sl' rc' s2 \<Longrightarrow> served s sl' rc' s2"
  by (simp add: served_def)

lemma servedD:
  assumes "served s sl rc s'"
  shows "server_ok s'" "srv_pid s' = srv_pid s" "srv_sid s' = srv_sid s" "slots_of s' = sl" "receivers s' = rc"
  using assms by (simp_all add: served_def)

lemma served_slot:
  "mailbox_rel s' ms \<Longrightarrow> i < length (queue s) \<Longrightarrow> queue s' = (queue s)[i := q] \<Longrightarrow>
   srv_pid s' = srv_pid s \<Longrightarrow> ready_threads s' = ready_threads s \<Longrightarrow> srv_sid s' = srv_sid s \<Longrightarrow>
   served s ((slots_of s)(i := blocked_thread q)) (receivers s) s'"
  using slots_of_update [of i s s' q] receivers_same [of s' s] by (auto simp: served_def server_ok_def)

lemma served_keep:
  "mailbox_rel s' ms \<Longrightarrow> queue s' = queue s \<Longrightarrow>
   srv_pid s' = srv_pid s \<Longrightarrow> ready_threads s' = ready_threads s \<Longrightarrow> srv_sid s' = srv_sid s \<Longrightarrow>
   served s (slots_of s) (receivers s) s'"
  using slots_of_same [of s' s] receivers_same [of s' s] by (auto simp: served_def server_ok_def)

lemma tid_small: "t < 256 \<Longrightarrow> tid_as_u8 t = t"
  by (simp add: tid_as_u8_def)

text \<open>A message that is queued takes a slot without a thread, and holds its sender there if it blocks.\<close>

lemma queue_message_waits:
  assumes ok: "server_ok s" and m: "wf_message m" and t: "t < 256" and run: "queue_message s p t m oa = (r, s')"
  shows "case r of
        Done i \<Rightarrow> slots_of s i = None \<and> served s ((slots_of s)(i := if is_blocking m then Some (p, t) else None)) (receivers s) s'
      | Fail e \<Rightarrow> served s (slots_of s) (receivers s) s'
      | Panic \<Rightarrow> False"
proof -
  obtain ms where rel: "mailbox_rel s ms" using ok by (auto simp: server_ok_def)
  have same: "srv_pid s' = srv_pid s" "ready_threads s' = ready_threads s" "srv_sid s' = srv_sid s"
    using run by (auto simp: queue_message_def find_empty_slot_def seq_def Let_def split: option.splits sum.splits if_splits)
  have np: "r \<noteq> Panic" using queue_message_no_panic [OF rel m, of p t oa] run by (simp add: no_panic_def)
  show ?thesis
  proof (cases r)
    case (Done i)
    from queue_message_Done [OF rel run [unfolded Done] m]
    have room: "\<not> is_queue_full s" "msg_has_memory m \<and> is_blocking m \<longrightarrow> oa \<noteq> None" by simp_all
    from queue_message_sim [OF rel m room(2,1), of p t] run Done obtain q where q:
      "mailbox_rel s' (ms @ [(p, m)])" "i < length (queue s)" "queue s ! i = Empty" "queue s' = (queue s)[i := q]"
      "blocked_thread q = (if is_blocking m then Some (p, tid_as_u8 t) else None)" by auto
    from served_slot [OF q(1,2,4) same] q(3,5) tid_small [OF t] Done show ?thesis
      by (auto simp: slots_of_def [of s i])
  next
    case (Fail e)
    from queue_message_fail [OF rel m run [unfolded Fail]] have "mailbox_rel s' ms" "queue s' = queue s" by simp_all
    from served_keep [OF this same] Fail show ?thesis by simp
  qed (use np in simp)
qed

lemma queue_response_waits:
  assumes ok: "server_ok s" and m: "is_blocking m" and t: "t < 256" and run: "queue_response s p t m ca = (r, s')"
  shows "case r of
        Done i \<Rightarrow> slots_of s i = None \<and> served s ((slots_of s)(i \<mapsto> (p, t))) (receivers s) s'
      | Fail e \<Rightarrow> served s (slots_of s) (receivers s) s'
      | Panic \<Rightarrow> False"
proof -
  obtain ms where rel: "mailbox_rel s ms" using ok by (auto simp: server_ok_def)
  have wf: "wf_server s" using rel by (rule mailbox_rel_wf)
  have same: "srv_pid s' = srv_pid s" "ready_threads s' = ready_threads s" "srv_sid s' = srv_sid s"
    using run by (auto simp: queue_response_def find_empty_slot_def seq_def Let_def split: option.splits sum.splits if_splits)
  note sim = queue_response_sim [OF rel run]
  show ?thesis
  proof (cases r)
    case (Done i)
    with run find_empty_slot_cases [OF wf] obtain q where
      q: "i < length (queue s)" "queue s ! i = Empty" "response_of p t m ca = Inr q" "queue s' = (queue s)[i := q]"
      by (auto simp: queue_response_def split: sum.splits)
    have "blocked_thread q = Some (p, t)"
      using q(3) m tid_small [OF t] by (cases m) (auto split: option.splits sum.splits)
    with served_slot [OF conjunct1 [OF sim] q(1,4) same] q(2) Done show ?thesis
      by (simp add: slots_of_def [of s i])
  next
    case (Fail e)
    with run find_empty_slot_cases [OF wf] have "queue s' = queue s"
      by (auto simp: queue_response_def split: sum.splits)
    from served_keep [OF conjunct1 [OF sim] this same] Fail show ?thesis by simp
  qed (use sim in simp)
qed

text \<open>A message that is taken leaves its sender where it waits.\<close>

lemma take_next_waits:
  assumes ok: "server_ok s" and run: "take_next_message s sidx = (r, s')"
  shows "served s (slots_of s) (receivers s) s'"
proof -
  obtain ms where rel: "mailbox_rel s ms" using ok by (auto simp: server_ok_def)
  have same: "srv_pid s' = srv_pid s" "ready_threads s' = ready_threads s" "srv_sid s' = srv_sid s"
    using run by (auto simp: take_next_message_def split: option.splits if_splits)
  show ?thesis
  proof (cases ms)
    case Nil
    with take_next_empty [of s sidx] rel run served_refl [OF ok] show ?thesis by simp
  next
    case (Cons pm rest)
    obtain p m where pm: "pm = (p, m)" by (cases pm)
    from take_next_sim [OF rel [unfolded Cons pm], of sidx] run obtain i q where
      q: "mailbox_rel s' rest" "i < length (queue s)" "queue s' = (queue s)[i := q]"
        "blocked_thread q = blocked_thread (queue s ! i)" by auto
    have "(slots_of s)(i := blocked_thread q) = slots_of s" using q(2,4) by (auto simp: slots_of_def)
    with served_slot [OF q(1,2,3) same] show ?thesis by simp
  qed
qed

text \<open>A reply empties its slot, and names the thread the slot held.\<close>

fun reply_thread :: "waiting_message \<Rightarrow> thread option" where
  "reply_thread (BorrowedMemory p t a) = Some (p, t)"
| "reply_thread (MovedMemory p t a sz) = Some (p, t)"
| "reply_thread (WaitingScalar p t) = Some (p, t)"
| "reply_thread _ = None"

lemma take_waiting_waits:
  assumes ok: "server_ok s" and run: "take_waiting_message s i buf = (r, s')"
  shows "case r of
        Done w \<Rightarrow> if w = NoWaitingMessage then s' = s
          else slots_of s i = reply_thread w \<and> served s ((slots_of s)(i := None)) (receivers s) s'
      | Fail e \<Rightarrow> s' = s
      | Panic \<Rightarrow> False"
proof -
  obtain ms where rel: "mailbox_rel s ms" using ok by (auto simp: server_ok_def)
  have rel': "mailbox_rel s' ms" using take_waiting_sim [OF rel run] ..
  from take_waiting_cases [of s i buf] show ?thesis
  proof (elim disjE exE conjE)
    fix w assume w: "take_waiting_message s i buf = (Done w, s\<lparr>queue := (queue s)[i := Empty],
        empty_count := empty_count s + 1, queue_tail := next_slot (length (queue s)) i\<rparr>)"
      "i < length (queue s)" "w \<noteq> NoWaitingMessage" "reply_of (queue s ! i) buf = Inr w"
    have "slots_of s i = reply_thread w"
      using w(2,3,4) by (cases "queue s ! i"; cases buf) (auto simp: slots_of_def)
    with w run served_slot [OF rel' w(2), of Empty] show ?thesis by auto
  qed (use run in auto)
qed

text \<open>The threads that wait for a message.\<close>

lemma mailbox_cong: "mailbox_rel s ms \<Longrightarrow> mailbox_rel (s\<lparr>ready_threads := r\<rparr>) ms"
  by (auto simp: mailbox_rel_def wf_server_def fifo_def)

lemma served_ready:
  assumes ok: "server_ok s" and s': "s' = s\<lparr>ready_threads := r\<rparr>"
  shows "served s (slots_of s) (Pair (srv_pid s) ` waiting_threads s') s'"
  using ok mailbox_cong unfolding s' served_def server_ok_def receivers_def by (auto simp: slots_of_def fun_eq_iff)

lemma take_available_waits:
  assumes ok: "server_ok s" and run: "take_available_thread s = (r, s')"
  shows "case r of
        Done (Some t) \<Rightarrow> (srv_pid s, t) \<in> receivers s \<and> served s (slots_of s) (receivers s - {(srv_pid s, t)}) s'
      | Done None \<Rightarrow> s' = s
      | _ \<Rightarrow> False"
  using take_available_thread_sim [of s]
proof (elim disjE exE conjE)
  fix t s1
  assume t: "t \<in> waiting_threads s" "take_available_thread s = (Done (Some t), s1)"
    "waiting_threads s1 = waiting_threads s - {t}"
  obtain x where "s1 = s\<lparr>ready_threads := x\<rparr>"
    using t(2) by (auto simp: take_available_thread_def split: if_splits option.splits prod.splits)
  from served_ready [OF ok this] have "served s (slots_of s) (receivers s - {(srv_pid s, t)}) s1"
    unfolding t(3) by (simp add: receivers_def image_set_diff inj_on_def)
  then show ?thesis using t run by (simp add: receivers_def)
qed (use run in auto)

lemma park_waits:
  assumes ok: "server_ok s" and t: "t < 32" and run: "server_park_thread s t = (r, s')"
  shows "case r of
        Done _ \<Rightarrow> (srv_pid s, t) \<notin> receivers s \<and> served s (slots_of s) (insert (srv_pid s, t) (receivers s)) s'
      | Fail _ \<Rightarrow> False
      | Panic \<Rightarrow> (srv_pid s, t) \<in> receivers s"
proof (cases "t \<in> waiting_threads s")
  case True
  with server_park_thread_sim [OF t, of s] run show ?thesis by (auto simp: receivers_def)
next
  case False
  with server_park_thread_sim [OF t, of s] run have r: "r = Done ()" "waiting_threads s' = insert t (waiting_threads s)"
    by auto
  obtain x where "s' = s\<lparr>ready_threads := x\<rparr>"
    using run r(1) by (auto simp: server_park_thread_def split: if_splits)
  from served_ready [OF ok this] have "served s (slots_of s) (insert (srv_pid s, t) (receivers s)) s'"
    unfolding r(2) by (simp add: receivers_def)
  then show ?thesis using r(1) False by (auto simp: receivers_def)
qed

lemma return_available_waits: "return_available_thread = server_park_thread"
  by (simp add: fun_eq_iff return_available_thread_def server_park_thread_def)

end
