(* ===== verification/Kernel_Messages.thy ===== *)
theory Kernel_Messages
  imports Message_Memory Waiting_Threads Permission_Requests Irq_Table
begin

text \<open>
  Messages through the whole kernel (\<open>send_message\<close>, \<open>receive_message\<close>, \<open>return_memory\<close> and
  \<open>return_result\<close> of \<open>xous/kernel/src/syscall.rs\<close>): the connection, the server's queue, the memory
  that goes with the message, the states of the two threads and the scheduler, composed as the
  handlers compose them.
\<close>

section \<open>The state of the kernel\<close>

text \<open>
  \<open>k_results\<close> are the results that wait in the saved registers of the threads, and \<open>k_tid\<close> is the
  thread of the current process that runs.
\<close>

record kernel =
  k_procs :: "pid \<Rightarrow> (process \<times> mapping) option"
  k_sched :: scheduler
  k_current :: pid
  k_tid :: tid
  k_vm :: vm
  k_servers :: "server option list"
  k_results :: "thread \<Rightarrow> xresult option"
  k_requests :: permission_requests
  k_irqs :: irq_state

definition k_process :: "kernel \<Rightarrow> pid \<Rightarrow> (process \<times> mapping) option" where
  "k_process k p = (if 1 \<le> p \<and> p \<le> MAX_PROCESS_COUNT then k_procs k p else None)"

text \<open>The memory part, and the thread part.\<close>

definition k_mem :: "kernel \<Rightarrow> memory_services" where
  "k_mem k = \<lparr>mem_procs = k_procs k, mem_current = k_current k, mem_vm = k_vm k\<rparr>"

definition on_mem :: "(memory_services \<Rightarrow> 'a res \<times> memory_services) \<Rightarrow> kernel \<Rightarrow> 'a res \<times> kernel" where
  "on_mem f k = (case f (k_mem k) of (r, m) \<Rightarrow> (r, k\<lparr>k_procs := mem_procs m, k_vm := mem_vm m\<rparr>))"

definition k_threads :: "kernel \<Rightarrow> thread_system" where
  "k_threads k = \<lparr>procs = (\<lambda>p. map_option fst (k_procs k p)), sched = k_sched k\<rparr>"

definition on_threads :: "(thread_system \<Rightarrow> 'a res \<times> thread_system) \<Rightarrow> kernel \<Rightarrow> 'a res \<times> kernel" where
  "on_threads f k =
     (case f (k_threads k) of (r, y) \<Rightarrow>
        (r, k\<lparr>k_procs := (\<lambda>p. case k_procs k p of None \<Rightarrow> None
               | Some (_, mp) \<Rightarrow> map_option (\<lambda>pr. (pr, mp)) (procs y p)),
              k_sched := sched y\<rparr>))"

text \<open>A missing process makes the \<open>unwrap\<close> panic.\<close>

definition change_thread :: "pid \<Rightarrow> tid \<Rightarrow> thread_state \<Rightarrow> kernel \<Rightarrow> unit res \<times> kernel" where
  "change_thread p t st k =
     (if k_process k p = None then (Panic, k) else on_threads (on_process p (set_thread_state t st)) k)"

definition set_thread_result :: "pid \<Rightarrow> tid \<Rightarrow> xresult \<Rightarrow> kernel \<Rightarrow> unit res \<times> kernel" where
  "set_thread_result p t x k =
     (if k_current k \<noteq> p \<and> k_process k p = None then (Fail ProcessNotFound, k)
      else if k_current k \<noteq> p \<and> k_process k (k_current k) = None then (Panic, k)
      else (Done (), k\<lparr>k_results := (k_results k)((p, t) \<mapsto> x)\<rparr>))"

text \<open>\<open>ok\<close> drops an error, \<open>unwrap\<close> and \<open>expect\<close> panic on it.\<close>

definition ignored :: "'a res \<times> kernel \<Rightarrow> unit res \<times> kernel" where
  "ignored x = (case x of (Panic, k) \<Rightarrow> (Panic, k) | (_, k) \<Rightarrow> (Done (), k))"

definition unwrapped :: "'a res \<times> kernel \<Rightarrow> 'a res \<times> kernel" where
  "unwrapped x = (case x of (Done a, k) \<Rightarrow> (Done a, k) | (_, k) \<Rightarrow> (Panic, k))"

definition wake_senders :: "nat \<Rightarrow> kernel \<Rightarrow> unit res \<times> kernel" where
  "wake_senders sidx = on_threads (wake_all_threads_with_state (RetryQueueFull sidx) (2 ^ 32 - 1))"

text \<open>The switch to the chosen thread; \<open>usage\<close> comes from the hardware timer.\<close>

definition resume :: "usize \<Rightarrow> kernel \<Rightarrow> xresult res \<times> kernel" where
  "resume usage k =
     (case activate_current usage (k_current k, k_tid k) (k_sched k) of
        (Done Resume, s) \<Rightarrow> (Done R_ResumeProcess, k\<lparr>k_sched := s\<rparr>)
      | (Done (Switch nxt _), s) \<Rightarrow>
          if k_process k (fst nxt) = None then (Panic, k\<lparr>k_sched := s\<rparr>)
          else (Done R_ResumeProcess, k\<lparr>k_sched := s, k_current := fst nxt, k_tid := snd nxt\<rparr>)
      | (Fail e, s) \<Rightarrow> (Fail e, k\<lparr>k_sched := s\<rparr>)
      | (Panic, s) \<Rightarrow> (Panic, k\<lparr>k_sched := s\<rparr>))"

definition server_from_sidx :: "kernel \<Rightarrow> nat \<Rightarrow> server option" where
  "server_from_sidx k i = (if length (k_servers k) \<le> i then None else k_servers k ! i)"

definition put_server :: "nat \<Rightarrow> server \<Rightarrow> kernel \<Rightarrow> kernel" where
  "put_server i s k = k\<lparr>k_servers := (k_servers k)[i := Some s]\<rparr>"

text \<open>An operation on a server that was located; \<open>expect\<close> if it is not there.\<close>

definition on_server :: "nat \<Rightarrow> (server \<Rightarrow> 'a res \<times> server) \<Rightarrow> kernel \<Rightarrow> 'a res \<times> kernel" where
  "on_server i f k =
     (case server_from_sidx k i of
        None \<Rightarrow> (Panic, k)
      | Some s \<Rightarrow> (case f s of (r, s') \<Rightarrow> (r, put_server i s' k)))"

definition sidx_from_sid :: "sid \<Rightarrow> pid \<Rightarrow> kernel \<Rightarrow> nat option" where
  "sidx_from_sid sd p k =
     find_index (\<lambda>s. case s of None \<Rightarrow> False | Some sv \<Rightarrow> srv_sid sv = sd \<and> srv_pid sv = p) (k_servers k)"

section \<open>Sending\<close>

text \<open>The memory of a message moves or is lent to the server, and the message carries its new place.\<close>

definition place_memory :: "memory_message \<Rightarrow> usize \<Rightarrow> memory_message res" where
  "place_memory m virt =
     (case memory_range_new virt (mr_size (mm_buf m)) of
        Inl e \<Rightarrow> Fail e | Inr r \<Rightarrow> Done (m\<lparr>mm_buf := r\<rparr>))"

definition hand_memory :: "(usize \<Rightarrow> pid \<Rightarrow> usize \<Rightarrow> usize \<Rightarrow> memory_services \<Rightarrow> usize res \<times> memory_services)
    \<Rightarrow> (memory_message \<Rightarrow> message) \<Rightarrow> memory_message \<Rightarrow> pid \<Rightarrow> kernel \<Rightarrow> message res \<times> kernel" where
  "hand_memory f c m q k =
     seq (on_mem (f (mr_addr (mm_buf m)) q 0 (mr_size (mm_buf m))) k) (\<lambda>virt k1.
       seq (place_memory m virt, k1) (\<lambda>m1 k2. (Done (c m1), k2)))"

fun translate_message :: "message \<Rightarrow> pid \<Rightarrow> kernel \<Rightarrow> message res \<times> kernel" where
  "translate_message (Scalar m) q k = (Done (Scalar m), k)"
| "translate_message (BlockingScalar m) q k = (Done (BlockingScalar m), k)"
| "translate_message (Move m) q k = hand_memory send_memory Move m q k"
| "translate_message (BlockingMove m) q k = hand_memory (\<lambda>a q d n. lend_memory a q d n True) BlockingMove m q k"
| "translate_message (MutableBorrow m) q k = hand_memory (\<lambda>a q d n. lend_memory a q d n True) MutableBorrow m q k"
| "translate_message (Borrow m) q k = hand_memory (\<lambda>a q d n. lend_memory a q d n False) Borrow m q k"

text \<open>\<open>queue_server_message\<close> and \<open>remember_server_message\<close> visit the server's address space.\<close>

definition at_server :: "nat \<Rightarrow> (server \<Rightarrow> 'a res \<times> server) \<Rightarrow> kernel \<Rightarrow> 'a res \<times> kernel" where
  "at_server sidx f k =
     (case server_from_sidx k sidx of
        None \<Rightarrow> (Fail ServerNotFound, k)
      | Some sv \<Rightarrow>
          if k_process k (srv_pid sv) = None then (Fail ProcessNotFound, k)
          else case on_server sidx f k of (r, k1) \<Rightarrow>
            if k_process k1 (k_current k1) = None then (Panic, k1) else (r, k1))"

definition queue_server_message :: "nat \<Rightarrow> pid \<Rightarrow> tid \<Rightarrow> message \<Rightarrow> usize option \<Rightarrow> kernel \<Rightarrow> nat res \<times> kernel" where
  "queue_server_message sidx p t m oa = at_server sidx (\<lambda>s. queue_message s p t m oa)"

definition remember_server_message :: "nat \<Rightarrow> pid \<Rightarrow> tid \<Rightarrow> message \<Rightarrow> usize option \<Rightarrow> kernel \<Rightarrow> nat res \<times> kernel" where
  "remember_server_message sidx p t m ca = at_server sidx (\<lambda>s. queue_response s p t m ca)"

definition client_address :: "message \<Rightarrow> usize option" where
  "client_address m = (case memory_message_of m of None \<Rightarrow> None | Some mm \<Rightarrow> nz (mr_addr (mm_buf mm)))"

text \<open>A sender that blocks is remembered; if that fails, the thread that was taken waits again.\<close>

definition keep_sender :: "nat \<Rightarrow> tid \<Rightarrow> tid \<Rightarrow> message \<Rightarrow> usize option \<Rightarrow> kernel \<Rightarrow> nat res \<times> kernel" where
  "keep_sender sidx server_tid sender_tid m ca k =
     (if \<not> is_blocking m then (Done 0, k)
      else case remember_server_message sidx (k_current k) sender_tid m ca k of
          (Fail e, k1) \<Rightarrow> seq (on_server sidx (\<lambda>s. return_available_thread s server_tid) k1) (\<lambda>_ k2. (Fail e, k2))
        | x \<Rightarrow> x)"

text \<open>The message goes to the waiting thread \<open>server_tid\<close>, which becomes ready; a result for a
  process that is gone is dropped.\<close>

definition hand_to_thread :: "nat \<Rightarrow> pid \<Rightarrow> tid \<Rightarrow> tid \<Rightarrow> message \<Rightarrow> usize option \<Rightarrow> kernel \<Rightarrow> unit res \<times> kernel" where
  "hand_to_thread sidx server_pid server_tid sender_tid m ca k =
     seq (keep_sender sidx server_tid sender_tid m ca k) (\<lambda>idx k1.
       seq (change_thread server_pid server_tid TS_Ready k1) (\<lambda>_ k2.
         ignored (set_thread_result server_pid server_tid
           (R_MessageEnvelope (envelope_from (of_nat sidx) idx (Some (k_current k)) m)) k2)))"

text \<open>If a thread of the server waits, it gets the message; otherwise the message is queued.\<close>

definition hand_or_queue :: "nat \<Rightarrow> pid \<Rightarrow> tid \<Rightarrow> message \<Rightarrow> usize option \<Rightarrow> kernel \<Rightarrow> unit res \<times> kernel" where
  "hand_or_queue sidx server_pid sender_tid m ca k =
     seq (on_server sidx take_available_thread k) (\<lambda>free k1.
       case free of
         Some server_tid \<Rightarrow> hand_to_thread sidx server_pid server_tid sender_tid m ca k1
       | None \<Rightarrow> seq (queue_server_message sidx (k_current k1) sender_tid m ca k1) (\<lambda>_ k2. (Done (), k2)))"

definition send_message_inner :: "tid \<Rightarrow> nat \<Rightarrow> message \<Rightarrow> kernel \<Rightarrow> unit res \<times> kernel" where
  "send_message_inner sender_tid sidx m k =
     (case server_from_sidx k sidx of
        None \<Rightarrow> (Panic, k)
      | Some sv \<Rightarrow>
          if is_queue_full sv then (Fail ServerQueueFull, k)
          else seq (translate_message m (srv_pid sv) k)
                 (\<lambda>m1. hand_or_queue sidx (srv_pid sv) sender_tid m1 (client_address m)))"

definition send_message :: "usize \<Rightarrow> tid \<Rightarrow> cid \<Rightarrow> message \<Rightarrow> kernel \<Rightarrow> xresult res \<times> kernel" where
  "send_message usage sender_tid c m k =
     (case k_process k (k_current k) of
        None \<Rightarrow> (Panic, k)
      | Some (pr, _) \<Rightarrow>
          (case connection (proc_connections pr) c of
             Inl e \<Rightarrow> (Fail e, k)
           | Inr i \<Rightarrow>
               (case proc_connections pr ! i of
                  Connected sidx _ _ _ \<Rightarrow>
                    seq (send_message_inner sender_tid sidx m k) (\<lambda>_ k1.
                      seq (if is_blocking m then change_thread (k_current k1) sender_tid (WaitBlocking sidx) k1
                           else set_thread_result (k_current k1) sender_tid R_Ok k1)
                        (\<lambda>_ k2. resume usage k2))
                | _ \<Rightarrow> (Fail ServerNotFound, k))))"

section \<open>Receiving\<close>

definition receive_message :: "usize \<Rightarrow> tid \<Rightarrow> sid \<Rightarrow> bool \<Rightarrow> kernel \<Rightarrow> xresult res \<times> kernel" where
  "receive_message usage t sd blocking k =
     (case sidx_from_sid sd (k_current k) k of
        None \<Rightarrow> (Fail ServerNotFound, k)
      | Some sidx \<Rightarrow>
          (case server_from_sidx k sidx of
             None \<Rightarrow> (Fail ServerNotFound, k)
           | Some sv \<Rightarrow>
               if srv_pid sv \<noteq> k_current k then (Fail ServerNotFound, k)
               else (case take_next_message sv (of_nat sidx) of
                  (Some env, sv1) \<Rightarrow>
                    let k1 = put_server sidx sv1 k in
                    seq (if is_queue_full sv \<and> \<not> is_queue_full sv1 then wake_senders sidx k1 else (Done (), k1))
                      (\<lambda>_ k2. (Done (R_MessageEnvelope env), k2))
                | (None, sv1) \<Rightarrow>
                    let k1 = put_server sidx sv1 k in
                    if \<not> blocking then (Done R_None, k1)
                    else seq (on_server sidx (\<lambda>s. server_park_thread s t) k1) (\<lambda>_ k2.
                      seq (change_thread (k_current k2) t (WaitReceive sidx) k2) (\<lambda>_ k3. resume usage k3)))))"

section \<open>Answering\<close>

text \<open>The start of both replies: the slot of the sender is taken, and senders that wait for room wake.\<close>

definition take_reply :: "message_sender \<Rightarrow> memory_range option \<Rightarrow> kernel \<Rightarrow> (nat \<times> waiting_message) res \<times> kernel" where
  "take_reply sender buf k =
     (let s = sender_id_from_usize sender; sidx = unat (sid_sidx s) in
      case server_from_sidx k sidx of
        None \<Rightarrow> (Fail ServerNotFound, k)
      | Some sv \<Rightarrow>
          if srv_pid sv \<noteq> k_current k then (Fail ServerNotFound, k)
          else (case take_waiting_message sv (unat (sid_idx s)) buf of
             (Done w, sv1) \<Rightarrow>
               let k1 = put_server sidx sv1 k in
               seq (if is_queue_full sv \<and> \<not> is_queue_full sv1 then wake_senders sidx k1 else (Done (), k1))
                 (\<lambda>_ k2. (Done (sidx, w), k2))
           | (Fail e, sv1) \<Rightarrow> (Fail e, put_server sidx sv1 k)
           | (Panic, sv1) \<Rightarrow> (Panic, put_server sidx sv1 k)))"

text \<open>The answer reaches the sender, which becomes ready; the server goes on with \<open>Ok\<close>.\<close>

definition answer :: "pid \<Rightarrow> tid \<Rightarrow> xresult \<Rightarrow> kernel \<Rightarrow> unit res \<times> kernel" where
  "answer p t x k = seq (change_thread p t TS_Ready k) (\<lambda>_. set_thread_result p t x)"

definition answered :: "usize \<Rightarrow> tid \<Rightarrow> kernel \<Rightarrow> xresult res \<times> kernel" where
  "answered usage server_tid k =
     seq (set_thread_result (k_current k) server_tid R_Ok k) (\<lambda>_. resume usage)"

definition return_result :: "usize \<Rightarrow> tid \<Rightarrow> message_sender \<Rightarrow> xresult \<Rightarrow> kernel \<Rightarrow> xresult res \<times> kernel" where
  "return_result usage server_tid sender x k =
     seq (take_reply sender None k) (\<lambda>(sidx, w) k1.
       case w of
         WaitingScalar p t \<Rightarrow> seq (answer p t x k1) (\<lambda>_. answered usage server_tid)
       | ScalarMessageTerminated \<Rightarrow> answered usage server_tid k1
       | _ \<Rightarrow> (Fail DoubleFree, k1))"

text \<open>\<open>MemoryManager::unmap_range\<close> in the current process.\<close>

definition unmap_current :: "usize \<Rightarrow> usize \<Rightarrow> kernel \<Rightarrow> unit res \<times> kernel" where
  "unmap_current a len k =
     (case k_process k (k_current k) of
        None \<Rightarrow> (Panic, k)
      | Some (_, mp) \<Rightarrow> (case unmap_range (mem_get (k_mem k)) mp a len (k_vm k) of (x, v) \<Rightarrow> (x, k\<lparr>k_vm := v\<rparr>)))"

text \<open>Memory of a client that is gone is unmapped at the server.\<close>

definition forget_memory :: "memory_range \<Rightarrow> kernel \<Rightarrow> unit res \<times> kernel" where
  "forget_memory r k =
     (case k_process k (k_current k) of
        None \<Rightarrow> (Panic, k)
      | Some (_, mp) \<Rightarrow>
          seq (check_range_accessible mp (mr_addr r) (mr_size r) (k_vm k), k) (\<lambda>_. unmap_current (mr_addr r) (mr_size r)))"

definition return_memory_call ::
    "usize \<Rightarrow> tid \<Rightarrow> message_sender \<Rightarrow> memory_range \<Rightarrow> usize option \<Rightarrow> usize option \<Rightarrow> kernel \<Rightarrow> xresult res \<times> kernel" where
  "return_memory_call usage server_tid sender buf offset valid k =
     seq (take_reply sender (Some buf) k) (\<lambda>(sidx, w) k1.
       case w of
         BorrowedMemory p t ca \<Rightarrow>
           seq (on_mem (return_memory (mr_addr buf) p ca (mr_size buf)) k1) (\<lambda>_ k2.
             case memory_range_new ca (mr_size buf) of
               Inl e \<Rightarrow> (Fail e, k2)
             | Inr r \<Rightarrow> seq (answer p t (R_MemoryReturned r offset valid) k2) (\<lambda>_. answered usage server_tid))
       | MovedMemory p t ca sz \<Rightarrow>
           seq (on_mem (send_memory (mr_addr buf) p 0 (mr_size buf)) k1) (\<lambda>virt k2.
             case memory_range_new virt (mr_size buf) of
               Inl e \<Rightarrow> (Fail e, k2)
             | Inr r \<Rightarrow> seq (on_mem (clear_shared_range p ca sz ClearFree) k2) (\<lambda>_ k3.
                 seq (answer p t (R_MemoryReturned r offset valid) k3) (\<lambda>_. answered usage server_tid)))
       | ForgetMemory r \<Rightarrow> seq (forget_memory r k1) (\<lambda>_. answered usage server_tid)
       | _ \<Rightarrow> (Fail DoubleFree, k1))"

section \<open>Who waits\<close>

text \<open>The two sides of waiting, read off the kernel.\<close>

definition k_thread_states :: "kernel \<Rightarrow> pid \<Rightarrow> thread_state list option" where
  "k_thread_states k p = map_option (threads \<circ> fst) (k_process k p)"

fun wait_of :: "thread_state \<Rightarrow> wait option" where
  "wait_of (WaitBlocking x) = Some (Sending x)"
| "wait_of (WaitReceive x) = Some (Receiving x)"
| "wait_of _ = None"

definition k_waits :: "kernel \<Rightarrow> waits" where
  "k_waits k =
     \<lparr>w_for = (\<lambda>(p, t). case k_thread_states k p of None \<Rightarrow> None
         | Some ts \<Rightarrow> if t < length ts then wait_of (ts ! t) else None),
      w_slot = (\<lambda>x. case server_from_sidx k x of None \<Rightarrow> (\<lambda>_. None) | Some s \<Rightarrow> slots_of s),
      w_recv = (\<lambda>x. case server_from_sidx k x of None \<Rightarrow> {} | Some s \<Rightarrow> receivers s)\<rparr>"

definition k_ok :: "kernel \<Rightarrow> bool" where
  "k_ok k \<longleftrightarrow> (\<forall>x s. server_from_sidx k x = Some s \<longrightarrow> server_ok s)"

lemma seq_run:
  assumes "seq x f = (r, s')" and "r \<noteq> Panic"
  shows "(\<exists>e. x = (Fail e, s') \<and> r = Fail e) \<or> (\<exists>a s. x = (Done a, s) \<and> f a s = (r, s'))"
  using assms by (cases x; cases "fst x") auto

lemma seq_Done: "seq x f = (Done b, s') \<Longrightarrow> \<exists>a s. x = (Done a, s) \<and> f a s = (Done b, s')"
  using seq_run [of x f "Done b" s'] by auto

text \<open>Operations that concern neither side, nor who runs.\<close>

definition still :: "kernel \<Rightarrow> kernel \<Rightarrow> bool" where
  "still k k' \<longleftrightarrow> k_waits k' = k_waits k \<and> k_servers k' = k_servers k \<and> k_current k' = k_current k"

lemma still_refl [simp]: "still k k"
  by (simp add: still_def)

lemma still_trans: "still k k1 \<Longrightarrow> still k1 k2 \<Longrightarrow> still k k2"
  by (simp add: still_def)

lemma server_same: "k_servers k' = k_servers k \<Longrightarrow> server_from_sidx k' x = server_from_sidx k x"
  by (simp add: server_from_sidx_def)

lemma still_ok: "still k k' \<Longrightarrow> k_ok k \<Longrightarrow> k_ok k'"
  using server_same [of k' k] by (simp add: still_def k_ok_def)

lemma stillI: "k_thread_states k' = k_thread_states k \<Longrightarrow> k_servers k' = k_servers k \<Longrightarrow> k_current k' = k_current k \<Longrightarrow> still k k'"
  using server_same [of k' k] by (simp add: still_def k_waits_def)

lemma k_process_some: "k_process k p = Some x \<longleftrightarrow> 1 \<le> p \<and> p \<le> MAX_PROCESS_COUNT \<and> k_procs k p = Some x"
  by (auto simp: k_process_def)

text \<open>The memory operations.\<close>

definition thread_part :: "process \<Rightarrow> pid \<times> thread_state list \<times> thread_priority list" where
  "thread_part pr = (proc_pid pr, threads pr, thread_priorities pr)"

lemma thread_part_eq: "thread_part pr' = thread_part pr \<longleftrightarrow>
    proc_pid pr' = proc_pid pr \<and> threads pr' = threads pr \<and> thread_priorities pr' = thread_priorities pr"
  by (simp add: thread_part_def)

definition keeps_threads :: "memory_services \<Rightarrow> memory_services \<Rightarrow> bool" where
  "keeps_threads m m' \<longleftrightarrow> (\<forall>p. map_option (thread_part \<circ> fst) (mem_procs m' p) = map_option (thread_part \<circ> fst) (mem_procs m p))"

lemma keeps_thread_states:
  assumes "keeps_threads m m'"
  shows "map_option (threads \<circ> fst) (mem_procs m' p) = map_option (threads \<circ> fst) (mem_procs m p)"
proof -
  have "map_option (fst \<circ> snd) (map_option (thread_part \<circ> fst) (mem_procs m' p))
      = map_option (fst \<circ> snd) (map_option (thread_part \<circ> fst) (mem_procs m p))"
    using assms by (simp only: keeps_threads_def)
  then show ?thesis by (simp add: option.map_comp comp_def thread_part_def)
qed

lemma keeps_threads_refl [simp]: "keeps_threads m m"
  by (simp add: keeps_threads_def)

lemma keeps_threads_trans: "keeps_threads m m1 \<Longrightarrow> keeps_threads m1 m2 \<Longrightarrow> keeps_threads m m2"
  by (simp add: keeps_threads_def)

lemma keeps_threads_vm [simp]: "keeps_threads m (m'\<lparr>mem_vm := v\<rparr>) = keeps_threads m m'"
  by (simp add: keeps_threads_def)

lemma keeps_threads_put: "mem_process m p = Done (pr, mp) \<Longrightarrow> thread_part pr' = thread_part pr \<Longrightarrow> keeps_threads m (put_process p pr' m)"
  by (auto simp: keeps_threads_def put_process_def mem_process_def option.map_comp comp_def split_beta
      split: option.splits if_splits)

lemma keeps_threads_seq:
  "keeps_threads m (snd x) \<Longrightarrow> (\<And>a m1. x = (Done a, m1) \<Longrightarrow> keeps_threads m m1 \<Longrightarrow> keeps_threads m (snd (f a m1)))
   \<Longrightarrow> keeps_threads m (snd (seq x f))"
  by (cases x; cases "fst x") auto

lemma find_virtual_address_part: "find_virtual_address mq s dst len pr = (r, pr') \<Longrightarrow> thread_part pr' = thread_part pr"
  by (auto simp: find_virtual_address_def found_address_def Let_def thread_part_def split: outcome.splits option.splits if_splits)

lemma find_virtual_address_threads: "find_virtual_address mq s dst len pr = (r, pr') \<Longrightarrow> threads pr' = threads pr"
  by (drule find_virtual_address_part) (simp add: thread_part_eq)

lemma receiver_threads: "keeps_threads m (snd (receiver q dst len m))"
  by (auto simp: receiver_def split: outcome.splits prod.splits
      dest!: find_virtual_address_part intro!: keeps_threads_seq intro: keeps_threads_put)

lemma on_vm_threads: "keeps_threads m0 m \<Longrightarrow> keeps_threads m0 (snd (on_vm f x m))"
  by (auto simp: on_vm_def split: outcome.splits prod.splits)

lemma release_hint_part [simp]: "thread_part (release_allocation_hint src pr) = thread_part pr"
  by (simp add: release_allocation_hint_def thread_part_def)

lemma send_memory_threads: "keeps_threads m (snd (send_memory src q dst len m))"
proof -
  have put: "keeps_threads m (put_process p (release_allocation_hint src pr) m1)"
    if "keeps_threads m m1" "mem_process m1 p = Done (pr, mp)" for p pr m1 mp
    using keeps_threads_trans [OF that(1) keeps_threads_put [OF that(2)]] by simp
  show ?thesis
    by (auto simp: send_memory_def split_beta intro!: keeps_threads_seq receiver_threads on_vm_threads put)
qed

lemma lend_memory_threads: "keeps_threads m (snd (lend_memory src q dst len mutable m))"
  by (auto simp: lend_memory_def split_beta intro!: keeps_threads_seq receiver_threads on_vm_threads)

lemma return_memory_threads: "keeps_threads m (snd (return_memory src q dst len m))"
  by (auto simp: return_memory_def split_beta intro!: keeps_threads_seq on_vm_threads)

lemma clear_shared_threads: "keeps_threads m (snd (clear_shared_range q dst len mode m))"
  by (auto simp: clear_shared_range_def split: outcome.splits prod.splits intro!: on_vm_threads)

lemmas memory_keeps_threads = send_memory_threads lend_memory_threads return_memory_threads clear_shared_threads

lemma on_mem_still:
  assumes run: "on_mem f k = (r, k')" and f: "keeps_threads (k_mem k) (snd (f (k_mem k)))"
  shows "still k k'"
proof -
  obtain m where m: "f (k_mem k) = (r, m)" "k' = k\<lparr>k_procs := mem_procs m, k_vm := mem_vm m\<rparr>"
    using run by (auto simp: on_mem_def split: prod.splits)
  have "map_option (threads \<circ> fst) (mem_procs m p) = map_option (threads \<circ> fst) (k_procs k p)" for p
    using keeps_thread_states [OF f, of p] m(1) by (simp add: k_mem_def)
  then show ?thesis by (intro stillI) (auto simp: m(2) k_thread_states_def k_process_def fun_eq_iff)
qed

lemma set_thread_result_still: "set_thread_result p t x k = (r, k') \<Longrightarrow> still k k' \<and> k_tid k' = k_tid k"
  by (auto simp: set_thread_result_def k_thread_states_def k_process_def fun_eq_iff split: if_splits intro!: stillI)

text \<open>The thread operations.\<close>

lemma set_thread_state_threads:
  assumes "set_thread_state t st (pr, s) = (r, (pr', s'))"
  shows "if r = Done () then t < length (threads pr) \<and> threads pr' = (threads pr)[t := st] else pr' = pr"
proof (cases "has_thread pr t")
  case False
  with assms show ?thesis by (auto simp: set_thread_state_def)
next
  case True
  with assms set_thread_state_run [OF True, of st s] show ?thesis
    by (auto simp: has_thread_def split: outcome.splits prod.splits)
qed

lemma get_k_process: "get_process (k_threads k) p = map_option fst (k_process k p)"
  by (simp add: get_process_def k_threads_def k_process_def)

lemma on_threads_states:
  assumes "on_threads f k = (r, k')"
  obtains y where "f (k_threads k) = (r, y)" "k_servers k' = k_servers k" "k_current k' = k_current k"
    and "\<And>p. k_thread_states k' p = (if k_process k p = None then None else map_option threads (procs y p))"
proof -
  obtain y where y: "f (k_threads k) = (r, y)" and k': "k' = k\<lparr>k_procs := (\<lambda>p. case k_procs k p of None \<Rightarrow> None
               | Some (_, mp) \<Rightarrow> map_option (\<lambda>pr. (pr, mp)) (procs y p)), k_sched := sched y\<rparr>"
    using assms by (auto simp: on_threads_def split: prod.splits)
  show thesis
    by (rule that [OF y]) (auto simp: k' k_thread_states_def k_process_def option.map_comp comp_def split: option.splits)
qed

lemma change_thread_states:
  assumes run: "change_thread p t st k = (Done (), k')"
  shows "\<exists>ts. k_thread_states k p = Some ts \<and> t < length ts \<and> k_thread_states k' = (k_thread_states k)(p \<mapsto> ts[t := st])
    \<and> k_servers k' = k_servers k \<and> k_current k' = k_current k"
proof -
  obtain pr mp where pr: "k_process k p = Some (pr, mp)"
    using run by (auto simp: change_thread_def split: if_splits)
  have run': "on_threads (on_process p (set_thread_state t st)) k = (Done (), k')"
    using run pr by (simp add: change_thread_def)
  obtain y where y: "on_process p (set_thread_state t st) (k_threads k) = (Done (), y)"
    and k': "k_servers k' = k_servers k" "k_current k' = k_current k"
    and g: "\<And>q. k_thread_states k' q = (if k_process k q = None then None else map_option threads (procs y q))"
    using run' by (rule on_threads_states) blast
  obtain pr' s' where st: "set_thread_state t st (pr, sched (k_threads k)) = (Done (), (pr', s'))"
    and y': "procs y = (procs (k_threads k))(p \<mapsto> pr')"
    using y pr by (auto simp: on_process_def get_k_process split: prod.splits)
  note t = set_thread_state_threads [OF st]
  have "k_thread_states k' = (k_thread_states k)(p \<mapsto> (threads pr)[t := st])"
    using t pr by (auto simp: g y' fun_eq_iff k_thread_states_def [of k] k_threads_def k_process_def)
  then show ?thesis using t pr k' by (simp add: k_thread_states_def)
qed

text \<open>Waking a sender that waits for room concerns neither side.\<close>

definition same_waits :: "thread_state list \<Rightarrow> thread_state list \<Rightarrow> bool" where
  "same_waits ts ts' \<longleftrightarrow> map wait_of ts' = map wait_of ts"

lemma wake_loop_waits:
  "wake_loop is st n (pr, s) = (r, (pr', s')) \<Longrightarrow> wait_of st = None \<Longrightarrow> same_waits (threads pr) (threads pr')"
proof (induction "is" arbitrary: n pr s)
  case (Cons t ts)
  show ?case
  proof (cases "threads pr ! t = st")
    case False
    with Cons.prems have "wake_loop ts st n (pr, s) = (r, (pr', s'))" by simp
    from Cons.IH [OF this Cons.prems(2)] show ?thesis .
  next
    case True
    obtain r1 pr1 s1 where st: "set_thread_state t TS_Ready (pr, s) = (r1, (pr1, s1))" by (metis prod.exhaust)
    note t = set_thread_state_threads [OF st]
    have pr1: "same_waits (threads pr) (threads pr1)"
    proof (cases "r1 = Done ()")
      case d: True
      with t have "t < length (threads pr)" "threads pr1 = (threads pr)[t := TS_Ready]" by simp_all
      moreover have "map wait_of (threads pr) ! t = None" using calculation(1) True Cons.prems(2) by simp
      ultimately show ?thesis by (metis same_waits_def list_update_id map_update wait_of.simps(3,4))
    qed (use t in \<open>simp add: same_waits_def\<close>)
    show ?thesis
    proof (cases "r1 = Done () \<and> n - 1 \<noteq> 0")
      case True
      with Cons.prems(1) st \<open>threads pr ! t = st\<close> have "wake_loop ts st (n - 1) (pr1, s1) = (r, (pr', s'))" by simp
      from Cons.IH [OF this Cons.prems(2)] pr1 show ?thesis by (simp add: same_waits_def)
    next
      case False
      with Cons.prems(1) st \<open>threads pr ! t = st\<close> have "pr' = pr1" by (cases r1) auto
      with pr1 show ?thesis by simp
    qed
  qed
qed (simp add: same_waits_def)

lemma wake_processes_waits:
  "wake_processes ps st n y = (r, y') \<Longrightarrow> wait_of st = None \<Longrightarrow>
   rel_option same_waits (map_option threads (procs y p)) (map_option threads (procs y' p))"
proof (induction ps arbitrary: y)
  case Nil
  then show ?case by (cases "procs y p") (auto simp: same_waits_def)
next
  case (Cons q qs)
  show ?case
  proof (cases "get_process y q")
    case None
    with Cons show ?thesis by simp
  next
    case (Some pr)
    then have q: "procs y q = Some pr" by (simp add: get_process_def split: if_splits)
    obtain r1 pr1 s1 where w: "wake_threads_with_state st n (pr, sched y) = (r1, (pr1, s1))" by (metis prod.exhaust)
    have pr1: "same_waits (threads pr) (threads pr1)"
    proof (cases "n = 0")
      case True
      with w show ?thesis by (simp add: wake_threads_with_state_def same_waits_def)
    next
      case False
      with w have "wake_loop [1..<MAX_THREAD_COUNT] st n (pr, sched y) = (r1, (pr1, s1))"
        by (simp add: wake_threads_with_state_def)
      from wake_loop_waits [OF this Cons.prems(2)] show ?thesis .
    qed
    let ?y1 = "\<lparr>procs = (procs y)(q \<mapsto> pr1), sched = s1\<rparr>"
    have y1: "rel_option same_waits (map_option threads (procs y p)) (map_option threads (procs ?y1 p))"
      using pr1 q by (cases "procs y p") (auto simp: same_waits_def)
    have on: "on_process q (wake_threads_with_state st n) y = (r1, ?y1)" using Some w by (simp add: on_process_def)
    have step: "wake_processes (q # qs) st n y = seq (r1, ?y1) (\<lambda>_. wake_processes qs st n)"
      unfolding wake_processes.simps on using Some by simp
    show ?thesis
    proof (cases r1)
      case (Done x)
      with Cons.prems(1) step have "wake_processes qs st n ?y1 = (r, y')" by simp
      from Cons.IH [OF this Cons.prems(2)] y1 show ?thesis
        by (cases "procs y p"; cases "procs ?y1 p"; cases "procs y' p") (simp_all add: same_waits_def)
    qed (use Cons.prems(1) step y1 in \<open>simp_all\<close>)
  qed
qed

lemma waits_cong:
  assumes "\<And>p. rel_option same_waits (k_thread_states k p) (k_thread_states k' p)" and "k_servers k' = k_servers k"
  shows "k_waits k' = k_waits k"
proof -
  have "(case k_thread_states k' p of None \<Rightarrow> None | Some ts \<Rightarrow> if t < length ts then wait_of (ts ! t) else None)
      = (case k_thread_states k p of None \<Rightarrow> None | Some ts \<Rightarrow> if t < length ts then wait_of (ts ! t) else None)" for p t
  proof (cases "k_thread_states k p"; cases "k_thread_states k' p")
    fix ts ts' assume s: "k_thread_states k p = Some ts" "k_thread_states k' p = Some ts'"
    then have m: "map wait_of ts' = map wait_of ts" using assms(1) [of p] by (simp add: same_waits_def)
    have l: "length ts' = length ts" using m by (metis length_map)
    have "wait_of (ts' ! t) = wait_of (ts ! t)" if "t < length ts" using m that l by (metis nth_map)
    with s l show ?thesis by simp
  qed (use assms(1) [of p] in auto)
  then show ?thesis using server_same [of k' k] assms(2) by (simp add: k_waits_def)
qed

lemma wake_all_still:
  assumes run: "on_threads (wake_all_threads_with_state st n) k = (r, k')" and st: "wait_of st = None"
  shows "still k k'"
proof -
  obtain y where y: "wake_processes [1..<Suc MAX_PROCESS_COUNT] st n (k_threads k) = (r, y)"
    and k': "k_servers k' = k_servers k" "k_current k' = k_current k"
    and g: "\<And>p. k_thread_states k' p = (if k_process k p = None then None else map_option threads (procs y p))"
    using run unfolding wake_all_threads_with_state_def by (rule on_threads_states) blast
  have "rel_option same_waits (k_thread_states k p) (k_thread_states k' p)" for p
    using wake_processes_waits [OF y st, of p]
    by (auto simp: g k_thread_states_def [of k] k_threads_def k_process_def option.map_comp comp_def split: option.splits)
  from waits_cong [OF this k'(1)] k' show "still k k'" by (simp add: still_def)
qed

lemma wake_senders_still: "wake_senders x k = (r, k') \<Longrightarrow> still k k'"
  unfolding wake_senders_def by (erule wake_all_still) simp

lemma resume_waits: "resume usage k = (r, k') \<Longrightarrow> k_waits k' = k_waits k \<and> k_servers k' = k_servers k"
proof -
  assume "resume usage k = (r, k')"
  then have "k_procs k' = k_procs k \<and> k_servers k' = k_servers k"
    by (auto simp: resume_def split: prod.splits outcome.splits activation.splits if_splits)
  moreover from this have "k_thread_states k' = k_thread_states k" by (simp add: k_thread_states_def k_process_def fun_eq_iff)
  ultimately show ?thesis using server_same [of k' k] by (simp add: k_waits_def)
qed

text \<open>The server operations.\<close>

lemma put_server_waits:
  assumes "server_from_sidx k x = Some s" and "served s sl rc s'" and "k_ok k"
  shows "k_waits (put_server x s' k) = (k_waits k)\<lparr>w_slot := (w_slot (k_waits k))(x := sl), w_recv := (w_recv (k_waits k))(x := rc)\<rparr>"
    and "k_ok (put_server x s' k)" and "server_from_sidx (put_server x s' k) x = Some s'"
    and "k_current (put_server x s' k) = k_current k"
proof -
  have x: "x < length (k_servers k)" using assms(1) by (simp add: server_from_sidx_def split: if_splits)
  have srv: "server_from_sidx (put_server x s' k) y = (if y = x then Some s' else server_from_sidx k y)" for y
    using x by (auto simp: server_from_sidx_def put_server_def)
  have ts: "k_thread_states (put_server x s' k) = k_thread_states k"
    by (simp add: k_thread_states_def k_process_def put_server_def fun_eq_iff)
  show "k_waits (put_server x s' k) = (k_waits k)\<lparr>w_slot := (w_slot (k_waits k))(x := sl), w_recv := (w_recv (k_waits k))(x := rc)\<rparr>"
    using servedD [OF assms(2)] by (simp add: k_waits_def ts srv fun_eq_iff)
  show "k_ok (put_server x s' k)" using assms(3) servedD(1) [OF assms(2)] by (simp add: k_ok_def srv)
  show "server_from_sidx (put_server x s' k) x = Some s'" by (simp add: srv)
  show "k_current (put_server x s' k) = k_current k" by (simp add: put_server_def)
qed

lemma at_server_waits:
  assumes "server_from_sidx k x = Some s"
  shows "w_slot (k_waits k) x = slots_of s" and "w_recv (k_waits k) x = receivers s"
  using assms by (simp_all add: k_waits_def)

lemma waits_upd_same: "w_slot w x = sl \<Longrightarrow> w\<lparr>w_slot := (w_slot w)(x := sl)\<rparr> = w"
  "w_recv w x = rc \<Longrightarrow> w\<lparr>w_recv := (w_recv w)(x := rc)\<rparr> = w"
  by auto

lemma waits_commute:
  "w\<lparr>w_slot := a, w_for := b\<rparr> = w\<lparr>w_for := b, w_slot := a\<rparr>"
  "w\<lparr>w_recv := c, w_for := b\<rparr> = w\<lparr>w_for := b, w_recv := c\<rparr>"
  "w\<lparr>w_recv := c, w_slot := a\<rparr> = w\<lparr>w_slot := a, w_recv := c\<rparr>"
  by simp_all

lemma put_server_slot:
  assumes "server_from_sidx k x = Some s" and "served s ((slots_of s)(i := b)) (receivers s) s'" and "k_ok k"
  shows "k_waits (put_server x s' k) = (k_waits k)\<lparr>w_slot := (w_slot (k_waits k))(x := (w_slot (k_waits k) x)(i := b))\<rparr>"
  using put_server_waits(1) [OF assms] at_server_waits [OF assms(1)] by (simp add: fun_upd_idem)

lemma put_server_recv:
  assumes "server_from_sidx k x = Some s" and "served s (slots_of s) rc s'" and "k_ok k"
  shows "k_waits (put_server x s' k) = (k_waits k)\<lparr>w_recv := (w_recv (k_waits k))(x := rc)\<rparr>"
  using put_server_waits(1) [OF assms] at_server_waits [OF assms(1)] by (simp add: fun_upd_idem)

lemma put_server_same:
  assumes "server_from_sidx k x = Some s" and "served s (slots_of s) (receivers s) s'" and "k_ok k"
  shows "k_waits (put_server x s' k) = k_waits k"
  using put_server_recv [OF assms] at_server_waits [OF assms(1)] by (simp add: waits_upd_same)

lemma on_server_run:
  assumes "on_server x f k = (r, k')" and "r \<noteq> Panic"
  obtains s s' where "server_from_sidx k x = Some s" "f s = (r, s')" "k' = put_server x s' k"
  using assms by (auto simp: on_server_def split: option.splits prod.splits)

lemma at_server_run:
  assumes "at_server x f k = (r, k')" and "r \<noteq> Panic"
  shows "(\<exists>e. r = Fail e \<and> k' = k) \<or> (\<exists>s s'. server_from_sidx k x = Some s \<and> f s = (r, s') \<and> k' = put_server x s' k)"
proof -
  from assms have "(\<exists>e. r = Fail e \<and> k' = k) \<or> on_server x f k = (r, k')"
    by (auto simp: at_server_def split: option.splits prod.splits if_splits)
  with on_server_run [OF _ assms(2)] show ?thesis by metis
qed

lemma change_thread_waits:
  assumes run: "change_thread p t st k = (Done (), k')"
  shows "k_waits k' = (k_waits k)\<lparr>w_for := (w_for (k_waits k))((p, t) := wait_of st)\<rparr>"
    and "k_servers k' = k_servers k" and "k_current k' = k_current k"
proof -
  obtain ts where ts: "k_thread_states k p = Some ts" "t < length ts" "k_thread_states k' = (k_thread_states k)(p \<mapsto> ts[t := st])"
    and s: "k_servers k' = k_servers k" "k_current k' = k_current k"
    using change_thread_states [OF run] by auto
  then show "k_waits k' = (k_waits k)\<lparr>w_for := (w_for (k_waits k))((p, t) := wait_of st)\<rparr>"
    using server_same [of k' k] by (auto simp: k_waits_def fun_eq_iff nth_list_update split: option.splits)
  show "k_servers k' = k_servers k" "k_current k' = k_current k" using s by simp_all
qed

definition thread_state_of :: "kernel \<Rightarrow> thread \<Rightarrow> thread_state option" where
  "thread_state_of k u = (case k_thread_states k (fst u) of None \<Rightarrow> None
     | Some ts \<Rightarrow> if snd u < length ts then Some (ts ! snd u) else None)"

definition queue_holds :: "kernel \<Rightarrow> nat \<Rightarrow> nat \<Rightarrow> thread \<Rightarrow> bool" where
  "queue_holds k x i u \<longleftrightarrow> (\<exists>s. server_from_sidx k x = Some s \<and> i < length (queue s) \<and> blocked_thread (queue s ! i) = Some u)"

lemma w_for_state: "w_for (k_waits k) u = (case thread_state_of k u of None \<Rightarrow> None | Some st \<Rightarrow> wait_of st)"
  by (cases u) (simp add: k_waits_def thread_state_of_def split: option.splits)

lemma wait_of_iff: "wait_of st = Some (Sending x) \<longleftrightarrow> st = WaitBlocking x" "wait_of st = Some (Receiving x) \<longleftrightarrow> st = WaitReceive x"
  by (cases st; auto)+

lemma w_for_iff: "w_for (k_waits k) u = Some (Sending x) \<longleftrightarrow> thread_state_of k u = Some (WaitBlocking x)"
  "w_for (k_waits k) u = Some (Receiving x) \<longleftrightarrow> thread_state_of k u = Some (WaitReceive x)"
  by (auto simp: w_for_state wait_of_iff split: option.splits)

lemma w_slot_iff: "w_slot (k_waits k) x i = Some u \<longleftrightarrow> queue_holds k x i u"
  by (auto simp: k_waits_def queue_holds_def slots_of_def split: option.splits)

lemma w_recv_iff: "u \<in> w_recv (k_waits k) x \<longleftrightarrow>
    (\<exists>s. server_from_sidx k x = Some s \<and> fst u = srv_pid s \<and> snd u \<in> waiting_threads s)"
  by (cases u) (auto simp: k_waits_def receivers_def split: option.splits)

section \<open>Sending keeps the two sides together\<close>

lemma hand_memory_facts:
  assumes "hand_memory f c m q k = (r, k')" and "\<And>a q d n m. keeps_threads m (snd (f a q d n m))"
  shows "still k k'" and "r = Done m1 \<Longrightarrow> \<exists>b. m1 = c (m\<lparr>mm_buf := b\<rparr>) \<and> wf_range b"
proof -
  obtain r1 k1 where o: "on_mem (f (mr_addr (mm_buf m)) q 0 (mr_size (mm_buf m))) k = (r1, k1)" by fastforce
  have s1: "still k k1" by (rule on_mem_still [OF o]) (rule assms(2))
  then show "still k k'" using assms(1) o
    by (cases r1) (auto simp: hand_memory_def place_memory_def split: sum.splits)
  show "r = Done m1 \<Longrightarrow> \<exists>b. m1 = c (m\<lparr>mm_buf := b\<rparr>) \<and> wf_range b"
    using assms(1) o by (cases r1) (auto simp: hand_memory_def place_memory_def memory_range_new_Inr wf_range_def split: sum.splits)
qed

lemma translate_message_still:
  assumes "translate_message m q k = (r, k')"
  shows "still k k'"
  using assms by (cases m) (auto elim!: hand_memory_facts(1) simp: memory_keeps_threads)

lemma translate_message_wf:
  assumes run: "translate_message m q k = (Done m1, k')" and m: "wf_message m"
  shows "wf_message m1 \<and> is_blocking m1 = is_blocking m"
proof (cases "memory_message_of m")
  case None
  then show ?thesis using run m by (cases m) auto
next
  case (Some mm)
  then obtain f c where h: "hand_memory f c mm q k = (Done m1, k')" "\<And>a q d n m. keeps_threads m (snd (f a q d n m))"
    and m': "m = c mm" "\<And>x. wf_message (c x) = wf_memory_message x" "\<And>x y. is_blocking (c x) = is_blocking (c y)"
    using run by (cases m) (fastforce simp: memory_keeps_threads)+
  obtain b where b: "m1 = c (mm\<lparr>mm_buf := b\<rparr>)" "wf_range b" using hand_memory_facts(2) [OF h HOL.refl] by blast
  have "wf_memory_message mm" using m unfolding m'(1,2) .
  then have "wf_message m1" using b(2) unfolding b(1) m'(2) by (simp add: wf_memory_message_def)
  moreover have "is_blocking m1 = is_blocking m" unfolding b(1) m'(1) by (rule m'(3))
  ultimately show ?thesis ..
qed

text \<open>
  What the two ways of delivery come to: the message is taken by a thread that waited, or queued;
  in both cases a sender that blocks is in a slot that was free.
\<close>

definition delivered :: "nat \<Rightarrow> thread \<Rightarrow> bool \<Rightarrow> waits \<Rightarrow> waits \<Rightarrow> bool" where
  "delivered x u blocking w w' \<longleftrightarrow> (\<exists>w1. (w1 = w \<or> wait_step w w1) \<and> (\<forall>v. w_for w v = None \<longrightarrow> w_for w1 v = None) \<and> w_slot w1 = w_slot w
     \<and> (\<forall>y. w_recv w1 y \<subseteq> w_recv w y)
     \<and> (if blocking then \<exists>i. w_slot w1 x i = None \<and> w' = w1\<lparr>w_slot := (w_slot w1)(x := (w_slot w1 x)(i \<mapsto> u))\<rparr>
        else w' = w1))"

text \<open>Queueing the message.\<close>

lemma delivered_free:
  "w_slot w x i = None \<Longrightarrow>
   delivered x u blocking w (w\<lparr>w_slot := (w_slot w)(x := (w_slot w x)(i := if blocking then Some u else None))\<rparr>)"
  unfolding delivered_def by (intro exI [of _ w]) (auto simp: fun_upd_idem)

lemma queued_delivered:
  assumes ok: "k_ok k" and m: "wf_message m" and t: "t < 256"
    and run: "queue_server_message x p t m oa k = (r, k')" and r: "r \<noteq> Panic"
  shows "k_ok k' \<and> k_current k' = k_current k
    \<and> (case r of Done _ \<Rightarrow> delivered x (p, t) (is_blocking m) (k_waits k) (k_waits k') | _ \<Rightarrow> k_waits k' = k_waits k)"
proof -
  from at_server_run [OF run [unfolded queue_server_message_def] r] show ?thesis
  proof (elim disjE exE conjE)
    fix s s' assume s: "server_from_sidx k x = Some s" "queue_message s p t m oa = (r, s')" "k' = put_server x s' k"
    have sok: "server_ok s" using ok s(1) by (simp add: k_ok_def)
    note w = queue_message_waits [OF sok m t s(2)]
    show ?thesis
    proof (cases r)
      case (Done i)
      with w have i: "slots_of s i = None"
        "served s ((slots_of s)(i := if is_blocking m then Some (p, t) else None)) (receivers s) s'" by simp_all
      have "w_slot (k_waits k) x i = None" using i(1) at_server_waits [OF s(1)] by simp
      from delivered_free [OF this] put_server_slot [OF s(1) i(2) ok] put_server_waits(2,4) [OF s(1) i(2) ok]
      show ?thesis by (simp add: Done s(3))
    next
      case (Fail e)
      with w have f: "served s (slots_of s) (receivers s) s'" by simp
      from put_server_waits(2,4) [OF s(1) f ok] put_server_same [OF s(1) f ok] Fail show ?thesis by (simp add: s(3))
    qed (use r in simp)
  qed (use ok in simp)
qed

text \<open>Handing the message to a thread that waits.\<close>

lemma remembered:
  assumes ok: "k_ok k" and m: "is_blocking m" and t: "t < 256"
    and run: "remember_server_message x p t m ca k = (r, k')" and r: "r \<noteq> Panic"
  shows "k_ok k' \<and> k_current k' = k_current k \<and> w_for (k_waits k') = w_for (k_waits k)
    \<and> w_recv (k_waits k') = w_recv (k_waits k)
    \<and> (case r of Done i \<Rightarrow> w_slot (k_waits k) x i = None
          \<and> w_slot (k_waits k') = (w_slot (k_waits k))(x := (w_slot (k_waits k) x)(i \<mapsto> (p, t)))
        | _ \<Rightarrow> k_waits k' = k_waits k)
    \<and> map_option srv_pid (server_from_sidx k' x) = map_option srv_pid (server_from_sidx k x)"
proof -
  from at_server_run [OF run [unfolded remember_server_message_def] r] show ?thesis
  proof (elim disjE exE conjE)
    fix s s' assume s: "server_from_sidx k x = Some s" "queue_response s p t m ca = (r, s')" "k' = put_server x s' k"
    have sok: "server_ok s" using ok s(1) by (simp add: k_ok_def)
    note w = queue_response_waits [OF sok m t s(2)]
    show ?thesis
    proof (cases r)
      case (Done i)
      with w have i: "slots_of s i = None" "served s ((slots_of s)(i \<mapsto> (p, t))) (receivers s) s'" by simp_all
      have "w_slot (k_waits k) x i = None" using i(1) at_server_waits [OF s(1)] by simp
      with put_server_slot [OF s(1) i(2) ok] put_server_waits(2,3,4) [OF s(1) i(2) ok] servedD(2) [OF i(2)] s(1)
      show ?thesis by (simp add: Done s(3))
    next
      case (Fail e)
      with w have f: "served s (slots_of s) (receivers s) s'" by simp
      from put_server_waits(2,3,4) [OF s(1) f ok] put_server_same [OF s(1) f ok] Fail servedD(2) [OF f] s(1)
      show ?thesis by (simp add: s(3))
    qed (use r in simp)
  qed (use ok in simp)
qed

lemma took_thread:
  assumes ok: "k_ok k" and run: "on_server x take_available_thread k = (r, k')" and r: "r \<noteq> Panic"
  obtains (none) "r = Done None" "k_waits k' = k_waits k" "k_ok k'" "k_current k' = k_current k"
  | (one) s t where "r = Done (Some t)" "server_from_sidx k x = Some s" "(srv_pid s, t) \<in> w_recv (k_waits k) x"
      "k_waits k' = (k_waits k)\<lparr>w_recv := (w_recv (k_waits k))(x := w_recv (k_waits k) x - {(srv_pid s, t)})\<rparr>"
      "k_ok k'" "k_current k' = k_current k" "map_option srv_pid (server_from_sidx k' x) = Some (srv_pid s)"
proof -
  obtain s s' where s: "server_from_sidx k x = Some s" "take_available_thread s = (r, s')" "k' = put_server x s' k"
    using run r by (rule on_server_run)
  have sok: "server_ok s" using ok s(1) by (simp add: k_ok_def)
  note w = take_available_waits [OF sok s(2)]
  obtain free where free: "r = Done free" using w r by (cases r) simp_all
  show thesis
  proof (cases free)
    case None
    with w free have "s' = s" by simp
    then have f: "served s (slots_of s) (receivers s) s'" using served_refl [OF sok] by simp
    from none [of] put_server_waits(2,4) [OF s(1) f ok] put_server_same [OF s(1) f ok] free None show thesis by (simp add: s(3))
  next
    case (Some t)
    with w free have f: "(srv_pid s, t) \<in> receivers s" "served s (slots_of s) (receivers s - {(srv_pid s, t)}) s'" by simp_all
    from one [of t s] put_server_waits(2,3,4) [OF s(1) f(2) ok] servedD(2) [OF f(2)] put_server_recv [OF s(1) f(2) ok] free Some f(1) s
      at_server_waits(2) [OF s(1)] show thesis by simp
  qed
qed

lemma parked:
  assumes ok: "k_ok k" and t: "t < 32" and s: "server_from_sidx k x = Some s"
    and run: "on_server x (\<lambda>s. server_park_thread s t) k = (r, k')" and r: "r \<noteq> Panic"
  shows "(srv_pid s, t) \<notin> w_recv (k_waits k) x"
    and "k_waits k' = (k_waits k)\<lparr>w_recv := (w_recv (k_waits k))(x := insert (srv_pid s, t) (w_recv (k_waits k) x))\<rparr>"
    and "k_ok k'" and "k_current k' = k_current k" and "r = Done ()"
proof -
  obtain s' where p: "server_park_thread s t = (r, s')" "k' = put_server x s' k"
    using on_server_run [OF run r] s by (metis option.inject)
  have sok: "server_ok s" using ok s by (simp add: k_ok_def)
  note w = park_waits [OF sok t p(1)]
  show d: "r = Done ()" using w r by (cases r) simp_all
  with w have f: "(srv_pid s, t) \<notin> receivers s" "served s (slots_of s) (insert (srv_pid s, t) (receivers s)) s'" by simp_all
  show "(srv_pid s, t) \<notin> w_recv (k_waits k) x"
    "k_waits k' = (k_waits k)\<lparr>w_recv := (w_recv (k_waits k))(x := insert (srv_pid s, t) (w_recv (k_waits k) x))\<rparr>"
    "k_ok k'" "k_current k' = k_current k"
    using f(1) put_server_waits(2,4) [OF s f(2) ok] put_server_recv [OF s f(2) ok] at_server_waits(2) [OF s] p(2) by simp_all
qed

lemma receivers_small: "(p, t) \<in> receivers s \<Longrightarrow> p = srv_pid s \<and> t < 32"
  using bit_imp_le_length [of "ready_threads s" t] by (auto simp: receivers_def waiting_threads_def)

lemma kept_sender:
  assumes ok: "k_ok k" and t: "t < 256" and st: "st < 32" and q: "map_option srv_pid (server_from_sidx k x) = Some q"
    and run: "keep_sender x st t m ca k = (r, k')" and r: "r \<noteq> Panic"
  shows "k_ok k' \<and> k_current k' = k_current k
    \<and> (case r of
         Done _ \<Rightarrow> if is_blocking m then \<exists>i. w_slot (k_waits k) x i = None
             \<and> k_waits k' = (k_waits k)\<lparr>w_slot := (w_slot (k_waits k))(x := (w_slot (k_waits k) x)(i \<mapsto> (k_current k, t)))\<rparr>
           else k_waits k' = k_waits k
       | _ \<Rightarrow> k_waits k' = (k_waits k)\<lparr>w_recv := (w_recv (k_waits k))(x := insert (q, st) (w_recv (k_waits k) x))\<rparr>)"
proof (cases "is_blocking m")
  case False
  then show ?thesis using run ok by (auto simp: keep_sender_def)
next
  case m: True
  obtain r1 k1 where rm: "remember_server_message x (k_current k) t m ca k = (r1, k1)" by fastforce
  have r1: "r1 \<noteq> Panic" using run r m rm by (auto simp: keep_sender_def)
  note k1 = remembered [OF ok m t rm r1]
  show ?thesis
  proof (cases r1)
    case (Done i)
    then have "r = Done i" "k' = k1" using run m rm by (simp_all add: keep_sender_def)
    with k1 Done m show ?thesis by auto
  next
    case (Fail e)
    then have undo: "seq (on_server x (\<lambda>s. server_park_thread s st) k1) (\<lambda>_ k2. (Fail e, k2)) = (r, k')"
      using run m rm by (simp add: keep_sender_def return_available_waits)
    obtain r2 where o: "on_server x (\<lambda>s. server_park_thread s st) k1 = (r2, k')" "r2 \<noteq> Panic"
      using seq_run [OF undo r] by auto
    obtain s where s: "server_from_sidx k1 x = Some s" "srv_pid s = q" using k1 q by auto
    have "k_ok k1" "k_current k1 = k_current k" "k_waits k1 = k_waits k" using k1 Fail by simp_all
    with parked [OF _ st s(1) o] s(2) seq_run [OF undo r] o show ?thesis by auto
  qed (use r1 in simp)
qed


lemma ready_park_no_fail: "fst (ready_thread s u prio) \<noteq> Fail e" "fst (park_thread s u prio) \<noteq> Fail e"
  by (auto simp: ready_thread_def park_thread_def Let_def split: option.splits if_splits prod.splits)

lemma change_thread_no_fail: "change_thread p t st k \<noteq> (Fail e, k')"
proof
  assume run: "change_thread p t st k = (Fail e, k')"
  then obtain pr mp where pr: "k_process k p = Some (pr, mp)" by (auto simp: change_thread_def split: if_splits)
  have "on_threads (on_process p (set_thread_state t st)) k = (Fail e, k')" using run pr by (simp add: change_thread_def)
  then obtain y where "on_process p (set_thread_state t st) (k_threads k) = (Fail e, y)" by (rule on_threads_states) blast
  then obtain pr' s' where st: "set_thread_state t st (pr, sched (k_threads k)) = (Fail e, (pr', s'))"
    using pr by (auto simp: on_process_def get_k_process split: prod.splits)
  then have "has_thread pr t" by (auto simp: set_thread_state_def split: if_splits)
  from st [unfolded set_thread_state_run [OF this]] ready_park_no_fail show False
    by (auto split: outcome.splits prod.splits if_splits) (metis fst_conv)+
qed

lemma handed:
  assumes ok: "k_ok k" and t: "t < 256" and st: "st < 32" and q: "map_option srv_pid (server_from_sidx k x) = Some q"
    and run: "hand_to_thread x q st t m ca k = (r, k')" and r: "r \<noteq> Panic"
  shows "k_ok k' \<and> k_current k' = k_current k
    \<and> (case r of
         Done _ \<Rightarrow> (let w = (k_waits k)\<lparr>w_for := (w_for (k_waits k))((q, st) := None)\<rparr> in
           if is_blocking m then \<exists>i. w_slot w x i = None
             \<and> k_waits k' = w\<lparr>w_slot := (w_slot w)(x := (w_slot w x)(i \<mapsto> (k_current k, t)))\<rparr>
           else k_waits k' = w)
       | _ \<Rightarrow> k_waits k' = (k_waits k)\<lparr>w_recv := (w_recv (k_waits k))(x := insert (q, st) (w_recv (k_waits k) x))\<rparr>)"
  using seq_run [OF run [unfolded hand_to_thread_def] r]
proof (elim disjE exE conjE)
  fix e assume f: "keep_sender x st t m ca k = (Fail e, k')" "r = Fail e"
  with kept_sender [OF ok t st q f(1)] show ?thesis by simp
next
  fix idx k1
  assume s: "keep_sender x st t m ca k = (Done idx, k1)"
    and "seq (change_thread q st TS_Ready k1) (\<lambda>_ k2.
         ignored (set_thread_result q st (R_MessageEnvelope (envelope_from (of_nat x) idx (Some (k_current k)) m)) k2)) = (r, k')"
  from seq_run [OF this(2) r] change_thread_no_fail obtain k2 where c: "change_thread q st TS_Ready k1 = (Done (), k2)"
    and f: "ignored (set_thread_result q st (R_MessageEnvelope (envelope_from (of_nat x) idx (Some (k_current k)) m)) k2) = (r, k')" by auto
  have res: "r = Done ()" "still k2 k'"
    using f r set_thread_result_still by (auto simp: ignored_def split: prod.splits outcome.splits)
  note k1 = kept_sender [OF ok t st q s] and ch = change_thread_waits [OF c]
  have "k_ok k2" using k1 server_same [OF ch(2)] by (simp add: k_ok_def)
  with still_ok [OF res(2)] res ch k1 show ?thesis by (auto simp: still_def Let_def waits_commute) blast
qed

text \<open>A message on its way: a failure leaves everybody where they were.\<close>

lemma sent:
  assumes ok: "k_ok k" and m: "wf_message m" and t: "t < 256"
    and run: "send_message_inner t x m k = (r, k')" and r: "r \<noteq> Panic"
  shows "k_ok k' \<and> k_current k' = k_current k
    \<and> (case r of Done _ \<Rightarrow> delivered x (k_current k, t) (is_blocking m) (k_waits k) (k_waits k') | _ \<Rightarrow> k_waits k' = k_waits k)"
proof -
  obtain sv where sv: "server_from_sidx k x = Some sv" using run r by (auto simp: send_message_inner_def split: option.splits)
  let ?f = "\<lambda>m1. hand_or_queue x (srv_pid sv) t m1 (client_address m)"
  have "if is_queue_full sv then r = Fail ServerQueueFull \<and> k' = k else seq (translate_message m (srv_pid sv) k) ?f = (r, k')"
    using run unfolding send_message_inner_def sv option.case by (cases "is_queue_full sv") simp_all
  then consider "r = Fail ServerQueueFull" "k' = k" | "seq (translate_message m (srv_pid sv) k) ?f = (r, k')"
    by (metis (mono_tags))
  then show ?thesis
  proof cases
    case 2
    from seq_run [OF 2 r] show ?thesis
    proof (elim disjE exE conjE)
      fix e assume "translate_message m (srv_pid sv) k = (Fail e, k')" "r = Fail e"
      with translate_message_still [of m "srv_pid sv" k] still_ok ok show ?thesis by (auto simp: still_def)
    next
      fix m1 k1 assume tr: "translate_message m (srv_pid sv) k = (Done m1, k1)" and rest': "?f m1 k1 = (r, k')"
      note rest = rest' [unfolded hand_or_queue_def]
      note still = translate_message_still [OF tr] and m1 = translate_message_wf [OF tr m]
      have k1: "k_ok k1" "k_waits k1 = k_waits k" "k_current k1 = k_current k" "server_from_sidx k1 x = Some sv"
        using still_ok [OF still ok] still sv server_same [of k1 k] by (simp_all add: still_def)
      obtain r2 k2 where tk: "on_server x take_available_thread k1 = (r2, k2)" by fastforce
      have r2: "r2 \<noteq> Panic" using rest r tk by (cases r2) auto
      from k1(1) tk r2 show ?thesis
      proof (cases rule: took_thread)
        case none
        with rest tk have q: "seq (queue_server_message x (k_current k) t m1 (client_address m) k2) (\<lambda>_ k3. (Done (), k3)) = (r, k')"
          using k1(3) by simp
        show ?thesis using seq_run [OF q r]
        proof (elim disjE exE conjE)
          fix e assume e: "queue_server_message x (k_current k) t m1 (client_address m) k2 = (Fail e, k')" "r = Fail e"
          from queued_delivered [OF none(3) conjunct1 [OF m1] t e(1)] none k1 e(2) show ?thesis by simp
        next
          fix i k3 assume i: "queue_server_message x (k_current k) t m1 (client_address m) k2 = (Done i, k3)" "(Done (), k3) = (r, k')"
          from queued_delivered [OF none(3) conjunct1 [OF m1] t i(1)] none k1 i(2) m1 show ?thesis by auto
        qed
      next
        case (one s st)
        then have s: "s = sv" using k1(4) by simp
        have rc: "(srv_pid sv, st) \<in> receivers sv" using one(3) at_server_waits(2) [OF k1(4)] s by simp
        have h: "hand_to_thread x (srv_pid sv) st t m1 (client_address m) k2 = (r, k')" using rest tk one(1) by simp
        let ?u = "(srv_pid sv, st)" and ?w = "k_waits k"
        define w1 where "w1 = ?w\<lparr>w_for := (w_for ?w)(?u := None), w_recv := (w_recv ?w)(x := w_recv ?w x - {?u})\<rparr>"
        have mem: "?u \<in> w_recv ?w x" using one(3) s k1(2) by simp
        have step: "wait_step ?w w1" unfolding w1_def by (rule wait_step.hand [OF mem])
        have w1: "(k_waits k2)\<lparr>w_for := (w_for (k_waits k2))(?u := None)\<rparr> = w1"
          by (simp add: w1_def one(4) k1(2) s waits_commute)
        have q: "map_option srv_pid (server_from_sidx k2 x) = Some (srv_pid sv)" using one(7) s by simp
        have st: "st < 32" using receivers_small [OF rc] by simp
        note h' = handed [OF one(5) t st q h r, unfolded w1 Let_def]
        show ?thesis
        proof (cases r)
          case (Done y)
          have "delivered x (k_current k, t) (is_blocking m) ?w (k_waits k')"
            unfolding delivered_def
            by (rule exI [of _ w1]) (use h' Done step m1 one(6) k1(3) in \<open>auto simp: w1_def waits_commute\<close>)
          with h' Done one(6) k1(3) show ?thesis by simp
        next
          case (Fail e)
          have "w_recv ?w x = insert ?u (w_recv ?w x - {?u})" using mem by auto
          then have "k_waits k' = ?w" using h' Fail one(4) k1(2) s by (simp add: fun_upd_idem)
          with h' one(6) k1(3) Fail show ?thesis by simp
        qed (use r in simp)
      qed
    qed
  qed (use ok in simp)
qed

section \<open>The calls as steps\<close>

text \<open>The sender now waits for what its slot holds.\<close>

lemma delivered_steps:
  assumes d: "delivered x u b w w'" and u: "w_for w u = None"
  shows "wait_steps w (if b then w'\<lparr>w_for := (w_for w')(u \<mapsto> Sending x)\<rparr> else w')"
proof -
  obtain w1 where w1: "w1 = w \<or> wait_step w w1" "w_for w1 u = None"
    and w': "if b then \<exists>i. w_slot w1 x i = None \<and> w' = w1\<lparr>w_slot := (w_slot w1)(x := (w_slot w1 x)(i \<mapsto> u))\<rparr> else w' = w1"
    using d u unfolding delivered_def by blast
  have s1: "wait_steps w w1" using w1(1) wait_steps_one wait_steps.stay by metis
  show ?thesis
  proof (cases b)
    case True
    with w' obtain i where i: "w_slot w1 x i = None" "w' = w1\<lparr>w_slot := (w_slot w1)(x := (w_slot w1 x)(i \<mapsto> u))\<rparr>" by auto
    from wait_steps.go [OF s1 wait_step.call [OF w1(2) i(1)]] True show ?thesis by (simp add: i(2) waits_commute)
  qed (use s1 w' in simp)
qed

lemma send_message_waits:
  assumes ok: "k_ok k" and m: "wf_message m" and t: "t < 256" and free: "w_for (k_waits k) (k_current k, t) = None"
    and run: "send_message usage t c m k = (r, k')" and r: "r \<noteq> Panic"
  shows "k_ok k' \<and> wait_steps (k_waits k) (k_waits k')"
proof -
  obtain pr mp where pr: "k_process k (k_current k) = Some (pr, mp)"
    using run r by (auto simp: send_message_def split: option.splits)
  have "k' = k \<or> (\<exists>x. seq (send_message_inner t x m k) (\<lambda>_ k1.
      seq (if is_blocking m then change_thread (k_current k1) t (WaitBlocking x) k1
           else set_thread_result (k_current k1) t R_Ok k1)
        (\<lambda>_ k2. resume usage k2)) = (r, k'))"
    using run unfolding send_message_def pr option.case prod.case
    by (cases "connection (proc_connections pr) c") (auto split: connection_slot.splits)
  then show ?thesis
  proof (elim disjE exE)
    fix x assume s: "seq (send_message_inner t x m k) (\<lambda>_ k1.
      seq (if is_blocking m then change_thread (k_current k1) t (WaitBlocking x) k1
           else set_thread_result (k_current k1) t R_Ok k1)
        (\<lambda>_ k2. resume usage k2)) = (r, k')"
    from seq_run [OF s r] show ?thesis
    proof (elim disjE exE conjE)
      fix e assume f: "send_message_inner t x m k = (Fail e, k')"
      from sent [OF ok m t f] show ?thesis by (simp add: wait_steps.stay)
    next
      fix y k1 assume d: "send_message_inner t x m k = (Done y, k1)"
        and rest: "seq (if is_blocking m then change_thread (k_current k1) t (WaitBlocking x) k1
           else set_thread_result (k_current k1) t R_Ok k1) (\<lambda>_ k2. resume usage k2) = (r, k')"
      note k1 = sent [OF ok m t d]
      have dl: "delivered x (k_current k, t) (is_blocking m) (k_waits k) (k_waits k1)" using k1 by simp
      note steps = delivered_steps [OF dl free]
      show ?thesis
      proof (cases "is_blocking m")
        case True
        with seq_run [OF rest r] change_thread_no_fail obtain k2 where
          c: "change_thread (k_current k1) t (WaitBlocking x) k1 = (Done (), k2)" and a: "resume usage k2 = (r, k')" by auto
        note ch = change_thread_waits [OF c] and rs = resume_waits [OF a]
        have "k_ok k'" using k1 ch(2) rs server_same [of k' k1] by (simp add: k_ok_def)
        with steps True k1 ch rs show ?thesis by simp
      next
        case False
        have "\<exists>k2. still k1 k2 \<and> (k' = k2 \<or> resume usage k2 = (r, k'))"
          using seq_run [OF rest r] False set_thread_result_still by fastforce
        then obtain k2 where k2: "still k1 k2" "k' = k2 \<or> resume usage k2 = (r, k')" by blast
        have "k_waits k' = k_waits k2 \<and> k_servers k' = k_servers k2" using k2(2) resume_waits [of usage k2 r k'] by auto
        with k2(1) k1 steps False server_same [of k' k1] show ?thesis by (simp add: still_def k_ok_def)
      qed
    qed
  qed (use ok wait_steps.stay in simp)
qed

lemma receive_message_waits:
  assumes ok: "k_ok k" and t: "t < 32" and free: "w_for (k_waits k) (k_current k, t) = None"
    and run: "receive_message usage t sd blocking k = (r, k')" and r: "r \<noteq> Panic"
  shows "k_ok k' \<and> wait_steps (k_waits k) (k_waits k')"
proof (cases "k' = k")
  case False
  obtain x sv where x: "sidx_from_sid sd (k_current k) k = Some x" "server_from_sidx k x = Some sv" "srv_pid sv = k_current k"
    using run False by (auto simp: receive_message_def split: option.splits if_splits)
  obtain msg sv1 where tk: "take_next_message sv (of_nat x) = (msg, sv1)" by fastforce
  have sok: "server_ok sv" using ok x(2) by (simp add: k_ok_def)
  note w = take_next_waits [OF sok tk]
  let ?k1 = "put_server x sv1 k"
  note put = put_server_waits(2,3,4) [OF x(2) w ok] put_server_same [OF x(2) w ok]
  have pid: "srv_pid sv1 = k_current k" using servedD(2) [OF w] x(3) by simp
  show ?thesis
  proof (cases msg)
    case (Some env)
    with run x tk have "seq (if is_queue_full sv \<and> \<not> is_queue_full sv1 then wake_senders x ?k1 else (Done (), ?k1))
        (\<lambda>_ k2. (Done (R_MessageEnvelope env), k2)) = (r, k')" by (simp add: receive_message_def Let_def)
    from seq_run [OF this r] have "still ?k1 k'" using wake_senders_still by (auto split: if_splits)
    with still_ok [OF this] put show ?thesis by (simp add: still_def wait_steps.stay)
  next
    case None
    show ?thesis
    proof (cases blocking)
      case False
      with None run x tk have "k' = ?k1" by (simp add: receive_message_def Let_def)
      with put show ?thesis by (simp add: wait_steps.stay)
    next
      case True
      with None run x tk have rest: "seq (on_server x (\<lambda>s. server_park_thread s t) ?k1) (\<lambda>_ k2.
          seq (change_thread (k_current k2) t (WaitReceive x) k2) (\<lambda>_ k3. resume usage k3)) = (r, k')"
        by (simp add: receive_message_def Let_def)
      obtain r2 k2 where o: "on_server x (\<lambda>s. server_park_thread s t) ?k1 = (r2, k2)" by fastforce
      have r2: "r2 \<noteq> Panic" using rest r o by (cases r2) auto
      note pk = parked [OF put(1) t put(2) o r2]
      have "seq (change_thread (k_current k2) t (WaitReceive x) k2) (\<lambda>_ k3. resume usage k3) = (r, k')"
        using rest o pk(5) by simp
      from seq_run [OF this r] change_thread_no_fail obtain k3 where
        c: "change_thread (k_current k2) t (WaitReceive x) k2 = (Done (), k3)" and a: "resume usage k3 = (r, k')" by auto
      note ch = change_thread_waits [OF c] and rs = resume_waits [OF a]
      have "k_ok k'" using pk(3) ch(2) rs server_same [of k' k2] by (simp add: k_ok_def)
      moreover have "k_waits k' = (k_waits k)\<lparr>w_for := (w_for (k_waits k))((k_current k, t) \<mapsto> Receiving x),
          w_recv := (w_recv (k_waits k))(x := insert (k_current k, t) (w_recv (k_waits k) x))\<rparr>"
        using rs ch(1) pk(2,4) put(3,4) pid by (simp add: waits_commute)
      ultimately show ?thesis using wait_steps_one [OF wait_step.park [OF free, of x]] by simp
    qed
  qed
qed (use ok wait_steps.stay in simp)

text \<open>A reply takes the sender out of its slot.\<close>

lemma took_reply:
  assumes ok: "k_ok k" and run: "take_reply sender buf k = (Done (x, w), k')"
  shows "k_ok k' \<and> k_current k' = k_current k
    \<and> (if w = NoWaitingMessage then k_waits k' = k_waits k
       else \<exists>i. i = unat (sid_idx (sender_id_from_usize sender)) \<and> w_slot (k_waits k) x i = reply_thread w
         \<and> k_waits k' = (k_waits k)\<lparr>w_slot := (w_slot (k_waits k))(x := (w_slot (k_waits k) x)(i := None))\<rparr>)"
proof -
  let ?s = "sender_id_from_usize sender"
  let ?x = "unat (sid_sidx ?s)"
  obtain sv where sv: "server_from_sidx k ?x = Some sv" "srv_pid sv = k_current k"
    using run by (auto simp: take_reply_def Let_def split: option.splits if_splits)
  obtain r1 sv1 where tk: "take_waiting_message sv (unat (sid_idx ?s)) buf = (r1, sv1)" by fastforce
  let ?k1 = "put_server ?x sv1 k"
  obtain w1 where w1: "r1 = Done w1" "seq (if is_queue_full sv \<and> \<not> is_queue_full sv1 then wake_senders ?x ?k1 else (Done (), ?k1))
      (\<lambda>_ k2. (Done (?x, w1), k2)) = (Done (x, w), k')"
    using run sv tk by (cases r1) (auto simp: take_reply_def Let_def)
  have res: "x = ?x" "w = w1" "still ?k1 k'"
    using seq_run [OF w1(2)] wake_senders_still [of ?x ?k1] by (auto split: if_splits)
  have sok: "server_ok sv" using ok sv(1) by (simp add: k_ok_def)
  note t = take_waiting_waits [OF sok tk, unfolded w1(1)]
  show ?thesis
  proof (cases "w1 = NoWaitingMessage")
    case True
    with t have "served sv (slots_of sv) (receivers sv) sv1" using served_refl [OF sok] by simp
    from put_server_same [OF sv(1) this ok] put_server_waits(2,4) [OF sv(1) this ok] res still_ok [OF res(3)] True
    show ?thesis by (simp add: still_def)
  next
    case False
    with t have f: "slots_of sv (unat (sid_idx ?s)) = reply_thread w1"
      "served sv ((slots_of sv)(unat (sid_idx ?s) := None)) (receivers sv) sv1" by simp_all
    have "w_slot (k_waits k) ?x (unat (sid_idx ?s)) = reply_thread w1" using f(1) at_server_waits(1) [OF sv(1)] by simp
    with put_server_slot [OF sv(1) f(2) ok] put_server_waits(2,4) [OF sv(1) f(2) ok] res still_ok [OF res(3)] False
    show ?thesis by (auto simp: still_def)
  qed
qed

lemma answer_waits:
  assumes run: "answer p t v k = (Done (), k')"
  shows "k_waits k' = (k_waits k)\<lparr>w_for := (w_for (k_waits k))((p, t) := None)\<rparr> \<and> k_servers k' = k_servers k \<and> k_current k' = k_current k"
proof -
  obtain k1 where c: "change_thread p t TS_Ready k = (Done (), k1)" and s: "set_thread_result p t v k1 = (Done (), k')"
    using seq_run [OF run [unfolded answer_def]] by auto
  from change_thread_waits [OF c] set_thread_result_still [OF s] show ?thesis by (simp add: still_def)
qed

lemma answered_waits: "answered usage st k = (Done v, k') \<Longrightarrow> k_waits k' = k_waits k \<and> k_servers k' = k_servers k"
proof -
  assume run: "answered usage st k = (Done v, k')"
  obtain k1 where s: "set_thread_result (k_current k) st R_Ok k = (Done (), k1)" and a: "resume usage k1 = (Done v, k')"
    using seq_run [OF run [unfolded answered_def]] by auto
  from set_thread_result_still [OF s] resume_waits [OF a] show ?thesis by (simp add: still_def)
qed

lemma ok_same: "k_servers k' = k_servers k \<Longrightarrow> k_ok k' = k_ok k"
  using server_same [of k' k] by (simp add: k_ok_def)

text \<open>The sender gets its answer.\<close>

lemma answer_step:
  assumes slot: "w_slot (k_waits k) x i = Some (p, t)" and ok: "k_ok k1"
    and k1: "k_waits k1 = (k_waits k)\<lparr>w_slot := (w_slot (k_waits k))(x := (w_slot (k_waits k) x)(i := None))\<rparr>"
    and still: "still k1 k2"
    and run: "seq (answer p t v k2) (\<lambda>_. answered usage st) = (Done y, k')"
  shows "k_ok k' \<and> wait_steps (k_waits k) (k_waits k')"
proof -
  obtain k3 where a: "answer p t v k2 = (Done (), k3)" and b: "answered usage st k3 = (Done y, k')"
    using seq_run [OF run] by auto
  have "k_waits k' = (k_waits k)\<lparr>w_for := (w_for (k_waits k))((p, t) := None),
      w_slot := (w_slot (k_waits k))(x := (w_slot (k_waits k) x)(i := None))\<rparr>"
    using answered_waits [OF b] answer_waits [OF a] still k1 by (simp add: still_def waits_commute)
  moreover have "k_ok k'"
    using still_ok [OF still ok] answered_waits [OF b] answer_waits [OF a] ok_same [of k' k2] by simp
  ultimately show ?thesis using wait_steps_one [OF wait_step.answer [OF slot]] by simp
qed

lemma no_sender_left: "w_slot w x i = None \<Longrightarrow> w\<lparr>w_slot := (w_slot w)(x := (w_slot w x)(i := None))\<rparr> = w"
  by (simp add: fun_upd_idem)

lemma return_result_waits:
  assumes ok: "k_ok k" and run: "return_result usage st sender v k = (Done y, k')"
  shows "k_ok k' \<and> wait_steps (k_waits k) (k_waits k')"
proof -
  obtain x w k1 where tk: "take_reply sender None k = (Done (x, w), k1)"
    and rest: "(case w of
         WaitingScalar p t \<Rightarrow> seq (answer p t v k1) (\<lambda>_. answered usage st)
       | ScalarMessageTerminated \<Rightarrow> answered usage st k1
       | _ \<Rightarrow> (Fail DoubleFree, k1)) = (Done y, k')"
    using seq_run [OF run [unfolded return_result_def]] by auto
  note k1 = took_reply [OF ok tk]
  show ?thesis
  proof (cases w)
    case (WaitingScalar p t)
    with k1 obtain i where "w_slot (k_waits k) x i = Some (p, t)"
      "k_waits k1 = (k_waits k)\<lparr>w_slot := (w_slot (k_waits k))(x := (w_slot (k_waits k) x)(i := None))\<rparr>" by auto
    from answer_step [OF this(1) _ this(2) still_refl] k1 rest WaitingScalar show ?thesis by simp
  next
    case ScalarMessageTerminated
    with k1 no_sender_left have "k_waits k1 = k_waits k" by auto
    with answered_waits [of usage st k1 y k'] rest ScalarMessageTerminated k1 ok_same [of k' k1] show ?thesis
      by (simp add: wait_steps.stay)
  qed (use rest in simp_all)
qed

lemma vm_still: "still k (k\<lparr>k_vm := v\<rparr>)"
  by (auto intro!: stillI simp: k_thread_states_def k_process_def fun_eq_iff)

lemma unmap_current_still: "unmap_current a len k = (y, k') \<Longrightarrow> still k k'"
  using vm_still by (auto simp: unmap_current_def split: option.splits prod.splits)

lemma forget_memory_still: "forget_memory r k = (y, k') \<Longrightarrow> still k k'"
  using unmap_current_still by (auto simp: forget_memory_def seq_def split: option.splits outcome.splits prod.splits)

lemma on_mem_stills:
  "on_mem (send_memory a q d n) k = (r, k') \<Longrightarrow> still k k'"
  "on_mem (return_memory a q d n) k = (r, k') \<Longrightarrow> still k k'"
  "on_mem (clear_shared_range q d n mode) k = (r2, k') \<Longrightarrow> still k k'"
  by (erule on_mem_still, simp add: memory_keeps_threads)+

lemma return_memory_waits:
  assumes ok: "k_ok k" and run: "return_memory_call usage st sender buf offset valid k = (Done y, k')"
  shows "k_ok k' \<and> wait_steps (k_waits k) (k_waits k')"
proof -
  obtain x w k1 where tk: "take_reply sender (Some buf) k = (Done (x, w), k1)" 
    using seq_run [OF run [unfolded return_memory_call_def]] by auto
  note rest = run [unfolded return_memory_call_def tk seq_simps prod.case]
  note k1 = took_reply [OF ok tk]
  show ?thesis
  proof (cases w)
    case (BorrowedMemory p t a)
    with k1 obtain i where i: "w_slot (k_waits k) x i = Some (p, t)"
      "k_waits k1 = (k_waits k)\<lparr>w_slot := (w_slot (k_waits k))(x := (w_slot (k_waits k) x)(i := None))\<rparr>" by auto
    from seq_Done [OF rest [unfolded BorrowedMemory waiting_message.case]] obtain v k2 where
      m: "on_mem (return_memory (mr_addr buf) p a (mr_size buf)) k1 = (Done v, k2)" by blast
    from rest [unfolded BorrowedMemory waiting_message.case m seq_simps] obtain r where
      "seq (answer p t (R_MemoryReturned r offset valid) k2) (\<lambda>_. answered usage st) = (Done y, k')"
      by (cases "memory_range_new a (mr_size buf)") simp_all
    from answer_step [OF i(1) _ i(2) on_mem_stills(2) [OF m] this] k1 show ?thesis by simp
  next
    case (MovedMemory p t a sz)
    with k1 obtain i where i: "w_slot (k_waits k) x i = Some (p, t)"
      "k_waits k1 = (k_waits k)\<lparr>w_slot := (w_slot (k_waits k))(x := (w_slot (k_waits k) x)(i := None))\<rparr>" by auto
    from seq_Done [OF rest [unfolded MovedMemory waiting_message.case]] obtain virt k2 where
      m: "on_mem (send_memory (mr_addr buf) p 0 (mr_size buf)) k1 = (Done virt, k2)" by blast
    from rest [unfolded MovedMemory waiting_message.case m seq_simps] obtain r where
      c: "seq (on_mem (clear_shared_range p a sz ClearFree) k2) (\<lambda>_ k3.
                 seq (answer p t (R_MemoryReturned r offset valid) k3) (\<lambda>_. answered usage st)) = (Done y, k')"
      by (cases "memory_range_new virt (mr_size buf)") simp_all
    from seq_Done [OF this] obtain k3 where f: "on_mem (clear_shared_range p a sz ClearFree) k2 = (Done (), k3)"
      "seq (answer p t (R_MemoryReturned r offset valid) k3) (\<lambda>_. answered usage st) = (Done y, k')" by auto
    from answer_step [OF i(1) _ i(2) still_trans [OF on_mem_stills(1) [OF m] on_mem_stills(3) [OF f(1)]] f(2)] k1
    show ?thesis by simp
  next
    case (ForgetMemory r)
    with k1 no_sender_left have w1: "k_waits k1 = k_waits k" by auto
    from seq_Done [OF rest [unfolded ForgetMemory waiting_message.case]] obtain k2 where
      f: "forget_memory r k1 = (Done (), k2)" "answered usage st k2 = (Done y, k')" by auto
    from forget_memory_still [OF f(1)] have s: "still k1 k2" .
    with answered_waits [OF f(2)] w1 still_ok [OF s] k1 ok_same [of k' k2] show ?thesis
      by (simp add: still_def wait_steps.stay)
  qed (use rest in simp_all)
qed

end
