(* ===== verification/Server_Lifecycle.thy ===== *)
theory Server_Lifecycle
  imports Kernel_Messages
begin

unbundle bit_operations_syntax

text \<open>
  Servers come and go (\<open>xous/kernel/src/services.rs\<close>, \<open>server.rs\<close>): creating, connecting,
  disconnecting and destroying, the events that tell others of it, the check of a message against
  the permissions of its connection, calls that wait and try again, and the end of a process.
\<close>

section \<open>Events\<close>

text \<open>An event is a scalar message of the thread 0 of the current process.\<close>

fun event_message :: "message_id \<Rightarrow> usize4 \<Rightarrow> message" where
  "event_message i (a, b, c, d) = new_scalar i a b c d"

definition send_server_event :: "nat \<Rightarrow> server_event \<Rightarrow> usize4 \<Rightarrow> kernel \<Rightarrow> unit res \<times> kernel" where
  "send_server_event x ev args k =
     (case server_from_sidx k x of
        None \<Rightarrow> (Done (), k)
      | Some s \<Rightarrow>
          (case get_event_handler s ev of
             None \<Rightarrow> (Done (), k)
           | Some i \<Rightarrow> send_message_inner 0 x (event_message i args) k))"

definition send_system_event :: "pid \<Rightarrow> system_event \<Rightarrow> usize4 \<Rightarrow> kernel \<Rightarrow> bool res \<times> kernel" where
  "send_system_event p ev args k =
     (case k_process k p of
        None \<Rightarrow> (Fail ProcessNotFound, k)
      | Some (pr, _) \<Rightarrow>
          (case get_system_event_handler pr ev of
             None \<Rightarrow> (Done False, k)
           | Some (sd, i) \<Rightarrow>
               (case sidx_from_sid sd p k of
                  None \<Rightarrow> (Done False, k)
                | Some x \<Rightarrow> seq (send_message_inner 0 x (event_message i args) k) (\<lambda>_ k1. (Done True, k1)))))"

fun broadcast_loop :: "pid list \<Rightarrow> nat \<Rightarrow> system_event \<Rightarrow> usize4 \<Rightarrow> kernel \<Rightarrow> nat res \<times> kernel" where
  "broadcast_loop [] n ev args k = (Done n, k)"
| "broadcast_loop (p # ps) n ev args k =
     (if k_process k p = None then broadcast_loop ps n ev args k
      else seq (send_system_event p ev args k)
             (\<lambda>sent. broadcast_loop ps (if sent then n + 1 else n) ev args))"

definition broadcast_event :: "system_event \<Rightarrow> usize4 \<Rightarrow> kernel \<Rightarrow> nat res \<times> kernel" where
  "broadcast_event = broadcast_loop [1..<Suc MAX_PROCESS_COUNT] 0"

section \<open>Calls that wait and try again\<close>

text \<open>The thread goes back to its call and waits in the state \<open>st\<close> until it is made ready.\<close>

definition retry_syscall :: "usize \<Rightarrow> tid \<Rightarrow> thread_state \<Rightarrow> kernel \<Rightarrow> xresult res \<times> kernel" where
  "retry_syscall usage t st k = seq (change_thread (k_current k) t st k) (\<lambda>_. resume usage)"

definition on_connections :: "pid \<Rightarrow> (connection_map \<Rightarrow> 'a \<times> connection_map) \<Rightarrow> kernel \<Rightarrow> 'a option \<times> kernel" where
  "on_connections p f k =
     (case k_process k p of
        None \<Rightarrow> (None, k)
      | Some (pr, mp) \<Rightarrow>
          (case f (proc_connections pr) of
             (x, m) \<Rightarrow> (Some x, k\<lparr>k_procs := (k_procs k)(p \<mapsto> (pr\<lparr>proc_connections := m\<rparr>, mp))\<rparr>)))"

definition check_message_permission :: "tid \<Rightarrow> cid \<Rightarrow> message \<Rightarrow> bool \<Rightarrow> kernel \<Rightarrow> bool res \<times> kernel" where
  "check_message_permission t c m may_wait k =
     (case k_process k (k_current k) of
        None \<Rightarrow> (Panic, k)
      | Some (pr, _) \<Rightarrow>
          (case connection (proc_connections pr) c of
             Inl e \<Rightarrow> (Fail e, k)
           | Inr i \<Rightarrow>
               (case proc_connections pr ! i of
                  Connected x _ _ perms \<Rightarrow>
                    (case server_from_sidx k x of
                       None \<Rightarrow> (Fail ServerNotFound, k)
                     | Some s \<Rightarrow>
                         if srv_pid s = k_current k \<or> is_permitted perms (message_id_of m) then (Done False, k)
                         else if \<not> may_wait then (Fail AccessDenied, k)
                         else (case insert_request (k_requests k) (k_current k) (proc_app_id pr) t c x (srv_sid s) (message_id_of m) of
                             (None, _) \<Rightarrow> (Fail KernelTableFull, k)
                           | (Some r, es) \<Rightarrow>
                               (case broadcast_event SE_PermissionRequest (of_nat r, 0, 0, 0) (k\<lparr>k_requests := es\<rparr>) of
                                  (Fail e, k1) \<Rightarrow> (Fail e, k1\<lparr>k_requests := snd (take_request (k_requests k1) r)\<rparr>)
                                | (Panic, k1) \<Rightarrow> (Panic, k1)
                                | (Done n, k1) \<Rightarrow>
                                    if n = 0 then (Fail AccessDenied, k1\<lparr>k_requests := snd (take_request (k_requests k1) r)\<rparr>)
                                    else seq (change_thread (k_current k1) t (RetryPermission r) k1) (\<lambda>_ k2. (Done True, k2)))))
                | _ \<Rightarrow> (Fail ServerNotFound, k))))"

text \<open>The calls \<open>SendMessage\<close> and \<open>TrySendMessage\<close>.\<close>

definition send_call :: "usize \<Rightarrow> tid \<Rightarrow> cid \<Rightarrow> message \<Rightarrow> kernel \<Rightarrow> xresult res \<times> kernel" where
  "send_call usage t c m k =
     seq (check_message_permission t c m True k) (\<lambda>parked k1.
       if parked then resume usage k1
       else (case send_message usage t c m k1 of
           (Fail e, k2) \<Rightarrow>
             if e \<noteq> ServerQueueFull then (Fail e, k2)
             else (case k_process k2 (k_current k2) of
                 None \<Rightarrow> (Panic, k2)
               | Some (pr, _) \<Rightarrow>
                   (case connection (proc_connections pr) c of
                      Inl e \<Rightarrow> (Fail e, k2)
                    | Inr i \<Rightarrow>
                        (case proc_connections pr ! i of
                           Connected x _ _ _ \<Rightarrow> retry_syscall usage t (RetryQueueFull x) k2
                         | _ \<Rightarrow> (Fail ServerNotFound, k2))))
         | y \<Rightarrow> y))"

definition try_send_call :: "usize \<Rightarrow> tid \<Rightarrow> cid \<Rightarrow> message \<Rightarrow> kernel \<Rightarrow> xresult res \<times> kernel" where
  "try_send_call usage t c m k =
     seq (check_message_permission t c m False k) (\<lambda>_. send_message usage t c m)"

text \<open>The permission broker's answer.\<close>

definition grant_permission :: "permission_request \<Rightarrow> kernel \<Rightarrow> bool \<times> kernel" where
  "grant_permission r k =
     (case on_connections (pr_sender_pid r)
             (\<lambda>m. add_connection_permission m (pr_cid r) (pr_message_id r, pr_message_id r + 1)) k of
        (Some (Done _), k1) \<Rightarrow> (True, k1)
      | (_, k1) \<Rightarrow> (False, k1))"

definition resolve_message_permission :: "nat \<Rightarrow> bool \<Rightarrow> kernel \<Rightarrow> xresult res \<times> kernel" where
  "resolve_message_permission i allow k =
     (case take_request (k_requests k) i of
        (None, es) \<Rightarrow> (Fail ServerNotFound, k\<lparr>k_requests := es\<rparr>)
      | (Some r, es) \<Rightarrow>
          (let k0 = k\<lparr>k_requests := es\<rparr> in
           if \<not> pr_valid r then (Done R_Ok, k0)
           else (let (granted, k1) = (if allow then grant_permission r k0 else (False, k0)) in
             if thread_state_of k1 (pr_sender_pid r, pr_sender_tid r) \<noteq> Some (RetryPermission i) then (Panic, k1)
             else seq (if granted then (Done (), k1)
                       else set_thread_result (pr_sender_pid r) (pr_sender_tid r) (R_Error AccessDenied) k1) (\<lambda>_ k2.
               seq (change_thread (pr_sender_pid r) (pr_sender_tid r) TS_Ready k2) (\<lambda>_ k3. (Done R_Ok, k3))))))"

text \<open>A sender whose request can never be granted is released with an error.\<close>

definition fail_permission_request :: "pid \<Rightarrow> tid \<Rightarrow> nat \<Rightarrow> error \<Rightarrow> kernel \<Rightarrow> unit res \<times> kernel" where
  "fail_permission_request p t i e k =
     (if thread_state_of k (p, t) \<noteq> Some (RetryPermission i) then (Panic, k)
      else seq (unwrapped (set_thread_result p t (R_Error e) k)) (\<lambda>_. change_thread p t TS_Ready))"

lemma seq_cong [fundef_cong]:
  "r = r' \<Longrightarrow> (\<And>a s. r' = (Done a, s) \<Longrightarrow> f a s = g a s) \<Longrightarrow> seq r f = seq r' g"
  by (cases r'; cases "fst r'") auto

lemma change_thread_requests: "change_thread p t st k = (r, k') \<Longrightarrow> k_requests k' = k_requests k"
  by (auto simp: change_thread_def on_threads_def split: if_splits prod.splits)

lemma set_thread_result_requests: "set_thread_result p t v k = (r, k') \<Longrightarrow> k_requests k' = k_requests k"
  by (auto simp: set_thread_result_def split: if_splits)

lemma unwrapped_Done: "unwrapped x = (Done a, k) \<longleftrightarrow> x = (Done a, k)"
  by (auto simp: unwrapped_def split: prod.splits outcome.splits)

lemma fail_permission_request_requests:
  assumes "fail_permission_request p t i e k = (Done y, k')"
  shows "k_requests k' = k_requests k"
proof -
  obtain x k1 where "set_thread_result p t (R_Error e) k = (Done x, k1)" "change_thread p t TS_Ready k1 = (Done y, k')"
    using assms by (auto simp: fail_permission_request_def unwrapped_Done dest!: seq_Done split: if_splits)
  with change_thread_requests set_thread_result_requests show ?thesis by metis
qed

function fail_requests :: "(permission_request \<Rightarrow> bool) \<Rightarrow> error \<Rightarrow> kernel \<Rightarrow> unit res \<times> kernel" where
  "fail_requests pred e k =
     (case tombstone_next (k_requests k) pred of
        (None, es) \<Rightarrow> (Done (), k\<lparr>k_requests := es\<rparr>)
      | (Some (p, t, i), es) \<Rightarrow>
          seq (fail_permission_request p t i e (k\<lparr>k_requests := es\<rparr>)) (\<lambda>_. fail_requests pred e))"
  by pat_completeness auto

termination fail_requests
proof (relation "measure (\<lambda>(pred, e, k). count_if (matching pred) (k_requests k))", goal_cases)
  case (2 pred e k x es u p ti t i y k')
  then have "tombstone_next (k_requests k) pred = (Some (p, t, i), es)" "k_requests k' = es"
    using fail_permission_request_requests [of p t i e "k\<lparr>k_requests := es\<rparr>" y k'] by auto
  with tombstone_next_less [of "(p, t, i)" es "k_requests k" pred] show ?case by simp
qed simp

declare fail_requests.simps [simp del]

section \<open>Creating, connecting, disconnecting\<close>

text \<open>Threads of any process that wait in the state \<open>st\<close> try again.\<close>

definition wake_waiting :: "thread_state \<Rightarrow> kernel \<Rightarrow> unit res \<times> kernel" where
  "wake_waiting st = on_threads (wake_all_threads_with_state st (2 ^ 32 - 1))"

text \<open>\<open>MemoryManager::map_range\<close> in the current process.\<close>

definition map_current :: "usize \<Rightarrow> usize \<Rightarrow> usize \<Rightarrow> memory_flags \<Rightarrow> bool \<Rightarrow> kernel \<Rightarrow> memory_range res \<times> kernel" where
  "map_current phys virt len fl user k =
     (case k_process k (k_current k) of
        None \<Rightarrow> (Panic, k)
      | Some (pr, mp) \<Rightarrow>
          (case map_range (mem_get (k_mem k)) mp phys virt len fl user pr (k_vm k) of
             (r, pr1, v) \<Rightarrow> (r, k\<lparr>k_procs := (k_procs k)(k_current k \<mapsto> (pr1, mp)), k_vm := v\<rparr>)))"

fun has_sid :: "sid \<Rightarrow> server option \<Rightarrow> bool" where
  "has_sid sd None = False"
| "has_sid sd (Some s) = (srv_sid s = sd)"

definition create_server_with_address :: "sid \<Rightarrow> msg_range \<Rightarrow> kernel \<Rightarrow> sid res \<times> kernel" where
  "create_server_with_address sd initial_permissions k =
     (if find_index (has_sid sd) (k_servers k) \<noteq> None then (Fail ServerExists, k)
      else case find_index (\<lambda>e. e = None) (k_servers k) of
          None \<Rightarrow> (Fail KernelTableFull, k)
        | Some x \<Rightarrow>
            seq (map_current 0 0 4096 (flags_or MF_W POPULATE) False k) (\<lambda>backing k1.
              case server_init (k_servers k1 ! x) (k_current k1) sd backing initial_permissions of
                (Done _, entry) \<Rightarrow>
                  seq (wake_waiting (RetryConnect (quick_hash sd)) (k1\<lparr>k_servers := (k_servers k1)[x := entry]\<rparr>))
                    (\<lambda>_ k2. (Done sd, k2))
              | (_, entry) \<Rightarrow> (Panic, k1\<lparr>k_servers := (k_servers k1)[x := entry]\<rparr>)))"

definition connect_to_server :: "pid \<Rightarrow> sid \<Rightarrow> kernel \<Rightarrow> cid res \<times> kernel" where
  "connect_to_server p sd k =
     (case find_index (has_sid sd) (k_servers k) of
        None \<Rightarrow> (Fail ServerNotFound, k)
      | Some x \<Rightarrow>
          (case server_from_sidx k x of
             None \<Rightarrow> (Panic, k)
           | Some s \<Rightarrow>
               (case on_connections p (\<lambda>m. add_connection m x (default_permissions s)) k of
                  (None, k1) \<Rightarrow> (Fail ProcessNotFound, k1)
                | (Some r, k1) \<Rightarrow>
                    seq (r, k1) (\<lambda>(c, new) k2.
                      seq (if new then send_server_event x NewConnection (0, 0, 0, 0) k2 else (Done (), k2))
                        (\<lambda>_ k3. (Done c, k3))))))"

text \<open>The call \<open>Connect\<close> waits for a server that does not exist yet.\<close>

definition connect_call :: "usize \<Rightarrow> tid \<Rightarrow> sid \<Rightarrow> kernel \<Rightarrow> xresult res \<times> kernel" where
  "connect_call usage t sd k =
     (case connect_to_server (k_current k) sd k of
        (Done c, k1) \<Rightarrow> (Done (R_ConnectionID c), k1)
      | (Fail e, k1) \<Rightarrow>
          if e = ServerNotFound then retry_syscall usage t (RetryConnect (quick_hash sd)) k1 else (Fail e, k1)
      | (Panic, k1) \<Rightarrow> (Panic, k1))"

definition disconnect_from_server :: "cid \<Rightarrow> kernel \<Rightarrow> unit res \<times> kernel" where
  "disconnect_from_server c k =
     (case on_connections (k_current k) (\<lambda>m. release_connection m c) k of
        (None, k1) \<Rightarrow> (Panic, k1)
      | (Some r, k1) \<Rightarrow>
          seq (r, k1) (\<lambda>gone k2.
            case gone of
              None \<Rightarrow> (Done (), k2)
            | Some x \<Rightarrow>
                seq (fail_requests (\<lambda>e. pr_sender_pid e = k_current k2 \<and> pr_cid e = c) ServerNotFound k2)
                  (\<lambda>_. send_server_event x SV_Disconnected (0, 0, 0, 0))))"

section \<open>Destroying a server\<close>

text \<open>A client that waits is released with \<open>ServerNotFound\<close>.\<close>

definition unblock_client :: "pid \<Rightarrow> tid \<Rightarrow> kernel \<Rightarrow> unit res \<times> kernel" where
  "unblock_client p t k =
     seq (unwrapped (set_thread_result p t (R_Error ServerNotFound) k)) (\<lambda>_. change_thread p t TS_Ready)"

definition return_memory_and_unblock_client :: "pid \<Rightarrow> tid \<Rightarrow> usize \<Rightarrow> server_buffer \<Rightarrow> kernel \<Rightarrow> unit res \<times> kernel" where
  "return_memory_and_unblock_client p t a b k =
     (case on_mem (return_memory (mr_addr b) p a (mr_size b)) k of
        (Panic, k1) \<Rightarrow> (Panic, k1)
      | (r, k1) \<Rightarrow>
          seq (if \<exists>e. r = Fail e then on_mem (clear_shared_range p a (mr_size b) ClearOnDemand) k1 else (Done (), k1)) (\<lambda>_ k2.
            seq (change_thread p t TS_Ready k2) (\<lambda>_ k3. unwrapped (set_thread_result p t (R_Error ServerNotFound) k3))))"

text \<open>The pages sit in the server's address space, which is the current one.\<close>

definition free_buffer :: "server_buffer \<Rightarrow> kernel \<Rightarrow> unit res \<times> kernel" where
  "free_buffer b k = ignored (unmap_current (mr_addr b) (mr_size b) k)"

fun destroy_entry :: "queued_message \<Rightarrow> kernel \<Rightarrow> unit res \<times> kernel" where
  "destroy_entry (MemoryMessageSend p g i b f v) k = free_buffer b k"
| "destroy_entry (MemoryMessageBlockingSendTerminated g i b f v) k = free_buffer b k"
| "destroy_entry (MemoryMessageROLendTerminated g i b f v) k = free_buffer b k"
| "destroy_entry (MemoryMessageRWLendTerminated g i b f v) k = free_buffer b k"
| "destroy_entry (WaitingForget b) k = free_buffer b k"
| "destroy_entry (BlockingScalarMessage p t g i args) k = unblock_client p t k"
| "destroy_entry (WaitingReturnScalar p t) k = unblock_client p t k"
| "destroy_entry (MemoryMessageROLend p t g i a b f v) k = return_memory_and_unblock_client p t a b k"
| "destroy_entry (MemoryMessageRWLend p t g i a b f v) k = return_memory_and_unblock_client p t a b k"
| "destroy_entry (WaitingReturnMemory p t b a) k = return_memory_and_unblock_client p t a b k"
| "destroy_entry (MemoryMessageBlockingSend p t g i a b f v) k =
     seq (free_buffer b k) (\<lambda>_ k1.
       seq (on_mem (clear_shared_range p a (mr_size b) ClearOnDemand) k1) (\<lambda>_. unblock_client p t))"
| "destroy_entry (WaitingReturnMoved p t a sz) k =
     seq (on_mem (clear_shared_range p a sz ClearOnDemand) k) (\<lambda>_. unblock_client p t)"
| "destroy_entry Empty k = (Done (), k)"
| "destroy_entry (ScalarMessage p g i args) k = (Done (), k)"
| "destroy_entry (BlockingScalarTerminated g i args) k = (Done (), k)"
| "destroy_entry WaitingReturnScalarTerminated k = (Done (), k)"
| "destroy_entry WaitingReturnMovedTerminated k = (Done (), k)"

fun destroy_entries :: "queued_message list \<Rightarrow> kernel \<Rightarrow> unit res \<times> kernel" where
  "destroy_entries [] k = (Done (), k)"
| "destroy_entries (q # qs) k = seq (destroy_entry q k) (\<lambda>_. destroy_entries qs)"

text \<open>All threads that wait for a message of the server are told that it is gone.\<close>

function wake_receivers :: "pid \<Rightarrow> server \<Rightarrow> kernel \<Rightarrow> unit res \<times> kernel" where
  "wake_receivers p s k =
     (case take_available_thread s of
        (Done None, s1) \<Rightarrow> (Done (), k)
      | (Done (Some t), s1) \<Rightarrow>
          seq (change_thread p t TS_Ready k) (\<lambda>_ k1.
            seq (unwrapped (set_thread_result p t (R_Error ServerNotFound) k1)) (\<lambda>_. wake_receivers p s1))
      | (Fail e, s1) \<Rightarrow> (Fail e, k)
      | (Panic, s1) \<Rightarrow> (Panic, k))"
  by pat_completeness auto

lemma finite_waiting: "finite (waiting_threads s)"
  by (rule finite_subset [of _ "{..<32}"]) (auto simp: waiting_threads_def dest: bit_imp_le_length)

lemma take_available_less:
  assumes "take_available_thread s = (Done (Some t), s')"
  shows "card (waiting_threads s') < card (waiting_threads s)"
proof -
  have "t \<in> waiting_threads s" "waiting_threads s' = waiting_threads s - {t}"
    using take_available_thread_sim [of s] assms by auto
  with card_Diff1_less [OF finite_waiting] show ?thesis by simp
qed

termination wake_receivers
  by (relation "measure (\<lambda>(p, s, k). card (waiting_threads s))") (auto dest: take_available_less [OF sym])

declare wake_receivers.simps [simp del]

definition destroy :: "server \<Rightarrow> kernel \<Rightarrow> unit res \<times> kernel" where
  "destroy s k =
     seq (destroy_entries (queue s) k) (\<lambda>_ k1.
       seq (wake_receivers (k_current k1) s k1) (\<lambda>_ k2.
         unwrapped (unmap_current (mr_addr (srv_backing s)) (of_nat (length (queue s) * QUEUED_MESSAGE_SIZE)) k2)))"

text \<open>Connections to the server become tombstones, and their owners are told.\<close>

fun tombstone_loop :: "pid list \<Rightarrow> nat \<Rightarrow> kernel \<Rightarrow> unit res \<times> kernel" where
  "tombstone_loop [] x k = (Done (), k)"
| "tombstone_loop (p # ps) x k =
     (case on_connections p (\<lambda>m. tombstone_connection_by_sidx m x) k of
        (Some (Some c), k1) \<Rightarrow>
          seq (ignored (send_system_event p SE_Disconnected (c, 0, 0, 0) k1)) (\<lambda>_. tombstone_loop ps x)
      | (_, k1) \<Rightarrow> tombstone_loop ps x k1)"

definition destroy_sidx :: "nat \<Rightarrow> kernel \<Rightarrow> unit res \<times> kernel" where
  "destroy_sidx x k =
     seq (fail_requests (\<lambda>e. pr_sidx e = x) ServerNotFound k) (\<lambda>_ k1.
       case server_from_sidx k1 x of
         None \<Rightarrow> (Panic, k1)
       | Some s \<Rightarrow>
           seq (destroy s (k1\<lparr>k_servers := (k_servers k1)[x := None]\<rparr>)) (\<lambda>_.
             tombstone_loop [1..<Suc MAX_PROCESS_COUNT] x))"

definition destroy_server :: "pid \<Rightarrow> sid \<Rightarrow> kernel \<Rightarrow> unit res \<times> kernel" where
  "destroy_server p sd k =
     (case sidx_from_sid sd p k of None \<Rightarrow> (Fail ServerNotFound, k) | Some x \<Rightarrow> destroy_sidx x k)"

section \<open>The end of a process\<close>

text \<open>Its own servers go; in the servers of others its messages lose their sender.\<close>

fun leave_servers :: "pid \<Rightarrow> nat list \<Rightarrow> kernel \<Rightarrow> unit res \<times> kernel" where
  "leave_servers p [] k = (Done (), k)"
| "leave_servers p (x # xs) k =
     (case server_from_sidx k x of
        None \<Rightarrow> leave_servers p xs k
      | Some s \<Rightarrow>
          if srv_pid s = p then seq (destroy_sidx x k) (\<lambda>_. leave_servers p xs)
          else if k_process k (srv_pid s) = None then (Panic, k)
          else (let k1 = put_server x (discard_messages_for_pid s p) (k\<lparr>k_current := srv_pid s\<rparr>) in
            if k_process k1 p = None then (Fail ProcessNotFound, k1)
            else leave_servers p xs (k1\<lparr>k_current := p\<rparr>)))"

fun notify_servers :: "nat list \<Rightarrow> kernel \<Rightarrow> unit res \<times> kernel" where
  "notify_servers [] k = (Done (), k)"
| "notify_servers (x # xs) k =
     seq (ignored (send_server_event x SV_Disconnected (0, 0, 0, 0) k)) (\<lambda>_. notify_servers xs)"

definition notify_parent :: "pid option \<Rightarrow> u32 \<Rightarrow> kernel \<Rightarrow> unit res \<times> kernel" where
  "notify_parent parent ret k =
     (case parent of None \<Rightarrow> (Done (), k) | Some q \<Rightarrow> ignored (send_system_event q ChildTerminated (ret, 0, 0, 0) k))"

definition stop_map_zero :: "pid \<Rightarrow> kernel \<Rightarrow> unit res \<times> kernel" where
  "stop_map_zero p k =
     (let m = vm_frames (k_vm k) in
      if map_zero_ongoing m = Some p
      then wake_waiting RetryMapZero (k\<lparr>k_vm := (k_vm k)\<lparr>vm_frames := cancel_map_zero m\<rparr>\<rparr>)
      else (Done (), k))"

text \<open>Its threads, memory and interrupts are released, its slot is free and its children lose their parent.\<close>

definition release_process :: "pid \<Rightarrow> kernel \<Rightarrow> unit res \<times> kernel" where
  "release_process p k =
     (case k_process k p of
        None \<Rightarrow> (Fail ProcessNotFound, k)
      | Some (_, mp) \<Rightarrow>
          seq (on_threads (on_process p terminate_threads) k) (\<lambda>_ k1.
            case on_frames (release_all_memory_for_process (map_pid mp)) (k_vm k1) of
              (Done _, v) \<Rightarrow>
                (Done (), k1\<lparr>k_procs := (\<lambda>q. map_option (map_prod (drop_parent p) id) (((k_procs k1)(p := None)) q)),
                   k_vm := v, k_irqs := release_interrupts_for_pid (k_irqs k1) p\<rparr>)
            | (r, v) \<Rightarrow> (r, k1\<lparr>k_vm := v\<rparr>)))"

definition terminate_current_process :: "usize \<Rightarrow> u32 \<Rightarrow> kernel \<Rightarrow> xresult res \<times> kernel" where
  "terminate_current_process usage ret k =
     (let p = k_current k in
      case k_process k p of
        None \<Rightarrow> (Panic, k)
      | Some (pr, _) \<Rightarrow>
          if ret \<noteq> 0 \<and> proc_ppid pr = Some 1 then (Panic, k)
          else seq (leave_servers p [0..<length (k_servers k)] k) (\<lambda>_ k1.
            let k2 = k1\<lparr>k_requests := snd (drain_requests (\<lambda>e. pr_sender_pid e = p) (k_requests k1))\<rparr> in
            case k_process k2 p of
              None \<Rightarrow> (Panic, k2)
            | Some (pr1, _) \<Rightarrow>
                seq (notify_parent (proc_ppid pr1) ret k2) (\<lambda>_ k3.
                  case k_process k3 p of
                    None \<Rightarrow> (Panic, k3)
                  | Some (pr2, _) \<Rightarrow>
                      seq (notify_servers (connected_sidxes (proc_connections pr2)) k3) (\<lambda>_ k4.
                        seq (stop_map_zero p k4) (\<lambda>_ k5.
                          seq (release_process p k5) (\<lambda>_. resume usage))))))"

definition terminate_process :: "usize \<Rightarrow> tid \<Rightarrow> pid \<Rightarrow> u32 \<Rightarrow> kernel \<Rightarrow> xresult res \<times> kernel" where
  "terminate_process usage t p ret k =
     (case k_process k p of
        None \<Rightarrow> (Fail ProcessNotFound, k)
      | Some (pr, _) \<Rightarrow>
          if proc_ppid pr = Some 1 then (Fail AccessDenied, k)
          else seq (set_thread_result (k_current k) t R_Ok k) (\<lambda>_ k1.
            terminate_current_process usage ret (k1\<lparr>k_current := p\<rparr>)))"

text \<open>The call \<open>TerminatePid\<close> is for other processes.\<close>

definition terminate_pid_call :: "usize \<Rightarrow> tid \<Rightarrow> pid \<Rightarrow> u32 \<Rightarrow> kernel \<Rightarrow> xresult res \<times> kernel" where
  "terminate_pid_call usage t p ret k =
     (if p = k_current k then (Fail InvalidArguments, k) else terminate_process usage t p ret k)"

section \<open>Asking and allowing\<close>

definition get_remote_process_id :: "cid \<Rightarrow> kernel \<Rightarrow> xresult res" where
  "get_remote_process_id c k =
     (case k_process k (k_current k) of
        None \<Rightarrow> Panic
      | Some (pr, _) \<Rightarrow>
          (case connection (proc_connections pr) c of
             Inl e \<Rightarrow> Fail e
           | Inr i \<Rightarrow>
               (case proc_connections pr ! i of
                  Connected x _ _ _ \<Rightarrow>
                    (case server_from_sidx k x of None \<Rightarrow> Fail ServerNotFound | Some s \<Rightarrow> Done (R_ProcessID (srv_pid s)))
                | _ \<Rightarrow> Fail ServerNotFound)))"

definition server_owner :: "sid \<Rightarrow> kernel \<Rightarrow> pid option" where
  "server_owner sd k = map_option (\<lambda>x. srv_pid (the (k_servers k ! x))) (find_index (has_sid sd) (k_servers k))"

definition allow_messages_sid :: "sid \<Rightarrow> msg_range \<Rightarrow> kernel \<Rightarrow> xresult res \<times> kernel" where
  "allow_messages_sid sd ids k =
     (case sidx_from_sid sd (k_current k) k of
        None \<Rightarrow> (Fail ServerNotFound, k)
      | Some x \<Rightarrow>
          seq (on_server x (\<lambda>s. case permissions_add (default_permissions s) ids of
              (r, ps) \<Rightarrow> (r, s\<lparr>default_permissions := ps\<rparr>)) k) (\<lambda>_ k1. (Done R_Ok, k1)))"

definition allow_messages_cid :: "pid \<Rightarrow> cid \<Rightarrow> msg_range \<Rightarrow> kernel \<Rightarrow> xresult res \<times> kernel" where
  "allow_messages_cid p c ids k =
     (case on_connections p (\<lambda>m. case connection m c of
             Inl e \<Rightarrow> (Fail ServerNotFound, m)
           | Inr i \<Rightarrow> add_connection_permission m c ids) k of
        (None, k1) \<Rightarrow> (Fail ProcessNotFound, k1)
      | (Some r, k1) \<Rightarrow> seq (r, k1) (\<lambda>_ k2. (Done R_Ok, k2)))"

end
