(* ===== verification/Lifecycle_Waits.thy ===== *)
theory Lifecycle_Waits
  imports Server_Lifecycle
begin

text \<open>
  Nobody is forgotten when servers come and go: every call of \<open>Server_Lifecycle\<close> changes the two
  sides of waiting by steps of the protocol of \<open>Waiting_Threads\<close>. Events release threads, a server
  that is destroyed releases everybody at once, and a process that ends takes its threads along.
\<close>

section \<open>Steps that leave everybody waiting\<close>

lemma on_connections_still: "on_connections p f k = (r, k') \<Longrightarrow> still k k'"
  by (auto simp: on_connections_def k_process_some k_thread_states_def k_process_def fun_eq_iff
      split: option.splits prod.splits intro!: stillI)

lemma requests_still: "still k (k\<lparr>k_requests := es\<rparr>)"
  by (auto intro!: stillI simp: k_thread_states_def k_process_def fun_eq_iff)

lemma map_current_still:
  assumes "map_current phys virt len fl user k = (r, k')"
  shows "still k k'"
proof (cases "k_process k (k_current k)")
  case None
  then show ?thesis using assms by (simp add: map_current_def)
next
  case (Some x)
  then obtain pr mp where pr: "k_process k (k_current k) = Some (pr, mp)" by (cases x) simp
  obtain r1 pr1 v where m: "map_range (mem_get (k_mem k)) mp phys virt len fl user pr (k_vm k) = (r1, pr1, v)"
    by (metis prod.exhaust)
  then have "threads pr1 = threads pr"
    by (auto simp: map_range_def split: prod.splits outcome.splits dest: find_virtual_address_threads)
  with assms pr m show ?thesis
    by (auto simp: map_current_def k_process_some k_thread_states_def k_process_def fun_eq_iff intro!: stillI)
qed

lemma wake_waiting_still: "wake_waiting st k = (r, k') \<Longrightarrow> wait_of st = None \<Longrightarrow> still k k'"
  unfolding wake_waiting_def by (rule wake_all_still)

lemma same_for: "w_for w u = a \<Longrightarrow> w\<lparr>w_for := (w_for w)(u := a)\<rparr> = w"
  by auto

lemma change_thread_still:
  assumes "change_thread p t st k = (Done y, k')" and "w_for (k_waits k) (p, t) = wait_of st"
  shows "still k k'"
  using change_thread_waits [of p t st k k'] assms same_for [of "k_waits k" "(p, t)" "wait_of st"] by (simp add: still_def)

lemma ignored_still: "(\<And>r k'. x = (r, k') \<Longrightarrow> still k k') \<Longrightarrow> ignored x = (r, k') \<Longrightarrow> still k k'"
  by (cases x; cases "fst x") (auto simp: ignored_def)

lemma unwrapped_run: "unwrapped x = (r, k') \<Longrightarrow> r \<noteq> Panic \<Longrightarrow> x = (r, k') \<and> (\<exists>a. r = Done a)"
  by (auto simp: unwrapped_def split: prod.splits outcome.splits)

lemma fail_permission_request_still:
  assumes run: "fail_permission_request p t i e k = (r, k')" and r: "r \<noteq> Panic"
  shows "still k k' \<and> r = Done ()"
proof -
  have st: "thread_state_of k (p, t) = Some (RetryPermission i)" using run r by (auto simp: fail_permission_request_def split: if_splits)
  with run have "seq (unwrapped (set_thread_result p t (R_Error e) k)) (\<lambda>_. change_thread p t TS_Ready) = (r, k')"
    by (simp add: fail_permission_request_def)
  from seq_run [OF this r] unwrapped_run obtain x k1 where
    k1: "unwrapped (set_thread_result p t (R_Error e) k) = (Done x, k1)" "change_thread p t TS_Ready k1 = (r, k')" by fastforce
  have r': "r = Done ()" using k1(2) r change_thread_no_fail by (cases r) auto
  have s1: "still k k1" using unwrapped_run [OF k1(1)] set_thread_result_still by blast
  then have "w_for (k_waits k1) (p, t) = wait_of TS_Ready" using st by (simp add: still_def w_for_state)
  from still_trans [OF s1 change_thread_still [OF k1(2) [unfolded r'] this]] r' show ?thesis by simp
qed

lemma fail_requests_still:
  "fail_requests pred e k = (r, k') \<Longrightarrow> r \<noteq> Panic \<Longrightarrow> still k k' \<and> r = Done ()"
proof (induction pred e k arbitrary: r k' rule: fail_requests.induct)
  case (1 pred e k)
  obtain fd es where tn: "tombstone_next (k_requests k) pred = (fd, es)" by fastforce
  let ?k = "k\<lparr>k_requests := es\<rparr>"
  show ?case
  proof (cases fd)
    case None
    with 1(2) tn have "r = Done ()" "k' = ?k" by (simp_all add: fail_requests.simps [of pred e k])
    with requests_still show ?thesis by simp
  next
    case (Some x)
    then obtain p t i where x: "fd = Some (p, t, i)" by (cases x) simp
    have run: "seq (fail_permission_request p t i e ?k) (\<lambda>_. fail_requests pred e) = (r, k')"
      using 1(2) tn x by (simp add: fail_requests.simps [of pred e k])
    from seq_run [OF run 1(3)] show ?thesis
    proof (elim disjE exE conjE)
      fix e' assume "fail_permission_request p t i e ?k = (Fail e', k')"
      from fail_permission_request_still [OF this] show ?thesis by simp
    next
      fix y k1 assume f: "fail_permission_request p t i e ?k = (Done y, k1)" and rest: "fail_requests pred e k1 = (r, k')"
      have ih: "still k1 k' \<and> r = Done ()"
        by (rule 1(1) [OF tn [symmetric] x HOL.refl HOL.refl f rest 1(3)])
      from fail_permission_request_still [OF f] still_trans [OF requests_still] have "still k k1" by blast
      with ih still_trans show ?thesis by blast
    qed
  qed
qed

section \<open>Events only release threads\<close>

text \<open>Nobody new waits: slots and waiting threads only go, by steps of the protocol.\<close>

definition fewer :: "waits \<Rightarrow> waits \<Rightarrow> bool" where
  "fewer w w' \<longleftrightarrow> (\<forall>x i. w_slot w' x i = None \<or> w_slot w' x i = w_slot w x i)
     \<and> (\<forall>x. w_recv w' x \<subseteq> w_recv w x) \<and> (\<forall>u. w_for w u = None \<longrightarrow> w_for w' u = None)"

lemma fewer_refl [simp]: "fewer w w"
  by (simp add: fewer_def)

lemma fewer_trans: "fewer w w1 \<Longrightarrow> fewer w1 w2 \<Longrightarrow> fewer w w2"
  unfolding fewer_def by (metis subset_trans)

definition fades :: "kernel \<Rightarrow> kernel \<Rightarrow> bool" where
  "fades k k' \<longleftrightarrow> k_ok k' \<and> k_current k' = k_current k \<and> wait_steps (k_waits k) (k_waits k') \<and> fewer (k_waits k) (k_waits k')"

lemma fadesD: "fades k k' \<Longrightarrow> k_ok k'" "fades k k' \<Longrightarrow> k_current k' = k_current k"
  "fades k k' \<Longrightarrow> wait_steps (k_waits k) (k_waits k')" "fades k k' \<Longrightarrow> fewer (k_waits k) (k_waits k')"
  by (simp_all add: fades_def)

lemma fades_trans: "fades k k1 \<Longrightarrow> fades k1 k2 \<Longrightarrow> fades k k2"
  unfolding fades_def using wait_steps_trans fewer_trans by metis

lemma still_fades: "still k k' \<Longrightarrow> k_ok k \<Longrightarrow> fades k k'"
  using still_ok [of k k'] by (simp add: fades_def still_def wait_steps.stay)

lemma fades_refl: "k_ok k \<Longrightarrow> fades k k"
  by (rule still_fades) simp_all

lemma event_fades:
  assumes ok: "k_ok k" and run: "send_message_inner 0 x (event_message i args) k = (r, k')" and r: "r \<noteq> Panic"
  shows "fades k k'"
proof -
  have m: "wf_message (event_message i args)" "\<not> is_blocking (event_message i args)"
    by (cases args; simp add: new_scalar_def)+
  note s = sent [OF ok m(1) _ run r]
  show ?thesis
  proof (cases r)
    case (Done y)
    with s m(2) have k': "k_ok k'" "k_current k' = k_current k" "delivered x (k_current k, 0) False (k_waits k) (k_waits k')" by simp_all
    then have "(k_waits k' = k_waits k \<or> wait_step (k_waits k) (k_waits k')) \<and> fewer (k_waits k) (k_waits k')"
      by (auto simp: delivered_def fewer_def)
    with k' wait_steps_one wait_steps.stay show ?thesis unfolding fades_def by metis
  qed (use s r in \<open>simp_all add: fades_def wait_steps.stay\<close>)
qed

lemma seq_fades:
  assumes run: "seq x f = (r, k')" and r: "r \<noteq> Panic"
    and x: "\<And>r1 k1. x = (r1, k1) \<Longrightarrow> r1 \<noteq> Panic \<Longrightarrow> fades k k1"
    and f: "\<And>a k1. x = (Done a, k1) \<Longrightarrow> f a k1 = (r, k') \<Longrightarrow> fades k k1 \<Longrightarrow> fades k1 k'"
  shows "fades k k'"
  using seq_run [OF run r]
proof (elim disjE exE conjE)
  fix e assume "x = (Fail e, k')"
  with x show ?thesis by blast
next
  fix a k1 assume a: "x = (Done a, k1)" "f a k1 = (r, k')"
  from x [OF a(1)] have "fades k k1" by simp
  with f [OF a this] fades_trans show ?thesis by blast
qed

lemma ignored_fades: "ignored x = (r, k') \<Longrightarrow> r \<noteq> Panic \<Longrightarrow> (\<And>r1 k1. x = (r1, k1) \<Longrightarrow> r1 \<noteq> Panic \<Longrightarrow> fades k k1) \<Longrightarrow> fades k k'"
  by (cases x; cases "fst x") (auto simp: ignored_def)

lemma send_server_event_fades:
  "k_ok k \<Longrightarrow> send_server_event x ev args k = (r, k') \<Longrightarrow> r \<noteq> Panic \<Longrightarrow> fades k k'"
  using event_fades fades_refl by (auto simp: send_server_event_def split: option.splits)

lemma send_system_event_fades:
  assumes ok: "k_ok k" and run: "send_system_event p ev args k = (r, k')" and r: "r \<noteq> Panic"
  shows "fades k k'"
proof -
  have "k' = k \<or> (\<exists>x i. seq (send_message_inner 0 x (event_message i args) k) (\<lambda>_ k1. (Done True, k1)) = (r, k'))"
    using run by (auto simp: send_system_event_def split: option.splits prod.splits)
  then show ?thesis
  proof (elim disjE exE)
    fix x i assume s: "seq (send_message_inner 0 x (event_message i args) k) (\<lambda>_ k1. (Done True, k1)) = (r, k')"
    show ?thesis
      by (rule seq_fades [OF s r event_fades [OF ok]]) (auto intro: fades_refl fadesD)
  qed (use fades_refl [OF ok] in simp)
qed

lemma broadcast_loop_fades:
  "k_ok k \<Longrightarrow> broadcast_loop ps n ev args k = (r, k') \<Longrightarrow> r \<noteq> Panic \<Longrightarrow> fades k k'"
proof (induction ps arbitrary: n k)
  case (Cons p ps)
  show ?case
  proof (cases "k_process k p = None")
    case False
    with Cons.prems(2) have "seq (send_system_event p ev args k)
        (\<lambda>b. broadcast_loop ps (if b then n + 1 else n) ev args) = (r, k')" by simp
    from this Cons.prems(3) show ?thesis
      by (rule seq_fades) (use send_system_event_fades Cons.IH Cons.prems fadesD(1) in blast)+
  qed (use Cons in simp)
qed (use fades_refl in simp)

lemma notify_servers_fades: "k_ok k \<Longrightarrow> notify_servers xs k = (r, k') \<Longrightarrow> r \<noteq> Panic \<Longrightarrow> fades k k'"
proof (induction xs arbitrary: k)
  case (Cons x xs)
  have run: "seq (ignored (send_server_event x SV_Disconnected (0, 0, 0, 0) k)) (\<lambda>_. notify_servers xs) = (r, k')"
    using Cons.prems(2) by simp
  show ?case
    by (rule seq_fades [OF run Cons.prems(3)])
      (use ignored_fades send_server_event_fades Cons.IH Cons.prems fadesD(1) in blast)+
qed (use fades_refl in simp)

lemma notify_parent_fades: "k_ok k \<Longrightarrow> notify_parent q ret k = (r, k') \<Longrightarrow> r \<noteq> Panic \<Longrightarrow> fades k k'"
  using ignored_fades [of "send_system_event (the q) ChildTerminated (ret, 0, 0, 0) k" r k' k] send_system_event_fades fades_refl
  by (auto simp: notify_parent_def split: option.splits)

lemma tombstone_loop_fades: "k_ok k \<Longrightarrow> tombstone_loop ps x k = (r, k') \<Longrightarrow> r \<noteq> Panic \<Longrightarrow> fades k k'"
proof (induction ps arbitrary: k)
  case (Cons p ps)
  obtain fd k1 where c: "on_connections p (\<lambda>m. tombstone_connection_by_sidx m x) k = (fd, k1)" by fastforce
  have k1: "fades k k1" using still_fades [OF on_connections_still [OF c]] Cons.prems(1) .
  show ?case
  proof (cases "\<exists>cd. fd = Some (Some cd)")
    case True
    then obtain cd where "seq (ignored (send_system_event p SE_Disconnected (cd, 0, 0, 0) k1)) (\<lambda>_. tombstone_loop ps x) = (r, k')"
      using Cons.prems(2) c by auto
    from this Cons.prems(3) have "fades k1 k'"
      by (rule seq_fades) (use ignored_fades send_system_event_fades Cons.IH Cons.prems fadesD(1) k1 in blast)+
    with k1 fades_trans show ?thesis by blast
  next
    case False
    then have "tombstone_loop ps x k1 = (r, k')" using Cons.prems(2) c by (auto split: option.splits)
    with Cons.IH Cons.prems(3) k1 fadesD(1) fades_trans show ?thesis by blast
  qed
qed (use fades_refl in simp)

section \<open>Destroying a server closes it\<close>

text \<open>No thread changes its state.\<close>

definition quiet :: "kernel \<Rightarrow> kernel \<Rightarrow> bool" where
  "quiet k k' \<longleftrightarrow> k_thread_states k' = k_thread_states k \<and> k_servers k' = k_servers k \<and> k_current k' = k_current k"

lemma quiet_still: "quiet k k' \<Longrightarrow> still k k'"
  by (simp add: quiet_def stillI)

lemma quiet_refl [simp]: "quiet k k"
  by (simp add: quiet_def)

lemma quiet_trans: "quiet k k1 \<Longrightarrow> quiet k1 k2 \<Longrightarrow> quiet k k2"
  by (simp add: quiet_def)

lemma on_mem_quiet:
  assumes run: "on_mem f k = (r, k')" and f: "keeps_threads (k_mem k) (snd (f (k_mem k)))"
  shows "quiet k k'"
proof -
  obtain m where m: "f (k_mem k) = (r, m)" "k' = k\<lparr>k_procs := mem_procs m, k_vm := mem_vm m\<rparr>"
    using run by (auto simp: on_mem_def split: prod.splits)
  have "map_option (threads \<circ> fst) (mem_procs m p) = map_option (threads \<circ> fst) (k_procs k p)" for p
    using keeps_thread_states [OF f, of p] m(1) by (simp add: k_mem_def)
  then show ?thesis by (auto simp: quiet_def m(2) k_thread_states_def k_process_def fun_eq_iff)
qed

lemma memory_quiet:
  "on_mem (send_memory a q d n) k = (r, k') \<Longrightarrow> quiet k k'"
  "on_mem (lend_memory a q d n b) k = (r, k') \<Longrightarrow> quiet k k'"
  "on_mem (return_memory a q d n) k = (r, k') \<Longrightarrow> quiet k k'"
  "on_mem (clear_shared_range q d n mode) k = (r2, k') \<Longrightarrow> quiet k k'"
  by (erule on_mem_quiet, simp add: memory_keeps_threads)+

lemma set_thread_result_quiet: "set_thread_result p t v k = (r, k') \<Longrightarrow> quiet k k'"
  by (auto simp: quiet_def set_thread_result_def k_thread_states_def k_process_def fun_eq_iff split: if_splits)

lemma unmap_current_quiet: "unmap_current a len k = (r, k') \<Longrightarrow> quiet k k'"
  by (auto simp: quiet_def unmap_current_def k_thread_states_def k_process_def fun_eq_iff split: option.splits prod.splits)

lemma ignored_quiet: "(\<And>r k'. x = (r, k') \<Longrightarrow> quiet k k') \<Longrightarrow> ignored x = (r, k') \<Longrightarrow> quiet k k'"
  by (cases x; cases "fst x") (auto simp: ignored_def)

lemma change_thread_state_of:
  assumes "change_thread p t st k = (Done y, k')"
  shows "thread_state_of k' u = (if u = (p, t) then Some st else thread_state_of k u)"
proof -
  obtain ts where "k_thread_states k p = Some ts" "t < length ts" "k_thread_states k' = (k_thread_states k)(p \<mapsto> ts[t := st])"
    using change_thread_states [of p t st k k'] assms by auto
  then show ?thesis by (cases u) (auto simp: thread_state_of_def nth_list_update)
qed

text \<open>Some threads stop waiting and become ready; the others stay as they are.\<close>

definition released :: "thread set \<Rightarrow> waits \<Rightarrow> waits" where
  "released us w = w\<lparr>w_for := (\<lambda>u. if u \<in> us then None else w_for w u)\<rparr>"

definition releases :: "kernel \<Rightarrow> thread set \<Rightarrow> kernel \<Rightarrow> bool" where
  "releases k us k' \<longleftrightarrow> (\<forall>u. thread_state_of k' u = (if u \<in> us then Some TS_Ready else thread_state_of k u))
     \<and> k_servers k' = k_servers k \<and> k_current k' = k_current k"

lemma releases_waits:
  assumes "releases k us k'"
  shows "k_waits k' = released us (k_waits k)"
proof (rule waits_eqI)
  show "w_for (k_waits k') = w_for (released us (k_waits k))"
    using assms by (auto simp: released_def releases_def w_for_state fun_eq_iff split: option.splits)
qed (use assms server_same [of k' k] in \<open>simp_all add: released_def releases_def k_waits_def\<close>)

lemma releases_trans: "releases k us k1 \<Longrightarrow> releases k1 vs k2 \<Longrightarrow> releases k (us \<union> vs) k2"
  by (auto simp: releases_def)

lemma quiet_releases: "quiet k k' \<Longrightarrow> releases k {} k'"
  by (simp add: releases_def quiet_def thread_state_of_def)

lemma releases_then_quiet: "releases k us k1 \<Longrightarrow> quiet k1 k2 \<Longrightarrow> releases k us k2"
  using releases_trans [of k us k1 "{}" k2] by (simp add: quiet_releases)

lemma quiet_then_releases: "quiet k k1 \<Longrightarrow> releases k1 us k2 \<Longrightarrow> releases k us k2"
  using releases_trans [of k "{}" k1 us k2] by (simp add: quiet_releases)

lemma seq_unwrap: "seq x f = (Done a, k') \<Longrightarrow> (\<And>b k1. x = (Done b, k1) \<Longrightarrow> f b k1 = (Done a, k') \<Longrightarrow> thesis) \<Longrightarrow> thesis"
  by (frule seq_Done) auto

lemma ready_releases:
  assumes "change_thread p t TS_Ready k = (Done y, k')"
  shows "releases k {(p, t)} k'"
  using change_thread_waits(2,3) [of p t TS_Ready k k'] change_thread_state_of [OF assms] assms by (simp add: releases_def)

lemma result_quiet: "unwrapped (set_thread_result p t v k) = (Done y, k') \<Longrightarrow> quiet k k'"
  using set_thread_result_quiet by (auto simp: unwrapped_Done)

lemma unblock_client_releases: "unblock_client p t k = (Done y, k') \<Longrightarrow> releases k {(p, t)} k'"
  unfolding unblock_client_def by (erule seq_unwrap) (use result_quiet quiet_then_releases ready_releases in blast)

lemma return_and_unblock_releases:
  assumes "return_memory_and_unblock_client p t a b k = (Done y, k')"
  shows "releases k {(p, t)} k'"
proof -
  obtain r k1 where m: "on_mem (return_memory (mr_addr b) p a (mr_size b)) k = (r, k1)" by fastforce
  with assms have "seq (if \<exists>e. r = Fail e then on_mem (clear_shared_range p a (mr_size b) ClearOnDemand) k1 else (Done (), k1)) (\<lambda>_ k2.
      seq (change_thread p t TS_Ready k2) (\<lambda>_ k3. unwrapped (set_thread_result p t (R_Error ServerNotFound) k3))) = (Done y, k')"
    by (cases r) (simp_all add: return_memory_and_unblock_client_def)
  then obtain z k2 where k2: "(if \<exists>e. r = Fail e then on_mem (clear_shared_range p a (mr_size b) ClearOnDemand) k1 else (Done (), k1)) = (Done z, k2)"
    and rest: "seq (change_thread p t TS_Ready k2) (\<lambda>_ k3. unwrapped (set_thread_result p t (R_Error ServerNotFound) k3)) = (Done y, k')"
    by (rule seq_unwrap)
  have s: "quiet k k2" using quiet_trans [OF memory_quiet(3) [OF m]] k2 memory_quiet(4) by (auto split: if_splits)
  from rest obtain k3 where "change_thread p t TS_Ready k2 = (Done (), k3)"
    "unwrapped (set_thread_result p t (R_Error ServerNotFound) k3) = (Done y, k')" by (auto elim: seq_unwrap)
  from quiet_then_releases [OF s releases_then_quiet [OF ready_releases [OF this(1)] result_quiet [OF this(2)]]] show ?thesis .
qed

lemma free_buffer_quiet: "free_buffer b k = (r, k') \<Longrightarrow> quiet k k'"
  unfolding free_buffer_def using ignored_quiet unmap_current_quiet by blast

lemma clear_then_unblock_releases:
  assumes "seq (on_mem (clear_shared_range p a sz mode) k) (\<lambda>_. unblock_client p t) = (Done y, k')"
  shows "releases k {(p, t)} k'"
  using assms by (rule seq_unwrap) (use memory_quiet(4) quiet_then_releases unblock_client_releases in blast)

lemma destroy_entry_releases:
  assumes "destroy_entry q k = (Done y, k')"
  shows "releases k {u. blocked_thread q = Some u} k'"
proof (cases q)
  case (MemoryMessageBlockingSend p t g i a b f v)
  with assms have "seq (free_buffer b k) (\<lambda>_ k1.
       seq (on_mem (clear_shared_range p a (mr_size b) ClearOnDemand) k1) (\<lambda>_. unblock_client p t)) = (Done y, k')" by simp
  then have "releases k {(p, t)} k'"
    by (rule seq_unwrap) (use free_buffer_quiet quiet_then_releases clear_then_unblock_releases in blast)
  with MemoryMessageBlockingSend show ?thesis by simp
qed (use assms in \<open>auto simp: quiet_releases dest: free_buffer_quiet unblock_client_releases
    return_and_unblock_releases clear_then_unblock_releases\<close>)

lemma destroy_entries_releases:
  "destroy_entries qs k = (Done y, k') \<Longrightarrow> releases k {u. \<exists>q \<in> set qs. blocked_thread q = Some u} k'"
proof (induction qs arbitrary: k)
  case (Cons q qs)
  from Cons.prems have "seq (destroy_entry q k) (\<lambda>_. destroy_entries qs) = (Done y, k')" by simp
  then obtain z k1 where k1: "destroy_entry q k = (Done z, k1)" "destroy_entries qs k1 = (Done y, k')" by (rule seq_unwrap)
  have "{u. \<exists>x \<in> set (q # qs). blocked_thread x = Some u} = {u. blocked_thread q = Some u} \<union> {u. \<exists>q \<in> set qs. blocked_thread q = Some u}"
    by auto
  with releases_trans [OF destroy_entry_releases [OF k1(1)] Cons.IH [OF k1(2)]] show ?case by simp
qed (simp add: quiet_releases)

lemma wake_receivers_releases:
  "wake_receivers p s k = (Done y, k') \<Longrightarrow> releases k (Pair p ` waiting_threads s) k'"
proof (induction p s k arbitrary: y k' rule: wake_receivers.induct)
  case (1 p s k)
  from take_available_thread_sim [of s] show ?case
  proof (elim disjE exE conjE)
    assume "waiting_threads s = {}" "take_available_thread s = (Done None, s)"
    with 1(2) show ?thesis by (simp add: wake_receivers.simps [of p s k] quiet_releases)
  next
    fix t s1
    assume t: "t \<in> waiting_threads s" "take_available_thread s = (Done (Some t), s1)" "waiting_threads s1 = waiting_threads s - {t}"
    from 1(2) t(2) have "seq (change_thread p t TS_Ready k) (\<lambda>_ k1.
        seq (unwrapped (set_thread_result p t (R_Error ServerNotFound) k1)) (\<lambda>_. wake_receivers p s1)) = (Done y, k')"
      by (simp add: wake_receivers.simps [of p s k])
    then obtain a k1 where k1: "change_thread p t TS_Ready k = (Done a, k1)"
      and "seq (unwrapped (set_thread_result p t (R_Error ServerNotFound) k1)) (\<lambda>_. wake_receivers p s1) = (Done y, k')"
      by (rule seq_unwrap)
    from this(2) obtain b k2 where k2: "unwrapped (set_thread_result p t (R_Error ServerNotFound) k1) = (Done b, k2)"
      "wake_receivers p s1 k2 = (Done y, k')" by (rule seq_unwrap)
    have "releases k2 (Pair p ` waiting_threads s1) k'"
      using 1(1) [OF t(2) [symmetric] HOL.refl HOL.refl k1 k2(1,2)] by simp
    from releases_trans [OF releases_then_quiet [OF ready_releases [OF k1] result_quiet [OF k2(1)]] this]
    have "releases k ({(p, t)} \<union> Pair p ` waiting_threads s1) k'" .
    moreover have "{(p, t)} \<union> Pair p ` waiting_threads s1 = Pair p ` waiting_threads s" using t(1,3) by auto
    ultimately show ?thesis by simp
  qed
qed

lemma destroy_releases:
  assumes "destroy s k = (Done y, k')" and "srv_pid s = k_current k"
  shows "releases k ({u. \<exists>i. slots_of s i = Some u} \<union> receivers s) k'"
proof -
  from assms(1) obtain a k1 where k1: "destroy_entries (queue s) k = (Done a, k1)"
    and "seq (wake_receivers (k_current k1) s k1) (\<lambda>_ k2.
         unwrapped (unmap_current (mr_addr (srv_backing s)) (of_nat (length (queue s) * QUEUED_MESSAGE_SIZE)) k2)) = (Done y, k')"
    unfolding destroy_def by (rule seq_unwrap)
  from this(2) obtain b k2 where k2: "wake_receivers (k_current k1) s k1 = (Done b, k2)"
    "unwrapped (unmap_current (mr_addr (srv_backing s)) (of_nat (length (queue s) * QUEUED_MESSAGE_SIZE)) k2) = (Done y, k')"
    by (rule seq_unwrap)
  have s: "quiet k2 k'" using k2(2) unmap_current_quiet by (auto simp: unwrapped_Done)
  note e = destroy_entries_releases [OF k1]
  have "k_current k1 = srv_pid s" using e assms(2) by (simp add: releases_def)
  with releases_then_quiet [OF releases_trans [OF e wake_receivers_releases [OF k2(1)]] s]
  have "releases k ({u. \<exists>q \<in> set (queue s). blocked_thread q = Some u} \<union> receivers s) k'" by (simp add: receivers_def)
  moreover have "{u. \<exists>q \<in> set (queue s). blocked_thread q = Some u} = {u. \<exists>i. slots_of s i = Some u}"
    by (auto simp: slots_of_def set_conv_nth split: if_splits)
  ultimately show ?thesis by simp
qed

lemma closed_fewer: "fewer w (closed x w)"
  by (auto simp: fewer_def closed_def)

text \<open>The whole of it up to the events is one step.\<close>

lemma destroy_closes:
  assumes ok: "k_ok k" and f: "fail_requests pred e k = (Done a, k1)" and s: "server_from_sidx k1 x = Some s"
    and run: "destroy s (k1\<lparr>k_servers := (k_servers k1)[x := None]\<rparr>) = (Done b, k2)"
    and own: "\<And>s. server_from_sidx k x = Some s \<Longrightarrow> srv_pid s = k_current k"
  shows "fades k k2" and "k_waits k2 = closed x (k_waits k)"
proof -
  have k1: "still k k1" using fail_requests_still [OF f] by simp
  let ?k = "k1\<lparr>k_servers := (k_servers k1)[x := None]\<rparr>"
  have sv: "server_from_sidx k x = Some s" using s k1 server_same [of k1 k] by (simp add: still_def)
  have "srv_pid s = k_current ?k" using own [OF sv] k1 by (simp add: still_def)
  note d = destroy_releases [OF run this]
  have xl: "x < length (k_servers k1)" using s by (simp add: server_from_sidx_def split: if_splits)
  have srv: "server_from_sidx ?k z = (if z = x then None else server_from_sidx k1 z)" for z
    using xl by (auto simp: server_from_sidx_def)
  have ts: "k_thread_states ?k = k_thread_states k1" by (simp add: k_thread_states_def k_process_def fun_eq_iff)
  have w: "k_waits ?k = (k_waits k1)\<lparr>w_slot := (w_slot (k_waits k1))(x := (\<lambda>_. None)), w_recv := (w_recv (k_waits k1))(x := {})\<rparr>"
    by (simp add: k_waits_def ts srv fun_eq_iff)
  have "k_waits k2 = closed x (k_waits k1)"
    using releases_waits [OF d] at_server_waits [OF s] by (intro waits_eqI) (simp_all add: released_def closed_def w fun_eq_iff)
  then show k2w: "k_waits k2 = closed x (k_waits k)" using k1 by (simp add: still_def)
  have "k_ok ?k" using still_ok [OF k1 ok] by (auto simp: k_ok_def srv split: if_splits)
  then have "k_ok k2" using d ok_same [of k2 ?k] by (simp add: releases_def)
  moreover have "k_current k2 = k_current k" using d k1 by (simp add: releases_def still_def)
  ultimately show "fades k k2"
    using k2w wait_steps_one [OF wait_step.close [of "k_waits k" x]] closed_fewer by (simp add: fades_def)
qed

lemma destroy_sidx_fades:
  assumes ok: "k_ok k" and run: "destroy_sidx x k = (Done y, k')"
    and own: "\<And>s. server_from_sidx k x = Some s \<Longrightarrow> srv_pid s = k_current k"
  shows "fades k k'" and "w_slot (k_waits k') x i = None" and "w_recv (k_waits k') x = {}"
proof -
  from run obtain a k1 where f: "fail_requests (\<lambda>e. pr_sidx e = x) ServerNotFound k = (Done a, k1)"
    and rest: "(case server_from_sidx k1 x of
         None \<Rightarrow> (Panic, k1)
       | Some s \<Rightarrow>
           seq (destroy s (k1\<lparr>k_servers := (k_servers k1)[x := None]\<rparr>)) (\<lambda>_.
             tombstone_loop [1..<Suc MAX_PROCESS_COUNT] x)) = (Done y, k')"
    unfolding destroy_sidx_def by (rule seq_unwrap)
  obtain s where s: "server_from_sidx k1 x = Some s" using rest by (auto split: option.splits)
  let ?k = "k1\<lparr>k_servers := (k_servers k1)[x := None]\<rparr>"
  from rest s have "seq (destroy s ?k) (\<lambda>_. tombstone_loop [1..<Suc MAX_PROCESS_COUNT] x) = (Done y, k')" by simp
  then obtain b k2 where k2: "destroy s ?k = (Done b, k2)" "tombstone_loop [1..<Suc MAX_PROCESS_COUNT] x k2 = (Done y, k')"
    by (rule seq_unwrap)
  note d = destroy_closes [OF ok f s k2(1) own]
  have t: "fades k2 k'" using tombstone_loop_fades [OF fadesD(1) [OF d(1)] k2(2)] by simp
  show "fades k k'" by (rule fades_trans [OF d(1) t])
  have "fewer (closed x (k_waits k)) (k_waits k')" using fadesD(4) [OF t] d(2) by simp
  then show "w_slot (k_waits k') x i = None" "w_recv (k_waits k') x = {}"
    by (auto simp: fewer_def closed_def dest: spec [of _ x])
qed

section \<open>The calls\<close>

text \<open>What every call does to the two sides of waiting.\<close>

definition lawful :: "kernel \<Rightarrow> kernel \<Rightarrow> bool" where
  "lawful k k' \<longleftrightarrow> k_ok k' \<and> wait_steps (k_waits k) (k_waits k')"

lemma fades_lawful: "fades k k' \<Longrightarrow> lawful k k'"
  by (simp add: fades_def lawful_def)

lemma lawful_same: "k_ok k \<Longrightarrow> k_waits k' = k_waits k \<Longrightarrow> k_servers k' = k_servers k \<Longrightarrow> lawful k k'"
  using ok_same [of k' k] by (simp add: lawful_def wait_steps.stay)

lemma lawful_trans: "lawful k k1 \<Longrightarrow> lawful k1 k2 \<Longrightarrow> lawful k k2"
  unfolding lawful_def using wait_steps_trans by blast

lemma resume_lawful: "k_ok k \<Longrightarrow> resume usage k = (r, k') \<Longrightarrow> lawful k k'"
  using resume_waits lawful_same by blast

lemma resume_no_fail: "resume usage k \<noteq> (Fail e, k')"
  by (auto simp: resume_def activate_current_def Let_def split: option.splits prod.splits outcome.splits activation.splits if_splits)

lemma retry_syscall_lawful:
  assumes ok: "k_ok k" and st: "wait_of st = None" and free: "w_for (k_waits k) (k_current k, t) = None"
    and run: "retry_syscall usage t st k = (r, k')" and r: "r \<noteq> Panic"
  shows "lawful k k'"
proof -
  from seq_run [OF run [unfolded retry_syscall_def] r] change_thread_no_fail obtain y k1 where
    k1: "change_thread (k_current k) t st k = (Done y, k1)" "resume usage k1 = (r, k')" by auto
  have s: "still k k1" by (rule change_thread_still [OF k1(1)]) (simp add: st free)
  from lawful_trans [OF fades_lawful [OF still_fades [OF s ok]] resume_lawful [OF still_ok [OF s ok] k1(2)]] show ?thesis .
qed

text \<open>A check that does not park its caller changes nothing; one that does leaves it to the broker.\<close>

lemma check_permission_cases:
  assumes ok: "k_ok k" and free: "w_for (k_waits k) (k_current k, t) = None"
    and run: "check_message_permission t c m b k = (r, k')" and r: "r \<noteq> Panic"
  shows "fades k k'" and "r = Done False \<Longrightarrow> k' = k"
proof -
  have "k' = k \<and> r \<noteq> Done True \<or> (\<exists>i es k1 r1. broadcast_event SE_PermissionRequest (of_nat i, 0, 0, 0) (k\<lparr>k_requests := es\<rparr>) = (r1, k1) \<and> r1 \<noteq> Panic
      \<and> ((\<exists>e. r = Fail e \<and> k' = k1\<lparr>k_requests := snd (take_request (k_requests k1) i)\<rparr>)
         \<or> seq (change_thread (k_current k1) t (RetryPermission i) k1) (\<lambda>_ k2. (Done True, k2)) = (r, k')))"
    using run r unfolding check_message_permission_def
    by (auto split: option.splits prod.splits sum.splits connection_slot.splits if_splits outcome.splits)
      (metis outcome.distinct)+
  then have "fades k k' \<and> (r = Done False \<longrightarrow> k' = k)"
  proof (elim disjE exE conjE)
    fix i es k1 r1
    assume bc: "broadcast_event SE_PermissionRequest (of_nat i, 0, 0, 0) (k\<lparr>k_requests := es\<rparr>) = (r1, k1)" "r1 \<noteq> Panic"
    have "fades k (k\<lparr>k_requests := es\<rparr>)" by (rule still_fades [OF requests_still ok])
    with broadcast_loop_fades [OF _ bc(1) [unfolded broadcast_event_def] bc(2)] fadesD(1) fades_trans
    have k1: "fades k k1" by blast
    { fix e assume "r = Fail e" "k' = k1\<lparr>k_requests := snd (take_request (k_requests k1) i)\<rparr>"
      with fades_trans [OF k1 still_fades [OF requests_still fadesD(1) [OF k1]]] show ?thesis by simp }
    { assume "seq (change_thread (k_current k1) t (RetryPermission i) k1) (\<lambda>_ k2. (Done True, k2)) = (r, k')"
      from seq_run [OF this r] change_thread_no_fail obtain y where
        ch: "change_thread (k_current k1) t (RetryPermission i) k1 = (Done y, k')" "r = Done True" by auto
      have "w_for (k_waits k1) (k_current k1, t) = None" using free fadesD(2,4) [OF k1] by (simp add: fewer_def)
      with change_thread_still [OF ch(1)] have "still k1 k'" by simp
      with fades_trans [OF k1 still_fades] fadesD(1) [OF k1] ch(2) show ?thesis by simp }
  qed (use fades_refl [OF ok] in auto)
  then show "fades k k'" "r = Done False \<Longrightarrow> k' = k" by auto
qed

lemma send_message_full:
  assumes ok: "k_ok k" and m: "wf_message m" and t: "t < 256"
    and run: "send_message usage t c m k = (Fail ServerQueueFull, k')"
  shows "k_ok k' \<and> k_waits k' = k_waits k \<and> k_current k' = k_current k"
proof -
  have "k' = k \<or> (\<exists>x. seq (send_message_inner t x m k) (\<lambda>_ k1.
                      seq (if is_blocking m then change_thread (k_current k1) t (WaitBlocking x) k1
                           else set_thread_result (k_current k1) t R_Ok k1)
                        (\<lambda>_ k2. resume usage k2)) = (Fail ServerQueueFull, k'))"
    using run unfolding send_message_def by (auto split: option.splits prod.splits sum.splits connection_slot.splits)
  then show ?thesis
  proof (elim disjE exE)
    fix x assume s: "seq (send_message_inner t x m k) (\<lambda>_ k1.
                      seq (if is_blocking m then change_thread (k_current k1) t (WaitBlocking x) k1
                           else set_thread_result (k_current k1) t R_Ok k1)
                        (\<lambda>_ k2. resume usage k2)) = (Fail ServerQueueFull, k')"
    have late: "seq (if is_blocking m then change_thread (k_current k1) t (WaitBlocking x) k1
                           else set_thread_result (k_current k1) t R_Ok k1)
                        (\<lambda>_ k2. resume usage k2) \<noteq> (Fail ServerQueueFull, k')" for k1
    proof
      assume "seq (if is_blocking m then change_thread (k_current k1) t (WaitBlocking x) k1
                           else set_thread_result (k_current k1) t R_Ok k1) (\<lambda>_ k2. resume usage k2) = (Fail ServerQueueFull, k')"
      from seq_run [OF this] show False
        using change_thread_no_fail resume_no_fail by (auto simp: set_thread_result_def split: if_splits)
    qed
    from seq_run [OF s] late have "send_message_inner t x m k = (Fail ServerQueueFull, k')" by auto
    from sent [OF ok m t this] show ?thesis by simp
  qed (use ok in simp)
qed

lemma send_call_lawful:
  assumes ok: "k_ok k" and m: "wf_message m" and t: "t < 256" and free: "w_for (k_waits k) (k_current k, t) = None"
    and run: "send_call usage t c m k = (r, k')" and r: "r \<noteq> Panic"
  shows "lawful k k'"
  using seq_run [OF run [unfolded send_call_def] r]
proof (elim disjE exE conjE)
  fix e assume "check_message_permission t c m True k = (Fail e, k')"
  from check_permission_cases(1) [OF ok free this] show ?thesis by (simp add: fades_lawful)
next
  fix parked k1
  assume ck: "check_message_permission t c m True k = (Done parked, k1)"
    and rest: "(if parked then resume usage k1
       else (case send_message usage t c m k1 of
           (Fail e, k2) \<Rightarrow>
             if e \<noteq> ServerQueueFull then (Fail e, k2)
             else (case k_process k2 (k_current k2) of
                 None \<Rightarrow> (Panic, k2)
               | Some (pr, _) \<Rightarrow>
                   (case connection (proc_connections pr) c of
                      Inl e \<Rightarrow> (Fail e, k2)
                    | Inr i \<Rightarrow>
                        (case proc_connections pr ! i of
                           Connected x _ _ _ \<Rightarrow> retry_syscall usage t (RetryQueueFull x) k2
                         | _ \<Rightarrow> (Fail ServerNotFound, k2))))
         | y \<Rightarrow> y)) = (r, k')"
  note c = check_permission_cases [OF ok free ck]
  show ?thesis
  proof (cases parked)
    case True
    with rest lawful_trans [OF fades_lawful [OF c(1)]] resume_lawful fadesD(1) [OF c(1)] show ?thesis by simp
  next
    case False
    then have k1: "k1 = k" using c(2) by simp
    obtain r2 k2 where s: "send_message usage t c m k = (r2, k2)" by fastforce
    show ?thesis
    proof (cases "r2 = Fail ServerQueueFull")
      case True
      note full = send_message_full [OF ok m t s [unfolded True]]
      have "k' = k2 \<or> (\<exists>x. retry_syscall usage t (RetryQueueFull x) k2 = (r, k'))"
        using rest False k1 s True
        by (auto split: option.splits prod.splits sum.splits connection_slot.splits)
      moreover have "lawful k k2" using full by (simp add: lawful_def wait_steps.stay)
      moreover have "lawful k2 k'" if "retry_syscall usage t (RetryQueueFull x) k2 = (r, k')" for x
        using retry_syscall_lawful [OF _ _ _ that r] full free by simp
      ultimately show ?thesis using lawful_trans by blast
    next
      case f: False
      have "r2 = r" "k2 = k'" using rest False k1 s f by (auto split: outcome.splits if_splits)
      with send_message_waits [OF ok m t free] s r show ?thesis by (simp add: lawful_def)
    qed
  qed
qed

lemma try_send_call_lawful:
  assumes ok: "k_ok k" and m: "wf_message m" and t: "t < 256" and free: "w_for (k_waits k) (k_current k, t) = None"
    and run: "try_send_call usage t c m k = (r, k')" and r: "r \<noteq> Panic"
  shows "lawful k k'"
  using seq_run [OF run [unfolded try_send_call_def] r]
proof (elim disjE exE conjE)
  fix e assume "check_message_permission t c m False k = (Fail e, k')"
  from check_permission_cases(1) [OF ok free this] show ?thesis by (simp add: fades_lawful)
next
  fix b k1 assume ck: "check_message_permission t c m False k = (Done b, k1)" and s: "send_message usage t c m k1 = (r, k')"
  have f: "fades k k1" by (rule check_permission_cases(1) [OF ok free ck]) simp
  then have "w_for (k_waits k1) (k_current k1, t) = None" using free fadesD(2,4) [OF f] by (simp add: fewer_def)
  from lawful_trans [OF fades_lawful [OF f]] send_message_waits [OF fadesD(1) [OF f] m t this s r] show ?thesis
    by (simp add: lawful_def)
qed

lemma connect_fades:
  assumes ok: "k_ok k" and run: "connect_to_server p sd k = (r, k')" and r: "r \<noteq> Panic"
  shows "fades k k'"
proof (cases "k' = k")
  case False
  then obtain x s where xs: "find_index (has_sid sd) (k_servers k) = Some x" "server_from_sidx k x = Some s"
    using run by (auto simp: connect_to_server_def split: option.splits)
  obtain r1 k1 where c: "on_connections p (\<lambda>m. add_connection m x (default_permissions s)) k = (r1, k1)" by fastforce
  have k1: "fades k k1" by (rule still_fades [OF on_connections_still [OF c] ok])
  show ?thesis
  proof (cases "\<exists>cd new. r1 = Some (Done (cd, new))")
    case True
    then obtain cd new where "r1 = Some (Done (cd, new))" by blast
    then have rest: "seq (if new then send_server_event x NewConnection (0, 0, 0, 0) k1 else (Done (), k1)) (\<lambda>_ k3. (Done cd, k3)) = (r, k')"
      using run xs c by (simp add: connect_to_server_def)
    from rest r have "fades k1 k'"
      by (rule seq_fades)
        (use send_server_event_fades fadesD(1) [OF k1] fades_refl fadesD(1) in \<open>auto split: if_splits\<close>)
    with k1 fades_trans show ?thesis by blast
  next
    case False
    then have "k' = k1" using run xs c by (cases r1; cases "the r1") (auto simp: connect_to_server_def)
    with k1 show ?thesis by simp
  qed
qed (use fades_refl [OF ok] in simp)

lemma connect_call_lawful:
  assumes ok: "k_ok k" and free: "w_for (k_waits k) (k_current k, t) = None"
    and run: "connect_call usage t sd k = (r, k')" and r: "r \<noteq> Panic"
  shows "lawful k k'"
proof -
  obtain r1 k1 where c: "connect_to_server (k_current k) sd k = (r1, k1)" by fastforce
  have r1: "r1 \<noteq> Panic" using run r c by (auto simp: connect_call_def)
  have k1: "fades k k1" by (rule connect_fades [OF ok c r1])
  have "k' = k1 \<or> retry_syscall usage t (RetryConnect (quick_hash sd)) k1 = (r, k')"
    using run c r1 by (cases r1) (auto simp: connect_call_def split: if_splits)
  then show ?thesis
  proof
    assume run: "retry_syscall usage t (RetryConnect (quick_hash sd)) k1 = (r, k')"
    have "w_for (k_waits k1) (k_current k1, t) = None" using free fadesD(2,4) [OF k1] by (simp add: fewer_def)
    from lawful_trans [OF fades_lawful [OF k1] retry_syscall_lawful [OF fadesD(1) [OF k1] _ this run r]] show ?thesis by simp
  qed (use k1 fades_lawful in simp)
qed

lemma disconnect_fades:
  assumes ok: "k_ok k" and run: "disconnect_from_server c k = (r, k')" and r: "r \<noteq> Panic"
  shows "fades k k'"
proof -
  obtain r1 k1 where o: "on_connections (k_current k) (\<lambda>m. release_connection m c) k = (r1, k1)" by fastforce
  have k1: "fades k k1" by (rule still_fades [OF on_connections_still [OF o] ok])
  have "k' = k1 \<or> (\<exists>x. seq (fail_requests (\<lambda>e. pr_sender_pid e = k_current k1 \<and> pr_cid e = c) ServerNotFound k1)
      (\<lambda>_. send_server_event x SV_Disconnected (0, 0, 0, 0)) = (r, k'))"
    using run o unfolding disconnect_from_server_def
    by (cases r1; cases "the r1") (auto split: option.splits)
  then show ?thesis
  proof (elim disjE exE)
    fix x assume run: "seq (fail_requests (\<lambda>e. pr_sender_pid e = k_current k1 \<and> pr_cid e = c) ServerNotFound k1)
      (\<lambda>_. send_server_event x SV_Disconnected (0, 0, 0, 0)) = (r, k')"
    from run r have "fades k1 k'"
    proof (rule seq_fades)
      fix r2 k2 assume f: "fail_requests (\<lambda>e. pr_sender_pid e = k_current k1 \<and> pr_cid e = c) ServerNotFound k1 = (r2, k2)" "r2 \<noteq> Panic"
      have "still k1 k2" using fail_requests_still [OF f] by simp
      from still_fades [OF this fadesD(1) [OF k1]] show "fades k1 k2" .
    next
      fix k2 assume "send_server_event x SV_Disconnected (0, 0, 0, 0) k2 = (r, k')" "fades k1 k2"
      then show "fades k2 k'" using send_server_event_fades [OF fadesD(1) _ r] by blast
    qed
    with k1 fades_trans show ?thesis by blast
  qed (use k1 in simp)
qed

lemma map_range_size: "map_range get mp phys virt len fl u pr s = (Done m, pr', s') \<Longrightarrow> mr_size m = len"
  by (auto simp: map_range_def memory_range_new_Inr dest!: seq_Done split: prod.splits outcome.splits sum.splits if_splits)

lemma server_init_waits:
  assumes "server_init None p sd backing perms = (Done y, e)" and "unat (mr_size backing) = 4096"
  shows "\<exists>s. e = Some s \<and> server_ok s \<and> slots_of s = (\<lambda>_. None) \<and> receivers s = {}"
proof -
  obtain s where s: "server_init None p sd backing perms = (Done (), Some s)" "e = Some s"
    using assms(1) by (auto simp: server_init_def Let_def split: outcome.splits prod.splits if_splits)
  then have "queue s = replicate (4096 div QUEUED_MESSAGE_SIZE) Empty" "ready_threads s = 0"
    using assms(2) by (auto simp: server_init_def Let_def split: outcome.splits prod.splits if_splits)
  moreover have "server_ok s" using server_init_mailbox [OF s(1)] assms(2) by (auto simp: server_ok_def Server_Queue.PAGE_SIZE_def)
  ultimately show ?thesis using s(2) by (auto simp: slots_of_def receivers_def waiting_threads_def)
qed

lemma create_server_lawful:
  assumes ok: "k_ok k" and run: "create_server_with_address sd perms k = (r, k')" and r: "r \<noteq> Panic"
  shows "lawful k k'"
proof -
  have "k' = k \<or> (\<exists>x. find_index (\<lambda>e. e = None) (k_servers k) = Some x
      \<and> seq (map_current 0 0 4096 (flags_or MF_W POPULATE) False k) (\<lambda>backing k1.
              case server_init (k_servers k1 ! x) (k_current k1) sd backing perms of
                (Done _, entry) \<Rightarrow>
                  seq (wake_waiting (RetryConnect (quick_hash sd)) (k1\<lparr>k_servers := (k_servers k1)[x := entry]\<rparr>))
                    (\<lambda>_ k2. (Done sd, k2))
              | (_, entry) \<Rightarrow> (Panic, k1\<lparr>k_servers := (k_servers k1)[x := entry]\<rparr>)) = (r, k'))"
    using run by (auto simp: create_server_with_address_def split: if_splits option.splits)
  then show ?thesis
  proof (elim disjE exE conjE)
    fix x assume x: "find_index (\<lambda>e. e = None) (k_servers k) = Some x"
      and run: "seq (map_current 0 0 4096 (flags_or MF_W POPULATE) False k) (\<lambda>backing k1.
              case server_init (k_servers k1 ! x) (k_current k1) sd backing perms of
                (Done _, entry) \<Rightarrow>
                  seq (wake_waiting (RetryConnect (quick_hash sd)) (k1\<lparr>k_servers := (k_servers k1)[x := entry]\<rparr>))
                    (\<lambda>_ k2. (Done sd, k2))
              | (_, entry) \<Rightarrow> (Panic, k1\<lparr>k_servers := (k_servers k1)[x := entry]\<rparr>)) = (r, k')"
    note xs = find_index_Some [OF x]
    from seq_run [OF run r] show ?thesis
    proof (elim disjE exE conjE)
      fix e assume "map_current 0 0 4096 (flags_or MF_W POPULATE) False k = (Fail e, k')"
      from map_current_still [OF this] still_fades fades_lawful ok show ?thesis by blast
    next
      fix backing k1
      assume m: "map_current 0 0 4096 (flags_or MF_W POPULATE) False k = (Done backing, k1)"
        and rest: "(case server_init (k_servers k1 ! x) (k_current k1) sd backing perms of
                (Done _, entry) \<Rightarrow>
                  seq (wake_waiting (RetryConnect (quick_hash sd)) (k1\<lparr>k_servers := (k_servers k1)[x := entry]\<rparr>))
                    (\<lambda>_ k2. (Done sd, k2))
              | (_, entry) \<Rightarrow> (Panic, k1\<lparr>k_servers := (k_servers k1)[x := entry]\<rparr>)) = (r, k')"
      have k1: "still k k1" by (rule map_current_still [OF m])
      have sz: "unat (mr_size backing) = 4096"
        using m map_range_size by (auto simp: map_current_def split: option.splits prod.splits)
      have none: "k_servers k1 ! x = None" "x < length (k_servers k1)" using k1 xs by (simp_all add: still_def)
      obtain y entry where i: "server_init None (k_current k1) sd backing perms = (Done y, entry)"
        using rest r none(1) by (auto split: outcome.splits prod.splits)
      let ?k = "k1\<lparr>k_servers := (k_servers k1)[x := entry]\<rparr>"
      from server_init_waits [OF i sz] obtain s where
        s: "entry = Some s" "server_ok s" "slots_of s = (\<lambda>_. None)" "receivers s = {}" by blast
      have srv: "server_from_sidx ?k z = (if z = x then Some s else server_from_sidx k1 z)" for z
        using none(2) s(1) by (auto simp: server_from_sidx_def)
      have "server_from_sidx k1 x = None" using none by (simp add: server_from_sidx_def)
      moreover have "k_thread_states ?k = k_thread_states k1" by (simp add: k_thread_states_def k_process_def fun_eq_iff)
      ultimately have "k_waits ?k = k_waits k1" by (simp add: k_waits_def srv s(3,4) fun_eq_iff)
      moreover have "k_ok ?k" using still_ok [OF k1 ok] s(2) by (simp add: k_ok_def srv)
      ultimately have l: "lawful k ?k" using k1 by (simp add: lawful_def still_def wait_steps.stay)
      obtain r2 where w: "wake_waiting (RetryConnect (quick_hash sd)) ?k = (r2, k')"
        using rest r none(1) i seq_run [OF _ r] by fastforce
      from wake_waiting_still [OF w] have "still ?k k'" by simp
      with lawful_trans [OF l fades_lawful [OF still_fades]] l show ?thesis by (simp add: lawful_def)
    qed
  qed (use ok in \<open>simp add: lawful_def wait_steps.stay\<close>)
qed

lemma sidx_from_sid_server:
  assumes "sidx_from_sid sd p k = Some x"
  obtains s where "server_from_sidx k x = Some s" "srv_sid s = sd" "srv_pid s = p"
  using find_index_Some [OF assms [unfolded sidx_from_sid_def]]
  by (auto simp: server_from_sidx_def split: option.splits)

lemma destroy_server_fades:
  assumes ok: "k_ok k" and run: "destroy_server (k_current k) sd k = (Done y, k')"
  shows "fades k k'"
proof -
  from run obtain x where x: "sidx_from_sid sd (k_current k) k = Some x" "destroy_sidx x k = (Done y, k')"
    by (auto simp: destroy_server_def split: option.splits)
  obtain s where "server_from_sidx k x = Some s" "srv_pid s = k_current k" using sidx_from_sid_server [OF x(1)] by blast
  with destroy_sidx_fades(1) [OF ok x(2)] show ?thesis by simp
qed

lemma resolve_fades:
  assumes ok: "k_ok k" and run: "resolve_message_permission i allow k = (r, k')" and r: "r \<noteq> Panic"
  shows "fades k k'"
proof -
  obtain fd es where tk: "take_request (k_requests k) i = (fd, es)" by fastforce
  let ?k = "k\<lparr>k_requests := es\<rparr>"
  have k0: "fades k ?k" by (rule still_fades [OF requests_still ok])
  consider "k' = ?k" | p where "fd = Some p" "pr_valid p" using run tk by (auto simp: resolve_message_permission_def Let_def split: option.splits if_splits)
  then show ?thesis
  proof cases
    case 2
    obtain g k1 where g: "(if allow then grant_permission p ?k else (False, ?k)) = (g, k1)" by fastforce
    have s1: "still ?k k1"
      using g on_connections_still by (auto simp: grant_permission_def split: if_splits prod.splits option.splits outcome.splits)
    let ?u = "(pr_sender_pid p, pr_sender_tid p)"
    have st: "thread_state_of k1 ?u = Some (RetryPermission i)"
      and rest: "seq (if g then (Done (), k1)
                       else set_thread_result (pr_sender_pid p) (pr_sender_tid p) (R_Error AccessDenied) k1) (\<lambda>_ k2.
               seq (change_thread (pr_sender_pid p) (pr_sender_tid p) TS_Ready k2) (\<lambda>_ k3. (Done R_Ok, k3))) = (r, k')"
      using run tk 2 g r by (auto simp: resolve_message_permission_def Let_def split: if_splits)
    have k1: "fades k k1" by (rule fades_trans [OF k0 still_fades [OF s1 fadesD(1) [OF k0]]])
    from rest r have "fades k1 k'"
    proof (rule seq_fades)
      show "fades k1 k2" if "(if g then (Done (), k1) else set_thread_result (pr_sender_pid p) (pr_sender_tid p) (R_Error AccessDenied) k1) = (r1, k2)" for r1 k2
        using that set_thread_result_still still_fades fades_refl fadesD(1) [OF k1] by (auto split: if_splits)
      fix a k2
      assume a: "(if g then (Done (), k1) else set_thread_result (pr_sender_pid p) (pr_sender_tid p) (R_Error AccessDenied) k1) = (Done a, k2)"
        and c: "seq (change_thread (pr_sender_pid p) (pr_sender_tid p) TS_Ready k2) (\<lambda>_ k3. (Done R_Ok, k3)) = (r, k')"
        and k2: "fades k1 k2"
      from seq_run [OF c r] change_thread_no_fail obtain z where z: "change_thread (pr_sender_pid p) (pr_sender_tid p) TS_Ready k2 = (Done z, k')" by auto
      have "w_for (k_waits k1) ?u = None" using st by (simp add: w_for_state)
      then have "w_for (k_waits k2) ?u = None" using fadesD(4) [OF k2] by (simp add: fewer_def)
      with change_thread_still [OF z] have "still k2 k'" by simp
      from still_fades [OF this fadesD(1) [OF k2]] show "fades k2 k'" .
    qed
    with k1 fades_trans show ?thesis by blast
  qed (use k0 in simp)
qed

section \<open>The end of a process\<close>

text \<open>
  A process that goes leaves the queues one after the other; only then its threads are gone.
  Seen without it, all that happens on the way are steps of the others.
\<close>

definition departs :: "pid \<Rightarrow> kernel \<Rightarrow> kernel \<Rightarrow> bool" where
  "departs p k k' \<longleftrightarrow> k_ok k' \<and> k_current k' = k_current k \<and> fewer (k_waits k) (k_waits k')
     \<and> wait_steps (without p (k_waits k)) (without p (k_waits k'))"

lemma departsD: "departs p k k' \<Longrightarrow> k_ok k'" "departs p k k' \<Longrightarrow> k_current k' = k_current k"
  "departs p k k' \<Longrightarrow> fewer (k_waits k) (k_waits k')"
  "departs p k k' \<Longrightarrow> wait_steps (without p (k_waits k)) (without p (k_waits k'))"
  by (simp_all add: departs_def)

lemma fades_departs: "fades k k' \<Longrightarrow> departs p k k'"
  by (simp add: fades_def departs_def without_steps)

lemma departs_trans: "departs p k k1 \<Longrightarrow> departs p k1 k2 \<Longrightarrow> departs p k k2"
  unfolding departs_def using wait_steps_trans fewer_trans by metis

definition clean :: "pid \<Rightarrow> waits \<Rightarrow> nat \<Rightarrow> bool" where
  "clean p w x \<longleftrightarrow> (\<forall>i u. w_slot w x i = Some u \<longrightarrow> fst u \<noteq> p) \<and> (\<forall>u \<in> w_recv w x. fst u \<noteq> p)"

lemma clean_fewer: "clean p w x \<Longrightarrow> fewer w w' \<Longrightarrow> clean p w' x"
  unfolding clean_def fewer_def by (metis option.distinct(1) subsetD)

lemma without_clean:
  assumes "\<And>x. clean p w x"
  shows "without p w = w\<lparr>w_for := (\<lambda>u. if fst u = p then None else w_for w u)\<rparr>"
proof -
  have "fst u \<noteq> p" if "w_slot w x i = Some u \<or> u \<in> w_recv w x" for x i u
    using that assms [of x] unfolding clean_def by blast
  then show ?thesis by (intro waits_eqI) (fastforce simp: without_def fun_eq_iff split: option.splits)+
qed

lemma discard_waits:
  assumes "server_ok s"
  shows "served s (\<lambda>i. case slots_of s i of None \<Rightarrow> None | Some u \<Rightarrow> if fst u = p then None else Some u) (receivers s)
    (discard_messages_for_pid s p)"
proof -
  let ?s = "discard_messages_for_pid s p"
  have "server_ok ?s" using assms discard_sim by (auto simp: server_ok_def)
  moreover have "slots_of ?s = (\<lambda>i. case slots_of s i of None \<Rightarrow> None | Some u \<Rightarrow> if fst u = p then None else Some u)"
    by (auto simp: slots_of_def discard_messages_for_pid_def discard_slot_facts fun_eq_iff split: option.splits)
  moreover have "receivers ?s = receivers s" by (rule receivers_same) (simp_all add: discard_messages_for_pid_def)
  ultimately show ?thesis by (simp add: served_def) (simp add: discard_messages_for_pid_def)
qed

lemma discard_departs:
  assumes ok: "k_ok k" and s: "server_from_sidx k x = Some s" and pid: "srv_pid s \<noteq> p"
  shows "departs p k (put_server x (discard_messages_for_pid s p) k)"
    and "clean p (k_waits (put_server x (discard_messages_for_pid s p) k)) x"
proof -
  let ?k = "put_server x (discard_messages_for_pid s p) k"
  have sok: "server_ok s" using ok s by (simp add: k_ok_def)
  note w = put_server_waits [OF s discard_waits [OF sok, of p] ok] and at = at_server_waits [OF s]
  have "without p (k_waits ?k) = without p (k_waits k)"
    by (rule waits_eqI) (auto simp: w(1) without_def fun_eq_iff at split: option.splits)
  moreover have "fewer (k_waits k) (k_waits ?k)" by (auto simp: w(1) fewer_def at split: option.splits)
  ultimately show "departs p k ?k" using w by (simp add: departs_def wait_steps.stay)
  show "clean p (k_waits ?k) x"
    using pid by (auto simp: w(1) clean_def receivers_def split: option.splits if_splits)
qed

lemma leave_servers_departs:
  "k_ok k \<Longrightarrow> k_current k = p \<Longrightarrow> leave_servers p xs k = (Done y, k') \<Longrightarrow>
   departs p k k' \<and> (\<forall>x \<in> set xs. clean p (k_waits k') x)"
proof (induction xs arbitrary: k)
  case Nil
  then show ?case using fades_departs [OF fades_refl] by simp
next
  case (Cons x xs)
  have go: "departs p k k' \<and> (\<forall>z \<in> set (x # xs). clean p (k_waits k') z)"
    if k1: "departs p k k1" "clean p (k_waits k1) x" and run: "leave_servers p xs k1 = (Done y, k')" for k1
  proof -
    have "departs p k1 k' \<and> (\<forall>z \<in> set xs. clean p (k_waits k') z)"
      by (rule Cons.IH [OF departsD(1) [OF k1(1)] _ run]) (simp add: departsD(2) [OF k1(1)] Cons.prems(2))
    with k1 departs_trans clean_fewer departsD(3) show ?thesis by (metis set_ConsD)
  qed
  show ?case
  proof (cases "server_from_sidx k x")
    case None
    then have "clean p (k_waits k) x" by (simp add: clean_def k_waits_def)
    with None Cons.prems go [OF fades_departs [OF fades_refl]] show ?thesis by simp
  next
    case (Some s)
    show ?thesis
    proof (cases "srv_pid s = p")
      case True
      with Cons.prems(3) Some have "seq (destroy_sidx x k) (\<lambda>_. leave_servers p xs) = (Done y, k')" by simp
      then obtain z k1 where k1: "destroy_sidx x k = (Done z, k1)" "leave_servers p xs k1 = (Done y, k')" by (rule seq_unwrap)
      have own: "srv_pid t = k_current k" if "server_from_sidx k x = Some t" for t
        using that Some True Cons.prems(2) by simp
      note d = destroy_sidx_fades [OF Cons.prems(1) k1(1) own]
      have "clean p (k_waits k1) x" using d(2,3) by (simp add: clean_def)
      with go [OF fades_departs [OF d(1)]] k1(2) show ?thesis by simp
    next
      case False
      let ?s = "discard_messages_for_pid s p"
      have "(put_server x ?s (k\<lparr>k_current := srv_pid s\<rparr>))\<lparr>k_current := p\<rparr> = put_server x ?s k"
        using Cons.prems(2) by (simp add: put_server_def)
      with Cons.prems(3) Some False have "leave_servers p xs (put_server x ?s k) = (Done y, k')"
        by (simp add: Let_def split: if_splits)
      with go [OF discard_departs [OF Cons.prems(1) Some False]] show ?thesis by simp
    qed
  qed
qed

text \<open>The threads of the process are gone with it.\<close>

lemma release_process_waits:
  assumes run: "release_process p k = (Done y, k')"
  shows "k_waits k' = (k_waits k)\<lparr>w_for := (\<lambda>u. if fst u = p then None else w_for (k_waits k) u)\<rparr>"
    and "k_servers k' = k_servers k" and "k_current k' = k_current k"
proof -
  obtain pr mp where pr: "k_process k p = Some (pr, mp)" using run by (auto simp: release_process_def split: option.splits)
  let ?f = "\<lambda>k1. case on_frames (release_all_memory_for_process (map_pid mp)) (k_vm k1) of
              (Done _, v) \<Rightarrow>
                (Done (), k1\<lparr>k_procs := (\<lambda>q. map_option (map_prod (drop_parent p) id) (((k_procs k1)(p := None)) q)),
                   k_vm := v, k_irqs := release_interrupts_for_pid (k_irqs k1) p\<rparr>)
            | (r, v) \<Rightarrow> (r, k1\<lparr>k_vm := v\<rparr>)"
  from run pr have "seq (on_threads (on_process p terminate_threads) k) (\<lambda>_. ?f) = (Done y, k')" by (simp add: release_process_def)
  then obtain z k1 where k1: "on_threads (on_process p terminate_threads) k = (Done z, k1)" "?f k1 = (Done y, k')" by (rule seq_unwrap)
  obtain v where k': "k' = k1\<lparr>k_procs := (\<lambda>q. map_option (map_prod (drop_parent p) id) (((k_procs k1)(p := None)) q)),
                   k_vm := v, k_irqs := release_interrupts_for_pid (k_irqs k1) p\<rparr>"
    using k1(2) by (auto split: prod.splits outcome.splits)
  obtain yy where o: "on_process p terminate_threads (k_threads k) = (Done z, yy)"
    and s: "k_servers k1 = k_servers k" "k_current k1 = k_current k"
    and g: "\<And>q. k_thread_states k1 q = (if k_process k q = None then None else map_option threads (procs yy q))"
    using k1(1) by (rule on_threads_states) blast
  have yq: "procs yy q = procs (k_threads k) q" if "q \<noteq> p" for q
    using o that by (auto simp: on_process_def split: option.splits prod.splits)
  have ts: "k_thread_states k' q = (if q = p then None else k_thread_states k q)" for q
  proof (cases "q = p")
    case False
    have "k_thread_states k' q = k_thread_states k1 q"
      using False by (cases "k_procs k1 q") (auto simp: k' k_thread_states_def k_process_def drop_parent_def)
    also have "\<dots> = k_thread_states k q" using yq [OF False]
      by (auto simp: g k_thread_states_def [of k] k_threads_def k_process_def option.map_comp comp_def split: option.splits)
    finally show ?thesis using False by simp
  qed (simp add: k' k_thread_states_def k_process_def)
  show "k_servers k' = k_servers k" "k_current k' = k_current k" using s by (simp_all add: k')
  then show "k_waits k' = (k_waits k)\<lparr>w_for := (\<lambda>u. if fst u = p then None else w_for (k_waits k) u)\<rparr>"
    using server_same [of k' k] by (auto simp: k_waits_def ts fun_eq_iff)
qed

lemma stop_map_zero_still: "stop_map_zero p k = (r, k') \<Longrightarrow> still k k'"
  using still_trans [OF vm_still wake_waiting_still] by (auto simp: stop_map_zero_def Let_def split: if_splits)

lemma terminate_lawful:
  assumes ok: "k_ok k" and run: "terminate_current_process usage ret k = (Done y, k')"
  shows "lawful k k'"
proof -
  let ?p = "k_current k"
  obtain pr mp where pr: "k_process k ?p = Some (pr, mp)"
    using run by (auto simp: terminate_current_process_def Let_def split: option.splits)
  have "\<not> (ret \<noteq> 0 \<and> proc_ppid pr = Some 1)" using run pr by (auto simp: terminate_current_process_def Let_def)
  note run1 = run [unfolded terminate_current_process_def Let_def pr option.case prod.case if_not_P [OF this]]
  obtain z1 k1 where k1: "leave_servers ?p [0..<length (k_servers k)] k = (Done z1, k1)" using seq_Done [OF run1] by blast
  note run2 = run1 [unfolded k1 seq_simps]
  let ?k2 = "k1\<lparr>k_requests := snd (drain_requests (\<lambda>e. pr_sender_pid e = ?p) (k_requests k1))\<rparr>"
  obtain pr1 mp1 where pr1: "k_process ?k2 ?p = Some (pr1, mp1)" using run2 by (auto split: option.splits)
  note run3 = run2 [unfolded pr1 option.case prod.case]
  obtain z3 k3 where k3: "notify_parent (proc_ppid pr1) ret ?k2 = (Done z3, k3)" using seq_Done [OF run3] by blast
  note run4 = run3 [unfolded k3 seq_simps]
  obtain pr2 mp2 where pr2: "k_process k3 ?p = Some (pr2, mp2)" using run4 by (auto split: option.splits)
  note run5 = run4 [unfolded pr2 option.case prod.case]
  obtain z4 k4 where k4: "notify_servers (connected_sidxes (proc_connections pr2)) k3 = (Done z4, k4)" using seq_Done [OF run5] by blast
  note run6 = run5 [unfolded k4 seq_simps]
  obtain z5 k5 where k5: "stop_map_zero ?p k4 = (Done z5, k5)" using seq_Done [OF run6] by blast
  note run7 = run6 [unfolded k5 seq_simps]
  obtain z6 k6 where k6: "release_process ?p k5 = (Done z6, k6)" using seq_Done [OF run7] by blast
  note run8 = run7 [unfolded k6 seq_simps]
  from leave_servers_departs [OF ok HOL.refl k1] have d1: "departs ?p k k1"
    and c1: "\<And>x. x < length (k_servers k) \<Longrightarrow> clean ?p (k_waits k1) x" by auto
  have f2: "fades k1 ?k2" by (rule still_fades [OF requests_still departsD(1) [OF d1]])
  have f3: "fades ?k2 k3" by (rule notify_parent_fades [OF fadesD(1) [OF f2] k3]) simp
  have f4: "fades k3 k4" by (rule notify_servers_fades [OF fadesD(1) [OF f3] k4]) simp
  have f5: "fades k4 k5" by (rule still_fades [OF stop_map_zero_still [OF k5] fadesD(1) [OF f4]])
  have f: "fades k1 k5" using f2 f3 f4 f5 fades_trans by blast
  have d: "departs ?p k k5" by (rule departs_trans [OF d1 fades_departs [OF f]])
  have "clean ?p (k_waits k5) x" for x
  proof (cases "x < length (k_servers k)")
    case True
    from clean_fewer [OF c1 [OF True] fadesD(4) [OF f]] show ?thesis .
  next
    case False
    then have "clean ?p (k_waits k) x" by (simp add: clean_def k_waits_def server_from_sidx_def)
    from clean_fewer [OF this departsD(3) [OF d]] show ?thesis .
  qed
  from without_clean [OF this] have "k_waits k6 = without ?p (k_waits k5)"
    using release_process_waits(1) [OF k6] by simp
  then have "wait_steps (without ?p (k_waits k)) (k_waits k6)" using departsD(4) [OF d] by simp
  from wait_steps_trans [OF this wait_steps_one [OF wait_step.leave]] have "wait_steps (k_waits k) (k_waits k6)" .
  moreover have "k_ok k6" using departsD(1) [OF d] release_process_waits(2) [OF k6] ok_same [of k6 k5] by simp
  ultimately have l: "lawful k k6" by (simp add: lawful_def)
  from lawful_trans [OF l resume_lawful [OF \<open>k_ok k6\<close> run8]] show ?thesis .
qed

lemma terminate_pid_lawful:
  assumes ok: "k_ok k" and run: "terminate_pid_call usage t p ret k = (Done y, k')"
  shows "lawful k k'"
proof -
  have "seq (set_thread_result (k_current k) t R_Ok k) (\<lambda>_ k1.
            terminate_current_process usage ret (k1\<lparr>k_current := p\<rparr>)) = (Done y, k')"
    using run by (auto simp: terminate_pid_call_def terminate_process_def split: if_splits option.splits)
  then obtain z k1 where k1: "set_thread_result (k_current k) t R_Ok k = (Done z, k1)"
    "terminate_current_process usage ret (k1\<lparr>k_current := p\<rparr>) = (Done y, k')" by (rule seq_unwrap)
  let ?k = "k1\<lparr>k_current := p\<rparr>"
  have "still k k1" using set_thread_result_still [OF k1(1)] ..
  moreover have "k_thread_states ?k = k_thread_states k1" by (simp add: k_thread_states_def k_process_def fun_eq_iff)
  then have "k_waits ?k = k_waits k1" using server_same [of ?k k1] by (simp add: k_waits_def)
  ultimately have l: "lawful k ?k" by (intro lawful_same [OF ok]) (simp_all add: still_def)
  then have "k_ok ?k" by (simp add: lawful_def)
  from lawful_trans [OF l terminate_lawful [OF this k1(2)]] show ?thesis .
qed

section \<open>Senders that wait for room\<close>

text \<open>
  A sender that found the queue of the server \<open>x\<close> full waits in \<open>RetryQueueFull\<close>. It is in no queue,
  and nothing in destroying a server makes it ready, nor brings a server back.
\<close>

definition stays :: "nat \<Rightarrow> kernel \<Rightarrow> kernel \<Rightarrow> bool" where
  "stays x k k' \<longleftrightarrow> (\<forall>u. thread_state_of k u = Some (RetryQueueFull x) \<longrightarrow> thread_state_of k' u = Some (RetryQueueFull x))
     \<and> (server_from_sidx k x = None \<longrightarrow> server_from_sidx k' x = None)"

lemma stays_refl [simp]: "stays x k k"
  by (simp add: stays_def)

lemma stays_trans: "stays x k k1 \<Longrightarrow> stays x k1 k2 \<Longrightarrow> stays x k k2"
  by (simp add: stays_def)

lemma staysI: "k_thread_states k' = k_thread_states k \<Longrightarrow> (server_from_sidx k x = None \<Longrightarrow> server_from_sidx k' x = None) \<Longrightarrow> stays x k k'"
  by (simp add: stays_def thread_state_of_def)

lemma quiet_stays: "quiet k k' \<Longrightarrow> stays x k k'"
  using server_same [of k' k] by (intro staysI) (simp_all add: quiet_def)

lemma releases_stays: "releases k us k' \<Longrightarrow> (\<And>u. u \<in> us \<Longrightarrow> thread_state_of k u \<noteq> Some (RetryQueueFull x)) \<Longrightarrow> stays x k k'"
  using server_same [of k' k] by (auto simp: stays_def releases_def)

lemma put_server_stays: "server_from_sidx k z = Some s \<Longrightarrow> stays x k (put_server z s' k)"
proof (rule staysI)
  show "k_thread_states (put_server z s' k) = k_thread_states k"
    by (simp add: k_thread_states_def k_process_def put_server_def fun_eq_iff)
qed (auto simp: server_from_sidx_def put_server_def nth_list_update split: if_splits)

lemma on_server_stays: "on_server z f k = (r, k') \<Longrightarrow> stays x k k'"
  using put_server_stays by (auto simp: on_server_def split: option.splits prod.splits)

lemma at_server_stays: "at_server z f k = (r, k') \<Longrightarrow> stays x k k'"
  using on_server_stays [of z f k _ _ x] by (auto simp: at_server_def split: option.splits prod.splits if_splits)

lemma hand_memory_quiet: "hand_memory f c m q k = (r, k') \<Longrightarrow> (\<And>a q d n m. keeps_threads m (snd (f a q d n m))) \<Longrightarrow> quiet k k'"
  unfolding hand_memory_def seq_def place_memory_def
  by (auto dest!: on_mem_quiet split: prod.splits outcome.splits sum.splits)

lemma translate_message_quiet: "translate_message m q k = (r, k') \<Longrightarrow> quiet k k'"
  by (cases m) (auto elim!: hand_memory_quiet simp: memory_keeps_threads)

lemma keep_sender_stays: "keep_sender z st t m ca k = (r, k') \<Longrightarrow> stays x k k'"
proof (cases "is_blocking m")
  case True
  assume run: "keep_sender z st t m ca k = (r, k')"
  obtain r1 k1 where rm: "remember_server_message z (k_current k) t m ca k = (r1, k1)" by fastforce
  have s1: "stays x k k1" using at_server_stays rm unfolding remember_server_message_def .
  show ?thesis
  proof (cases r1)
    case (Fail e)
    obtain r2 k2 where o: "on_server z (\<lambda>s. return_available_thread s st) k1 = (r2, k2)" by fastforce
    then have "k' = k2" using run True rm Fail by (cases r2) (simp_all add: keep_sender_def)
    with stays_trans [OF s1 on_server_stays [OF o]] show ?thesis by simp
  qed (use run True rm s1 in \<open>simp_all add: keep_sender_def\<close>)
qed (auto simp: keep_sender_def)

lemma on_server_states: "on_server z f k = (r, k') \<Longrightarrow> k_thread_states k' = k_thread_states k"
  by (auto simp: on_server_def put_server_def k_thread_states_def k_process_def fun_eq_iff split: option.splits prod.splits)

lemma at_server_states: "at_server z f k = (r, k') \<Longrightarrow> k_thread_states k' = k_thread_states k"
  using on_server_states by (fastforce simp: at_server_def split: option.splits prod.splits if_splits)

lemma keep_sender_states: "keep_sender z st t m ca k = (Done i, k') \<Longrightarrow> k_thread_states k' = k_thread_states k"
  using at_server_states unfolding keep_sender_def remember_server_message_def seq_def
  by (fastforce split: if_splits outcome.splits prod.splits)

text \<open>Only a thread that waits for a message is woken by one.\<close>

lemma event_stays:
  assumes ok: "k_ok k" and acc: "accounted (k_waits k)" and run: "send_message_inner t z m k = (r, k')" and r: "r \<noteq> Panic"
  shows "stays x k k'"
proof (cases "k' = k")
  case False
  obtain sv where sv: "server_from_sidx k z = Some sv" "\<not> is_queue_full sv"
    using run False by (auto simp: send_message_inner_def split: option.splits if_splits)
  have "seq (translate_message m (srv_pid sv) k) (\<lambda>m1. hand_or_queue z (srv_pid sv) t m1 (client_address m)) = (r, k')"
    using run sv by (simp add: send_message_inner_def)
  from seq_run [OF this r] show ?thesis
  proof (elim disjE exE conjE)
    fix e assume "translate_message m (srv_pid sv) k = (Fail e, k')"
    from quiet_stays [OF translate_message_quiet [OF this]] show ?thesis .
  next
    fix m1 k1 assume tr: "translate_message m (srv_pid sv) k = (Done m1, k1)"
      and rest: "hand_or_queue z (srv_pid sv) t m1 (client_address m) k1 = (r, k')"
    note q = translate_message_quiet [OF tr]
    have k1: "k_ok k1" "k_waits k1 = k_waits k" "server_from_sidx k1 z = Some sv"
      using still_ok [OF quiet_still [OF q] ok] quiet_still [OF q] sv(1) server_same [of k1 k] by (simp_all add: still_def)
    obtain r2 k2 where tk: "on_server z take_available_thread k1 = (r2, k2)" by fastforce
    have s2: "stays x k k2" by (rule stays_trans [OF quiet_stays [OF q] on_server_stays [OF tk]])
    have r2: "r2 \<noteq> Panic" using rest r tk by (cases r2) (auto simp: hand_or_queue_def)
    from k1(1) tk r2 show ?thesis
    proof (cases rule: took_thread)
      case none
      with rest tk have "seq (queue_server_message z (k_current k2) t m1 (client_address m) k2) (\<lambda>_ k3. (Done (), k3)) = (r, k')"
        by (simp add: hand_or_queue_def)
      from seq_run [OF this r] have "\<exists>r3. queue_server_message z (k_current k2) t m1 (client_address m) k2 = (r3, k')" by auto
      with at_server_stays stays_trans [OF s2] show ?thesis unfolding queue_server_message_def by blast
    next
      case (one s st)
      let ?u = "(srv_pid sv, st)"
      have s: "s = sv" using one(2) k1(3) by simp
      then have "?u \<in> w_recv (k_waits k) z" using one(3) k1(2) by simp
      then have "thread_state_of k ?u = Some (WaitReceive z)" using accountedD(3) [OF acc, of ?u z] w_for_iff(2) by blast
      moreover have ts: "thread_state_of k2 u = thread_state_of k u" for u
        using q on_server_states [OF tk] by (simp add: quiet_def thread_state_of_def)
      ultimately have st: "thread_state_of k2 ?u = Some (WaitReceive z)" by simp
      have "hand_to_thread z (srv_pid sv) st t m1 (client_address m) k2 = (r, k')"
        using rest tk one(1) by (simp add: hand_or_queue_def)
      from seq_run [OF this [unfolded hand_to_thread_def] r] show ?thesis
      proof (elim disjE exE conjE)
        fix e assume "keep_sender z st t m1 (client_address m) k2 = (Fail e, k')"
        from stays_trans [OF s2 keep_sender_stays [OF this]] show ?thesis .
      next
        fix idx k3
        assume ks: "keep_sender z st t m1 (client_address m) k2 = (Done idx, k3)"
          and "seq (change_thread (srv_pid sv) st TS_Ready k3) (\<lambda>_ k4. ignored (set_thread_result (srv_pid sv) st
              (R_MessageEnvelope (envelope_from (of_nat z) idx (Some (k_current k2)) m1)) k4)) = (r, k')"
        from seq_run [OF this(2) r] change_thread_no_fail obtain y k4 where
          c: "change_thread (srv_pid sv) st TS_Ready k3 = (Done y, k4)"
          and f: "ignored (set_thread_result (srv_pid sv) st (R_MessageEnvelope (envelope_from (of_nat z) idx (Some (k_current k2)) m1)) k4) = (r, k')"
          by auto
        have "thread_state_of k3 ?u = thread_state_of k2 ?u" using keep_sender_states [OF ks] by (simp add: thread_state_of_def)
        with st have "thread_state_of k3 ?u \<noteq> Some (RetryQueueFull x)" by simp
        then have "stays x k3 k4" by (intro releases_stays [OF ready_releases [OF c]]) simp
        moreover have "quiet k4 k'" using ignored_quiet [OF set_thread_result_quiet f] .
        ultimately show ?thesis using s2 keep_sender_stays [OF ks] stays_trans quiet_stays by blast
      qed
    qed
  qed
qed simp

lemma fades_accounted: "fades k k' \<Longrightarrow> accounted (k_waits k) \<Longrightarrow> accounted (k_waits k')"
  using wait_steps_accounted by (auto simp: fades_def)

lemma on_connections_quiet: "on_connections p f k = (r, k') \<Longrightarrow> quiet k k'"
  by (auto simp: quiet_def on_connections_def k_process_some k_thread_states_def k_process_def fun_eq_iff
      split: option.splits prod.splits)

lemma send_system_event_stays:
  assumes ok: "k_ok k" and acc: "accounted (k_waits k)" and run: "send_system_event p ev args k = (r, k')" and r: "r \<noteq> Panic"
  shows "stays x k k'"
proof -
  have "k' = k \<or> (\<exists>z i. seq (send_message_inner 0 z (event_message i args) k) (\<lambda>_ k1. (Done True, k1)) = (r, k'))"
    using run by (auto simp: send_system_event_def split: option.splits prod.splits)
  then show ?thesis
  proof (elim disjE exE)
    fix z i assume s: "seq (send_message_inner 0 z (event_message i args) k) (\<lambda>_ k1. (Done True, k1)) = (r, k')"
    from seq_run [OF s r] obtain r1 where "send_message_inner 0 z (event_message i args) k = (r1, k')" "r1 \<noteq> Panic" by auto
    from event_stays [OF ok acc this] show ?thesis .
  qed simp
qed

lemma tombstone_loop_stays:
  "k_ok k \<Longrightarrow> accounted (k_waits k) \<Longrightarrow> tombstone_loop ps z k = (r, k') \<Longrightarrow> r \<noteq> Panic \<Longrightarrow> stays x k k'"
proof (induction ps arbitrary: k)
  case (Cons p ps)
  obtain fd k1 where c: "on_connections p (\<lambda>m. tombstone_connection_by_sidx m z) k = (fd, k1)" by fastforce
  note q = on_connections_quiet [OF c]
  have f1: "fades k k1" by (rule still_fades [OF quiet_still [OF q] Cons.prems(1)])
  note k1 = fadesD(1) [OF f1] fades_accounted [OF f1 Cons.prems(2)]
  show ?case
  proof (cases "\<exists>cd. fd = Some (Some cd)")
    case True
    then obtain cd where "seq (ignored (send_system_event p SE_Disconnected (cd, 0, 0, 0) k1)) (\<lambda>_. tombstone_loop ps z) = (r, k')"
      using Cons.prems(3) c by auto
    from seq_run [OF this Cons.prems(4)] obtain y k2 where
      "ignored (send_system_event p SE_Disconnected (cd, 0, 0, 0) k1) = (y, k2)" "y \<noteq> Panic"
      "k' = k2 \<or> tombstone_loop ps z k2 = (r, k')" by blast
    moreover from this(1,2) obtain r2 where e: "send_system_event p SE_Disconnected (cd, 0, 0, 0) k1 = (r2, k2)" "r2 \<noteq> Panic"
      by (auto simp: ignored_def split: prod.splits outcome.splits)
    moreover have f2: "fades k1 k2" by (rule send_system_event_fades [OF k1(1) e])
    moreover have "stays x k k2" by (rule stays_trans [OF quiet_stays [OF q] send_system_event_stays [OF k1 e]])
    ultimately show ?thesis
      using Cons.IH [OF fadesD(1) [OF f2] fades_accounted [OF f2 k1(2)] _ Cons.prems(4)] stays_trans by blast
  next
    case False
    then have "tombstone_loop ps z k1 = (r, k')" using Cons.prems(3) c by (auto split: option.splits)
    from stays_trans [OF quiet_stays [OF q] Cons.IH [OF k1 this Cons.prems(4)]] show ?thesis .
  qed
qed simp

lemma fail_permission_request_stays:
  assumes run: "fail_permission_request p t i e k = (Done y, k')"
  shows "stays x k k'"
proof -
  have st: "thread_state_of k (p, t) = Some (RetryPermission i)" using run by (auto simp: fail_permission_request_def split: if_splits)
  with run have "seq (unwrapped (set_thread_result p t (R_Error e) k)) (\<lambda>_. change_thread p t TS_Ready) = (Done y, k')"
    by (simp add: fail_permission_request_def)
  then obtain z k1 where k1: "unwrapped (set_thread_result p t (R_Error e) k) = (Done z, k1)" "change_thread p t TS_Ready k1 = (Done y, k')"
    by (rule seq_unwrap)
  note q = result_quiet [OF k1(1)]
  have "thread_state_of k1 (p, t) \<noteq> Some (RetryQueueFull x)" using st q by (simp add: quiet_def thread_state_of_def)
  then have "stays x k1 k'" by (intro releases_stays [OF ready_releases [OF k1(2)]]) simp
  with quiet_stays [OF q] stays_trans show ?thesis by blast
qed

lemma requests_quiet: "quiet k (k\<lparr>k_requests := es\<rparr>)"
  by (simp add: quiet_def k_thread_states_def k_process_def fun_eq_iff)

lemma fail_requests_stays: "fail_requests pred e k = (Done y, k') \<Longrightarrow> stays x k k'"
proof (induction pred e k arbitrary: y k' rule: fail_requests.induct)
  case (1 pred e k)
  obtain fd es where tn: "tombstone_next (k_requests k) pred = (fd, es)" by fastforce
  note q = quiet_stays [OF requests_quiet [of k es], of x]
  show ?case
  proof (cases fd)
    case None
    with 1(2) tn q show ?thesis by (simp add: fail_requests.simps [of pred e k])
  next
    case (Some u)
    then obtain p t i where fd: "fd = Some (p, t, i)" by (cases u) simp
    have "seq (fail_permission_request p t i e (k\<lparr>k_requests := es\<rparr>)) (\<lambda>_. fail_requests pred e) = (Done y, k')"
      using 1(2) tn fd by (simp add: fail_requests.simps [of pred e k])
    then obtain z k1 where f: "fail_permission_request p t i e (k\<lparr>k_requests := es\<rparr>) = (Done z, k1)"
      "fail_requests pred e k1 = (Done y, k')" by (rule seq_unwrap)
    have "stays x k1 k'" by (rule 1(1) [OF tn [symmetric] fd HOL.refl HOL.refl f])
    with q fail_permission_request_stays [OF f(1)] stays_trans show ?thesis by blast
  qed
qed

lemma destroy_sidx_stays:
  assumes ok: "k_ok k" and acc: "accounted (k_waits k)" and run: "destroy_sidx x k = (Done y, k')"
    and own: "\<And>s. server_from_sidx k x = Some s \<Longrightarrow> srv_pid s = k_current k"
    and u: "thread_state_of k u = Some (RetryQueueFull x)"
  shows "thread_state_of k' u = Some (RetryQueueFull x)" and "server_from_sidx k' x = None"
proof -
  from run obtain a k1 where f: "fail_requests (\<lambda>e. pr_sidx e = x) ServerNotFound k = (Done a, k1)"
    and rest: "(case server_from_sidx k1 x of
         None \<Rightarrow> (Panic, k1)
       | Some s \<Rightarrow>
           seq (destroy s (k1\<lparr>k_servers := (k_servers k1)[x := None]\<rparr>)) (\<lambda>_.
             tombstone_loop [1..<Suc MAX_PROCESS_COUNT] x)) = (Done y, k')"
    unfolding destroy_sidx_def by (rule seq_unwrap)
  have k1: "still k k1" using fail_requests_still [OF f] by simp
  obtain s where s: "server_from_sidx k1 x = Some s" using rest by (auto split: option.splits)
  let ?k = "k1\<lparr>k_servers := (k_servers k1)[x := None]\<rparr>"
  from rest s have "seq (destroy s ?k) (\<lambda>_. tombstone_loop [1..<Suc MAX_PROCESS_COUNT] x) = (Done y, k')" by simp
  then obtain b k2 where k2: "destroy s ?k = (Done b, k2)" "tombstone_loop [1..<Suc MAX_PROCESS_COUNT] x k2 = (Done y, k')"
    by (rule seq_unwrap)
  have sv: "server_from_sidx k x = Some s" using s k1 server_same [of k1 k] by (simp add: still_def)
  have "srv_pid s = k_current ?k" using own [OF sv] k1 by (simp add: still_def)
  note d = destroy_releases [OF k2(1) this]
  have acc1: "accounted (k_waits k1)" using acc k1 by (simp add: still_def)
  note at = at_server_waits [OF s]
  have ts: "thread_state_of ?k v = thread_state_of k1 v" for v by (simp add: thread_state_of_def k_thread_states_def k_process_def)
  have "thread_state_of ?k v \<noteq> Some (RetryQueueFull x)" if "v \<in> {u. \<exists>i. slots_of s i = Some u} \<union> receivers s" for v
  proof -
    have "thread_state_of k1 v = Some (WaitBlocking x) \<or> thread_state_of k1 v = Some (WaitReceive x)"
      using that accountedD(1,3) [OF acc1, of v x] at w_for_iff [of k1 v x] by auto
    then show ?thesis by (auto simp: ts)
  qed
  from releases_stays [OF d this] have s2: "stays x ?k k2" .
  have dk: "k_servers k2 = (k_servers k1)[x := None]" using d by (simp add: releases_def)
  then have gone: "server_from_sidx k2 x = None" by (auto simp: server_from_sidx_def)
  note fd = destroy_closes(1) [OF ok f s k2(1) own]
  have "stays x k2 k'" using tombstone_loop_stays [OF fadesD(1) [OF fd] fades_accounted [OF fd acc] k2(2)] by simp
  moreover have "thread_state_of k1 u = Some (RetryQueueFull x)" using fail_requests_stays [OF f, of x] u unfolding stays_def by blast
  ultimately show "thread_state_of k' u = Some (RetryQueueFull x)" "server_from_sidx k' x = None"
    using s2 gone ts by (cases u; simp add: stays_def)+
qed

end
