(* ===== verification/Call_Outcomes.thy ===== *)
theory Call_Outcomes
  imports Lifecycle_Waits
begin

text \<open>
  How calls fail. A reply that fails leaves the waiting threads alone, or it has emptied the slot and
  not woken the sender. Destroying a server and ending a process have no error path of their own once
  they have begun: whatever they return, it is the outcome of a complete run, or nothing has changed.
\<close>

section \<open>Failing replies\<close>

lemma answer_no_fail: "answer p t v k \<noteq> (Fail e, k')"
proof
  assume "answer p t v k = (Fail e, k')"
  from seq_run [OF this [unfolded answer_def]] change_thread_no_fail obtain y k1 where
    c: "change_thread p t TS_Ready k = (Done y, k1)" and s: "set_thread_result p t v k1 = (Fail e, k')" by auto
  obtain ts where "k_thread_states k1 = (k_thread_states k)(p \<mapsto> ts)" using change_thread_states [of p t TS_Ready k k1] c by auto
  then have "k_thread_states k1 p \<noteq> None" by simp
  then have "k_process k1 p \<noteq> None" by (auto simp: k_thread_states_def)
  with s show False by (auto simp: set_thread_result_def split: if_splits)
qed

lemma answered_no_fail: "answered usage st k \<noteq> (Fail e, k')"
proof
  assume "answered usage st k = (Fail e, k')"
  from seq_run [OF this [unfolded answered_def]] resume_no_fail show False
    by (auto simp: set_thread_result_def split: if_splits)
qed

lemma answer_answered_no_fail: "seq (answer p t v k) (\<lambda>_. answered usage st) \<noteq> (Fail e, k')"
proof
  assume "seq (answer p t v k) (\<lambda>_. answered usage st) = (Fail e, k')"
  from seq_run [OF this] answer_no_fail answered_no_fail show False by auto
qed

lemma set_thread_state_no_fail: "fst (set_thread_state t st ps) \<noteq> Fail e"
proof (cases "has_thread (fst ps) t")
  case True
  then have "has_thread (fst ps) t" .
  obtain pr s where ps: "ps = (pr, s)" by (cases ps)
  have h: "has_thread pr t" using True ps by simp
  show ?thesis
    unfolding ps set_thread_state_run [OF h] using ready_park_no_fail
    by (auto split: prod.splits outcome.splits) (metis fst_conv)+
qed (simp add: set_thread_state_def)

lemma wake_loop_no_fail: "fst (wake_loop ts st n ps) \<noteq> Fail e"
proof (induction ts arbitrary: n ps)
  case (Cons t ts)
  then show ?case using set_thread_state_no_fail [of t TS_Ready ps e]
    by (cases "set_thread_state t TS_Ready ps"; cases "fst (set_thread_state t TS_Ready ps)") auto
qed simp

lemma wake_processes_no_fail: "fst (wake_processes ps st n y) \<noteq> Fail e"
proof (induction ps arbitrary: y)
  case (Cons p ps)
  show ?case
  proof (cases "get_process y p")
    case (Some pr)
    obtain r y1 where o: "on_process p (wake_threads_with_state st n) y = (r, y1)" by fastforce
    then have "r \<noteq> Fail e"
      using Some wake_loop_no_fail [of "[1..<MAX_THREAD_COUNT]" st n "(pr, sched y)" e]
      by (auto simp: on_process_def wake_threads_with_state_def split: prod.splits if_splits)
    with o Some Cons show ?thesis by (cases r) simp_all
  qed (use Cons in simp)
qed simp

lemma wake_waiting_no_fail: "wake_waiting st k \<noteq> (Fail e, k')" "wake_senders x k \<noteq> (Fail e, k')"
  using wake_processes_no_fail [of _ _ _ "k_threads k" e]
  by (auto simp: wake_waiting_def wake_senders_def on_threads_def wake_all_threads_with_state_def split: prod.splits)
     (metis fst_conv)+

lemma take_reply_fail:
  assumes run: "take_reply sender buf k = (Fail e, k')"
  shows "k' = k"
proof -
  let ?s = "sender_id_from_usize sender"
  let ?x = "unat (sid_sidx ?s)"
  show ?thesis
  proof (cases "server_from_sidx k ?x")
    case None
    with run show ?thesis by (simp add: take_reply_def Let_def)
  next
    case (Some sv)
    have same: "put_server ?x sv k = k"
      using Some by (simp add: put_server_def server_from_sidx_def list_update_same_conv split: if_splits)
    obtain r1 sv1 where tk: "take_waiting_message sv (unat (sid_idx ?s)) buf = (r1, sv1)" by fastforce
    show ?thesis
    proof (cases "srv_pid sv = k_current k")
      case True
      show ?thesis
      proof (cases r1)
        case (Fail e1)
        then have "sv1 = sv" using tk by (auto simp: take_waiting_message_def split: if_splits sum.splits waiting_message.splits)
        with run Some True tk Fail same show ?thesis by (simp add: take_reply_def Let_def)
      next
        case (Done w)
        let ?k1 = "put_server ?x sv1 k"
        have "seq (if is_queue_full sv \<and> \<not> is_queue_full sv1 then wake_senders ?x ?k1 else (Done (), ?k1))
                 (\<lambda>_ k2. (Done (?x, w), k2)) = (Fail e, k')"
          using run Some True tk Done by (simp add: take_reply_def Let_def)
        from seq_run [OF this] wake_waiting_no_fail show ?thesis by (auto split: if_splits)
      qed (use run Some True tk in \<open>simp add: take_reply_def Let_def\<close>)
    qed (use run Some in \<open>simp add: take_reply_def Let_def\<close>)
  qed
qed

definition freed :: "nat \<Rightarrow> nat \<Rightarrow> waits \<Rightarrow> waits" where
  "freed x i w = w\<lparr>w_slot := (w_slot w)(x := (w_slot w x)(i := None))\<rparr>"

text \<open>A failing reply changes nothing of this, or it has freed the slot and told the sender nothing.\<close>

lemma took_reply_freed:
  assumes "k_ok k" and "take_reply sender buf k = (Done (x, w), k1)" and "quiet k1 k'"
  shows "k_ok k' \<and> (k_waits k' = k_waits k \<or> (\<exists>i. k_waits k' = freed x i (k_waits k)))"
  using took_reply [OF assms(1,2)] still_ok [OF quiet_still [OF assms(3)]] quiet_still [OF assms(3)]
  by (auto simp: freed_def still_def split: if_splits)

lemma return_result_fail:
  assumes ok: "k_ok k" and run: "return_result usage st sender v k = (Fail e, k')"
  shows "k_ok k' \<and> (k_waits k' = k_waits k \<or> (\<exists>x i. k_waits k' = freed x i (k_waits k)))"
  using seq_run [OF run [unfolded return_result_def] outcome.distinct(5)]
proof (elim disjE exE conjE)
  fix e' assume "take_reply sender None k = (Fail e', k')"
  from take_reply_fail [OF this] ok show ?thesis by simp
next
  fix xw k1 assume tk: "take_reply sender None k = (Done xw, k1)"
    and rest: "(case xw of (sidx, w) \<Rightarrow> \<lambda>k1. case w of
         WaitingScalar p t \<Rightarrow> seq (answer p t v k1) (\<lambda>_. answered usage st)
       | ScalarMessageTerminated \<Rightarrow> answered usage st k1
       | _ \<Rightarrow> (Fail DoubleFree, k1)) k1 = (Fail e, k')"
  obtain x w where xw: "xw = (x, w)" by (cases xw)
  have "k' = k1" using rest xw answer_answered_no_fail answered_no_fail by (auto split: waiting_message.splits)
  with took_reply_freed [OF ok tk [unfolded xw] quiet_refl] show ?thesis by auto
qed

lemma unmap_quiet_run: "forget_memory r k = (y, k') \<Longrightarrow> quiet k k'"
  using unmap_current_quiet by (auto simp: forget_memory_def seq_def split: option.splits outcome.splits prod.splits)

lemma return_memory_fail:
  assumes ok: "k_ok k" and run: "return_memory_call usage st sender buf offset valid k = (Fail e, k')"
  shows "k_ok k' \<and> (k_waits k' = k_waits k \<or> (\<exists>x i. k_waits k' = freed x i (k_waits k)))"
proof (cases "\<exists>e. take_reply sender (Some buf) k = (Fail e, k')")
  case True
  with take_reply_fail ok show ?thesis by blast
next
  case False
  with seq_run [OF run [unfolded return_memory_call_def]] obtain xw k1 where tk0: "take_reply sender (Some buf) k = (Done xw, k1)"
    by auto
  obtain x w where xw: "xw = (x, w)" by (cases xw)
  note tk = tk0 [unfolded xw]
  note rest = run [unfolded return_memory_call_def tk seq_simps prod.case]
  have "quiet k1 k'"
  proof (cases w)
    case (BorrowedMemory p t a)
    note run1 = rest [unfolded BorrowedMemory waiting_message.case]
    obtain r2 k2 where m: "on_mem (return_memory (mr_addr buf) p a (mr_size buf)) k1 = (r2, k2)" by fastforce
    from run1 m answer_answered_no_fail have "k' = k2"
      by (cases r2) (auto split: sum.splits)
    with memory_quiet(3) [OF m] show ?thesis by simp
  next
    case (MovedMemory p t a sz)
    note run1 = rest [unfolded MovedMemory waiting_message.case]
    obtain r2 k2 where m: "on_mem (send_memory (mr_addr buf) p 0 (mr_size buf)) k1 = (r2, k2)" by fastforce
    obtain r3 k3 where c: "on_mem (clear_shared_range p a sz ClearFree) k2 = (r3, k3)" by fastforce
    have "k' = k2 \<or> k' = k3" using run1 m c answer_answered_no_fail
      by (cases r2; cases r3) (auto split: sum.splits)
    with memory_quiet(1) [OF m] memory_quiet(4) [OF c] quiet_trans show ?thesis by blast
  next
    case (ForgetMemory r)
    note run1 = rest [unfolded ForgetMemory waiting_message.case]
    from seq_run [OF run1] answered_no_fail unmap_quiet_run show ?thesis by auto
  qed (use rest in simp_all)
  from took_reply_freed [OF ok tk this] show ?thesis by auto
qed


section \<open>Nobody vanishes\<close>

definition present :: "kernel \<Rightarrow> kernel \<Rightarrow> bool" where
  "present k k' \<longleftrightarrow> (\<forall>p. k_thread_states k p \<noteq> None \<longrightarrow> k_thread_states k' p \<noteq> None)"

lemma present_refl [simp]: "present k k"
  by (simp add: present_def)

lemma present_trans: "present k k1 \<Longrightarrow> present k1 k2 \<Longrightarrow> present k k2"
  by (simp add: present_def)

lemma quiet_present: "(\<And>r k'. x = (r, k') \<Longrightarrow> quiet k k') \<Longrightarrow> present k (snd x)"
  by (cases x) (auto simp: quiet_def present_def)

lemma present_process: "present k k' \<Longrightarrow> k_process k p \<noteq> None \<Longrightarrow> k_process k' p \<noteq> None"
  by (auto simp: present_def k_thread_states_def)

lemma present_seq: "present k (snd x) \<Longrightarrow> (\<And>a k1. present k1 (snd (f a k1))) \<Longrightarrow> present k (snd (seq x f))"
  using present_trans by (cases x; cases "fst x") auto

lemma present_ignored: "present k (snd x) \<Longrightarrow> present k (snd (ignored x))"
  by (cases x; cases "fst x") (auto simp: ignored_def)

lemma present_unwrapped: "present k (snd x) \<Longrightarrow> present k (snd (unwrapped x))"
  by (cases x; cases "fst x") (auto simp: unwrapped_def)

lemma present_same: "k_procs k' = k_procs k \<Longrightarrow> present k k'"
  by (simp add: present_def k_thread_states_def k_process_def)

lemma present_from: "k_procs k1 = k_procs k \<Longrightarrow> present k1 k' \<Longrightarrow> present k k'"
  using present_trans present_same by blast

lemma present_threads:
  assumes f: "\<And>y p. procs y p \<noteq> None \<Longrightarrow> procs (snd (f y)) p \<noteq> None"
  shows "present k (snd (on_threads f k))"
proof -
  obtain r y where y: "f (k_threads k) = (r, y)" by fastforce
  have "procs y p \<noteq> None" if "k_procs k p \<noteq> None" for p
    using f [of "k_threads k" p] that y by (simp add: k_threads_def)
  then show ?thesis using y by (auto simp: on_threads_def present_def k_thread_states_def k_process_def split: option.splits)
qed

lemma on_process_keeps: "procs y p \<noteq> None \<Longrightarrow> procs (snd (on_process q f y)) p \<noteq> None"
  by (auto simp: on_process_def split: option.splits prod.splits)

lemma wake_processes_keeps: "procs y p \<noteq> None \<Longrightarrow> procs (snd (wake_processes ps st n y)) p \<noteq> None"
proof (induction ps arbitrary: y)
  case (Cons q ps)
  obtain r1 y1 where o: "on_process q (wake_threads_with_state st n) y = (r1, y1)" by fastforce
  then have "procs y1 p \<noteq> None" using on_process_keeps [OF Cons.prems, of q "wake_threads_with_state st n"] by simp
  with o Cons show ?case by (cases r1) auto
qed simp

lemma change_thread_present: "present k (snd (change_thread p t st k))"
proof -
  have "present k (snd (on_threads (on_process p (set_thread_state t st)) k))" by (intro present_threads on_process_keeps)
  then show ?thesis by (simp add: change_thread_def)
qed

lemma wake_present: "present k (snd (wake_waiting st k))" "present k (snd (wake_senders x k))"
  unfolding wake_waiting_def wake_senders_def wake_all_threads_with_state_def by (intro present_threads wake_processes_keeps; assumption)+

lemma on_server_present: "present k (snd (on_server x f k))"
  by (auto simp: on_server_def put_server_def intro!: present_same split: option.splits prod.splits)

lemma at_server_present: "present k (snd (at_server x f k))"
proof -
  have o: "present k k1" if "on_server x f k = (r, k1)" for r k1 using on_server_present [of k x f] that by simp
  then show ?thesis by (auto simp: at_server_def split: option.splits prod.splits if_splits)
qed

lemma quiet_ops_present:
  "present k (snd (set_thread_result p t v k))" "present k (snd (unmap_current a len k))"
  "present k (snd (on_mem (clear_shared_range q d n mode) k))" "present k (snd (on_mem (return_memory a q d n) k))"
  "present k (snd (on_connections p f k))" "present k (snd (translate_message m q k))" "present k (snd (free_buffer b k))"
  by (rule quiet_present, erule set_thread_result_quiet unmap_current_quiet memory_quiet on_connections_quiet translate_message_quiet free_buffer_quiet)+

lemmas ops_present = quiet_ops_present change_thread_present wake_present on_server_present at_server_present

lemma keep_sender_present: "present k (snd (keep_sender x st t m ca k))"
proof -
  have "present k1 (snd (seq (on_server x g k1) (\<lambda>_ k2. (Fail e, k2))))" for k1 g and e :: error
    by (intro present_seq ops_present) simp
  moreover have "present k k1" if "at_server x (\<lambda>s. queue_response s (k_current k) t m ca) k = (r, k1)" for r k1
    using at_server_present [of k x "\<lambda>s. queue_response s (k_current k) t m ca"] that by simp
  ultimately have "present k (snd (seq (on_server x g k1) (\<lambda>_ k2. (Fail e, k2))))"
    if "at_server x (\<lambda>s. queue_response s (k_current k) t m ca) k = (r, k1)" for r k1 g and e :: error
    using that present_trans by blast
  with at_server_present [of k x "\<lambda>s. queue_response s (k_current k) t m ca"] show ?thesis
    by (auto simp: keep_sender_def remember_server_message_def split: prod.splits outcome.splits)
qed

lemma hand_or_queue_present: "present k (snd (hand_or_queue x p t m ca k))"
  unfolding hand_or_queue_def hand_to_thread_def queue_server_message_def
  by (rule present_seq [OF on_server_present])
    (auto intro!: present_seq present_ignored ops_present keep_sender_present split: option.split)

lemma send_message_inner_present: "present k (snd (send_message_inner t x m k))"
  by (auto simp: send_message_inner_def intro!: present_seq ops_present hand_or_queue_present split: option.split)

lemma events_present: "present k (snd (send_server_event x ev args k))" "present k (snd (send_system_event p sev args k))"
  by (auto simp: send_server_event_def send_system_event_def intro!: present_seq send_message_inner_present split: option.split)

lemma fail_requests_present: "present k (snd (fail_requests pred e k))"
proof (induction pred e k rule: fail_requests.induct)
  case (1 pred e k)
  obtain fd es where tn: "tombstone_next (k_requests k) pred = (fd, es)" by fastforce
  let ?k = "k\<lparr>k_requests := es\<rparr>"
  have f: "present ?k (snd (fail_permission_request p t i e ?k))" for p t i
    by (auto simp: fail_permission_request_def intro!: present_seq present_unwrapped ops_present)
  show ?case
  proof (cases fd)
    case None
    with tn show ?thesis by (simp add: fail_requests.simps [of pred e k] present_same)
  next
    case (Some u)
    then obtain p t i where u: "fd = Some (p, t, i)" by (cases u) simp
    obtain r1 k1 where run: "fail_permission_request p t i e ?k = (r1, k1)" by fastforce
    have k1: "present ?k k1" using f [of p t i] run by simp
    have "present ?k (snd (seq (fail_permission_request p t i e ?k) (\<lambda>_. fail_requests pred e)))"
    proof (cases r1)
      case (Done y)
      from 1 [OF tn [symmetric] u HOL.refl HOL.refl run [unfolded Done]] present_trans [OF k1] run Done show ?thesis by simp
    qed (use run k1 in simp_all)
    from present_from [OF _ this] tn u show ?thesis by (simp add: fail_requests.simps [of pred e k])
  qed
qed

lemma destroy_entries_present: "present k (snd (destroy_entries qs k))"
proof (induction qs arbitrary: k)
  case (Cons q qs)
  have r: "present k (snd (return_memory_and_unblock_client p t a b k))" for p t a b k
  proof -
    obtain r1 k1 where m: "on_mem (return_memory (mr_addr b) p a (mr_size b)) k = (r1, k1)" by fastforce
    have "present k k1" using quiet_ops_present(4) [of k "mr_addr b" p a "mr_size b"] m by simp
    moreover have "present k1 (snd (seq (if c then on_mem (clear_shared_range p a (mr_size b) ClearOnDemand) k1 else (Done (), k1)) (\<lambda>_ k2.
            seq (change_thread p t TS_Ready k2) (\<lambda>_ k3. unwrapped (set_thread_result p t (R_Error ServerNotFound) k3)))))" for c
      by (auto intro!: present_seq present_unwrapped ops_present)
    ultimately have "present k (snd (seq (if c then on_mem (clear_shared_range p a (mr_size b) ClearOnDemand) k1 else (Done (), k1)) (\<lambda>_ k2.
            seq (change_thread p t TS_Ready k2) (\<lambda>_ k3. unwrapped (set_thread_result p t (R_Error ServerNotFound) k3)))))" for c
      using present_trans by blast
    from this [of True] this [of False] \<open>present k k1\<close> m show ?thesis
      by (cases r1) (simp_all add: return_memory_and_unblock_client_def)
  qed
  have "present k (snd (destroy_entry q k))"
    by (cases q) (auto simp: unblock_client_def intro!: present_seq present_unwrapped ops_present r)
  then show ?case by (auto intro: present_seq Cons.IH)
qed simp

lemma wake_receivers_present: "present k (snd (wake_receivers p s k))"
proof (induction p s k rule: wake_receivers.induct)
  case (1 p s k)
  obtain r s1 where tk: "take_available_thread s = (r, s1)" by fastforce
  show ?case
  proof (cases "\<exists>t. r = Done (Some t)")
    case True
    then obtain t where t: "r = Done (Some t)" by blast
    obtain r1 k1 where c: "change_thread p t TS_Ready k = (r1, k1)" by fastforce
    obtain r2 k2 where u: "unwrapped (set_thread_result p t (R_Error ServerNotFound) k1) = (r2, k2)" by fastforce
    have k1: "present k k1" using change_thread_present [of k p t TS_Ready] c by simp
    have k2: "present k1 k2" using present_unwrapped [OF quiet_ops_present(1) [of k1 p t "R_Error ServerNotFound"]] u by simp
    have "present k2 (snd (wake_receivers p s1 k2))" if "r1 = Done x" "r2 = Done y" for x y
      by (rule 1 [OF tk [symmetric] t HOL.refl c [unfolded that] u [unfolded that]])
    with k1 k2 present_trans show ?thesis using tk t c u
      by (cases r1; cases r2) (auto simp: wake_receivers.simps [of p s k])
  next
    case False
    then show ?thesis using tk by (auto simp: wake_receivers.simps [of p s k] split: outcome.splits option.splits)
  qed
qed

lemma tombstone_loop_present: "present k (snd (tombstone_loop ps x k))"
proof (induction ps arbitrary: k)
  case (Cons p ps)
  obtain fd k1 where c: "on_connections p (\<lambda>m. tombstone_connection_by_sidx m x) k = (fd, k1)" by fastforce
  have "present k k1" using quiet_ops_present(5) [of k p] c by (metis snd_conv)
  moreover have "present k1 (snd (seq (ignored (send_system_event p SE_Disconnected a k1)) (\<lambda>_. tombstone_loop ps x)))" for a
    by (intro present_seq present_ignored events_present Cons.IH)
  ultimately show ?case using c Cons.IH present_trans by (auto split: option.splits)
qed simp

lemma destroy_sidx_present: "present k (snd (destroy_sidx x k))"
proof -
  have d: "present k (snd (destroy s k))" for s k
    unfolding destroy_def
    by (intro present_seq present_unwrapped ops_present destroy_entries_present wake_receivers_present)
  show ?thesis unfolding destroy_sidx_def
    by (rule present_seq [OF fail_requests_present])
      (auto intro!: present_seq tombstone_loop_present present_from [OF _ d] split: option.split)
qed


section \<open>Destroying and ending do not fail\<close>

definition cannot_fail :: "('e, 'a) outcome \<times> 's \<Rightarrow> bool" where
  "cannot_fail x \<longleftrightarrow> (\<forall>e. fst x \<noteq> Fail e)"

lemma cannot_fail_pair [simp]: "cannot_fail (Done a, k)" "cannot_fail (Panic, k)" "\<not> cannot_fail (Fail e, k)"
  by (simp_all add: cannot_fail_def)

lemma cannot_failD: "cannot_fail x \<Longrightarrow> x = (r, k') \<Longrightarrow> r \<noteq> Panic \<Longrightarrow> \<exists>a. r = Done a"
  by (cases r) (auto simp: cannot_fail_def)

lemma cannot_fail_seq: "cannot_fail x \<Longrightarrow> (\<And>a k. cannot_fail (f a k)) \<Longrightarrow> cannot_fail (seq x f)"
  by (cases x; cases "fst x") (auto simp: cannot_fail_def)

lemma wrapped_cannot_fail: "cannot_fail (unwrapped x)" "cannot_fail (ignored x)"
  by (auto simp: unwrapped_def ignored_def split: prod.splits outcome.splits)

lemma change_cannot_fail: "cannot_fail (change_thread p t st k)"
  using change_thread_no_fail unfolding cannot_fail_def by (metis prod.collapse)

lemma clear_cannot_fail: "cannot_fail (on_mem (clear_shared_range p a len mode) k)"
proof -
  have "cannot_fail (clear_pages mp a mode ks s)" for mp ks s
    by (induction ks arbitrary: s) (auto split: prod.split outcome.split)
  then have "fst (clear_pages mp a mode ks s) \<noteq> Fail e" for mp ks s e by (simp add: cannot_fail_def)
  then have "cannot_fail (clear_shared_range p a len mode m)" for m
    by (auto simp: clear_shared_range_def on_vm_def split: outcome.split prod.split) (metis fst_conv)+
  then have "fst (clear_shared_range p a len mode m) \<noteq> Fail e" for m e by (simp add: cannot_fail_def)
  then show ?thesis by (auto simp: on_mem_def cannot_fail_def split: prod.splits) (metis fst_conv)
qed

lemmas cannot_fails = wrapped_cannot_fail change_cannot_fail clear_cannot_fail

lemma destroy_entry_cannot_fail: "cannot_fail (destroy_entry q k)"
proof -
  have r: "cannot_fail (return_memory_and_unblock_client p t a b k)" for p t a b k
    by (auto simp: return_memory_and_unblock_client_def intro!: cannot_fail_seq cannot_fails split: prod.split outcome.split)
  show ?thesis
    by (cases q) (auto simp: unblock_client_def free_buffer_def intro!: cannot_fail_seq cannot_fails r)
qed

lemma destroy_entries_cannot_fail: "cannot_fail (destroy_entries qs k)"
  by (induction qs arbitrary: k) (auto intro!: cannot_fail_seq destroy_entry_cannot_fail)

lemma wake_receivers_cannot_fail: "cannot_fail (wake_receivers p s k)"
proof (induction p s k rule: wake_receivers.induct)
  case (1 p s k)
  obtain r s1 where tk: "take_available_thread s = (r, s1)" by fastforce
  then have nf: "r \<noteq> Fail e" for e by (auto simp: take_available_thread_def split: if_splits option.splits)
  show ?case
  proof (cases "\<exists>t. r = Done (Some t)")
    case True
    then obtain t where t: "r = Done (Some t)" by blast
    obtain r1 k1 where c: "change_thread p t TS_Ready k = (r1, k1)" by fastforce
    obtain r2 k2 where u: "unwrapped (set_thread_result p t (R_Error ServerNotFound) k1) = (r2, k2)" by fastforce
    have "cannot_fail (wake_receivers p s1 k2)" if "r1 = Done x" "r2 = Done y" for x y
      by (rule 1 [OF tk [symmetric] t HOL.refl c [unfolded that] u [unfolded that]])
    moreover have "r1 \<noteq> Fail e" for e using change_cannot_fail [of p t TS_Ready k] c by (simp add: cannot_fail_def)
    moreover have "r2 \<noteq> Fail e" for e
      using wrapped_cannot_fail(1) [of "set_thread_result p t (R_Error ServerNotFound) k1"] u by (simp add: cannot_fail_def)
    ultimately show ?thesis using tk t c u
      by (cases r1; cases r2) (auto simp: wake_receivers.simps [of p s k])
  next
    case False
    then show ?thesis using tk nf by (auto simp: wake_receivers.simps [of p s k] split: outcome.splits option.splits)
  qed
qed

lemma tombstone_loop_cannot_fail: "cannot_fail (tombstone_loop ps x k)"
  by (induction ps arbitrary: k) (auto split: prod.split option.split intro!: cannot_fail_seq cannot_fails)

lemma destroy_sidx_cannot_fail: "cannot_fail (destroy_sidx x k)"
proof -
  have f: "cannot_fail (fail_requests pred e1 k)" for pred e1 k
  proof -
    obtain r k1 where x: "fail_requests pred e1 k = (r, k1)" by fastforce
    show ?thesis using fail_requests_still [OF x] x by (cases r) auto
  qed
  show ?thesis
    unfolding destroy_sidx_def destroy_def
    by (auto intro!: cannot_fail_seq f destroy_entries_cannot_fail wake_receivers_cannot_fail cannot_fails tombstone_loop_cannot_fail
        split: option.split)
qed

lemma leave_servers_cannot_fail:
  "k_process k p \<noteq> None \<Longrightarrow> cannot_fail (leave_servers p xs k) \<and> present k (snd (leave_servers p xs k))"
proof (induction xs arbitrary: k)
  case (Cons x xs)
  show ?case
  proof (cases "server_from_sidx k x")
    case None
    then show ?thesis using Cons by simp
  next
    case (Some s)
    show ?thesis
    proof (cases "srv_pid s = p")
      case True
      obtain r k1 where d: "destroy_sidx x k = (r, k1)" by fastforce
      then have "present k k1" "cannot_fail (r, k1)" using destroy_sidx_present [of k x] destroy_sidx_cannot_fail [of x k] by simp_all
      with d Some True Cons.IH [OF present_process [OF _ Cons.prems]] present_trans show ?thesis by (cases r) auto
    next
      case False
      let ?k1 = "put_server x (discard_messages_for_pid s p) (k\<lparr>k_current := srv_pid s\<rparr>)"
      have pr: "k_process ?k1 p = k_process k p" "k_process (?k1\<lparr>k_current := p\<rparr>) p = k_process k p"
        "k_procs (?k1\<lparr>k_current := p\<rparr>) = k_procs k" by (simp_all add: k_process_def put_server_def)
      from Cons.IH [of "?k1\<lparr>k_current := p\<rparr>"] pr(2) Cons.prems present_from [OF pr(3)]
      show ?thesis using Some False Cons.prems pr(1) by (auto simp: Let_def)
    qed
  qed
qed simp

lemma notify_servers_present: "present k (snd (notify_servers xs k))"
  by (induction xs arbitrary: k) (auto intro!: present_seq present_ignored events_present)

lemma notify_servers_cannot_fail: "cannot_fail (notify_servers xs k)"
  by (induction xs arbitrary: k) (auto intro!: cannot_fail_seq cannot_fails)

lemma stop_map_zero_present: "present k (snd (stop_map_zero p k))" and stop_map_zero_cannot_fail: "cannot_fail (stop_map_zero p k)"
proof -
  let ?k = "k\<lparr>k_vm := (k_vm k)\<lparr>vm_frames := cancel_map_zero (vm_frames (k_vm k))\<rparr>\<rparr>"
  have "present k (snd (wake_waiting RetryMapZero ?k))" using present_from [OF _ wake_present(1)] by simp
  then show "present k (snd (stop_map_zero p k))" by (simp add: stop_map_zero_def Let_def)
  show "cannot_fail (stop_map_zero p k)"
    using wake_waiting_no_fail(1) [of RetryMapZero ?k] by (auto simp: stop_map_zero_def Let_def cannot_fail_def) (metis prod.collapse)
qed

lemma release_process_cannot_fail:
  assumes "k_process k p \<noteq> None"
  shows "cannot_fail (release_process p k)"
proof -
  obtain pr mp where pr: "k_process k p = Some (pr, mp)" using assms by auto
  have ft: "cannot_fail (free_threads ts ps)" for ts ps
  proof (induction ts arbitrary: ps)
    case (Cons t ts)
    have "cannot_fail (set_thread_state t TS_Free ps)" using set_thread_state_no_fail by (simp add: cannot_fail_def)
    then show ?case by (simp add: cannot_fail_seq Cons.IH)
  qed simp
  have "cannot_fail (on_threads (on_process p terminate_threads) k)"
  proof -
    have "get_process (k_threads k) p = Some pr" using pr by (simp add: get_k_process)
    moreover obtain r y where f: "free_threads [1..<MAX_THREAD_COUNT] (pr, sched (k_threads k)) = (r, y)" by (metis prod.exhaust)
    then have "cannot_fail (r, y)" using ft [of "[1..<MAX_THREAD_COUNT]" "(pr, sched (k_threads k))"] by simp
    ultimately show ?thesis using f
      by (cases r) (auto simp: on_threads_def on_process_def terminate_threads_def split: prod.split)
  qed
  moreover have "cannot_fail (release_all_memory_for_process q m)" for q m
  proof -
    have "cannot_fail (release_all_loop is q m)" for "is" m
      by (induction "is" arbitrary: m) (auto simp: Let_def add_free_pages_def intro!: cannot_fail_seq)
    then show ?thesis unfolding release_all_memory_for_process_def by (intro cannot_fail_seq) simp_all
  qed
  then have "cannot_fail (on_frames (release_all_memory_for_process q) v)" for q v
    by (auto simp: on_frames_def cannot_fail_def split: prod.splits) (metis fst_conv)
  then have "fst (on_frames (release_all_memory_for_process q) v) \<noteq> Fail e" for q v e by (simp add: cannot_fail_def)
  ultimately show ?thesis using pr
    by (auto simp: release_process_def intro!: cannot_fail_seq split: prod.split outcome.split) (metis fst_conv)
qed

lemma terminate_cannot_fail: "cannot_fail (terminate_current_process usage ret k)"
proof -
  let ?p = "k_current k"
  show ?thesis
  proof (cases "k_process k ?p")
    case (Some pm)
    then obtain pr mp where pr: "k_process k ?p = Some (pr, mp)" by (cases pm) simp
    have rest: "cannot_fail (seq (notify_servers xs k3) (\<lambda>_ k4. seq (stop_map_zero ?p k4) (\<lambda>_ k5.
        seq (release_process ?p k5) (\<lambda>_. resume usage))))" if "k_process k3 ?p \<noteq> None" for xs k3
    proof -
      obtain r4 k4 where k4: "notify_servers xs k3 = (r4, k4)" by fastforce
      obtain r5 k5 where k5: "stop_map_zero ?p k4 = (r5, k5)" by fastforce
      have "k_process k5 ?p \<noteq> None"
        using present_process [OF present_trans that] notify_servers_present [of k3 xs] stop_map_zero_present [of k4 ?p] k4 k5 by simp
      from release_process_cannot_fail [OF this] have "cannot_fail (seq (release_process ?p k5) (\<lambda>_. resume usage))"
        by (rule cannot_fail_seq) (metis cannot_fail_def prod.collapse resume_no_fail)
      then show ?thesis using k4 k5 notify_servers_cannot_fail [of xs k3] stop_map_zero_cannot_fail [of ?p k4]
        by (cases r4; cases r5) (auto simp: cannot_fail_def)
    qed
    have np: "cannot_fail (notify_parent q c k2)" for q c k2
      by (auto simp: notify_parent_def intro: cannot_fails split: option.split)
    have "cannot_fail (leave_servers ?p [0..<length (k_servers k)] k)" using leave_servers_cannot_fail pr by blast
    then show ?thesis using pr
      by (auto simp: terminate_current_process_def Let_def intro!: cannot_fail_seq np rest split: option.split)
  qed (simp add: terminate_current_process_def Let_def)
qed


section \<open>Runs\<close>

lemma destroy_server_run:
  assumes "destroy_server p sd k = (r, k')" and "r \<noteq> Panic"
  shows "(\<exists>u. r = Done u) \<or> k' = k"
  using assms cannot_failD [OF destroy_sidx_cannot_fail] by (fastforce simp: destroy_server_def split: option.splits)

lemma terminate_pid_run:
  assumes "terminate_pid_call usage t p ret k = (r, k')" and "r \<noteq> Panic"
  shows "(\<exists>y. r = Done y) \<or> k' = k"
proof -
  have "k' = k \<or> terminate_process usage t p ret k = (r, k')" using assms(1) by (auto simp: terminate_pid_call_def split: if_splits)
  moreover have "k' = k \<or> seq (set_thread_result (k_current k) t R_Ok k) (\<lambda>_ k1.
            terminate_current_process usage ret (k1\<lparr>k_current := p\<rparr>)) = (r, k')" if "terminate_process usage t p ret k = (r, k')"
    using that by (auto simp: terminate_process_def split: option.splits if_splits)
  moreover have "\<exists>y. r = Done y" if s: "seq (set_thread_result (k_current k) t R_Ok k) (\<lambda>_ k1.
            terminate_current_process usage ret (k1\<lparr>k_current := p\<rparr>)) = (r, k')"
    using seq_run [OF s assms(2)] cannot_failD [OF terminate_cannot_fail _ assms(2)]
    by (auto simp: set_thread_result_def split: if_splits)
  ultimately show ?thesis by blast
qed


definition dropped :: "kernel \<Rightarrow> kernel \<Rightarrow> thread set" where
  "dropped k k' = {u. \<exists>x i. queue_holds k x i u \<and> \<not> queue_holds k' x i u}"

lemma failed_reply_run:
  assumes "k_waits k' = k_waits k \<or> (\<exists>x i. k_waits k' = freed x i (k_waits k))" and "wait_run w L (k_waits k)"
  shows "wait_run w (L \<union> dropped k k') (k_waits k')"
proof (cases "k_waits k' = k_waits k")
  case True
  then have "dropped k k' = {}" by (simp add: dropped_def w_slot_iff [symmetric])
  with True assms(2) show ?thesis by simp
next
  case False
  then obtain x i where f: "k_waits k' = freed x i (k_waits k)" using assms(1) by blast
  then obtain u where u: "w_slot (k_waits k) x i = Some u"
    using False no_sender_left [of "k_waits k" x i] by (cases "w_slot (k_waits k) x i") (auto simp: freed_def)
  have "queue_holds k y j v \<and> \<not> queue_holds k' y j v \<longleftrightarrow> y = x \<and> j = i \<and> v = u" for y j v
    using u by (auto simp: w_slot_iff [symmetric] f freed_def)
  then have "dropped k k' = {u}" by (auto simp: dropped_def)
  with wait_run.loses [OF assms(2) u] f show ?thesis by (simp add: freed_def)
qed

end
