(* ===== verification/Message_Calls.thy ===== *)
theory Message_Calls
  imports Call_Outcomes
begin

text \<open>
  What the calls of the kernel guarantee: the memory of a message travels with it or stays, and
  whoever waits for a message or an answer is accounted for, on both sides, after any sequence of
  calls. Two kinds of sender can still be left waiting.
\<close>

section \<open>The memory of a message\<close>

lemma k_mem_simps [simp]: "mem_current (k_mem k) = k_current k" "mem_vm (k_mem k) = k_vm k" "mem_procs (k_mem k) = k_procs k"
  by (simp_all add: k_mem_def)

definition spaces_same :: "kernel \<Rightarrow> kernel \<Rightarrow> bool" where
  "spaces_same k k' \<longleftrightarrow> k_vm k' = k_vm k \<and> user_spaces (k_mem k') = user_spaces (k_mem k)"

lemma spaces_same_refl [simp]: "spaces_same k k"
  by (simp add: spaces_same_def)



lemma spaces_sameI: "k_vm k' = k_vm k \<Longrightarrow> (\<And>p. map_option snd (k_procs k' p) = map_option snd (k_procs k p)) \<Longrightarrow> spaces_same k k'"
  by (simp add: spaces_same_def user_spaces_def k_mem_def fun_eq_iff)

lemma put_server_spaces: "spaces_same k (put_server x s k)"
  by (rule spaces_sameI) (simp_all add: put_server_def)

lemma on_server_spaces: "on_server x f k = (r, k') \<Longrightarrow> spaces_same k k'"
  using put_server_spaces by (auto simp: on_server_def split: option.splits prod.splits)

lemma at_server_spaces: "at_server x f k = (r, k') \<Longrightarrow> spaces_same k k'"
  using on_server_spaces by (fastforce simp: at_server_def split: option.splits prod.splits if_splits)








lemma put_server_process: "k_process (put_server x s k) p = k_process k p" "k_current (put_server x s k) = k_current k"
  by (simp_all add: k_process_def put_server_def)




text \<open>Moving memory and filling slots concerns neither the threads of a process nor the scheduler.\<close>

definition threads_alike :: "kernel \<Rightarrow> kernel \<Rightarrow> bool" where
  "threads_alike k k' \<longleftrightarrow> k_sched k' = k_sched k
     \<and> (\<forall>p. map_option (thread_part \<circ> fst) (k_procs k' p) = map_option (thread_part \<circ> fst) (k_procs k p))"

lemma threads_alike_refl [simp]: "threads_alike k k"
  by (simp add: threads_alike_def)










section \<open>Sequences of calls\<close>

text \<open>
  The caller of a call that may wait runs. A call counts with its effects whether it returns a result
  or an error; only a panic ends the kernel. Any other step of the kernel that concerns neither side
  of waiting may come in between. The replies that fail come in below.
\<close>

inductive message_step :: "kernel \<Rightarrow> kernel \<Rightarrow> bool" where
  sends: "thread_state_of k (k_current k, t) = Some TS_Ready \<Longrightarrow> t < MAX_THREAD_COUNT \<Longrightarrow> wf_message m \<Longrightarrow>
    send_call usage t c m k = (r, k') \<Longrightarrow> r \<noteq> Panic \<Longrightarrow> message_step k k'"
| tries: "thread_state_of k (k_current k, t) = Some TS_Ready \<Longrightarrow> t < MAX_THREAD_COUNT \<Longrightarrow> wf_message m \<Longrightarrow>
    try_send_call usage t c m k = (r, k') \<Longrightarrow> r \<noteq> Panic \<Longrightarrow> message_step k k'"
| receives: "thread_state_of k (k_current k, t) = Some TS_Ready \<Longrightarrow> t < MAX_THREAD_COUNT \<Longrightarrow>
    receive_message usage t sd blocking k = (r, k') \<Longrightarrow> r \<noteq> Panic \<Longrightarrow> message_step k k'"
| returns_result: "return_result usage t sender v k = (Done y, k') \<Longrightarrow> message_step k k'"
| returns_memory: "return_memory_call usage t sender buf offset valid k = (Done y, k') \<Longrightarrow> message_step k k'"
| connects: "thread_state_of k (k_current k, t) = Some TS_Ready \<Longrightarrow>
    connect_call usage t sd k = (r, k') \<Longrightarrow> r \<noteq> Panic \<Longrightarrow> message_step k k'"
| connects_at_once: "connect_to_server p sd k = (r, k') \<Longrightarrow> r \<noteq> Panic \<Longrightarrow> message_step k k'"
| disconnects: "disconnect_from_server c k = (r, k') \<Longrightarrow> r \<noteq> Panic \<Longrightarrow> message_step k k'"
| resolves: "resolve_message_permission n allow k = (r, k') \<Longrightarrow> r \<noteq> Panic \<Longrightarrow> message_step k k'"
| creates: "create_server_with_address sd perms k = (r, k') \<Longrightarrow> r \<noteq> Panic \<Longrightarrow> message_step k k'"
| destroys: "destroy_server (k_current k) sd k = (r, k') \<Longrightarrow> r \<noteq> Panic \<Longrightarrow> message_step k k'"
| ends: "terminate_current_process usage ret k = (r, k') \<Longrightarrow> r \<noteq> Panic \<Longrightarrow> message_step k k'"
| ends_other: "terminate_pid_call usage t p ret k = (r, k') \<Longrightarrow> r \<noteq> Panic \<Longrightarrow> message_step k k'"
| elsewhere: "k_waits k' = k_waits k \<Longrightarrow> k_ok k' \<Longrightarrow> message_step k k'"

text \<open>
  A reply that fails may have emptied its slot without waking the sender. A run keeps the senders \<open>L\<close>
  whose slot has been taken in this way.
\<close>

inductive message_run :: "kernel \<Rightarrow> thread set \<Rightarrow> kernel \<Rightarrow> bool" where
  start: "message_run k {} k"
| continue: "message_run k L k1 \<Longrightarrow> message_step k1 k2 \<Longrightarrow> message_run k L k2"
| fails_result: "message_run k L k1 \<Longrightarrow> return_result usage t sender v k1 = (Fail e, k2) \<Longrightarrow>
    message_run k (L \<union> dropped k1 k2) k2"
| fails_memory: "message_run k L k1 \<Longrightarrow> return_memory_call usage t sender buf offset valid k1 = (Fail e, k2) \<Longrightarrow>
    message_run k (L \<union> dropped k1 k2) k2"

lemma message_step_waits:
  assumes "message_step k k'" and "k_ok k"
  shows "k_ok k' \<and> wait_steps (k_waits k) (k_waits k')"
proof -
  have "lawful k k'"
    using assms(1)
  proof (cases rule: message_step.cases)
    case (sends t m usage c r)
    then show ?thesis using send_call_lawful [OF assms(2) sends(3) _ _ sends(4,5)] by (simp add: w_for_state MAX_THREAD_COUNT_def)
  next
    case (tries t m usage c r)
    then show ?thesis using try_send_call_lawful [OF assms(2) tries(3) _ _ tries(4,5)] by (simp add: w_for_state MAX_THREAD_COUNT_def)
  next
    case (receives t usage sd b r)
    then show ?thesis using receive_message_waits [OF assms(2) _ _ receives(3,4)]
      by (simp add: w_for_state MAX_THREAD_COUNT_def lawful_def)
  next
    case (returns_result usage t sender v y)
    then show ?thesis using return_result_waits [OF assms(2)] by (simp add: lawful_def)
  next
    case (returns_memory usage t sender buf offset valid y)
    then show ?thesis using return_memory_waits [OF assms(2)] by (simp add: lawful_def)
  next
    case (connects t usage sd r)
    then show ?thesis using connect_call_lawful [OF assms(2) _ connects(2,3)] by (simp add: w_for_state)
  next
    case (connects_at_once p sd r)
    then show ?thesis using fades_lawful [OF connect_fades [OF assms(2)]] by blast
  next
    case (disconnects c r)
    then show ?thesis using fades_lawful [OF disconnect_fades [OF assms(2)]] by blast
  next
    case (resolves n allow r)
    then show ?thesis using fades_lawful [OF resolve_fades [OF assms(2)]] by blast
  next
    case (creates sd perms r)
    then show ?thesis using create_server_lawful [OF assms(2)] by blast
  next
    case (destroys sd r)
    from destroy_server_run [OF destroys] show ?thesis
      using destroys(1) fades_lawful [OF destroy_server_fades [OF assms(2)]] lawful_same [OF assms(2)] by blast
  next
    case (ends usage ret r)
    from cannot_failD [OF terminate_cannot_fail this] show ?thesis
      using ends(1) terminate_lawful [OF assms(2)] by blast
  next
    case (ends_other usage t p ret r)
    from terminate_pid_run [OF ends_other] show ?thesis
      using ends_other(1) terminate_pid_lawful [OF assms(2)] lawful_same [OF assms(2)] by blast
  next
    case elsewhere
    then show ?thesis by (simp add: wait_steps.stay lawful_def)
  qed
  then show ?thesis by (simp add: lawful_def)
qed

lemma message_run_waits: "message_run k L k' \<Longrightarrow> k_ok k \<Longrightarrow> k_ok k' \<and> wait_run (k_waits k) L (k_waits k')"
proof (induction rule: message_run.induct)
  case (continue k L k1 k2)
  then show ?case using message_step_waits [OF continue.hyps(2)] wait_run_goes by blast
next
  case (fails_result k L k1 usage t sender v e k2)
  with return_result_fail [OF _ fails_result.hyps(2)] failed_reply_run show ?case by blast
next
  case (fails_memory k L k1 usage t sender buf offset valid e k2)
  with return_memory_fail [OF _ fails_memory.hyps(2)] failed_reply_run show ?case by blast
qed (simp add: wait_run.begins)

section \<open>The answer\<close>

lemma on_threads_results: "on_threads f k = (r, k') \<Longrightarrow> k_results k' = k_results k"
  by (auto simp: on_threads_def split: prod.splits)

lemma change_thread_results: "change_thread p t st k = (r, k') \<Longrightarrow> k_results k' = k_results k"
  using on_threads_results by (auto simp: change_thread_def split: if_splits)

lemma resume_results: "resume usage k = (r, k') \<Longrightarrow> k_results k' = k_results k \<and> k_thread_states k' = k_thread_states k"
  by (auto simp: resume_def k_thread_states_def k_process_def fun_eq_iff
      split: prod.splits outcome.splits activation.splits if_splits)

lemma set_thread_result_results: "set_thread_result p t v k = (Done (), k') \<Longrightarrow>
    k_results k' = (k_results k)((p, t) \<mapsto> v) \<and> k_thread_states k' = k_thread_states k"
  by (auto simp: set_thread_result_def k_thread_states_def k_process_def fun_eq_iff split: if_splits)

lemma take_reply_slot:
  assumes "take_reply sender buf k = (Done (x, w), k')"
  obtains s s1 where "x = unat (sid_sidx (sender_id_from_usize sender))" "server_from_sidx k x = Some s" "srv_pid s = k_current k"
    "take_waiting_message s (unat (sid_idx (sender_id_from_usize sender))) buf = (Done w, s1)" "k_results k' = k_results k"
proof -
  let ?s = "sender_id_from_usize sender"
  let ?x = "unat (sid_sidx ?s)"
  obtain sv where sv: "server_from_sidx k ?x = Some sv" "srv_pid sv = k_current k"
    using assms by (auto simp: take_reply_def Let_def split: option.splits if_splits)
  obtain r1 sv1 where tk: "take_waiting_message sv (unat (sid_idx ?s)) buf = (r1, sv1)" by fastforce
  let ?k1 = "put_server ?x sv1 k"
  obtain w1 where w1: "r1 = Done w1" "seq (if is_queue_full sv \<and> \<not> is_queue_full sv1 then wake_senders ?x ?k1 else (Done (), ?k1))
      (\<lambda>_ k2. (Done (?x, w1), k2)) = (Done (x, w), k')"
    using assms sv tk by (cases r1) (auto simp: take_reply_def Let_def)
  have "k_results k' = k_results ?k1" "x = ?x" "w = w1"
    using seq_Done [OF w1(2)] by (auto simp: wake_senders_def dest: on_threads_results split: if_splits)
  with that [of sv sv1] sv tk w1(1) show thesis by (simp add: put_server_def)
qed

lemma scalar_slot:
  "take_waiting_message s i None = (Done (WaitingScalar p t), s1) \<Longrightarrow> queue s ! i = WaitingReturnScalar p t"
  "take_waiting_message s i None = (Done ScalarMessageTerminated, s1) \<Longrightarrow> queue s ! i = WaitingReturnScalarTerminated"
  using take_waiting_cases [of s i None] by (cases "queue s ! i"; auto)+

lemma answer_reaches:
  assumes run: "seq (answer p t v k) (\<lambda>_. answered usage st) = (Done y, k')"
  shows "thread_state_of k' (p, t) = Some TS_Ready"
    and "k_results k' = (k_results k)((p, t) \<mapsto> v, (k_current k, st) \<mapsto> R_Ok)"
proof -
  obtain k3 where a: "answer p t v k = (Done (), k3)" and b: "answered usage st k3 = (Done y, k')"
    using seq_Done [OF run] by auto
  obtain k2 where c: "change_thread p t TS_Ready k = (Done (), k2)" and d: "set_thread_result p t v k2 = (Done (), k3)"
    using seq_Done [OF a [unfolded answer_def]] by auto
  obtain k4 where e: "set_thread_result (k_current k3) st R_Ok k3 = (Done (), k4)" and f: "resume usage k4 = (Done y, k')"
    using seq_Done [OF b [unfolded answered_def]] by auto
  obtain ts where ts: "t < length ts" "k_thread_states k2 = (k_thread_states k)(p \<mapsto> ts[t := TS_Ready])"
    using change_thread_states [OF c] by auto
  note r = set_thread_result_results [OF d] set_thread_result_results [OF e] resume_results [OF f] change_thread_results [OF c]
  show "thread_state_of k' (p, t) = Some TS_Ready" using r ts by (simp add: thread_state_of_def)
  have "k_current k3 = k_current k" using set_thread_result_still [OF d] change_thread_waits(3) [OF c] by (simp add: still_def)
  with r show "k_results k' = (k_results k)((p, t) \<mapsto> v, (k_current k, st) \<mapsto> R_Ok)" by simp
qed

section \<open>A kernel to try the calls on\<close>

text \<open>Process 3 waits for the answer of the server of process 2, whose thread runs.\<close>

definition sample_process :: "pid \<Rightarrow> thread_state \<Rightarrow> process" where
  "sample_process p st = (process_new p 1 (AppId (replicate 16 0)))\<lparr>threads := (replicate MAX_THREAD_COUNT TS_Free)[1 := st]\<rparr>"

definition sample_server :: "queued_message \<Rightarrow> server" where
  "sample_server q = \<lparr>srv_sid = SID 1 2 3 4, srv_pid = 2, queue_head = 1, queue_tail = 0, head_generation = 0, tail_generation = 0,
     empty_count = 127, queue = (replicate 128 Empty)[0 := q], ready_threads = 0,
     default_permissions = default_message_permissions, event_handlers = [None, None],
     srv_backing = \<lparr>mr_addr = 0x50000, mr_size = 0x1000\<rparr>\<rparr>"

definition sample_kernel :: "queued_message \<Rightarrow> kernel" where
  "sample_kernel q = \<lparr>k_procs = [2 \<mapsto> (sample_process 2 TS_Ready, \<lparr>ttbr0 = page_addr 0, map_pid = 2\<rparr>),
       3 \<mapsto> (sample_process 3 (WaitBlocking 0), \<lparr>ttbr0 = page_addr 4, map_pid = 3\<rparr>)],
     k_sched = snd (ready_thread initial_scheduler (2, 1) AppDefault), k_current = 2, k_tid = 1, k_vm = sample_vm,
     k_servers = [Some (sample_server q)], k_results = Map.empty, k_requests = new_permission_requests, k_irqs = initial_irqs\<rparr>"

lemma sample_server_ok:
  assumes "generation q = None" "q \<noteq> Empty"
  shows "server_ok (sample_server q)"
proof -
  have "fifo (sample_server q) []"
    using assms(1) by (auto simp: fifo_def sample_server_def nth_list_update)
  moreover have "count_if (\<lambda>x. x = Empty) ((replicate 128 Empty)[0 := q]) = 127"
    using count_if_update [of 0 "replicate 128 Empty" "\<lambda>x. x = Empty" q] assms(2) by (simp add: count_if_def)
  ultimately have "mailbox_rel (sample_server q) []"
    by (auto simp: mailbox_rel_def wf_server_def sample_server_def)
  then show ?thesis by (auto simp: server_ok_def)
qed

lemma sample_states: "thread_state_of (sample_kernel q) u =
    (if u = (2, 1) then Some TS_Ready else if u = (3, 1) then Some (WaitBlocking 0)
     else if fst u \<in> {2, 3} \<and> snd u < MAX_THREAD_COUNT then Some TS_Free else None)"
  by (cases u) (auto simp: thread_state_of_def k_thread_states_def k_process_def sample_kernel_def sample_process_def
      sched_consts nth_list_update)

lemma sample_sidx: "server_from_sidx (sample_kernel q) x = (if x = 0 then Some (sample_server q) else None)"
  by (auto simp: server_from_sidx_def sample_kernel_def)

lemma sample_holds: "queue_holds (sample_kernel q) x i u \<longleftrightarrow> x = 0 \<and> i = 0 \<and> blocked_thread q = Some u"
  by (auto simp: queue_holds_def sample_sidx sample_server_def nth_list_update split: if_splits)

lemma sample_accounted:
  assumes "blocked_thread q = Some (3, 1)"
  shows "accounted (k_waits (sample_kernel q))"
proof (rule accountedI)
  show "w_for (k_waits (sample_kernel q)) u = Some (Sending x) \<longleftrightarrow> (\<exists>i. w_slot (k_waits (sample_kernel q)) x i = Some u)" for u x
    using assms by (auto simp: w_for_iff w_slot_iff sample_holds sample_states)
  show "i = j" if "w_slot (k_waits (sample_kernel q)) x i = Some u" "w_slot (k_waits (sample_kernel q)) x j = Some u" for x i j u
    using that by (simp add: w_slot_iff sample_holds)
  show "w_for (k_waits (sample_kernel q)) u = Some (Receiving x) \<longleftrightarrow> u \<in> w_recv (k_waits (sample_kernel q)) x" for u x
    by (auto simp: w_for_iff w_recv_iff sample_states sample_sidx sample_server_def waiting_threads_def)
qed

lemma sample_ok: "generation q = None \<Longrightarrow> q \<noteq> Empty \<Longrightarrow> k_ok (sample_kernel q)"
  using sample_server_ok by (simp add: k_ok_def sample_sidx)

lemma sample_sender: "sender_id_from_usize 0x03000000 = \<lparr>sid_sidx = 0, sid_idx = 0, sid_pid = Some 3\<rparr>"
  by (simp add: sender_id_from_usize_def pid_new_def)

lemma sample_take:
  assumes "reply_of q None = Inr w" "w \<noteq> NoWaitingMessage" "reply_check q None"
  shows "\<exists>s1. take_reply 0x03000000 None (sample_kernel q) = (Done (0, w), put_server 0 s1 (sample_kernel q))"
proof -
  have "length (queue (sample_server q)) = 128" "queue (sample_server q) ! 0 = q" by (simp_all add: sample_server_def)
  then obtain s1 where "take_waiting_message (sample_server q) 0 None = (Done w, s1)"
    using assms by (cases w) (simp_all add: take_waiting_message_def)
  moreover have "srv_pid (sample_server q) = k_current (sample_kernel q)" "\<not> is_queue_full (sample_server q)"
    by (simp_all add: sample_server_def sample_kernel_def is_queue_full_def)
  ultimately show ?thesis by (auto simp: take_reply_def sample_sender sample_sidx Let_def)
qed

lemma sample_answer: "\<exists>k'. seq (answer 3 1 v (put_server 0 s1 (sample_kernel q))) (\<lambda>_. answered 0 1) = (Done R_ResumeProcess, k')"
  by (simp add: answer_def answered_def change_thread_def k_process_def sample_kernel_def put_server_def on_threads_def
      on_process_def get_process_def k_threads_def set_thread_state_def has_thread_def sample_process_def process_new_def
      sched_consts ready_thread_def initial_scheduler_def on_scheduler_def set_thread_result_def resume_def activate_current_def
      Let_def link_copy_def put_link_def in_table_def)

lemma sample_reply: "\<exists>k'. return_result 0 1 0x03000000 v (sample_kernel (WaitingReturnScalar 3 1)) = (Done R_ResumeProcess, k')"
proof -
  obtain s1 where "take_reply 0x03000000 None (sample_kernel (WaitingReturnScalar 3 1))
      = (Done (0, WaitingScalar 3 1), put_server 0 s1 (sample_kernel (WaitingReturnScalar 3 1)))"
    using sample_take [of "WaitingReturnScalar 3 1"] by auto
  with sample_answer [of v s1] show ?thesis by (simp add: return_result_def)
qed

lemma sample_run_reply:
  "\<exists>k'. message_run (sample_kernel (WaitingReturnScalar 3 1)) {} k' \<and> thread_state_of k' (3, 1) = Some TS_Ready"
proof -
  let ?k = "sample_kernel (WaitingReturnScalar 3 1)"
  obtain s1 where tk: "take_reply 0x03000000 None ?k = (Done (0, WaitingScalar 3 1), put_server 0 s1 ?k)"
    using sample_take [of "WaitingReturnScalar 3 1"] by auto
  obtain k' where k': "seq (answer 3 1 (R_Scalar1 7) (put_server 0 s1 ?k)) (\<lambda>_. answered 0 1) = (Done R_ResumeProcess, k')"
    using sample_answer by blast
  have "return_result 0 1 0x03000000 (R_Scalar1 7) ?k = (Done R_ResumeProcess, k')"
    unfolding return_result_def tk using k' by simp
  from message_run.continue [OF message_run.start message_step.returns_result [OF this]] answer_reaches(1) [OF k']
  show ?thesis by blast
qed

text \<open>The server answers lent memory with a scalar: the only sender loses its slot.\<close>

definition sample_lent :: queued_message where
  "sample_lent = WaitingReturnMemory 3 1 \<lparr>mr_addr = 0x20000, mr_size = 0x1000\<rparr> 0x10000"

lemma sample_run_lost:
  "\<exists>k'. message_run (sample_kernel sample_lent) {(3, 1)} k' \<and> thread_state_of k' (3, 1) = Some (WaitBlocking 0)
    \<and> (\<forall>i. \<not> queue_holds k' 0 i (3, 1))"
proof -
  let ?k = "sample_kernel sample_lent"
  obtain s1 where tk: "take_reply 0x03000000 None ?k = (Done (0, BorrowedMemory 3 1 0x10000), put_server 0 s1 ?k)"
    using sample_take [of sample_lent] by (auto simp: sample_lent_def)
  let ?k1 = "put_server 0 s1 ?k"
  have run: "return_result 0 1 0x03000000 (R_Scalar1 7) ?k = (Fail DoubleFree, ?k1)" by (simp add: return_result_def tk)
  have b: "blocked_thread sample_lent = Some (3, 1)" by (simp add: sample_lent_def)
  have "k_ok ?k" by (rule sample_ok) (simp_all add: sample_lent_def)
  note k1 = took_reply [OF this tk]
  have none: "\<not> queue_holds ?k1 y j u" for y j u
    using k1 w_slot_iff [of ?k y j u] w_slot_iff [of ?k1 y j u] sample_holds [of sample_lent y j u]
    by (auto simp: sample_sender split: if_splits)
  have "dropped ?k ?k1 = {(3, 1)}" using none b by (auto simp: dropped_def sample_holds)
  with message_run.fails_result [OF message_run.start run] have "message_run ?k {(3, 1)} ?k1" by simp
  moreover have "thread_state_of ?k1 (3, 1) = Some (WaitBlocking 0)"
    using sample_states [of sample_lent "(3, 1)"] by (simp add: thread_state_of_def k_thread_states_def put_server_process)
  ultimately show ?thesis using none by blast
qed




lemma unmap_own_page:
  "\<exists>v. unmap_range get \<lparr>ttbr0 = page_addr 0, map_pid = 2\<rparr> 0x10000 0x1000 sample_vm = (Done (), v)"
proof -
  let ?mp = "\<lparr>ttbr0 = page_addr 0, map_pid = 2\<rparr>"
  have m: "two_spaces 2 = Some ?mp" by (simp add: two_spaces_def)
  have v: "view_of two_spaces sample_vm 2 0x10000 = own_page" by (simp add: sample_view)
  obtain sl where sl: "get_l2_slot ?mp 0x10000 sample_vm = Done sl"
    using sample_pages unfolding get_l2_slot_user [OF sample_rel(1)] by (auto simp: group_at_def user_page_def)
  have "slot_read sl sample_vm = own_page" using slot_read_view [where maps = two_spaces, OF m sl] v by simp
  moreover have "is_mapped own_page" "entry_phys own_page = Done (page_addr 3)"
    using page_desc_addr [OF bus_view_page(1) [OF frame_3]] by (simp_all add: own_page_def)
  ultimately have phys: "virt_to_phys ?mp 0x10000 sample_vm = Done (page_addr 3)"
    by (simp add: virt_to_phys_def sl Let_def)
  obtain r1 m1 where crm: "claim_release_move get (page_addr 3) 2 Release (vm_frames sample_vm) = (r1, m1)" by fastforce
  obtain r s' where un: "unmap_page ?mp 0x10000 (sample_vm\<lparr>vm_frames := m1\<rparr>) = (r, s')" by fastforce
  from unmap_step_isolated [OF sample_isolated m phys crm un] have "r = Done ()" by simp
  moreover have "addr_range 0x10000 0x11000 = [0x10000]" by (simp add: addr_range_def)
  ultimately show ?thesis using phys crm un by (simp add: unmap_range_def on_frames_def)
qed

text \<open>The queue of process 2 is full, and a thread of process 3 waits for room in it.\<close>

definition full_server :: server where
  "full_server = \<lparr>srv_sid = SID 1 2 3 4, srv_pid = 2, queue_head = 0, queue_tail = 0, head_generation = 0, tail_generation = 128,
     empty_count = 0, queue = map (\<lambda>i. ScalarMessage 3 (of_nat i) 5 (0, 0, 0, 0)) [0..<128], ready_threads = 0,
     default_permissions = default_message_permissions, event_handlers = [None, None],
     srv_backing = \<lparr>mr_addr = 0x10000, mr_size = 0x1000\<rparr>\<rparr>"

definition full_kernel :: kernel where
  "full_kernel = \<lparr>k_procs = [2 \<mapsto> (sample_process 2 TS_Ready, \<lparr>ttbr0 = page_addr 0, map_pid = 2\<rparr>),
       3 \<mapsto> (sample_process 3 (RetryQueueFull 0), \<lparr>ttbr0 = page_addr 4, map_pid = 3\<rparr>)],
     k_sched = snd (ready_thread initial_scheduler (2, 1) AppDefault), k_current = 2, k_tid = 1, k_vm = sample_vm,
     k_servers = [Some full_server], k_results = Map.empty, k_requests = new_permission_requests, k_irqs = initial_irqs\<rparr>"

lemma full_server_ok: "server_ok full_server"
proof -
  have "fifo full_server [0..<128]" by (rule fifoI) (auto simp: full_server_def)
  moreover have "count_if (\<lambda>q. q = Empty) (queue full_server) = 0" by (simp add: full_server_def count_if_def)
  ultimately have "\<exists>ms. mailbox_rel full_server ms" by (auto simp: mailbox_rel_def wf_server_def) (simp_all add: full_server_def)
  then show ?thesis by (simp add: server_ok_def)
qed

lemma full_sidx: "server_from_sidx full_kernel x = (if x = 0 then Some full_server else None)"
  by (auto simp: server_from_sidx_def full_kernel_def)

lemma full_states: "thread_state_of full_kernel u =
    (if u = (2, 1) then Some TS_Ready else if u = (3, 1) then Some (RetryQueueFull 0)
     else if fst u \<in> {2, 3} \<and> snd u < MAX_THREAD_COUNT then Some TS_Free else None)"
  by (cases u) (auto simp: thread_state_of_def k_thread_states_def k_process_def full_kernel_def sample_process_def
      sched_consts nth_list_update)

lemma full_ok: "k_ok full_kernel"
  using full_server_ok by (simp add: k_ok_def full_sidx)

lemma full_accounted: "accounted (k_waits full_kernel)"
proof -
  have "\<not> queue_holds full_kernel x i u" for x i u by (auto simp: queue_holds_def full_sidx full_server_def)
  then show ?thesis
    by (intro accountedI)
      (auto simp: w_for_iff w_slot_iff w_recv_iff full_states full_sidx full_server_def waiting_threads_def)
qed

lemma no_requests: "fail_requests pred e (k\<lparr>k_requests := new_permission_requests\<rparr>) = (Done (), k\<lparr>k_requests := new_permission_requests\<rparr>)"
proof -
  have "find_index (matching pred) new_permission_requests = None"
    by (simp add: find_index_None new_permission_requests_def matching_def)
  then have "tombstone_next new_permission_requests pred = (None, new_permission_requests)" by (simp add: tombstone_next_def)
  then show ?thesis by (simp add: fail_requests.simps [of pred e])
qed

lemma destroy_scalars: "destroy_entries (map (\<lambda>i. ScalarMessage p (g i) m args) is) k = (Done (), k)"
  by (induction "is") simp_all

lemma no_connections:
  "(\<And>p pr mp. k_process k p = Some (pr, mp) \<Longrightarrow> find_index (connected_to x) (proc_connections pr) = None) \<Longrightarrow>
   tombstone_loop ps x k = (Done (), k)"
proof (induction ps)
  case (Cons p ps)
  have "on_connections p (\<lambda>m. tombstone_connection_by_sidx m x) k = (None, k) \<or>
      on_connections p (\<lambda>m. tombstone_connection_by_sidx m x) k = (Some None, k)"
  proof (cases "k_process k p")
    case (Some pm)
    then obtain pr mp where pr: "k_process k p = Some (pr, mp)" by (cases pm) simp
    with Cons.prems have "tombstone_connection_by_sidx (proc_connections pr) x = (None, proc_connections pr)"
      by (simp add: tombstone_connection_by_sidx_def)
    moreover have "(k_procs k)(p \<mapsto> (pr, mp)) = k_procs k" using pr by (auto simp: k_process_some)
    ultimately show ?thesis using pr by (simp add: on_connections_def)
  qed (simp add: on_connections_def)
  with Cons show ?case by auto
qed simp

lemma full_destroy: "\<exists>k'. destroy_server 2 (SID 1 2 3 4) full_kernel = (Done (), k')"
proof -
  have f: "fail_requests pred e full_kernel = (Done (), full_kernel)" for pred e
    using no_requests [of pred e full_kernel] by (simp add: full_kernel_def)
  let ?k = "full_kernel\<lparr>k_servers := [None]\<rparr>"
  have q: "destroy_entries (queue full_server) ?k = (Done (), ?k)" by (simp only: full_server_def server.select_convs destroy_scalars)
  have w: "wake_receivers 2 full_server ?k = (Done (), ?k)"
    by (simp add: wake_receivers.simps [of 2 full_server] take_available_thread_def) (simp add: full_server_def)
  obtain v where "unmap_range (mem_get (k_mem ?k)) \<lparr>ttbr0 = page_addr 0, map_pid = 2\<rparr> 0x10000 0x1000 sample_vm = (Done (), v)"
    using unmap_own_page by blast
  then have u: "unmap_current 0x10000 0x1000 ?k = (Done (), ?k\<lparr>k_vm := v\<rparr>)"
    by (simp add: unmap_current_def) (simp add: full_kernel_def k_process_def MAX_PROCESS_COUNT_def)
  have "mr_addr (srv_backing full_server) = 0x10000" "length (queue full_server) * QUEUED_MESSAGE_SIZE = 4096" "k_current ?k = 2"
    by (simp_all add: full_server_def full_kernel_def QUEUED_MESSAGE_SIZE_def)
  with q w u have d: "destroy full_server ?k = (Done (), ?k\<lparr>k_vm := v\<rparr>)" by (simp add: destroy_def unwrapped_def)
  have t: "tombstone_loop ps 0 (?k\<lparr>k_vm := v\<rparr>) = (Done (), ?k\<lparr>k_vm := v\<rparr>)" for ps
  proof (rule no_connections)
    fix p pr mp assume "k_process (?k\<lparr>k_vm := v\<rparr>) p = Some (pr, mp)"
    then have "proc_connections pr = initial_connection_map"
      by (auto simp: k_process_some full_kernel_def sample_process_def process_new_def split: if_splits)
    then show "find_index (connected_to 0) (proc_connections pr) = None"
      by (simp add: find_index_None initial_connection_map_def)
  qed
  have "sidx_from_sid (SID 1 2 3 4) 2 full_kernel = Some 0" by (simp add: sidx_from_sid_def full_kernel_def full_server_def)
  moreover have "destroy_sidx 0 full_kernel = (Done (), ?k\<lparr>k_vm := v\<rparr>)"
    using d t by (simp add: destroy_sidx_def f full_sidx) (simp add: full_kernel_def)
  ultimately show ?thesis by (simp add: destroy_server_def)
qed

section \<open>A kernel to send memory in\<close>
















section \<open>Properties\<close>

text \<open>
  C6: The calls implement the protocol of waiting. Take any sequence of sends, receives, replies,
  connections and disconnections, answers of the permission broker, servers created and destroyed
  and processes ended, by any processes, each with the state it leaves whether it succeeds or fails,
  short of a panic. The view of who waits where has changed only by the six steps of the protocol (a
  sender enters a free slot, a sender is answered and its slot freed, a thread of a server parks, a
  parked thread is handed a message, a server closes and releases all that wait there, a process
  leaves with its threads), and by the loss of a slot by each sender in \<open>L\<close>, the senders whose slot a
  failing reply has emptied.
\<close>

theorem message_calls_refine_waiting:
  assumes "message_run k L k'" and "k_ok k"
  shows "k_ok k' \<and> wait_run (k_waits k) L (k_waits k')"
  using assms by (rule message_run_waits)

theorem message_calls_refine_waiting_witness:
  "\<exists>k'. message_run (sample_kernel (WaitingReturnScalar 3 1)) {} k' \<and> k_waits k' \<noteq> k_waits (sample_kernel (WaitingReturnScalar 3 1))
    \<and> wait_run (k_waits (sample_kernel (WaitingReturnScalar 3 1))) {} (k_waits k')"
proof -
  let ?k = "sample_kernel (WaitingReturnScalar 3 1)"
  obtain k' where run: "message_run ?k {} k'" "thread_state_of k' (3, 1) = Some TS_Ready"
    using sample_run_reply by blast
  have ok: "k_ok ?k" by (rule sample_ok) simp_all
  have "w_for (k_waits k') (3, 1) \<noteq> w_for (k_waits ?k) (3, 1)" using run(2) by (simp add: w_for_state sample_states)
  with message_calls_refine_waiting [OF run(1) ok] run(1) show ?thesis by metis
qed

text \<open>
  C5: Nobody waits for nothing, but for failing replies. After any such sequence a thread that a slot of
  the server's queue holds for the answer is blocked on that server and in no second slot; a thread
  that is blocked on a server is in a slot of its queue, unless its slot has been taken by a reply
  that failed (\<open>L\<close>; without such replies \<open>L\<close> is empty, and blocked threads are exactly those in one
  slot); and a thread waits for a message exactly when the server's mask of ready threads names it.
\<close>

theorem waiting_threads_accounted:
  assumes "message_run k L k'" and "k_ok k" and "accounted (k_waits k)"
  shows "((\<exists>i. queue_holds k' x i u) \<longrightarrow> (\<exists>!i. queue_holds k' x i u) \<and> thread_state_of k' u = Some (WaitBlocking x))
    \<and> (thread_state_of k' u = Some (WaitBlocking x) \<longrightarrow> (\<exists>i. queue_holds k' x i u) \<or> u \<in> L)
    \<and> (thread_state_of k' u = Some (WaitReceive x) \<longleftrightarrow>
        (\<exists>s. server_from_sidx k' x = Some s \<and> fst u = srv_pid s \<and> snd u \<in> waiting_threads s))"
proof -
  have "accounted_but L (k_waits k')" using message_run_waits [OF assms(1,2)] wait_run_accounted assms(3) by blast
  note a = accounted_butD [OF this]
  show ?thesis using a(1) [of x _ u] a(2) [of u x] a(3) [of x _ u] a(4) [of u x]
    by (simp only: w_for_iff w_slot_iff w_recv_iff) blast
qed

theorem waiting_threads_accounted_witness:
  "\<exists>k'. message_run (sample_kernel (WaitingReturnScalar 3 1)) {} k' \<and> thread_state_of k' (3, 1) = Some TS_Ready
    \<and> (\<forall>i. \<not> queue_holds k' 0 i (3, 1))
    \<and> (\<exists>k1. message_run (sample_kernel sample_lent) {(3, 1)} k1 \<and> thread_state_of k1 (3, 1) = Some (WaitBlocking 0)
        \<and> (\<forall>i. \<not> queue_holds k1 0 i (3, 1)))"
proof -
  let ?k = "sample_kernel (WaitingReturnScalar 3 1)"
  obtain k' where run: "message_run ?k {} k'" "thread_state_of k' (3, 1) = Some TS_Ready"
    using sample_run_reply by blast
  have ok: "k_ok ?k" by (rule sample_ok) simp_all
  have "accounted (k_waits ?k)" by (rule sample_accounted) simp
  from waiting_threads_accounted [OF run(1) ok this, of 0 "(3, 1)"] run sample_run_lost show ?thesis by auto
qed

text \<open>
  C15: A successful reply to a scalar message wakes its sender and nobody else gets the answer: the slot
  named by the sender id held a thread that was blocked on this very server; that thread is ready
  with the answer as its result, the slot is free, and both sides of waiting still agree. The only
  other case is that the sender had terminated.
\<close>

theorem reply_wakes_its_sender:
  assumes ok: "k_ok k" and acc: "accounted (k_waits k)" and me: "thread_state_of k (k_current k, st) = Some TS_Ready"
    and x: "x = unat (sid_sidx (sender_id_from_usize sender))" and i: "i = unat (sid_idx (sender_id_from_usize sender))"
    and run: "return_result usage st sender v k = (Done y, k')"
  shows "accounted (k_waits k') \<and> (\<forall>u. \<not> queue_holds k' x i u)
    \<and> (\<exists>s. server_from_sidx k x = Some s \<and> srv_pid s = k_current k
        \<and> (queue s ! i = WaitingReturnScalarTerminated
           \<or> (\<exists>p t. queue s ! i = WaitingReturnScalar p t \<and> thread_state_of k (p, t) = Some (WaitBlocking x)
               \<and> thread_state_of k' (p, t) = Some TS_Ready
               \<and> k_results k' (p, t) = Some v \<and> k_results k' (k_current k, st) = Some R_Ok)))"
proof -
  obtain x1 w k1 where tk: "take_reply sender None k = (Done (x1, w), k1)"
    and rest: "(case w of
         WaitingScalar p t \<Rightarrow> seq (answer p t v k1) (\<lambda>_. answered usage st)
       | ScalarMessageTerminated \<Rightarrow> answered usage st k1
       | _ \<Rightarrow> (Fail DoubleFree, k1)) = (Done y, k')"
    using seq_Done [OF run [unfolded return_result_def]] by auto
  obtain s s1 where s: "x1 = x" "server_from_sidx k x = Some s" "srv_pid s = k_current k"
    "take_waiting_message s i None = (Done w, s1)" "k_results k1 = k_results k"
    using take_reply_slot [OF tk] x i by metis
  have acc': "accounted (k_waits k')"
    using return_result_waits [OF ok run] wait_steps_accounted acc by blast
  note k1 = took_reply [OF ok tk, folded i, unfolded s(1)]
  show ?thesis
  proof (cases w)
    case (WaitingScalar p t)
    have u: "w_slot (k_waits k) x i = Some (p, t)" using k1 WaitingScalar by simp
    have st: "thread_state_of k (p, t) = Some (WaitBlocking x)"
      using accountedD(1) [OF acc, of "(p, t)" x] u w_for_iff(1) [of k "(p, t)" x] by blast
    have run1: "seq (answer p t v k1) (\<lambda>_. answered usage st) = (Done y, k')" using rest WaitingScalar by simp
    obtain k3 where a: "answer p t v k1 = (Done (), k3)" and b: "answered usage st k3 = (Done y, k')"
      using seq_Done [OF run1] by auto
    have "w_slot (k_waits k') x i = None"
      using answered_waits [OF b] answer_waits [OF a] k1 WaitingScalar by auto
    then have free: "\<not> queue_holds k' x i u" for u using w_slot_iff [of k' x i u] by simp
    from answer_reaches [OF run1] s k1 have "k_results k' = (k_results k)((p, t) \<mapsto> v, (k_current k, st) \<mapsto> R_Ok)"
      "thread_state_of k' (p, t) = Some TS_Ready" by simp_all
    moreover from this have "k_results k' (p, t) = Some v" "k_results k' (k_current k, st) = Some R_Ok"
      using st me by auto
    ultimately show ?thesis using st acc' free s(2,3) scalar_slot(1) [OF s(4) [unfolded WaitingScalar]] by auto
  next
    case ScalarMessageTerminated
    have "answered usage st k1 = (Done y, k')" using rest ScalarMessageTerminated by simp
    from answered_waits [OF this] k1 ScalarMessageTerminated have "w_slot (k_waits k') x i = None" by auto
    then have free: "\<not> queue_holds k' x i u" for u using w_slot_iff [of k' x i u] by simp
    with acc' s(2,3) scalar_slot(2) [OF s(4) [unfolded ScalarMessageTerminated]] show ?thesis by auto
  qed (use rest in simp_all)
qed

theorem reply_wakes_its_sender_witness:
  "\<exists>k'. return_result 0 1 0x03000000 (R_Scalar1 7) (sample_kernel (WaitingReturnScalar 3 1)) = (Done R_ResumeProcess, k')
    \<and> thread_state_of k' (3, 1) = Some TS_Ready \<and> k_results k' (3, 1) = Some (R_Scalar1 7)"
proof -
  let ?k = "sample_kernel (WaitingReturnScalar 3 1)"
  obtain k' where run: "return_result 0 1 0x03000000 (R_Scalar1 7) ?k = (Done R_ResumeProcess, k')" using sample_reply by blast
  have ok: "k_ok ?k" by (rule sample_ok) simp_all
  have acc: "accounted (k_waits ?k)" by (rule sample_accounted) simp
  have me: "thread_state_of ?k (k_current ?k, 1) = Some TS_Ready" unfolding sample_states by (simp add: sample_kernel_def)
  have ids: "0 = unat (sid_sidx (sender_id_from_usize 0x03000000))" "0 = unat (sid_idx (sender_id_from_usize 0x03000000))"
    by (simp_all add: sample_sender)
  have q: "queue (sample_server (WaitingReturnScalar 3 1)) ! 0 = WaitingReturnScalar 3 1" by (simp add: sample_server_def)
  from reply_wakes_its_sender [OF ok acc me ids run] run q show ?thesis by (auto simp: sample_sidx)
qed



text \<open>
  C20: Answering lent memory with a scalar reply strands the sender. The call fails with
  \<open>DoubleFree\<close> as intended, but the slot has been emptied before its kind is checked: the sender
  stays blocked on the server, and no slot of it holds the sender any more, so no later reply can
  reach it.
\<close>

theorem wrong_reply_strands_sender:
  assumes ok: "k_ok k" and acc: "accounted (k_waits k)"
    and x: "x = unat (sid_sidx (sender_id_from_usize sender))" and i: "i = unat (sid_idx (sender_id_from_usize sender))"
    and s: "server_from_sidx k x = Some s" "srv_pid s = k_current k" "\<not> is_queue_full s"
    and slot: "i < length (queue s)" "queue s ! i = WaitingReturnMemory p t b a"
  shows "\<exists>k'. return_result usage st sender v k = (Fail DoubleFree, k')
    \<and> thread_state_of k' (p, t) = Some (WaitBlocking x) \<and> (\<forall>j. \<not> queue_holds k' x j (p, t))"
proof -
  obtain s1 where tk: "take_waiting_message s i None = (Done (BorrowedMemory p t a), s1)"
    using slot by (simp add: take_waiting_message_def)
  let ?k = "put_server x s1 k"
  have tr: "take_reply sender None k = (Done (x, BorrowedMemory p t a), ?k)"
    using s tk x i by (simp add: take_reply_def Let_def)
  then have run: "return_result usage st sender v k = (Fail DoubleFree, ?k)" by (simp add: return_result_def)
  note k1 = took_reply [OF ok tr, folded i]
  then have held: "w_slot (k_waits k) x i = Some (p, t)" by simp
  have "w_slot (k_waits ?k) x j \<noteq> Some (p, t)" for j
    using k1 held accountedD(2) [OF acc held, of j] by auto
  then have "\<not> queue_holds ?k x j (p, t)" for j using w_slot_iff [of ?k x j "(p, t)"] by simp
  moreover have "w_for (k_waits ?k) (p, t) = Some (Sending x)"
    using k1 accountedD(1) [OF acc, of "(p, t)" x] held by auto
  ultimately show ?thesis using run w_for_iff(1) [of ?k "(p, t)" x] by blast
qed

theorem wrong_reply_strands_sender_witness:
  "\<exists>k'. return_result 0 1 0x03000000 (R_Scalar1 7)
        (sample_kernel (WaitingReturnMemory 3 1 \<lparr>mr_addr = 0x20000, mr_size = 0x1000\<rparr> 0x10000)) = (Fail DoubleFree, k')
    \<and> thread_state_of k' (3, 1) = Some (WaitBlocking 0) \<and> (\<forall>j. \<not> queue_holds k' 0 j (3, 1))"
proof (rule wrong_reply_strands_sender)
  let ?q = "WaitingReturnMemory 3 1 \<lparr>mr_addr = 0x20000, mr_size = 0x1000\<rparr> 0x10000"
  show "k_ok (sample_kernel ?q)" by (rule sample_ok) simp_all
  show "accounted (k_waits (sample_kernel ?q))" by (rule sample_accounted) simp
  show "0 = unat (sid_sidx (sender_id_from_usize 0x03000000))" "0 = unat (sid_idx (sender_id_from_usize 0x03000000))"
    by (simp_all add: sample_sender)
  show "server_from_sidx (sample_kernel ?q) 0 = Some (sample_server ?q)" by (simp add: sample_sidx)
  show "srv_pid (sample_server ?q) = k_current (sample_kernel ?q)" "\<not> is_queue_full (sample_server ?q)"
    "0 < length (queue (sample_server ?q))" "queue (sample_server ?q) ! 0 = ?q"
    by (simp_all add: sample_server_def sample_kernel_def is_queue_full_def)
qed

text \<open>
  C21: Destroying a server forgets the senders that wait for room in its queue. They are woken only when
  the queue stops being full, and destroying it, successfully, wakes neither them nor leaves a
  server behind that could: the sender sleeps on in \<open>RetryQueueFull\<close>.
\<close>

theorem destroyed_server_strands_senders:
  assumes ok: "k_ok k" and acc: "accounted (k_waits k)" and x: "sidx_from_sid sd (k_current k) k = Some x"
    and u: "thread_state_of k u = Some (RetryQueueFull x)"
    and run: "destroy_server (k_current k) sd k = (Done y, k')"
  shows "thread_state_of k' u = Some (RetryQueueFull x) \<and> server_from_sidx k' x = None"
proof -
  obtain s where s: "server_from_sidx k x = Some s" "srv_pid s = k_current k" using sidx_from_sid_server [OF x] by blast
  have "destroy_sidx x k = (Done y, k')" using run x by (simp add: destroy_server_def)
  from destroy_sidx_stays [OF ok acc this _ u] s show ?thesis by simp
qed

theorem destroyed_server_strands_senders_witness:
  "\<exists>k'. destroy_server 2 (SID 1 2 3 4) full_kernel = (Done (), k')
    \<and> is_queue_full full_server \<and> thread_state_of full_kernel (3, 1) = Some (RetryQueueFull 0)
    \<and> thread_state_of k' (3, 1) = Some (RetryQueueFull 0) \<and> server_from_sidx k' 0 = None"
proof -
  obtain k' where run: "destroy_server 2 (SID 1 2 3 4) full_kernel = (Done (), k')" using full_destroy by blast
  have c: "k_current full_kernel = 2" by (simp add: full_kernel_def)
  have x: "sidx_from_sid (SID 1 2 3 4) (k_current full_kernel) full_kernel = Some 0"
    by (simp add: sidx_from_sid_def full_kernel_def full_server_def)
  have u: "thread_state_of full_kernel (3, 1) = Some (RetryQueueFull 0)" by (simp add: full_states)
  from destroyed_server_strands_senders [OF full_ok full_accounted x u run [folded c]] run u show ?thesis
    by (simp add: is_queue_full_def full_server_def)
qed

end
