(* ===== verification/Spec2Isabelle.thy ===== *)
theory Spec2Isabelle
  imports Scheduler Server_Queue Connection_Table Permission_Requests Irq_Table System_Calls Processes Message_Calls
begin

text \<open>
  KeyOS is an operating system for a 32-bit ARM device: a microkernel in the style of Xous
  (\<open>xous/kernel/src\<close>), its system call interface (\<open>xous/xous-rs/src\<close>), and servers and programs
  in user space that talk to each other in messages through the kernel. This library models the
  kernel and its interface and proves what makes them correct. A function of the source that can
  return an error is a function into \<open>outcome\<close> (\<open>Prelude\<close>): \<open>Done\<close> a value, \<open>Fail\<close> an error of
  \<open>Xous_Defs\<close>, or \<open>Panic\<close>; state is passed and returned. Machine integers are words of their width.

  \<^bold>\<open>The parts of the kernel and how they meet.\<close>
  A program traps into the kernel with eight registers (\<open>System_Calls\<close>). A message goes out on a
  connection, a numbered slot of its process (\<open>Connection_Table\<close>) with a set of permitted message
  ids (\<open>Message_Permissions\<close>); a message that is not permitted waits in a table of requests
  (\<open>Permission_Requests\<close>). The server's queue (\<open>Server_Queue\<close>) holds it until a thread of the
  server takes it, and remembers the sender until it is answered. Blocking and waking change the
  state of a thread (\<open>Processes\<close>) and with it the ready queues (\<open>Scheduler\<close>). The memory of a
  message moves or is lent from process to process (\<open>Message_Memory\<close>), which changes two address
  spaces (\<open>Page_Entries\<close>, \<open>Page_Tables\<close>, \<open>Address_Spaces\<close>, \<open>Address_Search\<close>) and the owners of the
  pages (\<open>Frame_Allocator\<close>, \<open>Memory_Mappings\<close>). Interrupts have their own table (\<open>Irq_Table\<close>).
  The calls put these parts together over one record \<open>kernel\<close>: messages in \<open>Kernel_Messages\<close>,
  permission checks, events, connections, servers and the end of processes in \<open>Server_Lifecycle\<close>.

  \<^bold>\<open>Theories and sources.\<close>
  \<^item> \<open>Prelude\<close>: machine types, \<open>outcome\<close> and its sequencing \<open>seq\<close>, facts on lists, tables and words.
  \<^item> \<open>Xous_Defs\<close>, \<open>Messages\<close>, \<open>System_Calls\<close>: \<open>definitions.rs\<close>, \<open>definitions/memoryflags.rs\<close>,
    \<open>definitions/messages\<close>, \<open>arch/arm/mod.rs\<close> and \<open>syscall.rs\<close> of \<open>xous-rs\<close>: errors, ranges, flags,
    messages, results and the calls with their encoders and decoders. The lemmas are round trips;
    the decoder is total and what it accepts it can encode.
  \<^item> \<open>Scheduler\<close> (\<open>scheduler.rs\<close>): sixteen circular lists in one table of links. Every operation
    simulates one on a list of threads per priority. The locale \<open>round_robin\<close> states what taking
    turns means; \<open>sched\<close> interprets it for the linked tables.
  \<^item> \<open>Processes\<close> (\<open>process.rs\<close>, process table of \<open>services.rs\<close>): thread states and priorities kept in
    step with the ready queues, waking, creating and ending processes, names and permissions. The
    invariant excludes the end of a process in its own interrupt; \<open>stuck\<close> is the state after that.
  \<^item> \<open>Message_Permissions\<close>, \<open>Server_Queue\<close> (\<open>server.rs\<close>): permitted ids; the queue as a mailbox. The
    locale \<open>mailbox\<close> states first in, first out; \<open>mbox\<close> interprets it for the ring of slots with
    its 8-bit generations. A queue has 128 slots, so no two pending messages share a generation.
  \<^item> \<open>Connection_Table\<close> (\<open>process.rs\<close>): connection ids with generations. The locale \<open>handle_table\<close>
    states that a retired handle stays retired; \<open>conns\<close> interprets it.
  \<^item> \<open>Permission_Requests\<close> (\<open>permission_requests.rs\<close>), \<open>Irq_Table\<close> (\<open>irq.rs\<close>).
  \<^item> \<open>Frame_Allocator\<close> (\<open>mem.rs\<close>, \<open>platform/atsama5d2/page_zeroer.rs\<close>): the owner of every page, the
    bitmaps of free pages, allocation, claiming and releasing, and the background zeroer. A ghost
    set of scrubbed pages follows the transfers of the zeroer, to say what \<open>zeroed\<close> means.
  \<^item> \<open>Page_Entries\<close>, \<open>Page_Tables\<close>, \<open>Address_Spaces\<close> (\<open>arch/arm/mem.rs\<close>, the descriptors of the crate
    \<open>armv7\<close>): table entries bit by bit, walking and growing the tables in physical memory, and the
    operations on one page. \<open>view_of\<close> reads the tables of all processes as one map from processes
    and pages to entries; every operation is an update of it (\<open>page_spec\<close>). \<open>data_kept\<close> says that
    the contents of owned pages stay, \<open>new_frames\<close> that a page given to a process reads as zero.
  \<^item> \<open>Address_Search\<close> (\<open>arch/arm/mem.rs\<close>, \<open>process.rs\<close>): looking for free addresses.
  \<^item> \<open>Memory_Mappings\<close>, \<open>Memory_Isolation\<close> (\<open>mem.rs\<close>): mapping and unmapping ranges, moving, lending
    and returning pages with their owners. The invariant \<open>isolated\<close> says that a process only has
    pages of RAM mapped that it owns, each once, and none with a table on it. \<open>mem_step\<close> is all
    that processes, kernel and zeroer do to memory, and every \<open>orderly\<close> step keeps the invariant. Two
    kinds of steps are not orderly, and the kernel prevents neither: the read-only mirror of a range
    in another process (\<open>mirrored_twice\<close>), and the return of a page that the borrower has not mapped
    any more (\<open>relend_leaves_dangling_page\<close>).
  \<^item> \<open>Range_Transfers\<close>, \<open>Message_Memory\<close> (\<open>services.rs\<close>): the memory of messages. The locale
    \<open>transaction\<close> states when a loop of steps that can fail is all or nothing; \<open>lend\<close> and \<open>move\<close>
    interpret it for the two loops over the pages of a message.
  \<^item> \<open>Waiting_Threads\<close>: the kernel keeps twice who waits for what, in the states of the threads and in
    the servers (slots that hold a sender, a mask of threads that want a message). The record
    \<open>waits\<close> is both sides, \<open>wait_step\<close> the six steps that change them, \<open>accounted\<close> their agreement.
    A failing reply can empty the slot of a sender that stays blocked; \<open>wait_run\<close> collects these
    senders in a set \<open>L\<close>, and \<open>accounted_but L\<close> is the agreement on everything else.
  \<^item> \<open>Kernel_Messages\<close> (\<open>syscall.rs\<close>, \<open>services.rs\<close>): \<open>send_message\<close>, \<open>receive_message\<close>, \<open>return_result\<close>
    and \<open>return_memory\<close> as the handlers compose them from all parts. \<open>k_waits\<close> reads both sides of
    waiting off the kernel; the lemmas say which steps each call makes.
  \<^item> \<open>Server_Lifecycle\<close> (\<open>services.rs\<close>, \<open>server.rs\<close>, \<open>syscall.rs\<close>): the permission check of a send and
    its answer by the broker, calls that wait and try again, events, creating, connecting,
    disconnecting and destroying servers, and \<open>terminate_current_process\<close>. \<open>Lifecycle_Waits\<close> says
    which steps these make; a process that ends is compared to the kernel seen without it.
    \<open>Call_Outcomes\<close> says how the calls fail, and what they have changed when they do.
  \<^item> \<open>Message_Calls\<close>: the memory goes with its message or stays; \<open>message_run\<close> is any sequence of
    calls that do not panic, successful or not, under which both sides of waiting stay in agreement
    but for the senders that failing replies have lost; what a reply does, and two ways in which a
    thread can be left waiting.

  \<^bold>\<open>Bounds and fuel.\<close>
  The tables have the sizes of the source: 64 processes of 8 threads, 16 priorities, 64 connections,
  128 slots per queue, 64 requests, 32 interrupts, 32768 pages of RAM. Two functions have fuel:
  \<open>take_loop\<close>, the search for the next message, gets one step per slot, and \<open>wf_server\<close>, which
  every operation keeps, has the message within these; \<open>ready_loop\<close>, the search for a waiting
  thread, gets one step per bit of the mask. The searches over addresses recurse on the distance to
  the end, the draining of requests on their number and the waking of a server's threads on theirs.

  \<^bold>\<open>What the memory model leaves out.\<close>
  The kernel's own mapping (process 1) is not among the address spaces, and the two physical views
  of RAM, encrypted and plain, differ only in their base. The contents of a page matter for page
  tables and for zeroes. Caches, the translation buffer and the hardware's walk of the tables
  are not modelled. A range of device memory is outside of the theorems on transfers, as its
  pages may be mapped without an owner. Not part of \<open>mem_step\<close>: the deferred clearing of large
  ranges by DMA. The event that announces low memory to the servers is counted (\<open>low_events\<close>) but
  not sent: \<open>subtract_free_pages\<close> works on the page accounts, which hold no servers.

  \<^bold>\<open>Not modelled.\<close>
  The dispatch of \<open>syscall.rs\<close> with its check of the calling process, and the calls that only touch
  one of the parts (futexes, joining and priorities of threads, statistics, panic messages, debug
  commands); creating threads and processes as far as they need the registers. The register
  contexts, exception entry, the ELF loader, drivers and debug output of the kernel are hardware
  state and input or output. The servers and programs of user space, the boot loader, the tools and
  the vendored libraries are outside of the kernel.
\<close>

end
